(* ===== verification/Prelude.thy ===== *)
theory Prelude
  imports Main "HOL-Library.Word"
begin

text \<open>
  Shared vocabulary of the development: the error values of the modelled C++ code, results that
  are either an error or a value, the range-for loop over such results, and generic lemmas on
  lists, alignment and words that several components use.

  The C++ sources state their preconditions with \<open>assert\<close>. The model is the build in which
  assertions are enabled, so a failed assertion is the value \<open>Inl (AssertFail msg)\<close>; where the
  source calls \<open>std::abort\<close> the model returns \<open>Inl (Aborted msg)\<close>; an operation whose
  behaviour C++ leaves undefined (a shift by the width, a read past the end, a modulus by zero)
  is \<open>Inl (Undefined msg)\<close>; a use of a member that the chosen template instance does not have,
  which the compiler rejects, is \<open>Inl (NoMember msg)\<close>.
\<close>

section \<open>Errors and results\<close>

datatype error = AssertFail string | Aborted string | Undefined string | NoMember string

type_synonym 'a res = "error + 'a"

definition rbind :: "'a res \<Rightarrow> ('a \<Rightarrow> 'b res) \<Rightarrow> 'b res" where
  "rbind m f = (case m of Inl e \<Rightarrow> Inl e | Inr x \<Rightarrow> f x)"

definition check :: "bool \<Rightarrow> string \<Rightarrow> unit res" where
  "check b msg = (if b then Inr () else Inl (AssertFail msg))"

named_theorems res_simps \<open>evaluation of results\<close>

lemma rbind_Inl [simp, res_simps]: "rbind (Inl e) f = Inl e"
  by (simp add: rbind_def)

lemma rbind_Inr [simp, res_simps]: "rbind (Inr x) f = f x"
  by (simp add: rbind_def)

lemma check_True [simp, res_simps]: "b \<Longrightarrow> check b msg = Inr ()"
  by (simp add: check_def)

lemma check_False [simp, res_simps]: "\<not> b \<Longrightarrow> check b msg = Inl (AssertFail msg)"
  by (simp add: check_def)

lemma rbind_eq_Inr: "rbind m f = Inr y \<longleftrightarrow> (\<exists>x. m = Inr x \<and> f x = Inr y)"
  by (cases m) auto

lemma rbind_eq_Inl: "rbind m f = Inl e \<longleftrightarrow> m = Inl e \<or> (\<exists>x. m = Inr x \<and> f x = Inl e)"
  by (cases m) auto

lemma check_eq_Inr: "check b msg = Inr u \<longleftrightarrow> b"
  by (cases b) auto

lemma check_eq_Inl: "check b msg = Inl e \<longleftrightarrow> \<not> b \<and> e = AssertFail msg"
  by (cases b) auto

lemma rbind_cong [fundef_cong]:
  "m = m' \<Longrightarrow> (\<And>x. m' = Inr x \<Longrightarrow> f x = f' x) \<Longrightarrow> rbind m f = rbind m' f'"
  by (cases m') auto

lemmas res_elims = rbind_eq_Inr check_eq_Inr

section \<open>Loops\<close>

text \<open>A range-for loop whose body may fail: it stops at the first error.\<close>

fun for_each :: "('a \<Rightarrow> 's \<Rightarrow> 's res) \<Rightarrow> 'a list \<Rightarrow> 's \<Rightarrow> 's res" where
  "for_each f [] s = Inr s"
| "for_each f (x # xs) s = rbind (f x s) (for_each f xs)"

lemma for_each_append: "for_each f (xs @ ys) s = rbind (for_each f xs s) (for_each f ys)"
  by (induction xs arbitrary: s) (auto simp: rbind_def split: sum.splits)

text \<open>The loop rule: an invariant indexed by the elements already processed.\<close>

lemma for_each_rule:
  assumes "P [] s"
    and "\<And>ys y zs t. xs = ys @ y # zs \<Longrightarrow> P ys t \<Longrightarrow> \<exists>t'. f y t = Inr t' \<and> P (ys @ [y]) t'"
  shows "\<exists>t. for_each f xs s = Inr t \<and> P xs t"
proof -
  have "\<exists>t. for_each f zs u = Inr t \<and> P xs t" if "xs = ys @ zs" "P ys u" for ys zs u
    using that
  proof (induction zs arbitrary: ys u)
    case Nil
    then show ?case by simp
  next
    case (Cons z zs)
    obtain t' where "f z u = Inr t'" "P (ys @ [z]) t'"
      using assms(2) [OF Cons.prems] by blast
    then show ?case using Cons.IH [of "ys @ [z]" t'] Cons.prems(1) by simp
  qed
  from this [of "[]" xs s] assms(1) show ?thesis by simp
qed

lemma for_each_map: "for_each f (map g xs) s = for_each (\<lambda>x. f (g x)) xs s"
  by (induction xs arbitrary: s) (auto simp: rbind_def split: sum.splits)

lemma for_each_cong:
  "(\<And>x s. x \<in> set xs \<Longrightarrow> f x s = g x s) \<Longrightarrow> for_each f xs s = for_each g xs s"
  by (induction xs arbitrary: s) (auto simp: rbind_def split: sum.splits)

text \<open>A body that skips some elements runs over the others only.\<close>

lemma for_each_filter:
  "for_each (\<lambda>x s. if P x then f x s else Inr s) xs s = for_each f (filter P xs) s"
  by (induction xs arbitrary: s) (auto simp: rbind_def split: sum.splits)

text \<open>A loop whose body never fails is a fold.\<close>

lemma for_each_pure: "(\<And>x s. f x s = Inr (g x s)) \<Longrightarrow> for_each f xs s = Inr (fold g xs s)"
  by (induction xs arbitrary: s) auto

section \<open>Results of code that may not return\<close>

text \<open>\<open>None\<close>: a busy wait that never ends.\<close>

definition obind :: "'a res option \<Rightarrow> ('a \<Rightarrow> 'b res option) \<Rightarrow> 'b res option" where
  "obind m f = (case m of None \<Rightarrow> None | Some (Inl e) \<Rightarrow> Some (Inl e) | Some (Inr x) \<Rightarrow> f x)"

lemma obind_simps [simp]:
  "obind None f = None" "obind (Some (Inl e)) f = Some (Inl e)" "obind (Some (Inr x)) f = f x"
  by (simp_all add: obind_def)

lemma obind_eq_Inr: "obind m f = Some (Inr y) \<longleftrightarrow> (\<exists>x. m = Some (Inr x) \<and> f x = Some (Inr y))"
  by (auto simp: obind_def split: option.splits sum.splits)

fun ofor_each :: "('a \<Rightarrow> 's \<Rightarrow> 's res option) \<Rightarrow> 'a list \<Rightarrow> 's \<Rightarrow> 's res option" where
  "ofor_each f [] s = Some (Inr s)"
| "ofor_each f (x # xs) s = obind (f x s) (ofor_each f xs)"

text \<open>The loop rule, as for loops that always return.\<close>

lemma ofor_each_rule:
  assumes "P [] s"
    and "\<And>ys y zs t. xs = ys @ y # zs \<Longrightarrow> P ys t \<Longrightarrow> \<exists>t'. f y t = Some (Inr t') \<and> P (ys @ [y]) t'"
  shows "\<exists>t. ofor_each f xs s = Some (Inr t) \<and> P xs t"
proof -
  have "\<exists>t. ofor_each f zs u = Some (Inr t) \<and> P xs t" if "xs = ys @ zs" "P ys u" for ys zs u
    using that
  proof (induction zs arbitrary: ys u)
    case (Cons z zs)
    obtain t' where "f z u = Some (Inr t')" "P (ys @ [z]) t'"
      using assms(2) [OF Cons.prems] by blast
    then show ?case using Cons.IH [of "ys @ [z]" t'] Cons.prems(1) by simp
  qed simp
  from this [of "[]" xs s] assms(1) show ?thesis by simp
qed

section \<open>Alignment\<close>

text \<open>
  \<open>((n + a - 1) / a) * a\<close>: the rounding the code uses for offsets in argument buffers, for
  blob addresses and for grid sizes.
\<close>

definition round_up :: "nat \<Rightarrow> nat \<Rightarrow> nat" where
  "round_up n a = ((n + a - 1) div a) * a"

lemma round_up_ge: "0 < a \<Longrightarrow> n \<le> round_up n a"
proof -
  assume a: "0 < a"
  have "(n + a - 1) = (n + a - 1) div a * a + (n + a - 1) mod a" by simp
  moreover have "(n + a - 1) mod a < a" using a by simp
  ultimately show ?thesis unfolding round_up_def by linarith
qed

lemma round_up_less: "0 < a \<Longrightarrow> round_up n a < n + a"
proof -
  assume a: "0 < a"
  have "(n + a - 1) div a * a \<le> n + a - 1" by simp
  also have "\<dots> < n + a" using a by simp
  finally show ?thesis by (simp add: round_up_def)
qed

lemma round_up_dvd [simp, intro]: "a dvd round_up n a"
  by (simp add: round_up_def)

lemma round_up_id: "0 < a \<Longrightarrow> a dvd n \<Longrightarrow> round_up n a = n"
proof -
  assume a: "0 < a" and "a dvd n"
  then obtain k where n: "n = a * k" by blast
  have "((a - 1) + a * k) div a = k" using a by (subst div_mult_self2) auto
  moreover have "a * k + a - 1 = (a - 1) + a * k" using a by simp
  ultimately show ?thesis by (simp only: n round_up_def mult.commute)
qed

lemma round_up_least: "0 < a \<Longrightarrow> a dvd m \<Longrightarrow> n \<le> m \<Longrightarrow> round_up n a \<le> m"
proof -
  assume a: "0 < a" and d: "a dvd m" and le: "n \<le> m"
  have "round_up n a \<le> round_up m a"
    using le by (simp add: round_up_def div_le_mono)
  then show ?thesis using round_up_id [OF a d] by simp
qed

section \<open>Unsigned subtraction on \<open>size_t\<close>\<close>

text \<open>
  Sizes and indices of type \<open>size_t\<close> are natural numbers below \<open>2 ^ 64\<close>. Addition does
  not wrap on the inputs considered; subtraction of a larger value does, and the code does
  subtract without a guard, so the wrap-around is written out.
\<close>

definition size_sub :: "nat \<Rightarrow> nat \<Rightarrow> nat" where
  "size_sub a b = (if b \<le> a then a - b else 2 ^ 64 + a - b)"

lemma size_sub_le [simp]: "b \<le> a \<Longrightarrow> size_sub a b = a - b"
  by (simp add: size_sub_def)

lemma size_sub_wraps: "a < b \<Longrightarrow> size_sub a b = 2 ^ 64 + a - b"
  by (simp add: size_sub_def)

section \<open>Lists as vectors\<close>

lemma distinct_butlast_last:
  "distinct xs \<Longrightarrow> xs \<noteq> [] \<Longrightarrow> last xs \<notin> set (butlast xs)"
  by (metis append_butlast_last_id distinct_append disjoint_iff list.set_intros(1))

lemma set_butlast_last: "xs \<noteq> [] \<Longrightarrow> set xs = insert (last xs) (set (butlast xs))"
  by (metis append_butlast_last_id list.simps(15) list.set(1) set_append Un_insert_right sup_bot_right)

lemma set_butlast_distinct:
  "distinct xs \<Longrightarrow> xs \<noteq> [] \<Longrightarrow> set (butlast xs) = set xs - {last xs}"
  using distinct_butlast_last set_butlast_last by fastforce

lemma set_concat_nth: "set (concat xss) = (\<Union>i<length xss. set (xss ! i))"
proof -
  have "set xss = (!) xss ` {..<length xss}" using nth_image [of "length xss" xss] by (simp add: atLeast0LessThan)
  then show ?thesis by (metis set_concat image_image)
qed

lemma distinct_concat_nth: "distinct (concat xss) \<longleftrightarrow> (\<forall>i < length xss. distinct (xss ! i)) \<and>
    (\<forall>i < length xss. \<forall>j < length xss. i \<noteq> j \<longrightarrow> set (xss ! i) \<inter> set (xss ! j) = {})"
proof (induction xss)
  case (Cons xs xss)
  have "set xs \<inter> set (concat xss) = {} \<longleftrightarrow> (\<forall>j < length xss. set xs \<inter> set (xss ! j) = {})"
    unfolding set_concat_nth by blast
  then have "distinct (concat (xs # xss)) \<longleftrightarrow> distinct xs \<and> distinct (concat xss) \<and> (\<forall>j < length xss. set xs \<inter> set (xss ! j) = {})"
    by simp
  then show ?case unfolding Cons.IH length_Cons All_less_Suc2 by (simp add: Int_commute) blast
qed simp

section \<open>Memory\<close>

type_synonym byte = "8 word"

type_synonym memory = "nat \<Rightarrow> byte"

definition read_bytes :: "memory \<Rightarrow> nat \<Rightarrow> nat \<Rightarrow> byte list" where
  "read_bytes mem a n = map mem [a..<a + n]"

definition write_bytes :: "memory \<Rightarrow> nat \<Rightarrow> byte list \<Rightarrow> memory" where
  "write_bytes mem a bs = (\<lambda>x. if a \<le> x \<and> x < a + length bs then bs ! (x - a) else mem x)"

lemma length_read_bytes [simp]: "length (read_bytes mem a n) = n"
  by (simp add: read_bytes_def)

lemma read_write_bytes:
  "off + m \<le> length bs \<Longrightarrow> read_bytes (write_bytes mem a bs) (a + off) m = take m (drop off bs)"
  by (rule nth_equalityI) (simp_all add: read_bytes_def write_bytes_def)

lemma read_write_bytes_all: "length bs = n \<Longrightarrow> read_bytes (write_bytes mem a bs) a n = bs"
  using read_write_bytes [of 0 n bs mem a] by simp

lemma read_write_other:
  "a + length bs \<le> b \<or> b + n \<le> a \<Longrightarrow> read_bytes (write_bytes mem a bs) b n = read_bytes mem b n"
  by (rule nth_equalityI) (auto simp: read_bytes_def write_bytes_def)

end
