(* ===== verification/CodeBlobs.thy ===== *)
theory CodeBlobs
  imports Prelude
begin

text \<open>
  \<open>KernelSectionParser\<close> of \<open>dagee/ProgInfo.h\<close>: the code objects of the kernels are found in the section
  \<open>.hip_fatbin\<close> of every loaded ELF file. The section is a sequence of bundles, each a header, a
  table of descriptors and the code of one architecture per descriptor. The parser walks it with
  raw pointers; a read outside the bytes of the section is an error of the model. What the ELF
  reader and the dynamic linker report is an argument.
\<close>

section \<open>Substrings\<close>

text \<open>
  The first occurrence of a string, with what stands before and after it: \<open>std::string::find\<close> and a
  search for a regular expression without operators.
\<close>

fun split_sub :: "string \<Rightarrow> string \<Rightarrow> (string \<times> string) option" where
  "split_sub pat s = (if take (length pat) s = pat then Some ([], drop (length pat) s)
     else case s of [] \<Rightarrow> None | c # cs \<Rightarrow> map_option (\<lambda>(p, q). (c # p, q)) (split_sub pat cs))"

declare split_sub.simps [simp del]

definition occurs :: "string \<Rightarrow> string \<Rightarrow> bool" where
  "occurs pat s \<longleftrightarrow> split_sub pat s \<noteq> None"

section \<open>Code blobs\<close>

record isa_blob =
  mTriple :: string
  mBytes :: string

definition GPU_ISA_PAT :: string where "GPU_ISA_PAT = ''gfx''"

definition isGPU :: "isa_blob \<Rightarrow> bool" where
  "isGPU b \<longleftrightarrow> occurs GPU_ISA_PAT (mTriple b)"

definition blob_isEmpty :: "isa_blob \<Rightarrow> bool" where
  "blob_isEmpty b \<longleftrightarrow> mBytes b = []"

definition blob_size :: "isa_blob \<Rightarrow> nat" where
  "blob_size b = length (mBytes b)"

section \<open>Reading the section\<close>

text \<open>\<open>sec_base\<close> is the address at which the reader put the bytes of the section.\<close>

record elf_data =
  sec_base :: nat
  sec_bytes :: string

definition sec_end :: "elf_data \<Rightarrow> nat" where
  "sec_end s = sec_base s + length (sec_bytes s)"

definition rd :: "elf_data \<Rightarrow> nat \<Rightarrow> nat \<Rightarrow> string res" where
  "rd s a n = (if sec_base s \<le> a \<and> a + n \<le> sec_end s
     then Inr (take n (drop (a - sec_base s) (sec_bytes s))) else Inl (Undefined ''read outside the section''))"

fun le_nat :: "string \<Rightarrow> nat" where
  "le_nat [] = 0" | "le_nat (c # cs) = of_char c + 256 * le_nat cs"

definition rd_u64 :: "elf_data \<Rightarrow> nat \<Rightarrow> nat res" where
  "rd_u64 s a = rbind (rd s a 8) (\<lambda>b. Inr (le_nat b))"

text \<open>Pointers are unsigned 64-bit numbers.\<close>

definition ptr_add :: "nat \<Rightarrow> nat \<Rightarrow> nat" where
  "ptr_add a n = (a + n) mod 2 ^ 64"

definition MAGIC_STR :: string where "MAGIC_STR = ''__CLANG_OFFLOAD_BUNDLE__''"

definition MAGIC_STR_ALIGNMENT :: nat where "MAGIC_STR_ALIGNMENT = 8"

text \<open>\<open>std::equal\<close> stops at the first difference, so it reads no further.\<close>

fun bytes_equal :: "elf_data \<Rightarrow> string \<Rightarrow> nat \<Rightarrow> bool res" where
  "bytes_equal s [] a = Inr True"
| "bytes_equal s (c # cs) a = rbind (rd s a 1) (\<lambda>b. if b = [c] then bytes_equal s cs (Suc a) else Inr False)"

definition header_isValid :: "elf_data \<Rightarrow> nat \<Rightarrow> bool res" where
  "header_isValid s secHead = bytes_equal s MAGIC_STR secHead"

definition alignUp :: "nat \<Rightarrow> nat \<Rightarrow> nat" where
  "alignUp p alignment = (ptr_add p (alignment - 1) div alignment) * alignment"

section \<open>The parser\<close>

text \<open>
  The table of descriptors: \<open>mOffset\<close>, \<open>mSize\<close> and \<open>mTripleSize\<close> of eight bytes each, then the triple.
  The loop keeps the largest offset and the size that goes with it, to find the end of the bundle.
\<close>

fun parse_descs :: "elf_data \<Rightarrow> nat \<Rightarrow> nat \<Rightarrow> nat \<Rightarrow> nat \<times> nat \<times> isa_blob list \<Rightarrow> (nat \<times> nat \<times> isa_blob list) res" where
  "parse_descs s secHead 0 desc st = Inr st"
| "parse_descs s secHead (Suc n) desc (lastBundleOffset, lastBundleSize, blobs) =
     rbind (rd_u64 s desc) (\<lambda>mOffset.
     rbind (rd_u64 s (ptr_add desc 8)) (\<lambda>mSize.
     rbind (rd_u64 s (ptr_add desc 16)) (\<lambda>mTripleSize.
     let lastBundleOffset = max mOffset lastBundleOffset;
         lastBundleSize = (if lastBundleOffset = mOffset then mSize else lastBundleSize) in
     rbind (if 0 < mSize then
          rbind (rd s (ptr_add secHead mOffset) mSize) (\<lambda>bytes.
          rbind (rd s (ptr_add desc 24) mTripleSize) (\<lambda>triple.
          Inr (blobs @ [\<lparr>mTriple = triple, mBytes = bytes\<rparr>])))
        else Inr blobs) (\<lambda>blobs.
     parse_descs s secHead n (ptr_add (ptr_add desc 24) mTripleSize) (lastBundleOffset, lastBundleSize, blobs)))))"

text \<open>One round of the loop over the bundles: the address of the next one and the blobs so far.\<close>

definition parse_bundle :: "elf_data \<Rightarrow> nat \<Rightarrow> isa_blob list \<Rightarrow> (nat \<times> isa_blob list) res" where
  "parse_bundle s secHead blobs = (let secHead = alignUp secHead MAGIC_STR_ALIGNMENT in
     rbind (header_isValid s secHead) (\<lambda>v.
     rbind (check v ''invalid code blob. MAGIC_STR mismatch'') (\<lambda>_.
     rbind (rd_u64 s (ptr_add secHead 24)) (\<lambda>mNumBundles.
     rbind (parse_descs s secHead mNumBundles (ptr_add secHead 32) (0, 0, blobs)) (\<lambda>(lo, ls, blobs).
     Inr (ptr_add (ptr_add secHead lo) ls, blobs))))))"

partial_function (option) parse_loop :: "elf_data \<Rightarrow> nat \<Rightarrow> bool \<Rightarrow> isa_blob list \<Rightarrow> (bool \<times> isa_blob list) res option" where
  "parse_loop s secHead found blobs = (if \<not> secHead < sec_end s then Some (Inr (found, blobs))
     else case parse_bundle s secHead blobs of Inl e \<Rightarrow> Some (Inl e)
     | Inr (secHead, blobs) \<Rightarrow> parse_loop s secHead True blobs)"

definition parseOneSection :: "elf_data \<Rightarrow> isa_blob list \<Rightarrow> (bool \<times> isa_blob list) res option" where
  "parseOneSection s blobs = (if sec_base s = sec_end s then Some (Inr (False, blobs))
     else obind (parse_loop s (sec_base s) False blobs) (\<lambda>(found, blobs).
       if found then Some (Inr (True, blobs)) else Some (Inl (AssertFail ''Failed to read the kernel section in ELF''))))"

section \<open>Sections of all loaded files\<close>

text \<open>
  A section as the ELF reader presents it, with the symbols of a symbol table; and an entry of the
  dynamic linker's list.
\<close>

record elf_symbol =
  sym_name :: string
  sym_value :: nat
  sym_type :: nat
  sym_sect_idx :: nat

record elf_section =
  es_name :: string
  es_type :: nat
  es_index :: nat
  es_data :: elf_data
  es_symbols :: "elf_symbol list"

record dl_phdr_info =
  dlpi_addr :: nat
  dlpi_name :: string

type_synonym elf_loader = "string \<Rightarrow> elf_section list option"

definition PROC_SELF :: string where "PROC_SELF = ''/proc/self/exe''"

definition KERNEL_SECTION :: string where "KERNEL_SECTION = ''.hip_fatbin''"

definition find_section_if :: "elf_section list \<Rightarrow> (elf_section \<Rightarrow> bool) \<Rightarrow> elf_section option" where
  "find_section_if reader p = List.find p reader"

definition elf_path :: "dl_phdr_info \<Rightarrow> string" where
  "elf_path info = (if dlpi_addr info \<noteq> 0 \<and> length (dlpi_name info) \<noteq> 0 then dlpi_name info else PROC_SELF)"

record section_parser =
  mCodeBlobs :: "isa_blob list"
  mParsed :: bool

definition parse_object :: "elf_loader \<Rightarrow> dl_phdr_info \<Rightarrow> isa_blob list \<Rightarrow> isa_blob list res option" where
  "parse_object load info blobs = (case load (elf_path info) of None \<Rightarrow> Some (Inr blobs)
     | Some reader \<Rightarrow> (case find_section_if reader (\<lambda>x. es_name x = KERNEL_SECTION) of None \<Rightarrow> Some (Inr blobs)
       | Some it \<Rightarrow> obind (parseOneSection (es_data it) blobs) (\<lambda>(_, blobs). Some (Inr blobs))))"

definition parseKernelSections :: "elf_loader \<Rightarrow> dl_phdr_info list \<Rightarrow> section_parser \<Rightarrow> section_parser res option" where
  "parseKernelSections load infos p = (if mParsed p then Some (Inr p)
     else obind (ofor_each (parse_object load) infos (mCodeBlobs p)) (\<lambda>blobs.
       Some (Inr \<lparr>mCodeBlobs = blobs, mParsed = True\<rparr>)))"

section \<open>Reading what is there\<close>

text \<open>The bytes \<open>bs\<close> stand at address \<open>a\<close> of the section.\<close>

definition stands :: "elf_data \<Rightarrow> nat \<Rightarrow> string \<Rightarrow> bool" where
  "stands s a bs \<longleftrightarrow> (\<exists>pre post. sec_bytes s = pre @ bs @ post \<and> a = sec_base s + length pre)"

lemma stands_append: "stands s a (xs @ ys) \<longleftrightarrow> stands s a xs \<and> stands s (a + length xs) ys"
proof
  assume "stands s a (xs @ ys)"
  then obtain pre post where p: "sec_bytes s = pre @ (xs @ ys) @ post" "a = sec_base s + length pre"
    by (auto simp: stands_def)
  have "sec_bytes s = pre @ xs @ (ys @ post) \<and> a = sec_base s + length pre" using p by simp
  moreover have "sec_bytes s = (pre @ xs) @ ys @ post \<and> a + length xs = sec_base s + length (pre @ xs)" using p by simp
  ultimately show "stands s a xs \<and> stands s (a + length xs) ys" unfolding stands_def by blast
next
  assume "stands s a xs \<and> stands s (a + length xs) ys"
  then obtain pre post pre' post' where p: "sec_bytes s = pre @ xs @ post" "a = sec_base s + length pre"
    "sec_bytes s = pre' @ ys @ post'" "a + length xs = sec_base s + length pre'" by (auto simp: stands_def)
  have "length pre' = length (pre @ xs)" using p(2,4) by simp
  moreover have "pre' @ (ys @ post') = (pre @ xs) @ post" using p(1,3) by simp
  ultimately have "ys @ post' = post" using append_eq_append_conv [of pre' "pre @ xs"] by blast
  then have "sec_bytes s = pre @ (xs @ ys) @ post'" using p(1) by simp
  then show "stands s a (xs @ ys)" using p(2) unfolding stands_def by blast
qed

lemma stands_end: "stands s a bs \<Longrightarrow> a + length bs \<le> sec_end s"
  by (auto simp: stands_def sec_end_def)

lemma rd_stands: "stands s a bs \<Longrightarrow> length bs = n \<Longrightarrow> rd s a n = Inr bs"
  by (auto simp: stands_def rd_def sec_end_def)

lemma bytes_equal_stands: "stands s a cs \<Longrightarrow> bytes_equal s cs a = Inr True"
proof (induction cs arbitrary: a)
  case (Cons c cs)
  have "stands s a [c]" "stands s (a + 1) cs" using stands_append [of s a "[c]" cs] Cons.prems by simp_all
  then show ?case using Cons.IH rd_stands [of s a "[c]"] by simp
qed simp

fun le_bytes :: "nat \<Rightarrow> nat \<Rightarrow> string" where
  "le_bytes 0 n = []" | "le_bytes (Suc k) n = char_of (n mod 256) # le_bytes k (n div 256)"

lemma length_le_bytes [simp]: "length (le_bytes k n) = k"
  by (induction k arbitrary: n) auto

lemma le_nat_bytes: "n < 256 ^ k \<Longrightarrow> le_nat (le_bytes k n) = n"
  by (induction k arbitrary: n) (auto simp: less_mult_imp_div_less mult.commute)

lemma rd_u64_stands: "stands s a (le_bytes 8 n) \<Longrightarrow> n < 2 ^ 64 \<Longrightarrow> rd_u64 s a = Inr n"
  using le_nat_bytes [of n 8] by (simp add: rd_u64_def rd_stands [where bs = "le_bytes 8 n"])

lemma ptr_add_id: "a + n < 2 ^ 64 \<Longrightarrow> ptr_add a n = a + n"
  by (simp add: ptr_add_def)

lemma alignUp_eq: "0 < k \<Longrightarrow> a + k - 1 < 2 ^ 64 \<Longrightarrow> alignUp a k = round_up a k"
  by (simp add: alignUp_def round_up_def ptr_add_def)

section \<open>The layout of a bundle\<close>

text \<open>
  An entry is the code of an architecture with its triple and the padding before the code. The
  descriptors of the entries whose code starts behind offset \<open>off\<close>, the code itself, and the bundle.
\<close>

record bundle_entry =
  be_pad :: string
  be_triple :: string
  be_code :: string

fun enc_descs :: "nat \<Rightarrow> bundle_entry list \<Rightarrow> string" where
  "enc_descs off [] = []"
| "enc_descs off (e # es) = le_bytes 8 (off + length (be_pad e)) @ le_bytes 8 (length (be_code e)) @
     le_bytes 8 (length (be_triple e)) @ be_triple e @ enc_descs (off + length (be_pad e) + length (be_code e)) es"

fun enc_code :: "bundle_entry list \<Rightarrow> string" where
  "enc_code [] = []" | "enc_code (e # es) = be_pad e @ be_code e @ enc_code es"

definition table_size :: "bundle_entry list \<Rightarrow> nat" where
  "table_size es = (\<Sum>e\<leftarrow>es. 24 + length (be_triple e))"

definition enc_bundle :: "bundle_entry list \<Rightarrow> string" where
  "enc_bundle es = MAGIC_STR @ le_bytes 8 (length es) @ enc_descs (32 + table_size es) es @ enc_code es"

definition entry_blobs :: "bundle_entry list \<Rightarrow> isa_blob list" where
  "entry_blobs es = [\<lparr>mTriple = be_triple e, mBytes = be_code e\<rparr>. e \<leftarrow> es, be_code e \<noteq> []]"

lemma length_enc_descs: "length (enc_descs off es) = table_size es"
  by (induction es arbitrary: off) (auto simp: table_size_def)

lemma parse_descs_enc:
  assumes "stands s d (enc_descs off es)" "stands s (h + off) (enc_code es)" "sec_end s < 2 ^ 64" "lo \<le> off"
    and "es = [] \<Longrightarrow> lo + ls = off"
  shows "\<exists>lo' ls'. parse_descs s h (length es) d (lo, ls, bs) = Inr (lo', ls', bs @ entry_blobs es) \<and>
    lo' + ls' = off + length (enc_code es)"
  using assms
proof (induction es arbitrary: d off lo ls bs)
  case Nil
  then show ?case by (simp add: entry_blobs_def)
next
  case (Cons e es)
  let ?o = "off + length (be_pad e)" and ?n = "length (be_code e)"
  have d: "stands s d (le_bytes 8 ?o)" "stands s (d + 8) (le_bytes 8 ?n)"
    "stands s (d + 16) (le_bytes 8 (length (be_triple e)))" "stands s (d + 24) (be_triple e)"
    "stands s (d + 24 + length (be_triple e)) (enc_descs (?o + ?n) es)"
    using Cons.prems(1) by (simp_all add: stands_append add.assoc)
  have c: "stands s (h + ?o) (be_code e)" "stands s (h + (?o + ?n)) (enc_code es)"
    using Cons.prems(2) by (simp_all add: stands_append add.assoc)
  have lt: "d + 24 + length (be_triple e) < 2 ^ 64" "h + ?o + ?n < 2 ^ 64"
    using stands_end [OF d(4)] stands_end [OF c(1)] Cons.prems(3) by simp_all
  have r: "rd_u64 s d = Inr ?o" "rd_u64 s (d + 8) = Inr ?n" "rd_u64 s (d + 16) = Inr (length (be_triple e))"
    "rd s (h + ?o) ?n = Inr (be_code e)" "rd s (d + 24) (length (be_triple e)) = Inr (be_triple e)"
    using d(1-3) lt rd_stands [OF c(1)] rd_stands [OF d(4)] by (simp_all add: rd_u64_stands)
  have p: "ptr_add d 8 = d + 8" "ptr_add d 16 = d + 16" "ptr_add d 24 = d + 24" "ptr_add h ?o = h + ?o"
    "ptr_add (d + 24) (length (be_triple e)) = d + 24 + length (be_triple e)"
    using lt by (simp_all add: ptr_add_id)
  have m: "max ?o lo = ?o" using Cons.prems(4) by simp
  let ?bs = "bs @ entry_blobs [e]"
  obtain lo' ls' where "parse_descs s h (length es) (d + 24 + length (be_triple e)) (?o, ?n, ?bs) =
      Inr (lo', ls', ?bs @ entry_blobs es)" "lo' + ls' = ?o + ?n + length (enc_code es)"
    using Cons.IH [OF d(5) c(2) Cons.prems(3), of ?o ?n ?bs] by auto
  moreover have "parse_descs s h (length (e # es)) d (lo, ls, bs) =
      parse_descs s h (length es) (d + 24 + length (be_triple e)) (?o, ?n, ?bs)"
    by (simp add: r p m Let_def entry_blobs_def)
  moreover have "?bs @ entry_blobs es = bs @ entry_blobs (e # es)" by (simp add: entry_blobs_def)
  ultimately show ?case by (auto simp: add.assoc)
qed

lemma parse_bundle_enc:
  assumes "stands s (round_up h 8) (enc_bundle es)" "es \<noteq> []" "sec_end s < 2 ^ 64"
  shows "parse_bundle s h acc = Inr (round_up h 8 + length (enc_bundle es), acc @ entry_blobs es)"
proof -
  let ?h = "round_up h 8"
  have l: "length MAGIC_STR = 24" by (simp add: MAGIC_STR_def)
  have at: "stands s ?h MAGIC_STR" "stands s (?h + 24) (le_bytes 8 (length es))"
    "stands s (?h + 32) (enc_descs (32 + table_size es) es)" "stands s (?h + (32 + table_size es)) (enc_code es)"
    using assms(1) by (simp_all add: enc_bundle_def stands_append l add.assoc length_enc_descs)
  have e: "?h + length (enc_bundle es) < 2 ^ 64" using stands_end [OF assms(1)] assms(3) by simp
  have len: "length (enc_bundle es) = 32 + table_size es + length (enc_code es)"
    by (simp add: enc_bundle_def l length_enc_descs)
  have "length es \<le> table_size es" by (induction es) (auto simp: table_size_def)
  then have n: "rd_u64 s (?h + 24) = Inr (length es)" using at(2) e len by (intro rd_u64_stands) auto
  obtain lo ls where ds: "parse_descs s ?h (length es) (?h + 32) (0, 0, acc) = Inr (lo, ls, acc @ entry_blobs es)"
    "lo + ls = 32 + table_size es + length (enc_code es)"
    using parse_descs_enc [OF at(3,4) assms(3), of 0 0 acc] assms(2) by auto
  have "alignUp h 8 = ?h" using e len round_up_ge [of 8 h] by (intro alignUp_eq) auto
  moreover have "ptr_add ?h 24 = ?h + 24" "ptr_add ?h 32 = ?h + 32" "ptr_add (ptr_add ?h lo) ls = ?h + (lo + ls)"
    using e len ds(2) by (simp_all add: ptr_add_id)
  ultimately show ?thesis using ds bytes_equal_stands [OF at(1)] len
    by (simp add: parse_bundle_def Let_def MAGIC_STR_ALIGNMENT_def header_isValid_def n)
qed

section \<open>Sections of several bundles\<close>

text \<open>Every bundle but the last is padded to the alignment of the next.\<close>

fun enc_section :: "bundle_entry list list \<Rightarrow> string" where
  "enc_section [] = []"
| "enc_section [b] = enc_bundle b"
| "enc_section (b # bs) = enc_bundle b @ replicate (round_up (length (enc_bundle b)) 8 - length (enc_bundle b)) (char_of (0 :: nat)) @
     enc_section bs"

lemma round_up_add: "0 < k \<Longrightarrow> k dvd a \<Longrightarrow> round_up (a + n) k = a + round_up n k"
proof -
  assume k: "0 < k" and "k dvd a"
  then obtain q where a: "a = k * q" by blast
  have "a + n + k - 1 = (n + k - 1) + k * q" using k a by simp
  then have "(a + n + k - 1) div k = q + (n + k - 1) div k" using k by (simp only: div_mult_self2)
  then show ?thesis using a by (simp add: round_up_def algebra_simps)
qed

lemma length_enc_bundle: "32 \<le> length (enc_bundle es)"
  by (simp add: enc_bundle_def MAGIC_STR_def length_enc_descs)

lemma parse_loop_enc:
  assumes "stands s (round_up h 8) (enc_section bs)" "bs \<noteq> []" "[] \<notin> set bs" "sec_end s < 2 ^ 64"
  shows "parse_loop s h found acc =
    parse_loop s (round_up h 8 + length (enc_section bs)) True (acc @ concat (map entry_blobs bs))"
  using assms
proof (induction bs arbitrary: h found acc rule: enc_section.induct)
  case (2 b)
  have "parse_bundle s h acc = Inr (round_up h 8 + length (enc_bundle b), acc @ entry_blobs b)"
    using 2 by (intro parse_bundle_enc) auto
  moreover have "h < sec_end s"
    using 2 stands_end [of s "round_up h 8" "enc_bundle b"] length_enc_bundle [of b] round_up_ge [of 8 h] by simp
  ultimately show ?case by (subst parse_loop.simps) simp
next
  case (3 b b' bs)
  let ?n = "length (enc_bundle b)" and ?h = "round_up h 8"
  let ?r = "replicate (round_up ?n 8 - ?n) (char_of (0 :: nat)) :: string"
  have st: "stands s ?h (enc_bundle b)" "stands s (?h + round_up ?n 8) (enc_section (b' # bs))"
    using 3(2) round_up_ge [of 8 ?n] by (simp_all add: stands_append)
  have up: "round_up (?h + ?n) 8 = ?h + round_up ?n 8" by (rule round_up_add) auto
  have "parse_bundle s h acc = Inr (?h + ?n, acc @ entry_blobs b)"
    using 3(4,5) st(1) by (intro parse_bundle_enc) auto
  moreover have "h < sec_end s"
    using stands_end [OF st(1)] length_enc_bundle [of b] round_up_ge [of 8 h] by simp
  ultimately have "parse_loop s h found acc = parse_loop s (?h + ?n) True (acc @ entry_blobs b)"
    by (subst parse_loop.simps) simp
  also have "\<dots> = parse_loop s (?h + round_up ?n 8 + length (enc_section (b' # bs))) True
      ((acc @ entry_blobs b) @ concat (map entry_blobs (b' # bs)))"
    using 3(1) [of "?h + ?n" True "acc @ entry_blobs b"] st(2) 3(4,5) by (simp only: up) simp
  also have "?h + round_up ?n 8 + length (enc_section (b' # bs)) = ?h + length (enc_section (b # b' # bs))"
    using round_up_ge [of 8 ?n] by simp
  finally show ?case by simp
qed simp

lemma parse_loop_past_end:
  assumes "secHead < sec_end s" "sec_end s \<le> round_up secHead 8" "secHead + 8 \<le> 2 ^ 64"
  shows "parse_loop s secHead found acc = Some (Inl (Undefined ''read outside the section''))"
proof -
  have "alignUp secHead 8 = round_up secHead 8" using assms(3) by (intro alignUp_eq) auto
  then show ?thesis using assms(1,2)
    by (subst parse_loop.simps) (simp add: parse_bundle_def header_isValid_def MAGIC_STR_def MAGIC_STR_ALIGNMENT_def rd_def)
qed

text \<open>
  C33: the parser finds the code of every architecture of every bundle, in order, with its triple. If
  the section ends with padding behind the last bundle, however, the loop goes on at the next
  aligned address and reads past the end of the section.
\<close>

theorem parse_section_roundtrip:
  assumes "8 dvd a" "bs \<noteq> []" "[] \<notin> set bs" "a + length (enc_section bs @ tail) + 8 \<le> 2 ^ 64"
  shows "(tail = [] \<longrightarrow> parseOneSection \<lparr>sec_base = a, sec_bytes = enc_section bs @ tail\<rparr> acc =
      Some (Inr (True, acc @ concat (map entry_blobs bs)))) \<and>
    (tail \<noteq> [] \<and> length (enc_section bs @ tail) \<le> round_up (length (enc_section bs)) 8 \<longrightarrow>
      parseOneSection \<lparr>sec_base = a, sec_bytes = enc_section bs @ tail\<rparr> acc =
        Some (Inl (Undefined ''read outside the section'')))"
proof -
  let ?s = "\<lparr>sec_base = a, sec_bytes = enc_section bs @ tail\<rparr>" and ?n = "length (enc_section bs)"
  have e: "sec_end ?s = a + ?n + length tail" by (simp add: sec_end_def)
  have up: "round_up a 8 = a" using assms(1) by (intro round_up_id) auto
  have "stands ?s a (enc_section bs)" by (auto simp: stands_def intro: exI [of _ "[]"])
  then have l: "parse_loop ?s a False acc = parse_loop ?s (a + ?n) True (acc @ concat (map entry_blobs bs))"
    using parse_loop_enc [of ?s a bs False acc] assms e up by simp
  have "32 \<le> ?n" using assms(2) length_enc_bundle by (cases bs rule: enc_section.cases) (auto intro: trans_le_add1)
  then have p: "parseOneSection ?s acc = obind (parse_loop ?s a False acc) (\<lambda>(found, blobs).
       if found then Some (Inr (True, blobs)) else Some (Inl (AssertFail ''Failed to read the kernel section in ELF'')))"
    using e by (auto simp: parseOneSection_def)
  have "parseOneSection ?s acc = Some (Inr (True, acc @ concat (map entry_blobs bs)))" if "tail = []"
  proof -
    have "parse_loop ?s (a + ?n) True blobs = Some (Inr (True, blobs))" for blobs
      using e that by (subst parse_loop.simps) simp
    then show ?thesis by (simp add: p l)
  qed
  moreover have "parseOneSection ?s acc = Some (Inl (Undefined ''read outside the section''))"
    if "tail \<noteq> []" "length (enc_section bs @ tail) \<le> round_up ?n 8"
    using that assms e round_up_add [of 8 a ?n] by (simp add: p l parse_loop_past_end)
  ultimately show ?thesis by blast
qed

definition bundle_ex :: "bundle_entry list" where
  "bundle_ex = [\<lparr>be_pad = [], be_triple = ''host-x86_64'', be_code = []\<rparr>,
     \<lparr>be_pad = ''..'', be_triple = ''hip-amdgcn-amd-amdhsa-gfx906'', be_code = ''code''\<rparr>]"

lemma length_bundle_ex: "length (enc_bundle bundle_ex) = 125"
  by (simp add: enc_bundle_def length_enc_descs bundle_ex_def table_size_def MAGIC_STR_def)

theorem parse_section_roundtrip_witness:
  "parseOneSection \<lparr>sec_base = 4096, sec_bytes = enc_section [bundle_ex, bundle_ex]\<rparr> [] =
     Some (Inr (True, [\<lparr>mTriple = ''hip-amdgcn-amd-amdhsa-gfx906'', mBytes = ''code''\<rparr>,
       \<lparr>mTriple = ''hip-amdgcn-amd-amdhsa-gfx906'', mBytes = ''code''\<rparr>])) \<and>
   parseOneSection \<lparr>sec_base = 4096, sec_bytes = enc_section [bundle_ex] @ ''...''\<rparr> [] =
     Some (Inl (Undefined ''read outside the section''))"
proof
  have e: "entry_blobs bundle_ex = [\<lparr>mTriple = ''hip-amdgcn-amd-amdhsa-gfx906'', mBytes = ''code''\<rparr>]"
    by (simp add: bundle_ex_def entry_blobs_def)
  have n: "bundle_ex \<noteq> []" by (simp add: bundle_ex_def)
  show "parseOneSection \<lparr>sec_base = 4096, sec_bytes = enc_section [bundle_ex, bundle_ex]\<rparr> [] =
     Some (Inr (True, [\<lparr>mTriple = ''hip-amdgcn-amd-amdhsa-gfx906'', mBytes = ''code''\<rparr>,
       \<lparr>mTriple = ''hip-amdgcn-amd-amdhsa-gfx906'', mBytes = ''code''\<rparr>]))"
    using parse_section_roundtrip [of 4096 "[bundle_ex, bundle_ex]" "[]" "[]"] n
    by (simp add: length_bundle_ex round_up_def e)
  show "parseOneSection \<lparr>sec_base = 4096, sec_bytes = enc_section [bundle_ex] @ ''...''\<rparr> [] =
     Some (Inl (Undefined ''read outside the section''))"
    using parse_section_roundtrip [of 4096 "[bundle_ex]" "''...''" "[]"] n
    by (simp add: length_bundle_ex round_up_def)
qed

text \<open>
  A header that announces no entry stops the parser for good: the loop stays at its address.
\<close>

definition empty_bundle :: string where "empty_bundle = MAGIC_STR @ le_bytes 8 0"

lemma parse_bundle_empty:
  assumes "stands s h empty_bundle" "8 dvd h" "h + 32 < 2 ^ 64"
  shows "parse_bundle s h acc = Inr (h, acc)"
proof -
  have l: "length MAGIC_STR = 24" by (simp add: MAGIC_STR_def)
  have st: "stands s h MAGIC_STR" "stands s (h + 24) (le_bytes 8 0)"
    using assms(1) by (simp_all add: empty_bundle_def stands_append l del: le_bytes.simps)
  have "rd_u64 s (h + 24) = Inr 0" using st(2) by (rule rd_u64_stands) simp
  moreover have "alignUp h 8 = h" using assms(2,3) by (simp add: alignUp_eq round_up_id)
  ultimately show ?thesis using bytes_equal_stands [OF st(1)] assms(3)
    by (simp add: parse_bundle_def Let_def MAGIC_STR_ALIGNMENT_def header_isValid_def ptr_add_id)
qed

theorem parse_empty_bundle_diverges:
  assumes "8 dvd a" "a + length (empty_bundle @ rest) < 2 ^ 64"
  shows "parseOneSection \<lparr>sec_base = a, sec_bytes = empty_bundle @ rest\<rparr> acc = None"
proof -
  let ?s = "\<lparr>sec_base = a, sec_bytes = empty_bundle @ rest\<rparr>"
  have n: "32 \<le> length empty_bundle" by (simp add: empty_bundle_def MAGIC_STR_def)
  then have e: "a < sec_end ?s" by (auto simp: sec_end_def)
  have "stands ?s a empty_bundle" by (auto simp: stands_def intro: exI [of _ "[]"])
  then have b: "parse_bundle ?s a blobs = Inr (a, blobs)" for blobs
    using assms n by (intro parse_bundle_empty) auto
  have "\<not> (s = ?s \<and> h = a)" if "parse_loop s h found blobs = Some r" for s h found blobs r
  proof (rule parse_loop.raw_induct [where P = "\<lambda>s h found blobs r. \<not> (s = ?s \<and> h = a)", OF _ that])
    fix pl s h found blobs r
    assume IH: "\<And>s h found blobs r. pl s h found blobs = Some r \<Longrightarrow> \<not> (s = ?s \<and> h = a)"
      and r: "(if \<not> h < sec_end s then Some (Inr (found, blobs)) else case parse_bundle s h blobs of Inl e \<Rightarrow> Some (Inl e)
        | Inr (secHead, blobs) \<Rightarrow> pl s secHead True blobs) = Some r"
    show "\<not> (s = ?s \<and> h = a)"
    proof
      assume "s = ?s \<and> h = a"
      then have "pl ?s a True blobs = Some r" using r e b by simp
      then show False using IH by blast
    qed
  qed
  then have "parse_loop ?s a False acc = None" by (cases "parse_loop ?s a False acc") blast+
  then show ?thesis using e by (simp add: parseOneSection_def)
qed

end
