(* ===== verification/Decimal.thy ===== *)
theory Decimal
  imports Prelude
begin

text \<open>
  Decimal numbers: what \<open>std::stoi\<close> and the input streams read, and what \<open>std::to_string\<close> and the
  output streams write. Shared by the names of kernels and by the readers of text.
\<close>

section \<open>Digits\<close>

definition is_digit :: "char \<Rightarrow> bool" where
  "is_digit c \<longleftrightarrow> 48 \<le> (of_char c :: nat) \<and> (of_char c :: nat) \<le> 57"

text \<open>Decimal numbers as \<open>std::stoi\<close> reads and the stream writes them.\<close>

definition dec_val :: "string \<Rightarrow> nat" where
  "dec_val ds = foldl (\<lambda>v c. 10 * v + (of_char c - 48)) 0 ds"

fun dec :: "nat \<Rightarrow> string" where
  "dec n = (if n < 10 then [char_of (48 + n)] else dec (n div 10) @ [char_of (48 + n mod 10)])"

declare dec.simps [simp del]

section \<open>Writing and reading\<close>

lemma digit_char [simp]: "n < 10 \<Longrightarrow> (of_char (char_of (48 + n)) :: nat) = 48 + n"
  by simp

lemma is_digit_char [simp]: "n < 10 \<Longrightarrow> is_digit (char_of (48 + n :: nat))"
  by (simp add: is_digit_def)

lemma dec_digits: "list_all is_digit (dec n)"
  by (induction n rule: dec.induct) (subst dec.simps, auto)

lemma dec_not_Nil [simp]: "dec n \<noteq> []"
  by (subst dec.simps) simp

lemma dec_val_append: "dec_val (xs @ ys) = dec_val xs * 10 ^ length ys + dec_val ys"
proof (induction ys rule: rev_induct)
  case (snoc y ys)
  have "dec_val (xs @ ys @ [y]) = 10 * dec_val (xs @ ys) + (of_char y - 48)" by (simp add: dec_val_def)
  then show ?case using snoc by (simp add: dec_val_def algebra_simps)
qed (simp add: dec_val_def)

lemma dec_val_dec: "dec_val (dec n) = n"
proof (induction n rule: dec.induct)
  case (1 n)
  show ?case
  proof (cases "n < 10")
    case True
    then show ?thesis by (subst dec.simps) (simp add: dec_val_def)
  next
    case False
    have "dec_val (dec n) = dec_val (dec (n div 10)) * 10 + n mod 10"
      using False by (subst dec.simps) (simp add: dec_val_append, simp add: dec_val_def)
    then show ?thesis using 1 [OF False] by simp
  qed
qed

text \<open>A sequence of digits that does not start with 0 is the number it reads as.\<close>

lemma dec_of_val:
  assumes "list_all is_digit ds" "ds \<noteq> []" "hd ds \<noteq> CHR ''0''"
  shows "dec (dec_val ds) = ds"
  using assms
proof (induction ds rule: rev_induct)
  case (snoc d ds)
  let ?d = "of_char d - 48 :: nat"
  have d: "?d < 10" "char_of (48 + ?d) = d" using snoc.prems(1) by (auto simp: is_digit_def)
  have v: "dec_val (ds @ [d]) = dec_val ds * 10 + ?d" by (simp add: dec_val_append) (simp add: dec_val_def)
  show ?case
  proof (cases "ds = []")
    case True
    then show ?thesis using d v by (subst dec.simps) (simp add: dec_val_def)
  next
    case False
    then have IH: "dec (dec_val ds) = ds" using snoc by simp
    have "0 < dec_val ds"
    proof (rule ccontr)
      assume "\<not> 0 < dec_val ds"
      then have "ds = dec 0" using IH by simp
      moreover have "char_of (48 :: nat) = CHR ''0''" by (simp add: char_of_eq_iff)
      ultimately show False using snoc.prems(3) False by (simp add: dec.simps)
    qed
    then show ?thesis using d v IH by (subst dec.simps) simp
  qed
qed simp

lemma dec_no_zero: "0 < n \<Longrightarrow> hd (dec n) \<noteq> CHR ''0''"
proof (induction n rule: dec.induct)
  case (1 n)
  show ?case
  proof (cases "n < 10")
    case True
    then have "of_char (hd (dec n)) = 48 + n" by (subst dec.simps) simp
    then show ?thesis using 1(2) by auto
  next
    case False
    then have "hd (dec n) = hd (dec (n div 10))" by (subst dec.simps) simp
    then show ?thesis using 1(1) False by simp
  qed
qed

end
