(* ===== verification/KernNames.thy ===== *)
theory KernNames
  imports CodeBlobs Decimal
begin

text \<open>
  \<open>KernelPtrToNameLookup\<close> of \<open>dagee/ProgInfo.h\<close>: the address of the stub that the compiler makes for a
  kernel gives the mangled name of the kernel. The symbols of the stubs are read from the symbol
  table of every loaded file; the name of the kernel is the name of the stub without the prefix
  \<open>__device_stub__\<close>, with the length in front of the prefix corrected.
\<close>

section \<open>Names\<close>

definition KERNEL_STUB_FUNC_PREFIX :: string where "KERNEL_STUB_FUNC_PREFIX = ''__device_stub__''"

definition KERNEL_STUB_PREFIX_LENGTH :: nat where "KERNEL_STUB_PREFIX_LENGTH = 15"

definition isStubFunction :: "string \<Rightarrow> bool" where
  "isStubFunction name \<longleftrightarrow> occurs KERNEL_STUB_FUNC_PREFIX name"

text \<open>
  The search for \<open>[0-9]+$\<close>: the first position from which on there are only digits, with the text
  before it.
\<close>

fun digit_tail :: "string \<Rightarrow> (string \<times> string) option" where
  "digit_tail [] = None"
| "digit_tail (c # cs) = (if list_all is_digit (c # cs) then Some ([], c # cs)
     else map_option (\<lambda>(p, ds). (c # p, ds)) (digit_tail cs))"

definition stoi :: "string \<Rightarrow> nat res" where
  "stoi ds = (if dec_val ds < 2 ^ 31 then Inr (dec_val ds) else Inl (Aborted ''stoi: out of range''))"

definition convStubToKernelName :: "string \<Rightarrow> string res" where
  "convStubToKernelName name =
     rbind (check (isStubFunction name) ''isStubFunction(name)'') (\<lambda>_.
     case split_sub KERNEL_STUB_FUNC_PREFIX name of
       None \<Rightarrow> Inl (Aborted ''convStubToKernelName'')
     | Some (mangledPrefixWithLength, kernNameWithoutStub) \<Rightarrow>
         (case digit_tail mangledPrefixWithLength of
           None \<Rightarrow> Inl (Aborted ''convStubToKernelName'')
         | Some (mangledPrefix, digits) \<Rightarrow>
             rbind (stoi digits) (\<lambda>len.
             rbind (check (KERNEL_STUB_PREFIX_LENGTH < len) ''len > impl::KERNEL_STUB_PREFIX_LENGTH'') (\<lambda>_.
             Inr (mangledPrefix @ dec (len - KERNEL_STUB_PREFIX_LENGTH) @ kernNameWithoutStub)))))"

section \<open>The table of names\<close>

definition STT_FUNC :: nat where "STT_FUNC = 2"
definition SHN_UNDEF :: nat where "SHN_UNDEF = 0"
definition SHT_SYMTAB :: nat where "SHT_SYMTAB = 2"

definition function_names_for :: "elf_symbol list \<Rightarrow> elf_section \<Rightarrow> (nat \<times> string) list \<Rightarrow> (nat \<times> string) list res" where
  "function_names_for symtab textSec = for_each (\<lambda>s names.
     if sym_type s \<noteq> STT_FUNC then Inr names
     else if sym_type s = SHN_UNDEF then Inr names
     else if sym_name s = [] then Inr names
     else if sym_sect_idx s \<noteq> es_index textSec then Inr names
     else if isStubFunction (sym_name s) then rbind (convStubToKernelName (sym_name s)) (\<lambda>kernelName.
       Inr (names @ [(sym_value s, kernelName)]))
     else Inr names) symtab"

text \<open>An entry whose key is present is not inserted again.\<close>

definition insert_name :: "nat \<times> string \<Rightarrow> (nat \<times> string) list \<Rightarrow> (nat \<times> string) list" where
  "insert_name kv m = (if map_of m (fst kv) = None then m @ [kv] else m)"

definition lookup_object :: "elf_loader \<Rightarrow> dl_phdr_info \<Rightarrow> (nat \<times> string) list \<Rightarrow> (nat \<times> string) list res" where
  "lookup_object load info m = (case load (elf_path info) of None \<Rightarrow> Inr m
     | Some reader \<Rightarrow> (case find_section_if reader (\<lambda>x. es_type x = SHT_SYMTAB) of None \<Rightarrow> Inr m
       | Some it \<Rightarrow> (case find_section_if reader (\<lambda>x. es_name x = ''.text'') of None \<Rightarrow> Inr m
         | Some textSec \<Rightarrow> rbind (function_names_for (es_symbols it) textSec []) (\<lambda>names.
             Inr (fold insert_name (map (\<lambda>(v, k). (ptr_add v (dlpi_addr info), k)) names) m)))))"

definition lookup_init :: "elf_loader \<Rightarrow> dl_phdr_info list \<Rightarrow> (nat \<times> string) list res" where
  "lookup_init load infos = for_each (lookup_object load) infos []"

definition hasEntry :: "(nat \<times> string) list \<Rightarrow> nat \<Rightarrow> bool" where
  "hasEntry m funcPtr \<longleftrightarrow> map_of m funcPtr \<noteq> None"

definition lookup_name :: "(nat \<times> string) list \<Rightarrow> nat \<Rightarrow> string res" where
  "lookup_name m funcPtr = rbind (check (hasEntry m funcPtr) ''hasEntry(funcPtr)'') (\<lambda>_. Inr (the (map_of m funcPtr)))"

definition lookup_size :: "(nat \<times> string) list \<Rightarrow> nat" where
  "lookup_size m = length m"

section \<open>Searching\<close>

lemma split_sub_here: "split_sub pat (pat @ q) = Some ([], q)"
  by (subst split_sub.simps) simp

lemma occurs_Cons: "occurs pat (c # cs) \<longleftrightarrow> take (length pat) (c # cs) = pat \<or> occurs pat cs"
  unfolding occurs_def by (subst split_sub.simps) auto

lemma split_sub_past:
  assumes "\<not> occurs pat u" "c \<notin> set pat"
  shows "split_sub pat (u @ c # v) = map_option (\<lambda>(p, q). (u @ c # p, q)) (split_sub pat v)"
  using assms(1)
proof (induction u)
  case Nil
  have "take (length pat) (c # v) \<noteq> pat"
  proof
    assume t: "take (length pat) (c # v) = pat"
    have "pat \<noteq> []" using Nil by (auto simp: occurs_def split_sub.simps)
    then have "c \<in> set (take (length pat) (c # v))" by (cases "length pat") auto
    then show False using assms(2) t by simp
  qed
  then show ?case by (subst split_sub.simps) simp
next
  case (Cons a u)
  have n: "take (length pat) (a # u) \<noteq> pat" and u: "\<not> occurs pat u" using Cons.prems by (simp_all add: occurs_Cons)
  have "take (length pat) (a # u @ c # v) \<noteq> pat"
  proof
    assume t: "take (length pat) (a # u @ c # v) = pat"
    show False
    proof (cases "length pat \<le> length (a # u)")
      case True
      then show False using n t take_append [of "length pat" "a # u" "c # v"] by simp
    next
      case False
      then have "c \<in> set (take (length pat - length (a # u)) (c # v))" by (cases "length pat - length (a # u)") auto
      then have "c \<in> set (take (length pat) (a # u @ c # v))"
        using take_append [of "length pat" "a # u" "c # v"] by simp
      then show False using assms(2) t by simp
    qed
  qed
  then show ?case using Cons.IH [OF u]
    by (subst split_sub.simps) (simp add: option.map_comp comp_def case_prod_unfold)
qed

lemma split_sub_past_all:
  assumes "\<not> occurs pat u" "set ds \<inter> set pat = {}"
  shows "split_sub pat (u @ ds @ v) = (if ds = [] then split_sub pat (u @ v)
    else map_option (\<lambda>(p, q). (u @ ds @ p, q)) (split_sub pat v))"
  using assms
proof (induction ds arbitrary: u)
  case (Cons d ds)
  have "pat \<noteq> []" using Cons.prems(1) by (cases u) (auto simp: occurs_def split_sub.simps)
  then have "\<not> occurs pat (u @ [d])"
    using split_sub_past [of pat u d "[]"] Cons.prems by (simp add: occurs_def split_sub.simps [of pat "[]"])
  then have "split_sub pat ((u @ [d]) @ ds @ v) = (if ds = [] then split_sub pat ((u @ [d]) @ v)
    else map_option (\<lambda>(p, q). ((u @ [d]) @ ds @ p, q)) (split_sub pat v))"
    using Cons.prems(2) by (intro Cons.IH) auto
  then show ?case using split_sub_past [of pat u d v] Cons.prems by simp
qed simp

lemma digit_tail_append:
  assumes "list_all is_digit ds" "ds \<noteq> []" "p = [] \<or> \<not> is_digit (last p)"
  shows "digit_tail (p @ ds) = Some (p, ds)"
  using assms
proof (induction p)
  case Nil
  then show ?case by (cases ds) auto
next
  case (Cons a p)
  have "\<not> list_all is_digit (a # p @ ds)"
    using Cons.prems(3) last_in_set [of "a # p"] by (auto simp: list_all_iff split: if_splits)
  moreover have "p = [] \<or> \<not> is_digit (last p)" using Cons.prems(3) by auto
  ultimately show ?case using Cons.IH Cons.prems(1,2) by auto
qed

section \<open>The name of a kernel\<close>

lemma dec_val_Nil: "dec_val [] = 0"
  by (simp add: dec_val_def)

text \<open>
  The name that the compiler gives to a function: its scope, the length of its own name, the name and
  its signature. The stub of a kernel is the function whose name has the prefix.
\<close>

definition mangled :: "string \<Rightarrow> string \<Rightarrow> string \<Rightarrow> string" where
  "mangled scope f sig = scope @ dec (length f) @ f @ sig"

definition stub_name :: "string \<Rightarrow> string \<Rightarrow> string \<Rightarrow> string" where
  "stub_name scope k sig = mangled scope (KERNEL_STUB_FUNC_PREFIX @ k) sig"

lemma prefix_no_digit: "list_all is_digit ds \<Longrightarrow> set ds \<inter> set KERNEL_STUB_FUNC_PREFIX = {}"
  by (auto simp: list_all_iff is_digit_def KERNEL_STUB_FUNC_PREFIX_def)

lemma length_prefix: "length KERNEL_STUB_FUNC_PREFIX = 15"
  by (simp add: KERNEL_STUB_FUNC_PREFIX_def)

lemma convStub_eq:
  assumes "\<not> occurs KERNEL_STUB_FUNC_PREFIX (scope @ ds)" "scope = [] \<or> \<not> is_digit (last scope)"
    "list_all is_digit ds" "0 < length k" "dec_val (ds @ dec (15 + length k)) < 2 ^ 31"
  shows "convStubToKernelName (stub_name (scope @ ds) k sig) =
    Inr (scope @ dec (dec_val ds * 10 ^ length (dec (15 + length k)) + length k) @ k @ sig)"
proof -
  let ?P = KERNEL_STUB_FUNC_PREFIX and ?n = "dec (15 + length k)"
  have "split_sub ?P ((scope @ ds) @ ?n @ ?P @ k @ sig) = Some ((scope @ ds) @ ?n, k @ sig)"
    using split_sub_past_all [OF assms(1) prefix_no_digit [OF dec_digits], of "15 + length k"]
    by (simp add: split_sub_here)
  then have s: "split_sub ?P (stub_name (scope @ ds) k sig) = Some (scope @ (ds @ ?n), k @ sig)"
    by (simp add: stub_name_def mangled_def length_prefix)
  have "digit_tail (scope @ (ds @ ?n)) = Some (scope, ds @ ?n)"
    using assms(2,3) dec_digits by (intro digit_tail_append) auto
  then show ?thesis using s assms(4,5)
    by (simp add: convStubToKernelName_def isStubFunction_def occurs_def stoi_def dec_val_append dec_val_dec
        KERNEL_STUB_PREFIX_LENGTH_def)
qed

text \<open>
  C34: the name of the kernel is recovered from the name of its stub if the scope does not end with a
  digit. If it does, as for a kernel in a namespace \<open>ns1\<close>, the digits are taken for a part of the
  length, and the result is the right name only if the lengths of stub and kernel happen to have
  the same number of digits and the scope's digits do not start with 0.
\<close>

theorem convStub_mangled:
  assumes "\<not> occurs KERNEL_STUB_FUNC_PREFIX (scope @ ds)" "scope = [] \<or> \<not> is_digit (last scope)"
    and "list_all is_digit ds" "0 < length k" "dec_val (ds @ dec (15 + length k)) < 2 ^ 31"
  shows "convStubToKernelName (stub_name (scope @ ds) k sig) = Inr (mangled (scope @ ds) k sig) \<longleftrightarrow>
    ds = [] \<or> hd ds \<noteq> CHR ''0'' \<and> length (dec (15 + length k)) = length (dec (length k))"
proof -
  let ?m = "length (dec (15 + length k))" and ?l = "length (dec (length k))" and ?D = "dec_val ds"
  let ?X = "?D * 10 ^ ?m + length k"
  have "convStubToKernelName (stub_name (scope @ ds) k sig) = Inr (mangled (scope @ ds) k sig) \<longleftrightarrow>
      dec ?X = ds @ dec (length k)"
    using convStub_eq [OF assms, of sig] by (simp add: mangled_def)
  also have "\<dots> \<longleftrightarrow> ds = [] \<or> hd ds \<noteq> CHR ''0'' \<and> ?m = ?l"
  proof
    assume d: "dec ?X = ds @ dec (length k)"
    then have "?X = dec_val (ds @ dec (length k))" using dec_val_dec [of ?X] by simp
    then have e: "?D * 10 ^ ?m = ?D * 10 ^ ?l" by (simp add: dec_val_append dec_val_dec)
    have "hd ds \<noteq> CHR ''0'' \<and> ?m = ?l" if ds: "ds \<noteq> []"
    proof -
      have "?D \<noteq> 0"
      proof
        assume "?D = 0"
        then have "dec (length k) = ds @ dec (length k)" using d by simp
        then show False using ds by simp
      qed
      moreover have "hd (dec ?X) \<noteq> CHR ''0''" using assms(4) by (intro dec_no_zero) simp
      ultimately show ?thesis using d ds e by (simp add: hd_append power_inject_exp)
    qed
    then show "ds = [] \<or> hd ds \<noteq> CHR ''0'' \<and> ?m = ?l" by blast
  next
    assume r: "ds = [] \<or> hd ds \<noteq> CHR ''0'' \<and> ?m = ?l"
    show "dec ?X = ds @ dec (length k)"
    proof (cases "ds = []")
      case True
      then show ?thesis by (simp add: dec_val_def)
    next
      case False
      then have "?X = dec_val (ds @ dec (length k))" using r by (simp add: dec_val_append dec_val_dec)
      moreover have "dec (dec_val (ds @ dec (length k))) = ds @ dec (length k)"
        using False r assms(3) dec_digits by (intro dec_of_val) auto
      ultimately show ?thesis by simp
    qed
  qed
  finally show ?thesis .
qed

theorem convStub_mangled_witness:
  "convStubToKernelName (stub_name ''_ZN2ns'' ''axpy'' ''EPi'') = Inr ''_ZN2ns4axpyEPi'' \<and>
   convStubToKernelName (stub_name ''_ZN3ns1'' ''axpy'' ''EPi'') \<noteq> Inr ''_ZN3ns14axpyEPi''"
proof
  have d: "is_digit CHR ''1''" "\<not> is_digit CHR ''s''" by (simp_all add: is_digit_def)
  have n: "\<not> occurs KERNEL_STUB_FUNC_PREFIX ''_ZN2ns''" "\<not> occurs KERNEL_STUB_FUNC_PREFIX ''_ZN3ns1''"
    by (simp_all add: KERNEL_STUB_FUNC_PREFIX_def occurs_Cons) (simp_all add: occurs_def split_sub.simps)
  have e: "dec (Suc (Suc (Suc (Suc 0)))) = ''4''" "dec 19 = ''19''" by (simp_all add: dec.simps char_of_eq_iff)
  have v: "dec_val ''19'' < 2 ^ 31" "dec_val ''119'' < 2 ^ 31" by (simp_all add: dec_val_def)
  show "convStubToKernelName (stub_name ''_ZN2ns'' ''axpy'' ''EPi'') = Inr ''_ZN2ns4axpyEPi''"
    using convStub_mangled [of "''_ZN2ns''" "[]" "''axpy''" "''EPi''"] n(1) d e v by (simp add: mangled_def)
  show "convStubToKernelName (stub_name ''_ZN3ns1'' ''axpy'' ''EPi'') \<noteq> Inr ''_ZN3ns14axpyEPi''"
    using convStub_mangled [of "''_ZN3ns''" "''1''" "''axpy''" "''EPi''"] n(2) d e v by (simp add: mangled_def)
qed

section \<open>The table\<close>

text \<open>The stubs of a file, with the addresses they are loaded at.\<close>

definition stubs :: "elf_symbol list \<Rightarrow> elf_section \<Rightarrow> elf_symbol list" where
  "stubs symtab textSec = filter (\<lambda>s. sym_type s = STT_FUNC \<and> sym_sect_idx s = es_index textSec \<and>
     isStubFunction (sym_name s)) symtab"

definition loaded_stubs :: "elf_loader \<Rightarrow> dl_phdr_info \<Rightarrow> (nat \<times> string) list" where
  "loaded_stubs load info = (case load (elf_path info) of None \<Rightarrow> [] | Some reader \<Rightarrow>
     (case (find_section_if reader (\<lambda>x. es_type x = SHT_SYMTAB), find_section_if reader (\<lambda>x. es_name x = ''.text'')) of
       (Some it, Some textSec) \<Rightarrow> map (\<lambda>s. (ptr_add (sym_value s) (dlpi_addr info), sym_name s)) (stubs (es_symbols it) textSec)
     | _ \<Rightarrow> []))"

lemma function_names_for_eq:
  assumes "\<And>s. s \<in> set (stubs symtab t) \<Longrightarrow> convStubToKernelName (sym_name s) = Inr (conv (sym_name s))"
  shows "function_names_for symtab t names = Inr (names @ map (\<lambda>s. (sym_value s, conv (sym_name s))) (stubs symtab t))"
  using assms
proof (induction symtab arbitrary: names)
  case (Cons s symtab)
  have "sym_name s \<noteq> []" if "isStubFunction (sym_name s)"
    using that by (auto simp: isStubFunction_def occurs_def split_sub.simps KERNEL_STUB_FUNC_PREFIX_def)
  moreover have "convStubToKernelName (sym_name s) = Inr (conv (sym_name s))" if "s \<in> set (stubs (s # symtab) t)"
    using that by (rule Cons.prems)
  moreover have "function_names_for symtab t names' =
      Inr (names' @ map (\<lambda>s. (sym_value s, conv (sym_name s))) (stubs symtab t))" for names'
    using Cons.prems by (intro Cons.IH) (auto simp: stubs_def)
  ultimately show ?case by (auto simp: function_names_for_def stubs_def STT_FUNC_def SHN_UNDEF_def)
qed (simp add: function_names_for_def stubs_def)

lemma map_of_insert_names: "map_of (fold insert_name kvs m) = map_of (m @ kvs)"
proof (induction kvs arbitrary: m)
  case (Cons kv kvs)
  have "map_of (insert_name kv m) = map_of (m @ [kv])" by (cases kv) (auto simp: insert_name_def fun_eq_iff map_add_def split: option.splits)
  then have "map_of (fold insert_name kvs (insert_name kv m)) = map_of ((m @ [kv]) @ kvs)"
    by (subst Cons.IH) (simp only: map_of_append)
  then show ?case by simp
qed simp

lemma lookup_init_eq:
  assumes "\<And>info a n. info \<in> set infos \<Longrightarrow> (a, n) \<in> set (loaded_stubs load info) \<Longrightarrow>
    convStubToKernelName n = Inr (conv n)"
  shows "\<exists>m. lookup_init load infos = Inr m \<and>
    map_of m = map_of (map (\<lambda>(a, n). (a, conv n)) (concat (map (loaded_stubs load) infos)))"
proof -
  have "\<exists>m. for_each (lookup_object load) infos [] = Inr m \<and>
    map_of m = map_of (map (\<lambda>(a, n). (a, conv n)) (concat (map (loaded_stubs load) infos)))"
  proof (rule for_each_rule [where P = "\<lambda>is m. map_of m = map_of (map (\<lambda>(a, n). (a, conv n)) (concat (map (loaded_stubs load) is)))"])
    fix ys info zs m
    assume i: "infos = ys @ info # zs"
      and m: "map_of m = map_of (map (\<lambda>(a, n). (a, conv n)) (concat (map (loaded_stubs load) ys)))"
    have c: "convStubToKernelName n = Inr (conv n)" if "(a, n) \<in> set (loaded_stubs load info)" for a n
      using assms [OF _ that] i by simp
    obtain m' where m': "lookup_object load info m = Inr m'"
      "map_of m' = map_of (m @ map (\<lambda>(a, n). (a, conv n)) (loaded_stubs load info))"
    proof (cases "\<exists>reader it t. load (elf_path info) = Some reader \<and>
        find_section_if reader (\<lambda>x. es_type x = SHT_SYMTAB) = Some it \<and> find_section_if reader (\<lambda>x. es_name x = ''.text'') = Some t")
      case True
      then obtain reader it t where r: "load (elf_path info) = Some reader"
        "find_section_if reader (\<lambda>x. es_type x = SHT_SYMTAB) = Some it" "find_section_if reader (\<lambda>x. es_name x = ''.text'') = Some t"
        by blast
      have "function_names_for (es_symbols it) t [] = Inr ([] @ map (\<lambda>s. (sym_value s, conv (sym_name s))) (stubs (es_symbols it) t))"
        using c r by (intro function_names_for_eq) (force simp: loaded_stubs_def)
      then show ?thesis using that r
        by (simp add: lookup_object_def loaded_stubs_def map_of_insert_names comp_def)
    next
      case False
      then have "lookup_object load info m = Inr m" "loaded_stubs load info = []"
        by (auto simp: lookup_object_def loaded_stubs_def split: option.splits)
      then show ?thesis using that by simp
    qed
    then show "\<exists>m'. lookup_object load info m = Inr m' \<and>
        map_of m' = map_of (map (\<lambda>(a, n). (a, conv n)) (concat (map (loaded_stubs load) (ys @ [info]))))"
      using m by (simp add: map_of_append)
  qed simp
  then show ?thesis by (simp add: lookup_init_def)
qed

text \<open>
  C35: on the stubs that the compiler makes for kernels outside scopes that end with a digit, the table
  gives for the address of each stub in memory the name of its kernel, and nothing else.
\<close>

theorem lookup_finds_kernels:
  assumes "distinct (map fst (concat (map (loaded_stubs load) infos)))"
    and "\<And>a n. (a, n) \<in> set (concat (map (loaded_stubs load) infos)) \<Longrightarrow>
      n = stub_name (sc n) (kn n) (sg n) \<and> \<not> occurs KERNEL_STUB_FUNC_PREFIX (sc n) \<and>
      (sc n = [] \<or> \<not> is_digit (last (sc n))) \<and> 0 < length (kn n) \<and> 15 + length (kn n) < 2 ^ 31"
  shows "\<exists>m. lookup_init load infos = Inr m \<and>
    (\<forall>(a, n) \<in> set (concat (map (loaded_stubs load) infos)). lookup_name m a = Inr (mangled (sc n) (kn n) (sg n))) \<and>
    (\<forall>a. hasEntry m a \<longleftrightarrow> a \<in> fst ` set (concat (map (loaded_stubs load) infos)))"
proof -
  let ?st = "concat (map (loaded_stubs load) infos)"
  let ?conv = "\<lambda>n. mangled (sc n) (kn n) (sg n)"
  have conv: "convStubToKernelName n = Inr (?conv n)" if "(a, n) \<in> set ?st" for a n
    using assms(2) [OF that] convStub_eq [of "sc n" "[]" "kn n" "sg n"] by (simp add: dec_val_dec mangled_def dec_val_Nil)
  then obtain m where m: "lookup_init load infos = Inr m" "map_of m = map_of (map (\<lambda>(a, n). (a, ?conv n)) ?st)"
    using lookup_init_eq [of infos load ?conv] by auto
  have ma: "map_of m a = map_option ?conv (map_of ?st a)" for a
    by (simp only: m(2) map_of_map comp_def)
  have "lookup_name m a = Inr (?conv n)" if "(a, n) \<in> set ?st" for a n
    using that assms(1) by (simp add: lookup_name_def hasEntry_def ma)
  moreover have "hasEntry m a \<longleftrightarrow> a \<in> fst ` set ?st" for a
    by (simp add: hasEntry_def ma map_of_eq_None_iff)
  ultimately show ?thesis using m(1) by blast
qed

definition loader_ex :: elf_loader where
  "loader_ex path = (let data = \<lparr>sec_base = 0, sec_bytes = []\<rparr> in
     if path = PROC_SELF then Some
       [\<lparr>es_name = ''.text'', es_type = 1, es_index = 1, es_data = data, es_symbols = []\<rparr>,
        \<lparr>es_name = ''.symtab'', es_type = SHT_SYMTAB, es_index = 2, es_data = data, es_symbols =
          [\<lparr>sym_name = ''_Z19__device_stub__axpyPi'', sym_value = 64, sym_type = STT_FUNC, sym_sect_idx = 1\<rparr>]\<rparr>]
     else None)"

theorem lookup_finds_kernels_witness:
  "\<exists>m. lookup_init loader_ex [\<lparr>dlpi_addr = 4096, dlpi_name = []\<rparr>] = Inr m \<and>
     lookup_name m 4160 = Inr ''_Z4axpyPi'' \<and> \<not> hasEntry m 64"
proof -
  let ?n = "''_Z19__device_stub__axpyPi''"
  have "char_of (49 :: nat) = CHR ''1''" "char_of (57 :: nat) = CHR ''9''" by (simp_all add: char_of_eq_iff)
  then have s: "?n = stub_name ''_Z'' ''axpy'' ''Pi''"
    by (simp add: stub_name_def mangled_def KERNEL_STUB_FUNC_PREFIX_def dec.simps)
  have "isStubFunction ?n"
    by (simp add: isStubFunction_def KERNEL_STUB_FUNC_PREFIX_def occurs_Cons)
  then have st: "loaded_stubs loader_ex \<lparr>dlpi_addr = 4096, dlpi_name = []\<rparr> = [(4160, ?n)]"
    by (simp add: loaded_stubs_def loader_ex_def elf_path_def find_section_if_def stubs_def ptr_add_def
        STT_FUNC_def SHT_SYMTAB_def Let_def)
  have o: "\<not> occurs KERNEL_STUB_FUNC_PREFIX ''_Z''"
    by (simp add: KERNEL_STUB_FUNC_PREFIX_def occurs_Cons) (simp add: occurs_def split_sub.simps)
  have d: "\<not> is_digit CHR ''Z''" by (simp add: is_digit_def)
  have m: "mangled ''_Z'' ''axpy'' ''Pi'' = ''_Z4axpyPi''" by (simp add: mangled_def dec.simps char_of_eq_iff)
  let ?st = "concat (map (loaded_stubs loader_ex) [\<lparr>dlpi_addr = 4096, dlpi_name = []\<rparr>])"
  have st: "?st = [(4160, stub_name ''_Z'' ''axpy'' ''Pi'')]" by (simp only: st s list.map concat.simps append_Nil2)
  have "\<exists>m. lookup_init loader_ex [\<lparr>dlpi_addr = 4096, dlpi_name = []\<rparr>] = Inr m \<and>
    (\<forall>(a, n) \<in> set ?st. lookup_name m a = Inr (mangled ''_Z'' ''axpy'' ''Pi'')) \<and>
    (\<forall>a. hasEntry m a \<longleftrightarrow> a \<in> fst ` set ?st)"
    by (rule lookup_finds_kernels) (unfold st, simp_all add: o d)
  then show ?thesis unfolding st m by force
qed

end
