(* ===== verification/ElfTypes.thy ===== *)
theory ElfTypes
  imports KernNames
begin

text \<open>
  The ELF library of \<open>DAGEE-lib/include/elfio\<close>, first part: the conversion between byte orders and
  the hash function of \<open>elfio_utils.hpp\<close>, and the structures of \<open>elf_types.hpp\<close> with their layout in a
  file. A field of a structure is kept as the number that the host, which is little-endian, reads
  from its bytes; the accessors of the library convert it when the file has the other byte order.
\<close>

unbundle bit_operations_syntax

section \<open>Byte order\<close>

definition ELFDATA2LSB :: nat where "ELFDATA2LSB = 1"
definition ELFDATA2MSB :: nat where "ELFDATA2MSB = 2"

text \<open>\<open>setup\<close>: the value of \<open>need_conversion\<close>.\<close>

definition conv_setup :: "nat \<Rightarrow> bool" where
  "conv_setup elf_file_encoding \<longleftrightarrow> elf_file_encoding \<noteq> ELFDATA2LSB"

definition convert64 :: "64 word \<Rightarrow> 64 word" where
  "convert64 value = push_bit 56 (value AND 0x00000000000000FF) OR push_bit 40 (value AND 0x000000000000FF00) OR
     push_bit 24 (value AND 0x0000000000FF0000) OR push_bit 8 (value AND 0x00000000FF000000) OR
     drop_bit 8 (value AND 0x000000FF00000000) OR drop_bit 24 (value AND 0x0000FF0000000000) OR
     drop_bit 40 (value AND 0x00FF000000000000) OR drop_bit 56 (value AND 0xFF00000000000000)"

definition convert32 :: "32 word \<Rightarrow> 32 word" where
  "convert32 value = push_bit 24 (value AND 0x000000FF) OR push_bit 8 (value AND 0x0000FF00) OR
     drop_bit 8 (value AND 0x00FF0000) OR drop_bit 24 (value AND 0xFF000000)"

definition convert16 :: "16 word \<Rightarrow> 16 word" where
  "convert16 value = push_bit 8 (value AND 0x00FF) OR drop_bit 8 (value AND 0xFF00)"

text \<open>The overloaded call on a number of \<open>w\<close> bytes.\<close>

definition conv :: "bool \<Rightarrow> nat \<Rightarrow> nat \<Rightarrow> nat" where
  "conv need_conversion w value = (if \<not> need_conversion then value
     else if w = 8 then unat (convert64 (of_nat value))
     else if w = 4 then unat (convert32 (of_nat value))
     else if w = 2 then unat (convert16 (of_nat value)) else value)"

subsection \<open>It reverses the bytes\<close>

lemma byte_masks_64:
  "(0x00000000000000FF :: 64 word) = push_bit 0 (mask 8)" "(0x000000000000FF00 :: 64 word) = push_bit 8 (mask 8)"
  "(0x0000000000FF0000 :: 64 word) = push_bit 16 (mask 8)" "(0x00000000FF000000 :: 64 word) = push_bit 24 (mask 8)"
  "(0x000000FF00000000 :: 64 word) = push_bit 32 (mask 8)" "(0x0000FF0000000000 :: 64 word) = push_bit 40 (mask 8)"
  "(0x00FF000000000000 :: 64 word) = push_bit 48 (mask 8)" "(0xFF00000000000000 :: 64 word) = push_bit 56 (mask 8)"
  by (simp_all add: mask_eq_exp_minus_1 push_bit_eq_mult)

lemma byte_masks_32:
  "(0x000000FF :: 32 word) = push_bit 0 (mask 8)" "(0x0000FF00 :: 32 word) = push_bit 8 (mask 8)"
  "(0x00FF0000 :: 32 word) = push_bit 16 (mask 8)" "(0xFF000000 :: 32 word) = push_bit 24 (mask 8)"
  by (simp_all add: mask_eq_exp_minus_1 push_bit_eq_mult)

lemma byte_masks_16: "(0x00FF :: 16 word) = push_bit 0 (mask 8)" "(0xFF00 :: 16 word) = push_bit 8 (mask 8)"
  by (simp_all add: mask_eq_exp_minus_1 push_bit_eq_mult)

lemma less_8_cases: "k < (8::nat) \<longleftrightarrow> k = 0 \<or> k = 1 \<or> k = 2 \<or> k = 3 \<or> k = 4 \<or> k = 5 \<or> k = 6 \<or> k = 7"
  by auto

lemma bit_byte_up:
  "bit (push_bit s (v AND push_bit q (mask 8))) n \<longleftrightarrow> s \<le> n \<and> n < LENGTH('a) \<and> q \<le> n - s \<and> n - s < q + 8 \<and> bit v (n - s)"
  for v :: "'a::len word"
  by (auto simp: bit_simps)

lemma bit_byte_down:
  "bit (drop_bit s (v AND push_bit q (mask 8))) n \<longleftrightarrow> q \<le> s + n \<and> s + n < q + 8 \<and> bit v (s + n)"
  for v :: "'a::len word"
  by (auto simp: bit_simps dest: bit_imp_le_length)

lemmas byte_simps = bit_or_iff bit_byte_up bit_byte_down

lemma bit_convert64: "k < 8 \<Longrightarrow> j < 8 \<Longrightarrow> bit (convert64 v) (8 * k + j) \<longleftrightarrow> bit v (8 * (7 - k) + j)"
  unfolding convert64_def byte_masks_64 byte_simps less_8_cases [of k]
  by (elim disjE; hypsubst; simp)

lemma bit_convert32: "k < 4 \<Longrightarrow> j < 8 \<Longrightarrow> bit (convert32 v) (8 * k + j) \<longleftrightarrow> bit v (8 * (3 - k) + j)"
proof -
  have *: "k < 4 \<longleftrightarrow> k = 0 \<or> k = 1 \<or> k = 2 \<or> k = 3" by auto
  show "k < 4 \<Longrightarrow> j < 8 \<Longrightarrow> bit (convert32 v) (8 * k + j) \<longleftrightarrow> bit v (8 * (3 - k) + j)"
    unfolding convert32_def byte_masks_32 byte_simps * by (elim disjE; hypsubst; simp)
qed

lemma bit_convert16: "k < 2 \<Longrightarrow> j < 8 \<Longrightarrow> bit (convert16 v) (8 * k + j) \<longleftrightarrow> bit v (8 * (1 - k) + j)"
proof -
  have *: "k < 2 \<longleftrightarrow> k = 0 \<or> k = 1" by auto
  show "k < 2 \<Longrightarrow> j < 8 \<Longrightarrow> bit (convert16 v) (8 * k + j) \<longleftrightarrow> bit v (8 * (1 - k) + j)"
    unfolding convert16_def byte_masks_16 byte_simps * by (elim disjE; hypsubst; simp)
qed

text \<open>The bytes of a number, from the lowest.\<close>

lemma nth_le_bytes: "i < k \<Longrightarrow> le_bytes k n ! i = char_of (take_bit 8 (drop_bit (8 * i) n))"
proof (induction k arbitrary: n i)
  case (Suc k)
  show ?case
  proof (cases i)
    case 0
    then show ?thesis by (simp add: take_bit_eq_mod)
  next
    case (Suc j)
    have "drop_bit (8 * Suc j) n = drop_bit (8 * j) (n div 256)"
      by (simp add: drop_bit_eq_div power_add div_mult2_eq)
    with Suc Suc.IH [of j "n div 256"] Suc.prems show ?thesis by simp
  qed
qed simp

definition is_width :: "nat \<Rightarrow> bool" where
  "is_width w \<longleftrightarrow> w = 1 \<or> w = 2 \<or> w = 4 \<or> w = 8"

lemma bit_conv:
  assumes "is_width w" "i < w" "j < 8"
  shows "bit (conv True w n) (8 * i + j) \<longleftrightarrow> bit n (8 * (w - 1 - i) + j)"
  using assms bit_convert64 [of i j "of_nat n"] bit_convert32 [of i j "of_nat n"] bit_convert16 [of i j "of_nat n"]
  by (auto simp: is_width_def conv_def bit_unsigned_iff bit_of_nat_iff)

lemma unat_less_exp: "unat v < 2 ^ LENGTH('a)" for v :: "'a::len word"
  by (rule unsigned_less)

lemma conv_less: "is_width w \<Longrightarrow> n < 256 ^ w \<Longrightarrow> conv need w n < 256 ^ w"
  using unat_less_exp [of "convert64 (of_nat n)"] unat_less_exp [of "convert32 (of_nat n)"] unat_less_exp [of "convert16 (of_nat n)"]
  by (auto simp: is_width_def conv_def)

text \<open>Conversion reverses the bytes of a number, so it is its own inverse.\<close>

lemma le_bytes_conv:
  assumes "is_width w"
  shows "le_bytes w (conv True w n) = rev (le_bytes w n)"
proof (rule nth_equalityI)
  fix i assume "i < length (le_bytes w (conv True w n))"
  then have i: "i < w" by simp
  have "take_bit 8 (drop_bit (8 * i) (conv True w n)) = take_bit 8 (drop_bit (8 * (w - 1 - i)) n)"
    using bit_conv [OF assms i] by (auto intro!: bit_eqI simp: bit_simps)
  then show "le_bytes w (conv True w n) ! i = rev (le_bytes w n) ! i"
    using i by (simp add: rev_nth nth_le_bytes)
qed simp

lemma conv_conv:
  assumes "is_width w" "n < 256 ^ w"
  shows "conv need w (conv need w n) = n"
proof (cases need)
  case True
  have "le_bytes w (conv True w (conv True w n)) = le_bytes w n"
    by (simp add: le_bytes_conv assms(1))
  then have "le_nat (le_bytes w (conv True w (conv True w n))) = le_nat (le_bytes w n)" by simp
  then show ?thesis using assms conv_less [OF assms(1) conv_less [OF assms], of True True]
    by (simp add: le_nat_bytes True)
qed (simp add: conv_def)

section \<open>elf_hash\<close>

definition elf_hash_step :: "32 word \<Rightarrow> char \<Rightarrow> 32 word" where
  "elf_hash_step h c = (let h = push_bit 4 h + of_nat (of_char c);
       g = h AND 0xf0000000;
       h = (if g \<noteq> 0 then h XOR drop_bit 24 g else h)
     in h AND NOT g)"

text \<open>The loop ends at the null behind the name.\<close>

definition elf_hash :: "string \<Rightarrow> 32 word" where
  "elf_hash name = foldl elf_hash_step 0 name"

lemma hash_mask: "(0xf0000000 :: 32 word) = push_bit 28 (mask 4)"
  by (simp add: mask_eq_exp_minus_1 push_bit_eq_mult)

lemma elf_hash_step_bound: "unat (elf_hash_step h c) < 2 ^ 28"
proof -
  have "take_bit 28 (elf_hash_step h c) = elf_hash_step h c"
    by (rule bit_word_eqI) (auto simp: elf_hash_step_def Let_def hash_mask bit_simps)
  then have "take_bit 28 (unat (elf_hash_step h c)) = unat (elf_hash_step h c)"
    by (metis unsigned_take_bit_eq)
  then show ?thesis by (metis take_bit_nat_less_exp)
qed

lemma elf_hash_bound: "unat (elf_hash name) < 2 ^ 28"
proof (cases name rule: rev_cases)
  case (snoc ys y)
  then show ?thesis using elf_hash_step_bound [of "foldl elf_hash_step 0 ys" y] by (simp add: elf_hash_def)
qed (simp add: elf_hash_def)

section \<open>Structures and their bytes\<close>

text \<open>The class of a file; \<open>wd\<close> is the width of the fields that differ between the classes.\<close>

datatype elf_class = ELFCLASS32 | ELFCLASS64

fun wd :: "elf_class \<Rightarrow> nat" where
  "wd ELFCLASS32 = 4" | "wd ELFCLASS64 = 8"

fun class_byte :: "elf_class \<Rightarrow> nat" where
  "class_byte ELFCLASS32 = 1" | "class_byte ELFCLASS64 = 2"

lemma wd_width [simp]: "is_width (wd c)" "is_width 4" "is_width 2" "is_width 1" "is_width 8"
  by (cases c; simp add: is_width_def)+

fun pack :: "nat list \<Rightarrow> nat list \<Rightarrow> string" where
  "pack (w # ws) (v # vs) = le_bytes w v @ pack ws vs" | "pack _ _ = []"

fun unpack :: "nat list \<Rightarrow> string \<Rightarrow> nat list" where
  "unpack [] bs = []" | "unpack (w # ws) bs = le_nat (take w bs) # unpack ws (drop w bs)"

definition fits_widths :: "nat list \<Rightarrow> nat list \<Rightarrow> bool" where
  "fits_widths ws vs \<longleftrightarrow> list_all2 (\<lambda>w v. v < 256 ^ w) ws vs"

lemma unpack_pack: "fits_widths ws vs \<Longrightarrow> unpack ws (pack ws vs @ rest) = vs"
  unfolding fits_widths_def by (induction ws vs rule: list_all2_induct) (auto simp: le_nat_bytes)

lemma length_pack: "length ws = length vs \<Longrightarrow> length (pack ws vs) = sum_list ws"
  by (induction ws vs rule: list_induct2) auto

lemma of_char_less: "of_char c < (256 :: nat)"
  by (cases c) (auto simp: of_char_def)

lemma le_nat_less: "le_nat bs < 256 ^ length bs"
proof (induction bs)
  case (Cons c bs)
  have "n < m \<Longrightarrow> k < 256 \<Longrightarrow> k + 256 * n < 256 * m" for k n m :: nat by simp
  from this [OF Cons of_char_less] show ?case by simp
qed simp

lemma fits_widths_unpack: "sum_list ws \<le> length bs \<Longrightarrow> fits_widths ws (unpack ws bs)"
  unfolding fits_widths_def
proof (induction ws arbitrary: bs)
  case (Cons w ws)
  then have "length (take w bs) = w" by simp
  with Cons show ?case using le_nat_less [of "take w bs"] by auto
qed simp

subsection \<open>The file header\<close>

text \<open>The first 16 bytes of the header one by one; the rest as numbers.\<close>

record ehdr =
  e_ident :: "nat list"
  e_type :: nat
  e_machine :: nat
  e_version :: nat
  e_entry :: nat
  e_phoff :: nat
  e_shoff :: nat
  e_flags :: nat
  e_ehsize :: nat
  e_phentsize :: nat
  e_phnum :: nat
  e_shentsize :: nat
  e_shnum :: nat
  e_shstrndx :: nat

definition EI_NIDENT :: nat where "EI_NIDENT = 16"

definition ehdr_widths :: "elf_class \<Rightarrow> nat list" where
  "ehdr_widths c = replicate EI_NIDENT 1 @ [2, 2, 4, wd c, wd c, wd c, 4, 2, 2, 2, 2, 2, 2]"

definition ehdr_fields :: "ehdr \<Rightarrow> nat list" where
  "ehdr_fields h = e_ident h @ [e_type h, e_machine h, e_version h, e_entry h, e_phoff h, e_shoff h, e_flags h,
     e_ehsize h, e_phentsize h, e_phnum h, e_shentsize h, e_shnum h, e_shstrndx h]"

definition ehdr_of :: "nat list \<Rightarrow> ehdr" where
  "ehdr_of vs = (let f = (\<lambda>i. vs ! (EI_NIDENT + i)) in \<lparr>e_ident = take EI_NIDENT vs, e_type = f 0, e_machine = f 1,
     e_version = f 2, e_entry = f 3, e_phoff = f 4, e_shoff = f 5, e_flags = f 6, e_ehsize = f 7, e_phentsize = f 8,
     e_phnum = f 9, e_shentsize = f 10, e_shnum = f 11, e_shstrndx = f 12\<rparr>)"

subsection \<open>Section and segment headers\<close>

record shdr =
  sh_name :: nat
  sh_type :: nat
  sh_flags :: nat
  sh_addr :: nat
  sh_offset :: nat
  sh_size :: nat
  sh_link :: nat
  sh_info :: nat
  sh_addralign :: nat
  sh_entsize :: nat

definition shdr_widths :: "elf_class \<Rightarrow> nat list" where
  "shdr_widths c = [4, 4, wd c, wd c, wd c, wd c, 4, 4, wd c, wd c]"

definition shdr_fields :: "shdr \<Rightarrow> nat list" where
  "shdr_fields h = [sh_name h, sh_type h, sh_flags h, sh_addr h, sh_offset h, sh_size h, sh_link h, sh_info h,
     sh_addralign h, sh_entsize h]"

definition shdr_of :: "nat list \<Rightarrow> shdr" where
  "shdr_of vs = \<lparr>sh_name = vs ! 0, sh_type = vs ! 1, sh_flags = vs ! 2, sh_addr = vs ! 3, sh_offset = vs ! 4,
     sh_size = vs ! 5, sh_link = vs ! 6, sh_info = vs ! 7, sh_addralign = vs ! 8, sh_entsize = vs ! 9\<rparr>"

record phdr =
  p_type :: nat
  p_flags :: nat
  p_offset :: nat
  p_vaddr :: nat
  p_paddr :: nat
  p_filesz :: nat
  p_memsz :: nat
  p_align :: nat

text \<open>The flags come second in the 64-bit structure and next to last in the 32-bit one.\<close>

fun phdr_widths :: "elf_class \<Rightarrow> nat list" where
  "phdr_widths ELFCLASS32 = [4, 4, 4, 4, 4, 4, 4, 4]" | "phdr_widths ELFCLASS64 = [4, 4, 8, 8, 8, 8, 8, 8]"

fun phdr_fields :: "elf_class \<Rightarrow> phdr \<Rightarrow> nat list" where
  "phdr_fields ELFCLASS32 h = [p_type h, p_offset h, p_vaddr h, p_paddr h, p_filesz h, p_memsz h, p_flags h, p_align h]"
| "phdr_fields ELFCLASS64 h = [p_type h, p_flags h, p_offset h, p_vaddr h, p_paddr h, p_filesz h, p_memsz h, p_align h]"

fun phdr_of :: "elf_class \<Rightarrow> nat list \<Rightarrow> phdr" where
  "phdr_of ELFCLASS32 vs = \<lparr>p_type = vs ! 0, p_flags = vs ! 6, p_offset = vs ! 1, p_vaddr = vs ! 2, p_paddr = vs ! 3,
     p_filesz = vs ! 4, p_memsz = vs ! 5, p_align = vs ! 7\<rparr>"
| "phdr_of ELFCLASS64 vs = \<lparr>p_type = vs ! 0, p_flags = vs ! 1, p_offset = vs ! 2, p_vaddr = vs ! 3, p_paddr = vs ! 4,
     p_filesz = vs ! 5, p_memsz = vs ! 6, p_align = vs ! 7\<rparr>"

definition sizeof_ehdr :: "elf_class \<Rightarrow> nat" where "sizeof_ehdr c = sum_list (ehdr_widths c)"
definition sizeof_shdr :: "elf_class \<Rightarrow> nat" where "sizeof_shdr c = sum_list (shdr_widths c)"
definition sizeof_phdr :: "elf_class \<Rightarrow> nat" where "sizeof_phdr c = sum_list (phdr_widths c)"

lemma sizeofs [simp]:
  "sizeof_ehdr ELFCLASS32 = 52" "sizeof_ehdr ELFCLASS64 = 64" "sizeof_shdr ELFCLASS32 = 40" "sizeof_shdr ELFCLASS64 = 64"
  "sizeof_phdr ELFCLASS32 = 32" "sizeof_phdr ELFCLASS64 = 56"
  by (simp_all add: sizeof_ehdr_def sizeof_shdr_def sizeof_phdr_def ehdr_widths_def shdr_widths_def EI_NIDENT_def sum_list_replicate)

subsection \<open>Entries of tables\<close>

record sym =
  st_name :: nat
  st_value :: nat
  st_size :: nat
  st_info :: nat
  st_other :: nat
  st_shndx :: nat

fun sym_widths :: "elf_class \<Rightarrow> nat list" where
  "sym_widths ELFCLASS32 = [4, 4, 4, 1, 1, 2]" | "sym_widths ELFCLASS64 = [4, 1, 1, 2, 8, 8]"

fun sym_fields :: "elf_class \<Rightarrow> sym \<Rightarrow> nat list" where
  "sym_fields ELFCLASS32 y = [st_name y, st_value y, st_size y, st_info y, st_other y, st_shndx y]"
| "sym_fields ELFCLASS64 y = [st_name y, st_info y, st_other y, st_shndx y, st_value y, st_size y]"

fun sym_of :: "elf_class \<Rightarrow> nat list \<Rightarrow> sym" where
  "sym_of ELFCLASS32 vs = \<lparr>st_name = vs ! 0, st_value = vs ! 1, st_size = vs ! 2, st_info = vs ! 3, st_other = vs ! 4, st_shndx = vs ! 5\<rparr>"
| "sym_of ELFCLASS64 vs = \<lparr>st_name = vs ! 0, st_value = vs ! 4, st_size = vs ! 5, st_info = vs ! 1, st_other = vs ! 2, st_shndx = vs ! 3\<rparr>"

definition sizeof_sym :: "elf_class \<Rightarrow> nat" where "sizeof_sym c = sum_list (sym_widths c)"

text \<open>\<open>Elf_Rel\<close>, \<open>Elf_Rela\<close> and \<open>Elf_Dyn\<close> have fields of one width each.\<close>

definition rel_widths :: "elf_class \<Rightarrow> nat list" where "rel_widths c = [wd c, wd c]"
definition rela_widths :: "elf_class \<Rightarrow> nat list" where "rela_widths c = [wd c, wd c, wd c]"
definition dyn_widths :: "elf_class \<Rightarrow> nat list" where "dyn_widths c = [wd c, wd c]"

definition ELF_ST_BIND :: "nat \<Rightarrow> nat" where "ELF_ST_BIND i = i div 16"
definition ELF_ST_TYPE :: "nat \<Rightarrow> nat" where "ELF_ST_TYPE i = i mod 16"
definition ELF_ST_INFO :: "nat \<Rightarrow> nat \<Rightarrow> nat" where "ELF_ST_INFO b t = (b * 16 + t mod 16) mod 256"

lemma st_info: "b < 16 \<Longrightarrow> t < 16 \<Longrightarrow> ELF_ST_BIND (ELF_ST_INFO b t) = b \<and> ELF_ST_TYPE (ELF_ST_INFO b t) = t"
  by (simp add: ELF_ST_BIND_def ELF_ST_TYPE_def ELF_ST_INFO_def)

text \<open>Reading the fields back from the bytes.\<close>

lemma ehdr_of_fields [simp]: "length (e_ident h) = EI_NIDENT \<Longrightarrow> ehdr_of (ehdr_fields h) = h"
  by (simp add: ehdr_of_def ehdr_fields_def nth_append)

lemma shdr_of_fields [simp]: "shdr_of (shdr_fields h) = h"
  by (simp add: shdr_of_def shdr_fields_def)

lemma phdr_of_fields [simp]: "phdr_of c (phdr_fields c h) = h"
  by (cases c) simp_all

lemma sym_of_fields [simp]: "sym_of c (sym_fields c y) = y"
  by (cases c) simp_all

end
