(* ===== verification/ElfSection.thy ===== *)
theory ElfSection
  imports ElfTypes
begin

text \<open>
  \<open>elfio_section.hpp\<close> and \<open>elfio_strings.hpp\<close>: a section with its header, kept in the byte order of
  the file, and its data, a buffer of its own that may be larger than the section. Characters of a
  buffer that have not been written are \<open>None\<close>. \<open>need\<close> is the state of the converter, and \<open>new_ok n\<close>
  says whether an allocation of \<open>n\<close> bytes succeeds; reading or writing outside a buffer is undefined.
\<close>

section \<open>Streams\<close>

text \<open>
  An input file: a position outside the range of offsets and a short read make the stream fail, and
  from then on nothing is read.
\<close>

record ifstream =
  is_bytes :: string
  is_pos :: nat
  is_fail :: bool

definition seekg :: "nat \<Rightarrow> ifstream \<Rightarrow> ifstream" where
  "seekg p f = (if is_fail f then f else if p < 2 ^ 63 then f\<lparr>is_pos := p\<rparr> else f\<lparr>is_fail := True\<rparr>)"

definition read_n :: "nat \<Rightarrow> ifstream \<Rightarrow> string \<times> ifstream" where
  "read_n n f = (if is_fail f \<or> 2 ^ 63 \<le> n then ([], f\<lparr>is_fail := True\<rparr>)
     else let bs = take n (drop (is_pos f) (is_bytes f)) in
       (bs, f\<lparr>is_pos := is_pos f + length bs, is_fail := length bs < n\<rparr>))"

text \<open>An output file: a gap before the position of a write is filled with zeros.\<close>

record ofstream =
  os_bytes :: string
  os_fail :: bool

definition os_write :: "nat \<Rightarrow> string \<Rightarrow> ofstream \<Rightarrow> ofstream" where
  "os_write p bs f = (if os_fail f then f else if 2 ^ 63 \<le> p then f\<lparr>os_fail := True\<rparr>
     else f\<lparr>os_bytes := take p (os_bytes f @ replicate (p - length (os_bytes f)) CHR 0x00) @ bs @
       drop (p + length bs) (os_bytes f)\<rparr>)"

section \<open>Buffers\<close>

type_synonym buffer = "char option list option"

definition rd_buf :: "buffer \<Rightarrow> nat \<Rightarrow> nat \<Rightarrow> string res" where
  "rd_buf b i n = (if n = 0 then Inr [] else case b of None \<Rightarrow> Inl (Undefined ''read through null'')
     | Some cs \<Rightarrow> if i + n \<le> length cs \<and> None \<notin> set (take n (drop i cs)) then Inr (map the (take n (drop i cs)))
         else Inl (Undefined ''read outside the data''))"

definition wr_buf :: "buffer \<Rightarrow> nat \<Rightarrow> string \<Rightarrow> buffer res" where
  "wr_buf b i bs = (if bs = [] then Inr b else case b of None \<Rightarrow> Inl (Undefined ''write through null'')
     | Some cs \<Rightarrow> if i + length bs \<le> length cs
         then Inr (Some (take i cs @ map Some bs @ drop (i + length bs) cs))
         else Inl (Undefined ''write outside the data''))"

text \<open>The first \<open>n\<close> characters copied to the front of a new buffer of length \<open>m\<close>.\<close>

definition grow_buf :: "buffer \<Rightarrow> nat \<Rightarrow> nat \<Rightarrow> buffer res" where
  "grow_buf b n m = (if n = 0 then Inr (Some (replicate m None)) else case b of
       None \<Rightarrow> Inl (Undefined ''read through null'')
     | Some cs \<Rightarrow> if n \<le> length cs \<and> n \<le> m then Inr (Some (take n cs @ replicate (m - n) None))
         else Inl (Undefined ''copy outside the data''))"

text \<open>\<open>std::string(p)\<close>: the characters up to the first null.\<close>

fun c_str :: "char option list \<Rightarrow> string res" where
  "c_str [] = Inl (Undefined ''no null in the data'')"
| "c_str (None # cs) = Inl (Undefined ''no null in the data'')"
| "c_str (Some c # cs) = (if c = CHR 0x00 then Inr [] else rbind (c_str cs) (\<lambda>s. Inr (c # s)))"

section \<open>Sections\<close>

record esection =
  s_class :: elf_class
  s_hdr :: shdr
  s_index :: nat
  s_name :: string
  s_data :: buffer
  s_dsize :: nat
  s_addr_set :: bool

definition SHT_NULL :: nat where "SHT_NULL = 0"
definition SHT_STRTAB :: nat where "SHT_STRTAB = 3"
definition SHT_NOBITS :: nat where "SHT_NOBITS = 8"

definition zero_shdr :: shdr where
  "zero_shdr = shdr_of (replicate 10 0)"

definition section_make :: "elf_class \<Rightarrow> esection" where
  "section_make c = \<lparr>s_class = c, s_hdr = zero_shdr, s_index = 0, s_name = [], s_data = None, s_dsize = 0, s_addr_set = False\<rparr>"

subsection \<open>Access to the header\<close>

definition get_type :: "bool \<Rightarrow> esection \<Rightarrow> nat" where
  "get_type need s = conv need 4 (sh_type (s_hdr s))"
definition get_flags :: "bool \<Rightarrow> esection \<Rightarrow> nat" where
  "get_flags need s = conv need (wd (s_class s)) (sh_flags (s_hdr s))"
definition get_size :: "bool \<Rightarrow> esection \<Rightarrow> nat" where
  "get_size need s = conv need (wd (s_class s)) (sh_size (s_hdr s))"
definition get_link :: "bool \<Rightarrow> esection \<Rightarrow> nat" where
  "get_link need s = conv need 4 (sh_link (s_hdr s))"
definition get_info :: "bool \<Rightarrow> esection \<Rightarrow> nat" where
  "get_info need s = conv need 4 (sh_info (s_hdr s))"
definition get_addr_align :: "bool \<Rightarrow> esection \<Rightarrow> nat" where
  "get_addr_align need s = conv need (wd (s_class s)) (sh_addralign (s_hdr s))"
definition get_entry_size :: "bool \<Rightarrow> esection \<Rightarrow> nat" where
  "get_entry_size need s = conv need (wd (s_class s)) (sh_entsize (s_hdr s))"
definition get_name_string_offset :: "bool \<Rightarrow> esection \<Rightarrow> nat" where
  "get_name_string_offset need s = conv need 4 (sh_name (s_hdr s))"
definition get_address :: "bool \<Rightarrow> esection \<Rightarrow> nat" where
  "get_address need s = conv need (wd (s_class s)) (sh_addr (s_hdr s))"
definition get_offset :: "bool \<Rightarrow> esection \<Rightarrow> nat" where
  "get_offset need s = conv need (wd (s_class s)) (sh_offset (s_hdr s))"

text \<open>A setter first assigns the value, which the width of the field truncates, then converts it.\<close>

definition store :: "bool \<Rightarrow> nat \<Rightarrow> nat \<Rightarrow> nat" where
  "store need w value = conv need w (value mod 256 ^ w)"

definition set_type :: "bool \<Rightarrow> nat \<Rightarrow> esection \<Rightarrow> esection" where
  "set_type need v s = s\<lparr>s_hdr := (s_hdr s)\<lparr>sh_type := store need 4 v\<rparr>\<rparr>"
definition set_flags :: "bool \<Rightarrow> nat \<Rightarrow> esection \<Rightarrow> esection" where
  "set_flags need v s = s\<lparr>s_hdr := (s_hdr s)\<lparr>sh_flags := store need (wd (s_class s)) v\<rparr>\<rparr>"
definition set_size :: "bool \<Rightarrow> nat \<Rightarrow> esection \<Rightarrow> esection" where
  "set_size need v s = s\<lparr>s_hdr := (s_hdr s)\<lparr>sh_size := store need (wd (s_class s)) v\<rparr>\<rparr>"
definition set_link :: "bool \<Rightarrow> nat \<Rightarrow> esection \<Rightarrow> esection" where
  "set_link need v s = s\<lparr>s_hdr := (s_hdr s)\<lparr>sh_link := store need 4 v\<rparr>\<rparr>"
definition set_info :: "bool \<Rightarrow> nat \<Rightarrow> esection \<Rightarrow> esection" where
  "set_info need v s = s\<lparr>s_hdr := (s_hdr s)\<lparr>sh_info := store need 4 v\<rparr>\<rparr>"
definition set_addr_align :: "bool \<Rightarrow> nat \<Rightarrow> esection \<Rightarrow> esection" where
  "set_addr_align need v s = s\<lparr>s_hdr := (s_hdr s)\<lparr>sh_addralign := store need (wd (s_class s)) v\<rparr>\<rparr>"
definition set_entry_size :: "bool \<Rightarrow> nat \<Rightarrow> esection \<Rightarrow> esection" where
  "set_entry_size need v s = s\<lparr>s_hdr := (s_hdr s)\<lparr>sh_entsize := store need (wd (s_class s)) v\<rparr>\<rparr>"
definition set_name_string_offset :: "bool \<Rightarrow> nat \<Rightarrow> esection \<Rightarrow> esection" where
  "set_name_string_offset need v s = s\<lparr>s_hdr := (s_hdr s)\<lparr>sh_name := store need 4 v\<rparr>\<rparr>"
definition set_offset :: "bool \<Rightarrow> nat \<Rightarrow> esection \<Rightarrow> esection" where
  "set_offset need v s = s\<lparr>s_hdr := (s_hdr s)\<lparr>sh_offset := store need (wd (s_class s)) v\<rparr>\<rparr>"
definition set_address :: "bool \<Rightarrow> nat \<Rightarrow> esection \<Rightarrow> esection" where
  "set_address need v s = s\<lparr>s_hdr := (s_hdr s)\<lparr>sh_addr := store need (wd (s_class s)) v\<rparr>, s_addr_set := True\<rparr>"

subsection \<open>Data\<close>

text \<open>
  \<open>set_data\<close> with \<open>n\<close> characters, or with a null pointer. When the pointer is null, the new buffer is
  not written and \<open>data_size\<close> is not changed.
\<close>

definition set_data :: "bool \<Rightarrow> (nat \<Rightarrow> bool) \<Rightarrow> string option \<Rightarrow> nat \<Rightarrow> esection \<Rightarrow> esection" where
  "set_data need new_ok raw_data n s = (if get_type need s \<noteq> SHT_NOBITS then
     if new_ok n then (case raw_data of
         Some bs \<Rightarrow> set_size need n (s\<lparr>s_data := Some (map Some bs), s_dsize := n\<rparr>)
       | None \<Rightarrow> set_size need n (s\<lparr>s_data := Some (replicate n None)\<rparr>))
     else set_size need 0 (s\<lparr>s_data := None, s_dsize := 0\<rparr>)
   else set_size need n s)"

definition append_data :: "bool \<Rightarrow> (nat \<Rightarrow> bool) \<Rightarrow> string \<Rightarrow> esection \<Rightarrow> esection res" where
  "append_data need new_ok raw_data s = (let n = length raw_data in
     if get_type need s = SHT_NOBITS then Inr s
     else if (get_size need s + n) mod 2 ^ 64 < s_dsize s then
       rbind (wr_buf (s_data s) (get_size need s) raw_data) (\<lambda>d.
       Inr (set_size need (get_size need s + n) (s\<lparr>s_data := d\<rparr>)))
     else let dsize = (2 * (s_dsize s + n)) mod 2 ^ 32 in
       if new_ok dsize then
         rbind (grow_buf (s_data s) (get_size need s) dsize) (\<lambda>d.
         rbind (wr_buf d (get_size need s) raw_data) (\<lambda>d.
         Inr (set_size need (get_size need s + n) (s\<lparr>s_data := d, s_dsize := dsize\<rparr>))))
       else Inr (set_size need (get_size need s) (s\<lparr>s_dsize := dsize\<rparr>)))"

subsection \<open>Files\<close>

text \<open>
  \<open>load\<close> reads the header and, unless the section has no bytes in the file, its data. When the
  allocation fails, the data are read to a null pointer.
\<close>

definition section_load :: "bool \<Rightarrow> (nat \<Rightarrow> bool) \<Rightarrow> nat \<Rightarrow> esection \<Rightarrow> ifstream \<Rightarrow> (esection \<times> ifstream) res" where
  "section_load need new_ok header_offset s f =
    (let f = seekg header_offset f;
         (bs, f) = read_n (sizeof_shdr (s_class s)) f;
         s = s\<lparr>s_hdr := shdr_of (unpack (shdr_widths (s_class s)) (bs @ replicate (sizeof_shdr (s_class s) - length bs) CHR 0x00))\<rparr>;
         n = get_size need s
     in if s_data s = None \<and> get_type need s \<noteq> SHT_NULL \<and> get_type need s \<noteq> SHT_NOBITS then
          let s = (if new_ok n then s\<lparr>s_data := Some (replicate n None)\<rparr> else s\<lparr>s_data := None, s_dsize := 0\<rparr>) in
          if n \<noteq> 0 then
            let f = seekg (get_offset need s) f; (bs, f) = read_n n f in
            rbind (wr_buf (s_data s) 0 bs) (\<lambda>d. Inr (s\<lparr>s_data := d, s_dsize := n mod 2 ^ 32\<rparr>, f))
          else Inr (s, f)
        else Inr (s, f))"

definition section_save_header :: "esection \<Rightarrow> nat \<Rightarrow> ofstream \<Rightarrow> ofstream" where
  "section_save_header s header_offset f = os_write header_offset (pack (shdr_widths (s_class s)) (shdr_fields (s_hdr s))) f"

definition section_save_data :: "bool \<Rightarrow> esection \<Rightarrow> nat \<Rightarrow> ofstream \<Rightarrow> ofstream res" where
  "section_save_data need s data_offset f = rbind (rd_buf (s_data s) 0 (get_size need s)) (\<lambda>bs. Inr (os_write data_offset bs f))"

definition section_save :: "bool \<Rightarrow> nat \<Rightarrow> nat \<Rightarrow> esection \<Rightarrow> ofstream \<Rightarrow> (esection \<times> ofstream) res" where
  "section_save need header_offset data_offset s f =
    (let s = (if s_index s \<noteq> 0 then set_offset need data_offset s else s);
         f = section_save_header s header_offset f
     in if get_type need s \<noteq> SHT_NOBITS \<and> get_type need s \<noteq> SHT_NULL \<and> get_size need s \<noteq> 0 \<and> s_data s \<noteq> None
        then rbind (section_save_data need s data_offset f) (\<lambda>f. Inr (s, f)) else Inr (s, f))"

section \<open>String tables\<close>

definition get_string :: "bool \<Rightarrow> esection option \<Rightarrow> nat \<Rightarrow> string option res" where
  "get_string need sec index = (case sec of None \<Rightarrow> Inr None
     | Some s \<Rightarrow> if index < get_size need s then (case s_data s of None \<Rightarrow> Inr None
         | Some cs \<Rightarrow> rbind (c_str (drop index cs)) (\<lambda>str. Inr (Some str))) else Inr None)"

definition add_string :: "bool \<Rightarrow> (nat \<Rightarrow> bool) \<Rightarrow> string \<Rightarrow> esection \<Rightarrow> (nat \<times> esection) res" where
  "add_string need new_ok str s =
    (let current_position = get_size need s mod 2 ^ 32 in
     rbind (if current_position = 0
         then rbind (append_data need new_ok [CHR 0x00] s) (\<lambda>s. Inr ((current_position + 1) mod 2 ^ 32, s))
         else Inr (current_position, s)) (\<lambda>(current_position, s).
     rbind (append_data need new_ok (str @ [CHR 0x00]) s) (\<lambda>s. Inr (current_position, s))))"

end
