(* ===== verification/ElfFile.thy ===== *)
theory ElfFile
  imports ElfSection
begin

text \<open>
  \<open>elfio_header.hpp\<close>, \<open>elfio_segment.hpp\<close> and \<open>elfio.hpp\<close>: an ELF file in memory, read from a stream, built
  from nothing, and laid out and written to a file. Sections and segments, which the library keeps
  behind pointers, are named by their index; \<open>sections[i]\<close> is null for an index out of range.
\<close>

section \<open>Header\<close>

definition EI_CLASS :: nat where "EI_CLASS = 4"
definition EI_DATA :: nat where "EI_DATA = 5"
definition EV_CURRENT :: nat where "EV_CURRENT = 1"
definition ELFMAG :: "nat list" where "ELFMAG = [0x7F, of_char CHR ''E'', of_char CHR ''L'', of_char CHR ''F'']"

definition header_make :: "bool \<Rightarrow> elf_class \<Rightarrow> nat \<Rightarrow> ehdr" where
  "header_make need c encoding = \<lparr>e_ident = ELFMAG @ [class_byte c, encoding, EV_CURRENT] @ replicate 9 0,
     e_type = 0, e_machine = 0, e_version = store need 4 EV_CURRENT, e_entry = 0, e_phoff = 0, e_shoff = 0, e_flags = 0,
     e_ehsize = store need 2 (sizeof_ehdr c), e_phentsize = store need 2 (sizeof_phdr c), e_phnum = 0,
     e_shentsize = store need 2 (sizeof_shdr c), e_shnum = 0, e_shstrndx = store need 2 1\<rparr>"

text \<open>\<open>load\<close> overwrites as many bytes of the header as the stream has.\<close>

definition header_load :: "elf_class \<Rightarrow> ehdr \<Rightarrow> ifstream \<Rightarrow> bool \<times> ehdr \<times> ifstream" where
  "header_load c h f = (let f = seekg 0 f; (bs, f) = read_n (sizeof_ehdr c) f in
     (length bs = sizeof_ehdr c,
      ehdr_of (unpack (ehdr_widths c) (bs @ drop (length bs) (pack (ehdr_widths c) (ehdr_fields h)))), f))"

definition header_save :: "elf_class \<Rightarrow> ehdr \<Rightarrow> ofstream \<Rightarrow> bool \<times> ofstream" where
  "header_save c h f = (let f = os_write 0 (pack (ehdr_widths c) (ehdr_fields h)) f in (\<not> os_fail f, f))"

definition header_size :: "bool \<Rightarrow> ehdr \<Rightarrow> nat" where "header_size need h = conv need 2 (e_ehsize h)"
definition section_entry_size :: "bool \<Rightarrow> ehdr \<Rightarrow> nat" where "section_entry_size need h = conv need 2 (e_shentsize h)"
definition segment_entry_size :: "bool \<Rightarrow> ehdr \<Rightarrow> nat" where "segment_entry_size need h = conv need 2 (e_phentsize h)"
definition sections_num :: "bool \<Rightarrow> ehdr \<Rightarrow> nat" where "sections_num need h = conv need 2 (e_shnum h)"
definition segments_num :: "bool \<Rightarrow> ehdr \<Rightarrow> nat" where "segments_num need h = conv need 2 (e_phnum h)"
definition name_str_index :: "bool \<Rightarrow> ehdr \<Rightarrow> nat" where "name_str_index need h = conv need 2 (e_shstrndx h)"
definition sections_offset :: "bool \<Rightarrow> elf_class \<Rightarrow> ehdr \<Rightarrow> nat" where "sections_offset need c h = conv need (wd c) (e_shoff h)"
definition segments_offset :: "bool \<Rightarrow> elf_class \<Rightarrow> ehdr \<Rightarrow> nat" where "segments_offset need c h = conv need (wd c) (e_phoff h)"

definition EI_VERSION :: nat where "EI_VERSION = 6"
definition EI_OSABI :: nat where "EI_OSABI = 7"
definition EI_ABIVERSION :: nat where "EI_ABIVERSION = 8"

text \<open>The bytes of the identification need no conversion.\<close>

definition ident_byte :: "nat \<Rightarrow> ehdr \<Rightarrow> nat" where "ident_byte i h = e_ident h ! i"
definition set_os_abi :: "nat \<Rightarrow> ehdr \<Rightarrow> ehdr" where "set_os_abi v h = h\<lparr>e_ident := (e_ident h)[EI_OSABI := v mod 256]\<rparr>"
definition set_abi_version :: "nat \<Rightarrow> ehdr \<Rightarrow> ehdr" where
  "set_abi_version v h = h\<lparr>e_ident := (e_ident h)[EI_ABIVERSION := v mod 256]\<rparr>"

definition header_version :: "bool \<Rightarrow> ehdr \<Rightarrow> nat" where "header_version need h = conv need 4 (e_version h)"
definition header_type :: "bool \<Rightarrow> ehdr \<Rightarrow> nat" where "header_type need h = conv need 2 (e_type h)"
definition header_machine :: "bool \<Rightarrow> ehdr \<Rightarrow> nat" where "header_machine need h = conv need 2 (e_machine h)"
definition header_flags :: "bool \<Rightarrow> ehdr \<Rightarrow> nat" where "header_flags need h = conv need 4 (e_flags h)"
definition header_entry :: "bool \<Rightarrow> elf_class \<Rightarrow> ehdr \<Rightarrow> nat" where "header_entry need c h = conv need (wd c) (e_entry h)"

definition header_set_type :: "bool \<Rightarrow> nat \<Rightarrow> ehdr \<Rightarrow> ehdr" where "header_set_type need v h = h\<lparr>e_type := store need 2 v\<rparr>"
definition header_set_machine :: "bool \<Rightarrow> nat \<Rightarrow> ehdr \<Rightarrow> ehdr" where "header_set_machine need v h = h\<lparr>e_machine := store need 2 v\<rparr>"
definition header_set_flags :: "bool \<Rightarrow> nat \<Rightarrow> ehdr \<Rightarrow> ehdr" where "header_set_flags need v h = h\<lparr>e_flags := store need 4 v\<rparr>"
definition header_set_entry :: "bool \<Rightarrow> elf_class \<Rightarrow> nat \<Rightarrow> ehdr \<Rightarrow> ehdr" where
  "header_set_entry need c v h = h\<lparr>e_entry := store need (wd c) v\<rparr>"
definition set_name_str_index :: "bool \<Rightarrow> nat \<Rightarrow> ehdr \<Rightarrow> ehdr" where "set_name_str_index need v h = h\<lparr>e_shstrndx := store need 2 v\<rparr>"
definition set_sections_num :: "bool \<Rightarrow> nat \<Rightarrow> ehdr \<Rightarrow> ehdr" where "set_sections_num need v h = h\<lparr>e_shnum := store need 2 v\<rparr>"
definition set_sections_offset :: "bool \<Rightarrow> elf_class \<Rightarrow> nat \<Rightarrow> ehdr \<Rightarrow> ehdr" where
  "set_sections_offset need c v h = h\<lparr>e_shoff := store need (wd c) v\<rparr>"
definition set_segments_num :: "bool \<Rightarrow> nat \<Rightarrow> ehdr \<Rightarrow> ehdr" where "set_segments_num need v h = h\<lparr>e_phnum := store need 2 v\<rparr>"
definition set_segments_offset :: "bool \<Rightarrow> elf_class \<Rightarrow> nat \<Rightarrow> ehdr \<Rightarrow> ehdr" where
  "set_segments_offset need c v h = h\<lparr>e_phoff := store need (wd c) v\<rparr>"

section \<open>Segments\<close>

record segment =
  g_class :: elf_class
  g_ph :: phdr
  g_index :: nat
  g_data :: buffer
  g_sections :: "nat list"
  g_off_set :: bool

definition PT_NULL :: nat where "PT_NULL = 0"
definition PT_PHDR :: nat where "PT_PHDR = 6"
definition PT_TLS :: nat where "PT_TLS = 7"

definition segment_make :: "elf_class \<Rightarrow> segment" where
  "segment_make c = \<lparr>g_class = c, g_ph = phdr_of c (replicate 8 0), g_index = 0, g_data = None, g_sections = [], g_off_set = False\<rparr>"

definition seg_type :: "bool \<Rightarrow> segment \<Rightarrow> nat" where "seg_type need g = conv need 4 (p_type (g_ph g))"
definition seg_align :: "bool \<Rightarrow> segment \<Rightarrow> nat" where "seg_align need g = conv need (wd (g_class g)) (p_align (g_ph g))"
definition seg_vaddr :: "bool \<Rightarrow> segment \<Rightarrow> nat" where "seg_vaddr need g = conv need (wd (g_class g)) (p_vaddr (g_ph g))"
definition seg_filesz :: "bool \<Rightarrow> segment \<Rightarrow> nat" where "seg_filesz need g = conv need (wd (g_class g)) (p_filesz (g_ph g))"
definition seg_memsz :: "bool \<Rightarrow> segment \<Rightarrow> nat" where "seg_memsz need g = conv need (wd (g_class g)) (p_memsz (g_ph g))"
definition seg_offset :: "bool \<Rightarrow> segment \<Rightarrow> nat" where "seg_offset need g = conv need (wd (g_class g)) (p_offset (g_ph g))"
definition seg_flags :: "bool \<Rightarrow> segment \<Rightarrow> nat" where "seg_flags need g = conv need 4 (p_flags (g_ph g))"
definition seg_paddr :: "bool \<Rightarrow> segment \<Rightarrow> nat" where "seg_paddr need g = conv need (wd (g_class g)) (p_paddr (g_ph g))"

definition seg_set_type :: "bool \<Rightarrow> nat \<Rightarrow> segment \<Rightarrow> segment" where
  "seg_set_type need v g = g\<lparr>g_ph := (g_ph g)\<lparr>p_type := store need 4 v\<rparr>\<rparr>"
definition seg_set_flags :: "bool \<Rightarrow> nat \<Rightarrow> segment \<Rightarrow> segment" where
  "seg_set_flags need v g = g\<lparr>g_ph := (g_ph g)\<lparr>p_flags := store need 4 v\<rparr>\<rparr>"
definition seg_set_vaddr :: "bool \<Rightarrow> nat \<Rightarrow> segment \<Rightarrow> segment" where
  "seg_set_vaddr need v g = g\<lparr>g_ph := (g_ph g)\<lparr>p_vaddr := store need (wd (g_class g)) v\<rparr>\<rparr>"
definition seg_set_paddr :: "bool \<Rightarrow> nat \<Rightarrow> segment \<Rightarrow> segment" where
  "seg_set_paddr need v g = g\<lparr>g_ph := (g_ph g)\<lparr>p_paddr := store need (wd (g_class g)) v\<rparr>\<rparr>"
definition seg_set_align :: "bool \<Rightarrow> nat \<Rightarrow> segment \<Rightarrow> segment" where
  "seg_set_align need v g = g\<lparr>g_ph := (g_ph g)\<lparr>p_align := store need (wd (g_class g)) v\<rparr>\<rparr>"
definition seg_set_filesz :: "bool \<Rightarrow> nat \<Rightarrow> segment \<Rightarrow> segment" where
  "seg_set_filesz need v g = g\<lparr>g_ph := (g_ph g)\<lparr>p_filesz := store need (wd (g_class g)) v\<rparr>\<rparr>"
definition seg_set_memsz :: "bool \<Rightarrow> nat \<Rightarrow> segment \<Rightarrow> segment" where
  "seg_set_memsz need v g = g\<lparr>g_ph := (g_ph g)\<lparr>p_memsz := store need (wd (g_class g)) v\<rparr>\<rparr>"
definition seg_set_offset :: "bool \<Rightarrow> nat \<Rightarrow> segment \<Rightarrow> segment" where
  "seg_set_offset need v g = g\<lparr>g_ph := (g_ph g)\<lparr>p_offset := store need (wd (g_class g)) v\<rparr>, g_off_set := True\<rparr>"

definition add_section_index :: "bool \<Rightarrow> nat \<Rightarrow> nat \<Rightarrow> segment \<Rightarrow> segment" where
  "add_section_index need sec_index addr_align g =
    (let g = g\<lparr>g_sections := g_sections g @ [sec_index]\<rparr> in
     if seg_align need g < addr_align then seg_set_align need addr_align g else g)"

text \<open>Numbers of sections are 16 bits wide; so is the index given for a position out of range.\<close>

definition get_sections_num :: "segment \<Rightarrow> nat" where
  "get_sections_num g = length (g_sections g) mod 2 ^ 16"

definition get_section_index_at :: "segment \<Rightarrow> nat \<Rightarrow> nat" where
  "get_section_index_at g n = (if n < length (g_sections g) then g_sections g ! n else 2 ^ 16 - 1)"

definition segment_load :: "bool \<Rightarrow> (nat \<Rightarrow> bool) \<Rightarrow> nat \<Rightarrow> segment \<Rightarrow> ifstream \<Rightarrow> (segment \<times> ifstream) res" where
  "segment_load need new_ok header_offset g f =
    (let f = seekg header_offset f; n = sizeof_phdr (g_class g); (bs, f) = read_n n f;
         old = pack (phdr_widths (g_class g)) (phdr_fields (g_class g) (g_ph g));
         g = g\<lparr>g_ph := phdr_of (g_class g) (unpack (phdr_widths (g_class g)) (bs @ drop (length bs) old)), g_off_set := True\<rparr>
     in if seg_type need g \<noteq> PT_NULL \<and> seg_filesz need g \<noteq> 0 then
          let f = seekg (seg_offset need g) f; size = seg_filesz need g in
          if new_ok size then let (bs, f) = read_n size f in
            Inr (g\<lparr>g_data := Some (map Some bs @ replicate (size - length bs) None)\<rparr>, f)
          else Inr (g\<lparr>g_data := None\<rparr>, f)
        else Inr (g, f))"

definition segment_save :: "bool \<Rightarrow> nat \<Rightarrow> nat \<Rightarrow> segment \<Rightarrow> ofstream \<Rightarrow> segment \<times> ofstream" where
  "segment_save need header_offset data_offset g f =
    (let g = g\<lparr>g_ph := (g_ph g)\<lparr>p_offset := store need (wd (g_class g)) data_offset\<rparr>\<rparr> in
     (g, os_write header_offset (pack (phdr_widths (g_class g)) (phdr_fields (g_class g) (g_ph g))) f))"

section \<open>The file\<close>

record elfio =
  f_header :: "(elf_class \<times> ehdr) option"
  f_sections :: "esection list"
  f_segments :: "segment list"
  f_need :: bool
  f_pos :: nat

definition elf_clean :: "elfio \<Rightarrow> elfio" where
  "elf_clean e = e\<lparr>f_header := None, f_sections := [], f_segments := []\<rparr>"

definition class_of_byte :: "nat \<Rightarrow> elf_class option" where
  "class_of_byte b = (if b = 2 then Some ELFCLASS64 else if b = 1 then Some ELFCLASS32 else None)"

definition create_header :: "bool \<Rightarrow> nat \<Rightarrow> nat \<Rightarrow> (elf_class \<times> ehdr) option" where
  "create_header need file_class encoding = map_option (\<lambda>c. (c, header_make need c encoding)) (class_of_byte file_class)"

definition the_header :: "elfio \<Rightarrow> (elf_class \<times> ehdr) res" where
  "the_header e = (case f_header e of None \<Rightarrow> Inl (Undefined ''header is null'') | Some h \<Rightarrow> Inr h)"

definition set_header :: "(ehdr \<Rightarrow> ehdr) \<Rightarrow> elfio \<Rightarrow> elfio" where
  "set_header upd e = e\<lparr>f_header := map_option (\<lambda>(c, h). (c, upd h)) (f_header e)\<rparr>"

definition get_class :: "elfio \<Rightarrow> nat res" where
  "get_class e = rbind (the_header e) (\<lambda>(c, h). Inr (e_ident h ! EI_CLASS))"

subsection \<open>Sections and segments\<close>

definition section_at :: "elfio \<Rightarrow> nat \<Rightarrow> esection option" where
  "section_at e i = (if i < length (f_sections e) then Some (f_sections e ! i) else None)"

definition deref_section :: "elfio \<Rightarrow> nat \<Rightarrow> esection res" where
  "deref_section e i = (case section_at e i of None \<Rightarrow> Inl (Undefined ''section is null'') | Some s \<Rightarrow> Inr s)"

definition set_section :: "nat \<Rightarrow> esection \<Rightarrow> elfio \<Rightarrow> elfio" where
  "set_section i s e = e\<lparr>f_sections := (f_sections e)[i := s]\<rparr>"

definition section_named :: "elfio \<Rightarrow> string \<Rightarrow> esection option" where
  "section_named e name = find (\<lambda>s. s_name s = name) (f_sections e)"

text \<open>The index of the new section, or null when the header has neither class.\<close>

definition create_section :: "elfio \<Rightarrow> (nat option \<times> elfio) res" where
  "create_section e = rbind (get_class e) (\<lambda>b. case class_of_byte b of None \<Rightarrow> Inr (None, e)
     | Some c \<Rightarrow> let n = length (f_sections e) in
        Inr (Some n, e\<lparr>f_sections := f_sections e @ [(section_make c)\<lparr>s_index := n mod 2 ^ 16\<rparr>]\<rparr>))"

definition create_segment :: "elfio \<Rightarrow> (nat option \<times> elfio) res" where
  "create_segment e = rbind (get_class e) (\<lambda>b. case class_of_byte b of None \<Rightarrow> Inr (None, e)
     | Some c \<Rightarrow> let n = length (f_segments e) in
        Inr (Some n, e\<lparr>f_segments := f_segments e @ [(segment_make c)\<lparr>g_index := n mod 2 ^ 16\<rparr>]\<rparr>))"

text \<open>The string table of names may be the new section itself.\<close>

definition sections_add :: "(nat \<Rightarrow> bool) \<Rightarrow> string \<Rightarrow> elfio \<Rightarrow> (nat \<times> elfio) res" where
  "sections_add new_ok name e = rbind (create_section e) (\<lambda>(i, e). case i of None \<Rightarrow> Inl (Undefined ''section is null'')
     | Some i \<Rightarrow> rbind (deref_section e i) (\<lambda>s. let e = set_section i (s\<lparr>s_name := name\<rparr>) e in
       rbind (the_header e) (\<lambda>(c, h). let str_index = name_str_index (f_need e) h in
       rbind (deref_section e str_index) (\<lambda>t.
       rbind (add_string (f_need e) new_ok (takeWhile (\<lambda>c. c \<noteq> CHR 0x00) name) t) (\<lambda>(p, t).
         let e = set_section str_index t e in
         rbind (deref_section e i) (\<lambda>s. Inr (i, set_section i (set_name_string_offset (f_need e) p s) e)))))))"

definition create_mandatory_sections :: "(nat \<Rightarrow> bool) \<Rightarrow> elfio \<Rightarrow> elfio res" where
  "create_mandatory_sections new_ok e = rbind (create_section e) (\<lambda>(i, e). case i of None \<Rightarrow> Inl (Undefined ''section is null'')
     | Some i \<Rightarrow> rbind (deref_section e i) (\<lambda>s.
       let e = set_section i (set_name_string_offset (f_need e) 0 (s\<lparr>s_index := 0, s_name := []\<rparr>)) e;
           e = set_header (set_name_str_index (f_need e) 1) e in
       rbind (sections_add new_ok ''.shstrtab'' e) (\<lambda>(j, e). rbind (deref_section e j) (\<lambda>t.
       Inr (set_section j (set_addr_align (f_need e) 1 (set_type (f_need e) SHT_STRTAB t)) e)))))"

definition elf_create :: "(nat \<Rightarrow> bool) \<Rightarrow> nat \<Rightarrow> nat \<Rightarrow> elfio \<Rightarrow> elfio res" where
  "elf_create new_ok file_class encoding e = (let e = (elf_clean e)\<lparr>f_need := conv_setup encoding\<rparr> in
     create_mandatory_sections new_ok (e\<lparr>f_header := create_header (f_need e) file_class encoding\<rparr>))"

definition elfio_make :: "(nat \<Rightarrow> bool) \<Rightarrow> elfio res" where
  "elfio_make new_ok = elf_create new_ok 1 ELFDATA2LSB \<lparr>f_header = None, f_sections = [], f_segments = [], f_need = False, f_pos = 0\<rparr>"

subsection \<open>Loading\<close>

text \<open>
  The position of entry \<open>i\<close> of a table: the product is computed in \<open>int\<close> and added to a signed offset,
  both of which may overflow. A negative position makes the stream fail.
\<close>

definition int_mul :: "nat \<Rightarrow> nat \<Rightarrow> nat res" where
  "int_mul a b = (if a * b < 2 ^ 31 then Inr (a * b) else Inl (Undefined ''integer overflow''))"

definition entry_pos :: "nat \<Rightarrow> nat \<Rightarrow> nat \<Rightarrow> nat res" where
  "entry_pos offset i entry_size = rbind (int_mul i entry_size) (\<lambda>k.
     if offset < 2 ^ 63 \<and> 2 ^ 63 \<le> offset + k then Inl (Undefined ''integer overflow'') else Inr ((offset + k) mod 2 ^ 64))"

definition load_section :: "(nat \<Rightarrow> bool) \<Rightarrow> nat \<Rightarrow> nat \<Rightarrow> nat \<Rightarrow> elfio \<times> ifstream \<Rightarrow> (elfio \<times> ifstream) res" where
  "load_section new_ok offset entry_size i = (\<lambda>(e, f). rbind (create_section e) (\<lambda>(j, e).
     case j of None \<Rightarrow> Inl (Undefined ''section is null'') | Some j \<Rightarrow>
       rbind (entry_pos offset i entry_size) (\<lambda>p. rbind (deref_section e j) (\<lambda>s.
       rbind (section_load (f_need e) new_ok p s f) (\<lambda>(s, f).
       let s = s\<lparr>s_index := i\<rparr> in
       Inr (set_section j (set_address (f_need e) (get_address (f_need e) s) s) e, f))))))"

definition load_name :: "nat \<Rightarrow> nat \<Rightarrow> elfio \<Rightarrow> elfio res" where
  "load_name shstrndx i e = rbind (deref_section e i) (\<lambda>s.
     rbind (get_string (f_need e) (section_at e shstrndx) (get_name_string_offset (f_need e) s)) (\<lambda>p.
     case p of None \<Rightarrow> Inr e | Some str \<Rightarrow> Inr (set_section i (s\<lparr>s_name := str\<rparr>) e)))"

definition load_sections :: "(nat \<Rightarrow> bool) \<Rightarrow> elfio \<times> ifstream \<Rightarrow> (elfio \<times> ifstream) res" where
  "load_sections new_ok = (\<lambda>(e, f). rbind (the_header e) (\<lambda>(c, h).
     let need = f_need e; num = sections_num need h in
     rbind (for_each (load_section new_ok (sections_offset need c h) (section_entry_size need h)) [0..<num] (e, f)) (\<lambda>(e, f).
     let shstrndx = name_str_index need h in
     if shstrndx \<noteq> SHN_UNDEF then rbind (for_each (load_name shstrndx) [0..<num] e) (\<lambda>e. Inr (e, f)) else Inr (e, f))))"

definition SHF_ALLOC :: nat where "SHF_ALLOC = 0x2"

definition has_bit :: "nat \<Rightarrow> nat \<Rightarrow> bool" where
  "has_bit flags f \<longleftrightarrow> flags AND f \<noteq> 0"

definition add64 :: "nat \<Rightarrow> nat \<Rightarrow> nat" where
  "add64 a b = (a + b) mod 2 ^ 64"

definition in_segment :: "bool \<Rightarrow> segment \<Rightarrow> esection \<Rightarrow> bool" where
  "in_segment need g s = (if has_bit (get_flags need s) SHF_ALLOC
     then seg_vaddr need g \<le> get_address need s \<and>
       add64 (get_address need s) (get_size need s) \<le> add64 (seg_vaddr need g) (seg_memsz need g)
     else seg_offset need g \<le> get_offset need s \<and>
       add64 (get_offset need s) (get_size need s) \<le> add64 (seg_offset need g) (seg_filesz need g))"

definition load_segment :: "(nat \<Rightarrow> bool) \<Rightarrow> nat \<Rightarrow> nat \<Rightarrow> nat \<Rightarrow> elfio \<times> ifstream \<Rightarrow> (elfio \<times> ifstream) res" where
  "load_segment new_ok offset entry_size i = (\<lambda>(e, f). rbind (get_class e) (\<lambda>b. case class_of_byte b of
     None \<Rightarrow> Inr (e, f)
   | Some c \<Rightarrow> rbind (entry_pos offset i entry_size) (\<lambda>p.
       rbind (segment_load (f_need e) new_ok p (segment_make c) f) (\<lambda>(g, f).
       let g = fold (\<lambda>s g. if in_segment (f_need e) g s
               then add_section_index (f_need e) (s_index s) (get_addr_align (f_need e) s) g else g)
             (take (length (f_sections e) mod 2 ^ 16) (f_sections e)) (g\<lparr>g_index := i\<rparr>)
       in Inr (e\<lparr>f_segments := f_segments e @ [g]\<rparr>, f)))))"

definition load_segments :: "(nat \<Rightarrow> bool) \<Rightarrow> elfio \<times> ifstream \<Rightarrow> (elfio \<times> ifstream) res" where
  "load_segments new_ok = (\<lambda>(e, f). rbind (the_header e) (\<lambda>(c, h).
     for_each (load_segment new_ok (segments_offset (f_need e) c h) (segment_entry_size (f_need e) h))
       [0..<segments_num (f_need e) h] (e, f)))"

definition elf_load_stream :: "(nat \<Rightarrow> bool) \<Rightarrow> ifstream \<Rightarrow> elfio \<Rightarrow> (bool \<times> elfio) res" where
  "elf_load_stream new_ok f e =
    (let e = elf_clean e; f = seekg 0 f; (bs, f) = read_n EI_NIDENT f; e_id = map of_char bs in
     if length bs \<noteq> EI_NIDENT \<or> take 4 e_id \<noteq> ELFMAG then Inr (False, e)
     else if class_of_byte (e_id ! EI_CLASS) = None then Inr (False, e)
     else let e = e\<lparr>f_need := conv_setup (e_id ! EI_DATA)\<rparr>;
              e = e\<lparr>f_header := create_header (f_need e) (e_id ! EI_CLASS) (e_id ! EI_DATA)\<rparr> in
       rbind (the_header e) (\<lambda>(c, h).
       let (ok, h, f) = header_load c h f; e = e\<lparr>f_header := Some (c, h)\<rparr> in
       if \<not> ok then Inr (False, e)
       else rbind (load_sections new_ok (e, f)) (\<lambda>(e, f). rbind (load_segments new_ok (e, f)) (\<lambda>(e, f). Inr (True, e)))))"

text \<open>\<open>fs\<close> is the file system: the bytes of a file that can be opened.\<close>

definition elf_load :: "(string \<Rightarrow> string option) \<Rightarrow> (nat \<Rightarrow> bool) \<Rightarrow> string \<Rightarrow> elfio \<Rightarrow> (bool \<times> elfio) res" where
  "elf_load fs new_ok file_name e = (case fs file_name of None \<Rightarrow> Inr (False, e)
     | Some bs \<Rightarrow> elf_load_stream new_ok \<lparr>is_bytes = bs, is_pos = 0, is_fail = False\<rparr> e)"

end
