(* ===== verification/ElfSave.thy ===== *)
theory ElfSave
  imports ElfFile "HOL-Library.Multiset"
begin

text \<open>
  \<open>elfio::save\<close>: the order in which the segments are laid out, the positions of sections and segments in
  the file, and the writing of it. Positions are 64-bit numbers that wrap.
\<close>

section \<open>Order of the segments\<close>

text \<open>
  \<open>std::includes\<close>: both ranges must be sorted, otherwise its behaviour is undefined; on sorted ranges
  it is the scan of the two of them.
\<close>

fun scan_includes :: "nat list \<Rightarrow> nat list \<Rightarrow> bool" where
  "scan_includes xs [] = True"
| "scan_includes [] (y # ys) = False"
| "scan_includes (x # xs) (y # ys) =
     (if y < x then False else if x < y then scan_includes xs (y # ys) else scan_includes xs ys)"

definition std_includes :: "nat list \<Rightarrow> nat list \<Rightarrow> bool res" where
  "std_includes xs ys = (if sorted xs \<and> sorted ys then Inr (scan_includes xs ys)
     else Inl (Undefined ''std::includes on a range that is not sorted''))"

definition is_subsequence_of :: "segment \<Rightarrow> segment \<Rightarrow> bool res" where
  "is_subsequence_of seg1 seg2 = (let sections1 = g_sections seg1; sections2 = g_sections seg2 in
     if length sections1 < length sections2 then std_includes sections2 sections1 else Inr False)"

text \<open>The segments at offset 0 move to the front, unless they stand there.\<close>

definition swap_elems :: "'a list \<Rightarrow> nat \<Rightarrow> nat \<Rightarrow> 'a list" where
  "swap_elems xs i j = xs[i := xs ! j, j := xs ! i]"

definition zero_first :: "bool \<Rightarrow> segment list \<Rightarrow> nat list \<Rightarrow> nat list" where
  "zero_first need segs worklist = fst (fold (\<lambda>i (w, nextSlot).
     if i \<noteq> nextSlot \<and> g_off_set (segs ! (w ! i)) \<and> seg_offset need (segs ! (w ! i)) = 0
     then (swap_elems w i nextSlot, Suc nextSlot) else (w, nextSlot)) [0..<length worklist] (worklist, 0))"

text \<open>
  A segment that is a part of another one still in the list goes to the back of it, else to the result.
\<close>

fun part_of_any :: "(nat \<Rightarrow> nat \<Rightarrow> bool res) \<Rightarrow> nat \<Rightarrow> nat list \<Rightarrow> bool res" where
  "part_of_any part seg [] = Inr False"
| "part_of_any part seg (t # worklist) = rbind (part seg t) (\<lambda>b. if b then Inr True else part_of_any part seg worklist)"

partial_function (option) order_loop :: "(nat \<Rightarrow> nat \<Rightarrow> bool res) \<Rightarrow> nat list \<Rightarrow> nat list \<Rightarrow> nat list res option" where
  "order_loop part worklist result = (case worklist of [] \<Rightarrow> Some (Inr result)
     | seg # worklist \<Rightarrow> (case part_of_any part seg worklist of
         Inl err \<Rightarrow> Some (Inl err)
       | Inr found \<Rightarrow> if found then order_loop part (worklist @ [seg]) result
           else order_loop part worklist (result @ [seg])))"

definition get_ordered_segments :: "elfio \<Rightarrow> nat list res option" where
  "get_ordered_segments e = (let segs = f_segments e in
     order_loop (\<lambda>a b. is_subsequence_of (segs ! a) (segs ! b)) (zero_first (f_need e) segs [0..<length segs]) [])"

section \<open>Layout\<close>

definition SHF_TLS :: nat where "SHF_TLS = 0x400"

definition is_section_without_segment :: "elfio \<Rightarrow> nat \<Rightarrow> bool" where
  "is_section_without_segment e section_index \<longleftrightarrow>
     (\<forall>g \<in> set (take (length (f_segments e) mod 2 ^ 16) (f_segments e)).
        \<forall>k \<in> set [0..<get_sections_num g]. get_section_index_at g k \<noteq> section_index)"

text \<open>Room in the file: only sections with data take any.\<close>

definition in_file :: "bool \<Rightarrow> esection \<Rightarrow> bool" where
  "in_file need s \<longleftrightarrow> get_type need s \<noteq> SHT_NOBITS \<and> get_type need s \<noteq> SHT_NULL"

definition layout_alone :: "nat \<Rightarrow> elfio \<Rightarrow> elfio res" where
  "layout_alone i e = (if is_section_without_segment e i then rbind (deref_section e i) (\<lambda>sec.
       let need = f_need e; section_align = get_addr_align need sec;
           pos = (if 1 < section_align \<and> f_pos e mod section_align \<noteq> 0
             then add64 (f_pos e) (section_align - f_pos e mod section_align) else f_pos e);
           sec = (if s_index sec \<noteq> 0 then set_offset need pos sec else sec);
           e = (set_section i sec e)\<lparr>f_pos := pos\<rparr>
       in Inr (if in_file need sec then e\<lparr>f_pos := add64 pos (get_size need sec)\<rparr> else e))
     else Inr e)"

definition layout_sections_without_segments :: "elfio \<Rightarrow> elfio res" where
  "layout_sections_without_segments e = for_each layout_alone [0..<length (f_sections e)] e"

record seg_layout =
  l_file :: elfio
  l_done :: "bool list"
  l_start :: nat
  l_memory :: nat
  l_filesize :: nat

definition generated :: "seg_layout \<Rightarrow> nat \<Rightarrow> bool res" where
  "generated l i = (if i < length (l_done l) then Inr (l_done l ! i) else Inl (Undefined ''section_generated''))"

definition mod_by :: "nat \<Rightarrow> nat \<Rightarrow> nat res" where
  "mod_by a b = (if b = 0 then Inl (Undefined ''division by zero'') else Inr (a mod b))"

text \<open>The start of a segment: the four cases before its sections are visited.\<close>

definition seg_start :: "nat \<Rightarrow> seg_layout \<Rightarrow> seg_layout res" where
  "seg_start si l = (let e = l_file l; need = f_need e; g = f_segments e ! si;
       l = l\<lparr>l_start := f_pos e, l_memory := 0, l_filesize := 0\<rparr>; n = get_sections_num g; first = get_section_index_at g 0 in
     rbind (the_header e) (\<lambda>(c, h).
     if seg_type need g = PT_PHDR \<and> n = 0 then
       rbind (int_mul (segment_entry_size need h) (segments_num need h)) (\<lambda>k.
       Inr (l\<lparr>l_start := segments_offset need c h, l_memory := k, l_filesize := k\<rparr>))
     else rbind (if 1 < n then rbind (deref_section e first) (\<lambda>s. Inr (get_type need s = SHT_NULL)) else Inr False) (\<lambda>null.
       if null then Inr (l\<lparr>l_start := 0, l_memory := f_pos e, l_filesize := f_pos e\<rparr>)
       else if n = 0 then Inr l
       else rbind (generated l first) (\<lambda>d. if \<not> d then
           rbind (mod_by (f_pos e) (seg_align need g)) (\<lambda>cur_page_alignment.
           rbind (mod_by (seg_vaddr need g) (seg_align need g)) (\<lambda>req_page_alignment.
           let err = size_sub req_page_alignment cur_page_alignment;
               pos = add64 (f_pos e) (add64 (seg_align need g) err mod seg_align need g)
           in Inr (l\<lparr>l_file := e\<lparr>f_pos := pos\<rparr>, l_start := pos\<rparr>)))
         else rbind (deref_section e first) (\<lambda>s. Inr (l\<lparr>l_start := get_offset need s\<rparr>))))))"

text \<open>The distance of a section from the current position.\<close>

definition sec_align :: "segment \<Rightarrow> esection \<Rightarrow> bool \<Rightarrow> seg_layout \<Rightarrow> nat" where
  "sec_align g sec done l = (let e = l_file l; need = f_need e in
     if \<not> done \<and> s_addr_set sec \<and> in_file need sec then
       size_sub (size_sub (get_address need sec) (seg_vaddr need g)) (size_sub (f_pos e) (l_start l))
     else if \<not> done then
       let align = (if get_addr_align need sec = 0 then 1 else get_addr_align need sec); err = f_pos e mod align
       in (align - err) mod align
     else size_sub (size_sub (get_offset need sec) (l_start l)) (l_filesize l))"

definition seg_section :: "nat \<Rightarrow> nat \<Rightarrow> seg_layout \<Rightarrow> seg_layout res" where
  "seg_section si j l = (let e = l_file l; need = f_need e; g = f_segments e ! si; index = get_section_index_at g j in
     rbind (deref_section e index) (\<lambda>sec. rbind (generated l index) (\<lambda>d.
     if get_type need sec = SHT_NULL then Inr (l\<lparr>l_done := (l_done l)[index := True]\<rparr>)
     else let a = sec_align g sec d l; room = add64 (get_size need sec) a;
         l = (if has_bit (get_flags need sec) SHF_ALLOC \<and> \<not> (has_bit (get_flags need sec) SHF_TLS \<and>
               seg_type need g \<noteq> PT_TLS \<and> get_type need sec = SHT_NOBITS)
             then l\<lparr>l_memory := add64 (l_memory l) room\<rparr> else l);
         l = (if in_file need sec then l\<lparr>l_filesize := add64 (l_filesize l) room\<rparr> else l)
       in if d then Inr l
       else let pos = add64 (f_pos e) a;
           sec = (if \<not> s_addr_set sec then set_address need (size_sub (add64 (seg_vaddr need g) pos) (l_start l)) sec else sec);
           sec = (if s_index sec \<noteq> 0 then set_offset need pos sec else sec);
           pos = (if in_file need sec then add64 pos (get_size need sec) else pos)
         in Inr (l\<lparr>l_file := (set_section index sec e)\<lparr>f_pos := pos\<rparr>, l_done := (l_done l)[index := True]\<rparr>))))"

definition layout_segment :: "nat \<Rightarrow> seg_layout \<Rightarrow> seg_layout res" where
  "layout_segment si l = rbind (seg_start si l) (\<lambda>l.
     rbind (for_each (seg_section si) [0..<get_sections_num (f_segments (l_file l) ! si)] l) (\<lambda>l.
     let e = l_file l; need = f_need e; g = f_segments e ! si;
         g = seg_set_offset need (l_start l) (seg_set_memsz need (l_memory l) (seg_set_filesz need (l_filesize l) g))
     in Inr (l\<lparr>l_file := e\<lparr>f_segments := (f_segments e)[si := g]\<rparr>\<rparr>)))"

definition layout_segments_and_their_sections :: "elfio \<Rightarrow> elfio res option" where
  "layout_segments_and_their_sections e = (case get_ordered_segments e of None \<Rightarrow> None | Some r \<Rightarrow>
     Some (rbind r (\<lambda>worklist.
       rbind (for_each layout_segment worklist \<lparr>l_file = e, l_done = replicate (length (f_sections e) mod 2 ^ 16) False,
         l_start = 0, l_memory = 0, l_filesize = 0\<rparr>) (\<lambda>l. Inr (l_file l)))))"

definition layout_section_table :: "elfio \<Rightarrow> elfio res" where
  "layout_section_table e = rbind (the_header e) (\<lambda>(c, h).
     let alignmentError = f_pos e mod 4; pos = add64 (f_pos e) ((4 - alignmentError) mod 4) in
     Inr (set_header (set_sections_offset (f_need e) c pos) (e\<lparr>f_pos := pos\<rparr>)))"

section \<open>Writing\<close>

definition save_section :: "nat \<Rightarrow> elfio \<times> ofstream \<Rightarrow> (elfio \<times> ofstream) res" where
  "save_section i = (\<lambda>(e, f). rbind (the_header e) (\<lambda>(c, h). rbind (deref_section e i) (\<lambda>sec.
     rbind (entry_pos (sections_offset (f_need e) c h) (s_index sec) (section_entry_size (f_need e) h)) (\<lambda>p.
     rbind (section_save (f_need e) p (get_offset (f_need e) sec) sec f) (\<lambda>(sec, f). Inr (set_section i sec e, f))))))"

definition save_segment :: "nat \<Rightarrow> elfio \<times> ofstream \<Rightarrow> (elfio \<times> ofstream) res" where
  "save_segment i = (\<lambda>(e, f). rbind (the_header e) (\<lambda>(c, h). let g = f_segments e ! i in
     rbind (int_mul (segment_entry_size (f_need e) h) (g_index g)) (\<lambda>k.
     let (g, f) = segment_save (f_need e) (add64 (segments_offset (f_need e) c h) k) (seg_offset (f_need e) g) g f
     in Inr (e\<lparr>f_segments := (f_segments e)[i := g]\<rparr>, f))))"

text \<open>The header fields that \<open>save\<close> fixes before the layout.\<close>

definition save_prepare :: "elfio \<Rightarrow> elfio res" where
  "save_prepare e = rbind (the_header e) (\<lambda>(c, h). let need = f_need e; n = length (f_segments e) mod 2 ^ 16;
       h = set_segments_num need n h;
         h = set_segments_offset need c (if n \<noteq> 0 then header_size need h else 0) h;
         h = set_sections_offset need c 0 (set_sections_num need (length (f_sections e)) h) in
     rbind (int_mul (segment_entry_size need h) (segments_num need h)) (\<lambda>k.
     if header_size need h + k < 2 ^ 31 then Inr (e\<lparr>f_header := Some (c, h), f_pos := header_size need h + k\<rparr>)
     else Inl (Undefined ''integer overflow'')))"

definition save_write :: "elfio \<Rightarrow> (bool \<times> elfio \<times> string) res" where
  "save_write e = rbind (the_header e) (\<lambda>(c, h). let (good, f) = header_save c h \<lparr>os_bytes = [], os_fail = False\<rparr> in
     if \<not> good then Inr (False, e, os_bytes f)
     else rbind (for_each save_section [0..<length (f_sections e)] (e, f)) (\<lambda>(e, f).
       rbind (for_each save_segment [0..<length (f_segments e)] (e, f)) (\<lambda>(e, f). Inr (True, e, os_bytes f))))"

text \<open>\<open>save\<close> to a file that could be opened: the bytes of the file. It does not return when the ordering of
  the segments does not.\<close>

definition elf_save :: "elfio \<Rightarrow> (bool \<times> elfio \<times> string) res option" where
  "elf_save e = (case save_prepare e of Inl err \<Rightarrow> Some (Inl err) | Inr e \<Rightarrow>
     (case layout_segments_and_their_sections e of None \<Rightarrow> None | Some r \<Rightarrow>
       Some (rbind r (\<lambda>e. rbind (layout_sections_without_segments e) (\<lambda>e. rbind (layout_section_table e) save_write)))))"

section \<open>The ordering returns\<close>

text \<open>
  Among the segments left there is always one that is no part of another, and it is reached before
  the list has gone round once; so the loop ends. A longest segment is such a one. \<open>test\<close> is the test
  of the loop, which decides \<open>part\<close> on the segments of \<open>dom_of\<close>.
\<close>

locale containment =
  fixes test :: "nat \<Rightarrow> nat \<Rightarrow> bool res" and part :: "nat \<Rightarrow> nat \<Rightarrow> bool" and dom_of :: "nat set" and size_of :: "nat \<Rightarrow> nat"
  assumes part_size: "part a b \<Longrightarrow> size_of a < size_of b"
    and test_part: "a \<in> dom_of \<Longrightarrow> b \<in> dom_of \<Longrightarrow> test a b = Inr (part a b)"
begin

lemma part_of_any_eq: "s \<in> dom_of \<Longrightarrow> set ts \<subseteq> dom_of \<Longrightarrow> part_of_any test s ts = Inr (\<exists>t \<in> set ts. part s t)"
  by (induction ts) (auto simp: test_part)

definition steps_left :: "nat list \<Rightarrow> nat" where
  "steps_left xs = (LEAST k. k < length xs \<and> (\<forall>t \<in> set xs. \<not> part (xs ! k) t))"

lemma maximal_exists: "xs \<noteq> [] \<Longrightarrow> \<exists>k. k < length xs \<and> (\<forall>t \<in> set xs. \<not> part (xs ! k) t)"
proof -
  assume "xs \<noteq> []"
  then have "Max (size_of ` set xs) \<in> size_of ` set xs" by (intro Max_in) auto
  then obtain m where m: "m \<in> set xs" "size_of m = Max (size_of ` set xs)" by auto
  then obtain k where k: "k < length xs" "xs ! k = m" by (auto simp: in_set_conv_nth)
  have "\<not> part m t" if "t \<in> set xs" for t
  proof
    assume "part m t"
    then have "size_of m < size_of t" by (rule part_size)
    moreover have "size_of t \<le> size_of m" unfolding m(2) using that by (intro Max_ge) auto
    ultimately show False by simp
  qed
  with k show ?thesis by blast
qed

lemma order_loop_returns:
  assumes "set ws \<subseteq> dom_of"
  shows "\<exists>r. order_loop test ws res = Some (Inr (res @ r)) \<and> mset r = mset ws \<and>
    (\<forall>i j. i < j \<and> j < length r \<longrightarrow> \<not> part (r ! i) (r ! j))"
  using assms
proof (induction "(length ws, steps_left ws)" arbitrary: ws res rule: wf_induct_rule [OF wf_lex_prod [OF wf_less_than wf_less_than]])
  case 1
  note IH = "1.hyps"
  show ?case
  proof (cases ws)
    case Nil
    then show ?thesis by (simp add: order_loop.simps)
  next
    case (Cons s ws')
    have D: "set ws' \<subseteq> dom_of" "set (ws' @ [s]) \<subseteq> dom_of" "part_of_any test s ws' = Inr (\<exists>t \<in> set ws'. part s t)"
      using "1.prems" Cons part_of_any_eq [of s ws'] by auto
    show ?thesis
    proof (cases "\<exists>t \<in> set ws'. part s t")
      case False
      obtain r where r: "order_loop test ws' (res @ [s]) = Some (Inr ((res @ [s]) @ r))" "mset r = mset ws'"
        "\<forall>i j. i < j \<and> j < length r \<longrightarrow> \<not> part (r ! i) (r ! j)"
        using IH [OF _ D(1), of "res @ [s]"] by (auto simp: Cons)
      have set_r: "set r = set ws'" using r(2) by (metis set_mset_mset)
      have "order_loop test ws res = Some (Inr (res @ s # r))"
        using False r(1) D(3) by (simp add: Cons order_loop.simps [of test "s # ws'"])
      moreover have "\<not> part ((s # r) ! i) ((s # r) ! j)" if "i < j" "j < length (s # r)" for i j
        using that False r(3) by (cases i; cases j) (auto simp flip: set_r)
      ultimately show ?thesis using r(2) by (intro exI [of _ "s # r"]) (auto simp: Cons)
    next
      case True
      let ?ws = "ws' @ [s]"
      have "ws \<noteq> []" by (simp add: Cons)
      then have k: "steps_left ws < length ws \<and> (\<forall>t \<in> set ws. \<not> part (ws ! steps_left ws) t)"
        unfolding steps_left_def by (rule LeastI_ex [OF maximal_exists])
      have "steps_left ws \<noteq> 0"
      proof
        assume "steps_left ws = 0"
        with k have "\<forall>t \<in> set ws. \<not> part (ws ! 0) t" by auto
        with True show False by (auto simp: Cons)
      qed
      then obtain k' where k': "steps_left ws = Suc k'" by (cases "steps_left ws") auto
      with k have "k' < length ?ws \<and> (\<forall>t \<in> set ?ws. \<not> part (?ws ! k') t)" by (auto simp: Cons nth_append)
      then have "steps_left ?ws \<le> k'" unfolding steps_left_def by (rule Least_le)
      then have "((length ?ws, steps_left ?ws), length ws, steps_left ws) \<in> less_than <*lex*> less_than"
        using k' by (simp add: Cons)
      from IH [OF this D(2), of res] True D(3) show ?thesis
        by (simp add: Cons order_loop.simps [of test "s # ws'"])
    qed
  qed
qed

end

text \<open>The segments of a file: a part has fewer sections.\<close>

definition seg_part :: "segment list \<Rightarrow> nat \<Rightarrow> nat \<Rightarrow> bool" where
  "seg_part segs a b \<longleftrightarrow> mset (g_sections (segs ! a)) \<subset># mset (g_sections (segs ! b))"

text \<open>On sorted ranges the scan decides inclusion.\<close>

lemma scan_includes_mset: "sorted xs \<Longrightarrow> sorted ys \<Longrightarrow> scan_includes xs ys \<longleftrightarrow> mset ys \<subseteq># mset xs"
proof (induction xs ys rule: scan_includes.induct)
  case (3 x xs y ys)
  have below: "\<not> mset (y # ys) \<subseteq># mset (x # xs)" if "y < x"
  proof -
    have "y \<notin> set (x # xs)" using that "3.prems"(1) by auto
    then show ?thesis using mset_subset_eqD [of "mset (y # ys)" "mset (x # xs)" y] by auto
  qed
  have above: "mset (y # ys) \<subseteq># mset (x # xs) \<longleftrightarrow> mset (y # ys) \<subseteq># mset xs" if "x < y"
  proof -
    have "x \<notin># mset (y # ys)" using that "3.prems"(2) by auto
    then have "mset (y # ys) \<subseteq># add_mset x (mset xs) \<longleftrightarrow> mset (y # ys) \<subseteq># mset xs"
      by (metis diff_single_trivial subset_eq_diff_conv add_mset_add_single)
    then show ?thesis by simp
  qed
  consider "y < x" | "x < y" | "x = y" by linarith
  then show ?case
    by cases (use 3 below above in auto)
qed auto

lemma is_subsequence_of_sorted:
  "sorted (g_sections g) \<Longrightarrow> sorted (g_sections h) \<Longrightarrow>
    is_subsequence_of g h = Inr (mset (g_sections g) \<subset># mset (g_sections h))"
  using mset_subset_size [of "mset (g_sections g)" "mset (g_sections h)"]
  by (auto simp: is_subsequence_of_def std_includes_def scan_includes_mset Let_def subset_mset.le_less dest: mset_eq_length)

text \<open>The laws hold on the segments whose section lists are sorted.\<close>

interpretation seg_order: containment "\<lambda>a b. is_subsequence_of (segs ! a) (segs ! b)" "seg_part segs"
    "{i. i < length segs \<and> sorted (g_sections (segs ! i))}" "\<lambda>i. length (g_sections (segs ! i))" for segs
  using mset_subset_size by unfold_locales (fastforce simp: seg_part_def is_subsequence_of_sorted)+

lemma mset_swap_elems: "i < length xs \<Longrightarrow> j < length xs \<Longrightarrow> mset (swap_elems xs i j) = mset xs"
  by (simp add: swap_elems_def mset_swap)

lemma mset_zero_first: "mset (zero_first need segs w) = mset w"
proof -
  let ?f = "\<lambda>i (w, nextSlot). if i \<noteq> nextSlot \<and> g_off_set (segs ! (w ! i)) \<and> seg_offset need (segs ! (w ! i)) = 0
     then (swap_elems w i nextSlot, Suc nextSlot) else (w, nextSlot)"
  have "mset (fst (fold ?f [0..<n] (w, 0))) = mset w \<and> snd (fold ?f [0..<n] (w, 0)) \<le> n" if "n \<le> length w" for n
    using that
  proof (induction n)
    case (Suc n)
    obtain v k where v: "fold ?f [0..<n] (w, 0) = (v, k)" by fastforce
    with Suc have m: "mset v = mset w" "k \<le> n" by auto
    then have "length v = length w" by (metis size_mset)
    with m Suc.prems v show ?case by (auto simp: mset_swap_elems)
  qed simp
  then show ?thesis by (simp add: zero_first_def)
qed

text \<open>
  C38: the ordering of segments returns for every file whose segments list their sections in order, as
  \<open>std::includes\<close> requires; the result holds each segment once, and no segment stands before another
  one that has all its sections and more.
\<close>

theorem segments_ordered:
  assumes "\<forall>g \<in> set (f_segments e). sorted (g_sections g)"
  shows "\<exists>r. get_ordered_segments e = Some (Inr r) \<and> mset r = mset [0..<length (f_segments e)] \<and>
     (\<forall>i j. i < j \<and> j < length r \<longrightarrow>
       \<not> mset (g_sections (f_segments e ! (r ! i))) \<subset># mset (g_sections (f_segments e ! (r ! j))))"
proof -
  let ?segs = "f_segments e" and ?w = "zero_first (f_need e) (f_segments e) [0..<length (f_segments e)]"
  have m: "mset ?w = mset [0..<length ?segs]" by (rule mset_zero_first)
  then have "set ?w = {0..<length ?segs}" by (metis mset_eq_setD set_upt)
  then have "set ?w \<subseteq> {i. i < length ?segs \<and> sorted (g_sections (?segs ! i))}" using assms by auto
  from seg_order.order_loop_returns [OF this, of "[]"] m show ?thesis
    by (auto simp: get_ordered_segments_def Let_def seg_part_def)
qed

text \<open>The segment of one section that lies in the segment of three comes behind it.\<close>

definition segs_ex :: elfio where
  "segs_ex = \<lparr>f_header = None, f_sections = [],
     f_segments = [(segment_make ELFCLASS64)\<lparr>g_sections := [2]\<rparr>, (segment_make ELFCLASS64)\<lparr>g_sections := [1, 2, 3]\<rparr>],
     f_need = False, f_pos = 0\<rparr>"

theorem segments_ordered_witness: "get_ordered_segments segs_ex = Some (Inr [1, 0])"
proof -
  have g: "\<forall>g \<in> set (f_segments segs_ex). sorted (g_sections g)" "length (f_segments segs_ex) = 2"
    "mset (g_sections (f_segments segs_ex ! 0)) \<subset># mset (g_sections (f_segments segs_ex ! 1))"
    by (auto simp: segs_ex_def subset_mset.less_le)
  from segments_ordered [OF g(1)] g(2) obtain r where r: "get_ordered_segments segs_ex = Some (Inr r)" "mset r = mset [0, 1]"
    "\<forall>i j. i < j \<and> j < length r \<longrightarrow>
       \<not> mset (g_sections (f_segments segs_ex ! (r ! i))) \<subset># mset (g_sections (f_segments segs_ex ! (r ! j)))"
    by (auto simp: numeral_2_eq_2)
  from r(2) have "length r = 2" by (metis length_Cons list.size(3) numeral_2_eq_2 size_mset)
  then obtain a b where ab: "r = [a, b]" by (auto simp: numeral_2_eq_2 length_Suc_conv)
  with r(2) have "a = 0 \<and> b = 1 \<or> a = 1 \<and> b = 0" by (auto simp: add_eq_conv_ex)
  with g(3) r(3) [rule_format, of 0 1] ab r(1) show ?thesis by auto
qed

text \<open>Sections in another order than that of their numbers break the precondition of \<open>std::includes\<close>.\<close>

lemma segments_unsorted:
  "get_ordered_segments (segs_ex\<lparr>f_segments := [(segment_make ELFCLASS64)\<lparr>g_sections := [3, 1]\<rparr>,
      (segment_make ELFCLASS64)\<lparr>g_sections := [1, 2, 3]\<rparr>]\<rparr>) =
    Some (Inl (Undefined ''std::includes on a range that is not sorted''))"
  by (simp add: get_ordered_segments_def segs_ex_def zero_first_def order_loop.simps is_subsequence_of_def std_includes_def
      segment_make_def Let_def)

end
