(* ===== verification/ElfStrings.thy ===== *)
theory ElfStrings
  imports ElfSection
begin

text \<open>
  What the operations of a section do, for a section whose data are the bytes \<open>bs\<close>: its header can be
  read back field by field, appending extends the bytes, and a string table finds every string
  that was added to it.
\<close>

named_theorems elf_access

section \<open>Access\<close>

definition shdr_ok :: "elf_class \<Rightarrow> shdr \<Rightarrow> bool" where
  "shdr_ok c h \<longleftrightarrow> fits_widths (shdr_widths c) (shdr_fields h)"

lemma conv_store [simp]: "is_width w \<Longrightarrow> conv need w (store need w v) = v mod 256 ^ w"
  by (simp add: store_def conv_conv)

lemma store_less [simp]: "is_width w \<Longrightarrow> store need w v < 256 ^ w"
  by (simp add: store_def conv_less)

lemmas section_getters = get_type_def get_flags_def get_size_def get_link_def get_info_def get_addr_align_def
  get_entry_size_def get_name_string_offset_def get_address_def get_offset_def

lemmas section_setters = set_type_def set_flags_def set_size_def set_link_def set_info_def set_addr_align_def
  set_entry_size_def set_name_string_offset_def set_address_def set_offset_def

text \<open>A getter returns what its setter was given, as far as the field is wide enough.\<close>

lemma get_set [elf_access]:
  "get_type need (set_type need v s) = v mod 256 ^ 4"
  "get_flags need (set_flags need v s) = v mod 256 ^ wd (s_class s)"
  "get_size need (set_size need v s) = v mod 256 ^ wd (s_class s)"
  "get_link need (set_link need v s) = v mod 256 ^ 4"
  "get_info need (set_info need v s) = v mod 256 ^ 4"
  "get_addr_align need (set_addr_align need v s) = v mod 256 ^ wd (s_class s)"
  "get_entry_size need (set_entry_size need v s) = v mod 256 ^ wd (s_class s)"
  "get_name_string_offset need (set_name_string_offset need v s) = v mod 256 ^ 4"
  "get_address need (set_address need v s) = v mod 256 ^ wd (s_class s)"
  "get_offset need (set_offset need v s) = v mod 256 ^ wd (s_class s)"
  by (simp_all add: section_getters section_setters)

lemma shdr_ok_iff:
  "shdr_ok c h \<longleftrightarrow> sh_name h < 4294967296 \<and> sh_type h < 4294967296 \<and> sh_flags h < 256 ^ wd c \<and> sh_addr h < 256 ^ wd c \<and>
     sh_offset h < 256 ^ wd c \<and> sh_size h < 256 ^ wd c \<and> sh_link h < 4294967296 \<and> sh_info h < 4294967296 \<and>
     sh_addralign h < 256 ^ wd c \<and> sh_entsize h < 256 ^ wd c"
  by (simp add: shdr_ok_def fits_widths_def shdr_widths_def shdr_fields_def)

lemma store_4 [simp]: "store need 4 v < 4294967296"
  using store_less [of 4 need v] by simp

text \<open>The setters keep the header well formed.\<close>

lemma shdr_ok_set [elf_access]:
  assumes "shdr_ok (s_class s) (s_hdr s)"
  shows "shdr_ok (s_class s) (s_hdr (set_size need v s))" "shdr_ok (s_class s) (s_hdr (set_offset need v s))"
    "shdr_ok (s_class s) (s_hdr (set_type need v s))" "shdr_ok (s_class s) (s_hdr (set_address need v s))"
    "shdr_ok (s_class s) (s_hdr (set_name_string_offset need v s))" "shdr_ok (s_class s) (s_hdr (set_addr_align need v s))"
    "shdr_ok (s_class s) (s_hdr (set_link need v s))" "shdr_ok (s_class s) (s_hdr (set_entry_size need v s))"
    "shdr_ok (s_class s) (s_hdr (set_flags need v s))" "shdr_ok (s_class s) (s_hdr (set_info need v s))"
  using assms by (simp_all add: shdr_ok_iff section_setters)

lemma shdr_ok_zero: "shdr_ok c zero_shdr"
  by (simp add: shdr_ok_iff zero_shdr_def shdr_of_def)

section \<open>A section that holds bytes\<close>

text \<open>
  The bound on \<open>data_size\<close> is what the doubling of \<open>append_data\<close> keeps: the buffer is at most four
  times as long as the data.
\<close>

definition holds :: "bool \<Rightarrow> esection \<Rightarrow> string \<Rightarrow> bool" where
  "holds need s bs \<longleftrightarrow> get_type need s \<noteq> SHT_NOBITS \<and> shdr_ok (s_class s) (s_hdr s) \<and> get_size need s = length bs \<and>
     length bs \<le> s_dsize s \<and> s_dsize s \<le> 4 * length bs \<and>
     (case s_data s of None \<Rightarrow> bs = [] | Some cs \<Rightarrow> s_dsize s \<le> length cs \<and> take (length bs) cs = map Some bs)"

lemma holds_make: "holds need (set_type need t (section_make c)) []" if "t \<noteq> SHT_NOBITS" "t < 256 ^ 4"
proof -
  have "get_size need (set_type need t (section_make c)) = 0"
    by (cases c) (simp_all add: section_getters section_setters section_make_def zero_shdr_def shdr_of_def conv_def
        convert32_def convert64_def)
  moreover have "shdr_ok c (s_hdr (set_type need t (section_make c)))"
    using shdr_ok_set(3) [of "section_make c" need t] by (simp add: section_make_def shdr_ok_zero set_type_def)
  ultimately show ?thesis using that
    by (simp add: holds_def elf_access) (simp add: section_make_def set_type_def)
qed

lemma holds_set:
  assumes "holds need s bs"
  shows "holds need (set_link need v s) bs" "holds need (set_entry_size need v s) bs" "holds need (set_info need v s) bs"
    "holds need (set_flags need v s) bs" "holds need (set_addr_align need v s) bs" "holds need (set_offset need v s) bs"
    "holds need (set_address need v s) bs" "holds need (set_name_string_offset need v s) bs"
    "holds need (s\<lparr>s_name := name\<rparr>) bs" "holds need (s\<lparr>s_index := i\<rparr>) bs"
  using assms by (cases "s_data s"; simp add: holds_def section_setters section_getters shdr_ok_iff)+

lemma size_fits: "length bs \<le> 2 ^ 28 \<Longrightarrow> length bs mod 256 ^ wd c = length bs"
  by (cases c) simp_all

text \<open>\<open>set_data\<close> replaces whatever the section held.\<close>

lemma holds_set_data:
  assumes "get_type need s \<noteq> SHT_NOBITS" "shdr_ok (s_class s) (s_hdr s)" "new_ok (length bs)" "length bs \<le> 2 ^ 28"
  shows "holds need (set_data need new_ok (Some bs) (length bs) s) bs"
proof -
  let ?u = "s\<lparr>s_data := Some (map Some bs), s_dsize := length bs\<rparr>"
  have eq: "set_data need new_ok (Some bs) (length bs) s = set_size need (length bs) ?u"
    using assms by (simp add: set_data_def)
  have "get_size need (set_size need (length bs) ?u) = length bs"
    using size_fits [OF assms(4), of "s_class s"] by (simp add: elf_access)
  moreover have "shdr_ok (s_class s) (s_hdr (set_size need (length bs) ?u))"
    using shdr_ok_set(1) [of ?u] assms(2) by simp
  ultimately show ?thesis using assms(1) unfolding eq
    by (simp add: holds_def) (simp add: section_getters section_setters)
qed

text \<open>Everything but the size of a section.\<close>

definition same_rest :: "esection \<Rightarrow> esection \<Rightarrow> bool" where
  "same_rest s t \<longleftrightarrow> s_class t = s_class s \<and> s_index t = s_index s \<and> s_name t = s_name s \<and> s_addr_set t = s_addr_set s \<and>
     (\<exists>z. s_hdr t = (s_hdr s)\<lparr>sh_size := z\<rparr>)"

lemma same_rest_refl [simp]: "same_rest s s"
  by (auto simp: same_rest_def intro: exI [of _ "sh_size (s_hdr s)"])

lemma same_rest_trans: "same_rest s t \<Longrightarrow> same_rest t u \<Longrightarrow> same_rest s u"
  by (auto simp: same_rest_def)

lemma same_rest_get:
  assumes "same_rest s t"
  shows "s_class t = s_class s" "s_index t = s_index s" "s_name t = s_name s" "get_type need t = get_type need s"
    "get_flags need t = get_flags need s" "get_link need t = get_link need s" "get_entry_size need t = get_entry_size need s"
    "get_name_string_offset need t = get_name_string_offset need s" "get_addr_align need t = get_addr_align need s"
proof -
  from assms obtain z where h: "s_hdr t = (s_hdr s)\<lparr>sh_size := z\<rparr>" and c: "s_class t = s_class s"
    "s_index t = s_index s" "s_name t = s_name s" by (auto simp: same_rest_def)
  show "s_class t = s_class s" "s_index t = s_index s" "s_name t = s_name s" using c by auto
  show "get_type need t = get_type need s"
    "get_flags need t = get_flags need s" "get_link need t = get_link need s" "get_entry_size need t = get_entry_size need s"
    "get_name_string_offset need t = get_name_string_offset need s" "get_addr_align need t = get_addr_align need s"
    by (simp_all add: section_getters h c)
qed

section \<open>Appending\<close>

text \<open>All allocations that an \<open>Elf_Word\<close> can ask for succeed.\<close>

definition memory_suffices :: "(nat \<Rightarrow> bool) \<Rightarrow> bool" where
  "memory_suffices new_ok \<longleftrightarrow> (\<forall>n < 2 ^ 32. new_ok n)"

theorem append_holds:
  assumes h: "holds need s bs" and raw: "raw \<noteq> []" and len: "length bs + length raw \<le> 2 ^ 28"
    and mem: "memory_suffices new_ok"
  shows "\<exists>t. append_data need new_ok raw s = Inr t \<and> holds need t (bs @ raw) \<and> same_rest s t"
proof -
  from h have ty: "get_type need s \<noteq> SHT_NOBITS" and ok: "shdr_ok (s_class s) (s_hdr s)" and
    sz: "get_size need s = length bs" and d: "length bs \<le> s_dsize s" "s_dsize s \<le> 4 * length bs"
    by (auto simp: holds_def)
  let ?n = "length raw"
  have small: "(length bs + ?n) mod 2 ^ 64 = length bs + ?n" using len by simp
  have result: "holds need (set_size need (length bs + ?n) (s\<lparr>s_data := Some cs, s_dsize := m\<rparr>)) (bs @ raw) \<and>
      same_rest s (set_size need (length bs + ?n) (s\<lparr>s_data := Some cs, s_dsize := m\<rparr>))"
    if "take (length bs + ?n) cs = map Some (bs @ raw)" "length bs + ?n \<le> m" "m \<le> 4 * (length bs + ?n)" "m \<le> length cs"
    for cs m
  proof -
    let ?u = "s\<lparr>s_data := Some cs, s_dsize := m\<rparr>"
    have "get_size need (set_size need (length bs + ?n) ?u) = length bs + ?n"
      using size_fits [of "bs @ raw" "s_class s"] len by (simp add: elf_access)
    moreover have "shdr_ok (s_class s) (s_hdr (set_size need (length bs + ?n) ?u))"
      using shdr_ok_set(1) [of ?u] ok by simp
    moreover have "get_type need (set_size need (length bs + ?n) ?u) \<noteq> SHT_NOBITS"
      using ty by (simp add: section_getters section_setters)
    ultimately show ?thesis using that by (auto simp: holds_def same_rest_def set_size_def)
  qed
  show ?thesis
  proof (cases "length bs + ?n < s_dsize s")
    case True
    then obtain cs where cs: "s_data s = Some cs" "s_dsize s \<le> length cs" "take (length bs) cs = map Some bs"
      using h by (auto simp: holds_def split: option.splits)
    let ?cs = "take (length bs) cs @ map Some raw @ drop (length bs + ?n) cs"
    have "append_data need new_ok raw s = Inr (set_size need (length bs + ?n) (s\<lparr>s_data := Some ?cs, s_dsize := s_dsize s\<rparr>))"
      using True ty raw cs unfolding append_data_def Let_def sz small by (simp add: wr_buf_def)
    moreover have "length bs \<le> length cs" using True cs(2) by linarith
    ultimately show ?thesis using result [of ?cs "s_dsize s"] True cs d by auto
  next
    case False
    obtain m where mdef: "m = 2 * (s_dsize s + ?n)" by blast
    have m: "m < 2 ^ 32" "length bs + ?n \<le> m" "m \<le> 4 * (length bs + ?n)" using False d len by (auto simp: mdef)
    then have m': "(2 * (s_dsize s + ?n)) mod 2 ^ 32 = m" "new_ok m"
      using mem by (auto simp: memory_suffices_def mdef simp del: power_numeral)
    let ?g = "map Some bs @ replicate (m - length bs) None"
    have g: "grow_buf (s_data s) (length bs) m = Inr (Some ?g)"
    proof (cases "bs = []")
      case False
      then obtain cs where cs: "s_data s = Some cs" "s_dsize s \<le> length cs" "take (length bs) cs = map Some bs"
        using h by (auto simp: holds_def split: option.splits)
      then show ?thesis using False d(1) m(2) by (simp add: grow_buf_def)
    qed (simp add: grow_buf_def)
    let ?cs = "map Some bs @ map Some raw @ replicate (m - length bs - ?n) None"
    have w: "wr_buf (Some ?g) (length bs) raw = Inr (Some ?cs)"
      using raw m(2) by (simp add: wr_buf_def add.commute)
    have "append_data need new_ok raw s = Inr (set_size need (length bs + ?n) (s\<lparr>s_data := Some ?cs, s_dsize := m\<rparr>))"
      using False ty unfolding append_data_def Let_def sz small m'(1) by (simp add: m'(2) g w del: wr_buf_def)
    then show ?thesis using result [of ?cs m] m by auto
  qed
qed

section \<open>String tables\<close>

definition string_at :: "string \<Rightarrow> nat \<Rightarrow> string \<Rightarrow> bool" where
  "string_at bs p str \<longleftrightarrow> CHR 0x00 \<notin> set str \<and> (\<exists>pre post. bs = pre @ str @ [CHR 0x00] @ post \<and> length pre = p)"

lemma string_at_append: "string_at bs p str \<Longrightarrow> string_at (bs @ cs) p str"
  unfolding string_at_def by (metis append_assoc)

lemma c_str_text: "CHR 0x00 \<notin> set str \<Longrightarrow> c_str (map Some str @ Some CHR 0x00 # rest) = Inr str"
  by (induction str) auto

lemma get_string_holds:
  assumes "holds need s bs" "string_at bs p str"
  shows "get_string need (Some s) p = Inr (Some str)"
proof -
  from assms(2) obtain pre post where b: "bs = pre @ str @ [CHR 0x00] @ post" "length pre = p" "CHR 0x00 \<notin> set str"
    by (auto simp: string_at_def)
  then obtain cs where cs: "s_data s = Some cs" "take (length bs) cs = map Some bs" "get_size need s = length bs"
    using assms(1) by (auto simp: holds_def split: option.splits)
  from cs(2) have "cs = map Some bs @ drop (length bs) cs" by (metis append_take_drop_id)
  then have "drop p cs = map Some str @ Some CHR 0x00 # (map Some post @ drop (length bs) cs)"
    using b by (metis (no_types, lifting) append.assoc append_Cons append_Nil append_eq_conv_conj length_map list.simps(9) map_append)
  then show ?thesis using b cs by (simp add: get_string_def c_str_text)
qed

lemma get_string_past: "holds need s bs \<Longrightarrow> length bs \<le> p \<Longrightarrow> get_string need (Some s) p = Inr None"
  by (auto simp: get_string_def holds_def)

definition strtab_start :: "string \<Rightarrow> string" where
  "strtab_start bs = (if bs = [] then [CHR 0x00] else bs)"

lemma add_string_holds:
  assumes h: "holds need s bs" and mem: "memory_suffices new_ok" and len: "length bs + length str + 2 \<le> 2 ^ 28"
  shows "\<exists>t. add_string need new_ok str s = Inr (length (strtab_start bs), t) \<and>
    holds need t (strtab_start bs @ str @ [CHR 0x00]) \<and> same_rest s t"
proof -
  have pos: "get_size need s mod 2 ^ 32 = length bs" using h len by (simp add: holds_def)
  have "\<exists>u. (if length bs = 0 then rbind (append_data need new_ok [CHR 0x00] s) (\<lambda>s. Inr ((length bs + 1) mod 2 ^ 32, s))
      else Inr (length bs, s)) = Inr (length (strtab_start bs), u) \<and> holds need u (strtab_start bs) \<and> same_rest s u"
  proof (cases "bs = []")
    case True
    then show ?thesis using append_holds [OF h, of "[CHR 0x00]" new_ok] mem by (auto simp: strtab_start_def)
  qed (use h in \<open>simp add: strtab_start_def\<close>)
  then obtain u where u: "(if length bs = 0 then rbind (append_data need new_ok [CHR 0x00] s) (\<lambda>s. Inr ((length bs + 1) mod 2 ^ 32, s))
      else Inr (length bs, s)) = Inr (length (strtab_start bs), u)" "holds need u (strtab_start bs)" "same_rest s u" by blast
  have "length (strtab_start bs) + length (str @ [CHR 0x00]) \<le> 2 ^ 28" using len by (simp add: strtab_start_def)
  with append_holds [OF u(2) _ _ mem, of "str @ [CHR 0x00]"] obtain t where
    t: "append_data need new_ok (str @ [CHR 0x00]) u = Inr t" "holds need t (strtab_start bs @ str @ [CHR 0x00])" "same_rest u t"
    by auto
  have "add_string need new_ok str s = Inr (length (strtab_start bs), t)"
    unfolding add_string_def Let_def pos u(1) by (simp add: t(1))
  with t u(3) same_rest_trans show ?thesis by blast
qed

lemma string_at_added: "CHR 0x00 \<notin> set str \<Longrightarrow> string_at (bs @ str @ [CHR 0x00]) (length bs) str"
  unfolding string_at_def by (metis append_Nil2 append_assoc)

lemma string_at_start: "string_at bs p str \<Longrightarrow> string_at (strtab_start bs) p str"
  by (auto simp: strtab_start_def string_at_def)

text \<open>Adding strings one after the other.\<close>

fun add_strings :: "bool \<Rightarrow> (nat \<Rightarrow> bool) \<Rightarrow> string list \<Rightarrow> esection \<Rightarrow> (nat list \<times> esection) res" where
  "add_strings need new_ok [] s = Inr ([], s)"
| "add_strings need new_ok (str # strs) s = rbind (add_string need new_ok str s) (\<lambda>(p, s).
     rbind (add_strings need new_ok strs s) (\<lambda>(ps, s). Inr (p # ps, s)))"

lemma add_strings_holds:
  assumes "holds need s bs" "memory_suffices new_ok" "length bs + (\<Sum>str\<leftarrow>strs. length str + 2) \<le> 2 ^ 28"
    and "\<forall>str \<in> set strs. CHR 0x00 \<notin> set str"
  shows "\<exists>ps t cs. add_strings need new_ok strs s = Inr (ps, t) \<and> holds need t cs \<and> same_rest s t \<and>
    list_all2 (string_at cs) ps strs \<and> (\<forall>p str. string_at bs p str \<longrightarrow> string_at cs p str)"
  using assms
proof (induction strs arbitrary: s bs)
  case (Cons str strs)
  let ?bs = "strtab_start bs @ str @ [CHR 0x00]"
  from Cons.prems obtain u where u: "add_string need new_ok str s = Inr (length (strtab_start bs), u)"
    "holds need u ?bs" "same_rest s u"
    using add_string_holds [OF Cons.prems(1,2), of str] by auto
  have "length ?bs \<le> length bs + (length str + 2)" by (simp add: strtab_start_def)
  with Cons.prems obtain ps t cs where t: "add_strings need new_ok strs u = Inr (ps, t)" "holds need t cs" "same_rest u t"
    "list_all2 (string_at cs) ps strs" "\<forall>p str. string_at ?bs p str \<longrightarrow> string_at cs p str"
    using Cons.IH [OF u(2)] by auto
  have "string_at cs (length (strtab_start bs)) str" using t(5) Cons.prems(4) string_at_added by auto
  moreover have "\<forall>p str. string_at bs p str \<longrightarrow> string_at cs p str"
    using t(5) string_at_start string_at_append by blast
  ultimately show ?case using u t same_rest_trans by auto
qed auto

theorem strings_found:
  assumes "holds need s bs" "memory_suffices new_ok" "length bs + (\<Sum>str\<leftarrow>strs. length str + 2) \<le> 2 ^ 28"
    and "\<forall>str \<in> set strs. CHR 0x00 \<notin> set str"
  shows "\<exists>ps t. add_strings need new_ok strs s = Inr (ps, t) \<and>
    list_all2 (\<lambda>p str. get_string need (Some t) p = Inr (Some str)) ps strs \<and>
    (\<forall>p str. string_at bs p str \<longrightarrow> get_string need (Some t) p = Inr (Some str))"
proof -
  obtain ps t cs where t: "add_strings need new_ok strs s = Inr (ps, t)" "holds need t cs"
    "list_all2 (string_at cs) ps strs" "\<forall>p str. string_at bs p str \<longrightarrow> string_at cs p str"
    using add_strings_holds [OF assms] by blast
  then show ?thesis using get_string_holds [OF t(2)] by (auto elim: list_all2_mono)
qed

theorem strings_found_witness:
  "\<exists>ps t. add_strings True (\<lambda>_. True) [''.text'', ''.data''] (set_type True SHT_STRTAB (section_make ELFCLASS64)) = Inr (ps, t) \<and>
    list_all2 (\<lambda>p str. get_string True (Some t) p = Inr (Some str)) ps [''.text'', ''.data'']"
proof -
  have "holds True (set_type True SHT_STRTAB (section_make ELFCLASS64)) []"
    by (rule holds_make) (simp_all add: SHT_STRTAB_def SHT_NOBITS_def)
  from strings_found [OF this, of "\<lambda>_. True" "[''.text'', ''.data'']"] show ?thesis
    by (auto simp: memory_suffices_def)
qed

end
