(* ===== verification/ElfLayout.thy ===== *)
theory ElfLayout
  imports ElfSave ElfStrings
begin

text \<open>
  Where \<open>save\<close> puts the parts of a file without segments, and what the writes leave in it: sections one
  behind the other, each at a multiple of its alignment, and behind them the section table. No part
  overlaps another, so each is found in the file as it was written.
\<close>

section \<open>Parts of a file\<close>

definition at_pos :: "string \<Rightarrow> nat \<Rightarrow> string \<Rightarrow> bool" where
  "at_pos file p bs \<longleftrightarrow> p + length bs \<le> length file \<and> take (length bs) (drop p file) = bs"

lemma at_pos_nth: "at_pos file p bs \<longleftrightarrow> p + length bs \<le> length file \<and> (\<forall>i < length bs. file ! (p + i) = bs ! i)"
  by (auto simp: at_pos_def list_eq_iff_nth_eq)

lemma at_pos_Nil: "p \<le> length file \<Longrightarrow> at_pos file p []"
  by (simp add: at_pos_def)

lemma at_pos_prefix: "at_pos file p (bs @ cs) \<Longrightarrow> at_pos file p bs"
  unfolding at_pos_nth by (metis add.assoc length_append le_add1 le_trans nth_append nat_add_left_cancel_le trans_less_add1)

text \<open>A write puts its bytes where it is told to and leaves everything else.\<close>

lemma os_write_bytes:
  assumes "\<not> os_fail f" "p < 2 ^ 63"
  shows "\<not> os_fail (os_write p bs f)" "length (os_bytes (os_write p bs f)) = max (length (os_bytes f)) (p + length bs)"
    "k < max (length (os_bytes f)) (p + length bs) \<Longrightarrow> os_bytes (os_write p bs f) ! k =
       (if p \<le> k \<and> k < p + length bs then bs ! (k - p) else if k < length (os_bytes f) then os_bytes f ! k else CHR 0x00)"
proof -
  let ?old = "os_bytes f" and ?n = "length bs"
  define X where "X = take p (?old @ replicate (p - length ?old) CHR 0x00)"
  have eq: "os_write p bs f = f\<lparr>os_bytes := X @ bs @ drop (p + ?n) ?old\<rparr>"
    using assms by (simp add: os_write_def X_def)
  have l: "length X = p" by (simp add: X_def)
  have x: "X ! k = (if k < length ?old then ?old ! k else CHR 0x00)" if "k < p" for k
    using that by (simp add: X_def nth_append)
  show "\<not> os_fail (os_write p bs f)" "length (os_bytes (os_write p bs f)) = max (length ?old) (p + ?n)"
    using assms(1) by (auto simp: eq l)
  assume k: "k < max (length ?old) (p + ?n)"
  consider "k < p" | "p \<le> k" "k < p + ?n" | "p + ?n \<le> k" "k < length ?old" using k by linarith
  then show "os_bytes (os_write p bs f) ! k = (if p \<le> k \<and> k < p + ?n then bs ! (k - p) else if k < length ?old then ?old ! k else CHR 0x00)"
    by cases (auto simp: eq nth_append l x less_diff_conv2)
qed

lemma at_pos_written:
  assumes "\<not> os_fail f" "p + length bs < 2 ^ 63"
  shows "at_pos (os_bytes (os_write p bs f)) p bs"
  using os_write_bytes [OF assms(1), where p = p and bs = bs] assms(2) by (auto simp: at_pos_nth)

lemma at_pos_kept:
  assumes "\<not> os_fail f" "p < 2 ^ 63" "at_pos (os_bytes f) q cs" "q + length cs \<le> p \<or> p + length bs \<le> q"
  shows "at_pos (os_bytes (os_write p bs f)) q cs"
  using os_write_bytes [OF assms(1,2), where bs = bs] assms(3,4) by (auto simp: at_pos_nth)

text \<open>Reading a part.\<close>

lemma read_at:
  assumes "\<not> is_fail f" "at_pos (is_bytes f) p bs" "length (is_bytes f) < 2 ^ 63"
  shows "read_n (length bs) (seekg p f) = (bs, f\<lparr>is_pos := p + length bs\<rparr>)"
  using assms by (simp add: read_n_def seekg_def at_pos_def Let_def)

section \<open>Places\<close>

definition align_up :: "nat \<Rightarrow> nat \<Rightarrow> nat" where
  "align_up pos a = (if 1 < a \<and> pos mod a \<noteq> 0 then pos + (a - pos mod a) else pos)"

definition room :: "bool \<Rightarrow> esection \<Rightarrow> nat" where
  "room need s = (if in_file need s then get_size need s else 0)"

fun places :: "bool \<Rightarrow> nat \<Rightarrow> esection list \<Rightarrow> nat list" where
  "places need pos [] = []"
| "places need pos (s # ss) = (let p = align_up pos (get_addr_align need s) in p # places need (p + room need s) ss)"

fun places_end :: "bool \<Rightarrow> nat \<Rightarrow> esection list \<Rightarrow> nat" where
  "places_end need pos [] = pos"
| "places_end need pos (s # ss) = places_end need (align_up pos (get_addr_align need s) + room need s) ss"

definition room_for :: "bool \<Rightarrow> esection list \<Rightarrow> nat" where
  "room_for need ss = (\<Sum>s\<leftarrow>ss. get_addr_align need s + room need s)"

lemma align_up_bounds: "pos \<le> align_up pos a" "align_up pos a \<le> pos + a"
proof -
  obtain r where r: "r = pos mod a" by simp
  show "pos \<le> align_up pos a" "align_up pos a \<le> pos + a" unfolding align_up_def r [symmetric] by auto
qed

lemma align_up_multiple: "0 < a \<Longrightarrow> align_up pos a mod a = 0"
proof -
  assume "0 < a"
  have "(pos + (a - pos mod a)) mod a = 0" if "1 < a"
  proof -
    have "pos + (a - pos mod a) = a * (pos div a) + a"
      using mult_div_mod_eq [of a pos] mod_less_divisor [OF \<open>0 < a\<close>, of pos] by linarith
    then show ?thesis by simp
  qed
  with \<open>0 < a\<close> show ?thesis by (cases "a = 1") (auto simp: align_up_def)
qed

lemma length_places [simp]: "length (places need pos ss) = length ss"
  by (induction ss arbitrary: pos) (auto simp: Let_def)

lemma places_append: "places need pos (ss @ ts) = places need pos ss @ places need (places_end need pos ss) ts"
  by (induction ss arbitrary: pos) (auto simp: Let_def)

lemma places_end_append: "places_end need pos (ss @ ts) = places_end need (places_end need pos ss) ts"
  by (induction ss arbitrary: pos) auto

lemma places_end_within: "pos \<le> places_end need pos ss \<and> places_end need pos ss \<le> pos + room_for need ss"
proof (induction ss arbitrary: pos)
  case (Cons s ss)
  let ?p = "align_up pos (get_addr_align need s) + room need s"
  have "pos \<le> ?p" "?p \<le> pos + (get_addr_align need s + room need s)"
    using align_up_bounds [of pos "get_addr_align need s"] by auto
  with Cons [of ?p] show ?case by (auto simp: room_for_def)
qed (auto simp: room_for_def)

lemmas places_end_bounds = places_end_within [THEN conjunct1] places_end_within [THEN conjunct2]

lemma nth_places:
  assumes "i < length ss"
  shows "places need pos ss ! i = align_up (places_end need pos (take i ss)) (get_addr_align need (ss ! i))"
proof -
  have "ss = take i ss @ ss ! i # drop (Suc i) ss" using assms by (simp add: id_take_nth_drop)
  then have "places need pos ss = places need pos (take i ss) @ places need (places_end need pos (take i ss)) (ss ! i # drop (Suc i) ss)"
    by (metis places_append)
  then show ?thesis using assms by (simp add: nth_append Let_def)
qed

lemma place_end_nth:
  assumes "i < length ss"
  shows "places need pos ss ! i + room need (ss ! i) = places_end need pos (take (Suc i) ss)"
  using assms by (simp add: nth_places take_Suc_conv_app_nth places_end_append)

text \<open>Places begin behind \<open>pos\<close>, do not overlap, and end before \<open>places_end\<close>.\<close>

lemma places_end_mono: "i \<le> j \<Longrightarrow> places_end need pos (take i ss) \<le> places_end need pos (take j ss)"
proof -
  assume "i \<le> j"
  then have "take j ss = take i ss @ take (j - i) (drop i ss)" by (metis le_add_diff_inverse take_add)
  then show ?thesis by (simp add: places_end_append places_end_bounds(1))
qed

lemma places_disjoint:
  assumes "i < length ss"
  shows "pos \<le> places need pos ss ! i" "places need pos ss ! i + room need (ss ! i) \<le> places_end need pos ss"
    "i < j \<Longrightarrow> j < length ss \<Longrightarrow> places need pos ss ! i + room need (ss ! i) \<le> places need pos ss ! j"
proof -
  show "pos \<le> places need pos ss ! i"
    using nth_places [OF assms] align_up_bounds(1) places_end_bounds(1) le_trans by metis
  show "places need pos ss ! i + room need (ss ! i) \<le> places_end need pos ss"
    using place_end_nth [OF assms, of need pos] places_end_mono [of "Suc i" "length ss" need pos ss] assms by simp
  assume j: "i < j" "j < length ss"
  have "places_end need pos (take (Suc i) ss) \<le> places_end need pos (take j ss)" using j by (intro places_end_mono) simp
  also have "\<dots> \<le> places need pos ss ! j" using nth_places [OF j(2)] align_up_bounds(1) by metis
  finally show "places need pos ss ! i + room need (ss ! i) \<le> places need pos ss ! j"
    by (simp add: place_end_nth [OF assms])
qed

end
