(* ===== verification/ElfSymbols.thy ===== *)
theory ElfSymbols
  imports ElfFile ElfStrings
begin

text \<open>
  \<open>elfio_symbols.hpp\<close>: the table of symbols of a section, and the search of a symbol by its name through
  a hash table. What all tables of an ELF file have in common, entries of one size one after the
  other, is the locale \<open>elf_table\<close>; the tables of symbols, relocations and dynamic entries provide it.
  An accessor is a file and the index of its section.
\<close>

section \<open>Tables\<close>

definition entries_num :: "bool \<Rightarrow> esection \<Rightarrow> nat" where
  "entries_num need s = (if get_entry_size need s \<noteq> 0 then get_size need s div get_entry_size need s else 0)"

definition read_entry :: "bool \<Rightarrow> nat list \<Rightarrow> nat \<Rightarrow> esection \<Rightarrow> nat list res" where
  "read_entry need ws index s = rbind (rd_buf (s_data s) (index * get_entry_size need s) (sum_list ws)) (\<lambda>bs. Inr (unpack ws bs))"

lemma rd_buf_holds:
  assumes "holds need s bs" "i + n \<le> length bs"
  shows "rd_buf (s_data s) i n = Inr (take n (drop i bs))"
proof (cases "n = 0")
  case False
  with assms obtain cs where cs: "s_data s = Some cs" "s_dsize s \<le> length cs" "take (length bs) cs = map Some bs"
    "length bs \<le> s_dsize s" by (auto simp: holds_def split: option.splits)
  have "take n (drop i cs) = take n (drop i (take (length bs) cs))"
    using assms(2) by (simp add: drop_take)
  then have "take n (drop i cs) = map Some (take n (drop i bs))" by (simp add: cs(3) take_map drop_map)
  then show ?thesis using assms(2) cs False by (simp add: rd_buf_def comp_def)
qed (simp add: rd_buf_def)

locale elf_table =
  fixes widths :: "nat list" and enc :: "'e \<Rightarrow> nat list" and dec :: "nat list \<Rightarrow> 'e" and ok :: "'e \<Rightarrow> bool"
  assumes enc_fits: "ok x \<Longrightarrow> fits_widths widths (enc x)" and dec_enc: "ok x \<Longrightarrow> dec (enc x) = x" and size_pos: "0 < sum_list widths"
begin

definition tab :: "'e list \<Rightarrow> string" where
  "tab xs = concat (map (\<lambda>x. pack widths (enc x)) xs)"

lemma tab_Nil: "tab [] = []"
  by (simp add: tab_def)

lemma length_entry: "ok x \<Longrightarrow> length (pack widths (enc x)) = sum_list widths"
  using enc_fits [of x] by (simp add: length_pack fits_widths_def list_all2_lengthD)

lemma length_tab: "\<forall>x \<in> set xs. ok x \<Longrightarrow> length (tab xs) = length xs * sum_list widths"
  by (induction xs) (auto simp: tab_def length_entry)

lemma tab_snoc: "tab (xs @ [x]) = tab xs @ pack widths (enc x)"
  by (simp add: tab_def)

lemma num_entries:
  assumes "holds need s (tab xs)" "\<forall>x \<in> set xs. ok x" "get_entry_size need s = sum_list widths"
  shows "entries_num need s = length xs"
  using assms size_pos by (auto simp: entries_num_def holds_def length_tab simp del: sum_list_eq_0_iff)

lemma rd_tab:
  assumes h: "holds need s (tab xs)" and ok: "\<forall>x \<in> set xs. ok x" and i: "i < length xs"
  shows "rd_buf (s_data s) (i * sum_list widths) (sum_list widths) = Inr (pack widths (enc (xs ! i)))"
proof -
  have x: "ok (xs ! i)" using ok i by simp
  have "xs = take i xs @ xs ! i # drop (Suc i) xs" using i by (simp add: id_take_nth_drop)
  then have t: "tab xs = tab (take i xs) @ pack widths (enc (xs ! i)) @ tab (drop (Suc i) xs)"
    by (metis concat.simps(2) concat_append list.simps(9) map_append tab_def)
  have l: "length (tab (take i xs)) = i * sum_list widths"
    using ok i length_tab [of "take i xs"] by (auto dest: in_set_takeD)
  show ?thesis
    using rd_buf_holds [OF h, of "i * sum_list widths" "sum_list widths"] length_entry [OF x] by (simp add: t l)
qed

lemma read_tab:
  assumes "holds need s (tab xs)" "\<forall>x \<in> set xs. ok x" "get_entry_size need s = sum_list widths" "i < length xs"
  shows "read_entry need widths i s = Inr (enc (xs ! i))"
  using rd_tab [OF assms(1,2,4)] unpack_pack [OF enc_fits, of "xs ! i" "[]"] assms by (simp add: read_entry_def)

lemma append_tab:
  assumes "holds need s (tab xs)" "\<forall>x \<in> set xs. ok x" "ok x" "memory_suffices new_ok"
    "Suc (length xs) * sum_list widths \<le> 2 ^ 28"
  shows "\<exists>t. append_data need new_ok (pack widths (enc x)) s = Inr t \<and> holds need t (tab (xs @ [x])) \<and> same_rest s t"
proof -
  have "pack widths (enc x) \<noteq> []" using length_entry [OF assms(3)] size_pos by (metis less_numeral_extra(3) list.size(3))
  then show ?thesis
    using append_holds [OF assms(1) _ _ assms(4), of "pack widths (enc x)"] assms(5) length_tab [OF assms(2)]
      length_entry [OF assms(3)] by (simp add: tab_snoc)
qed

end

section \<open>Symbols\<close>

definition file_class :: "elfio \<Rightarrow> elf_class res" where
  "file_class e = rbind (get_class e) (\<lambda>b. Inr (if b = 1 then ELFCLASS32 else ELFCLASS64))"

text \<open>What the caller gets through its references.\<close>

record sym_ref =
  y_name :: string
  y_value :: nat
  y_size :: nat
  y_bind :: nat
  y_type :: nat
  y_shndx :: nat
  y_other :: nat

definition get_symbols_num :: "elfio \<Rightarrow> nat \<Rightarrow> nat res" where
  "get_symbols_num e si = rbind (deref_section e si) (\<lambda>s. Inr (entries_num (f_need e) s))"

text \<open>The name is left as it was when the string table has none at this place.\<close>

definition generic_get_symbol :: "elf_class \<Rightarrow> elfio \<Rightarrow> nat \<Rightarrow> nat \<Rightarrow> sym_ref \<Rightarrow> (bool \<times> sym_ref) res" where
  "generic_get_symbol c e si index r = rbind (deref_section e si) (\<lambda>s. let need = f_need e in
     if index < entries_num need s then rbind (read_entry need (sym_widths c) index s) (\<lambda>vs. let y = sym_of c vs in
       rbind (get_string need (section_at e (get_link need s mod 2 ^ 16)) (conv need 4 (st_name y))) (\<lambda>pStr.
       Inr (True, \<lparr>y_name = (case pStr of None \<Rightarrow> y_name r | Some str \<Rightarrow> str),
         y_value = conv need (wd c) (st_value y), y_size = conv need (wd c) (st_size y),
         y_bind = ELF_ST_BIND (st_info y), y_type = ELF_ST_TYPE (st_info y),
         y_shndx = conv need 2 (st_shndx y), y_other = st_other y\<rparr>)))
     else Inr (False, r))"

definition get_symbol :: "elfio \<Rightarrow> nat \<Rightarrow> nat \<Rightarrow> sym_ref \<Rightarrow> (bool \<times> sym_ref) res" where
  "get_symbol e si index r = rbind (file_class e) (\<lambda>c. generic_get_symbol c e si index r)"

definition generic_add_symbol :: "(nat \<Rightarrow> bool) \<Rightarrow> elf_class \<Rightarrow> nat \<Rightarrow> sym \<Rightarrow> elfio \<Rightarrow> (nat \<times> elfio) res" where
  "generic_add_symbol new_ok c si y e = rbind (deref_section e si) (\<lambda>s. let need = f_need e;
       entry = \<lparr>st_name = conv need 4 (st_name y), st_value = store need (wd c) (st_value y), st_size = store need (wd c) (st_size y),
         st_info = conv need 1 (st_info y), st_other = conv need 1 (st_other y), st_shndx = conv need 2 (st_shndx y)\<rparr> in
     rbind (append_data need new_ok (pack (sym_widths c) (sym_fields c entry)) s) (\<lambda>s.
     Inr (size_sub (get_size need s div sizeof_sym c) 1 mod 2 ^ 32, set_section si s e)))"

definition zero_sym :: sym where
  "zero_sym = \<lparr>st_name = 0, st_value = 0, st_size = 0, st_info = 0, st_other = 0, st_shndx = 0\<rparr>"

text \<open>The first symbol of a table is the null symbol, which is added with the first real one.\<close>

definition add_symbol :: "(nat \<Rightarrow> bool) \<Rightarrow> nat \<Rightarrow> sym \<Rightarrow> elfio \<Rightarrow> (nat \<times> elfio) res" where
  "add_symbol new_ok si y e = rbind (file_class e) (\<lambda>c. rbind (deref_section e si) (\<lambda>s.
     rbind (if get_size (f_need e) s = 0 then rbind (generic_add_symbol new_ok c si zero_sym e) (\<lambda>(_, e). Inr e) else Inr e) (\<lambda>e.
     generic_add_symbol new_ok c si y e)))"

definition add_symbol_bind_type :: "(nat \<Rightarrow> bool) \<Rightarrow> nat \<Rightarrow> sym \<Rightarrow> nat \<Rightarrow> nat \<Rightarrow> elfio \<Rightarrow> (nat \<times> elfio) res" where
  "add_symbol_bind_type new_ok si y bind type e = add_symbol new_ok si (y\<lparr>st_info := ELF_ST_INFO bind type\<rparr>) e"

text \<open>With a writer of the string table at index \<open>sti\<close>.\<close>

definition add_symbol_str :: "(nat \<Rightarrow> bool) \<Rightarrow> nat \<Rightarrow> nat \<Rightarrow> string \<Rightarrow> sym \<Rightarrow> elfio \<Rightarrow> (nat \<times> elfio) res" where
  "add_symbol_str new_ok si sti str y e = (case section_at e sti of
     None \<Rightarrow> add_symbol new_ok si (y\<lparr>st_name := 0\<rparr>) e
   | Some t \<Rightarrow> rbind (add_string (f_need e) new_ok str t) (\<lambda>(index, t).
       add_symbol new_ok si (y\<lparr>st_name := index\<rparr>) (set_section sti t e)))"

section \<open>Search by name\<close>

text \<open>The first section behind the null section that is linked to the table; 0 when there is none.\<close>

definition find_hash_section :: "elfio \<Rightarrow> nat \<Rightarrow> nat res" where
  "find_hash_section e si = rbind (deref_section e si) (\<lambda>s. let n = length (f_sections e) mod 2 ^ 16 in
     Inr (case find (\<lambda>i. get_link (f_need e) (f_sections e ! i) = s_index s) [1..<n] of None \<Rightarrow> 0 | Some i \<Rightarrow> i))"

text \<open>The words of the hash table are read without conversion.\<close>

definition hash_word :: "esection \<Rightarrow> nat \<Rightarrow> nat res" where
  "hash_word s i = rbind (rd_buf (s_data s) (i * 4) 4) (\<lambda>bs. Inr (le_nat bs))"

partial_function (option) hash_loop :: "elfio \<Rightarrow> nat \<Rightarrow> esection \<Rightarrow> nat \<Rightarrow> nat \<Rightarrow> string \<Rightarrow> nat \<Rightarrow> sym_ref \<Rightarrow> sym_ref res option" where
  "hash_loop e si hs nbucket nchain name y r =
     (if y_name r \<noteq> name \<and> y \<noteq> 0 \<and> y < nchain then (case hash_word hs ((2 + nbucket + y) mod 2 ^ 32) of
          Inl err \<Rightarrow> Some (Inl err)
        | Inr y \<Rightarrow> (case get_symbol e si y r of Inl err \<Rightarrow> Some (Inl err)
            | Inr (_, r) \<Rightarrow> hash_loop e si hs nbucket nchain name y r))
      else Some (Inr r))"

definition get_symbol_named :: "elfio \<Rightarrow> nat \<Rightarrow> string \<Rightarrow> sym_ref \<Rightarrow> (bool \<times> sym_ref) res option" where
  "get_symbol_named e si name r = (case find_hash_section e si of Inl err \<Rightarrow> Some (Inl err)
     | Inr h \<Rightarrow> if h = 0 then Some (Inr (False, r)) else
       (case rbind (deref_section e h) (\<lambda>hs. rbind (hash_word hs 0) (\<lambda>nbucket. rbind (hash_word hs 1) (\<lambda>nchain.
          if nbucket = 0 then Inl (Undefined ''division by zero'') else
          rbind (hash_word hs ((2 + unat (elf_hash (takeWhile (\<lambda>c. c \<noteq> CHR 0x00) name)) mod nbucket) mod 2 ^ 32)) (\<lambda>y.
          rbind (get_symbol e si y (r\<lparr>y_name := []\<rparr>)) (\<lambda>(_, s). Inr (hs, nbucket, nchain, y, s)))))) of
          Inl err \<Rightarrow> Some (Inl err)
        | Inr (hs, nbucket, nchain, y, s) \<Rightarrow> (case hash_loop e si hs nbucket nchain name y s of None \<Rightarrow> None
            | Some res \<Rightarrow> Some (rbind res (\<lambda>s. Inr (y_name s = name, s\<lparr>y_name := y_name r\<rparr>))))))"

section \<open>What was added is found\<close>

definition sym_conv :: "bool \<Rightarrow> elf_class \<Rightarrow> sym \<Rightarrow> sym" where
  "sym_conv need c y = \<lparr>st_name = conv need 4 (st_name y), st_value = conv need (wd c) (st_value y),
     st_size = conv need (wd c) (st_size y), st_info = st_info y, st_other = st_other y, st_shndx = conv need 2 (st_shndx y)\<rparr>"

definition sym_ok :: "elf_class \<Rightarrow> sym \<Rightarrow> bool" where
  "sym_ok c y \<longleftrightarrow> st_name y < 256 ^ 4 \<and> st_value y < 256 ^ wd c \<and> st_size y < 256 ^ wd c \<and> st_info y < 256 \<and>
     st_other y < 256 \<and> st_shndx y < 256 ^ 2"

lemma sym_conv_ok: "sym_ok c y \<Longrightarrow> sym_ok c (sym_conv need c y) \<and> sym_conv need c (sym_conv need c y) = y"
  by (simp add: sym_ok_def sym_conv_def conv_conv conv_less [of 4, simplified] conv_less [of 2, simplified] conv_less)

lemma sym_fits: "sym_ok c y \<Longrightarrow> fits_widths (sym_widths c) (sym_fields c y)"
  by (cases c) (simp_all add: sym_ok_def fits_widths_def)

interpretation symtab: elf_table "sym_widths c" "\<lambda>y. sym_fields c (sym_conv need c y)"
    "\<lambda>vs. sym_conv need c (sym_of c vs)" "sym_ok c" for need c
proof unfold_locales
  show "0 < sum_list (sym_widths c)" by (cases c) simp_all
qed (simp_all add: sym_fits sym_conv_ok)

text \<open>A file with a table of symbols at \<open>si\<close> and its string table at \<open>sti\<close>.\<close>

definition sym_file :: "elfio \<Rightarrow> elf_class \<Rightarrow> nat \<Rightarrow> nat \<Rightarrow> sym list \<Rightarrow> string \<Rightarrow> bool" where
  "sym_file e c si sti ys sbs \<longleftrightarrow> file_class e = Inr c \<and> si < length (f_sections e) \<and> sti < length (f_sections e) \<and> si \<noteq> sti \<and>
     holds (f_need e) (f_sections e ! si) (symtab.tab c (f_need e) ys) \<and> get_entry_size (f_need e) (f_sections e ! si) = sizeof_sym c \<and>
     get_link (f_need e) (f_sections e ! si) mod 2 ^ 16 = sti \<and> holds (f_need e) (f_sections e ! sti) sbs \<and>
     (\<forall>y \<in> set ys. sym_ok c y)"

definition sym_refers :: "sym \<Rightarrow> string \<Rightarrow> sym_ref" where
  "sym_refers y name = \<lparr>y_name = name, y_value = st_value y, y_size = st_size y, y_bind = ELF_ST_BIND (st_info y),
     y_type = ELF_ST_TYPE (st_info y), y_shndx = st_shndx y, y_other = st_other y\<rparr>"

lemma section_at_nth [simp]: "i < length (f_sections e) \<Longrightarrow> section_at e i = Some (f_sections e ! i)"
  by (simp add: section_at_def)

lemma deref_nth [simp]: "i < length (f_sections e) \<Longrightarrow> deref_section e i = Inr (f_sections e ! i)"
  by (simp add: deref_section_def)

lemma set_section_simps [simp]:
  "f_need (set_section i s e) = f_need e" "f_header (set_section i s e) = f_header e" "f_segments (set_section i s e) = f_segments e"
  "f_sections (set_section i s e) = (f_sections e)[i := s]" "file_class (set_section i s e) = file_class e"
  by (simp_all add: set_section_def file_class_def get_class_def the_header_def)

lemma get_symbol_entry:
  assumes f: "sym_file e c si sti ys sbs" and i: "i < length ys"
  shows "get_symbol e si i r = rbind (get_string (f_need e) (Some (f_sections e ! sti)) (st_name (ys ! i)))
    (\<lambda>p. Inr (True, sym_refers (ys ! i) (case p of None \<Rightarrow> y_name r | Some str \<Rightarrow> str)))"
proof -
  let ?s = "f_sections e ! si" and ?need = "f_need e"
  from f have h: "holds ?need ?s (symtab.tab c ?need ys)" "\<forall>y \<in> set ys. sym_ok c y" "get_entry_size ?need ?s = sum_list (sym_widths c)"
    and l: "get_link ?need ?s mod 2 ^ 16 = sti" "si < length (f_sections e)" "sti < length (f_sections e)" "file_class e = Inr c"
    by (auto simp: sym_file_def sizeof_sym_def)
  have n: "entries_num ?need ?s = length ys" by (rule symtab.num_entries [OF h(1,2,3)])
  have rd: "read_entry ?need (sym_widths c) i ?s = Inr (sym_fields c (sym_conv ?need c (ys ! i)))"
    by (rule symtab.read_tab [OF h i])
  have y: "sym_ok c (ys ! i)" using h(2) i by simp
  have "conv ?need 4 (st_name (sym_conv ?need c (ys ! i))) = st_name (ys ! i)"
    "conv ?need (wd c) (st_value (sym_conv ?need c (ys ! i))) = st_value (ys ! i)"
    "conv ?need (wd c) (st_size (sym_conv ?need c (ys ! i))) = st_size (ys ! i)"
    "conv ?need 2 (st_shndx (sym_conv ?need c (ys ! i))) = st_shndx (ys ! i)"
    "st_info (sym_conv ?need c (ys ! i)) = st_info (ys ! i)" "st_other (sym_conv ?need c (ys ! i)) = st_other (ys ! i)"
    using y by (simp_all add: sym_conv_def sym_ok_def conv_conv)
  then show ?thesis using l i
    by (simp add: get_symbol_def generic_get_symbol_def n rd sym_refers_def)
qed

lemma get_symbol_found:
  "sym_file e c si sti ys sbs \<Longrightarrow> i < length ys \<Longrightarrow> string_at sbs (st_name (ys ! i)) name \<Longrightarrow>
    get_symbol e si i r = Inr (True, sym_refers (ys ! i) name)"
  using get_symbol_entry [of e c si sti ys sbs i r] get_string_holds [of "f_need e" "f_sections e ! sti" sbs]
  by (simp add: sym_file_def)

lemma get_symbol_past: "sym_file e c si sti ys sbs \<Longrightarrow> length ys \<le> i \<Longrightarrow> get_symbol e si i r = Inr (False, r)"
  using symtab.num_entries [of "f_need e" "f_sections e ! si" c "f_need e" ys]
  by (auto simp: sym_file_def get_symbol_def generic_get_symbol_def sizeof_sym_def)

lemma generic_add_symbol_ok:
  assumes f: "sym_file e c si sti ys sbs" and y: "sym_ok c y" and mem: "memory_suffices new_ok"
    and len: "Suc (length ys) * sizeof_sym c \<le> 2 ^ 28"
  shows "\<exists>e'. generic_add_symbol new_ok c si y e = Inr (length ys, e') \<and> sym_file e' c si sti (ys @ [y]) sbs \<and>
    f_header e' = f_header e"
proof -
  let ?s = "f_sections e ! si" and ?need = "f_need e"
  from f have h: "holds ?need ?s (symtab.tab c ?need ys)" "\<forall>y \<in> set ys. sym_ok c y" "get_entry_size ?need ?s = sizeof_sym c"
    and l: "si < length (f_sections e)" by (auto simp: sym_file_def)
  have entry: "\<lparr>st_name = conv ?need 4 (st_name y), st_value = store ?need (wd c) (st_value y), st_size = store ?need (wd c) (st_size y),
      st_info = conv ?need 1 (st_info y), st_other = conv ?need 1 (st_other y), st_shndx = conv ?need 2 (st_shndx y)\<rparr> = sym_conv ?need c y"
    using y by (simp add: sym_conv_def store_def sym_ok_def conv_def)
  obtain t where t: "append_data ?need new_ok (pack (sym_widths c) (sym_fields c (sym_conv ?need c y))) ?s = Inr t"
    "holds ?need t (symtab.tab c ?need (ys @ [y]))" "same_rest ?s t"
    using symtab.append_tab [OF h(1,2) y mem] len by (auto simp: sizeof_sym_def)
  have ok: "\<forall>x \<in> set (ys @ [y]). sym_ok c x" using h(2) y by auto
  have pos: "0 < sizeof_sym c" by (cases c) (simp_all add: sizeof_sym_def)
  have "get_size ?need t = Suc (length ys) * sizeof_sym c"
    using t(2) symtab.length_tab [OF ok, of ?need] by (simp add: holds_def sizeof_sym_def)
  then have div: "get_size ?need t div sizeof_sym c = Suc (length ys)" using pos by simp
  have "Suc (length ys) * 1 \<le> Suc (length ys) * sizeof_sym c" using pos by (intro mult_le_mono2) simp
  then have "Suc (length ys) \<le> 2 ^ 28" using len by simp
  then have small: "length ys < 2 ^ 32" by simp
  have "generic_add_symbol new_ok c si y e = Inr (length ys, set_section si t e)"
    using l small unfolding generic_add_symbol_def deref_nth [OF l] Let_def rbind_Inr entry t(1) by (simp add: div)
  moreover have "sym_file (set_section si t e) c si sti (ys @ [y]) sbs"
    using f ok t(2) l by (auto simp: sym_file_def same_rest_get [OF t(3)])
  ultimately show ?thesis by auto
qed

definition symtab_start :: "sym list \<Rightarrow> sym list" where
  "symtab_start ys = (if ys = [] then [zero_sym] else ys)"

lemma zero_sym_ok [simp]: "sym_ok c zero_sym"
  by (simp add: sym_ok_def zero_sym_def)

lemma add_symbol_ok:
  assumes f: "sym_file e c si sti ys sbs" and y: "sym_ok c y" and mem: "memory_suffices new_ok"
    and len: "Suc (length (symtab_start ys)) * sizeof_sym c \<le> 2 ^ 28"
  shows "\<exists>e'. add_symbol new_ok si y e = Inr (length (symtab_start ys), e') \<and> sym_file e' c si sti (symtab_start ys @ [y]) sbs"
proof -
  let ?s = "f_sections e ! si"
  from f have h: "holds (f_need e) ?s (symtab.tab c (f_need e) ys)" "\<forall>y \<in> set ys. sym_ok c y" and c: "file_class e = Inr c"
    and l: "si < length (f_sections e)" by (auto simp: sym_file_def)
  have "0 < sum_list (sym_widths c)" by (cases c) simp_all
  then have z: "get_size (f_need e) ?s = 0 \<longleftrightarrow> ys = []"
    using h symtab.length_tab [OF h(2), of "f_need e"] by (auto simp: holds_def simp del: sum_list_eq_0_iff)
  have "\<exists>u. (if ys = [] then rbind (generic_add_symbol new_ok c si zero_sym e) (\<lambda>(_, e). Inr e) else Inr e) = Inr u \<and>
      sym_file u c si sti (symtab_start ys) sbs"
  proof (cases "ys = []")
    case True
    then show ?thesis using generic_add_symbol_ok [OF f zero_sym_ok mem] len by (auto simp: symtab_start_def)
  qed (use f in \<open>simp add: symtab_start_def\<close>)
  then obtain u where u: "(if ys = [] then rbind (generic_add_symbol new_ok c si zero_sym e) (\<lambda>(_, e). Inr e) else Inr e) = Inr u"
    "sym_file u c si sti (symtab_start ys) sbs" by blast
  with generic_add_symbol_ok [OF u(2) y mem len] c l show ?thesis
    by (auto simp: add_symbol_def z)
qed

lemma add_symbol_str_ok:
  assumes f: "sym_file e c si sti ys sbs" and y: "sym_ok c y" and mem: "memory_suffices new_ok"
    and len: "Suc (length (symtab_start ys)) * sizeof_sym c \<le> 2 ^ 28" and slen: "length sbs + length str + 2 \<le> 2 ^ 28"
  shows "\<exists>e'. add_symbol_str new_ok si sti str y e = Inr (length (symtab_start ys), e') \<and>
    sym_file e' c si sti (symtab_start ys @ [y\<lparr>st_name := length (strtab_start sbs)\<rparr>]) (strtab_start sbs @ str @ [CHR 0x00])"
proof -
  let ?n = "length (strtab_start sbs)" and ?sbs = "strtab_start sbs @ str @ [CHR 0x00]"
  from f have h: "holds (f_need e) (f_sections e ! sti) sbs" and l: "sti < length (f_sections e)" by (auto simp: sym_file_def)
  obtain t where t: "add_string (f_need e) new_ok str (f_sections e ! sti) = Inr (?n, t)"
    "holds (f_need e) t ?sbs" "same_rest (f_sections e ! sti) t"
    using add_string_holds [OF h mem slen] by blast
  have g: "sym_file (set_section sti t e) c si sti ys ?sbs"
    using f t(2) by (auto simp: sym_file_def)
  have "?n < 256 ^ 4" using slen by (simp add: strtab_start_def split: if_splits)
  then have y': "sym_ok c (y\<lparr>st_name := ?n\<rparr>)" using y by (simp add: sym_ok_def)
  from add_symbol_ok [OF g y' mem len] show ?thesis using l by (simp add: add_symbol_str_def t(1))
qed

text \<open>Adding named symbols one after the other.\<close>

fun add_symbols :: "(nat \<Rightarrow> bool) \<Rightarrow> nat \<Rightarrow> nat \<Rightarrow> (string \<times> sym) list \<Rightarrow> elfio \<Rightarrow> (nat list \<times> elfio) res" where
  "add_symbols new_ok si sti [] e = Inr ([], e)"
| "add_symbols new_ok si sti ((str, y) # xs) e = rbind (add_symbol_str new_ok si sti str y e) (\<lambda>(i, e).
     rbind (add_symbols new_ok si sti xs e) (\<lambda>(ks, e). Inr (i # ks, e)))"

lemma add_symbols_ok:
  assumes "sym_file e c si sti ys sbs" "memory_suffices new_ok" "(length (symtab_start ys) + length xs) * sizeof_sym c \<le> 2 ^ 28"
    and "length sbs + (\<Sum>(str, y)\<leftarrow>xs. length str + 2) \<le> 2 ^ 28" "\<forall>(str, y) \<in> set xs. CHR 0x00 \<notin> set str \<and> sym_ok c y"
  shows "\<exists>ks e' zs cs. add_symbols new_ok si sti xs e = Inr (ks, e') \<and> sym_file e' c si sti zs cs \<and>
    list_all2 (\<lambda>i (str, y). i < length zs \<and> zs ! i = y\<lparr>st_name := st_name (zs ! i)\<rparr> \<and> string_at cs (st_name (zs ! i)) str) ks xs \<and>
    (\<forall>i < length ys. i < length zs \<and> zs ! i = ys ! i) \<and> (\<forall>p str. string_at sbs p str \<longrightarrow> string_at cs p str)"
  using assms
proof (induction xs arbitrary: e ys sbs)
  case (Cons x xs)
  obtain str y where x: "x = (str, y)" by (cases x)
  let ?n = "length (strtab_start sbs)" and ?sbs = "strtab_start sbs @ str @ [CHR 0x00]"
  let ?y = "y\<lparr>st_name := ?n\<rparr>" and ?i = "length (symtab_start ys)" let ?ys = "symtab_start ys @ [?y]"
  have "Suc (length (symtab_start ys)) * sizeof_sym c \<le> (length (symtab_start ys) + length (x # xs)) * sizeof_sym c"
    by (intro mult_le_mono1) simp
  then have l: "Suc (length (symtab_start ys)) * sizeof_sym c \<le> 2 ^ 28" using Cons.prems(3) by (rule order_trans)
  have chars: "CHR 0x00 \<notin> set str" "sym_ok c y" using Cons.prems(5) x by auto
  obtain u where u: "add_symbol_str new_ok si sti str y e = Inr (?i, u)" "sym_file u c si sti ?ys ?sbs"
    using add_symbol_str_ok [OF Cons.prems(1) chars(2) Cons.prems(2) l, of str] Cons.prems(4) x by auto
  have start: "symtab_start ?ys = ?ys" by (simp add: symtab_start_def)
  have "(length (symtab_start ?ys) + length xs) * sizeof_sym c \<le> 2 ^ 28" using Cons.prems(3) by (simp add: start)
  moreover have "length ?sbs + (\<Sum>(str, y)\<leftarrow>xs. length str + 2) \<le> 2 ^ 28"
    using Cons.prems(4) x by (cases "sbs = []") (simp_all add: strtab_start_def)
  ultimately obtain ks e' zs cs where r: "add_symbols new_ok si sti xs u = Inr (ks, e')" "sym_file e' c si sti zs cs"
    "list_all2 (\<lambda>i (str, y). i < length zs \<and> zs ! i = y\<lparr>st_name := st_name (zs ! i)\<rparr> \<and> string_at cs (st_name (zs ! i)) str) ks xs"
    "\<forall>i < length ?ys. i < length zs \<and> zs ! i = ?ys ! i" "\<forall>p str. string_at ?sbs p str \<longrightarrow> string_at cs p str"
    using Cons.IH [OF u(2) Cons.prems(2)] Cons.prems(5) by auto
  have "?i < length zs" "zs ! ?i = ?y" using r(4) [rule_format, of ?i] by simp_all
  moreover have "string_at cs ?n str" using r(5) string_at_added [OF chars(1)] by blast
  ultimately have "list_all2 (\<lambda>i (str, y). i < length zs \<and> zs ! i = y\<lparr>st_name := st_name (zs ! i)\<rparr> \<and>
      string_at cs (st_name (zs ! i)) str) (?i # ks) (x # xs)" using r(3) x by simp
  moreover have "\<forall>i < length ys. i < length zs \<and> zs ! i = ys ! i"
    using r(4) by (cases "ys = []") (auto simp: symtab_start_def nth_append less_Suc_eq)
  moreover have "\<forall>p str. string_at sbs p str \<longrightarrow> string_at cs p str"
    using r(5) string_at_start string_at_append by blast
  ultimately show ?case using r(1,2) x u(1) by auto
qed auto

text \<open>
  C36: symbols added one after the other, each with its name, are found at the indices that adding them
  returned, with the name, value, size, binding, type, section and visibility they were given;
  the symbols and strings that were there before are still found. This holds in both classes and
  byte orders.
\<close>

theorem symbols_found:
  assumes "sym_file e c si sti ys sbs" "memory_suffices new_ok" "(length (symtab_start ys) + length xs) * sizeof_sym c \<le> 2 ^ 28"
    and "length sbs + (\<Sum>(str, y)\<leftarrow>xs. length str + 2) \<le> 2 ^ 28" "\<forall>(str, y) \<in> set xs. CHR 0x00 \<notin> set str \<and> sym_ok c y"
  shows "\<exists>ks e'. add_symbols new_ok si sti xs e = Inr (ks, e') \<and>
    list_all2 (\<lambda>i (str, y). \<forall>r. get_symbol e' si i r = Inr (True, sym_refers y str)) ks xs \<and>
    (\<forall>i < length ys. \<forall>str r. string_at sbs (st_name (ys ! i)) str \<longrightarrow> get_symbol e' si i r = Inr (True, sym_refers (ys ! i) str))"
proof -
  obtain ks e' zs cs where r: "add_symbols new_ok si sti xs e = Inr (ks, e')" "sym_file e' c si sti zs cs"
    "list_all2 (\<lambda>i (str, y). i < length zs \<and> zs ! i = y\<lparr>st_name := st_name (zs ! i)\<rparr> \<and> string_at cs (st_name (zs ! i)) str) ks xs"
    "\<forall>i < length ys. i < length zs \<and> zs ! i = ys ! i" "\<forall>p str. string_at sbs p str \<longrightarrow> string_at cs p str"
    using add_symbols_ok [OF assms] by blast
  have "get_symbol e' si i r = Inr (True, sym_refers y str)"
    if "i < length zs" "zs ! i = y\<lparr>st_name := st_name (zs ! i)\<rparr>" "string_at cs (st_name (zs ! i)) str" for i y str r
  proof -
    have "sym_refers (zs ! i) str = sym_refers y str" by (subst that(2)) (simp add: sym_refers_def)
    then show ?thesis using get_symbol_found [OF r(2) that(1,3), of r] by simp
  qed
  then have "list_all2 (\<lambda>i (str, y). \<forall>r. get_symbol e' si i r = Inr (True, sym_refers y str)) ks xs"
    using r(3) by (auto elim!: list_all2_mono)
  moreover have "\<forall>i < length ys. \<forall>str r. string_at sbs (st_name (ys ! i)) str \<longrightarrow> get_symbol e' si i r = Inr (True, sym_refers (ys ! i) str)"
    using get_symbol_found [OF r(2)] r(4,5) by metis
  ultimately show ?thesis using r(1) by blast
qed

text \<open>An empty table and its string table in a big-endian file of 64 bits.\<close>

definition sym_file_ex :: elfio where
  "sym_file_ex = \<lparr>f_header = Some (ELFCLASS64, header_make True ELFCLASS64 2),
     f_sections = [section_make ELFCLASS64,
       set_link True 2 (set_entry_size True 24 (set_type True SHT_SYMTAB (section_make ELFCLASS64))),
       set_type True SHT_STRTAB (section_make ELFCLASS64)],
     f_segments = [], f_need = True, f_pos = 0\<rparr>"

lemma sizeof_sym_24: "sizeof_sym ELFCLASS64 = 24"
  by (simp add: sizeof_sym_def)

lemma sym_file_ex_ok: "sym_file sym_file_ex ELFCLASS64 1 2 [] []"
proof -
  let ?s = "set_type True SHT_SYMTAB (section_make ELFCLASS64)"
  have h: "holds True ?s []" "holds True (set_type True SHT_STRTAB (section_make ELFCLASS64)) []"
    by (rule holds_make; simp add: SHT_SYMTAB_def SHT_STRTAB_def SHT_NOBITS_def)+
  have "holds True (set_link True 2 (set_entry_size True 24 ?s)) []" by (intro holds_set h)
  moreover have "get_entry_size True (set_link True 2 (set_entry_size True 24 ?s)) = 24"
    "get_link True (set_link True 2 (set_entry_size True 24 ?s)) = 2"
    using get_set(7) [of True 24 ?s] get_set(4) [of True 2 "set_entry_size True 24 ?s"]
    by (simp_all add: get_entry_size_def set_link_def set_type_def set_entry_size_def section_make_def)
  ultimately show ?thesis using h
    by (simp add: sym_file_def sym_file_ex_def file_class_def get_class_def the_header_def header_make_def ELFMAG_def EI_CLASS_def
        symtab.tab_Nil sizeof_sym_24 del: sym_widths.simps sym_fields.simps)
qed

theorem symbols_found_witness:
  "\<exists>ks e'. add_symbols (\<lambda>_. True) 1 2 [(''main'', zero_sym\<lparr>st_value := 4096, st_info := 18\<rparr>), (''exit'', zero_sym)] sym_file_ex = Inr (ks, e') \<and>
    list_all2 (\<lambda>i (str, y). \<forall>r. get_symbol e' 1 i r = Inr (True, sym_refers y str)) ks
      [(''main'', zero_sym\<lparr>st_value := 4096, st_info := 18\<rparr>), (''exit'', zero_sym)]"
proof -
  have "sym_ok ELFCLASS64 (zero_sym\<lparr>st_value := 4096, st_info := 18\<rparr>)" by (simp add: sym_ok_def zero_sym_def)
  then show ?thesis
    using symbols_found [OF sym_file_ex_ok, of "\<lambda>_. True" "[(''main'', zero_sym\<lparr>st_value := 4096, st_info := 18\<rparr>), (''exit'', zero_sym)]"]
    by (simp add: memory_suffices_def sizeof_sym_def symtab_start_def)
qed

end
