(* ===== verification/ElfRoundTrip.thy ===== *)
theory ElfRoundTrip
  imports ElfLayout ElfSymbols
begin

text \<open>
  From a file in memory to its bytes and back: what \<open>save\<close> writes for a file without segments is read by
  \<open>load\<close> as the same sections, with their names and their data.
\<close>

section \<open>Files that can be saved\<close>

text \<open>
  The bytes of a section, which only sections with room in the file have; a header that describes
  the file it belongs to; a string table with the names of the sections.
\<close>

definition content :: "bool \<Rightarrow> esection \<Rightarrow> string \<Rightarrow> bool" where
  "content need s bs \<longleftrightarrow> shdr_ok (s_class s) (s_hdr s) \<and> (if in_file need s then holds need s bs else bs = [])"

definition header_ok :: "bool \<Rightarrow> elf_class \<Rightarrow> ehdr \<Rightarrow> bool" where
  "header_ok need c h \<longleftrightarrow> length (e_ident h) = EI_NIDENT \<and> fits_widths (ehdr_widths c) (ehdr_fields h) \<and> take 4 (e_ident h) = ELFMAG \<and>
     e_ident h ! EI_CLASS = class_byte c \<and> conv_setup (e_ident h ! EI_DATA) = need \<and>
     header_size need h = sizeof_ehdr c \<and> section_entry_size need h = sizeof_shdr c"

definition names_ok :: "bool \<Rightarrow> nat \<Rightarrow> esection list \<Rightarrow> string list \<Rightarrow> bool" where
  "names_ok need x ss bss \<longleftrightarrow> x \<noteq> SHN_UNDEF \<and> x < length ss \<and> in_file need (ss ! x) \<and>
     (\<forall>i < length ss. string_at (bss ! x) (get_name_string_offset need (ss ! i)) (s_name (ss ! i)))"

definition saveable :: "elfio \<Rightarrow> elf_class \<Rightarrow> ehdr \<Rightarrow> string list \<Rightarrow> bool" where
  "saveable e c h bss \<longleftrightarrow> (let need = f_need e; ss = f_sections e in
     f_header e = Some (c, h) \<and> header_ok need c h \<and> f_segments e = [] \<and> length bss = length ss \<and> length ss < 2 ^ 16 \<and>
     (\<forall>i < length ss. s_class (ss ! i) = c \<and> s_index (ss ! i) = i \<and> content need (ss ! i) (bss ! i)) \<and>
     names_ok need (name_str_index need h) ss bss \<and> \<not> in_file need (ss ! 0) \<and>
     sizeof_ehdr c + room_for need ss + 4 + length ss * sizeof_shdr c < 2 ^ 31)"

section \<open>The header\<close>

lemma fits_ehdr:
  assumes "length (e_ident h) = EI_NIDENT"
  shows "fits_widths (ehdr_widths c) (ehdr_fields h) \<longleftrightarrow> (\<forall>v \<in> set (e_ident h). v < 256) \<and> e_type h < 65536 \<and> e_machine h < 65536 \<and>
    e_version h < 4294967296 \<and> e_entry h < 256 ^ wd c \<and> e_phoff h < 256 ^ wd c \<and> e_shoff h < 256 ^ wd c \<and> e_flags h < 4294967296 \<and>
    e_ehsize h < 65536 \<and> e_phentsize h < 65536 \<and> e_phnum h < 65536 \<and> e_shentsize h < 65536 \<and> e_shnum h < 65536 \<and> e_shstrndx h < 65536"
proof -
  have "list_all2 (\<lambda>w v. v < 256 ^ w) (replicate EI_NIDENT 1) (e_ident h) \<longleftrightarrow> (\<forall>v \<in> set (e_ident h). v < 256)"
    using assms by (simp add: list_all2_conv_all_nth all_set_conv_all_nth)
  then show ?thesis using assms
    by (subst fits_widths_def, subst ehdr_widths_def, subst ehdr_fields_def, subst list_all2_append) simp_all
qed

lemma set_header_fields:
  assumes "header_ok need c h"
  shows "header_ok need c (set_sections_offset need c v h)" "header_ok need c (set_segments_offset need c v h)"
    "header_ok need c (set_sections_num need v h)" "header_ok need c (set_segments_num need v h)"
  using assms store_less [of 2 need v] by (simp_all add: header_ok_def fits_ehdr
      set_sections_offset_def set_segments_offset_def set_sections_num_def set_segments_num_def header_size_def
      section_entry_size_def cong: conj_cong)

lemma pack_bytes: "length vs = k \<Longrightarrow> pack (replicate k 1 @ ws) (vs @ us) = map char_of vs @ pack ws us"
  by (induction vs arbitrary: k) auto

lemma length_header: "header_ok need c h \<Longrightarrow> length (pack (ehdr_widths c) (ehdr_fields h)) = sizeof_ehdr c"
  by (auto simp: header_ok_def fits_widths_def length_pack sizeof_ehdr_def dest: list_all2_lengthD)

lemma header_read:
  assumes ok: "header_ok need c h" and f: "\<not> is_fail f" "length (is_bytes f) < 2 ^ 63"
    and at: "at_pos (is_bytes f) 0 (pack (ehdr_widths c) (ehdr_fields h))"
  shows "header_load c h0 f = (True, h, f\<lparr>is_pos := sizeof_ehdr c\<rparr>)"
    and "read_n EI_NIDENT (seekg 0 f) = (map char_of (e_ident h), f\<lparr>is_pos := EI_NIDENT\<rparr>)"
    and "map of_char (map char_of (e_ident h) :: string) = e_ident h"
proof -
  let ?bs = "pack (ehdr_widths c) (ehdr_fields h)"
  have fit: "fits_widths (ehdr_widths c) (ehdr_fields h)" and id: "length (e_ident h) = EI_NIDENT" using ok by (auto simp: header_ok_def)
  have len: "length ?bs = sizeof_ehdr c" by (rule length_header [OF ok])
  have "ehdr_of (ehdr_fields h) = h" using id by (simp add: ehdr_of_def ehdr_fields_def nth_append)
  then show "header_load c h0 f = (True, h, f\<lparr>is_pos := sizeof_ehdr c\<rparr>)"
    using read_at [OF f(1) at f(2)] unpack_pack [OF fit] by (simp add: header_load_def len)
  have "?bs = map char_of (e_ident h) @ pack [2, 2, 4, wd c, wd c, wd c, 4, 2, 2, 2, 2, 2, 2] (drop EI_NIDENT (ehdr_fields h))"
    using id by (simp add: ehdr_widths_def ehdr_fields_def pack_bytes [simplified])
  then have "at_pos (is_bytes f) 0 (map char_of (e_ident h))" using at at_pos_prefix by metis
  from read_at [OF f(1) this f(2)] id show "read_n EI_NIDENT (seekg 0 f) = (map char_of (e_ident h), f\<lparr>is_pos := EI_NIDENT\<rparr>)" by simp
  have "\<forall>v \<in> set (e_ident h). v < 256"
    using fit id by (simp add: fits_ehdr)
  then show "map of_char (map char_of (e_ident h) :: string) = e_ident h" by (auto intro: map_idI)
qed

section \<open>Layout\<close>

definition put_at :: "bool \<Rightarrow> esection \<Rightarrow> nat \<Rightarrow> esection" where
  "put_at need s p = (if s_index s \<noteq> 0 then set_offset need p s else s)"

lemma put_at_simps [simp]:
  "s_class (put_at need s p) = s_class s" "s_index (put_at need s p) = s_index s" "s_name (put_at need s p) = s_name s"
  "s_data (put_at need s p) = s_data s" "s_dsize (put_at need s p) = s_dsize s"
  "get_type need (put_at need s p) = get_type need s" "get_size need (put_at need s p) = get_size need s"
  "get_addr_align need (put_at need s p) = get_addr_align need s" "get_flags need (put_at need s p) = get_flags need s"
  "get_link need (put_at need s p) = get_link need s" "get_info need (put_at need s p) = get_info need s"
  "get_entry_size need (put_at need s p) = get_entry_size need s" "get_address need (put_at need s p) = get_address need s"
  "get_name_string_offset need (put_at need s p) = get_name_string_offset need s" "in_file need (put_at need s p) = in_file need s"
  by (simp_all add: put_at_def section_setters section_getters in_file_def)

lemma content_put_at: "content need s bs \<Longrightarrow> content need (put_at need s p) bs"
  using holds_set(6) [of need s bs p] shdr_ok_set(2) [of s need p]
  by (simp add: content_def) (simp add: put_at_def set_offset_def)

lemma in_file_offset: "in_file need (set_offset need p s) = in_file need s" "get_size need (set_offset need p s) = get_size need s"
  by (simp_all add: section_setters section_getters in_file_def)

lemma layout_alone_at:
  assumes "f_segments e = []" "section_at e k = Some s" "q = align_up (f_pos e) (get_addr_align (f_need e) s)"
    and small: "q + room (f_need e) s < 2 ^ 64"
  shows "layout_alone k e = Inr (e\<lparr>f_sections := (f_sections e)[k := put_at (f_need e) s q], f_pos := q + room (f_need e) s\<rparr>)"
proof -
  have "is_section_without_segment e k" using assms(1) by (simp add: is_section_without_segment_def)
  moreover have "(if 1 < get_addr_align (f_need e) s \<and> f_pos e mod get_addr_align (f_need e) s \<noteq> 0
      then add64 (f_pos e) (get_addr_align (f_need e) s - f_pos e mod get_addr_align (f_need e) s) else f_pos e) = q"
    using small by (auto simp: assms(3) align_up_def add64_def)
  ultimately show ?thesis using small
    by (cases "in_file (f_need e) s"; cases "s_index s = 0")
      (simp_all add: layout_alone_def deref_section_def assms(2) Let_def set_section_def put_at_def in_file_offset room_def add64_def)
qed

lemma layout_all_alone:
  assumes "f_segments e = []" "f_pos e + room_for (f_need e) (f_sections e) < 2 ^ 64"
  shows "layout_sections_without_segments e = Inr (e\<lparr>f_sections := map2 (put_at (f_need e)) (f_sections e)
      (places (f_need e) (f_pos e) (f_sections e)), f_pos := places_end (f_need e) (f_pos e) (f_sections e)\<rparr>)"
proof -
  let ?need = "f_need e" and ?ss = "f_sections e" and ?pos = "f_pos e"
  have "for_each layout_alone [0..<k] e = Inr (e\<lparr>f_sections := map2 (put_at ?need) (take k ?ss) (places ?need ?pos (take k ?ss)) @ drop k ?ss,
      f_pos := places_end ?need ?pos (take k ?ss)\<rparr>)" if "k \<le> length ?ss" for k
    using that
  proof (induction k)
    case (Suc k)
    let ?s = "?ss ! k" and ?p = "places_end ?need ?pos (take k ?ss)"
    define M where "M = map2 (put_at ?need) (take k ?ss) (places ?need ?pos (take k ?ss))"
    define q where "q = align_up ?p (get_addr_align ?need ?s)"
    let ?e = "e\<lparr>f_sections := M @ drop k ?ss, f_pos := ?p\<rparr>"
    have k: "k < length ?ss" using Suc.prems by simp
    then have d: "drop k ?ss = ?s # drop (Suc k) ?ss" and t: "take (Suc k) ?ss = take k ?ss @ [?s]"
      by (simp_all add: Cons_nth_drop_Suc take_Suc_conv_app_nth)
    have lM: "length M = k" using k by (simp add: M_def)
    have "places_end ?need ?pos (take (Suc k) ?ss) \<le> places_end ?need ?pos (take (length ?ss) ?ss)"
      using Suc.prems by (rule places_end_mono)
    then have "places_end ?need ?pos (take (Suc k) ?ss) < 2 ^ 64" using places_end_bounds(2) [of ?need ?pos ?ss] assms(2) by simp
    then have "q + room ?need ?s < 2 ^ 64" by (simp add: t places_end_append q_def)
    moreover have "section_at ?e k = Some ?s" using k lM by (simp add: section_at_def d nth_append)
    ultimately have "layout_alone k ?e = Inr (?e\<lparr>f_sections := (M @ drop k ?ss)[k := put_at ?need ?s q], f_pos := q + room ?need ?s\<rparr>)"
      using layout_alone_at [of ?e k ?s q] assms(1) by (simp add: q_def)
    moreover have "(M @ drop k ?ss)[k := x] = M @ x # drop (Suc k) ?ss" for x
      using lM by (simp add: d list_update_append)
    moreover have "map2 (put_at ?need) (take (Suc k) ?ss) (places ?need ?pos (take (Suc k) ?ss)) = M @ [put_at ?need ?s q]"
      by (simp add: t places_append M_def q_def)
    ultimately show ?case using Suc unfolding M_def [symmetric] by (simp add: for_each_append t places_end_append q_def)
  qed simp
  from this [of "length ?ss"] show ?thesis by (simp add: layout_sections_without_segments_def)
qed

section \<open>Writing\<close>

definition header_bytes :: "esection \<Rightarrow> string" where
  "header_bytes s = pack (shdr_widths (s_class s)) (shdr_fields (s_hdr s))"

lemma length_header_bytes [simp]: "length (header_bytes s) = sizeof_shdr (s_class s)"
  by (simp add: header_bytes_def length_pack shdr_widths_def shdr_fields_def sizeof_shdr_def)

lemma store_conv: "is_width w \<Longrightarrow> v < 256 ^ w \<Longrightarrow> store need w (conv need w v) = v"
  by (simp add: store_def conv_conv conv_less)

lemma set_get_offset: "shdr_ok (s_class s) (s_hdr s) \<Longrightarrow> set_offset need (get_offset need s) s = s"
  by (simp add: set_offset_def get_offset_def shdr_ok_iff store_conv)

lemma section_save_writes:
  assumes "content need s bs"
  shows "section_save need hp (get_offset need s) s f = Inr (s, let f = os_write hp (header_bytes s) f in
    if bs \<noteq> [] then os_write (get_offset need s) bs f else f)"
proof -
  have ok: "shdr_ok (s_class s) (s_hdr s)" using assms by (simp add: content_def)
  have "rd_buf (s_data s) 0 (get_size need s) = Inr bs \<and> (get_size need s \<noteq> 0 \<longleftrightarrow> bs \<noteq> []) \<and> (bs \<noteq> [] \<longrightarrow> s_data s \<noteq> None)"
    if "in_file need s"
    using that assms rd_buf_holds [of need s bs 0 "length bs"] by (auto simp: content_def holds_def split: option.splits)
  then show ?thesis using assms
    by (cases "in_file need s") (auto simp: section_save_def Let_def set_get_offset [OF ok] section_save_header_def section_save_data_def
        header_bytes_def in_file_def content_def)
qed

definition written :: "string \<Rightarrow> bool \<Rightarrow> nat \<Rightarrow> esection list \<Rightarrow> string list \<Rightarrow> nat \<Rightarrow> bool" where
  "written file need T ss bss k \<longleftrightarrow> (\<forall>i < k. at_pos file (T + i * sizeof_shdr (s_class (ss ! i))) (header_bytes (ss ! i)) \<and>
     (bss ! i \<noteq> [] \<longrightarrow> at_pos file (get_offset need (ss ! i)) (bss ! i)))"

lemma save_sections_written:
  assumes h: "f_header e = Some (c, h)" and T: "sections_offset (f_need e) c h = T" and z: "section_entry_size (f_need e) h = sizeof_shdr c"
    and small: "T + length (f_sections e) * sizeof_shdr c < 2 ^ 31"
    and ss: "\<forall>i < length (f_sections e). s_class (f_sections e ! i) = c \<and> s_index (f_sections e ! i) = i \<and>
      content (f_need e) (f_sections e ! i) (bss ! i) \<and>
      (bss ! i \<noteq> [] \<longrightarrow> length hbs \<le> get_offset (f_need e) (f_sections e ! i) \<and>
         get_offset (f_need e) (f_sections e ! i) + length (bss ! i) \<le> T)"
    and dis: "\<forall>i j. i < j \<and> j < length (f_sections e) \<and> bss ! i \<noteq> [] \<longrightarrow>
      get_offset (f_need e) (f_sections e ! i) + length (bss ! i) \<le> get_offset (f_need e) (f_sections e ! j)"
    and f0: "\<not> os_fail f0" "at_pos (os_bytes f0) 0 hbs" "length (os_bytes f0) \<le> 2 ^ 31" "length hbs \<le> T"
  shows "\<exists>f. for_each save_section [0..<length (f_sections e)] (e, f0) = Inr (e, f) \<and> length (os_bytes f) \<le> 2 ^ 31 \<and>
    at_pos (os_bytes f) 0 hbs \<and> written (os_bytes f) (f_need e) T (f_sections e) bss (length (f_sections e))"
proof -
  let ?need = "f_need e" and ?ss = "f_sections e" and ?n = "length (f_sections e)" and ?z = "sizeof_shdr c"
  have "\<exists>f. for_each save_section [0..<k] (e, f0) = Inr (e, f) \<and> \<not> os_fail f \<and> length (os_bytes f) \<le> 2 ^ 31 \<and>
      at_pos (os_bytes f) 0 hbs \<and> written (os_bytes f) ?need T ?ss bss k" if "k \<le> ?n" for k
    using that
  proof (induction k)
    case 0
    then show ?case using f0 by (simp add: written_def)
  next
    case (Suc k)
    then obtain f where f: "for_each save_section [0..<k] (e, f0) = Inr (e, f)" "\<not> os_fail f" "length (os_bytes f) \<le> 2 ^ 31"
      "at_pos (os_bytes f) 0 hbs" "written (os_bytes f) ?need T ?ss bss k" by auto
    have k: "k < ?n" using Suc.prems by simp
    let ?s = "?ss ! k" and ?bs = "bss ! k" and ?p = "T + k * ?z"
    define f1 where "f1 = os_write ?p (header_bytes ?s) f"
    define f2 where "f2 = (if ?bs \<noteq> [] then os_write (get_offset ?need ?s) ?bs f1 else f1)"
    have s: "s_class ?s = c" "s_index ?s = k" "content ?need ?s ?bs" using ss k by auto
    have "Suc k * ?z \<le> ?n * ?z" using k by (intro mult_le_mono1) simp
    then have p: "?p + ?z < 2 ^ 31" using small by simp
    have "entry_pos T k ?z = Inr ?p" using p by (simp add: entry_pos_def int_mul_def)
    then have step: "save_section k (e, f) = Inr (e, f2)"
      using k section_save_writes [OF s(3), of ?p f] by (simp add: save_section_def the_header_def h T z deref_section_def section_at_def s(2)
          set_section_def Let_def f2_def f1_def)
    have w1: "\<not> os_fail f1" "length (os_bytes f1) \<le> 2 ^ 31" "at_pos (os_bytes f1) ?p (header_bytes ?s)"
      using os_write_bytes(1,2) [OF f(2), of ?p "header_bytes ?s"] at_pos_written [OF f(2), of ?p "header_bytes ?s"] p f(3) by (auto simp: f1_def s(1))
    have kept1: "at_pos (os_bytes f1) q cs" if "at_pos (os_bytes f) q cs" "q + length cs \<le> ?p" for q cs
      using at_pos_kept [OF f(2) _ that(1), of ?p "header_bytes ?s"] that(2) p by (simp add: f1_def)
    have off: "get_offset ?need ?s + length ?bs \<le> T" "length hbs \<le> get_offset ?need ?s" if "?bs \<noteq> []" using ss k that by auto
    have w2: "\<not> os_fail f2" "length (os_bytes f2) \<le> 2 ^ 31" "?bs \<noteq> [] \<longrightarrow> at_pos (os_bytes f2) (get_offset ?need ?s) ?bs"
      using os_write_bytes(1,2) [OF w1(1), of "get_offset ?need ?s" ?bs] at_pos_written [OF w1(1), of "get_offset ?need ?s" ?bs] off w1 p
      by (auto simp: f2_def)
    have kept2: "at_pos (os_bytes f2) q cs" if "at_pos (os_bytes f1) q cs"
      "?bs \<noteq> [] \<longrightarrow> q + length cs \<le> get_offset ?need ?s \<or> get_offset ?need ?s + length ?bs \<le> q" for q cs
      using at_pos_kept [OF w1(1) _ that(1), of "get_offset ?need ?s" ?bs] that off p by (auto simp: f2_def)
    have hbs: "at_pos (os_bytes f2) 0 hbs" using kept1 [OF f(4)] f0(4) off(2) by (intro kept2) auto
    have "at_pos (os_bytes f2) (T + i * sizeof_shdr (s_class (?ss ! i))) (header_bytes (?ss ! i)) \<and>
        (bss ! i \<noteq> [] \<longrightarrow> at_pos (os_bytes f2) (get_offset ?need (?ss ! i)) (bss ! i))" if "i < Suc k" for i
    proof (cases "i = k")
      case True
      have "at_pos (os_bytes f2) ?p (header_bytes ?s)" using w1(3) off(1) by (intro kept2) auto
      with True w2(3) s(1) show ?thesis by simp
    next
      case False
      with that have i: "i < k" "i < ?n" using k by auto
      then have at: "at_pos (os_bytes f) (T + i * ?z) (header_bytes (?ss ! i))" "bss ! i \<noteq> [] \<Longrightarrow> at_pos (os_bytes f) (get_offset ?need (?ss ! i)) (bss ! i)"
        and c: "s_class (?ss ! i) = c" using f(5) ss by (auto simp: written_def)
      have "Suc i * ?z \<le> k * ?z" using i by (intro mult_le_mono1) simp
      then have "at_pos (os_bytes f1) (T + i * ?z) (header_bytes (?ss ! i))" using at(1) c by (intro kept1) auto
      then have a: "at_pos (os_bytes f2) (T + i * ?z) (header_bytes (?ss ! i))" using off(1) by (intro kept2) auto
      have "at_pos (os_bytes f2) (get_offset ?need (?ss ! i)) (bss ! i)" if ne: "bss ! i \<noteq> []"
      proof (rule kept2)
        have "get_offset ?need (?ss ! i) + length (bss ! i) \<le> T" using ss i ne by auto
        then show "at_pos (os_bytes f1) (get_offset ?need (?ss ! i)) (bss ! i)" using at(2) ne by (intro kept1) auto
        show "?bs \<noteq> [] \<longrightarrow> get_offset ?need (?ss ! i) + length (bss ! i) \<le> get_offset ?need ?s \<or> get_offset ?need ?s + length ?bs \<le> get_offset ?need (?ss ! i)"
          using dis i k ne by blast
      qed
      with a c show ?thesis by simp
    qed
    then have "written (os_bytes f2) ?need T ?ss bss (Suc k)" by (simp add: written_def)
    with f(1) step w2 hbs show ?case by (simp add: for_each_append)
  qed
  from this [of ?n] show ?thesis by auto
qed

section \<open>Reading\<close>

definition loaded :: "bool \<Rightarrow> esection \<Rightarrow> string \<Rightarrow> esection" where
  "loaded need s bs = s\<lparr>s_name := [], s_data := (if in_file need s then Some (map Some bs) else None),
     s_dsize := length bs, s_addr_set := True\<rparr>"

lemma loaded_simps [simp]:
  "s_class (loaded need s bs) = s_class s" "s_index (loaded need s bs) = s_index s" "s_hdr (loaded need s bs) = s_hdr s"
  "get_type need (loaded need s bs) = get_type need s" "get_size need (loaded need s bs) = get_size need s"
  "get_name_string_offset need (loaded need s bs) = get_name_string_offset need s" "in_file need (loaded need s bs) = in_file need s"
  by (simp_all add: loaded_def section_getters in_file_def)

lemma content_loaded: "content need s bs \<Longrightarrow> content need (loaded need s bs) bs"
  by (auto simp: content_def holds_def) (auto simp: loaded_def in_file_def)

lemma section_load_reads:
  assumes s: "content need s bs" "s_class s = c" and f: "\<not> is_fail f" "length (is_bytes f) \<le> 2 ^ 31" and mem: "memory_suffices new_ok"
    and at: "at_pos (is_bytes f) hp (header_bytes s)" "bs \<noteq> [] \<longrightarrow> at_pos (is_bytes f) (get_offset need s) bs"
  shows "\<exists>p. section_load need new_ok hp ((section_make c)\<lparr>s_index := m\<rparr>) f =
    Inr ((loaded need s bs)\<lparr>s_index := m, s_addr_set := False\<rparr>, f\<lparr>is_pos := p\<rparr>)"
proof -
  have ok: "shdr_ok (s_class s) (s_hdr s)" using s by (simp add: content_def)
  have len: "length (is_bytes f) < 2 ^ 63" using f(2) by simp
  have "shdr_of (shdr_fields (s_hdr s)) = s_hdr s" by (simp add: shdr_of_def shdr_fields_def)
  then have u: "shdr_of (unpack (shdr_widths c) (header_bytes s)) = s_hdr s"
    using unpack_pack [of "shdr_widths c" "shdr_fields (s_hdr s)" "[]"] ok by (simp add: header_bytes_def s(2) shdr_ok_def)
  let ?f1 = "f\<lparr>is_pos := hp + sizeof_shdr c\<rparr>"
  have r1: "read_n (sizeof_shdr c) (seekg hp f) = (header_bytes s, ?f1)" using read_at [OF f(1) at(1) len] s(2) by simp
  define v where "v = (section_make c)\<lparr>s_index := m, s_hdr := s_hdr s\<rparr>"
  have sz: "get_size need v = get_size need s" "get_type need v = get_type need s" "s_data v = None"
    "get_offset need (v\<lparr>s_data := d\<rparr>) = get_offset need s" for d
    using s(2) by (simp_all add: v_def section_getters section_make_def)
  have res: "(loaded need s bs)\<lparr>s_index := m, s_addr_set := False\<rparr> =
      v\<lparr>s_data := (if in_file need s then Some (map Some bs) else None), s_dsize := length bs\<rparr>"
    using s(2) by (simp add: v_def loaded_def section_make_def)
  have upd: "(section_make c)\<lparr>s_index := m, s_hdr := shdr_of (unpack (shdr_widths c) (header_bytes s))\<rparr> = v"
    "s_class ((section_make c)\<lparr>s_index := m\<rparr>) = c" "s_data (section_make c) = None"
    by (simp_all add: v_def u) (simp_all add: section_make_def)
  have v0: "v\<lparr>s_data := None, s_dsize := 0\<rparr> = v" "v\<lparr>s_dsize := 0\<rparr> = v" "v\<lparr>s_data := None\<rparr> = v" "v\<lparr>s_data := d, s_dsize := 0\<rparr> = v\<lparr>s_data := d\<rparr>" for d
    by (simp_all add: v_def section_make_def)
  note load = section_load_def Let_def r1 upd sz s(2)
  have "\<exists>p. section_load need new_ok hp ((section_make c)\<lparr>s_index := m\<rparr>) f =
      Inr (v\<lparr>s_data := (if in_file need s then Some (map Some bs) else None), s_dsize := length bs\<rparr>, f\<lparr>is_pos := p\<rparr>)"
  proof (cases "in_file need s")
    case False
    then have "bs = []" "\<not> (get_type need s \<noteq> SHT_NULL \<and> get_type need s \<noteq> SHT_NOBITS)" using s by (auto simp: content_def in_file_def)
    with False show ?thesis by (auto simp: load v0)
  next
    case True
    then have n: "get_size need s = length bs" and ty: "get_type need s \<noteq> SHT_NOBITS" "get_type need s \<noteq> SHT_NULL"
      using s by (simp_all add: content_def holds_def in_file_def)
    have lb: "length bs \<le> 2 ^ 31" using at(2) f(2) by (cases "bs = []") (auto simp: at_pos_def)
    then have new: "new_ok (length bs)" using mem by (simp add: memory_suffices_def)
    show ?thesis
    proof (cases "bs = []")
      case empty: True
      show ?thesis using True new n ty by (auto simp: load v0 empty)
    next
      case False
      have r2: "read_n (length bs) (seekg (get_offset need s) ?f1) = (bs, f\<lparr>is_pos := get_offset need s + length bs\<rparr>)"
        using read_at [of ?f1 "get_offset need s" bs] f(1) at(2) len False by simp
      have "wr_buf (Some (replicate (length bs) None)) 0 bs = Inr (Some (map Some bs))" by (simp add: wr_buf_def)
      with False True new n ty lb show ?thesis by (auto simp: load r2)
    qed
  qed
  then show ?thesis unfolding res .
qed

lemma set_get_address: "shdr_ok (s_class s) (s_hdr s) \<Longrightarrow> set_address need (get_address need s) s = s\<lparr>s_addr_set := True\<rparr>"
  by (simp add: set_address_def get_address_def shdr_ok_iff store_conv)

lemma class_of_class_byte [simp]: "class_of_byte (class_byte c) = Some c"
  by (cases c) (simp_all add: class_of_byte_def)

lemma load_section_reads:
  assumes h: "f_header e = Some (c, h)" "e_ident h ! EI_CLASS = class_byte c" and p: "entry_pos offset i entry_size = Inr p"
    and i: "length (f_sections e) = i" "i < 2 ^ 16" and s: "content (f_need e) s bs" "s_class s = c" "s_index s = i"
    and f: "\<not> is_fail f" "length (is_bytes f) \<le> 2 ^ 31" and mem: "memory_suffices new_ok"
    and at: "at_pos (is_bytes f) p (header_bytes s)" "bs \<noteq> [] \<longrightarrow> at_pos (is_bytes f) (get_offset (f_need e) s) bs"
  shows "\<exists>q. load_section new_ok offset entry_size i (e, f) =
    Inr (e\<lparr>f_sections := f_sections e @ [loaded (f_need e) s bs]\<rparr>, f\<lparr>is_pos := q\<rparr>)"
proof -
  let ?t = "(loaded (f_need e) s bs)\<lparr>s_index := i, s_addr_set := False\<rparr>"
  obtain q where q: "section_load (f_need e) new_ok p ((section_make c)\<lparr>s_index := i\<rparr>) f = Inr (?t, f\<lparr>is_pos := q\<rparr>)"
    using section_load_reads [OF s(1,2) f mem at] by blast
  let ?t' = "(loaded (f_need e) s bs)\<lparr>s_addr_set := False, s_index := i\<rparr>"
  have "shdr_ok (s_class ?t') (s_hdr ?t')" using s(1) by (simp add: content_def)
  then have a: "set_address (f_need e) (get_address (f_need e) ?t') ?t' = loaded (f_need e) s bs"
    using s(3) by (simp add: set_get_address) (simp add: loaded_def)
  have "create_section e = Inr (Some i, e\<lparr>f_sections := f_sections e @ [(section_make c)\<lparr>s_index := i\<rparr>]\<rparr>)"
    using h i by (simp add: create_section_def get_class_def the_header_def)
  then show ?thesis using i p q a
    by (auto simp: load_section_def deref_section_def section_at_def set_section_def list_update_append Let_def)
qed

text \<open>All sections, from a table that was written behind them.\<close>

lemma load_all_sections:
  assumes h: "f_header e = Some (c, h)" "e_ident h ! EI_CLASS = class_byte c" and e: "f_sections e = []" "length bss = length ss" "length ss < 2 ^ 16"
    and small: "T + length ss * sizeof_shdr c < 2 ^ 31"
    and s: "\<forall>i < length ss. s_class (ss ! i) = c \<and> s_index (ss ! i) = i \<and> content (f_need e) (ss ! i) (bss ! i)"
    and f: "\<not> is_fail f" "length (is_bytes f) \<le> 2 ^ 31" and mem: "memory_suffices new_ok"
    and w: "written (is_bytes f) (f_need e) T ss bss (length ss)"
  shows "\<exists>q. for_each (load_section new_ok T (sizeof_shdr c)) [0..<length ss] (e, f) =
    Inr (e\<lparr>f_sections := map2 (loaded (f_need e)) ss bss\<rparr>, f\<lparr>is_pos := q\<rparr>)"
proof -
  have "\<exists>q. for_each (load_section new_ok T (sizeof_shdr c)) [0..<k] (e, f) =
      Inr (e\<lparr>f_sections := map2 (loaded (f_need e)) (take k ss) (take k bss)\<rparr>, f\<lparr>is_pos := q\<rparr>)" if "k \<le> length ss" for k
    using that
  proof (induction k)
    case 0
    show ?case using e(1) by (auto intro!: exI [of _ "is_pos f"])
  next
    case (Suc k)
    then obtain q where q: "for_each (load_section new_ok T (sizeof_shdr c)) [0..<k] (e, f) =
      Inr (e\<lparr>f_sections := map2 (loaded (f_need e)) (take k ss) (take k bss)\<rparr>, f\<lparr>is_pos := q\<rparr>)" by auto
    have k: "k < length ss" using Suc.prems by simp
    let ?e = "e\<lparr>f_sections := map2 (loaded (f_need e)) (take k ss) (take k bss)\<rparr>" and ?f = "f\<lparr>is_pos := q\<rparr>"
    have "Suc k * sizeof_shdr c \<le> length ss * sizeof_shdr c" using k by (intro mult_le_mono1) simp
    then have p: "entry_pos T k (sizeof_shdr c) = Inr (T + k * sizeof_shdr c)" using small by (simp add: entry_pos_def int_mul_def)
    have at: "at_pos (is_bytes ?f) (T + k * sizeof_shdr c) (header_bytes (ss ! k))"
      "bss ! k \<noteq> [] \<longrightarrow> at_pos (is_bytes ?f) (get_offset (f_need ?e) (ss ! k)) (bss ! k)" using w s k by (auto simp: written_def)
    obtain r where "load_section new_ok T (sizeof_shdr c) k (?e, ?f) =
        Inr (?e\<lparr>f_sections := f_sections ?e @ [loaded (f_need ?e) (ss ! k) (bss ! k)]\<rparr>, ?f\<lparr>is_pos := r\<rparr>)"
      using load_section_reads [of ?e c h T k "sizeof_shdr c", OF _ h(2) p _ _ _ _ _ _ _ mem at] h(1) e k s f by auto
    moreover have "take (Suc k) ss = take k ss @ [ss ! k]" "take (Suc k) bss = take k bss @ [bss ! k]"
      using k e(2) by (simp_all add: take_Suc_conv_app_nth)
    ultimately show ?case using q e(2) k by (auto simp: for_each_append)
  qed
  from this [of "length ss"] show ?thesis using e(2) by simp
qed

definition reloaded :: "bool \<Rightarrow> esection \<Rightarrow> string \<Rightarrow> esection" where
  "reloaded need s bs = (loaded need s bs)\<lparr>s_name := s_name s\<rparr>"

lemma content_reloaded: "content need s bs \<Longrightarrow> content need (reloaded need s bs) bs"
  using content_loaded [of need s bs] holds_set(9) [of need "loaded need s bs" bs]
  by (simp add: content_def reloaded_def in_file_def section_getters)

lemma load_all_names:
  assumes names: "names_ok (f_need e) x ss bss" and e: "f_sections e = map2 (loaded (f_need e)) ss bss" "length bss = length ss"
    and s: "\<forall>i < length ss. content (f_need e) (ss ! i) (bss ! i)"
  shows "for_each (load_name x) [0..<length ss] e = Inr (e\<lparr>f_sections := map2 (reloaded (f_need e)) ss bss\<rparr>)"
proof -
  let ?need = "f_need e"
  have x: "x < length ss" "in_file ?need (ss ! x)" using names by (auto simp: names_ok_def)
  have "for_each (load_name x) [0..<k] e = Inr (e\<lparr>f_sections := map2 (reloaded ?need) (take k ss) (take k bss) @
      map2 (loaded ?need) (drop k ss) (drop k bss)\<rparr>)" if "k \<le> length ss" for k
    using that
  proof (induction k)
    case 0
    then show ?case using e(1) by simp
  next
    case (Suc k)
    have k: "k < length ss" using Suc.prems by simp
    let ?R = "map2 (reloaded ?need) (take k ss) (take k bss)" and ?s = "ss ! k" and ?bs = "bss ! k"
    let ?N = "?R @ map2 (loaded ?need) (drop k ss) (drop k bss)"
    have d: "map2 (loaded ?need) (drop k ss) (drop k bss) = loaded ?need ?s ?bs # map2 (loaded ?need) (drop (Suc k) ss) (drop (Suc k) bss)"
      using k e(2) by (metis Cons_nth_drop_Suc list.map(2) zip_Cons_Cons case_prod_conv)
    have lR: "length ?R = k" using k e(2) by simp
    have nth: "?N ! i = (if i < k then reloaded ?need else loaded ?need) (ss ! i) (bss ! i)" if "i < length ss" for i
      using that e(2) k by (auto simp: nth_append)
    have "holds ?need (?N ! x) (bss ! x)"
      using nth [OF x(1)] s x content_loaded content_reloaded by (auto simp: content_def reloaded_def in_file_def section_getters)
    moreover have "string_at (bss ! x) (get_name_string_offset ?need ?s) (s_name ?s)" using names k by (simp add: names_ok_def)
    ultimately have "get_string ?need (Some (?N ! x)) (get_name_string_offset ?need ?s) = Inr (Some (s_name ?s))" by (rule get_string_holds)
    then have "load_name x k (e\<lparr>f_sections := ?N\<rparr>) = Inr (e\<lparr>f_sections := ?N[k := reloaded ?need ?s ?bs]\<rparr>)"
      using k x(1) e(2) nth [of k] by (simp add: load_name_def deref_section_def section_at_def set_section_def reloaded_def)
    moreover have "?N[k := reloaded ?need ?s ?bs] = map2 (reloaded ?need) (take (Suc k) ss) (take (Suc k) bss) @
        map2 (loaded ?need) (drop (Suc k) ss) (drop (Suc k) bss)"
      using lR k e(2) by (simp add: d list_update_append take_Suc_conv_app_nth)
    ultimately show ?case using Suc by (simp add: for_each_append)
  qed
  from this [of "length ss"] show ?thesis using e(2) by simp
qed

section \<open>Saving and loading\<close>

lemma no_segments_ordered: "f_segments e = [] \<Longrightarrow> layout_segments_and_their_sections e = Some (Inr e)"
  by (simp add: layout_segments_and_their_sections_def get_ordered_segments_def zero_first_def order_loop.simps)

text \<open>The header of the file that \<open>save\<close> writes, with the section table at \<open>T\<close>.\<close>

definition saved_header :: "bool \<Rightarrow> elf_class \<Rightarrow> nat \<Rightarrow> nat \<Rightarrow> ehdr \<Rightarrow> ehdr" where
  "saved_header need c n T h = set_sections_offset need c T (set_sections_offset need c 0 (set_sections_num need n
     (set_segments_offset need c 0 (set_segments_num need 0 h))))"

lemma saved_header_simps:
  assumes "header_ok need c h"
  shows "header_ok need c (saved_header need c n T h)" "segments_num need (saved_header need c n T h) = 0"
    "n < 2 ^ 16 \<Longrightarrow> sections_num need (saved_header need c n T h) = n"
    "T < 2 ^ 32 \<Longrightarrow> sections_offset need c (saved_header need c n T h) = T"
    "name_str_index need (saved_header need c n T h) = name_str_index need h"
proof -
  show "header_ok need c (saved_header need c n T h)" using assms by (simp add: saved_header_def set_header_fields)
  show "T < 2 ^ 32 \<Longrightarrow> sections_offset need c (saved_header need c n T h) = T"
    by (cases c) (simp_all add: saved_header_def set_sections_offset_def sections_offset_def)
qed (simp_all add: saved_header_def set_sections_offset_def set_sections_num_def set_segments_offset_def
    set_segments_num_def segments_num_def sections_num_def name_str_index_def)

definition table_start :: "bool \<Rightarrow> elf_class \<Rightarrow> esection list \<Rightarrow> nat" where
  "table_start need c ss = (let p = places_end need (sizeof_ehdr c) ss in p + (4 - p mod 4) mod 4)"

definition put_sections :: "bool \<Rightarrow> elf_class \<Rightarrow> esection list \<Rightarrow> esection list" where
  "put_sections need c ss = map2 (put_at need) ss (places need (sizeof_ehdr c) ss)"

lemma nth_put_sections: "i < length ss \<Longrightarrow> put_sections need c ss ! i = put_at need (ss ! i) (places need (sizeof_ehdr c) ss ! i)"
  by (simp add: put_sections_def)

lemma length_put_sections [simp]: "length (put_sections need c ss) = length ss"
  by (simp add: put_sections_def)

lemma elf_save_writes:
  assumes sv: "saveable e c h bss"
  defines "T \<equiv> table_start (f_need e) c (f_sections e)" and "ss \<equiv> put_sections (f_need e) c (f_sections e)"
  shows "\<exists>e1 file. elf_save e = Some (Inr (True, e1, file)) \<and> length file \<le> 2 ^ 31 \<and>
    at_pos file 0 (pack (ehdr_widths c) (ehdr_fields (saved_header (f_need e) c (length ss) T h))) \<and>
    written file (f_need e) T ss bss (length ss)"
proof -
  let ?need = "f_need e" and ?n = "length (f_sections e)" and ?H = "sizeof_ehdr c"
  let ?E = "places_end ?need ?H (f_sections e)"
  let ?h = "saved_header ?need c ?n T h"
  let ?hz = "set_sections_offset ?need c 0 (set_sections_num ?need ?n (set_segments_offset ?need c 0 (set_segments_num ?need 0 h)))"
  from sv have h: "f_header e = Some (c, h)" "header_ok ?need c h" "f_segments e = []" "length bss = ?n" "?n < 2 ^ 16"
    and s: "\<forall>i < ?n. s_class (f_sections e ! i) = c \<and> s_index (f_sections e ! i) = i \<and> content ?need (f_sections e ! i) (bss ! i)"
    and z: "\<not> in_file ?need (f_sections e ! 0)" and small: "?H + room_for ?need (f_sections e) + 4 + ?n * sizeof_shdr c < 2 ^ 31"
    by (auto simp: saveable_def Let_def)
  have E: "?H \<le> ?E" "?E \<le> ?H + room_for ?need (f_sections e)" by (rule places_end_bounds)+
  have T: "?E \<le> T" "T \<le> ?E + 3" by (auto simp: T_def table_start_def Let_def)
  have ok0: "header_size ?need ?hz = ?H" "segments_num ?need ?hz = 0" using h(2)
    by (simp_all add: header_ok_def header_size_def segments_num_def set_sections_offset_def set_sections_num_def
        set_segments_offset_def set_segments_num_def)
  have hdr: "header_ok ?need c ?h" "section_entry_size ?need ?h = sizeof_shdr c" "sections_offset ?need c ?h = T"
    using saved_header_simps [OF h(2)] T E small by (simp_all add: header_ok_def)
  define e1 where "e1 = e\<lparr>f_header := Some (c, ?hz), f_pos := ?H\<rparr>"
  define e2 where "e2 = e1\<lparr>f_sections := ss, f_pos := ?E\<rparr>"
  define e3 where "e3 = e2\<lparr>f_header := Some (c, ?h), f_pos := T\<rparr>"
  have prep: "save_prepare e = Inr e1"
    using ok0 h by (cases c) (simp_all add: save_prepare_def the_header_def Let_def int_mul_def e1_def)
  have seg: "layout_segments_and_their_sections e1 = Some (Inr e1)" by (rule no_segments_ordered) (simp add: e1_def h)
  have alone: "layout_sections_without_segments e1 = Inr e2"
    using layout_all_alone [of e1] h(3) small by (simp add: e1_def e2_def ss_def put_sections_def)
  have table: "layout_section_table e2 = Inr e3"
    using T E small by (simp add: layout_section_table_def the_header_def e2_def e1_def e3_def set_header_def Let_def add64_def
        saved_header_def T_def table_start_def)
  let ?hbs = "pack (ehdr_widths c) (ehdr_fields ?h)" and ?f = "\<lparr>os_bytes = [], os_fail = False\<rparr>"
  define f0 where "f0 = os_write 0 ?hbs ?f"
  have len: "length ?hbs = ?H" by (rule length_header [OF hdr(1)])
  have f0: "\<not> os_fail f0" "at_pos (os_bytes f0) 0 ?hbs" "length (os_bytes f0) \<le> 2 ^ 31" "length ?hbs \<le> T"
    using os_write_bytes(1,2) [of ?f 0 ?hbs] at_pos_written [of ?f 0 ?hbs] len small E T by (simp_all add: f0_def)
  have off: "get_offset ?need (ss ! i) = places ?need ?H (f_sections e) ! i" if "i < ?n" "i \<noteq> 0" for i
  proof -
    have "places ?need ?H (f_sections e) ! i < 2 ^ 32"
      using places_disjoint(2) [OF that(1), of ?need ?H] E small by simp
    then show ?thesis using that s by (cases c) (simp_all add: ss_def nth_put_sections put_at_def elf_access)
  qed
  have room: "room ?need (f_sections e ! i) = length (bss ! i)" if "i < ?n" for i
    using s that by (auto simp: room_def content_def holds_def)
  have ne: "i \<noteq> 0" if "i < ?n" "bss ! i \<noteq> []" for i using z s that by (cases "i = 0") (auto simp: content_def)
  have "\<exists>f. for_each save_section [0..<length (f_sections e3)] (e3, f0) = Inr (e3, f) \<and> length (os_bytes f) \<le> 2 ^ 31 \<and>
      at_pos (os_bytes f) 0 ?hbs \<and> written (os_bytes f) (f_need e3) T (f_sections e3) bss (length (f_sections e3))"
  proof (rule save_sections_written [OF _ _ _ _ _ _ f0])
    show "f_header e3 = Some (c, ?h)" by (simp add: e3_def)
    show "sections_offset (f_need e3) c ?h = T" "section_entry_size (f_need e3) ?h = sizeof_shdr c"
      using hdr by (simp_all add: e3_def e2_def e1_def)
    show "T + length (f_sections e3) * sizeof_shdr c < 2 ^ 31" using T E small by (simp add: e3_def e2_def ss_def)
    show "\<forall>i < length (f_sections e3). s_class (f_sections e3 ! i) = c \<and> s_index (f_sections e3 ! i) = i \<and>
        content (f_need e3) (f_sections e3 ! i) (bss ! i) \<and>
        (bss ! i \<noteq> [] \<longrightarrow> length ?hbs \<le> get_offset (f_need e3) (f_sections e3 ! i) \<and>
           get_offset (f_need e3) (f_sections e3 ! i) + length (bss ! i) \<le> T)"
    proof (intro allI impI)
      fix i assume "i < length (f_sections e3)"
      then have i: "i < ?n" by (simp add: e3_def e2_def ss_def)
      have "?H \<le> get_offset ?need (ss ! i) \<and> get_offset ?need (ss ! i) + length (bss ! i) \<le> T" if "bss ! i \<noteq> []"
        using places_disjoint(1) [OF i, of ?H ?need] places_disjoint(2) [OF i, of ?need ?H] off [OF i ne [OF i that]] room [OF i] T by simp
      then show "s_class (f_sections e3 ! i) = c \<and> s_index (f_sections e3 ! i) = i \<and>
        content (f_need e3) (f_sections e3 ! i) (bss ! i) \<and>
        (bss ! i \<noteq> [] \<longrightarrow> length ?hbs \<le> get_offset (f_need e3) (f_sections e3 ! i) \<and>
           get_offset (f_need e3) (f_sections e3 ! i) + length (bss ! i) \<le> T)"
        using s i len content_put_at by (simp add: e3_def e2_def e1_def ss_def nth_put_sections)
    qed
    show "\<forall>i j. i < j \<and> j < length (f_sections e3) \<and> bss ! i \<noteq> [] \<longrightarrow>
        get_offset (f_need e3) (f_sections e3 ! i) + length (bss ! i) \<le> get_offset (f_need e3) (f_sections e3 ! j)"
    proof (intro allI impI)
      fix i j assume a: "i < j \<and> j < length (f_sections e3) \<and> bss ! i \<noteq> []"
      then have ij: "i < ?n" "j < ?n" "i < j" "bss ! i \<noteq> []" by (auto simp: e3_def e2_def ss_def)
      then show "get_offset (f_need e3) (f_sections e3 ! i) + length (bss ! i) \<le> get_offset (f_need e3) (f_sections e3 ! j)"
        using places_disjoint(3) [OF ij(1,3,2), of ?need ?H] off [of i] off [of j] ne [OF ij(1,4)] room [OF ij(1)]
        by (simp add: e3_def e2_def e1_def)
    qed
  qed
  then obtain f where f: "for_each save_section [0..<length ss] (e3, f0) = Inr (e3, f)" "length (os_bytes f) \<le> 2 ^ 31"
    "at_pos (os_bytes f) 0 ?hbs" "written (os_bytes f) ?need T ss bss (length ss)" by (auto simp: e3_def e2_def e1_def)
  have "save_write e3 = Inr (True, e3, os_bytes f)"
    using f(1) f0(1) h(3) by (simp add: save_write_def the_header_def header_save_def f0_def Let_def e3_def e2_def e1_def)
  then have "elf_save e = Some (Inr (True, e3, os_bytes f))" by (simp add: elf_save_def prep seg alone table)
  with f show ?thesis by (auto simp: ss_def)
qed

text \<open>What \<open>load\<close> makes of such a file.\<close>

lemma elf_load_reads:
  assumes hd: "header_ok need c h" "sections_num need h = length ss" "segments_num need h = 0" "sections_offset need c h = T"
    and ss: "length bss = length ss" "length ss < 2 ^ 16" "T + length ss * sizeof_shdr c < 2 ^ 31"
      "\<forall>i < length ss. s_class (ss ! i) = c \<and> s_index (ss ! i) = i \<and> content need (ss ! i) (bss ! i)"
    and names: "names_ok need (name_str_index need h) ss bss" and mem: "memory_suffices new_ok"
    and fl: "length file \<le> 2 ^ 31" "at_pos file 0 (pack (ehdr_widths c) (ehdr_fields h))" "written file need T ss bss (length ss)"
  shows "elf_load_stream new_ok \<lparr>is_bytes = file, is_pos = 0, is_fail = False\<rparr> e0 =
    Inr (True, e0\<lparr>f_header := Some (c, h), f_sections := map2 (reloaded need) ss bss, f_segments := [], f_need := need\<rparr>)"
proof -
  let ?f = "\<lparr>is_bytes = file, is_pos = 0, is_fail = False\<rparr>"
  have id: "length (e_ident h) = EI_NIDENT" "take 4 (e_ident h) = ELFMAG" "e_ident h ! EI_CLASS = class_byte c"
    "conv_setup (e_ident h ! EI_DATA) = need" and z: "section_entry_size need h = sizeof_shdr c" using hd(1) by (auto simp: header_ok_def)
  have len: "length file < 2 ^ 63" using fl(1) by simp
  have r1: "read_n EI_NIDENT (seekg 0 ?f) = (map char_of (e_ident h), ?f\<lparr>is_pos := EI_NIDENT\<rparr>)"
    and ident: "map of_char (map char_of (e_ident h) :: string) = e_ident h"
    using header_read(2,3) [OF hd(1), of ?f] len fl(2) by simp_all
  have hl: "header_load c hz (?f\<lparr>is_pos := EI_NIDENT\<rparr>) = (True, h, ?f\<lparr>is_pos := sizeof_ehdr c\<rparr>)" for hz
    using header_read(1) [OF hd(1), of "?f\<lparr>is_pos := EI_NIDENT\<rparr>" hz] len fl(2) by simp
  define e where "e = e0\<lparr>f_header := Some (c, h), f_sections := [], f_segments := [], f_need := need\<rparr>"
  define g where "g = ?f\<lparr>is_pos := sizeof_ehdr c\<rparr>"
  obtain q where q: "for_each (load_section new_ok T (sizeof_shdr c)) [0..<length ss] (e, g) =
      Inr (e\<lparr>f_sections := map2 (loaded need) ss bss\<rparr>, g\<lparr>is_pos := q\<rparr>)"
    using load_all_sections [of e c h bss ss T g new_ok] id(3) ss fl mem by (auto simp: e_def g_def)
  have "for_each (load_name (name_str_index need h)) [0..<length ss] (e\<lparr>f_sections := map2 (loaded need) ss bss\<rparr>) =
      Inr (e\<lparr>f_sections := map2 (reloaded need) ss bss\<rparr>)"
    using load_all_names [of "e\<lparr>f_sections := map2 (loaded need) ss bss\<rparr>" "name_str_index need h" ss bss] names ss by (simp add: e_def)
  moreover have "name_str_index need h \<noteq> SHN_UNDEF" using names by (simp add: names_ok_def)
  ultimately have secs: "load_sections new_ok (e, g) = Inr (e\<lparr>f_sections := map2 (reloaded need) ss bss\<rparr>, g\<lparr>is_pos := q\<rparr>)"
    using q hd(2,4) z by (simp add: load_sections_def the_header_def) (simp add: e_def)
  have segs: "load_segments new_ok (e\<lparr>f_sections := S\<rparr>, k) = Inr (e\<lparr>f_sections := S\<rparr>, k)" for S k
    using hd(3) by (simp add: load_segments_def the_header_def e_def)
  have "class_of_byte (e_ident h ! EI_CLASS) = Some c" by (simp add: id(3))
  then show ?thesis using secs segs hl id
    unfolding elf_load_stream_def Let_def r1 prod.case ident
    by (cases e0) (simp add: create_header_def the_header_def elf_clean_def e_def g_def)
qed

text \<open>A section that reads like \<open>s\<close> and has the bytes \<open>bs\<close>; only its place may differ.\<close>

definition reads_as :: "bool \<Rightarrow> esection \<Rightarrow> string \<Rightarrow> esection \<Rightarrow> bool" where
  "reads_as need s bs t \<longleftrightarrow> content need t bs \<and> s_class t = s_class s \<and> s_index t = s_index s \<and> s_name t = s_name s \<and>
     (\<exists>p. s_hdr t = (s_hdr s)\<lparr>sh_offset := p\<rparr>) \<and> (\<not> in_file need s \<longrightarrow> s_data t = None)"

lemma reads_as_reloaded: "content need s bs \<Longrightarrow> reads_as need s bs (reloaded need (put_at need s p) bs)"
  using content_reloaded [OF content_put_at [of need s bs p]]
  by (cases "s_hdr s") (auto simp: reads_as_def reloaded_def loaded_def put_at_def set_offset_def in_file_def section_getters)

text \<open>
  Saving a file without segments succeeds, and loading the bytes that were written gives the sections
  back, in either class and byte order: the same number, and each with its name, its index, its data
  and every field of its header but the place in the file.
\<close>

theorem elf_save_load:
  assumes "saveable e c h bss" "memory_suffices new_ok"
  shows "\<exists>e1 file e2. elf_save e = Some (Inr (True, e1, file)) \<and>
    elf_load_stream new_ok \<lparr>is_bytes = file, is_pos = 0, is_fail = False\<rparr> e0 = Inr (True, e2) \<and>
    f_need e2 = f_need e \<and> f_segments e2 = [] \<and> (\<exists>h2. f_header e2 = Some (c, h2) \<and> header_ok (f_need e) c h2) \<and> length (f_sections e2) = length (f_sections e) \<and>
    (\<forall>i < length (f_sections e). reads_as (f_need e) (f_sections e ! i) (bss ! i) (f_sections e2 ! i))"
proof -
  let ?need = "f_need e" and ?ss = "f_sections e"
  define ss where "ss = put_sections ?need c ?ss"
  define T where "T = table_start ?need c ?ss"
  let ?h = "saved_header ?need c (length ss) T h"
  from assms(1) have sv: "header_ok ?need c h" "length bss = length ?ss" "length ?ss < 2 ^ 16"
    "\<forall>i < length ?ss. s_class (?ss ! i) = c \<and> s_index (?ss ! i) = i \<and> content ?need (?ss ! i) (bss ! i)"
    "names_ok ?need (name_str_index ?need h) ?ss bss" "sizeof_ehdr c + room_for ?need ?ss + 4 + length ?ss * sizeof_shdr c < 2 ^ 31"
    by (auto simp: saveable_def Let_def)
  have "T \<le> places_end ?need (sizeof_ehdr c) ?ss + 3" by (auto simp: T_def table_start_def Let_def)
  then have T: "T + length ?ss * sizeof_shdr c < 2 ^ 31" "T < 2 ^ 32"
    using places_end_bounds(2) [of ?need "sizeof_ehdr c" ?ss] sv(6) by simp_all
  have len: "length ss = length ?ss" by (simp add: ss_def)
  obtain e1 bytes where fl: "elf_save e = Some (Inr (True, e1, bytes))" "length bytes \<le> 2 ^ 31"
    "at_pos bytes 0 (pack (ehdr_widths c) (ehdr_fields ?h))" "written bytes ?need T ss bss (length ss)"
    using elf_save_writes [OF assms(1)] unfolding ss_def T_def by blast
  have s: "\<forall>i < length ss. s_class (ss ! i) = c \<and> s_index (ss ! i) = i \<and> content ?need (ss ! i) (bss ! i)"
    using sv(4) content_put_at by (simp add: ss_def nth_put_sections)
  have names: "names_ok ?need (name_str_index ?need ?h) ss bss"
    using sv(5) len by (auto simp: names_ok_def saved_header_simps [OF sv(1)] ss_def nth_put_sections)
  have "elf_load_stream new_ok \<lparr>is_bytes = bytes, is_pos = 0, is_fail = False\<rparr> e0 =
      Inr (True, e0\<lparr>f_header := Some (c, ?h), f_sections := map2 (reloaded ?need) ss bss, f_segments := [], f_need := ?need\<rparr>)"
    using saved_header_simps [OF sv(1)] T len sv(2,3) by (intro elf_load_reads [OF _ _ _ _ _ _ _ s names assms(2) fl(2-4)]) simp_all
  moreover have "reads_as ?need (?ss ! i) (bss ! i) (map2 (reloaded ?need) ss bss ! i)" if "i < length ?ss" for i
    using that sv(2,4) len reads_as_reloaded by (simp add: ss_def nth_put_sections)
  ultimately show ?thesis using fl(1) sv(2) len saved_header_simps(1) [OF sv(1)] by auto
qed

end
