(* ===== verification/ElfBuild.thy ===== *)
theory ElfBuild
  imports ElfRoundTrip
begin

text \<open>
  Files built from nothing: a new file can be saved, and stays so when sections are added and filled. So
  what a client puts in a file by name is there when the file is read again.
\<close>

section \<open>A new file\<close>

lemma holds_empty: "holds need ((section_make c)\<lparr>s_index := i, s_name := name\<rparr>) []"
proof -
  have "get_size need (section_make c) = 0" "get_type need (section_make c) = 0"
    by (cases c; simp add: section_getters section_make_def zero_shdr_def shdr_of_def conv_def convert32_def convert64_def)+
  then show ?thesis by (simp add: holds_def SHT_NOBITS_def section_getters) (simp add: section_make_def shdr_ok_zero)
qed

lemma holds_set_type:
  assumes "holds need s bs" "v < 2 ^ 32" "v \<noteq> SHT_NOBITS"
  shows "holds need (set_type need v s) bs"
proof -
  have "get_type need (set_type need v s) = v" using assms(2) by (simp add: elf_access)
  moreover have "get_size need (set_type need v s) = get_size need s" by (simp add: section_getters section_setters)
  ultimately show ?thesis using assms shdr_ok_set(3) [of s need v] by (cases "s_data s") (auto simp: holds_def set_type_def)
qed

text \<open>What stays when one field is set.\<close>

lemma set_others [simp]:
  "get_type need (set_name_string_offset need v s) = get_type need s" "get_type need (set_addr_align need v s) = get_type need s"
  "get_addr_align need (set_name_string_offset need v s) = get_addr_align need s" "get_addr_align need (set_type need v s) = get_addr_align need s"
  "get_name_string_offset need (set_type need v s) = get_name_string_offset need s"
  "get_name_string_offset need (set_addr_align need v s) = get_name_string_offset need s"
  "get_size need (set_type need v s) = get_size need s" "get_size need (set_addr_align need v s) = get_size need s"
  "get_size need (set_name_string_offset need v s) = get_size need s"
  "s_class (set_type need v s) = s_class s" "s_class (set_addr_align need v s) = s_class s" "s_class (set_name_string_offset need v s) = s_class s"
  "s_index (set_type need v s) = s_index s" "s_index (set_addr_align need v s) = s_index s" "s_index (set_name_string_offset need v s) = s_index s"
  "s_name (set_type need v s) = s_name s" "s_name (set_addr_align need v s) = s_name s" "s_name (set_name_string_offset need v s) = s_name s"
  by (simp_all add: section_getters section_setters)

lemma set_size_others:
  "get_type need (set_size need n (s\<lparr>s_data := d, s_dsize := m\<rparr>)) = get_type need s"
  "get_addr_align need (set_size need n (s\<lparr>s_data := d, s_dsize := m\<rparr>)) = get_addr_align need s"
  "get_name_string_offset need (set_size need n (s\<lparr>s_data := d, s_dsize := m\<rparr>)) = get_name_string_offset need s"
  "s_class (set_size need n (s\<lparr>s_data := d, s_dsize := m\<rparr>)) = s_class s" "s_index (set_size need n (s\<lparr>s_data := d, s_dsize := m\<rparr>)) = s_index s"
  "s_name (set_size need n (s\<lparr>s_data := d, s_dsize := m\<rparr>)) = s_name s"
  by (simp_all add: section_getters section_setters)

lemma make_getters:
  "get_type need (section_make c) = 0" "get_addr_align need (section_make c) = 0" "get_name_string_offset need (section_make c) = 0"
  "s_class (section_make c) = c" "shdr_ok c (s_hdr (section_make c))"
  by (cases c; simp add: section_getters section_make_def zero_shdr_def shdr_of_def conv_def convert32_def convert64_def shdr_ok_iff)+

lemma header_make_ok:
  assumes "enc < 256"
  shows "header_ok (conv_setup enc) c (set_name_str_index (conv_setup enc) 1 (header_make (conv_setup enc) c enc))"
proof -
  have id: "length (e_ident (header_make (conv_setup enc) c enc)) = EI_NIDENT" by (simp add: header_make_def ELFMAG_def EI_NIDENT_def)
  have "sizeof_ehdr c < 65536" "sizeof_phdr c < 65536" "sizeof_shdr c < 65536" by (cases c; simp)+
  then show "header_ok (conv_setup enc) c (set_name_str_index (conv_setup enc) 1 (header_make (conv_setup enc) c enc))"
    using assms id store_less [of 2 "conv_setup enc"] class_byte.simps
    by (cases c) (simp_all add: header_ok_def fits_ehdr set_name_str_index_def header_make_def ELFMAG_def EI_CLASS_def EI_DATA_def
      EV_CURRENT_def header_size_def section_entry_size_def)
qed

lemma name_str_index_set: "name_str_index need (set_name_str_index need 1 h) = 1"
  by (simp add: name_str_index_def set_name_str_index_def)

lemma sections_add_adds:
  assumes h: "f_header e = Some (c, h)" "e_ident h ! EI_CLASS = class_byte c" and x: "name_str_index (f_need e) h = x"
    and n: "length (f_sections e) = n" "n < 2 ^ 16" and name: "CHR 0x00 \<notin> set name" and mem: "memory_suffices new_ok"
    and len: "length bs + length name + 2 \<le> 2 ^ 28"
    and t: "x \<le> n" "holds (f_need e) ((f_sections e @ [(section_make c)\<lparr>s_index := n, s_name := name\<rparr>]) ! x) bs"
  shows "\<exists>t. holds (f_need e) t (strtab_start bs @ name @ [CHR 0x00]) \<and>
    same_rest ((f_sections e @ [(section_make c)\<lparr>s_index := n, s_name := name\<rparr>]) ! x) t \<and>
    sections_add new_ok name e = Inr (n, e\<lparr>f_sections :=
      (let ss = (f_sections e @ [(section_make c)\<lparr>s_index := n, s_name := name\<rparr>])[x := t] in
       ss[n := set_name_string_offset (f_need e) (length (strtab_start bs)) (ss ! n)])\<rparr>)"
proof -
  let ?ss = "f_sections e @ [(section_make c)\<lparr>s_index := n, s_name := name\<rparr>]"
  obtain t where t': "add_string (f_need e) new_ok name (?ss ! x) = Inr (length (strtab_start bs), t)"
    "holds (f_need e) t (strtab_start bs @ name @ [CHR 0x00])" "same_rest (?ss ! x) t"
    using add_string_holds [OF t(2) mem len] by blast
  have "create_section e = Inr (Some n, e\<lparr>f_sections := f_sections e @ [(section_make c)\<lparr>s_index := n\<rparr>]\<rparr>)"
    using h n by (simp add: create_section_def get_class_def the_header_def)
  moreover have tw: "takeWhile (\<lambda>c. c \<noteq> CHR 0x00) name = name" using name by (auto simp: takeWhile_eq_all_conv)
  moreover have "(f_sections e @ [y]) ! n = y" for y using n(1) by auto
  ultimately have "sections_add new_ok name e = Inr (n, e\<lparr>f_sections :=
      (let ss = ?ss[x := t] in ss[n := set_name_string_offset (f_need e) (length (strtab_start bs)) (ss ! n)])\<rparr>)"
    using n x h t(1) t'(1) by (simp add: sections_add_def deref_section_def section_at_def set_section_def the_header_def list_update_append Let_def tw)
  with t' show ?thesis by blast
qed

lemma room_make: "room need ((section_make c)\<lparr>s_index := i, s_name := name\<rparr>) = 0" "\<not> in_file need ((section_make c)\<lparr>s_index := i, s_name := name\<rparr>)"
proof -
  have "get_type need ((section_make c)\<lparr>s_index := i, s_name := name\<rparr>) = SHT_NULL"
    using make_getters(1) [of need c] by (simp add: get_type_def SHT_NULL_def)
  then show "room need ((section_make c)\<lparr>s_index := i, s_name := name\<rparr>) = 0" "\<not> in_file need ((section_make c)\<lparr>s_index := i, s_name := name\<rparr>)"
    by (simp_all add: room_def in_file_def)
qed

text \<open>The section that \<open>sections.add\<close> makes, with the place of its name.\<close>

definition new_section :: "bool \<Rightarrow> elf_class \<Rightarrow> nat \<Rightarrow> string \<Rightarrow> nat \<Rightarrow> esection" where
  "new_section need c i name p = set_name_string_offset need p ((section_make c)\<lparr>s_index := i, s_name := name\<rparr>)"

lemma new_section_simps [simp]:
  "s_class (new_section need c i name p) = c" "s_index (new_section need c i name p) = i" "s_name (new_section need c i name p) = name"
  "get_type need (new_section need c i name p) = SHT_NULL" "get_addr_align need (new_section need c i name p) = 0"
  "get_name_string_offset need (new_section need c i name p) = p mod 2 ^ 32"
  "room need (new_section need c i name p) = 0" "content need (new_section need c i name p) []"
  "shdr_ok c (s_hdr (new_section need c i name p))"
proof -
  show ty: "get_type need (new_section need c i name p) = SHT_NULL" "get_addr_align need (new_section need c i name p) = 0"
    using make_getters(1,2) [of need c] by (simp_all add: new_section_def SHT_NULL_def) (simp_all add: section_getters)
  show c: "s_class (new_section need c i name p) = c" by (simp add: new_section_def make_getters)
  show ok: "shdr_ok c (s_hdr (new_section need c i name p))"
    using shdr_ok_set(5) [of "(section_make c)\<lparr>s_index := i, s_name := name\<rparr>" need p] make_getters(4,5) [of c] by (simp add: new_section_def)
  show "room need (new_section need c i name p) = 0" "content need (new_section need c i name p) []"
    using ty c ok by (simp_all add: room_def in_file_def content_def)
qed (simp_all add: new_section_def elf_access)

lemma nth_two [simp]: "([a, b] :: 'a list) ! 1 = b" "([a, b] :: 'a list) ! Suc 0 = b"
  by simp_all

lemma holds_content: "holds need s bs \<Longrightarrow> in_file need s \<Longrightarrow> content need s bs"
  by (simp add: content_def) (simp add: holds_def)

lemma create_saveable:
  assumes "enc < 256" "memory_suffices new_ok"
  shows "\<exists>e h. elf_create new_ok (class_byte c) enc e0 = Inr e \<and>
    saveable e c h [[], [CHR 0x00] @ ''.shstrtab'' @ [CHR 0x00]] \<and> f_need e = conv_setup enc \<and> name_str_index (f_need e) h = 1 \<and>
    length (f_sections e) = 2 \<and> s_name (f_sections e ! 0) = [] \<and> s_name (f_sections e ! 1) = ''.shstrtab'' \<and>
    get_type (f_need e) (f_sections e ! 1) = SHT_STRTAB \<and> room_for (f_need e) (f_sections e) = 12"
proof -
  define need where "need = conv_setup enc"
  define h where "h = set_name_str_index need 1 (header_make need c enc)"
  have hok: "header_ok need c h" "name_str_index need h = 1" using header_make_ok [OF assms(1), of c] name_str_index_set by (simp_all add: h_def need_def)
  define nul where "nul = new_section need c 0 [] 0"
  define e1 where "e1 = (elf_clean e0)\<lparr>f_need := need, f_sections := [nul], f_header := Some (c, h)\<rparr>"
  let ?s = "(section_make c)\<lparr>s_index := 1, s_name := ''.shstrtab''\<rparr>" and ?bs = "[CHR 0x00] @ ''.shstrtab'' @ [CHR 0x00]"
  have "e_ident h ! EI_CLASS = class_byte c" using hok by (simp add: header_ok_def)
  then obtain t where t: "holds need t ?bs" "same_rest ?s t"
    "sections_add new_ok ''.shstrtab'' e1 = Inr (1, e1\<lparr>f_sections := [nul, set_name_string_offset need 1 t]\<rparr>)"
    using sections_add_adds [of e1 c h 1 1 "''.shstrtab''" new_ok "[]"] hok assms(2) holds_empty [where need = need and c = c and i = 1 and name = "''.shstrtab''"]
    by (auto simp: e1_def strtab_start_def Let_def)
  define st where "st = set_addr_align need 1 (set_type need SHT_STRTAB (set_name_string_offset need 1 t))"
  define e where "e = e1\<lparr>f_sections := [nul, st]\<rparr>"
  have "create_header need (class_byte c) enc = Some (c, header_make need c enc)"
    by (simp add: create_header_def)
  moreover have "e_ident (header_make need c enc) ! EI_CLASS = class_byte c" by (simp add: header_make_def ELFMAG_def EI_CLASS_def)
  ultimately have cr: "elf_create new_ok (class_byte c) enc e0 = Inr e"
    using t(3) unfolding elf_create_def create_mandatory_sections_def Let_def need_def [symmetric]
    by (simp add: create_section_def get_class_def the_header_def elf_clean_def deref_section_def section_at_def set_section_def
        set_header_def nul_def new_section_def e1_def h_def e_def st_def)
  have st: "holds need st ?bs" using t(1) unfolding st_def by (intro holds_set(5) holds_set_type holds_set(8)) (simp_all add: SHT_STRTAB_def SHT_NOBITS_def)
  have sim: "s_class st = c" "s_index st = 1" "s_name st = ''.shstrtab''" "get_type need st = SHT_STRTAB" "get_addr_align need st = 1"
    "get_name_string_offset need st = 1"
    using same_rest_get(1-3) [OF t(2)] make_getters(4) [of c] by (simp_all add: st_def elf_access SHT_STRTAB_def) (cases c; simp add: elf_access)+
  have in_st: "in_file need st" by (simp add: in_file_def sim SHT_STRTAB_def SHT_NULL_def SHT_NOBITS_def)
  have room: "room_for need [nul, st] = 12" using st by (simp add: room_for_def nul_def room_def [of need st] in_st holds_def sim)
  have names: "names_ok need 1 [nul, st] [[], ?bs]"
    unfolding names_ok_def by (auto simp: SHN_UNDEF_def in_st less_Suc_eq nul_def sim string_at_def intro: exI [of _ "[CHR 0x00]"])
  have "saveable e c h [[], ?bs]"
    using hok names holds_content [OF st in_st] room by (cases c) (auto simp: saveable_def Let_def e_def e1_def elf_clean_def less_Suc_eq nul_def sim in_file_def)
  with cr hok room show ?thesis by (auto simp: e_def e1_def need_def nul_def sim sim(4) [unfolded need_def])
qed

section \<open>More sections\<close>

lemma saveable_index_pos: "saveable e c h bss \<Longrightarrow> bss ! name_str_index (f_need e) h \<noteq> []"
  by (auto simp: saveable_def names_ok_def string_at_def Let_def)

lemma room_for_update:
  assumes "i < length ss" "get_addr_align need t = get_addr_align need (ss ! i)" "room need t = room need (ss ! i) + k"
  shows "room_for need (ss[i := t]) = room_for need ss + k"
proof -
  have "get_addr_align need (ss ! i) + room need (ss ! i) \<le> room_for need ss"
    using assms(1) elem_le_sum_list [of i "map (\<lambda>s. get_addr_align need s + room need s) ss"] by (simp add: room_for_def)
  then show ?thesis using assms by (simp add: room_for_def map_update sum_list_update)
qed

text \<open>A new section, of type \<open>SHT_NULL\<close>; its name goes to the string table.\<close>

lemma add_saveable:
  assumes sv: "saveable e c h bss" and mem: "memory_suffices new_ok" and name: "CHR 0x00 \<notin> set name"
    and n: "n = length (f_sections e)" "n + 1 < 2 ^ 16" and x: "x = name_str_index (f_need e) h"
    and len: "length (bss ! x) + length name + 2 \<le> 2 ^ 28"
    and small: "sizeof_ehdr c + (room_for (f_need e) (f_sections e) + length name + 1) + 4 + (n + 1) * sizeof_shdr c < 2 ^ 31"
  shows "\<exists>t. sections_add new_ok name e = Inr (n, e\<lparr>f_sections := (f_sections e)[x := t] @ [new_section (f_need e) c n name (length (bss ! x))]\<rparr>) \<and>
    s_name t = s_name (f_sections e ! x) \<and> get_type (f_need e) t = get_type (f_need e) (f_sections e ! x) \<and>
    room_for (f_need e) ((f_sections e)[x := t] @ [new_section (f_need e) c n name (length (bss ! x))]) =
      room_for (f_need e) (f_sections e) + length name + 1 \<and>
    saveable (e\<lparr>f_sections := (f_sections e)[x := t] @ [new_section (f_need e) c n name (length (bss ! x))]\<rparr>) c h
      (bss[x := bss ! x @ name @ [CHR 0x00]] @ [[]])"
proof -
  let ?need = "f_need e" and ?ss = "f_sections e"
  from sv have h: "f_header e = Some (c, h)" "header_ok ?need c h" "f_segments e = []" "length bss = length ?ss"
    and s: "\<forall>i < length ?ss. s_class (?ss ! i) = c \<and> s_index (?ss ! i) = i \<and> content ?need (?ss ! i) (bss ! i)"
    and names: "names_ok ?need x ?ss bss" and z: "\<not> in_file ?need (?ss ! 0)" by (auto simp: saveable_def Let_def x)
  have xs: "x < n" "in_file ?need (?ss ! x)" "x \<noteq> 0" using names z by (auto simp: names_ok_def n SHN_UNDEF_def)
  have ne: "bss ! x \<noteq> []" using saveable_index_pos [OF sv] by (simp add: x)
  then have start: "strtab_start (bss ! x) = bss ! x" by (simp add: strtab_start_def)
  have nth: "(?ss @ [y]) ! x = ?ss ! x" for y using xs n by (simp add: nth_append)
  have hold: "holds ?need (?ss ! x) (bss ! x)" using s xs n by (auto simp: content_def)
  have id: "e_ident h ! EI_CLASS = class_byte c" using h(2) by (simp add: header_ok_def)
  have n2: "n < 2 ^ 16" "x \<le> n" using n xs by simp_all
  obtain t where t: "holds ?need t (bss ! x @ name @ [CHR 0x00])"
    "same_rest (?ss ! x) t" "sections_add new_ok name e = Inr (n, e\<lparr>f_sections :=
      (let ss = (?ss @ [(section_make c)\<lparr>s_index := n, s_name := name\<rparr>])[x := t] in
       ss[n := set_name_string_offset ?need (length (bss ! x)) (ss ! n)])\<rparr>)"
    using sections_add_adds [OF h(1) id x [symmetric] n(1) [symmetric] n2(1) name mem len n2(2), unfolded nth start, OF hold] by blast
  let ?new = "new_section ?need c n name (length (bss ! x))"
  have eq: "(let ss = (?ss @ [(section_make c)\<lparr>s_index := n, s_name := name\<rparr>])[x := t] in
       ss[n := set_name_string_offset ?need (length (bss ! x)) (ss ! n)]) = ?ss[x := t] @ [?new]"
    using xs n(1) by (simp add: list_update_append Let_def new_section_def nth_append)
  have in_t: "in_file ?need t" using xs(2) same_rest_get(4) [OF t(2)] by (simp add: in_file_def)
  have ct: "content ?need t (bss ! x @ name @ [CHR 0x00])" by (rule holds_content [OF t(1) in_t])
  have "get_size ?need t = get_size ?need (?ss ! x) + length name + 1" using t(1) hold by (simp add: holds_def)
  then have "room ?need t = room ?need (?ss ! x) + (length name + 1)" using in_t xs(2) by (simp add: room_def)
  then have r: "room_for ?need (?ss[x := t]) = room_for ?need ?ss + (length name + 1)"
    using room_for_update [of x ?ss ?need t "length name + 1"] xs n same_rest_get(9) [OF t(2)] by simp
  then have room: "room_for ?need (?ss[x := t] @ [?new]) = room_for ?need ?ss + length name + 1" by (simp add: room_for_def)
  have lenx: "length (bss ! x) < 2 ^ 32" using len by simp
  let ?bss = "bss[x := bss ! x @ name @ [CHR 0x00]] @ [[]]"
  have nthb: "?bss ! x = bss ! x @ name @ [CHR 0x00]" using xs n h(4) by (simp add: nth_append)
  have "names_ok ?need x (?ss[x := t] @ [?new]) ?bss"
  proof -
    have "string_at (?bss ! x) (get_name_string_offset ?need ((?ss[x := t] @ [?new]) ! i)) (s_name ((?ss[x := t] @ [?new]) ! i))"
      if "i < n + 1" for i
    proof (cases "i = n")
      case True
      have "string_at ((bss ! x) @ name @ [CHR 0x00]) (length (bss ! x)) name" by (rule string_at_added [OF name])
      with True show ?thesis using n(1) lenx unfolding nthb by (simp add: nth_append)
    next
      case False
      then have i: "i < n" using that by simp
      have "string_at (bss ! x) (get_name_string_offset ?need (?ss ! i)) (s_name (?ss ! i))" using names i n by (simp add: names_ok_def)
      then show ?thesis using i n same_rest_get(3,8) [OF t(2)] string_at_append unfolding nthb
        by (cases "i = x") (simp_all add: nth_append)
    qed
    then show ?thesis using names xs in_t n by (simp add: names_ok_def nth_append)
  qed
  moreover have "s_class ((?ss[x := t] @ [?new]) ! i) = c \<and> s_index ((?ss[x := t] @ [?new]) ! i) = i \<and> content ?need ((?ss[x := t] @ [?new]) ! i) (?bss ! i)"
    if i: "i < n + 1" for i
  proof -
    consider "i = n" | "i = x" | "i < n" "i \<noteq> x" using i by linarith
    then show ?thesis
      using s xs n h(4) ct same_rest_get(1,2) [OF t(2)] by cases (auto simp: nth_append)
  qed
  moreover have "\<not> in_file ?need ((?ss[x := t] @ [?new]) ! 0)" using z xs n by (auto simp: nth_append)
  ultimately have "saveable (e\<lparr>f_sections := ?ss[x := t] @ [?new]\<rparr>) c h ?bss"
    using h n(2) small unfolding saveable_def Let_def by (simp add: room x [symmetric] n(1) [symmetric])
  moreover have "s_name t = s_name (?ss ! x) \<and> get_type ?need t = get_type ?need (?ss ! x)" using same_rest_get(3,4) [OF t(2)] by simp
  ultimately show ?thesis using t(3) room unfolding eq by blast
qed

text \<open>A section that is neither the first nor the string table may be changed at will, its name excepted.\<close>

lemma replace_saveable:
  assumes sv: "saveable e c h bss" and i: "i < length (f_sections e)" "i \<noteq> 0" "i \<noteq> name_str_index (f_need e) h"
    and t: "s_class t = c" "s_index t = i" "s_name t = s_name (f_sections e ! i)" "content (f_need e) t bs"
      "get_name_string_offset (f_need e) t = get_name_string_offset (f_need e) (f_sections e ! i)"
    and small: "sizeof_ehdr c + room_for (f_need e) ((f_sections e)[i := t]) + 4 + length (f_sections e) * sizeof_shdr c < 2 ^ 31"
  shows "saveable (set_section i t e) c h (bss[i := bs])"
proof -
  let ?need = "f_need e" and ?ss = "f_sections e" and ?x = "name_str_index (f_need e) h"
  have "s_class (?ss[i := t] ! k) = c \<and> s_index (?ss[i := t] ! k) = k \<and> content ?need (?ss[i := t] ! k) (bss[i := bs] ! k)"
    if "k < length ?ss" for k
    using that sv t i by (cases "k = i") (simp_all add: saveable_def Let_def)
  moreover have "string_at (bss ! ?x) (get_name_string_offset ?need (?ss[i := t] ! k)) (s_name (?ss[i := t] ! k))" if "k < length ?ss" for k
    using that sv t i by (cases "k = i") (simp_all add: saveable_def Let_def names_ok_def)
  ultimately show ?thesis using sv i small by (simp add: saveable_def Let_def set_section_def names_ok_def)
qed

section \<open>Files with given sections\<close>

text \<open>A client that adds a section with name, type and data.\<close>

type_synonym named_data = "string \<times> nat \<times> string"

definition add_data_section :: "(nat \<Rightarrow> bool) \<Rightarrow> named_data \<Rightarrow> elfio \<Rightarrow> elfio res" where
  "add_data_section new_ok = (\<lambda>(name, type, data) e. rbind (sections_add new_ok name e) (\<lambda>(i, e). rbind (deref_section e i) (\<lambda>s.
     Inr (set_section i (set_data (f_need e) new_ok (Some data) (length data) (set_type (f_need e) type s)) e))))"

fun data_ok :: "named_data \<Rightarrow> bool" where
  "data_ok (name, type, data) \<longleftrightarrow> CHR 0x00 \<notin> set name \<and> type < 2 ^ 32 \<and> type \<noteq> SHT_NULL \<and> type \<noteq> SHT_NOBITS"

fun data_size :: "named_data \<Rightarrow> nat" where
  "data_size (name, type, data) = length name + 1 + length data"

definition has_data :: "bool \<Rightarrow> esection \<Rightarrow> string \<Rightarrow> named_data \<Rightarrow> bool" where
  "has_data need s bs = (\<lambda>(name, type, data). s_name s = name \<and> get_type need s = type \<and> bs = data)"

text \<open>The file after the sections \<open>us\<close>.\<close>

definition built :: "bool \<Rightarrow> elf_class \<Rightarrow> named_data list \<Rightarrow> elfio \<Rightarrow> ehdr \<Rightarrow> string list \<Rightarrow> bool" where
  "built need c us e h bss \<longleftrightarrow> saveable e c h bss \<and> f_need e = need \<and> name_str_index need h = 1 \<and> length (f_sections e) = 2 + length us \<and>
     s_name (f_sections e ! 0) = [] \<and> s_name (f_sections e ! 1) = ''.shstrtab'' \<and> get_type need (f_sections e ! 1) = SHT_STRTAB \<and> length (bss ! 1) = 11 + (\<Sum>u\<leftarrow>us. length (fst u) + 1) \<and>
     room_for need (f_sections e) = 12 + (\<Sum>u\<leftarrow>us. data_size u) \<and>
     (\<forall>k < length us. has_data need (f_sections e ! (k + 2)) (bss ! (k + 2)) (us ! k))"

lemma names_size: "(\<Sum>u\<leftarrow>us. length (fst u) + 1) \<le> (\<Sum>u\<leftarrow>us. data_size u)"
  by (rule sum_list_mono) auto

lemma add_data_built:
  assumes b: "built need c us e h bss" and mem: "memory_suffices new_ok" and u: "data_ok u"
    and small: "length us < 65000" "(\<Sum>u\<leftarrow>us @ [u]. data_size u) \<le> 2 ^ 27"
  shows "\<exists>e' bss'. add_data_section new_ok u e = Inr e' \<and> built need c (us @ [u]) e' h bss'"
proof -
  obtain name type data where n: "u = (name, type, data)" by (cases u)
  let ?ss = "f_sections e" and ?n = "length (f_sections e)"
  from b have sv: "saveable e c h bss" and need: "f_need e = need" and x: "name_str_index need h = 1" and len: "?n = 2 + length us"
    and l1: "length (bss ! 1) = 11 + (\<Sum>u\<leftarrow>us. length (fst u) + 1)" and room: "room_for need ?ss = 12 + (\<Sum>u\<leftarrow>us. data_size u)"
    by (auto simp: built_def)
  have lb: "length bss = ?n" using sv by (simp add: saveable_def Let_def)
  have sizes: "sizeof_ehdr c \<le> 64" "sizeof_shdr c \<le> 64" by (cases c; simp)+
  have "(?n + 1) * sizeof_shdr c \<le> 65003 * 64" using sizes small len by (intro mult_le_mono) simp_all
  then have tab: "(?n + 1) * sizeof_shdr c \<le> 2 ^ 23" by simp
  have total: "(\<Sum>u\<leftarrow>us. data_size u) + length name + length data < 2 ^ 27" using small(2) by (simp add: n)
  obtain t where add: "sections_add new_ok name e = Inr (?n, e\<lparr>f_sections := ?ss[1 := t] @ [new_section need c ?n name (length (bss ! 1))]\<rparr>)"
    and t: "s_name t = s_name (?ss ! 1)" "get_type need t = get_type need (?ss ! 1)"
    and r: "room_for need (?ss[1 := t] @ [new_section need c ?n name (length (bss ! 1))]) = room_for need ?ss + length name + 1"
    and sv': "saveable (e\<lparr>f_sections := ?ss[1 := t] @ [new_section need c ?n name (length (bss ! 1))]\<rparr>) c h
      (bss[1 := bss ! 1 @ name @ [CHR 0x00]] @ [[]])"
    using add_saveable [OF sv mem, of name ?n 1] u n need x len small(1) tab total sizes room l1 names_size [of us] by auto
  let ?new = "new_section need c ?n name (length (bss ! 1))"
  let ?f = "e\<lparr>f_sections := ?ss[1 := t] @ [?new]\<rparr>"
  define v where "v = set_data need new_ok (Some data) (length data) (set_type need type ?new)"
  have ty: "get_type need (set_type need type ?new) = type" using u n by (simp add: elf_access)
  have new: "new_ok (length data)" using mem total by (simp add: memory_suffices_def)
  have ok: "shdr_ok (s_class (set_type need type ?new)) (s_hdr (set_type need type ?new))"
    using shdr_ok_set(3) [of ?new need type] by simp
  have v: "v = set_size need (length data) ((set_type need type ?new)\<lparr>s_data := Some (map Some data), s_dsize := length data\<rparr>)"
    using ty u n new by (simp add: v_def set_data_def)
  have vs: "s_class v = c" "s_index v = ?n" "s_name v = name" "get_type need v = type" "get_addr_align need v = 0"
    "get_name_string_offset need v = get_name_string_offset need ?new"
    using ty by (simp_all add: v set_size_others)
  have hv: "holds need v data" unfolding v_def using u n ty ok new total by (intro holds_set_data) simp_all
  have in_v: "in_file need v" using vs(4) u n by (simp add: in_file_def)
  have room': "room_for need ((f_sections ?f)[?n := v]) = room_for need ?ss + length name + 1 + length data"
  proof -
    have "room need v = length data" using hv in_v by (simp add: room_def holds_def)
    then show ?thesis using room_for_update [of ?n "f_sections ?f" need v "length data"] vs(5) r by (simp add: nth_append)
  qed
  have "saveable (set_section ?n v ?f) c h ((bss[1 := bss ! 1 @ name @ [CHR 0x00]] @ [[]])[?n := data])"
  proof (rule replace_saveable [OF sv'])
    show "sizeof_ehdr c + room_for (f_need ?f) ((f_sections ?f)[?n := v]) + 4 + length (f_sections ?f) * sizeof_shdr c < 2 ^ 31"
      using room' room total tab sizes by (simp add: need)
  qed (use vs len x need holds_content [OF hv in_v] in \<open>simp_all add: nth_append\<close>)
  moreover have "add_data_section new_ok u e = Inr (set_section ?n v ?f)"
    using add by (simp add: add_data_section_def n deref_section_def section_at_def nth_append v_def need)
  moreover have "has_data need ((f_sections (set_section ?n v ?f)) ! (k + 2)) (((bss[1 := bss ! 1 @ name @ [CHR 0x00]] @ [[]])[?n := data]) ! (k + 2)) ((us @ [u]) ! k)"
    if "k < length (us @ [u])" for k
  proof (cases "k = length us")
    case True
    then show ?thesis using vs len lb n by (simp add: has_data_def set_section_def nth_append list_update_append)
  next
    case False
    then have "k < length us" using that by simp
    then show ?thesis using b len lb by (simp add: built_def set_section_def nth_append list_update_append)
  qed
  moreover have "has_data need v data (name, type, data)" using vs by (simp add: has_data_def)
  ultimately show ?thesis using b room' t len lb need x l1
    by (auto simp: built_def n set_section_def nth_append list_update_append room
        intro!: exI [of _ "(bss[1 := bss ! 1 @ name @ [CHR 0x00]] @ [[]])[?n := data]"])
qed

lemma all_built:
  assumes enc: "enc < 256" and mem: "memory_suffices new_ok" and us: "\<forall>u \<in> set us. data_ok u"
    and small: "length us \<le> 65000" "(\<Sum>u\<leftarrow>us. data_size u) \<le> 2 ^ 27"
  shows "\<exists>e h bss. rbind (elf_create new_ok (class_byte c) enc e0) (for_each (add_data_section new_ok) us) = Inr e \<and>
    built (conv_setup enc) c us e h bss"
proof -
  obtain e h where e: "elf_create new_ok (class_byte c) enc e0 = Inr e"
    and b: "built (conv_setup enc) c [] e h [[], [CHR 0x00] @ ''.shstrtab'' @ [CHR 0x00]]"
    using create_saveable [OF enc mem, of c e0] by (auto simp: built_def)
  have "\<exists>e'. for_each (add_data_section new_ok) us e = Inr e' \<and> (\<exists>h bss. built (conv_setup enc) c us e' h bss)"
  proof (rule for_each_rule)
    fix xs u ys e assume split: "us = xs @ u # ys" and "\<exists>h bss. built (conv_setup enc) c xs e h bss"
    then obtain h bss where "built (conv_setup enc) c xs e h bss" by blast
    moreover have "length xs < 65000" "(\<Sum>u\<leftarrow>xs @ [u]. data_size u) \<le> 2 ^ 27" using small by (simp_all add: split)
    ultimately show "\<exists>e'. add_data_section new_ok u e = Inr e' \<and> (\<exists>h bss. built (conv_setup enc) c (xs @ [u]) e' h bss)"
      using add_data_built [OF _ mem, of "conv_setup enc" c xs e h bss u] us split by auto
  qed (use b in blast)
  with e show ?thesis by auto
qed

lemma find_nth: "i < length xs \<Longrightarrow> P (xs ! i) \<Longrightarrow> \<forall>j < i. \<not> P (xs ! j) \<Longrightarrow> find P xs = Some (xs ! i)"
  by (auto simp: find_Some_iff)

text \<open>
  C39: a file that is created, filled with sections of given names, types and data, saved and loaded again
  has, under each of the names, a section of that type with exactly those data, in either class and
  byte order.
\<close>

theorem elf_build_roundtrip:
  assumes "enc < 256" "memory_suffices new_ok" "\<forall>u \<in> set us. data_ok u" "length us \<le> 65000" "(\<Sum>u\<leftarrow>us. data_size u) \<le> 2 ^ 27"
    and names: "distinct (map fst us)" "[] \<notin> fst ` set us" "''.shstrtab'' \<notin> fst ` set us"
  shows "\<exists>e e1 bytes e2. rbind (elf_create new_ok (class_byte c) enc e0) (for_each (add_data_section new_ok) us) = Inr e \<and>
    elf_save e = Some (Inr (True, e1, bytes)) \<and>
    elf_load_stream new_ok \<lparr>is_bytes = bytes, is_pos = 0, is_fail = False\<rparr> e3 = Inr (True, e2) \<and>
    (\<forall>(name, type, data) \<in> set us. \<exists>t. section_named e2 name = Some t \<and> get_type (conv_setup enc) t = type \<and>
       holds (conv_setup enc) t data)"
proof -
  let ?need = "conv_setup enc"
  obtain e h bss where e: "rbind (elf_create new_ok (class_byte c) enc e0) (for_each (add_data_section new_ok) us) = Inr e"
    and b: "built ?need c us e h bss" using all_built [OF assms(1-5), of c e0] by blast
  then have sv: "saveable e c h bss" and need: "f_need e = ?need" and len: "length (f_sections e) = 2 + length us" by (auto simp: built_def)
  obtain e1 bytes e2 where s: "elf_save e = Some (Inr (True, e1, bytes))"
    "elf_load_stream new_ok \<lparr>is_bytes = bytes, is_pos = 0, is_fail = False\<rparr> e3 = Inr (True, e2)"
    "length (f_sections e2) = length (f_sections e)"
    "\<forall>i < length (f_sections e). reads_as ?need (f_sections e ! i) (bss ! i) (f_sections e2 ! i)"
    using elf_save_load [OF sv assms(2), of e3] unfolding need by blast
  have name: "s_name (f_sections e2 ! i) = ([] # ''.shstrtab'' # map fst us) ! i" if "i < 2 + length us" for i
  proof -
    have "s_name (f_sections e ! i) = ([] # ''.shstrtab'' # map fst us) ! i"
    proof (cases "i < 2")
      case True
      then show ?thesis using b by (cases i) (auto simp: built_def)
    next
      case False
      then obtain k where k: "i = k + 2" by (metis le_add_diff_inverse2 not_le)
      then have "has_data ?need (f_sections e ! (k + 2)) (bss ! (k + 2)) (us ! k)" using b that by (simp add: built_def)
      then show ?thesis using k that by (cases "us ! k") (auto simp: has_data_def)
    qed
    then show ?thesis using s(4) that len by (auto simp: reads_as_def)
  qed
  have dist: "distinct ([] # ''.shstrtab'' # map fst us)" using names by auto
  have "\<exists>t. section_named e2 name = Some t \<and> get_type ?need t = type \<and> holds ?need t data" if u: "(name, type, data) \<in> set us" for name type data
  proof -
    obtain k where k: "k < length us" "us ! k = (name, type, data)" using u by (auto simp: in_set_conv_nth)
    let ?i = "k + 2" and ?t = "f_sections e2 ! (k + 2)"
    have i: "?i < length (f_sections e)" using k len by simp
    have at: "s_name ?t = name" using name [of ?i] k by simp
    have "s_name (f_sections e2 ! j) \<noteq> name" if "j < ?i" for j
      using name [of j] name [of ?i] that k at nth_eq_iff_index_eq [OF dist, of j ?i] by simp
    then have found: "section_named e2 name = Some ?t"
      unfolding section_named_def using i s(3) at by (intro find_nth) auto
    have d: "has_data ?need (f_sections e ! ?i) (bss ! ?i) (name, type, data)" using b k by (auto simp: built_def)
    have r: "reads_as ?need (f_sections e ! ?i) (bss ! ?i) ?t" using s(4) i by blast
    then have ty: "get_type ?need ?t = type" using d by (auto simp: reads_as_def has_data_def get_type_def)
    then have "in_file ?need ?t" using assms(3) u by (fastforce simp: in_file_def)
    then have "holds ?need ?t data" using r d by (auto simp: reads_as_def content_def has_data_def)
    with found ty show ?thesis by blast
  qed
  with e s(1,2) show ?thesis by blast
qed

definition no_file :: elfio where
  "no_file = \<lparr>f_header = None, f_sections = [], f_segments = [], f_need = False, f_pos = 0\<rparr>"

theorem elf_build_roundtrip_witness:
  "\<exists>e e1 bytes e2. rbind (elf_create (\<lambda>_. True) 2 2 no_file) (for_each (add_data_section (\<lambda>_. True)) [(''.text'', 1, ''code''), (''.data'', 1, [])]) = Inr e \<and>
    elf_save e = Some (Inr (True, e1, bytes)) \<and>
    elf_load_stream (\<lambda>_. True) \<lparr>is_bytes = bytes, is_pos = 0, is_fail = False\<rparr> no_file = Inr (True, e2) \<and>
    (\<exists>t. section_named e2 ''.text'' = Some t \<and> get_type True t = 1 \<and> holds True t ''code'')"
  using elf_build_roundtrip [of 2 "\<lambda>_. True" "[(''.text'', 1, ''code''), (''.data'', 1, [])]" ELFCLASS64 no_file no_file]
  by (simp add: memory_suffices_def SHT_NULL_def SHT_NOBITS_def conv_setup_def ELFDATA2LSB_def) blast

end
