(* ===== verification/ElfReader.thy ===== *)
theory ElfReader
  imports ElfBuild KernNames
begin

text \<open>
  The reader of \<open>ProgInfo.h\<close> on the model of the ELF library: what \<open>KernelSectionParser\<close> and
  \<open>KernelPtrToNameLookup\<close> take from a file is read from its bytes. So the table of kernel names is
  traced back to the file of the program.
\<close>

section \<open>The reader\<close>

definition empty_symbol :: sym_ref where
  "empty_symbol = \<lparr>y_name = [], y_value = 0, y_size = 0, y_bind = 0, y_type = 0, y_shndx = 0, y_other = 0\<rparr>"

definition read_symbol :: "elfio \<Rightarrow> nat \<Rightarrow> nat \<Rightarrow> sym_ref res" where
  "read_symbol e si idx = rbind (get_symbols_num e si) (\<lambda>n. rbind (check (idx < n) ''idx < section.get_symbols_num()'') (\<lambda>_.
     rbind (get_symbol e si idx empty_symbol) (\<lambda>(_, r). Inr r)))"

definition as_symbol :: "sym_ref \<Rightarrow> elf_symbol" where
  "as_symbol r = \<lparr>sym_name = y_name r, sym_value = y_value r, sym_type = y_type r, sym_sect_idx = y_shndx r\<rparr>"

definition collect :: "(nat \<Rightarrow> 'a res) \<Rightarrow> nat \<Rightarrow> 'a list res" where
  "collect f n = for_each (\<lambda>i xs. rbind (f i) (\<lambda>x. Inr (xs @ [x]))) [0..<n] []"

definition read_symbols :: "elfio \<Rightarrow> nat \<Rightarrow> elf_symbol list res" where
  "read_symbols e si = rbind (get_symbols_num e si) (collect (\<lambda>i. rbind (read_symbol e si i) (\<lambda>r. Inr (as_symbol r))))"

text \<open>\<open>base i\<close> is the address of the data of section \<open>i\<close>.\<close>

definition section_of :: "(nat \<Rightarrow> nat) \<Rightarrow> elfio \<Rightarrow> nat \<Rightarrow> elf_section res" where
  "section_of base e i = rbind (deref_section e i) (\<lambda>s. let need = f_need e in
     rbind (if get_type need s = SHT_SYMTAB then read_symbols e i else Inr []) (\<lambda>symbols.
     rbind (if s_data s = None then Inr [] else rd_buf (s_data s) 0 (get_size need s)) (\<lambda>bytes.
     Inr \<lparr>es_name = s_name s, es_type = get_type need s, es_index = s_index s,
       es_data = \<lparr>sec_base = base i, sec_bytes = bytes\<rparr>, es_symbols = symbols\<rparr>)))"

text \<open>A file that cannot be read gives no sections.\<close>

definition elfio_loader :: "(string \<Rightarrow> string option) \<Rightarrow> (nat \<Rightarrow> bool) \<Rightarrow> (nat \<Rightarrow> nat) \<Rightarrow> elf_loader" where
  "elfio_loader fs new_ok base path = (case elf_load fs new_ok path no_file of
     Inr (True, e) \<Rightarrow> (case collect (section_of base e) (length (f_sections e)) of Inr sections \<Rightarrow> Some sections | Inl _ \<Rightarrow> None)
   | _ \<Rightarrow> None)"

section \<open>Reading what was saved\<close>

lemma collect_all: "(\<And>i. i < n \<Longrightarrow> f i = Inr (g i)) \<Longrightarrow> collect f n = Inr (map g [0..<n])"
proof -
  assume f: "\<And>i. i < n \<Longrightarrow> f i = Inr (g i)"
  have "for_each (\<lambda>i xs. rbind (f i) (\<lambda>x. Inr (xs @ [x]))) [0..<k] [] = Inr (map g [0..<k])" if "k \<le> n" for k
    using that by (induction k) (simp_all add: for_each_append f)
  then show ?thesis by (simp add: collect_def)
qed

lemma holds_unique: "holds need s bs \<Longrightarrow> holds need s cs \<Longrightarrow> bs = cs"
  by (auto simp: holds_def inj_map_eq_map split: option.splits)

lemma reads_as_get:
  assumes "reads_as need s bs t"
  shows "get_type need t = get_type need s" "get_link need t = get_link need s" "get_entry_size need t = get_entry_size need s"
    "s_name t = s_name s" "s_index t = s_index s" "in_file need s \<Longrightarrow> holds need t bs" "\<not> in_file need s \<Longrightarrow> s_data t = None"
proof -
  from assms obtain p where h: "s_hdr t = (s_hdr s)\<lparr>sh_offset := p\<rparr>" "s_class t = s_class s" by (auto simp: reads_as_def)
  show g: "get_type need t = get_type need s" "get_link need t = get_link need s" "get_entry_size need t = get_entry_size need s"
    by (simp_all add: section_getters h)
  show "s_name t = s_name s" "s_index t = s_index s" "\<not> in_file need s \<Longrightarrow> s_data t = None" using assms by (simp_all add: reads_as_def)
  have "in_file need t = in_file need s" by (simp add: in_file_def g)
  then show "in_file need s \<Longrightarrow> holds need t bs" using assms by (simp add: reads_as_def content_def)
qed

lemma in_file_symtab: "get_type need s = SHT_SYMTAB \<Longrightarrow> in_file need s"
  by (simp add: in_file_def SHT_SYMTAB_def SHT_NULL_def SHT_NOBITS_def)

text \<open>A table of symbols survives.\<close>

lemma sym_file_reloaded:
  assumes e: "saveable e c h bss" and f: "sym_file e c si sti ys sbs" and in_f: "in_file (f_need e) (f_sections e ! si)" "in_file (f_need e) (f_sections e ! sti)"
    and e2: "f_need e2 = f_need e" "f_header e2 = Some (c, h2)" "header_ok (f_need e) c h2" "length (f_sections e2) = length (f_sections e)"
      "\<forall>i < length (f_sections e). reads_as (f_need e) (f_sections e ! i) (bss ! i) (f_sections e2 ! i)"
  shows "sym_file e2 c si sti ys sbs"
proof -
  let ?need = "f_need e"
  from f have i: "si < length (f_sections e)" "sti < length (f_sections e)" by (auto simp: sym_file_def)
  from f have fh: "holds ?need (f_sections e ! si) (symtab.tab c ?need ys)" "holds ?need (f_sections e ! sti) sbs" by (auto simp: sym_file_def)
  have hb: "holds ?need (f_sections e ! i) (bss ! i)" if "i < length (f_sections e)" "in_file ?need (f_sections e ! i)" for i
    using e that by (simp add: saveable_def Let_def content_def)
  have "bss ! si = symtab.tab c ?need ys" "bss ! sti = sbs"
    using holds_unique [OF hb fh(1)] holds_unique [OF hb fh(2)] i in_f by blast+
  moreover have "file_class e2 = Inr c" using e2(2,3) by (cases c) (auto simp: file_class_def get_class_def the_header_def header_ok_def)
  ultimately show ?thesis
    using f i in_f e2(1,4) e2(5) [rule_format, OF i(1)] e2(5) [rule_format, OF i(2)] reads_as_get(2,3,6) by (auto simp: sym_file_def)
qed

lemma read_symbols_all:
  assumes f: "sym_file e c si sti ys sbs" and names: "\<forall>y \<in> set ys. string_at sbs (st_name y) (nm y)"
  shows "read_symbols e si = Inr (map (\<lambda>y. as_symbol (sym_refers y (nm y))) ys)"
proof -
  have n: "get_symbols_num e si = Inr (length ys)"
    using f symtab.num_entries [of "f_need e" "f_sections e ! si" c "f_need e" ys] by (simp add: get_symbols_num_def sym_file_def sizeof_sym_def)
  have "rbind (read_symbol e si i) (\<lambda>r. Inr (as_symbol r)) = Inr (as_symbol (sym_refers (ys ! i) (nm (ys ! i))))" if "i < length ys" for i
    using get_symbol_found [OF f that, of "nm (ys ! i)" empty_symbol] names that n by (simp add: read_symbol_def check_def)
  then have "read_symbols e si = Inr (map (\<lambda>i. as_symbol (sym_refers (ys ! i) (nm (ys ! i)))) [0..<length ys])"
    by (simp add: read_symbols_def n collect_all)
  moreover have "map (\<lambda>i. g (ys ! i)) [0..<length ys] = map g ys" for g :: "sym \<Rightarrow> elf_symbol"
    by (rule nth_equalityI) simp_all
  ultimately show ?thesis by simp
qed

text \<open>The symbols of the stubs of kernels in the section \<open>ti\<close>.\<close>

definition stub_syms :: "nat \<Rightarrow> (sym \<Rightarrow> string) \<Rightarrow> sym list \<Rightarrow> sym list" where
  "stub_syms ti nm ys = filter (\<lambda>y. ELF_ST_TYPE (st_info y) = STT_FUNC \<and> st_shndx y = ti \<and> isStubFunction (nm y)) ys"

text \<open>A file with one table of symbols, and with a section \<open>.text\<close>.\<close>

definition kernel_file :: "elfio \<Rightarrow> elf_class \<Rightarrow> nat \<Rightarrow> nat \<Rightarrow> nat \<Rightarrow> sym list \<Rightarrow> (sym \<Rightarrow> string) \<Rightarrow> bool" where
  "kernel_file e c si sti ti ys nm \<longleftrightarrow> (\<exists>sbs. sym_file e c si sti ys sbs \<and> (\<forall>y \<in> set ys. string_at sbs (st_name y) (nm y))) \<and>
     in_file (f_need e) (f_sections e ! sti) \<and>
     (\<forall>i < length (f_sections e). get_type (f_need e) (f_sections e ! i) = SHT_SYMTAB \<longleftrightarrow> i = si) \<and>
     ti < length (f_sections e) \<and> s_name (f_sections e ! ti) = ''.text'' \<and> (\<forall>j < ti. s_name (f_sections e ! j) \<noteq> ''.text'')"

lemma loader_reads:
  assumes e: "saveable e c h bss" "elf_save e = Some (Inr (True, e1, bytes))" and mem: "memory_suffices new_ok" and fs: "fs path = Some bytes"
    and k: "kernel_file e c si sti ti ys nm"
  shows "\<exists>sections it code. elfio_loader fs new_ok base path = Some sections \<and>
    find_section_if sections (\<lambda>x. es_type x = SHT_SYMTAB) = Some it \<and> find_section_if sections (\<lambda>x. es_name x = ''.text'') = Some code \<and>
    es_symbols it = map (\<lambda>y. as_symbol (sym_refers y (nm y))) ys \<and> es_index code = ti"
proof -
  let ?need = "f_need e" and ?n = "length (f_sections e)"
  obtain e2 h2 where l: "elf_load_stream new_ok \<lparr>is_bytes = bytes, is_pos = 0, is_fail = False\<rparr> no_file = Inr (True, e2)"
    and e2: "f_need e2 = ?need" "f_header e2 = Some (c, h2)" "header_ok ?need c h2" "length (f_sections e2) = ?n"
      "\<forall>i < ?n. reads_as ?need (f_sections e ! i) (bss ! i) (f_sections e2 ! i)"
    using elf_save_load [OF e(1) mem, of no_file] e(2) by auto
  obtain sbs where f: "sym_file e c si sti ys sbs" "\<forall>y \<in> set ys. string_at sbs (st_name y) (nm y)" using k by (auto simp: kernel_file_def)
  have si: "si < ?n" "get_type ?need (f_sections e ! si) = SHT_SYMTAB" and ti: "ti < ?n"
    using k f(1) by (auto simp: kernel_file_def sym_file_def)
  have f2: "sym_file e2 c si sti ys sbs"
    using k by (intro sym_file_reloaded [OF e(1) f(1) in_file_symtab [OF si(2)] _ e2]) (simp add: kernel_file_def)
  define R where "R i = (let s = f_sections e ! i; t = f_sections e2 ! i in \<lparr>es_name = s_name s, es_type = get_type ?need s, es_index = s_index s,
    es_data = \<lparr>sec_base = base i, sec_bytes = (if s_data t = None then [] else bss ! i)\<rparr>,
    es_symbols = (if i = si then map (\<lambda>y. as_symbol (sym_refers y (nm y))) ys else [])\<rparr>)" for i
  have "section_of base e2 i = Inr (R i)" if i: "i < ?n" for i
  proof -
    let ?t = "f_sections e2 ! i"
    have r: "reads_as ?need (f_sections e ! i) (bss ! i) ?t" using e2(5) i by blast
    have "(if s_data ?t = None then Inr [] else rd_buf (s_data ?t) 0 (get_size ?need ?t)) = Inr (if s_data ?t = None then [] else bss ! i)"
    proof (cases "in_file ?need (f_sections e ! i)")
      case True
      from rd_buf_holds [OF reads_as_get(6) [OF r True], of 0 "length (bss ! i)"] reads_as_get(6) [OF r True]
      show ?thesis by (simp add: holds_def)
    qed (simp add: reads_as_get(7) [OF r])
    moreover have "(get_type ?need ?t = SHT_SYMTAB) = (i = si)" using k i reads_as_get(1) [OF r] by (simp add: kernel_file_def)
    ultimately show ?thesis using i e2(1,4) read_symbols_all [OF f2 f(2)] reads_as_get(1,4,5) [OF r]
      by (simp add: section_of_def R_def Let_def)
  qed
  then have all: "collect (section_of base e2) (length (f_sections e2)) = Inr (map R [0..<?n])" unfolding e2(4) by (rule collect_all)
  then have load: "elfio_loader fs new_ok base path = Some (map R [0..<?n])" by (simp add: elfio_loader_def elf_load_def fs l)
  have "find_section_if (map R [0..<?n]) (\<lambda>x. es_type x = SHT_SYMTAB) = Some (map R [0..<?n] ! si)"
    unfolding find_section_if_def using k si by (intro find_nth) (auto simp: R_def Let_def kernel_file_def)
  moreover have "find_section_if (map R [0..<?n]) (\<lambda>x. es_name x = ''.text'') = Some (map R [0..<?n] ! ti)"
    unfolding find_section_if_def using k ti by (intro find_nth) (auto simp: R_def Let_def kernel_file_def)
  moreover have "s_index (f_sections e ! ti) = ti" using e(1) ti by (simp add: saveable_def Let_def)
  ultimately show ?thesis using load si ti by (auto simp: R_def Let_def)
qed

section \<open>Kernels of a file\<close>

text \<open>
  C40: when a file with a table of symbols and a section of code has been saved, the table of kernel
  names that \<open>ProgInfo.h\<close> makes from the bytes of the file gives, for the address at which the stub of
  a kernel is loaded, the name of the kernel, provided that every stub is the one the compiler makes for a
  kernel whose scope does not end with a digit. For other kernels the table may hold a wrong name
  (theory \<open>KernNames\<close>).
\<close>

theorem kernels_found_in_file:
  assumes "saveable e c h bss" "elf_save e = Some (Inr (True, e1, bytes))" "memory_suffices new_ok" "fs (elf_path info) = Some bytes"
    and "kernel_file e c si sti ti ys nm" "distinct (map (\<lambda>y. ptr_add (st_value y) (dlpi_addr info)) (stub_syms ti nm ys))"
    and stubs: "\<And>y. y \<in> set (stub_syms ti nm ys) \<Longrightarrow> nm y = stub_name (sc (nm y)) (kn (nm y)) (sg (nm y)) \<and>
      \<not> occurs KERNEL_STUB_FUNC_PREFIX (sc (nm y)) \<and> (sc (nm y) = [] \<or> \<not> is_digit (last (sc (nm y)))) \<and>
      0 < length (kn (nm y)) \<and> 15 + length (kn (nm y)) < 2 ^ 31"
  shows "\<exists>m. lookup_init (elfio_loader fs new_ok base) [info] = Inr m \<and>
    (\<forall>y \<in> set (stub_syms ti nm ys). lookup_name m (ptr_add (st_value y) (dlpi_addr info)) = Inr (mangled (sc (nm y)) (kn (nm y)) (sg (nm y))))"
proof -
  let ?conv = "\<lambda>n. mangled (sc n) (kn n) (sg n)" and ?load = "elfio_loader fs new_ok base"
  obtain sections it code where r: "?load (elf_path info) = Some sections"
    "find_section_if sections (\<lambda>x. es_type x = SHT_SYMTAB) = Some it" "find_section_if sections (\<lambda>x. es_name x = ''.text'') = Some code"
    "es_symbols it = map (\<lambda>y. as_symbol (sym_refers y (nm y))) ys" "es_index code = ti"
    using loader_reads [where fs = fs and path = "elf_path info" and base = base, OF assms(1-5)] by blast
  have st: "loaded_stubs ?load info = map (\<lambda>y. (ptr_add (st_value y) (dlpi_addr info), nm y)) (stub_syms ti nm ys)"
    by (simp add: loaded_stubs_def r stubs_def stub_syms_def filter_map comp_def as_symbol_def sym_refers_def)
  have "convStubToKernelName n = Inr (?conv n)" if "(a, n) \<in> set (loaded_stubs ?load info)" for a n
    using that stubs convStub_eq [of "sc n" "[]" "kn n" "sg n"] by (auto simp: st dec_val_dec mangled_def dec_val_Nil)
  then obtain m where m: "lookup_init ?load [info] = Inr m" "map_of m = map_of (map (\<lambda>(a, n). (a, ?conv n)) (loaded_stubs ?load info))"
    using lookup_init_eq [of "[info]" ?load ?conv] by auto
  have "map_of m (ptr_add (st_value y) (dlpi_addr info)) = Some (?conv (nm y))" if "y \<in> set (stub_syms ti nm ys)" for y
    unfolding m(2) using that assms(6) by (intro map_of_is_SomeI) (auto simp: st comp_def intro!: image_eqI [of _ _ y])
  with m(1) show ?thesis by (auto simp: lookup_name_def hasEntry_def check_def)
qed

text \<open>A file with the stub of one kernel.\<close>

definition STUB :: string where "STUB = ''_Z19__device_stub__axpyPi''"

definition stub_sym :: sym where
  "stub_sym = \<lparr>st_name = 1, st_value = 64, st_size = 8, st_info = STT_FUNC, st_other = 0, st_shndx = 2\<rparr>"

definition stub_strings :: string where "stub_strings = [CHR 0x00] @ STUB @ [CHR 0x00]"

definition stub_table :: string where "stub_table = symtab.tab ELFCLASS64 False [zero_sym, stub_sym]"

lemma axpy_stub: "STUB = stub_name ''_Z'' ''axpy'' ''Pi''" "isStubFunction STUB" "mangled ''_Z'' ''axpy'' ''Pi'' = ''_Z4axpyPi''"
  "\<not> occurs KERNEL_STUB_FUNC_PREFIX ''_Z''" "\<not> isStubFunction []"
proof -
  have "char_of (49 :: nat) = CHR ''1''" "char_of (57 :: nat) = CHR ''9''" "char_of (52 :: nat) = CHR ''4''" by (simp_all add: char_of_eq_iff)
  then show "STUB = stub_name ''_Z'' ''axpy'' ''Pi''" "mangled ''_Z'' ''axpy'' ''Pi'' = ''_Z4axpyPi''"
    by (simp_all add: STUB_def stub_name_def mangled_def KERNEL_STUB_FUNC_PREFIX_def dec.simps)
  show "isStubFunction STUB" by (simp add: STUB_def isStubFunction_def KERNEL_STUB_FUNC_PREFIX_def occurs_Cons)
  show "\<not> occurs KERNEL_STUB_FUNC_PREFIX ''_Z''"
    by (simp add: KERNEL_STUB_FUNC_PREFIX_def occurs_Cons) (simp add: occurs_def split_sub.simps)
  show "\<not> isStubFunction []" by (simp add: isStubFunction_def KERNEL_STUB_FUNC_PREFIX_def occurs_def split_sub.simps)
qed

lemma stub_file: "\<exists>e h bss. saveable e ELFCLASS64 h bss \<and>
    kernel_file e ELFCLASS64 4 3 2 [zero_sym, stub_sym] (\<lambda>y. if st_name y = 1 then STUB else [])"
proof -
  let ?us = "[(''.text'', 1, ''code''), (''.strtab'', SHT_STRTAB, stub_strings), (''.symtab'', SHT_SYMTAB, stub_table)]"
  have ok: "\<forall>y \<in> set [zero_sym, stub_sym]. sym_ok ELFCLASS64 y" by (simp add: sym_ok_def zero_sym_def stub_sym_def STT_FUNC_def)
  have sz: "sum_list (sym_widths ELFCLASS64) = 24" "sizeof_sym ELFCLASS64 = 24" by (simp_all add: sizeof_sym_def)
  have len: "length stub_table = 48" using symtab.length_tab [OF ok, of False] by (simp add: stub_table_def sz del: sym_widths.simps)
  have mem: "memory_suffices (\<lambda>_. True)" by (simp add: memory_suffices_def)
  have "(\<Sum>u\<leftarrow>?us. data_size u) \<le> 2 ^ 27" by (simp add: len stub_strings_def STUB_def)
  moreover have "\<forall>u \<in> set ?us. data_ok u" by (simp add: SHT_NULL_def SHT_NOBITS_def SHT_STRTAB_def SHT_SYMTAB_def)
  ultimately obtain e h bss where b: "built False ELFCLASS64 ?us e h bss"
    using all_built [of ELFDATA2LSB "\<lambda>_. True" ?us ELFCLASS64 no_file] mem by (auto simp: conv_setup_def ELFDATA2LSB_def)
  let ?ss = "f_sections e"
  from b have sv: "saveable e ELFCLASS64 h bss" and need: "f_need e = False" and n: "length ?ss = 5" and x: "name_str_index False h = 1"
    and room: "room_for False ?ss = 12 + (\<Sum>u\<leftarrow>?us. data_size u)"
    and d: "\<forall>k < 3. has_data False (?ss ! (k + 2)) (bss ! (k + 2)) (?us ! k)" by (auto simp: built_def)
  have d2: "s_name (?ss ! 2) = ''.text''" "get_type False (?ss ! 2) = 1" using d [rule_format, of 0] by (simp_all add: has_data_def numeral_2_eq_2)
  have d3: "get_type False (?ss ! 3) = SHT_STRTAB" "bss ! 3 = stub_strings" using d [rule_format, of 1] by (simp_all add: has_data_def numeral_3_eq_3)
  have d4: "get_type False (?ss ! 4) = SHT_SYMTAB" "bss ! 4 = stub_table" using d [rule_format, of 2] by (simp_all add: has_data_def)
  have d1: "get_type False (?ss ! 1) = SHT_STRTAB" "s_name (?ss ! 0) = []" "s_name (?ss ! 1) = ''.shstrtab''" using b by (auto simp: built_def)
  have "\<not> in_file False (?ss ! 0)" using sv by (simp add: saveable_def Let_def need)
  then have d0: "get_type False (?ss ! 0) \<noteq> SHT_SYMTAB" using in_file_symtab by blast
  define s where "s = set_link False 3 (set_entry_size False 24 (?ss ! 4))"
  have c: "s_class (?ss ! i) = ELFCLASS64 \<and> s_index (?ss ! i) = i \<and> content False (?ss ! i) (bss ! i)" if "i < 5" for i
    using sv that n by (simp add: saveable_def Let_def need)
  have h4: "holds False (?ss ! 4) stub_table" using c [of 4] in_file_symtab [OF d4(1)] d4(2) by (simp add: content_def)
  have h3: "holds False (?ss ! 3) stub_strings"
    using c [of 3] d3 by (simp add: content_def in_file_def SHT_STRTAB_def SHT_NULL_def SHT_NOBITS_def)
  have s: "s_class s = ELFCLASS64" "s_index s = 4" "s_name s = s_name (?ss ! 4)" "get_type False s = SHT_SYMTAB"
    "get_name_string_offset False s = get_name_string_offset False (?ss ! 4)" "get_addr_align False s = get_addr_align False (?ss ! 4)"
    "get_link False s = 3" "get_entry_size False s = 24" "holds False s stub_table"
    using c [of 4] d4(1) holds_set(1) [OF holds_set(2) [OF h4], of 3 24]
    by (simp_all add: s_def) (simp_all add: section_getters section_setters conv_def store_def)
  have "room False s = room False (?ss ! 4)" using s(9) h4 in_file_symtab [OF s(4)] in_file_symtab [OF d4(1)] by (simp add: room_def holds_def)
  then have "room_for False (?ss[4 := s]) = room_for False ?ss" using room_for_update [of 4 ?ss False s 0] n s(6) by simp
  then have "saveable (set_section 4 s e) ELFCLASS64 h (bss[4 := stub_table])"
    using n room len s holds_content [OF s(9) in_file_symtab [OF s(4)]]
    by (intro replace_saveable [OF sv]) (simp_all add: need x stub_strings_def STUB_def)
  moreover have "sym_file (set_section 4 s e) ELFCLASS64 4 3 [zero_sym, stub_sym] stub_strings"
  proof -
    have "file_class e = Inr ELFCLASS64" using sv by (auto simp: file_class_def get_class_def the_header_def saveable_def header_ok_def Let_def)
    then show ?thesis using n s h3 ok by (simp add: sym_file_def need stub_table_def [symmetric] sz del: sym_widths.simps sym_fields.simps)
  qed
  moreover have "string_at stub_strings 1 STUB" "string_at stub_strings 0 []"
    unfolding stub_strings_def by (auto simp: string_at_def STUB_def intro: exI [of _ "[CHR 0x00]"])
  moreover have "(get_type False (?ss[4 := s] ! i) = SHT_SYMTAB) = (i = 4)" if i: "i < 5" for i
  proof -
    consider "i = 0" | "i = 1" | "i = 2" | "i = 3" | "i = 4" using i by linarith
    then show ?thesis using d0 d1 d2 d3 s(4) n by cases (auto simp: SHT_SYMTAB_def SHT_STRTAB_def)
  qed
  moreover have "in_file False (?ss ! 3)" using d3 by (simp add: in_file_def SHT_STRTAB_def SHT_NULL_def SHT_NOBITS_def)
  moreover have "\<forall>j < 2. s_name (?ss ! j) \<noteq> ''.text''" using d1 by (auto simp: less_2_cases_iff)
  ultimately have "kernel_file (set_section 4 s e) ELFCLASS64 4 3 2 [zero_sym, stub_sym] (\<lambda>y. if st_name y = 1 then STUB else [])"
    using n d2 unfolding kernel_file_def by (auto simp: need zero_sym_def stub_sym_def intro!: exI [of _ stub_strings])
  with \<open>saveable (set_section 4 s e) ELFCLASS64 h (bss[4 := stub_table])\<close> show ?thesis by blast
qed

theorem kernels_found_in_file_witness:
  "\<exists>e e1 bytes m. elf_save e = Some (Inr (True, e1, bytes)) \<and>
    lookup_init (elfio_loader (\<lambda>path. if path = PROC_SELF then Some bytes else None) (\<lambda>_. True) (\<lambda>_. 0)) [\<lparr>dlpi_addr = 4096, dlpi_name = []\<rparr>] = Inr m \<and>
    lookup_name m 4160 = Inr ''_Z4axpyPi''"
proof -
  let ?nm = "\<lambda>y. if st_name y = 1 then STUB else []" and ?info = "\<lparr>dlpi_addr = 4096, dlpi_name = []\<rparr>"
  obtain e h bss where e: "saveable e ELFCLASS64 h bss" "kernel_file e ELFCLASS64 4 3 2 [zero_sym, stub_sym] ?nm" using stub_file by blast
  have mem: "memory_suffices (\<lambda>_. True)" by (simp add: memory_suffices_def)
  obtain e1 bytes where s: "elf_save e = Some (Inr (True, e1, bytes))" using elf_save_load [OF e(1) mem, of no_file] by blast
  let ?fs = "\<lambda>path. if path = PROC_SELF then Some bytes else None"
  have st: "stub_syms 2 ?nm [zero_sym, stub_sym] = [stub_sym]"
    by (simp add: stub_syms_def zero_sym_def stub_sym_def axpy_stub(2,5) STT_FUNC_def ELF_ST_TYPE_def)
  have "\<exists>m. lookup_init (elfio_loader ?fs (\<lambda>_. True) (\<lambda>_. 0)) [?info] = Inr m \<and>
    (\<forall>y \<in> set (stub_syms 2 ?nm [zero_sym, stub_sym]). lookup_name m (ptr_add (st_value y) (dlpi_addr ?info)) =
       Inr (mangled ''_Z'' ''axpy'' ''Pi''))"
  proof (rule kernels_found_in_file [OF e(1) s mem _ e(2)])
    show "?fs (elf_path ?info) = Some bytes" by (simp add: elf_path_def)
    show "distinct (map (\<lambda>y. ptr_add (st_value y) (dlpi_addr ?info)) (stub_syms 2 ?nm [zero_sym, stub_sym]))" unfolding st by simp
  next
    fix y assume "y \<in> set (stub_syms 2 ?nm [zero_sym, stub_sym])"
    then show "?nm y = stub_name ''_Z'' ''axpy'' ''Pi'' \<and> \<not> occurs KERNEL_STUB_FUNC_PREFIX ''_Z'' \<and>
        (''_Z'' = [] \<or> \<not> is_digit (last ''_Z'')) \<and> 0 < length ''axpy'' \<and> 15 + length ''axpy'' < 2 ^ 31"
      unfolding st using axpy_stub(4) by (simp add: axpy_stub(1) [symmetric] stub_sym_def is_digit_def)
  qed
  then obtain m where "lookup_init (elfio_loader ?fs (\<lambda>_. True) (\<lambda>_. 0)) [?info] = Inr m" "lookup_name m 4160 = Inr ''_Z4axpyPi''"
    unfolding st by (auto simp: stub_sym_def ptr_add_def axpy_stub(3))
  with s show ?thesis by blast
qed

end
