(* ===== verification/ElfNotes.thy ===== *)
theory ElfNotes
  imports ElfSymbols
begin

text \<open>
  \<open>elfio_note.hpp\<close>: a section of notes, each a header of three words, the name with its null and padding, and
  the description with its padding. The accessor keeps the positions at which notes start.
\<close>

section \<open>The accessor\<close>

definition WORD :: nat where "WORD = 4"

definition note_word :: "bool \<Rightarrow> esection \<Rightarrow> nat \<Rightarrow> nat res" where
  "note_word need s p = rbind (rd_buf (s_data s) p WORD) (\<lambda>bs. Inr (conv need 4 (le_nat bs)))"

text \<open>A 32-bit length rounded up to words.\<close>

definition note_round :: "nat \<Rightarrow> nat" where
  "note_round n = ((n + WORD - 1) mod 2 ^ 32) div WORD * WORD"

text \<open>The loop of \<open>process_section\<close>; every round moves on by 12 bytes at least.\<close>

function note_positions :: "bool \<Rightarrow> esection \<Rightarrow> nat \<Rightarrow> nat list \<Rightarrow> nat list res" where
  "note_positions need s current note_start_positions =
     (if current + 3 * WORD \<le> get_size need s then
        (case note_word need s current of Inl err \<Rightarrow> Inl err | Inr namesz \<Rightarrow>
        (case note_word need s (current + 4) of Inl err \<Rightarrow> Inl err | Inr descsz \<Rightarrow>
          note_positions need s (current + 3 * WORD + note_round namesz + note_round descsz) (note_start_positions @ [current])))
      else Inr note_start_positions)"
  by pat_completeness auto

termination
  by (relation "measure (\<lambda>(need, s, current, ps). get_size need s - current)") (auto simp: WORD_def)

declare note_positions.simps [simp del]

definition process_section :: "bool \<Rightarrow> esection \<Rightarrow> nat list res" where
  "process_section need s = (if s_data s = None \<or> get_size need s = 0 then Inr [] else note_positions need s 0 [])"

definition get_notes_num :: "nat list \<Rightarrow> nat" where
  "get_notes_num note_start_positions = length note_start_positions mod 2 ^ 32"

text \<open>
  The index is compared with the size of the section, not with the number of notes. The result has
  the type, the name, and the position and size of the description; a null position when it is empty.
\<close>

record note_ref =
  n_type :: nat
  n_name :: string
  n_desc :: "nat option"
  n_size :: nat

definition get_note :: "bool \<Rightarrow> esection \<Rightarrow> nat list \<Rightarrow> nat \<Rightarrow> note_ref option res" where
  "get_note need s positions index = (if get_size need s \<le> index then Inr None
     else if length positions \<le> index then Inl (Undefined ''note_start_positions'')
     else let p = positions ! index in
       rbind (note_word need s (p + 2 * WORD)) (\<lambda>type. rbind (note_word need s p) (\<lambda>namesz.
       rbind (note_word need s (p + 4)) (\<lambda>descSize.
       let max_name_size = size_sub (get_size need s) p mod 2 ^ 32 in
       if max_name_size < namesz \<or> max_name_size < (namesz + descSize) mod 2 ^ 32 then Inr None
       else rbind (rd_buf (s_data s) (p + 3 * WORD) (if namesz = 0 then 2 ^ 32 - 1 else namesz - 1)) (\<lambda>name.
         Inr (Some \<lparr>n_type = type, n_name = name,
           n_desc = (if descSize = 0 then None else Some (p + 3 * WORD + note_round namesz)), n_size = descSize\<rparr>))))))"

text \<open>The bytes that \<open>add_note\<close> appends; \<open>desc\<close> is empty for a null pointer.\<close>

definition note_bytes :: "bool \<Rightarrow> nat \<Rightarrow> string \<Rightarrow> string \<Rightarrow> string" where
  "note_bytes need type name desc = (let nameLen = length name + 1; pad = (\<lambda>n. if n mod WORD \<noteq> 0 then replicate (WORD - n mod WORD) CHR 0x00 else []) in
     le_bytes 4 (store need 4 nameLen) @ le_bytes 4 (conv need 4 (length desc)) @ le_bytes 4 (conv need 4 type) @
     name @ [CHR 0x00] @ pad nameLen @ (if desc \<noteq> [] then desc @ pad (length desc) else []))"

definition add_note :: "bool \<Rightarrow> (nat \<Rightarrow> bool) \<Rightarrow> nat \<Rightarrow> string \<Rightarrow> string \<Rightarrow> esection \<times> nat list \<Rightarrow> (esection \<times> nat list) res" where
  "add_note need new_ok type name desc = (\<lambda>(s, positions).
     rbind (append_data need new_ok (note_bytes need type name desc) s) (\<lambda>t. Inr (t, positions @ [get_size need s])))"

section \<open>What was added is found\<close>

type_synonym enote = "nat \<times> string \<times> string"

fun note_enc :: "bool \<Rightarrow> enote \<Rightarrow> string" where
  "note_enc need (type, name, desc) = note_bytes need type name desc"

fun note_ok :: "enote \<Rightarrow> bool" where
  "note_ok (type, name, desc) \<longleftrightarrow> type < 2 ^ 32 \<and> length name < 2 ^ 28 \<and> length desc < 2 ^ 28"

definition notes_bytes :: "bool \<Rightarrow> enote list \<Rightarrow> string" where
  "notes_bytes need ns = concat (map (note_enc need) ns)"

text \<open>Where the notes start, the first one at \<open>p\<close>.\<close>

fun note_starts :: "bool \<Rightarrow> nat \<Rightarrow> enote list \<Rightarrow> nat list" where
  "note_starts need p [] = []" | "note_starts need p (n # ns) = p # note_starts need (p + length (note_enc need n)) ns"

lemma length_note_starts [simp]: "length (note_starts need p ns) = length ns"
  by (induction ns arbitrary: p) auto

lemma nth_note_starts: "i < length ns \<Longrightarrow> note_starts need p ns ! i = p + length (notes_bytes need (take i ns))"
proof (induction ns arbitrary: p i)
  case (Cons n ns)
  then show ?case by (cases i) (auto simp: notes_bytes_def)
qed simp

lemma note_starts_snoc: "note_starts need p (ns @ [n]) = note_starts need p ns @ [p + length (notes_bytes need ns)]"
  by (induction ns arbitrary: p) (auto simp: notes_bytes_def)

lemma note_round_eq: "n < 2 ^ 32 - 4 \<Longrightarrow> note_round n = n + (if n mod 4 \<noteq> 0 then 4 - n mod 4 else 0)"
proof -
  assume "n < 2 ^ 32 - 4"
  then have "note_round n = (n + 3) div 4 * 4" by (simp add: note_round_def WORD_def)
  also have "\<dots> = n + (if n mod 4 \<noteq> 0 then 4 - n mod 4 else 0)"
  proof -
    have "n = 4 * (n div 4) + n mod 4" by simp
    moreover have "n mod 4 < 4" by simp
    ultimately obtain q r where n: "n = 4 * q + r" "r < 4" "r = n mod 4" by blast
    then have "(n + 3) div 4 = q + (if r \<noteq> 0 then 1 else 0)" by (cases "r = 0") (auto simp: div_eq_dividend_iff)
    with n show ?thesis by auto
  qed
  finally show ?thesis .
qed

lemma length_note_enc:
  "note_ok (type, name, desc) \<Longrightarrow> length (note_enc need (type, name, desc)) = 12 + note_round (length name + 1) + note_round (length desc)"
  by (simp add: note_bytes_def Let_def note_round_eq WORD_def)

lemma note_layout:
  assumes h: "holds need s bs" and bs: "bs = A @ note_enc need (type, name, desc) @ B" and ok: "note_ok (type, name, desc)"
  shows "note_word need s (length A) = Inr (length name + 1)" "note_word need s (length A + 4) = Inr (length desc)"
    "note_word need s (length A + 8) = Inr type" "rd_buf (s_data s) (length A + 12) (length name) = Inr name"
    "rd_buf (s_data s) (length A + 12 + note_round (length name + 1)) (length desc) = Inr desc"
proof -
  let ?n = "length name + 1"
  let ?pad = "\<lambda>n. if n mod WORD \<noteq> 0 then replicate (WORD - n mod WORD) CHR 0x00 else []"
  let ?D = "if desc \<noteq> [] then desc @ ?pad (length desc) else []"
  let ?w1 = "le_bytes 4 (conv need 4 ?n)" and ?w2 = "le_bytes 4 (conv need 4 (length desc))" and ?w3 = "le_bytes 4 (conv need 4 type)"
  from ok have l: "?n < 256 ^ 4" "length desc < 256 ^ 4" "type < 256 ^ 4" by auto
  have enc: "note_enc need (type, name, desc) = ?w1 @ ?w2 @ ?w3 @ name @ [CHR 0x00] @ ?pad ?n @ ?D"
    using l(1) by (simp add: note_bytes_def Let_def store_def del: le_bytes.simps)
  have rd: "rd_buf (s_data s) p (length X) = Inr X" if "bs = P @ X @ Q" "length P = p" for P X Q p
    using rd_buf_holds [OF h, of p "length X"] that by simp
  have word: "note_word need s p = Inr v" if "bs = P @ le_bytes 4 (conv need 4 v) @ Q" "length P = p" "v < 256 ^ 4" for P Q p v
    using rd [OF that(1,2)] that(3) conv_conv [of 4 v need] conv_less [of 4 v need]
    by (simp add: note_word_def WORD_def le_nat_bytes del: le_bytes.simps)
  have "bs = A @ ?w1 @ (?w2 @ ?w3 @ name @ [CHR 0x00] @ ?pad ?n @ ?D @ B)" by (simp add: bs enc del: le_bytes.simps note_enc.simps)
  from word [OF this refl l(1)] show "note_word need s (length A) = Inr ?n" .
  have "bs = (A @ ?w1) @ ?w2 @ (?w3 @ name @ [CHR 0x00] @ ?pad ?n @ ?D @ B)" by (simp add: bs enc del: le_bytes.simps note_enc.simps)
  from word [OF this _ l(2)] show "note_word need s (length A + 4) = Inr (length desc)" by simp
  have "bs = (A @ ?w1 @ ?w2) @ ?w3 @ (name @ [CHR 0x00] @ ?pad ?n @ ?D @ B)" by (simp add: bs enc del: le_bytes.simps note_enc.simps)
  from word [OF this _ l(3)] show "note_word need s (length A + 8) = Inr type" by simp
  have "bs = (A @ ?w1 @ ?w2 @ ?w3) @ name @ ([CHR 0x00] @ ?pad ?n @ ?D @ B)" by (simp add: bs enc del: le_bytes.simps note_enc.simps)
  from rd [OF this] show "rd_buf (s_data s) (length A + 12) (length name) = Inr name" by simp
  have "bs = (A @ ?w1 @ ?w2 @ ?w3 @ name @ [CHR 0x00] @ ?pad ?n) @ desc @ ((if desc \<noteq> [] then ?pad (length desc) else []) @ B)"
    by (simp add: bs enc del: le_bytes.simps note_enc.simps)
  moreover have "length (A @ ?w1 @ ?w2 @ ?w3 @ name @ [CHR 0x00] @ ?pad ?n) = length A + 12 + note_round ?n"
    using ok by (simp add: note_round_eq WORD_def)
  ultimately show "rd_buf (s_data s) (length A + 12 + note_round ?n) (length desc) = Inr desc" by (rule rd)
qed

lemma note_positions_starts:
  assumes h: "holds need s bs" and "bs = A @ notes_bytes need ns" "\<forall>n \<in> set ns. note_ok n" "length bs < 2 ^ 32"
  shows "note_positions need s (length A) ps = Inr (ps @ note_starts need (length A) ns)"
  using assms(2-4)
proof (induction ns arbitrary: A ps)
  case Nil
  then show ?case using h by (simp add: note_positions.simps holds_def notes_bytes_def WORD_def)
next
  case (Cons n ns)
  obtain type name desc where n: "n = (type, name, desc)" by (cases n)
  have ok: "note_ok (type, name, desc)" using Cons.prems(2) n by simp
  have bs: "bs = A @ note_enc need (type, name, desc) @ notes_bytes need ns" using Cons.prems(1) by (simp add: n notes_bytes_def)
  note L = note_layout [OF h bs ok]
  have len: "length (note_enc need n) = 12 + note_round (length name + 1) + note_round (length desc)"
    unfolding n by (rule length_note_enc [OF ok])
  have "length A + 12 \<le> get_size need s" using h bs len by (simp add: holds_def n)
  then have "note_positions need s (length A) ps = note_positions need s (length A + length (note_enc need n)) (ps @ [length A])"
    by (subst note_positions.simps) (simp add: L WORD_def len add.assoc)
  also have "\<dots> = Inr ((ps @ [length A]) @ note_starts need (length A + length (note_enc need n)) ns)"
  proof -
    have "bs = (A @ note_enc need n) @ notes_bytes need ns" using bs by (simp add: n del: note_enc.simps)
    from Cons.IH [OF this _ Cons.prems(3), of "ps @ [length A]"] Cons.prems(2) show ?thesis by (simp del: note_enc.simps)
  qed
  finally show ?case by simp
qed

lemma length_notes: "\<forall>n \<in> set ns. note_ok n \<Longrightarrow> length ns \<le> length (notes_bytes need ns)"
proof (induction ns)
  case (Cons n ns)
  then have "12 \<le> length (note_enc need n)" using length_note_enc by (cases n) (auto simp del: note_enc.simps)
  with Cons show ?case by (simp add: notes_bytes_def)
qed simp

lemma process_section_starts:
  assumes "holds need s (notes_bytes need ns)" "\<forall>n \<in> set ns. note_ok n" "length (notes_bytes need ns) < 2 ^ 32"
  shows "process_section need s = Inr (note_starts need 0 ns)"
proof (cases "s_data s = None \<or> get_size need s = 0")
  case True
  then have "notes_bytes need ns = []" using assms(1) by (auto simp: holds_def)
  then have "ns = []" using length_notes [OF assms(2), of need] by simp
  with True show ?thesis by (simp add: process_section_def)
next
  case False
  then show ?thesis using note_positions_starts [OF assms(1), of "[]" ns "[]"] assms(2,3) by (auto simp: process_section_def)
qed

text \<open>What \<open>get_note\<close> gives for a note that stands there.\<close>

definition note_read :: "esection \<Rightarrow> note_ref option res \<Rightarrow> enote \<Rightarrow> bool" where
  "note_read s res = (\<lambda>(type, name, desc). \<exists>r. res = Inr (Some r) \<and> n_type r = type \<and> n_name r = name \<and> n_size r = length desc \<and>
     (case n_desc r of None \<Rightarrow> desc = [] | Some p \<Rightarrow> rd_buf (s_data s) p (length desc) = Inr desc))"

lemma notes_bytes_split: "i < length ns \<Longrightarrow> notes_bytes need ns =
    notes_bytes need (take i ns) @ note_enc need (ns ! i) @ notes_bytes need (drop (Suc i) ns)"
  unfolding notes_bytes_def by (subst id_take_nth_drop [of i ns]) simp_all

lemma get_note_read:
  assumes h: "holds need s (notes_bytes need ns)" and ok: "\<forall>n \<in> set ns. note_ok n" and small: "length (notes_bytes need ns) \<le> 2 ^ 28"
    and i: "i < length ns"
  shows "note_read s (get_note need s (note_starts need 0 ns) i) (ns ! i)"
proof -
  obtain type name desc where n: "ns ! i = (type, name, desc)" by (cases "ns ! i")
  let ?A = "notes_bytes need (take i ns)" and ?B = "notes_bytes need (drop (Suc i) ns)"
  have okn: "note_ok (type, name, desc)" using ok i by (metis n nth_mem)
  have bs: "notes_bytes need ns = ?A @ note_enc need (type, name, desc) @ ?B" using notes_bytes_split [OF i] n by simp
  note L = note_layout [OF h bs okn]
  have sz: "get_size need s = length (notes_bytes need ns)" using h by (simp add: holds_def)
  have "length ns \<le> get_size need s" using length_notes [OF ok] by (simp add: sz)
  then have idx: "\<not> get_size need s \<le> i" using i by simp
  have le: "length ?A + 12 + note_round (length name + 1) + note_round (length desc) \<le> get_size need s"
    using arg_cong [OF bs, of length] length_note_enc [OF okn, of need] sz by simp
  moreover have "length name + 1 \<le> note_round (length name + 1)" "length desc \<le> note_round (length desc)"
    using okn by (auto simp: note_round_eq)
  ultimately have fit: "length ?A \<le> get_size need s" "length name + 1 + length desc \<le> get_size need s - length ?A" by linarith+
  have "size_sub (get_size need s) (length ?A) mod 2 ^ 32 = get_size need s - length ?A"
    using fit(1) small sz by simp
  moreover have "(length name + 1 + length desc) mod 2 ^ 32 = length name + 1 + length desc" using okn by simp
  ultimately have "get_note need s (note_starts need 0 ns) i = Inr (Some \<lparr>n_type = type, n_name = name,
      n_desc = (if length desc = 0 then None else Some (length ?A + 12 + note_round (length name + 1))), n_size = length desc\<rparr>)"
    using idx i fit(2) L by (simp add: get_note_def nth_note_starts WORD_def Let_def)
  then show ?thesis using L(5) by (auto simp: note_read_def n)
qed

text \<open>
  Notes added one after the other to an empty section, in either byte order, are read back with their
  type, name and description; an accessor made for the resulting section finds the same positions
  as the one that wrote it.
\<close>

theorem notes_found:
  assumes "holds need s []" "memory_suffices new_ok" "\<forall>n \<in> set ns. note_ok n" "length (notes_bytes need ns) \<le> 2 ^ 28"
  shows "\<exists>t ps. for_each (\<lambda>(type, name, desc). add_note need new_ok type name desc) ns (s, []) = Inr (t, ps) \<and>
    process_section need t = Inr ps \<and> (\<forall>i < length ns. note_read t (get_note need t ps i) (ns ! i))"
proof -
  have "\<exists>st. for_each (\<lambda>(type, name, desc). add_note need new_ok type name desc) ns (s, []) = Inr st \<and>
      (holds need (fst st) (notes_bytes need ns) \<and> snd st = note_starts need 0 ns)"
  proof (rule for_each_rule)
    fix us n zs st assume ns: "ns = us @ n # zs"
      and st: "holds need (fst st) (notes_bytes need us) \<and> snd st = note_starts need 0 us"
    obtain type name desc where n: "n = (type, name, desc)" by (cases n)
    have sz: "get_size need (fst st) = length (notes_bytes need us)" using st by (simp add: holds_def)
    have snoc: "notes_bytes need (us @ [n]) = notes_bytes need us @ note_bytes need type name desc" by (simp add: notes_bytes_def n)
    have "length (notes_bytes need (us @ [n])) \<le> length (notes_bytes need ns)" by (simp add: ns notes_bytes_def)
    with assms(4) have "length (notes_bytes need us) + length (note_bytes need type name desc) \<le> 2 ^ 28" by (simp add: snoc)
    moreover have "note_bytes need type name desc \<noteq> []" by (simp add: note_bytes_def Let_def)
    ultimately obtain t where "append_data need new_ok (note_bytes need type name desc) (fst st) = Inr t"
      "holds need t (notes_bytes need us @ note_bytes need type name desc)"
      using append_holds [OF st [THEN conjunct1] _ _ assms(2)] by blast
    then show "\<exists>st'. (case n of (type, name, desc) \<Rightarrow> add_note need new_ok type name desc) st = Inr st' \<and>
        (holds need (fst st') (notes_bytes need (us @ [n])) \<and> snd st' = note_starts need 0 (us @ [n]))"
      using st sz by (simp add: n add_note_def snoc [unfolded n] note_starts_snoc case_prod_beta)
  qed (use assms(1) in \<open>simp add: notes_bytes_def\<close>)
  then obtain t where t: "for_each (\<lambda>(type, name, desc). add_note need new_ok type name desc) ns (s, []) = Inr (t, note_starts need 0 ns)"
    "holds need t (notes_bytes need ns)" by auto
  then show ?thesis using process_section_starts [OF t(2) assms(3)] get_note_read [OF t(2) assms(3,4)] assms(4) by auto
qed

theorem notes_found_witness:
  "\<exists>t ps. for_each (\<lambda>(type, name, desc). add_note True (\<lambda>_. True) type name desc) [(1, ''AMD'', ''gfx''), (2, ''A'', [])]
     (set_type True 7 (section_make ELFCLASS64), []) = Inr (t, ps) \<and> process_section True t = Inr ps \<and>
     note_read t (get_note True t ps 0) (1, ''AMD'', ''gfx'') \<and> note_read t (get_note True t ps 1) (2, ''A'', [])"
proof -
  let ?ns = "[(1, ''AMD'', ''gfx''), (2, ''A'', [])] :: enote list"
  have "holds True (set_type True 7 (section_make ELFCLASS64)) []" by (rule holds_make) (simp_all add: SHT_NOBITS_def)
  moreover have "\<forall>n \<in> set ?ns. note_ok n" by simp
  moreover have "length (notes_bytes True ?ns) \<le> 2 ^ 28" by (simp add: notes_bytes_def note_bytes_def WORD_def)
  ultimately obtain t ps where r: "for_each (\<lambda>(type, name, desc). add_note True (\<lambda>_. True) type name desc) ?ns
      (set_type True 7 (section_make ELFCLASS64), []) = Inr (t, ps)" "process_section True t = Inr ps"
    "\<forall>i < length ?ns. note_read t (get_note True t ps i) (?ns ! i)"
    using notes_found [of True "set_type True 7 (section_make ELFCLASS64)" "\<lambda>_. True" ?ns]
    by (auto simp: memory_suffices_def simp del: for_each.simps)
  then show ?thesis using r(3) [rule_format, of 0] r(3) [rule_format, of 1] by (auto simp del: for_each.simps)
qed

end
