(* ===== verification/ElfRelocs.thy ===== *)
theory ElfRelocs
  imports ElfSymbols
begin

text \<open>
  \<open>elfio_relocation.hpp\<close>: the tables of relocations, with and without addend. Addends and
  calculated values are signed 64-bit numbers.
\<close>

section \<open>Relocations\<close>

definition SHT_RELA :: nat where "SHT_RELA = 4"
definition SHT_REL :: nat where "SHT_REL = 9"

text \<open>The number that \<open>w\<close> bytes stand for in two's complement, and the bytes of a number.\<close>

definition signed_of :: "nat \<Rightarrow> nat \<Rightarrow> int" where
  "signed_of w v = (if v < 2 ^ (8 * w - 1) then int v else int v - 2 ^ (8 * w))"

definition unsigned_of :: "nat \<Rightarrow> int \<Rightarrow> nat" where
  "unsigned_of w a = nat (a mod 2 ^ (8 * w))"

definition sxword :: "int \<Rightarrow> int" where
  "sxword a = signed_of 8 (unsigned_of 8 a)"

fun get_r_sym :: "elf_class \<Rightarrow> nat \<Rightarrow> nat" where
  "get_r_sym ELFCLASS32 info = info mod 2 ^ 32 div 2 ^ 8" | "get_r_sym ELFCLASS64 info = info div 2 ^ 32"

fun get_r_type :: "elf_class \<Rightarrow> nat \<Rightarrow> nat" where
  "get_r_type ELFCLASS32 info = info mod 2 ^ 8" | "get_r_type ELFCLASS64 info = info mod 2 ^ 32"

fun r_info :: "elf_class \<Rightarrow> nat \<Rightarrow> nat \<Rightarrow> nat" where
  "r_info ELFCLASS32 s t = s * 2 ^ 8 + t" | "r_info ELFCLASS64 s t = (s * 2 ^ 32 + t) mod 2 ^ 64"

record rel_ref =
  r_offset :: nat
  r_symbol :: nat
  r_type :: nat
  r_addend :: int

definition get_entries_num :: "elfio \<Rightarrow> nat \<Rightarrow> nat res" where
  "get_entries_num e ri = rbind (deref_section e ri) (\<lambda>s. Inr (entries_num (f_need e) s))"

definition generic_get_entry_rel :: "elf_class \<Rightarrow> bool \<Rightarrow> nat \<Rightarrow> esection \<Rightarrow> rel_ref res" where
  "generic_get_entry_rel c need index s = rbind (read_entry need (rel_widths c) index s) (\<lambda>vs.
     let tmp = conv need (wd c) (vs ! 1) in
     Inr \<lparr>r_offset = conv need (wd c) (vs ! 0), r_symbol = get_r_sym c tmp, r_type = get_r_type c tmp, r_addend = 0\<rparr>)"

definition generic_get_entry_rela :: "elf_class \<Rightarrow> bool \<Rightarrow> nat \<Rightarrow> esection \<Rightarrow> rel_ref res" where
  "generic_get_entry_rela c need index s = rbind (read_entry need (rela_widths c) index s) (\<lambda>vs.
     let tmp = conv need (wd c) (vs ! 1) in
     Inr \<lparr>r_offset = conv need (wd c) (vs ! 0), r_symbol = get_r_sym c tmp, r_type = get_r_type c tmp,
       r_addend = signed_of (wd c) (conv need (wd c) (vs ! 2))\<rparr>)"

text \<open>A section of another type gives nothing, and success.\<close>

definition rel_get_entry :: "elfio \<Rightarrow> nat \<Rightarrow> nat \<Rightarrow> rel_ref \<Rightarrow> (bool \<times> rel_ref) res" where
  "rel_get_entry e ri index r = rbind (deref_section e ri) (\<lambda>s. let need = f_need e in
     if entries_num need s \<le> index then Inr (False, r)
     else rbind (file_class e) (\<lambda>c.
       if get_type need s = SHT_REL then rbind (generic_get_entry_rel c need index s) (\<lambda>r. Inr (True, r))
       else if get_type need s = SHT_RELA then rbind (generic_get_entry_rela c need index s) (\<lambda>r. Inr (True, r))
       else Inr (True, r)))"

text \<open>The calculated value; the types not listed give 0.\<close>

definition calc_value :: "rel_ref \<Rightarrow> nat \<Rightarrow> int" where
  "calc_value r symbolValue = (if r_type r = 1 then sxword (int symbolValue + r_addend r)
     else if r_type r = 2 then sxword (int symbolValue + r_addend r - int (r_offset r))
     else if r_type r = 6 \<or> r_type r = 7 then sxword (int symbolValue)
     else if r_type r = 8 then r_addend r else 0)"

text \<open>
  With the symbol: when the section holds no relocations, the index of the symbol is never set before it is
  used. The result is the relocation, the symbol and the calculated value.
\<close>

definition rel_get_entry_symbol :: "elfio \<Rightarrow> nat \<Rightarrow> nat \<Rightarrow> rel_ref \<Rightarrow> sym_ref \<Rightarrow> int \<Rightarrow> (bool \<times> rel_ref \<times> sym_ref \<times> int) res" where
  "rel_get_entry_symbol e ri index r y calcValue = rbind (rel_get_entry e ri index r) (\<lambda>(ret, r).
     rbind (deref_section e ri) (\<lambda>s. let need = f_need e; yi = get_link need s mod 2 ^ 16 in
     rbind (find_hash_section e yi) (\<lambda>_.
     if \<not> ret then Inr (False, r, y, calcValue)
     else if get_type need s \<noteq> SHT_REL \<and> get_type need s \<noteq> SHT_RELA then Inl (Undefined ''symbol is not set'')
     else rbind (get_symbol e yi (r_symbol r) y) (\<lambda>(ret, y).
       Inr (ret, r, y, if ret then calc_value r (y_value y) else calcValue)))))"

definition generic_add_rel :: "(nat \<Rightarrow> bool) \<Rightarrow> elf_class \<Rightarrow> nat \<Rightarrow> nat \<Rightarrow> nat \<Rightarrow> elfio \<Rightarrow> elfio res" where
  "generic_add_rel new_ok c ri offset info e = rbind (deref_section e ri) (\<lambda>s. let need = f_need e in
     rbind (append_data need new_ok (pack (rel_widths c) [store need (wd c) offset, store need (wd c) info]) s) (\<lambda>s.
     Inr (set_section ri s e)))"

definition generic_add_rela :: "(nat \<Rightarrow> bool) \<Rightarrow> elf_class \<Rightarrow> nat \<Rightarrow> nat \<Rightarrow> nat \<Rightarrow> int \<Rightarrow> elfio \<Rightarrow> elfio res" where
  "generic_add_rela new_ok c ri offset info addend e = rbind (deref_section e ri) (\<lambda>s. let need = f_need e in
     rbind (append_data need new_ok (pack (rela_widths c)
       [store need (wd c) offset, store need (wd c) info, store need (wd c) (unsigned_of 8 addend)]) s) (\<lambda>s.
     Inr (set_section ri s e)))"

definition add_rel_info :: "(nat \<Rightarrow> bool) \<Rightarrow> nat \<Rightarrow> nat \<Rightarrow> nat \<Rightarrow> elfio \<Rightarrow> elfio res" where
  "add_rel_info new_ok ri offset info e = rbind (file_class e) (\<lambda>c. generic_add_rel new_ok c ri offset info e)"

definition add_rel :: "(nat \<Rightarrow> bool) \<Rightarrow> nat \<Rightarrow> nat \<Rightarrow> nat \<Rightarrow> nat \<Rightarrow> elfio \<Rightarrow> elfio res" where
  "add_rel new_ok ri offset symbol type e = rbind (file_class e) (\<lambda>c. add_rel_info new_ok ri offset (r_info c symbol type) e)"

definition add_rela_info :: "(nat \<Rightarrow> bool) \<Rightarrow> nat \<Rightarrow> nat \<Rightarrow> nat \<Rightarrow> int \<Rightarrow> elfio \<Rightarrow> elfio res" where
  "add_rela_info new_ok ri offset info addend e = rbind (file_class e) (\<lambda>c. generic_add_rela new_ok c ri offset info addend e)"

definition add_rela :: "(nat \<Rightarrow> bool) \<Rightarrow> nat \<Rightarrow> nat \<Rightarrow> nat \<Rightarrow> nat \<Rightarrow> int \<Rightarrow> elfio \<Rightarrow> elfio res" where
  "add_rela new_ok ri offset symbol type addend e =
     rbind (file_class e) (\<lambda>c. add_rela_info new_ok ri offset (r_info c symbol type) addend e)"

definition add_rel_symbol :: "(nat \<Rightarrow> bool) \<Rightarrow> nat \<Rightarrow> nat \<Rightarrow> nat \<Rightarrow> string \<Rightarrow> sym \<Rightarrow> nat \<Rightarrow> nat \<Rightarrow> elfio \<Rightarrow> elfio res" where
  "add_rel_symbol new_ok ri si sti str y offset type e =
     rbind (add_symbol_str new_ok si sti str y e) (\<lambda>(sym_index, e). add_rel new_ok ri offset sym_index type e)"

subsection \<open>What was added is found\<close>

definition rel_ok :: "elf_class \<Rightarrow> rel_ref \<Rightarrow> bool" where
  "rel_ok c r \<longleftrightarrow> r_offset r < 256 ^ wd c \<and> r_symbol r < 2 ^ (if c = ELFCLASS32 then 24 else 32) \<and> r_type r < 256 \<and>
     - (2 ^ (8 * wd c - 1)) \<le> r_addend r \<and> r_addend r < 2 ^ (8 * wd c - 1)"

definition rela_enc :: "bool \<Rightarrow> elf_class \<Rightarrow> rel_ref \<Rightarrow> nat list" where
  "rela_enc need c r = [conv need (wd c) (r_offset r), conv need (wd c) (r_info c (r_symbol r) (r_type r)),
     conv need (wd c) (unsigned_of (wd c) (r_addend r))]"

definition rela_dec :: "bool \<Rightarrow> elf_class \<Rightarrow> nat list \<Rightarrow> rel_ref" where
  "rela_dec need c vs = (let tmp = conv need (wd c) (vs ! 1) in
     \<lparr>r_offset = conv need (wd c) (vs ! 0), r_symbol = get_r_sym c tmp, r_type = get_r_type c tmp,
       r_addend = signed_of (wd c) (conv need (wd c) (vs ! 2))\<rparr>)"

lemma unsigned_less: "unsigned_of (wd c) a < 256 ^ wd c"
  by (cases c) (simp_all add: unsigned_of_def)

lemma mod_of_neg: "- m \<le> a \<Longrightarrow> a < 0 \<Longrightarrow> a mod m = a + m" for a m :: int
  by (metis add.commute add_0 add_left_mono add_less_cancel_right ab_group_add_class.ab_left_minus mod_add_self2 mod_pos_pos_trivial)

lemma signed_unsigned:
  assumes "- (2 ^ (8 * wd c - 1)) \<le> a" "a < 2 ^ (8 * wd c - 1)"
  shows "signed_of (wd c) (unsigned_of (wd c) a) = a"
proof (cases "0 \<le> a")
  case True
  with assms have "a mod 2 ^ (8 * wd c) = a" by (cases c) simp_all
  with True assms show ?thesis by (cases c) (simp_all add: signed_of_def unsigned_of_def nat_less_iff)
next
  case False
  with assms have "a mod 2 ^ (8 * wd c) = a + 2 ^ (8 * wd c)" by (intro mod_of_neg) (cases c; simp)+
  with False assms show ?thesis by (cases c) (simp_all add: signed_of_def unsigned_of_def nat_less_iff)
qed

text \<open>The 64-bit value, cut to the width of the field, is the value of the field.\<close>

lemma store_unsigned: "store need (wd c) (unsigned_of 8 a) = conv need (wd c) (unsigned_of (wd c) a)"
proof -
  have "nat (a mod 2 ^ 64) mod 2 ^ 32 = nat (a mod 2 ^ 32)"
    using nat_mod_distrib [of "a mod 2 ^ 64" "2 ^ 32"] by (simp add: mod_mod_cancel)
  then show ?thesis by (cases c) (simp_all add: store_def unsigned_of_def)
qed

lemma r_info_less: "rel_ok c r \<Longrightarrow> r_info c (r_symbol r) (r_type r) < 256 ^ wd c"
  by (cases c) (simp_all add: rel_ok_def)

lemma r_info_fields: "rel_ok c r \<Longrightarrow> get_r_sym c (r_info c (r_symbol r) (r_type r)) = r_symbol r \<and>
    get_r_type c (r_info c (r_symbol r) (r_type r)) = r_type r"
  by (cases c) (simp_all add: rel_ok_def)

interpretation relatab: elf_table "rela_widths c" "rela_enc need c" "rela_dec need c" "rel_ok c" for need c
proof unfold_locales
  fix r assume r: "rel_ok c r"
  show "fits_widths (rela_widths c) (rela_enc need c r)"
    using r r_info_less [OF r] unsigned_less [of c "r_addend r"]
    by (simp add: fits_widths_def rela_widths_def rela_enc_def rel_ok_def conv_less)
  show "rela_dec need c (rela_enc need c r) = r"
    using r r_info_less [OF r] r_info_fields [OF r] unsigned_less [of c "r_addend r"]
    by (simp add: rela_dec_def rela_enc_def rel_ok_def conv_conv signed_unsigned)
next
  show "0 < sum_list (rela_widths c)" by (cases c) (simp_all add: rela_widths_def)
qed

interpretation reltab: elf_table "rel_widths c" "\<lambda>r. take 2 (rela_enc need c r)" "\<lambda>vs. rela_dec need c (vs @ [0])"
    "\<lambda>r. rel_ok c r \<and> r_addend r = 0" for need c
proof unfold_locales
  fix r assume r: "rel_ok c r \<and> r_addend r = 0"
  then show "fits_widths (rel_widths c) (take 2 (rela_enc need c r))"
    using r_info_less [of c r] by (simp add: fits_widths_def rel_widths_def rela_enc_def rel_ok_def conv_less)
  have "signed_of (wd c) (conv need (wd c) 0) = 0"
    using conv_conv [of "wd c" 0 need] conv_less [of "wd c" 0 need] by (cases c) (auto simp: conv_def signed_of_def convert32_def convert64_def)
  then show "rela_dec need c (take 2 (rela_enc need c r) @ [0]) = r"
    using r r_info_less [of c r] r_info_fields [of c r] by (simp add: rela_dec_def rela_enc_def rel_ok_def conv_conv)
next
  show "0 < sum_list (rel_widths c)" by (cases c) (simp_all add: rel_widths_def)
qed

definition rela_file :: "elfio \<Rightarrow> elf_class \<Rightarrow> nat \<Rightarrow> rel_ref list \<Rightarrow> bool" where
  "rela_file e c ri rs \<longleftrightarrow> file_class e = Inr c \<and> ri < length (f_sections e) \<and>
     holds (f_need e) (f_sections e ! ri) (relatab.tab c (f_need e) rs) \<and> get_type (f_need e) (f_sections e ! ri) = SHT_RELA \<and>
     get_entry_size (f_need e) (f_sections e ! ri) = sum_list (rela_widths c) \<and> (\<forall>r \<in> set rs. rel_ok c r)"

definition rel_file :: "elfio \<Rightarrow> elf_class \<Rightarrow> nat \<Rightarrow> rel_ref list \<Rightarrow> bool" where
  "rel_file e c ri rs \<longleftrightarrow> file_class e = Inr c \<and> ri < length (f_sections e) \<and>
     holds (f_need e) (f_sections e ! ri) (reltab.tab c (f_need e) rs) \<and> get_type (f_need e) (f_sections e ! ri) = SHT_REL \<and>
     get_entry_size (f_need e) (f_sections e ! ri) = sum_list (rel_widths c) \<and> (\<forall>r \<in> set rs. rel_ok c r \<and> r_addend r = 0)"

lemma rela_get:
  assumes f: "rela_file e c ri rs"
  shows "rel_get_entry e ri i r = (if i < length rs then Inr (True, rs ! i) else Inr (False, r))"
proof -
  let ?s = "f_sections e ! ri" and ?need = "f_need e"
  from f have h: "holds ?need ?s (relatab.tab c ?need rs)" "\<forall>r \<in> set rs. rel_ok c r" "get_entry_size ?need ?s = sum_list (rela_widths c)"
    and l: "ri < length (f_sections e)" "get_type ?need ?s = SHT_RELA" "file_class e = Inr c" by (auto simp: rela_file_def)
  have n: "entries_num ?need ?s = length rs" by (rule relatab.num_entries [OF h(1,2,3)])
  show ?thesis
  proof (cases "i < length rs")
    case True
    have "generic_get_entry_rela c ?need i ?s = Inr (rela_dec ?need c (rela_enc ?need c (rs ! i)))"
      unfolding generic_get_entry_rela_def relatab.read_tab [OF h True] by (simp add: rela_dec_def Let_def)
    also have "rela_dec ?need c (rela_enc ?need c (rs ! i)) = rs ! i" using h(2) True by (intro relatab.dec_enc) simp
    finally show ?thesis using True l by (simp add: rel_get_entry_def n SHT_RELA_def SHT_REL_def)
  qed (simp add: rel_get_entry_def l n)
qed

lemma rel_get:
  assumes f: "rel_file e c ri rs"
  shows "rel_get_entry e ri i r = (if i < length rs then Inr (True, rs ! i) else Inr (False, r))"
proof -
  let ?s = "f_sections e ! ri" and ?need = "f_need e"
  from f have h: "holds ?need ?s (reltab.tab c ?need rs)" "\<forall>r \<in> set rs. rel_ok c r \<and> r_addend r = 0" "get_entry_size ?need ?s = sum_list (rel_widths c)"
    and l: "ri < length (f_sections e)" "get_type ?need ?s = SHT_REL" "file_class e = Inr c" by (auto simp: rel_file_def)
  have n: "entries_num ?need ?s = length rs" by (rule reltab.num_entries [OF h(1,2,3)])
  show ?thesis
  proof (cases "i < length rs")
    case True
    have x: "rel_ok c (rs ! i) \<and> r_addend (rs ! i) = 0" using h(2) True by simp
    have "generic_get_entry_rel c ?need i ?s = Inr ((rela_dec ?need c (rela_enc ?need c (rs ! i)))\<lparr>r_addend := 0\<rparr>)"
      unfolding generic_get_entry_rel_def reltab.read_tab [OF h True] by (simp add: rela_dec_def rela_enc_def Let_def)
    also have "rela_dec ?need c (rela_enc ?need c (rs ! i)) = rs ! i" using x by (intro relatab.dec_enc) simp
    finally show ?thesis using True l x by (simp add: rel_get_entry_def n)
  qed (simp add: rel_get_entry_def l n)
qed

lemma add_rela_ok:
  assumes f: "rela_file e c ri rs" and r: "rel_ok c r" and mem: "memory_suffices new_ok"
    and len: "Suc (length rs) * sum_list (rela_widths c) \<le> 2 ^ 28"
  shows "\<exists>e'. add_rela new_ok ri (r_offset r) (r_symbol r) (r_type r) (r_addend r) e = Inr e' \<and> rela_file e' c ri (rs @ [r])"
proof -
  let ?s = "f_sections e ! ri" and ?need = "f_need e"
  from f have h: "holds ?need ?s (relatab.tab c ?need rs)" "\<forall>r \<in> set rs. rel_ok c r"
    and l: "ri < length (f_sections e)" "file_class e = Inr c" by (auto simp: rela_file_def)
  have enc: "[store ?need (wd c) (r_offset r), store ?need (wd c) (r_info c (r_symbol r) (r_type r)),
      store ?need (wd c) (unsigned_of 8 (r_addend r))] = rela_enc ?need c r"
    using r r_info_less [OF r] by (simp add: rela_enc_def store_unsigned) (simp add: store_def rel_ok_def)
  obtain t where t: "append_data ?need new_ok (pack (rela_widths c) (rela_enc ?need c r)) ?s = Inr t"
    "holds ?need t (relatab.tab c ?need (rs @ [r]))" "same_rest ?s t"
    using relatab.append_tab [OF h r mem len] by blast
  have "add_rela new_ok ri (r_offset r) (r_symbol r) (r_type r) (r_addend r) e = Inr (set_section ri t e)"
    unfolding add_rela_def add_rela_info_def generic_add_rela_def l(2) rbind_Inr deref_nth [OF l(1)] Let_def enc t(1) by simp
  moreover have "rela_file (set_section ri t e) c ri (rs @ [r])"
    using f t(2) l r by (auto simp: rela_file_def same_rest_get [OF t(3)])
  ultimately show ?thesis by blast
qed

lemma add_rel_ok:
  assumes f: "rel_file e c ri rs" and r: "rel_ok c r" "r_addend r = 0" and mem: "memory_suffices new_ok"
    and len: "Suc (length rs) * sum_list (rel_widths c) \<le> 2 ^ 28"
  shows "\<exists>e'. add_rel new_ok ri (r_offset r) (r_symbol r) (r_type r) e = Inr e' \<and> rel_file e' c ri (rs @ [r])"
proof -
  let ?s = "f_sections e ! ri" and ?need = "f_need e"
  from f have h: "holds ?need ?s (reltab.tab c ?need rs)" "\<forall>r \<in> set rs. rel_ok c r \<and> r_addend r = 0"
    and l: "ri < length (f_sections e)" "file_class e = Inr c" by (auto simp: rel_file_def)
  have enc: "[store ?need (wd c) (r_offset r), store ?need (wd c) (r_info c (r_symbol r) (r_type r))] = take 2 (rela_enc ?need c r)"
    using r r_info_less [OF r(1)] by (simp add: rela_enc_def store_def rel_ok_def)
  obtain t where t: "append_data ?need new_ok (pack (rel_widths c) (take 2 (rela_enc ?need c r))) ?s = Inr t"
    "holds ?need t (reltab.tab c ?need (rs @ [r]))" "same_rest ?s t"
    using reltab.append_tab [OF h _ mem len] r by blast
  have "add_rel new_ok ri (r_offset r) (r_symbol r) (r_type r) e = Inr (set_section ri t e)"
    unfolding add_rel_def add_rel_info_def generic_add_rel_def l(2) rbind_Inr deref_nth [OF l(1)] Let_def enc t(1) by simp
  moreover have "rel_file (set_section ri t e) c ri (rs @ [r])"
    using f t(2) l r by (auto simp: rel_file_def same_rest_get [OF t(3)])
  ultimately show ?thesis by blast
qed

text \<open>Adding relocations one after the other.\<close>

definition add_relas :: "(nat \<Rightarrow> bool) \<Rightarrow> nat \<Rightarrow> rel_ref list \<Rightarrow> elfio \<Rightarrow> elfio res" where
  "add_relas new_ok ri rs e = for_each (\<lambda>r. add_rela new_ok ri (r_offset r) (r_symbol r) (r_type r) (r_addend r)) rs e"

text \<open>
  Relocations added to a section, in either class and byte order, are read back with their offset,
  symbol, type and signed addend, in the order of adding and behind those that were there; beyond
  them there is none.
\<close>

theorem relocations_found:
  assumes "rela_file e c ri rs0" "memory_suffices new_ok" "(length rs0 + length rs) * sum_list (rela_widths c) \<le> 2 ^ 28"
    and "\<forall>r \<in> set rs. rel_ok c r"
  shows "\<exists>e'. add_relas new_ok ri rs e = Inr e' \<and> (\<forall>i r. rel_get_entry e' ri i r =
    (if i < length (rs0 @ rs) then Inr (True, (rs0 @ rs) ! i) else Inr (False, r)))"
proof -
  have "\<exists>e'. add_relas new_ok ri rs e = Inr e' \<and> rela_file e' c ri (rs0 @ rs)"
    unfolding add_relas_def
  proof (rule for_each_rule)
    fix ys r zs t assume xs: "rs = ys @ r # zs" and t: "rela_file t c ri (rs0 @ ys)"
    have "Suc (length (rs0 @ ys)) * sum_list (rela_widths c) \<le> (length rs0 + length rs) * sum_list (rela_widths c)"
      by (intro mult_le_mono1) (simp add: xs)
    with assms(3) have "Suc (length (rs0 @ ys)) * sum_list (rela_widths c) \<le> 2 ^ 28" by (rule order_trans [rotated])
    then show "\<exists>t'. add_rela new_ok ri (r_offset r) (r_symbol r) (r_type r) (r_addend r) t = Inr t' \<and> rela_file t' c ri (rs0 @ ys @ [r])"
      using add_rela_ok [OF t _ assms(2), of r] assms(4) xs by simp
  qed (use assms(1) in simp)
  then show ?thesis using rela_get by blast
qed

definition rela_file_ex :: elfio where
  "rela_file_ex = \<lparr>f_header = Some (ELFCLASS32, header_make True ELFCLASS32 2),
     f_sections = [section_make ELFCLASS32, set_entry_size True 12 (set_type True SHT_RELA (section_make ELFCLASS32))],
     f_segments = [], f_need = True, f_pos = 0\<rparr>"

lemma sizeof_rela_12: "sum_list (rela_widths ELFCLASS32) = 12"
  by (simp add: rela_widths_def)

theorem relocations_found_witness:
  "\<exists>e'. add_relas (\<lambda>_. True) 1 [\<lparr>r_offset = 16, r_symbol = 3, r_type = 1, r_addend = - 4\<rparr>] rela_file_ex = Inr e' \<and>
    (\<forall>r. rel_get_entry e' 1 0 r = Inr (True, \<lparr>r_offset = 16, r_symbol = 3, r_type = 1, r_addend = - 4\<rparr>) \<and> rel_get_entry e' 1 1 r = Inr (False, r))"
proof -
  let ?s = "set_type True SHT_RELA (section_make ELFCLASS32)" and ?r = "\<lparr>r_offset = 16, r_symbol = 3, r_type = 1, r_addend = - 4\<rparr>"
  have "holds True ?s []" by (rule holds_make) (simp_all add: SHT_RELA_def SHT_NOBITS_def)
  then have "holds True (set_entry_size True 12 ?s) []" by (rule holds_set)
  moreover have "get_entry_size True (set_entry_size True 12 ?s) = 12" "get_type True (set_entry_size True 12 ?s) = SHT_RELA"
    using get_set(7) [of True 12 ?s] get_set(1) [of True SHT_RELA "section_make ELFCLASS32"]
    by (simp_all add: set_entry_size_def set_type_def section_make_def get_type_def SHT_RELA_def)
  ultimately have "rela_file rela_file_ex ELFCLASS32 1 []"
    by (simp add: rela_file_def rela_file_ex_def file_class_def get_class_def the_header_def header_make_def ELFMAG_def EI_CLASS_def
        relatab.tab_Nil sizeof_rela_12)
  then obtain e' where e': "add_relas (\<lambda>_. True) 1 [?r] rela_file_ex = Inr e'"
    "\<forall>i r. rel_get_entry e' 1 i r = (if i < length ([] @ [?r]) then Inr (True, ([] @ [?r]) ! i) else Inr (False, r))"
    using relocations_found [of rela_file_ex ELFCLASS32 1 "[]" "\<lambda>_. True" "[?r]"]
    by (auto simp: memory_suffices_def sizeof_rela_12 rel_ok_def)
  show ?thesis using e'(1) e'(2) [rule_format, of 0] e'(2) [rule_format, of 1] by auto
qed

end
