(* ===== verification/ElfDynamic.thy ===== *)
theory ElfDynamic
  imports ElfRelocs
begin

text \<open>
  \<open>elfio_dynamic.hpp\<close>: the dynamic section, a table of tags with a value each. The writer converts the 64-bit
  arguments before they are cut to the width of the fields: in a big-endian file of 32 bits nothing
  of the entry is left.
\<close>

definition DT_NULL :: nat where "DT_NULL = 0"
definition DT_NEEDED :: nat where "DT_NEEDED = 1"
definition DT_SONAME :: nat where "DT_SONAME = 14"
definition DT_RPATH :: nat where "DT_RPATH = 15"
definition DT_SYMBOLIC :: nat where "DT_SYMBOLIC = 16"
definition DT_TEXTREL :: nat where "DT_TEXTREL = 22"
definition DT_BIND_NOW :: nat where "DT_BIND_NOW = 24"
definition DT_RUNPATH :: nat where "DT_RUNPATH = 29"

definition SHT_DYNAMIC :: nat where "SHT_DYNAMIC = 6"

text \<open>The size of an entry of a table, by the type of its section.\<close>

definition get_default_entry_size :: "elfio \<Rightarrow> nat \<Rightarrow> nat res" where
  "get_default_entry_size e section_type =
    (let by_class = (\<lambda>ws. rbind (get_class e) (\<lambda>b. Inr (sum_list (ws (if b = class_byte ELFCLASS64 then ELFCLASS64 else ELFCLASS32))))) in
     if section_type = SHT_RELA then by_class rela_widths
     else if section_type = SHT_REL then by_class rel_widths
     else if section_type = SHT_SYMTAB then by_class sym_widths
     else if section_type = SHT_DYNAMIC then by_class dyn_widths
     else Inr 0)"

text \<open>The tags without a value; the value of all others is kept, whether it is a number or an address.\<close>

definition no_value :: "nat \<Rightarrow> bool" where
  "no_value tag \<longleftrightarrow> tag \<in> {DT_NULL, DT_SYMBOLIC, DT_TEXTREL, DT_BIND_NOW}"

definition has_string :: "nat \<Rightarrow> bool" where
  "has_string tag \<longleftrightarrow> tag \<in> {DT_NEEDED, DT_SONAME, DT_RPATH, DT_RUNPATH}"

text \<open>The tag of a 32-bit entry is signed and extended.\<close>

fun extend_tag :: "elf_class \<Rightarrow> nat \<Rightarrow> nat" where
  "extend_tag ELFCLASS32 v = unsigned_of 8 (signed_of 4 v)" | "extend_tag ELFCLASS64 v = v"

definition generic_get_entry_dyn :: "elf_class \<Rightarrow> bool \<Rightarrow> nat \<Rightarrow> esection \<Rightarrow> (nat \<times> nat) res" where
  "generic_get_entry_dyn c need index s =
    (if s_data s = None \<or> get_size need s < ((index + 1) * get_entry_size need s) mod 2 ^ 64 then Inr (DT_NULL, 0)
     else rbind (read_entry need (dyn_widths c) index s) (\<lambda>vs. let tag = extend_tag c (conv need (wd c) (vs ! 0)) in
       Inr (tag, if no_value tag then 0 else conv need (wd c) (vs ! 1))))"

definition dyn_get_entries_num :: "elfio \<Rightarrow> nat \<Rightarrow> nat res" where
  "dyn_get_entries_num e di = rbind (deref_section e di) (\<lambda>s. Inr (entries_num (f_need e) s))"

text \<open>What the caller gets through its references: tag, value and string.\<close>

definition dyn_get_entry :: "elfio \<Rightarrow> nat \<Rightarrow> nat \<Rightarrow> nat \<times> nat \<times> string \<Rightarrow> (bool \<times> nat \<times> nat \<times> string) res" where
  "dyn_get_entry e di index r = rbind (deref_section e di) (\<lambda>s. let need = f_need e in
     if entries_num need s \<le> index then Inr (False, r)
     else rbind (file_class e) (\<lambda>c. rbind (generic_get_entry_dyn c need index s) (\<lambda>(tag, value).
       if has_string tag then rbind (get_string need (section_at e (get_link need s mod 2 ^ 16)) (value mod 2 ^ 32)) (\<lambda>p.
         Inr (case p of None \<Rightarrow> (False, tag, value, []) | Some str \<Rightarrow> (True, tag, value, str)))
       else Inr (True, tag, value, []))))"

definition generic_add_dyn :: "(nat \<Rightarrow> bool) \<Rightarrow> elf_class \<Rightarrow> nat \<Rightarrow> nat \<Rightarrow> nat \<Rightarrow> elfio \<Rightarrow> elfio res" where
  "generic_add_dyn new_ok c di tag value e = rbind (deref_section e di) (\<lambda>s.
     let need = f_need e; value = (if no_value tag then 0 else value);
         entry = [conv need 8 tag mod 256 ^ wd c, conv need 8 value mod 256 ^ wd c] in
     rbind (append_data need new_ok (pack (dyn_widths c) entry) s) (\<lambda>s. Inr (set_section di s e)))"

definition add_dyn :: "(nat \<Rightarrow> bool) \<Rightarrow> nat \<Rightarrow> nat \<Rightarrow> nat \<Rightarrow> elfio \<Rightarrow> elfio res" where
  "add_dyn new_ok di tag value e = rbind (file_class e) (\<lambda>c. generic_add_dyn new_ok c di tag value e)"

definition add_dyn_string :: "(nat \<Rightarrow> bool) \<Rightarrow> nat \<Rightarrow> nat \<Rightarrow> string \<Rightarrow> elfio \<Rightarrow> elfio res" where
  "add_dyn_string new_ok di tag str e = rbind (deref_section e di) (\<lambda>s. let sti = get_link (f_need e) s mod 2 ^ 16 in
     rbind (case section_at e sti of None \<Rightarrow> Inr (0, e)
       | Some t \<Rightarrow> rbind (add_string (f_need e) new_ok (takeWhile (\<lambda>c. c \<noteq> CHR 0x00) str) t) (\<lambda>(p, t). Inr (p, set_section sti t e)))
     (\<lambda>(value, e). add_dyn new_ok di tag value e))"

section \<open>What was added is found\<close>

text \<open>A pair of a tag and its value, as the reader sees it.\<close>

definition dyn_ok :: "elf_class \<Rightarrow> nat \<times> nat \<Rightarrow> bool" where
  "dyn_ok c = (\<lambda>(tag, value). tag < 2 ^ (8 * wd c - 1) \<and> value < 256 ^ wd c \<and> (no_value tag \<longrightarrow> value = 0))"

interpretation dyntab: elf_table "dyn_widths c" "\<lambda>(tag, value). [conv need (wd c) tag, conv need (wd c) value]"
    "\<lambda>vs. (conv need (wd c) (vs ! 0), conv need (wd c) (vs ! 1))" "dyn_ok c" for need c
proof unfold_locales
  fix x assume x: "dyn_ok c x"
  obtain t v where tv: "x = (t, v)" by fastforce
  from x have l: "t < 256 ^ wd c" "v < 256 ^ wd c" by (cases c; simp add: dyn_ok_def tv)+
  then show "fits_widths (dyn_widths c) (case x of (tag, value) \<Rightarrow> [conv need (wd c) tag, conv need (wd c) value])"
    by (simp add: fits_widths_def dyn_widths_def tv conv_less)
  from l show "(conv need (wd c) ((case x of (tag, value) \<Rightarrow> [conv need (wd c) tag, conv need (wd c) value]) ! 0),
      conv need (wd c) ((case x of (tag, value) \<Rightarrow> [conv need (wd c) tag, conv need (wd c) value]) ! 1)) = x"
    by (simp add: tv conv_conv)
next
  show "0 < sum_list (dyn_widths c)" by (cases c) (simp_all add: dyn_widths_def)
qed

definition dyn_file :: "elfio \<Rightarrow> elf_class \<Rightarrow> nat \<Rightarrow> (nat \<times> nat) list \<Rightarrow> bool" where
  "dyn_file e c di xs \<longleftrightarrow> file_class e = Inr c \<and> di < length (f_sections e) \<and>
     holds (f_need e) (f_sections e ! di) (dyntab.tab c (f_need e) xs) \<and>
     get_entry_size (f_need e) (f_sections e ! di) = sum_list (dyn_widths c) \<and> (\<forall>x \<in> set xs. dyn_ok c x) \<and>
     length xs * sum_list (dyn_widths c) \<le> 2 ^ 28"

lemma extend_tag_small: "tag < 2 ^ (8 * wd c - 1) \<Longrightarrow> extend_tag c tag = tag"
  by (cases c) (simp_all add: signed_of_def unsigned_of_def)

lemma dyn_get:
  assumes f: "dyn_file e c di xs" and i: "i < length xs" "xs ! i = (tag, value)"
  shows "generic_get_entry_dyn c (f_need e) i (f_sections e ! di) = Inr (tag, value)"
proof -
  let ?s = "f_sections e ! di" and ?need = "f_need e" and ?w = "sum_list (dyn_widths c)"
  from f have h: "holds ?need ?s (dyntab.tab c ?need xs)" "\<forall>x \<in> set xs. dyn_ok c x" "get_entry_size ?need ?s = ?w"
    and small: "length xs * ?w \<le> 2 ^ 28" by (auto simp: dyn_file_def)
  have x: "dyn_ok c (tag, value)" using h(2) i by (metis nth_mem)
  have l: "get_size ?need ?s = length xs * ?w" using h(1) dyntab.length_tab [OF h(2)] by (simp add: holds_def)
  have "(i + 1) * ?w \<le> length xs * ?w" using i(1) by (intro mult_le_mono1) simp
  moreover from this small have "((i + 1) * ?w) mod 2 ^ 64 = (i + 1) * ?w" by simp
  ultimately have in_range: "\<not> get_size ?need ?s < ((i + 1) * ?w) mod 2 ^ 64" by (simp add: l)
  have "dyntab.tab c ?need xs \<noteq> []"
    using l h(1) i(1) by (cases c) (auto simp: holds_def dyn_widths_def)
  then have data: "s_data ?s \<noteq> None" using h(1) by (cases "s_data ?s") (auto simp: holds_def)
  have "tag < 256 ^ wd c" using x by (cases c) (simp_all add: dyn_ok_def)
  then have "conv ?need (wd c) (conv ?need (wd c) tag) = tag" "conv ?need (wd c) (conv ?need (wd c) value) = value"
    using x by (simp_all add: dyn_ok_def conv_conv)
  moreover have "extend_tag c tag = tag" "no_value tag \<longrightarrow> value = 0" using x extend_tag_small by (auto simp: dyn_ok_def)
  ultimately show ?thesis
    unfolding generic_get_entry_dyn_def h(3) dyntab.read_tab [OF h i(1)] using in_range data by (auto simp: i(2))
qed

lemma add_dyn_ok:
  assumes f: "dyn_file e c di xs" and x: "dyn_ok c (tag, value)" and side: "c = ELFCLASS64 \<or> \<not> f_need e" and mem: "memory_suffices new_ok"
    and len: "Suc (length xs) * sum_list (dyn_widths c) \<le> 2 ^ 28"
  shows "\<exists>e'. add_dyn new_ok di tag value e = Inr e' \<and> dyn_file e' c di (xs @ [(tag, value)]) \<and> f_need e' = f_need e"
proof -
  let ?s = "f_sections e ! di" and ?need = "f_need e"
  from f have h: "holds ?need ?s (dyntab.tab c ?need xs)" "\<forall>x \<in> set xs. dyn_ok c x"
    and l: "di < length (f_sections e)" "file_class e = Inr c" by (auto simp: dyn_file_def)
  have "tag < 256 ^ wd c" "value < 256 ^ wd c" using x by (cases c; simp add: dyn_ok_def)+
  then have enc: "[conv ?need 8 tag mod 256 ^ wd c, conv ?need 8 (if no_value tag then 0 else value) mod 256 ^ wd c] =
      [conv ?need (wd c) tag, conv ?need (wd c) value]"
    using side x conv_less [of 8 tag ?need] conv_less [of 8 "value" ?need] by (cases c) (auto simp: dyn_ok_def conv_def)
  obtain t where t: "append_data ?need new_ok (pack (dyn_widths c) [conv ?need (wd c) tag, conv ?need (wd c) value]) ?s = Inr t"
    "holds ?need t (dyntab.tab c ?need (xs @ [(tag, value)]))" "same_rest ?s t"
    using dyntab.append_tab [OF h x mem len] by auto
  have "add_dyn new_ok di tag value e = Inr (set_section di t e)"
    unfolding add_dyn_def generic_add_dyn_def l(2) rbind_Inr deref_nth [OF l(1)] Let_def enc t(1) by simp
  moreover have "dyn_file (set_section di t e) c di (xs @ [(tag, value)])"
    using f t(2) l x len by (auto simp: dyn_file_def same_rest_get [OF t(3)])
  ultimately show ?thesis by auto
qed

text \<open>Entries added one after the other are read back, unless the file is big-endian and of 32 bits.\<close>

theorem dynamic_found:
  assumes "dyn_file e c di xs" "memory_suffices new_ok" "(length xs + length ys) * sum_list (dyn_widths c) \<le> 2 ^ 28"
    and "\<forall>y \<in> set ys. dyn_ok c y \<and> \<not> has_string (fst y)" "c = ELFCLASS64 \<or> \<not> f_need e"
  shows "\<exists>e'. for_each (\<lambda>(tag, value). add_dyn new_ok di tag value) ys e = Inr e' \<and>
    (\<forall>i < length ys. \<forall>r. dyn_get_entry e' di (length xs + i) r = Inr (True, fst (ys ! i), snd (ys ! i), []))"
proof -
  have "\<exists>e'. for_each (\<lambda>(tag, value). add_dyn new_ok di tag value) ys e = Inr e' \<and> dyn_file e' c di (xs @ ys) \<and> f_need e' = f_need e"
  proof (rule for_each_rule)
    fix us y zs t assume ys: "ys = us @ y # zs" and t: "dyn_file t c di (xs @ us) \<and> f_need t = f_need e"
    have "Suc (length (xs @ us)) * sum_list (dyn_widths c) \<le> (length xs + length ys) * sum_list (dyn_widths c)"
      by (intro mult_le_mono1) (simp add: ys)
    with assms(3) have "Suc (length (xs @ us)) * sum_list (dyn_widths c) \<le> 2 ^ 28" by (rule order_trans [rotated])
    then show "\<exists>t'. (case y of (tag, value) \<Rightarrow> add_dyn new_ok di tag value) t = Inr t' \<and> dyn_file t' c di (xs @ us @ [y]) \<and> f_need t' = f_need e"
      using add_dyn_ok [of t c di "xs @ us" "fst y" "snd y"] t assms(2,4,5) ys by (auto simp: case_prod_beta)
  qed (use assms(1) in simp)
  then obtain e' where e': "for_each (\<lambda>(tag, value). add_dyn new_ok di tag value) ys e = Inr e'" "dyn_file e' c di (xs @ ys)"
    by blast
  have "dyn_get_entry e' di (length xs + i) r = Inr (True, fst (ys ! i), snd (ys ! i), [])" if "i < length ys" for i r
  proof -
    from e'(2) have f: "file_class e' = Inr c" "di < length (f_sections e')"
      and h: "holds (f_need e') (f_sections e' ! di) (dyntab.tab c (f_need e') (xs @ ys))" "\<forall>x \<in> set (xs @ ys). dyn_ok c x"
        "get_entry_size (f_need e') (f_sections e' ! di) = sum_list (dyn_widths c)" by (auto simp: dyn_file_def)
    have n: "entries_num (f_need e') (f_sections e' ! di) = length (xs @ ys)" by (rule dyntab.num_entries [OF h])
    have "\<not> has_string (fst (ys ! i))" using assms(4) that by simp
    moreover have "generic_get_entry_dyn c (f_need e') (length xs + i) (f_sections e' ! di) = Inr (fst (ys ! i), snd (ys ! i))"
      using dyn_get [OF e'(2), of "length xs + i"] that by (cases "ys ! i") auto
    ultimately show ?thesis using that f n by (cases "ys ! i") (simp add: dyn_get_entry_def)
  qed
  with e'(1) show ?thesis by blast
qed

section \<open>Big-endian files of 32 bits\<close>

lemma conv_high:
  assumes "v < 2 ^ 32"
  shows "conv True 8 v mod 2 ^ 32 = 0"
proof -
  have "take_bit 32 (conv True 8 v) = 0"
  proof (rule bit_eqI)
    fix n
    have "bit (conv True 8 v) n = bit v (8 * (7 - n div 8) + n mod 8)" if "n < 32"
      using bit_conv [of 8 "n div 8" "n mod 8" v] that by (simp add: less_mult_imp_div_less)
    moreover have "\<not> bit v (8 * (7 - n div 8) + n mod 8)" if "n < 32"
    proof
      assume b: "bit v (8 * (7 - n div 8) + n mod 8)"
      have "n div 8 < 4" using that by (simp add: less_mult_imp_div_less)
      then have "32 \<le> 8 * (7 - n div 8) + n mod 8" by simp
      then have "v < 2 ^ (8 * (7 - n div 8) + n mod 8)" using assms by (rule_tac less_le_trans [OF _ power_increasing]) auto
      with b show False by (simp add: bit_iff_odd)
    qed
    ultimately show "bit (take_bit 32 (conv True 8 v)) n = bit (0 :: nat) n" by (auto simp: bit_take_bit_iff)
  qed
  then show ?thesis by (simp add: take_bit_eq_mod)
qed

lemma le_bytes_0: "le_bytes k 0 = replicate k CHR 0x00"
  by (induction k) (simp_all add: char_of_def)

text \<open>Whatever entry is added to such a file, eight zero bytes are appended: the entry that ends the table.\<close>

theorem dynamic_lost:
  assumes "f_need e" "di < length (f_sections e)" "tag < 2 ^ 32" "value < 2 ^ 32"
  shows "generic_add_dyn new_ok ELFCLASS32 di tag value e =
    rbind (append_data True new_ok (replicate 8 CHR 0x00) (f_sections e ! di)) (\<lambda>s. Inr (set_section di s e))"
proof -
  have "pack (dyn_widths ELFCLASS32) [0, 0] = replicate 8 CHR 0x00"
    by (simp add: dyn_widths_def le_bytes_0 flip: replicate_add)
  then show ?thesis using assms conv_high [OF assms(3)] conv_high [of "if no_value tag then 0 else value"]
    by (simp add: generic_add_dyn_def Let_def)
qed

end
