(* ===== verification/ElfHash.thy ===== *)
theory ElfHash
  imports ElfSymbols
begin

text \<open>
  The search of a symbol by its name: through a hash table in which the symbol stands on the chain of its
  bucket it is found; through a chain that runs in a circle the search does not return.
\<close>

interpretation word_tab: elf_table "[4]" "\<lambda>v. [v]" hd "\<lambda>v. v < 256 ^ 4"
  by unfold_locales (simp_all add: fits_widths_def)

text \<open>The hash table at section \<open>h\<close>: its words, and the two tables in them.\<close>

definition hash_file :: "elfio \<Rightarrow> nat \<Rightarrow> nat \<Rightarrow> nat list \<Rightarrow> nat list \<Rightarrow> bool" where
  "hash_file e si h buckets links \<longleftrightarrow> find_hash_section e si = Inr h \<and> h \<noteq> 0 \<and> h < length (f_sections e) \<and>
     holds (f_need e) (f_sections e ! h) (word_tab.tab (length buckets # length links # buckets @ links)) \<and>
     buckets \<noteq> [] \<and> 2 + length buckets + length links < 2 ^ 32 \<and> (\<forall>v \<in> set (buckets @ links). v < 2 ^ 32)"

lemma hash_word_file:
  assumes "hash_file e si h buckets links"
  shows "hash_word (f_sections e ! h) 0 = Inr (length buckets)" "hash_word (f_sections e ! h) 1 = Inr (length links)"
    "i < length buckets \<Longrightarrow> hash_word (f_sections e ! h) ((2 + i) mod 2 ^ 32) = Inr (buckets ! i)"
    "j < length links \<Longrightarrow> hash_word (f_sections e ! h) ((2 + length buckets + j) mod 2 ^ 32) = Inr (links ! j)"
proof -
  let ?ws = "length buckets # length links # buckets @ links"
  from assms have h: "holds (f_need e) (f_sections e ! h) (word_tab.tab ?ws)" and ok: "\<forall>v \<in> set ?ws. v < 256 ^ 4"
    and small: "2 + length buckets + length links < 2 ^ 32" by (auto simp: hash_file_def)
  have rd: "hash_word (f_sections e ! h) k = Inr (?ws ! k)" if "k < length ?ws" for k
  proof -
    have "?ws ! k < 256 ^ 4" using ok that nth_mem by blast
    then show ?thesis using word_tab.rd_tab [OF h ok that] by (simp add: hash_word_def le_nat_bytes del: le_bytes.simps)
  qed
  show "hash_word (f_sections e ! h) 0 = Inr (length buckets)" "hash_word (f_sections e ! h) 1 = Inr (length links)"
    using rd [of 0] rd [of 1] by simp_all
  show "i < length buckets \<Longrightarrow> hash_word (f_sections e ! h) ((2 + i) mod 2 ^ 32) = Inr (buckets ! i)"
    using rd [of "2 + i"] small by (simp add: nth_append)
  show "j < length links \<Longrightarrow> hash_word (f_sections e ! h) ((2 + length buckets + j) mod 2 ^ 32) = Inr (links ! j)"
    using rd [of "2 + length buckets + j"] small by (simp add: nth_append)
qed

text \<open>
  A path along the chains: from \<open>y\<close> over symbols with other names to \<open>i\<close>, whose name is \<open>name\<close>.
\<close>

definition named :: "sym list \<Rightarrow> string \<Rightarrow> nat \<Rightarrow> string \<Rightarrow> bool" where
  "named ys sbs i str \<longleftrightarrow> i < length ys \<and> string_at sbs (st_name (ys ! i)) str"

inductive hash_path :: "sym list \<Rightarrow> string \<Rightarrow> nat list \<Rightarrow> string \<Rightarrow> nat \<Rightarrow> nat \<Rightarrow> bool"
  for ys sbs links name where
  here: "named ys sbs i name \<Longrightarrow> hash_path ys sbs links name i i"
| along: "named ys sbs y str \<Longrightarrow> str \<noteq> name \<Longrightarrow> y \<noteq> 0 \<Longrightarrow> y < length links \<Longrightarrow>
    hash_path ys sbs links name (links ! y) i \<Longrightarrow> hash_path ys sbs links name y i"

lemma hash_path_named: "hash_path ys sbs links name y i \<Longrightarrow> \<exists>str. named ys sbs y str"
  by (erule hash_path.cases) auto

lemma hash_loop_path:
  assumes f: "sym_file e c si sti ys sbs" and t: "hash_file e si h buckets links"
    and "hash_path ys sbs links name y i" "get_symbol e si y r0 = Inr (b, r)"
  shows "hash_loop e si (f_sections e ! h) (length buckets) (length links) name y r = Some (Inr (sym_refers (ys ! i) name))"
  using assms(3,4)
proof (induction arbitrary: r r0 b)
  case (here i)
  then have "r = sym_refers (ys ! i) name" using get_symbol_found [OF f, of i name r0] by (simp add: named_def)
  then show ?case by (subst hash_loop.simps) (simp add: sym_refers_def)
next
  case (along y str i)
  then have r: "r = sym_refers (ys ! y) str" using get_symbol_found [OF f, of y str r0] by (simp add: named_def)
  obtain str' where "named ys sbs (links ! y) str'" using hash_path_named [OF along.hyps(5)] by blast
  then obtain b' r' where g: "get_symbol e si (links ! y) r = Inr (b', r')"
    using get_symbol_found [OF f] by (auto simp: named_def)
  show ?case using along.hyps along.IH [OF g] hash_word_file(4) [OF t, of y]
    by (subst hash_loop.simps) (simp add: r sym_refers_def g [unfolded r sym_refers_def])
qed

text \<open>
  C37: a symbol is found by its name when the chain of the bucket to which \<open>elf_hash\<close> sends the name leads
  to it.
\<close>

theorem symbol_found_by_name:
  assumes "sym_file e c si sti ys sbs" "hash_file e si h buckets links" "CHR 0x00 \<notin> set name"
    and "hash_path ys sbs links name (buckets ! (unat (elf_hash name) mod length buckets)) i"
  shows "get_symbol_named e si name r = Some (Inr (True, (sym_refers (ys ! i) name)\<lparr>y_name := y_name r\<rparr>))"
proof -
  let ?k = "unat (elf_hash name) mod length buckets"
  have b: "buckets \<noteq> []" "h \<noteq> 0" "h < length (f_sections e)" "find_hash_section e si = Inr h"
    using assms(2) by (auto simp: hash_file_def)
  then have k: "?k < length buckets" by simp
  have name: "takeWhile (\<lambda>c. c \<noteq> CHR 0x00) name = name" using assms(3) by (auto simp: takeWhile_eq_all_conv)
  obtain str where "named ys sbs (buckets ! ?k) str" using hash_path_named [OF assms(4)] by blast
  then obtain s where g: "get_symbol e si (buckets ! ?k) (r\<lparr>y_name := []\<rparr>) = Inr (True, s)"
    using get_symbol_found [OF assms(1)] by (auto simp: named_def)
  note words = hash_word_file(1,2) [OF assms(2)] hash_word_file(3) [OF assms(2) k]
  show ?thesis using b hash_loop_path [OF assms(1,2,4) g]
    by (simp add: get_symbol_named_def name words [simplified] g) (simp add: sym_refers_def)
qed

text \<open>A big-endian file with the symbol \<open>main\<close> and a hash table of one bucket.\<close>

definition main_sym :: sym where
  "main_sym = zero_sym\<lparr>st_name := 1, st_value := 4096\<rparr>"

definition filled_table :: "nat \<Rightarrow> string \<Rightarrow> esection" where
  "filled_table t bs = set_data True (\<lambda>_. True) (Some bs) (length bs) (set_type True t (section_make ELFCLASS64))"

definition hash_ex :: elfio where
  "hash_ex = \<lparr>f_header = Some (ELFCLASS64, header_make True ELFCLASS64 2),
     f_sections = [section_make ELFCLASS64,
       (set_link True 2 (set_entry_size True 24 (filled_table SHT_SYMTAB (symtab.tab ELFCLASS64 True [zero_sym, main_sym]))))\<lparr>s_index := 1\<rparr>,
       (filled_table SHT_STRTAB (CHR 0x00 # ''main'' @ [CHR 0x00]))\<lparr>s_index := 2\<rparr>,
       (set_link True 1 (filled_table 5 (word_tab.tab [1, 2, 1, 0, 0])))\<lparr>s_index := 3\<rparr>],
     f_segments = [], f_need = True, f_pos = 0\<rparr>"

lemma holds_filled: "t \<noteq> SHT_NOBITS \<Longrightarrow> t < 256 ^ 4 \<Longrightarrow> length bs \<le> 2 ^ 28 \<Longrightarrow> holds True (filled_table t bs) bs"
  unfolding filled_table_def using holds_make [of t True ELFCLASS64] by (intro holds_set_data) (auto simp: holds_def)

lemma pack_nonempty: "0 < w \<Longrightarrow> length (pack (w # ws) (v # vs)) \<noteq> 0"
  by simp

lemma filled_simps:
  "get_link True (filled_table t bs) = 0" "s_class (filled_table t bs) = ELFCLASS64" "get_entry_size True (filled_table t bs) = 0"
  by (simp_all add: filled_table_def set_data_def section_getters section_setters section_make_def zero_shdr_def shdr_of_def
      conv_def convert32_def convert64_def)

lemma hash_ex_ok:
  "sym_file hash_ex ELFCLASS64 1 2 [zero_sym, main_sym] (CHR 0x00 # ''main'' @ [CHR 0x00])"
  "hash_file hash_ex 1 3 [1] [0, 0]"
proof -
  let ?ys = "[zero_sym, main_sym]" and ?sbs = "CHR 0x00 # ''main'' @ [CHR 0x00]"
  let ?tab = "symtab.tab ELFCLASS64 True ?ys" and ?words = "word_tab.tab [1, 2, 1, 0, 0]"
  have ok: "\<forall>y \<in> set ?ys. sym_ok ELFCLASS64 y" by (simp add: main_sym_def sym_ok_def zero_sym_def)
  have l: "length ?tab \<le> 2 ^ 28" "length ?words \<le> 2 ^ 28"
    using symtab.length_tab [OF ok, of True] word_tab.length_tab [of "[1, 2, 1, 0, 0]"] by auto
  have h: "holds True (filled_table SHT_SYMTAB ?tab) ?tab" "holds True (filled_table SHT_STRTAB ?sbs) ?sbs" "holds True (filled_table 5 ?words) ?words"
    using l by (auto intro!: holds_filled simp: SHT_SYMTAB_def SHT_STRTAB_def SHT_NOBITS_def)
  let ?s = "(set_link True 2 (set_entry_size True 24 (filled_table SHT_SYMTAB ?tab)))\<lparr>s_index := 1\<rparr>"
  let ?h = "(set_link True 1 (filled_table 5 ?words))\<lparr>s_index := 3\<rparr>"
  have s: "get_entry_size True ?s = 24" "get_link True ?s = 2" "get_link True ?h = 1"
    using get_set(7) [of True 24 "filled_table SHT_SYMTAB ?tab"] get_set(4) [of True 2] get_set(4) [of True 1]
    by (simp_all add: get_entry_size_def get_link_def set_link_def set_entry_size_def filled_simps)
  have sec: "f_sections hash_ex ! 1 = ?s" "f_sections hash_ex ! 2 = (filled_table SHT_STRTAB ?sbs)\<lparr>s_index := 2\<rparr>"
    "f_sections hash_ex ! 3 = ?h" "f_need hash_ex" "length (f_sections hash_ex) = 4" "file_class hash_ex = Inr ELFCLASS64"
    by (simp_all add: hash_ex_def file_class_def get_class_def the_header_def header_make_def ELFMAG_def EI_CLASS_def)
  show "sym_file hash_ex ELFCLASS64 1 2 ?ys ?sbs"
    unfolding sym_file_def using h s ok by (simp only: sec) (auto intro!: holds_set simp: sizeof_sym_24)
  have k: "get_link (f_need hash_ex) (f_sections hash_ex ! 1) = 2" "get_link (f_need hash_ex) (f_sections hash_ex ! 2) = 0"
    "get_link (f_need hash_ex) (f_sections hash_ex ! 3) = 1" "s_index (f_sections hash_ex ! 1) = 1"
    unfolding sec using s sec(4) by (simp_all add: filled_simps get_link_def [of _ "_\<lparr>s_index := 2\<rparr>"] flip: get_link_def)
  have list: "[1..<length (f_sections hash_ex) mod 2 ^ 16] = [1, 2, 3]" by (simp add: sec(5) upt_rec)
  have two: "length [0 :: nat, 0] = 2" by simp
  with list have "find_hash_section hash_ex 1 = Inr 3"
    using sec(5) by (simp add: find_hash_section_def k del: One_nat_def)
  then show "hash_file hash_ex 1 3 [1] [0, 0]"
    unfolding hash_file_def using holds_set(1,10) [OF h(3)] holds_set(10) [OF holds_set(1) [OF h(3)]] two
    by (simp add: sec flip: numeral_2_eq_2)
qed

theorem symbol_found_by_name_witness:
  "get_symbol_named hash_ex 1 ''main'' (sym_refers zero_sym []) = Some (Inr (True, (sym_refers main_sym ''main'')\<lparr>y_name := []\<rparr>))"
proof -
  have "string_at (CHR 0x00 # ''main'' @ [CHR 0x00]) 1 ''main''"
    unfolding string_at_def by (intro conjI exI [of _ "[CHR 0x00]"] exI [of _ "[]"]) simp_all
  then have "hash_path [zero_sym, main_sym] (CHR 0x00 # ''main'' @ [CHR 0x00]) [0, 0] ''main'' 1 1"
    by (intro hash_path.here) (simp add: named_def main_sym_def)
  then have "get_symbol_named hash_ex 1 ''main'' (sym_refers zero_sym []) =
      Some (Inr (True, (sym_refers ([zero_sym, main_sym] ! 1) ''main'')\<lparr>y_name := y_name (sym_refers zero_sym [])\<rparr>))"
    by (intro symbol_found_by_name [OF hash_ex_ok]) simp_all
  then show ?thesis by (simp add: sym_refers_def [of zero_sym])
qed

text \<open>A symbol whose chain leads back to itself, with another name than the one searched.\<close>

theorem hash_circle_hangs:
  assumes f: "sym_file e c si sti ys sbs" and t: "hash_file e si h buckets links"
    and y: "named ys sbs y str" "str \<noteq> name" "y \<noteq> 0" "y < length links" "links ! y = y"
  shows "hash_loop e si (f_sections e ! h) (length buckets) (length links) name y (sym_refers (ys ! y) str) = None"
proof -
  have g: "get_symbol e si y r = Inr (True, sym_refers (ys ! y) str)" for r
    using get_symbol_found [OF f] y(1) by (simp add: named_def)
  have "\<And>e' si' hs nb nc nm y' r' x. hash_loop e' si' hs nb nc nm y' r' = Some x \<Longrightarrow>
      (e', si', hs, nb, nc, nm, y', r') = (e, si, f_sections e ! h, length buckets, length links, name, y, sym_refers (ys ! y) str) \<Longrightarrow> False"
    by (erule hash_loop.raw_induct [rotated, where P = "\<lambda>e' si' hs nb nc nm y' r' x.
        (e', si', hs, nb, nc, nm, y', r') = (e, si, f_sections e ! h, length buckets, length links, name, y, sym_refers (ys ! y) str) \<longrightarrow> False", rule_format])
      (use y(2-5) hash_word_file(4) [OF t y(4)] in \<open>auto simp: g sym_refers_def [of _ str] split: if_splits\<close>)
  then show ?thesis by (metis not_None_eq)
qed

end
