(* ===== verification/Lending.thy ===== *)
theory Lending
  imports Prelude "HOL-Library.Multiset"
begin

text \<open>
  The contract shared by \<open>ResourcePool\<close> (\<open>Allocator.h\<close>) and \<open>FixedSizeHeapImpl\<close> (\<open>Heap.h\<close>): a
  provider keeps a shelf of free items, lends one at a time and takes items back; when the shelf
  is empty it obtains new stock first. \<open>lends s r t\<close> and \<open>gives s r t\<close> say that lending or
  returning \<open>r\<close> takes the provider from \<open>s\<close> to \<open>t\<close>.
\<close>

lemma mset_butlast_last: "xs \<noteq> [] \<Longrightarrow> add_mset (last xs) (mset (butlast xs)) = mset xs"
  by (induction xs rule: rev_induct) auto

inductive session :: "('s \<Rightarrow> 'r \<Rightarrow> 's \<Rightarrow> bool) \<Rightarrow> ('s \<Rightarrow> 'r \<Rightarrow> 's \<Rightarrow> bool) \<Rightarrow>
    's \<Rightarrow> 'r multiset \<Rightarrow> 's \<Rightarrow> 'r multiset \<Rightarrow> bool"
  for L :: "'s \<Rightarrow> 'r \<Rightarrow> 's \<Rightarrow> bool" and G :: "'s \<Rightarrow> 'r \<Rightarrow> 's \<Rightarrow> bool" where
  start: "session L G s H s H"
| lend: "session L G s H t K \<Longrightarrow> L t r u \<Longrightarrow> session L G s H u (add_mset r K)"
| give: "session L G s H t K \<Longrightarrow> r \<in># K \<Longrightarrow> G t r u \<Longrightarrow> session L G s H u (K - {#r#})"

locale lender =
  fixes lends :: "'s \<Rightarrow> 'r \<Rightarrow> 's \<Rightarrow> bool" and gives :: "'s \<Rightarrow> 'r \<Rightarrow> 's \<Rightarrow> bool"
    and shelf :: "'s \<Rightarrow> 'r multiset" and stock :: "'s \<Rightarrow> 'r multiset" and invar :: "'s \<Rightarrow> bool"
  assumes lend_invar: "invar s \<Longrightarrow> lends s r t \<Longrightarrow> invar t"
    and lend_shelf: "invar s \<Longrightarrow> lends s r t \<Longrightarrow>
          \<exists>new. stock t = stock s + new \<and> add_mset r (shelf t) = shelf s + new"
    and give_invar: "invar s \<Longrightarrow> shelf s + K = stock s \<Longrightarrow> r \<in># K \<Longrightarrow> gives s r t \<Longrightarrow> invar t"
    and give_shelf: "invar s \<Longrightarrow> gives s r t \<Longrightarrow> stock t = stock s \<and> shelf t = add_mset r (shelf s)"
    and stock_distinct: "invar s \<Longrightarrow> count (stock s) r \<le> 1"
begin

text \<open>Nothing is lost and nothing is invented: the stock is what is on the shelf or lent.\<close>

lemma conservation:
  assumes "session lends gives s H t K" "invar s" "shelf s + H = stock s"
  shows "invar t \<and> shelf t + K = stock t"
  using assms
proof (induction rule: session.induct)
  case (start s H)
  then show ?case by simp
next
  case (lend s H t K r u)
  then have t: "invar t" "shelf t + K = stock t" by auto
  from lend_shelf [OF t(1) lend.hyps(2)] obtain new where
    "stock u = stock t + new" "add_mset r (shelf u) = shelf t + new" by blast
  then have "shelf u + add_mset r K = stock u" using t(2) by (metis union_mset_add_mset_left
      union_mset_add_mset_right add.assoc add.commute)
  then show ?case using lend_invar [OF t(1) lend.hyps(2)] by simp
next
  case (give s H t K r u)
  then have t: "invar t" "shelf t + K = stock t" by auto
  from give_shelf [OF t(1) give.hyps(3)] have
    "stock u = stock t" "shelf u = add_mset r (shelf t)" by auto
  then have "shelf u + (K - {#r#}) = stock u" using t(2) give.hyps(2)
    by (metis insert_DiffM union_mset_add_mset_left union_mset_add_mset_right)
  then show ?case using give_invar [OF t give.hyps(2,3)] by simp
qed

text \<open>An item that is lent out is never lent a second time.\<close>

lemma exclusive:
  assumes "session lends gives s H t K" "invar s" "shelf s + H = stock s" "lends t r u"
  shows "r \<notin># K"
proof
  assume r: "r \<in># K"
  have "session lends gives s H u (add_mset r K)" using assms(1,4) by (rule session.lend)
  from conservation [OF this assms(2,3)] have u: "invar u" "shelf u + add_mset r K = stock u"
    by auto
  have "count (stock u) r = count (shelf u) r + Suc (count K r)" by (simp flip: u(2))
  moreover have "0 < count K r" using r by (simp only: count_greater_zero_iff)
  ultimately show False using stock_distinct [OF u(1), of r] by linarith
qed

end

end
