(* ===== verification/Heap.thy ===== *)
theory Heap
  imports Lending
begin

text \<open>
  \<open>cppUtils/include/cpputils/Heap.h\<close> (\<open>MemBlockImpl\<close>, \<open>FixedSizeHeapImpl\<close>) and the heaps of
  \<open>DAGEE-lib/include/dagr/memory.h\<close> built on it (\<open>BackingHeapImpl\<close>, \<open>KernArgHeap\<close>). An address
  is a natural number, 0 the null pointer. The memory comes from \<open>hsa_memory_allocate\<close>, which is
  not part of the repository: the pointer it returns is an argument of the operations that may
  call it.
\<close>

unbundle bit_operations_syntax

section \<open>MemBlock\<close>

record memblock =
  mBeg :: nat
  mEnd :: nat

lemma memblock_eta [simp]: "\<lparr>mBeg = mBeg b, mEnd = mEnd b\<rparr> = b"
  by (cases b) simp

definition blk_size :: "memblock \<Rightarrow> nat res" where
  "blk_size b = rbind (check (mBeg b \<le> mEnd b) ''mEnd >= mBeg'') (\<lambda>_. Inr (mEnd b - mBeg b))"

definition blk_distance :: "memblock \<Rightarrow> int" where
  "blk_distance b = int (mEnd b) - int (mBeg b)"

definition blk_empty :: "memblock \<Rightarrow> bool" where
  "blk_empty b \<longleftrightarrow> mBeg b = mEnd b"

definition null_blk :: memblock where
  "null_blk = \<lparr>mBeg = 0, mEnd = 0\<rparr>"

section \<open>FixedSizeHeap\<close>

record fsheap =
  mAllocSz :: nat
  mFreeBlocks :: "memblock list"
  mBigBlocks :: "memblock list"

definition fsh_make :: "nat \<Rightarrow> fsheap" where
  "fsh_make allocSz = \<lparr>mAllocSz = allocSz, mFreeBlocks = [], mBigBlocks = []\<rparr>"

text \<open>The loop that cuts a big block into pieces; it does not end when the piece size is 0.\<close>

partial_function (option) chop :: "nat \<Rightarrow> nat \<Rightarrow> nat \<Rightarrow> memblock list \<Rightarrow> memblock list option" where
  "chop sz end i acc =
     (if i + sz \<le> end then chop sz end (i + sz) (acc @ [\<lparr>mBeg = i, mEnd = i + sz\<rparr>])
      else Some acc)"

definition fsh_replenish :: "memblock \<Rightarrow> fsheap \<Rightarrow> fsheap res option" where
  "fsh_replenish bigBlk h =
     (case rbind (check (mFreeBlocks h = []) ''mFreeBlocks.empty()'') (\<lambda>_.
             rbind (blk_size bigBlk) (\<lambda>n.
             rbind (check (mAllocSz h \<le> n) ''must allocate at least 1 block of mAllocSz'') (\<lambda>_.
             if blk_empty bigBlk then Inl (Aborted ''mBackingHeap.allocate() failed'')
             else Inr (h\<lparr>mBigBlocks := mBigBlocks h @ [bigBlk]\<rparr>)))) of
        Inl e \<Rightarrow> Some (Inl e)
      | Inr h' \<Rightarrow> map_option (\<lambda>bs. Inr (h'\<lparr>mFreeBlocks := bs\<rparr>))
          (chop (mAllocSz h) (mEnd bigBlk) (mBeg bigBlk) (mFreeBlocks h)))"

definition fsh_take :: "fsheap \<Rightarrow> (memblock \<times> fsheap) res" where
  "fsh_take h = rbind (check (mFreeBlocks h \<noteq> []) ''allocation failed due to out of memory'') (\<lambda>_.
     let ret = last (mFreeBlocks h) in
     rbind (blk_size ret) (\<lambda>n.
     rbind (check (n = mAllocSz h) ''allocation size mismatch. Bad blk'') (\<lambda>_.
     Inr (ret, h\<lparr>mFreeBlocks := butlast (mFreeBlocks h)\<rparr>))))"

definition fsh_allocate :: "memblock \<Rightarrow> fsheap \<Rightarrow> (memblock \<times> fsheap) res option" where
  "fsh_allocate bigBlk h =
     (if mFreeBlocks h = []
      then map_option (\<lambda>r. rbind r fsh_take) (fsh_replenish bigBlk h)
      else Some (fsh_take h))"

definition fsh_deallocate :: "memblock \<Rightarrow> fsheap \<Rightarrow> fsheap res" where
  "fsh_deallocate blk h = rbind (blk_size blk) (\<lambda>n.
     rbind (check (n = mAllocSz h) ''attempting to free a bad blk'')
     (\<lambda>_. Inr (h\<lparr>mFreeBlocks := mFreeBlocks h @ [blk]\<rparr>)))"

text \<open>The destructor: the blocks given back to the backing heap, and the emptied heap.\<close>

definition fsh_destroy :: "fsheap \<Rightarrow> memblock list \<times> fsheap" where
  "fsh_destroy h = (mBigBlocks h, h\<lparr>mBigBlocks := [], mFreeBlocks := []\<rparr>)"

subsection \<open>Cutting\<close>

definition chunks :: "nat \<Rightarrow> memblock \<Rightarrow> memblock list" where
  "chunks sz b = map (\<lambda>k. \<lparr>mBeg = mBeg b + k * sz, mEnd = mBeg b + k * sz + sz\<rparr>)
     [0..<(mEnd b - mBeg b) div sz]"

lemma chop_chunks:
  assumes "0 < sz" "i \<le> e"
  shows "chop sz e i acc = Some (acc @ chunks sz \<lparr>mBeg = i, mEnd = e\<rparr>)"
  using assms(2)
proof (induction "e - i" arbitrary: i acc rule: less_induct)
  case less
  show ?case
  proof (cases "i + sz \<le> e")
    case True
    have "chop sz e (i + sz) (acc @ [\<lparr>mBeg = i, mEnd = i + sz\<rparr>]) =
        Some ((acc @ [\<lparr>mBeg = i, mEnd = i + sz\<rparr>]) @ chunks sz \<lparr>mBeg = i + sz, mEnd = e\<rparr>)"
      using True assms(1) by (intro less.hyps) auto
    moreover have "chunks sz \<lparr>mBeg = i, mEnd = e\<rparr> =
        \<lparr>mBeg = i, mEnd = i + sz\<rparr> # chunks sz \<lparr>mBeg = i + sz, mEnd = e\<rparr>"
    proof -
      have "(e - i) div sz = Suc ((e - (i + sz)) div sz)"
        using True assms(1) le_div_geq [of sz "e - i"] by simp
      then show ?thesis
        by (simp add: chunks_def upt_conv_Cons map_Suc_upt [symmetric] add.assoc del: upt_Suc)
    qed
    ultimately show ?thesis using True by (subst chop.simps) simp
  next
    case False
    then have "e - i < sz" using assms(1) by linarith
    then have "(e - i) div sz = 0" by simp
    then show ?thesis using False by (subst chop.simps) (simp add: chunks_def)
  qed
qed

lemma chop_stuck: "i \<le> e \<Longrightarrow> chop 0 e i acc = None"
proof -
  assume "i \<le> e"
  have "\<not> (sz = 0 \<and> i \<le> e)" if "chop sz e i acc = Some r" for sz e i acc r
    by (rule chop.raw_induct [where P = "\<lambda>sz e i acc r. \<not> (sz = 0 \<and> i \<le> e)", OF _ that])
      (fastforce split: if_splits)
  with \<open>i \<le> e\<close> show ?thesis by (cases "chop 0 e i acc") blast+
qed

text \<open>Blocks that do not overlap.\<close>

definition apart :: "memblock \<Rightarrow> memblock \<Rightarrow> bool" where
  "apart b c \<longleftrightarrow> mEnd b \<le> mBeg c \<or> mEnd c \<le> mBeg b"

definition within :: "memblock \<Rightarrow> memblock \<Rightarrow> bool" where
  "within b c \<longleftrightarrow> mBeg c \<le> mBeg b \<and> mBeg b \<le> mEnd b \<and> mEnd b \<le> mEnd c"

lemma apart_sym: "apart b c \<Longrightarrow> apart c b"
  by (auto simp: apart_def)

lemma apart_within: "apart b c \<Longrightarrow> within b' b \<Longrightarrow> within c' c \<Longrightarrow> apart b' c'"
  by (auto simp: apart_def within_def)

lemma chunk_within: "c \<in> set (chunks sz b) \<Longrightarrow> within c b \<and> mEnd c = mBeg c + sz"
proof -
  assume "c \<in> set (chunks sz b)"
  then obtain k where k: "k < (mEnd b - mBeg b) div sz"
    "c = \<lparr>mBeg = mBeg b + k * sz, mEnd = mBeg b + k * sz + sz\<rparr>"
    by (auto simp: chunks_def)
  have "Suc k * sz \<le> (mEnd b - mBeg b) div sz * sz" using k(1) by (intro mult_right_mono) auto
  also have "\<dots> \<le> mEnd b - mBeg b" by simp
  finally have "mBeg b + k * sz + sz \<le> mEnd b \<or> sz = 0"
    by (cases "mBeg b \<le> mEnd b") auto
  then show ?thesis using k by (auto simp: within_def)
qed

lemma chunks_distinct: "0 < sz \<Longrightarrow> distinct (chunks sz b)"
  by (auto simp: chunks_def distinct_map inj_on_def)

lemma chunks_apart:
  assumes "c \<in> set (chunks sz b)" "d \<in> set (chunks sz b)" "c \<noteq> d"
  shows "apart c d"
proof -
  obtain i j where ij: "c = \<lparr>mBeg = mBeg b + i * sz, mEnd = mBeg b + i * sz + sz\<rparr>"
    "d = \<lparr>mBeg = mBeg b + j * sz, mEnd = mBeg b + j * sz + sz\<rparr>"
    using assms by (auto simp: chunks_def)
  with assms(3) have "i \<noteq> j" by auto
  then have "Suc i * sz \<le> j * sz \<or> Suc j * sz \<le> i * sz"
    by (metis Suc_leI linorder_neqE_nat mult_le_mono1)
  then show ?thesis by (auto simp: ij apart_def)
qed

subsection \<open>It lends blocks that never overlap\<close>

definition fsh_stock :: "fsheap \<Rightarrow> memblock multiset" where
  "fsh_stock h = mset (concat (map (chunks (mAllocSz h)) (mBigBlocks h)))"

definition fsh_inv :: "fsheap \<Rightarrow> bool" where
  "fsh_inv h \<longleftrightarrow> 0 < mAllocSz h \<and> distinct (mBigBlocks h) \<and>
     (\<forall>b \<in> set (mBigBlocks h). mBeg b + mAllocSz h \<le> mEnd b) \<and>
     (\<forall>b \<in> set (mBigBlocks h). \<forall>c \<in> set (mBigBlocks h). b \<noteq> c \<longrightarrow> apart b c) \<and>
     mset (mFreeBlocks h) \<subseteq># fsh_stock h"

text \<open>
  What the runtime promises about a block it hands out: it is large enough and overlaps no block
  that has been handed out before.
\<close>

definition new_block :: "fsheap \<Rightarrow> memblock \<Rightarrow> bool" where
  "new_block h b \<longleftrightarrow> mBeg b + mAllocSz h \<le> mEnd b \<and> (\<forall>c \<in> set (mBigBlocks h). apart b c)"

definition fsh_lends :: "fsheap \<Rightarrow> memblock \<Rightarrow> fsheap \<Rightarrow> bool" where
  "fsh_lends h r h' \<longleftrightarrow> (\<exists>bigBlk. (mFreeBlocks h = [] \<longrightarrow> new_block h bigBlk) \<and>
     fsh_allocate bigBlk h = Some (Inr (r, h')))"

definition fsh_gives :: "fsheap \<Rightarrow> memblock \<Rightarrow> fsheap \<Rightarrow> bool" where
  "fsh_gives h r h' \<longleftrightarrow> fsh_deallocate r h = Inr h'"

lemma fsh_replenish_ok:
  assumes "mFreeBlocks h = []" "0 < mAllocSz h" "mBeg b + mAllocSz h \<le> mEnd b"
  shows "fsh_replenish b h = Some (Inr (h\<lparr>mBigBlocks := mBigBlocks h @ [b],
     mFreeBlocks := chunks (mAllocSz h) b\<rparr>))"
  using assms chop_chunks [of "mAllocSz h" "mBeg b" "mEnd b" "[]"]
  by (simp add: fsh_replenish_def blk_size_def blk_empty_def)

lemma chunks_nonempty: "0 < sz \<Longrightarrow> mBeg b + sz \<le> mEnd b \<Longrightarrow> chunks sz b \<noteq> []"
  by (simp add: chunks_def div_eq_0_iff)

lemma stock_chunk: "r \<in># fsh_stock h \<Longrightarrow>
    \<exists>b \<in> set (mBigBlocks h). r \<in> set (chunks (mAllocSz h) b)"
  by (auto simp: fsh_stock_def)

lemma stock_size: "r \<in># fsh_stock h \<Longrightarrow> mEnd r = mBeg r + mAllocSz h"
  using stock_chunk chunk_within by blast

lemma fsh_take_ok:
  assumes "mFreeBlocks h \<noteq> []" "mset (mFreeBlocks h) \<subseteq># fsh_stock h"
  shows "fsh_take h = Inr (last (mFreeBlocks h), h\<lparr>mFreeBlocks := butlast (mFreeBlocks h)\<rparr>)"
proof -
  have "last (mFreeBlocks h) \<in># fsh_stock h"
    using assms by (meson last_in_set mset_subset_eqD set_mset_mset in_multiset_in_set)
  then show ?thesis using assms(1) stock_size
    by (simp add: fsh_take_def blk_size_def Let_def)
qed

lemma fsh_inv_new:
  assumes "fsh_inv h" "mFreeBlocks h = []" "new_block h b"
  shows "fsh_inv (h\<lparr>mBigBlocks := mBigBlocks h @ [b], mFreeBlocks := chunks (mAllocSz h) b\<rparr>)"
proof -
  have "b \<notin> set (mBigBlocks h)"
    using assms(1,3) by (auto simp: new_block_def fsh_inv_def apart_def)
  then show ?thesis using assms
    by (auto simp: fsh_inv_def new_block_def fsh_stock_def intro: apart_sym)
qed

lemma fsh_inv_take:
  assumes "fsh_inv h" "mFreeBlocks h \<noteq> []"
  shows "fsh_inv (h\<lparr>mFreeBlocks := butlast (mFreeBlocks h)\<rparr>)"
proof -
  have "mset (butlast (mFreeBlocks h)) \<subseteq># mset (mFreeBlocks h)"
    by (subst mset_butlast_last [OF assms(2), symmetric]) simp
  then show ?thesis using assms(1)
    by (auto simp: fsh_inv_def fsh_stock_def intro: subset_mset.order_trans)
qed

text \<open>What a call of \<open>allocate\<close> does when the runtime keeps its promise.\<close>

lemma fsh_allocate_ok:
  assumes inv: "fsh_inv h" and new: "mFreeBlocks h = [] \<longrightarrow> new_block h b"
  obtains r h' new where "fsh_allocate b h = Some (Inr (r, h'))" "fsh_inv h'"
    "fsh_stock h' = fsh_stock h + new"
    "add_mset r (mset (mFreeBlocks h')) = mset (mFreeBlocks h) + new"
    "mAllocSz h' = mAllocSz h"
proof (cases "mFreeBlocks h = []")
  case True
  let ?cs = "chunks (mAllocSz h) b"
  let ?h = "h\<lparr>mBigBlocks := mBigBlocks h @ [b], mFreeBlocks := ?cs\<rparr>"
  let ?h' = "?h\<lparr>mFreeBlocks := butlast ?cs\<rparr>"
  have sz: "0 < mAllocSz h" "mBeg b + mAllocSz h \<le> mEnd b"
    using inv new True by (auto simp: fsh_inv_def new_block_def)
  have inv': "fsh_inv ?h" using fsh_inv_new [OF inv True] new True by simp
  have ne: "?cs \<noteq> []" using chunks_nonempty [OF sz] .
  have eq: "add_mset (last ?cs) (mset (butlast ?cs)) = mset ?cs" by (rule mset_butlast_last [OF ne])
  have take: "fsh_take ?h = Inr (last ?cs, ?h')"
    using fsh_take_ok [of ?h] inv' ne by (simp add: fsh_inv_def)
  have "fsh_allocate b h = Some (Inr (last ?cs, ?h'))"
    using True fsh_replenish_ok [OF True sz] take by (simp add: fsh_allocate_def)
  moreover have "fsh_inv ?h'" using fsh_inv_take [OF inv'] ne by simp
  moreover have "fsh_stock ?h' = fsh_stock h + mset ?cs" by (simp add: fsh_stock_def)
  moreover have "add_mset (last ?cs) (mset (mFreeBlocks ?h')) = mset (mFreeBlocks h) + mset ?cs"
    using True eq by simp
  ultimately show ?thesis by (rule that) simp
next
  case False
  let ?h' = "h\<lparr>mFreeBlocks := butlast (mFreeBlocks h)\<rparr>"
  have eq: "add_mset (last (mFreeBlocks h)) (mset (butlast (mFreeBlocks h))) = mset (mFreeBlocks h)"
    by (rule mset_butlast_last [OF False])
  have "fsh_allocate b h = Some (Inr (last (mFreeBlocks h), ?h'))"
    using False fsh_take_ok inv by (simp add: fsh_allocate_def fsh_inv_def)
  moreover have "fsh_inv ?h'" using fsh_inv_take [OF inv False] .
  moreover have "fsh_stock ?h' = fsh_stock h + {#}" by (simp add: fsh_stock_def)
  moreover have "add_mset (last (mFreeBlocks h)) (mset (mFreeBlocks ?h')) = mset (mFreeBlocks h) + {#}"
    using eq by simp
  ultimately show ?thesis by (rule that) simp
qed

lemma stock_apart:
  assumes "fsh_inv h" "r \<in># fsh_stock h" "s \<in># fsh_stock h" "r \<noteq> s"
  shows "apart r s"
proof -
  from assms(2,3) obtain b c where
    b: "b \<in> set (mBigBlocks h)" "r \<in> set (chunks (mAllocSz h) b)" and
    c: "c \<in> set (mBigBlocks h)" "s \<in> set (chunks (mAllocSz h) c)"
    using stock_chunk by blast
  show ?thesis
  proof (cases "b = c")
    case True
    then show ?thesis using b c assms(4) chunks_apart by blast
  next
    case False
    then have "apart b c" using assms(1) b c by (auto simp: fsh_inv_def)
    then show ?thesis using apart_within chunk_within b(2) c(2) by blast
  qed
qed

lemma chunk_sets_disjoint:
  assumes "fsh_inv h" "b \<in> set (mBigBlocks h)" "c \<in> set (mBigBlocks h)" "b \<noteq> c"
  shows "set (chunks (mAllocSz h) b) \<inter> set (chunks (mAllocSz h) c) = {}"
proof -
  have "apart b c" "0 < mAllocSz h" using assms by (auto simp: fsh_inv_def)
  then have "apart r r \<and> mEnd r = mBeg r + mAllocSz h"
    if "r \<in> set (chunks (mAllocSz h) b)" "r \<in> set (chunks (mAllocSz h) c)" for r
    using that apart_within chunk_within by blast
  then show ?thesis using \<open>0 < mAllocSz h\<close> by (fastforce simp: apart_def)
qed

lemma fsh_stock_distinct: "fsh_inv h \<Longrightarrow> count (fsh_stock h) r \<le> 1"
proof -
  assume inv: "fsh_inv h"
  let ?c = "chunks (mAllocSz h)"
  have ne: "?c b \<noteq> []" if "b \<in> set (mBigBlocks h)" for b
    using inv that chunks_nonempty by (auto simp: fsh_inv_def)
  have dis: "set (?c b) \<inter> set (?c c) = {}"
    if "b \<in> set (mBigBlocks h)" "c \<in> set (mBigBlocks h)" "b \<noteq> c" for b c
    using chunk_sets_disjoint [OF inv] that by blast
  have "inj_on ?c (set (mBigBlocks h))"
    using ne dis by (intro inj_onI) (metis Int_absorb set_empty)
  then have "distinct (concat (map ?c (mBigBlocks h)))"
    using inv dis chunks_distinct by (intro distinct_concat) (auto simp: fsh_inv_def distinct_map)
  then show ?thesis unfolding fsh_stock_def by (simp add: distinct_count_atmost_1)
qed

lemma fsh_lendsE:
  assumes "fsh_inv h" "fsh_lends h r h'"
  obtains new where "fsh_inv h'" "fsh_stock h' = fsh_stock h + new"
    "add_mset r (mset (mFreeBlocks h')) = mset (mFreeBlocks h) + new" "mAllocSz h' = mAllocSz h"
proof -
  from assms(2) obtain b where b: "mFreeBlocks h = [] \<longrightarrow> new_block h b"
    "fsh_allocate b h = Some (Inr (r, h'))" by (auto simp: fsh_lends_def)
  from fsh_allocate_ok [OF assms(1) b(1)] obtain r' g new where
    "fsh_allocate b h = Some (Inr (r', g))" "fsh_inv g" "fsh_stock g = fsh_stock h + new"
    "add_mset r' (mset (mFreeBlocks g)) = mset (mFreeBlocks h) + new" "mAllocSz g = mAllocSz h"
    by blast
  then show ?thesis using b(2) by (intro that [of new]) auto
qed

interpretation fsh: lender fsh_lends fsh_gives "\<lambda>h. mset (mFreeBlocks h)" fsh_stock fsh_inv
proof
  fix h r h' and K :: "memblock multiset"
  show "fsh_inv h'" if "fsh_inv h" "mset (mFreeBlocks h) + K = fsh_stock h" "r \<in># K" "fsh_gives h r h'"
  proof -
    have "add_mset r (mset (mFreeBlocks h)) \<subseteq># fsh_stock h"
      using that(3) by (simp flip: that(2))
    then show ?thesis using that(1,4)
      by (auto simp: fsh_gives_def fsh_deallocate_def rbind_eq_Inr fsh_inv_def fsh_stock_def)
  qed
  show "count (fsh_stock h) r \<le> 1" if "fsh_inv h"
    using that by (rule fsh_stock_distinct)
qed (auto simp: fsh_gives_def fsh_deallocate_def rbind_eq_Inr fsh_stock_def elim: fsh_lendsE)

section \<open>Properties\<close>

lemma session_size:
  assumes "session fsh_lends fsh_gives s H t K" "fsh_inv s" "mset (mFreeBlocks s) + H = fsh_stock s"
  shows "mAllocSz t = mAllocSz s"
  using assms
proof (induction rule: session.induct)
  case (lend s H t K r u)
  then have "fsh_inv t" using fsh.conservation by blast
  then show ?case using lend by (auto elim: fsh_lendsE)
next
  case (give s H t K r u)
  then show ?case by (auto simp: fsh_gives_def fsh_deallocate_def res_elims)
qed simp

text \<open>
  C10: over any history of allocations and releases, a block that a fixed-size heap hands out has the
  heap's size and overlaps no block that is still in use, provided the backing heap never hands out
  overlapping memory.
\<close>

theorem fsh_blocks_disjoint:
  assumes "0 < sz" "session fsh_lends fsh_gives (fsh_make sz) {#} h K" "fsh_lends h r h'"
  shows "mEnd r = mBeg r + sz \<and> (\<forall>k \<in># K. apart r k)"
proof -
  have s: "fsh_inv (fsh_make sz)" "mset (mFreeBlocks (fsh_make sz)) + {#} = fsh_stock (fsh_make sz)"
    using assms(1) by (simp_all add: fsh_inv_def fsh_make_def fsh_stock_def)
  have l: "session fsh_lends fsh_gives (fsh_make sz) {#} h' (add_mset r K)"
    using assms(2,3) by (rule session.lend)
  from fsh.conservation [OF l s] have c: "fsh_inv h'" "mset (mFreeBlocks h') + add_mset r K = fsh_stock h'"
    by auto
  have sz: "mAllocSz h' = sz" using session_size [OF l s] by (simp add: fsh_make_def)
  have stock: "x \<in># fsh_stock h'" if "x \<in># add_mset r K" for x
    using that by (auto simp flip: c(2))
  have "apart r k" if "k \<in># K" for k
  proof -
    have "r \<noteq> k" using fsh.exclusive [OF assms(2) s assms(3)] that by blast
    then show ?thesis using stock_apart [OF c(1) stock stock] that by auto
  qed
  then show ?thesis using stock_size [OF stock, of r] sz by auto
qed

theorem fsh_blocks_disjoint_witness:
  "\<exists>r h'. fsh_lends (fsh_make 16) r h' \<and> mEnd r = mBeg r + 16"
proof -
  have inv: "fsh_inv (fsh_make 16)" by (simp add: fsh_inv_def fsh_make_def fsh_stock_def)
  have nb: "new_block (fsh_make 16) \<lparr>mBeg = 4096, mEnd = 8192\<rparr>" by (simp add: new_block_def fsh_make_def)
  then obtain r h' where "fsh_allocate \<lparr>mBeg = 4096, mEnd = 8192\<rparr> (fsh_make 16) = Some (Inr (r, h'))"
    using fsh_allocate_ok [OF inv] by blast
  with nb have "fsh_lends (fsh_make 16) r h'" by (auto simp: fsh_lends_def)
  with fsh_blocks_disjoint [of 16, OF _ session.start this] show ?thesis by auto
qed

text \<open>
  A heap for blocks of size 0, which the constructor accepts, never returns from its first
  allocation: the loop that cuts the big block does not advance.
\<close>

theorem fsh_zero_diverges:
  assumes "mBeg b < mEnd b"
  shows "fsh_allocate b (fsh_make 0) = None"
  using assms chop_stuck [of "mBeg b" "mEnd b"]
  by (simp add: fsh_allocate_def fsh_make_def fsh_replenish_def blk_size_def blk_empty_def)

theorem fsh_zero_diverges_witness: "fsh_allocate \<lparr>mBeg = 4096, mEnd = 8192\<rparr> (fsh_make 0) = None"
  by (rule fsh_zero_diverges) simp

end
