(* ===== verification/Containers.thy ===== *)
theory Containers
  imports Prelude
begin

text \<open>
  \<open>cppUtils/include/cpputils/Container.h\<close>: \<open>VectorBasedSet\<close>, a set kept in a vector. An iterator
  is the index it points to, and \<open>end()\<close> is the length. The contract its users rely on is the
  locale \<open>checked_set\<close>, a set whose operations fail on a duplicate insertion or a missing
  element; \<open>VectorBasedSet\<close> is shown to provide it.
\<close>

section \<open>The code\<close>

fun vs_find :: "'a list \<Rightarrow> 'a \<Rightarrow> nat" where
  "vs_find [] val = 0"
| "vs_find (x # xs) val = (if x = val then 0 else Suc (vs_find xs val))"

definition vs_contains :: "'a list \<Rightarrow> 'a \<Rightarrow> bool" where
  "vs_contains mVec val \<longleftrightarrow> vs_find mVec val \<noteq> length mVec"

text \<open>
  \<open>emplace\<close> forwards its arguments twice: first to \<open>tmp\<close>, which is checked, then to the element
  that is stored. \<open>make\<close> is the constructor of the element; it returns what it has built and what is
  left of the arguments, which it may have moved from.
\<close>

definition vs_emplace :: "('b \<Rightarrow> 'a \<times> 'b) \<Rightarrow> 'a list \<Rightarrow> 'b \<Rightarrow> 'a list res" where
  "vs_emplace make mVec args = (case make args of (tmp, args) \<Rightarrow>
     rbind (check (\<not> vs_contains mVec tmp) ''!contains(tmp)'') (\<lambda>_. Inr (mVec @ [fst (make args)])))"

definition vs_insert :: "'a list \<Rightarrow> 'a \<Rightarrow> 'a list res" where
  "vs_insert mVec val = rbind (check (\<not> vs_contains mVec val) ''!contains(val)'')
     (\<lambda>_. Inr (mVec @ [val]))"

definition vs_erase :: "'a list \<Rightarrow> 'a \<Rightarrow> 'a list res" where
  "vs_erase mVec val = rbind (check (vs_contains mVec val) ''contains(val)'') (\<lambda>_.
     let it = vs_find mVec val in
     if it = length mVec then Inr mVec
     else
       let back = last mVec;
           swapped = (if mVec ! it \<noteq> back
             then mVec[length mVec - 1 := mVec ! it, it := back] else mVec);
           popped = butlast swapped
       in rbind (check (\<not> vs_contains popped val) ''!contains(val)'') (\<lambda>_. Inr popped))"

definition vs_clear :: "'a list \<Rightarrow> 'a list" where
  "vs_clear mVec = []"

definition vs_empty :: "'a list \<Rightarrow> bool" where
  "vs_empty mVec \<longleftrightarrow> mVec = []"

definition vs_size :: "'a list \<Rightarrow> nat" where
  "vs_size mVec = length mVec"

section \<open>The contract\<close>

locale checked_set =
  fixes empty :: "'s" and ins :: "'s \<Rightarrow> 'a \<Rightarrow> 's res" and del :: "'s \<Rightarrow> 'a \<Rightarrow> 's res"
    and mem :: "'s \<Rightarrow> 'a \<Rightarrow> bool" and elems :: "'s \<Rightarrow> 'a set" and invar :: "'s \<Rightarrow> bool"
  assumes invar_empty: "invar empty" and elems_empty: "elems empty = {}"
    and mem_iff: "mem s x \<longleftrightarrow> x \<in> elems s"
    and ins_fresh: "invar s \<Longrightarrow> x \<notin> elems s \<Longrightarrow>
          \<exists>s'. ins s x = Inr s' \<and> invar s' \<and> elems s' = insert x (elems s)"
    and ins_dup: "x \<in> elems s \<Longrightarrow> \<exists>e. ins s x = Inl e"
    and del_present: "invar s \<Longrightarrow> x \<in> elems s \<Longrightarrow>
          \<exists>s'. del s x = Inr s' \<and> invar s' \<and> elems s' = elems s - {x}"
    and del_absent: "x \<notin> elems s \<Longrightarrow> \<exists>e. del s x = Inl e"

text \<open>A session of insertions and erasures, on the implementation and on a mathematical set.\<close>

datatype 'a set_op = Ins 'a | Del 'a

fun run_set :: "('s \<Rightarrow> 'a \<Rightarrow> 's res) \<Rightarrow> ('s \<Rightarrow> 'a \<Rightarrow> 's res) \<Rightarrow> 'a set_op list \<Rightarrow> 's \<Rightarrow> 's res" where
  "run_set i d [] s = Inr s"
| "run_set i d (Ins x # ops) s = rbind (i s x) (run_set i d ops)"
| "run_set i d (Del x # ops) s = rbind (d s x) (run_set i d ops)"

fun spec_set :: "'a set_op list \<Rightarrow> 'a set \<Rightarrow> 'a set option" where
  "spec_set [] A = Some A"
| "spec_set (Ins x # ops) A = (if x \<in> A then None else spec_set ops (insert x A))"
| "spec_set (Del x # ops) A = (if x \<in> A then spec_set ops (A - {x}) else None)"

context checked_set
begin

lemma run_simulates:
  assumes "invar s"
  shows "case spec_set ops (elems s) of
      None \<Rightarrow> \<exists>e. run_set ins del ops s = Inl e
    | Some A \<Rightarrow> \<exists>s'. run_set ins del ops s = Inr s' \<and> invar s' \<and> elems s' = A"
  using assms
proof (induction ops arbitrary: s)
  case Nil
  then show ?case by simp
next
  case (Cons op ops)
  show ?case
  proof (cases op)
    case (Ins x)
    show ?thesis
    proof (cases "x \<in> elems s")
      case True
      then show ?thesis using ins_dup [OF True] by (auto simp: Ins)
    next
      case False
      then obtain s' where "ins s x = Inr s'" "invar s'" "elems s' = insert x (elems s)"
        using ins_fresh [OF Cons.prems] by blast
      then show ?thesis using Cons.IH [of s'] False by (simp add: Ins split: option.splits)
    qed
  next
    case (Del x)
    show ?thesis
    proof (cases "x \<in> elems s")
      case True
      then obtain s' where "del s x = Inr s'" "invar s'" "elems s' = elems s - {x}"
        using del_present [OF Cons.prems] by blast
      then show ?thesis using Cons.IH [of s'] True by (simp add: Del split: option.splits)
    next
      case False
      then show ?thesis using del_absent [OF False] by (auto simp: Del)
    qed
  qed
qed

end

section \<open>The vector provides it\<close>

lemma vs_find_le: "vs_find xs x \<le> length xs"
  by (induction xs) auto

lemma vs_contains_iff [simp]: "vs_contains xs x \<longleftrightarrow> x \<in> set xs"
  unfolding vs_contains_def by (induction xs) auto

lemma vs_find_in: "x \<in> set xs \<Longrightarrow> vs_find xs x < length xs \<and> xs ! vs_find xs x = x"
  by (induction xs) auto

lemma butlast_swap:
  assumes "distinct xs" "i < length xs" "xs ! i \<noteq> last xs"
  shows "distinct (butlast (xs[length xs - 1 := xs ! i, i := last xs])) \<and>
    set (butlast (xs[length xs - 1 := xs ! i, i := last xs])) = set xs - {xs ! i}"
proof -
  from assms(2) have ne: "xs \<noteq> []" by auto
  then obtain ys z where xs: "xs = ys @ [z]" by (metis append_butlast_last_id)
  with assms have i: "i < length ys" by (auto simp: nth_append split: if_splits)
  have "butlast (xs[length xs - 1 := xs ! i, i := last xs]) = ys[i := z]"
    using i by (simp add: xs list_update_append butlast_append)
  moreover have "set (ys[i := z]) = insert z (set ys - {ys ! i})"
    using assms(1) i by (simp add: xs set_update_distinct)
  moreover have "distinct (ys[i := z])"
    using assms(1) by (simp add: xs distinct_list_update)
  ultimately show ?thesis using assms(1) i by (auto simp: xs nth_append)
qed

lemma vs_erase_present:
  assumes "distinct xs" "x \<in> set xs"
  shows "\<exists>ys. vs_erase xs x = Inr ys \<and> distinct ys \<and> set ys = set xs - {x}"
proof -
  from assms(2) have ne: "xs \<noteq> []" by auto
  show ?thesis
  proof (cases "x = last xs")
    case True
    then show ?thesis
      using assms ne vs_find_in [OF assms(2)] set_butlast_distinct [OF assms(1) ne]
      by (auto simp: vs_erase_def Let_def distinct_butlast)
  next
    case False
    then show ?thesis
      using assms vs_find_in [OF assms(2)] butlast_swap [OF assms(1), of "vs_find xs x"]
      by (auto simp: vs_erase_def Let_def)
  qed
qed

interpretation vset: checked_set "[]" vs_insert vs_erase vs_contains set distinct
  by unfold_locales (auto simp: vs_insert_def vs_erase_def dest: vs_erase_present)

text \<open>
  C17: any sequence of insertions and erasures on an empty \<open>VectorBasedSet\<close> behaves as on a mathematical
  set: it fails exactly when an element is inserted twice or erased while absent, and otherwise the
  vector holds each element once, whatever the swaps of \<open>erase\<close> did to the order.
\<close>

theorem vset_refines_set:
  "case spec_set ops {} of
      None \<Rightarrow> \<exists>e. run_set vs_insert vs_erase ops [] = Inl e
    | Some A \<Rightarrow> \<exists>xs. run_set vs_insert vs_erase ops [] = Inr xs \<and> distinct xs \<and> set xs = A"
  using vset.run_simulates [of "[]" ops] by simp

text \<open>
  \<open>emplace\<close> inserts like \<open>insert\<close> when the constructor leaves its arguments as they are. When it moves
  from them, the element that is stored is not the one that was checked, so it may be a duplicate.
\<close>

lemma vs_emplace_copy: "make args = (x, args) \<Longrightarrow> vs_emplace make xs args = Inr ys \<longleftrightarrow> vs_insert xs x = Inr ys"
  by (simp add: vs_emplace_def vs_insert_def rbind_eq_Inr check_eq_Inr)

lemma vs_emplace_moved: "vs_emplace (\<lambda>s. (s, [])) [[]] ''a'' = Inr [[], []]"
  by (simp add: vs_emplace_def)

text \<open>The size counts the elements, since there are no duplicates, and is 0 exactly when the set is empty.\<close>

lemma vs_size_card: "distinct v \<Longrightarrow> vs_size v = card (set v) \<and> (vs_empty v \<longleftrightarrow> vs_size v = 0)"
  by (simp add: vs_size_def vs_empty_def distinct_card)

end
