(* ===== verification/Memory.thy ===== *)
theory Memory
  imports Heap Containers
begin

text \<open>
  The allocators of \<open>DAGEE-lib/include/dagr/memory.h\<close>: the backing heap over an HSA region, the
  kernel-argument heap with one fixed-size heap per multiple of 16 bytes, and the device memory
  manager. The pointer that \<open>hsa_memory_allocate\<close> writes is an argument of each operation that
  may call it.
\<close>

unbundle bit_operations_syntax

section \<open>BackingHeap\<close>

definition ALLOC_SIZE :: nat where "ALLOC_SIZE = 4096"

definition backing_allocate :: "nat \<Rightarrow> memblock res" where
  "backing_allocate ptr = rbind (check (ptr \<noteq> 0) ''ptr'')
     (\<lambda>_. Inr \<lparr>mBeg = ptr, mEnd = ptr + ALLOC_SIZE\<rparr>)"

text \<open>\<open>BackingHeapImpl::deallocate\<close>: the address passed to \<open>hsa_memory_free\<close>.\<close>

definition backing_deallocate :: "memblock \<Rightarrow> nat" where
  "backing_deallocate blk = mBeg blk"

section \<open>KernArgHeap\<close>

definition MIN_ALLOC_SIZE :: nat where "MIN_ALLOC_SIZE = 2 * 8"
definition MAX_ALLOC_SIZE :: nat where "MAX_ALLOC_SIZE = ALLOC_SIZE"
definition NUM_BUCKETS :: nat where "NUM_BUCKETS = MAX_ALLOC_SIZE div MIN_ALLOC_SIZE"

type_synonym kaheap = "fsheap option list"

definition kah_make :: kaheap where
  "kah_make = replicate NUM_BUCKETS None"

definition checkKernArgBlk :: "memblock \<Rightarrow> unit res" where
  "checkKernArgBlk blk = rbind
     (check ((of_nat (mBeg blk) :: 64 word) AND of_nat (MIN_ALLOC_SIZE - 1) = 0) ''block alignment'')
     (\<lambda>_. rbind (blk_size blk) (\<lambda>n. check (n mod MIN_ALLOC_SIZE = 0) ''block size''))"

text \<open>The rounding is done on 64-bit words, as in the source.\<close>

definition roundedSz :: "nat \<Rightarrow> nat" where
  "roundedSz numBytesReq = unat (((of_nat numBytesReq :: 64 word) + of_nat (MIN_ALLOC_SIZE - 1))
     AND NOT (of_nat (MIN_ALLOC_SIZE - 1)))"

definition heapForSize :: "nat \<Rightarrow> kaheap \<Rightarrow> (nat \<times> fsheap \<times> kaheap) res" where
  "heapForSize numBytesReq k =
     (let sz = roundedSz numBytesReq; index = sz div MIN_ALLOC_SIZE in
      rbind (check (index < length k) ''index < mHeapsForSz.size()'') (\<lambda>_.
        case k ! index of
          None \<Rightarrow> Inr (index, fsh_make sz, k[index := Some (fsh_make sz)])
        | Some h \<Rightarrow> Inr (index, h, k)))"

definition kah_allocate :: "nat \<Rightarrow> nat \<Rightarrow> kaheap \<Rightarrow> (memblock \<times> kaheap) res option" where
  "kah_allocate ptr numBytesReq k =
     (if numBytesReq = 0 then Some (Inr (null_blk, k))
      else case heapForSize numBytesReq k of
        Inl e \<Rightarrow> Some (Inl e)
      | Inr (i, h, k') \<Rightarrow>
          (case (if mFreeBlocks h = [] then backing_allocate ptr else Inr null_blk) of
             Inl e \<Rightarrow> Some (Inl e)
           | Inr big \<Rightarrow> map_option (\<lambda>r. rbind r (\<lambda>(blk, h'). Inr (blk, k'[i := Some h'])))
               (fsh_allocate big h)))"

definition kah_deallocate :: "memblock \<Rightarrow> kaheap \<Rightarrow> kaheap res" where
  "kah_deallocate blk k =
     (if blk_empty blk
      then rbind (check (mBeg blk = 0 \<and> mEnd blk = 0) ''!blk.begin() && !blk.end()'') (\<lambda>_. Inr k)
      else rbind (blk_size blk) (\<lambda>n.
        rbind (check (MIN_ALLOC_SIZE \<le> n) ''blk.size() >= MIN_ALLOC_SIZE'') (\<lambda>_.
        rbind (check (n \<le> MAX_ALLOC_SIZE) ''blk.size() <= MAX_ALLOC_SIZE'') (\<lambda>_.
        rbind (heapForSize n k) (\<lambda>(i, h, k').
        rbind (fsh_deallocate blk h) (\<lambda>h'. Inr (k'[i := Some h'])))))))"

subsection \<open>Rounding\<close>

lemma and_not_15: "(w :: 64 word) AND NOT 15 = push_bit 4 (drop_bit 4 w)"
proof (rule bit_word_eqI)
  fix n assume "n < LENGTH(64)"
  have "bit (15 :: 64 word) n \<longleftrightarrow> n < 4"
  proof -
    have eq: "(15 :: 64 word) = mask 4" by (simp add: mask_eq_exp_minus_1)
    show ?thesis using \<open>n < LENGTH(64)\<close> by (subst eq, subst bit_mask_iff) auto
  qed
  then show "bit (w AND NOT 15) n = bit (push_bit 4 (drop_bit 4 w)) n"
    using \<open>n < LENGTH(64)\<close> by (auto simp: bit_simps)
qed

lemma unat_align16: "unat ((x :: 64 word) AND NOT 15) = unat x div 16 * 16"
proof -
  have "unat x div 16 * 16 < 2 ^ 64"
  proof -
    have "unat x < 2 ^ LENGTH(64)" by (rule unsigned_less)
    then have "unat x < 2 ^ 64" by simp
    then show ?thesis using div_times_less_eq_dividend [of "unat x" 16] by linarith
  qed
  then show ?thesis
    by (simp only: and_not_15 drop_bit_eq_div push_bit_eq_mult)
      (simp add: unat_word_ariths unat_div)
qed

lemma roundedSz_eq: "n + 15 < 2 ^ 64 \<Longrightarrow> roundedSz n = round_up n 16"
proof -
  assume n: "n + 15 < 2 ^ 64"
  have "unat ((of_nat n :: 64 word) + 15) = n + 15"
    using n by (simp add: unat_word_ariths unat_of_nat)
  then have "unat (((of_nat n :: 64 word) + 15) AND NOT 15) = (n + 15) div 16 * 16"
    by (simp only: unat_align16)
  then show ?thesis
    unfolding roundedSz_def MIN_ALLOC_SIZE_def round_up_def by simp
qed

lemma round_up_16: "0 < n \<Longrightarrow> \<exists>i. 0 < i \<and> round_up n 16 = 16 * i"
  by (metis dvdE gr0I mult_0_right not_less0 round_up_dvd round_up_ge zero_less_numeral
      linorder_not_le)

subsection \<open>The invariant of the buckets\<close>

definition bucket_ok :: "nat \<Rightarrow> fsheap \<Rightarrow> bool" where
  "bucket_ok i h \<longleftrightarrow> mAllocSz h = 16 * i \<and> (0 < i \<longrightarrow> fsh_inv h) \<and>
     (\<forall>b \<in> set (mBigBlocks h). 16 dvd mBeg b)"

definition kah_inv :: "kaheap \<Rightarrow> bool" where
  "kah_inv k \<longleftrightarrow> length k = NUM_BUCKETS \<and>
     (\<forall>i < length k. \<forall>h. k ! i = Some h \<longrightarrow> bucket_ok i h)"

lemma kah_inv_make: "kah_inv kah_make"
  by (simp add: kah_inv_def kah_make_def)

lemma kah_inv_update: "kah_inv k \<Longrightarrow> bucket_ok i h \<Longrightarrow> kah_inv (k[i := Some h])"
  by (cases "i < length k") (auto simp: kah_inv_def nth_list_update split: if_splits)

lemma bucket_ok_make: "bucket_ok i (fsh_make (16 * i))"
  by (simp add: bucket_ok_def fsh_make_def fsh_inv_def)

lemma heapForSize_ok:
  assumes "kah_inv k" "n \<le> 4080"
  obtains h k' where "heapForSize n k = Inr (round_up n 16 div 16, h, k')"
    "bucket_ok (round_up n 16 div 16) h" "kah_inv k'" "length k' = 256"
    "k' ! (round_up n 16 div 16) = Some h" "round_up n 16 div 16 < 256"
proof -
  obtain i where ru: "round_up n 16 = 16 * i" by (metis dvdE round_up_dvd)
  have "round_up n 16 \<le> 4080" using assms(2) by (intro round_up_least) auto
  then have i: "i < 256" and r: "roundedSz n = 16 * i"
    using assms(2) by (auto simp: roundedSz_eq ru)
  have len: "length k = 256" using assms(1)
    by (simp add: kah_inv_def NUM_BUCKETS_def MAX_ALLOC_SIZE_def MIN_ALLOC_SIZE_def ALLOC_SIZE_def)
  show ?thesis
  proof (cases "k ! i")
    case None
    then have "heapForSize n k =
        Inr (round_up n 16 div 16, fsh_make (16 * i), k[i := Some (fsh_make (16 * i))])"
      using i r len by (simp add: heapForSize_def MIN_ALLOC_SIZE_def Let_def ru)
    then show ?thesis
      by (rule that)
        (use kah_inv_update [OF assms(1) bucket_ok_make] bucket_ok_make i len in \<open>auto simp: ru\<close>)
  next
    case (Some h)
    then have "heapForSize n k = Inr (round_up n 16 div 16, h, k)"
      using i r len by (simp add: heapForSize_def MIN_ALLOC_SIZE_def Let_def ru)
    then show ?thesis
      by (rule that) (use assms(1) i len Some in \<open>auto simp: kah_inv_def ru\<close>)
  qed
qed

text \<open>Requests above 4080 bytes find no bucket, although blocks of up to 4096 bytes are admitted.\<close>

lemma heapForSize_too_big:
  assumes "kah_inv k" "4080 < n" "n + 15 < 2 ^ 64"
  shows "heapForSize n k = Inl (AssertFail ''index < mHeapsForSz.size()'')"
proof -
  have "4080 < round_up n 16" using round_up_ge [of 16 n] assms(2) by simp
  moreover have "16 dvd round_up n 16" by simp
  ultimately have "256 \<le> round_up n 16 div 16" by presburger
  then show ?thesis using assms(1,3)
    by (simp add: heapForSize_def Let_def roundedSz_eq MIN_ALLOC_SIZE_def kah_inv_def NUM_BUCKETS_def
        MAX_ALLOC_SIZE_def ALLOC_SIZE_def)
qed

subsection \<open>Allocation and deallocation of argument blocks\<close>

lemma and_15_zero: "16 dvd n \<Longrightarrow> (of_nat n :: 64 word) AND 15 = 0"
proof -
  assume "16 dvd n"
  then obtain q where "n = 16 * q" ..
  then have n: "(of_nat n :: 64 word) = push_bit 4 (of_nat q)" by (simp add: push_bit_eq_mult)
  have m: "(15 :: 64 word) = mask 4" by (simp add: mask_eq_exp_minus_1)
  show ?thesis by (simp only: n m take_bit_eq_mask [symmetric]) (simp only: take_bit_push_bit, simp)
qed

lemma bucket_chunk_aligned:
  assumes "bucket_ok i h" "r \<in># fsh_stock h"
  shows "16 dvd mBeg r \<and> mEnd r = mBeg r + 16 * i"
proof -
  from stock_chunk [OF assms(2)] obtain b where
    b: "b \<in> set (mBigBlocks h)" "r \<in> set (chunks (mAllocSz h) b)" by blast
  then show ?thesis using assms(1)
    by (auto simp: bucket_ok_def chunks_def)
qed

lemma fsh_allocate_bucket:
  assumes b: "bucket_ok i h" "0 < i" "i < 256" and p: "16 dvd mBeg p"
    and new: "mFreeBlocks h = [] \<longrightarrow> new_block h p"
  obtains blk h' where "fsh_allocate p h = Some (Inr (blk, h'))" "bucket_ok i h'"
    "16 dvd mBeg blk" "mEnd blk = mBeg blk + 16 * i"
proof -
  have inv: "fsh_inv h" using b by (simp add: bucket_ok_def)
  from fsh_allocate_ok [OF inv new] obtain blk h' news where
    a: "fsh_allocate p h = Some (Inr (blk, h'))" "fsh_inv h'" "fsh_stock h' = fsh_stock h + news"
    "add_mset blk (mset (mFreeBlocks h')) = mset (mFreeBlocks h) + news" "mAllocSz h' = mAllocSz h" .
  have "mBigBlocks h' = mBigBlocks h \<or> mBigBlocks h' = mBigBlocks h @ [p]"
    using a(1) by (auto simp: fsh_allocate_def fsh_replenish_def fsh_take_def rbind_eq_Inr Let_def
        split: if_splits sum.splits)
  then have ok: "bucket_ok i h'" using a b p by (auto simp: bucket_ok_def)
  have "blk \<in># mset (mFreeBlocks h) + news" by (simp flip: a(4))
  moreover have "mset (mFreeBlocks h) \<subseteq># fsh_stock h" using inv by (simp add: fsh_inv_def)
  ultimately have "blk \<in># fsh_stock h'" using a(3) by (auto dest: mset_subset_eqD)
  then show ?thesis using that [OF a(1) ok] bucket_chunk_aligned [OF ok] by blast
qed

definition fresh_page :: "nat \<Rightarrow> kaheap \<Rightarrow> bool" where
  "fresh_page ptr k \<longleftrightarrow> ptr \<noteq> 0 \<and> 16 dvd ptr \<and> (\<forall>h \<in> Option.these (set k).
     \<forall>c \<in> set (mBigBlocks h). apart \<lparr>mBeg = ptr, mEnd = ptr + ALLOC_SIZE\<rparr> c)"

lemma kah_allocate_ok:
  assumes inv: "kah_inv k" and n: "0 < n" "n \<le> 4080" and page: "fresh_page ptr k"
  obtains blk k' where "kah_allocate ptr n k = Some (Inr (blk, k'))" "kah_inv k'"
    "16 dvd mBeg blk" "mEnd blk = mBeg blk + round_up n 16"
proof -
  obtain i where i: "0 < i" "round_up n 16 = 16 * i" using round_up_16 [OF n(1)] by blast
  from heapForSize_ok [OF inv n(2)] obtain h k1 where
    h: "heapForSize n k = Inr (i, h, k1)" "bucket_ok i h" "kah_inv k1" "length k1 = 256"
      "k1 ! i = Some h" "i < 256"
    unfolding i(2) by auto
  have small: "16 * i \<le> 4080" using round_up_least [of 16 4080 n] n(2) by (simp add: i(2))
  let ?big = "if mFreeBlocks h = [] then \<lparr>mBeg = ptr, mEnd = ptr + ALLOC_SIZE\<rparr> else null_blk"
  have bk: "(if mFreeBlocks h = [] then backing_allocate ptr else Inr null_blk) = Inr ?big"
    using page by (simp add: backing_allocate_def fresh_page_def)
  have "mFreeBlocks h = [] \<longrightarrow> new_block h ?big"
  proof
    assume e: "mFreeBlocks h = []"
    have "h = fsh_make (mAllocSz h) \<or> Some h \<in> set k"
      using h(1) by (auto simp: heapForSize_def Let_def rbind_eq_Inr fsh_make_def check_eq_Inr
          split: option.splits intro: nth_mem) (metis nth_mem)
    then have "\<forall>c \<in> set (mBigBlocks h). apart \<lparr>mBeg = ptr, mEnd = ptr + ALLOC_SIZE\<rparr> c"
      using page unfolding fresh_page_def in_these_eq [symmetric]
      by (metis empty_iff empty_set fsh_make_def fsheap.select_convs(3))
    then show "new_block h ?big" using e h(2) small by (simp add: new_block_def bucket_ok_def ALLOC_SIZE_def)
  qed
  moreover have "16 dvd mBeg ?big" using page by (auto simp: fresh_page_def null_blk_def)
  ultimately obtain blk h' where a: "fsh_allocate ?big h = Some (Inr (blk, h'))" "bucket_ok i h'"
    "16 dvd mBeg blk" "mEnd blk = mBeg blk + 16 * i"
    using fsh_allocate_bucket [OF h(2) i(1) h(6), of ?big] by blast
  have "kah_allocate ptr n k = Some (Inr (blk, k1[i := Some h']))"
    unfolding kah_allocate_def using n(1) h(1) bk a(1) by simp
  then show ?thesis
    by (rule that) (use kah_inv_update [OF h(3) a(2)] a i in auto)
qed

text \<open>Every block handed out passes the check made when its packet is written.\<close>

lemma checkKernArgBlk_ok:
  "16 dvd mBeg blk \<Longrightarrow> mEnd blk = mBeg blk + round_up n 16 \<Longrightarrow> checkKernArgBlk blk = Inr ()"
  using round_up_dvd [of 16 n]
  by (simp add: checkKernArgBlk_def MIN_ALLOC_SIZE_def and_15_zero blk_size_def)

text \<open>A block that was allocated is accepted by \<open>deallocate\<close>.\<close>

lemma kah_deallocate_ok:
  assumes inv: "kah_inv k" and n: "0 < n" "n \<le> 4080"
    and blk: "mEnd blk = mBeg blk + round_up n 16"
  shows "\<exists>k'. kah_deallocate blk k = Inr k'"
proof -
  obtain i where i: "0 < i" "round_up n 16 = 16 * i" using round_up_16 [OF n(1)] by blast
  have small: "16 * i \<le> 4080" using round_up_least [of 16 4080 n] n(2) by (simp add: i(2))
  have ru: "round_up (16 * i) 16 = 16 * i" by (simp add: round_up_id)
  have "round_up (16 * i) 16 div 16 = i" by (simp add: ru)
  with heapForSize_ok [OF inv small] obtain h k1 where
    "heapForSize (16 * i) k = Inr (i, h, k1)" "bucket_ok i h"
    by metis
  moreover have "blk_size blk = Inr (16 * i)" "\<not> blk_empty blk"
    using blk i by (simp_all add: blk_empty_def blk_size_def)
  ultimately show ?thesis using i small
    by (simp add: kah_deallocate_def blk_empty_def blk_size_def MIN_ALLOC_SIZE_def
        MAX_ALLOC_SIZE_def ALLOC_SIZE_def fsh_deallocate_def bucket_ok_def)
qed

section \<open>DeviceMemManager\<close>

record devmem =
  mAllocated :: "nat list"
  mFreed :: "nat list"

definition dm_allocate :: "nat \<Rightarrow> nat \<Rightarrow> devmem \<Rightarrow> (nat \<times> devmem) res" where
  "dm_allocate ret numElem m = rbind (check (0 < numElem) ''numElem > 0'') (\<lambda>_.
     rbind (check (ret \<noteq> 0) ''ret'') (\<lambda>_.
     rbind (vs_insert (mAllocated m) ret) (\<lambda>v. Inr (ret, m\<lparr>mAllocated := v\<rparr>))))"

definition dm_free :: "nat \<Rightarrow> devmem \<Rightarrow> devmem res" where
  "dm_free ptr m = rbind (check (ptr \<noteq> 0) ''ptr'') (\<lambda>_.
     rbind (check (vs_contains (mAllocated m) ptr) ''mAllocated.contains(ptr)'') (\<lambda>_.
     rbind (vs_erase (mAllocated m) ptr) (\<lambda>v.
     Inr (m\<lparr>mAllocated := v, mFreed := mFreed m @ [ptr]\<rparr>))))"

text \<open>
  The destructor runs a range-for over \<open>mAllocated\<close> and calls \<open>free\<close> in its body, which erases
  from \<open>mAllocated\<close>. The end of the range is computed once, before the first iteration, so the
  loop goes on to positions the vector no longer has.
\<close>

definition dm_destroy :: "devmem \<Rightarrow> devmem res" where
  "dm_destroy m = rbind (for_each (\<lambda>i m'.
       if i < length (mAllocated m') then dm_free (mAllocated m' ! i) m'
       else Inl (Undefined ''iterator past the end''))
     [0..<length (mAllocated m)] m) (\<lambda>m'. Inr (m'\<lparr>mAllocated := []\<rparr>))"

definition dm_inv :: "devmem \<Rightarrow> bool" where
  "dm_inv m \<longleftrightarrow> distinct (mAllocated m) \<and> 0 \<notin> set (mAllocated m)"

lemma dm_free_ok:
  assumes "dm_inv m" "p \<in> set (mAllocated m)"
  obtains m' where "dm_free p m = Inr m'" "dm_inv m'" "mFreed m' = mFreed m @ [p]"
    "set (mAllocated m') = set (mAllocated m) - {p}"
    "length (mAllocated m) = Suc (length (mAllocated m'))"
proof -
  obtain v where v: "vs_erase (mAllocated m) p = Inr v" "distinct v" "set v = set (mAllocated m) - {p}"
    using vset.del_present [of "mAllocated m" p] assms by (auto simp: dm_inv_def)
  have "length v = card (set (mAllocated m) - {p})"
    using v by (simp flip: v(3) add: distinct_card)
  also have "Suc \<dots> = card (set (mAllocated m))"
    using assms by (intro card_Suc_Diff1) auto
  also have "\<dots> = length (mAllocated m)"
    using assms by (simp add: dm_inv_def distinct_card)
  finally have "length (mAllocated m) = Suc (length v)" by simp
  moreover have "p \<noteq> 0" using assms by (metis dm_inv_def)
  ultimately show ?thesis
    using assms v by (intro that [of "m\<lparr>mAllocated := v, mFreed := mFreed m @ [p]\<rparr>"])
      (auto simp: dm_free_def dm_inv_def vset.mem_iff vs_contains_def)
qed

lemma dm_free_unknown:
  assumes "p \<noteq> 0" "p \<notin> set (mAllocated m)" "distinct (mAllocated m)"
  shows "dm_free p m = Inl (AssertFail ''mAllocated.contains(ptr)'')"
  using assms by (simp add: dm_free_def vset.mem_iff)

text \<open>After the first \<open>free\<close> the positions run past the end before the loop is over.\<close>

lemma dm_destroy_loop:
  assumes "dm_inv m" "length (mAllocated m) = n - j" "0 < j" "j < n"
  shows "\<exists>e. for_each (\<lambda>i m'. if i < length (mAllocated m') then dm_free (mAllocated m' ! i) m'
       else Inl (Undefined ''iterator past the end'')) [j..<n] m = Inl e"
  using assms
proof (induction "n - j" arbitrary: j m)
  case 0
  then show ?case by simp
next
  case (Suc k)
  have up: "[j..<n] = j # [Suc j..<n]" using Suc.prems by (simp add: upt_conv_Cons)
  show ?case
  proof (cases "j < n - j")
    case True
    with Suc.prems obtain m' where m': "dm_free (mAllocated m ! j) m = Inr m'" "dm_inv m'"
      "length (mAllocated m) = Suc (length (mAllocated m'))"
      by (metis dm_free_ok nth_mem)
    with Suc.hyps(1) [of "Suc j" m'] Suc.hyps(2) Suc.prems True show ?thesis
      by (simp add: up)
  qed (use Suc.prems in \<open>simp add: up\<close>)
qed

text \<open>
  The destructor of \<open>DeviceMemManager\<close> is well defined exactly when at most one allocation is
  left: with two or more, the loop over \<open>mAllocated\<close> reads a position that \<open>free\<close> has erased.
\<close>

theorem dm_destroy_defined_iff:
  assumes "dm_inv m"
  shows "(\<exists>m'. dm_destroy m = Inr m') \<longleftrightarrow> length (mAllocated m) \<le> 1"
proof -
  consider "mAllocated m = []" | p where "mAllocated m = [p]" | "2 \<le> length (mAllocated m)"
    by (cases "mAllocated m" rule: remdups_adj.cases) auto
  then show ?thesis
  proof cases
    case 1
    then show ?thesis by (simp add: dm_destroy_def)
  next
    case 2
    with assms obtain m' where "dm_free p m = Inr m'" by (metis dm_free_ok list.set_intros(1))
    with 2 show ?thesis by (simp add: dm_destroy_def)
  next
    case 3
    let ?n = "length (mAllocated m)"
    have up: "[0..<?n] = 0 # [Suc 0..<?n]" by (rule upt_conv_Cons) (use 3 in linarith)
    from 3 assms obtain m' where m': "dm_free (mAllocated m ! 0) m = Inr m'" "dm_inv m'"
      "?n = Suc (length (mAllocated m'))"
      by (metis dm_free_ok nth_mem One_nat_def Suc_1 Suc_le_lessD less_trans zero_less_one)
    obtain e where "for_each (\<lambda>i m'. if i < length (mAllocated m') then
        dm_free (mAllocated m' ! i) m' else Inl (Undefined ''iterator past the end''))
        [Suc 0..<?n] m' = Inl e"
      using dm_destroy_loop [of m' ?n 1] m' 3 by force
    moreover have "0 < ?n" using 3 by linarith
    ultimately have "dm_destroy m = Inl e"
      unfolding dm_destroy_def up for_each.simps using m'(1)
      by (simp del: upt_Suc)
    with 3 show ?thesis by auto
  qed
qed

lemma dm_destroy_defined_iff_witness:
  "\<not> (\<exists>m'. dm_destroy \<lparr>mAllocated = [16, 32], mFreed = []\<rparr> = Inr m')"
  using dm_destroy_defined_iff [of "\<lparr>mAllocated = [16, 32], mFreed = []\<rparr>"]
  by (simp add: dm_inv_def)

section \<open>Properties of the kernel-argument heap\<close>

text \<open>
  C9: every request of 1 to 4080 bytes is served, by a block that is rounded up to 16 bytes, aligned
  to 16 bytes, accepted by the check made when a packet is written, and accepted when it is released.
\<close>

theorem kernarg_request_served:
  assumes "kah_inv k" "0 < n" "n \<le> 4080" "fresh_page ptr k"
  shows "\<exists>blk k' k''. kah_allocate ptr n k = Some (Inr (blk, k')) \<and> kah_inv k' \<and> 16 dvd mBeg blk \<and>
    mEnd blk = mBeg blk + round_up n 16 \<and> checkKernArgBlk blk = Inr () \<and> kah_deallocate blk k' = Inr k''"
proof -
  from kah_allocate_ok [OF assms] obtain blk k' where
    a: "kah_allocate ptr n k = Some (Inr (blk, k'))" "kah_inv k'" "16 dvd mBeg blk"
      "mEnd blk = mBeg blk + round_up n 16" by blast
  from kah_deallocate_ok [OF a(2) assms(2,3) a(4)] show ?thesis
    using a checkKernArgBlk_ok [OF a(3,4)] by blast
qed

theorem kernarg_request_served_witness:
  "\<exists>blk k'. kah_allocate 8192 100 kah_make = Some (Inr (blk, k')) \<and> mEnd blk = mBeg blk + 112"
proof -
  have "fresh_page 8192 kah_make" by (auto simp: fresh_page_def kah_make_def in_these_eq)
  from kernarg_request_served [OF kah_inv_make _ _ this, of 100] show ?thesis
    by (auto simp: round_up_def)
qed

text \<open>
  Requests of 4081 to 4096 bytes, which \<open>MAX_ALLOC_SIZE\<close> allows, fail: the table has one bucket too
  few.
\<close>

theorem kernarg_largest_fails:
  assumes "kah_inv k" "4080 < n" "n \<le> MAX_ALLOC_SIZE"
  shows "kah_allocate ptr n k = Some (Inl (AssertFail ''index < mHeapsForSz.size()''))"
  using heapForSize_too_big [OF assms(1,2)] assms(2,3)
  by (simp add: kah_allocate_def MAX_ALLOC_SIZE_def ALLOC_SIZE_def)

theorem kernarg_largest_fails_witness:
  "kah_allocate 8192 4096 kah_make = Some (Inl (AssertFail ''index < mHeapsForSz.size()''))"
  by (rule kernarg_largest_fails [OF kah_inv_make]) (simp_all add: MAX_ALLOC_SIZE_def ALLOC_SIZE_def)

end
