(* ===== verification/KernArgs.thy ===== *)
theory KernArgs
  imports Prelude
begin

text \<open>
  Packing of kernel arguments into a byte buffer: \<open>impl::argOffsetInBuff\<close> and
  \<open>impl::packKernArgsCompOffset\<close> of \<open>dagee/ATMIcoreDef.h\<close> (used by the ATMI task instances) and
  \<open>impl::ArgBufSizeImpl\<close>, \<open>impl::copyArgUpdateOffset\<close> and \<open>impl::packKernArgs\<close> of
  \<open>dagr/kernel.h\<close>. An argument is its size, its alignment and the bytes of its representation.
\<close>

unbundle bit_operations_syntax

record arg =
  argSz :: nat
  argAlign :: nat
  argBytes :: "byte list"

definition arg_ok :: "arg \<Rightarrow> bool" where
  "arg_ok a \<longleftrightarrow> 0 < argAlign a \<and> length (argBytes a) = argSz a"

section \<open>ATMI task instances\<close>

text \<open>The result and the new value of \<open>currBufSz\<close>.\<close>

definition argOffsetInBuff :: "nat \<Rightarrow> nat \<Rightarrow> nat \<Rightarrow> nat \<times> nat" where
  "argOffsetInBuff currBufSz sz align =
     (let currBufSz' = ((currBufSz + align - 1) div align) * align + sz in (currBufSz' - sz, currBufSz'))"

fun arg_offsets :: "nat \<Rightarrow> arg list \<Rightarrow> nat list \<times> nat" where
  "arg_offsets cur [] = ([], cur)"
| "arg_offsets cur (a # as) = (case argOffsetInBuff cur (argSz a) (argAlign a) of (off, cur') \<Rightarrow>
     case arg_offsets cur' as of (offs, tot) \<Rightarrow> (off # offs, tot))"

text \<open>Placement \<open>new\<close> at an offset of the buffer.\<close>

definition place_arg :: "byte list \<Rightarrow> nat \<Rightarrow> byte list \<Rightarrow> byte list res" where
  "place_arg buf off bs = (if off + length bs \<le> length buf
     then Inr (take off buf @ bs @ drop (off + length bs) buf)
     else Inl (Undefined ''write past the end of the buffer''))"

fun construct_args :: "nat \<Rightarrow> arg list \<Rightarrow> byte list \<Rightarrow> byte list res" where
  "construct_args cur [] buf = Inr buf"
| "construct_args cur (a # as) buf = (case argOffsetInBuff cur (argSz a) (argAlign a) of (off, cur') \<Rightarrow>
     rbind (place_arg buf off (argBytes a)) (construct_args cur' as))"

definition packKernArgsCompOffset :: "arg list \<Rightarrow> (nat list \<times> byte list) res" where
  "packKernArgsCompOffset args = (case arg_offsets 0 args of (offs, tot) \<Rightarrow>
     rbind (construct_args 0 args (replicate tot 0)) (\<lambda>buf. Inr (offs, buf)))"

subsection \<open>The layout\<close>

lemma argOffset_eq: "argOffsetInBuff cur sz al = (round_up cur al, round_up cur al + sz)"
  by (simp add: argOffsetInBuff_def round_up_def Let_def)

fun layout :: "nat \<Rightarrow> arg list \<Rightarrow> nat list" where
  "layout cur [] = []"
| "layout cur (a # as) = round_up cur (argAlign a) # layout (round_up cur (argAlign a) + argSz a) as"

fun layout_end :: "nat \<Rightarrow> arg list \<Rightarrow> nat" where
  "layout_end cur [] = cur"
| "layout_end cur (a # as) = layout_end (round_up cur (argAlign a) + argSz a) as"

lemma arg_offsets_layout: "arg_offsets cur as = (layout cur as, layout_end cur as)"
  by (induction as arbitrary: cur) (auto simp: argOffset_eq split: prod.splits)

lemma length_layout [simp]: "length (layout cur as) = length as"
  by (induction as arbitrary: cur) auto

lemma layout_end_ge: "\<forall>a \<in> set as. 0 < argAlign a \<Longrightarrow> cur \<le> layout_end cur as"
proof (induction as arbitrary: cur)
  case (Cons a as)
  have "cur \<le> round_up cur (argAlign a)" using Cons.prems by (simp add: round_up_ge)
  also have "\<dots> \<le> layout_end (round_up cur (argAlign a) + argSz a) as"
    using Cons.IH [of "round_up cur (argAlign a) + argSz a"] Cons.prems by simp
  finally show ?case by simp
qed simp

text \<open>Aligned, in order, disjoint and within the buffer.\<close>

definition layout_ok :: "nat \<Rightarrow> nat \<Rightarrow> arg list \<Rightarrow> nat list \<Rightarrow> bool" where
  "layout_ok lo hi as offs \<longleftrightarrow> length offs = length as \<and>
     (\<forall>i < length as. argAlign (as ! i) dvd offs ! i \<and> lo \<le> offs ! i \<and> offs ! i + argSz (as ! i) \<le> hi) \<and>
     (\<forall>i j. i < j \<longrightarrow> j < length as \<longrightarrow> offs ! i + argSz (as ! i) \<le> offs ! j)"

lemma layout_layout_ok:
  "\<forall>a \<in> set as. 0 < argAlign a \<Longrightarrow> layout_ok cur (layout_end cur as) as (layout cur as)"
proof (induction as arbitrary: cur)
  case Nil
  show ?case by (simp add: layout_ok_def)
next
  case (Cons a as)
  let ?o = "round_up cur (argAlign a)"
  have al: "0 < argAlign a" and as: "\<forall>a \<in> set as. 0 < argAlign a" using Cons.prems by auto
  have le: "cur \<le> ?o" using al by (rule round_up_ge)
  have en: "?o + argSz a \<le> layout_end (?o + argSz a) as" using layout_end_ge [OF as] .
  have IH: "layout_ok (?o + argSz a) (layout_end (?o + argSz a) as) as (layout (?o + argSz a) as)"
    using Cons.IH [OF as] .
  show ?case
    unfolding layout_ok_def
  proof (intro conjI allI impI)
    fix i assume i: "i < length (a # as)"
    show "argAlign ((a # as) ! i) dvd layout cur (a # as) ! i"
      using IH i by (cases i) (auto simp: layout_ok_def)
    show "cur \<le> layout cur (a # as) ! i"
      using IH i le by (cases i) (fastforce simp: layout_ok_def)+
    show "layout cur (a # as) ! i + argSz ((a # as) ! i) \<le> layout_end cur (a # as)"
      using IH i en by (cases i) (auto simp: layout_ok_def)
  next
    fix i j assume ij: "i < j" "j < length (a # as)"
    then obtain k where j: "j = Suc k" "k < length as" by (cases j) auto
    show "layout cur (a # as) ! i + argSz ((a # as) ! i) \<le> layout cur (a # as) ! j"
      using IH ij j by (cases i) (auto simp: layout_ok_def)
  qed simp
qed

subsection \<open>The bytes\<close>

lemma place_ok:
  assumes "off + length bs \<le> length buf"
  obtains buf' where "place_arg buf off bs = Inr buf'" "length buf' = length buf"
    "take off buf' = take off buf" "take (length bs) (drop off buf') = bs"
    "drop (off + length bs) buf' = drop (off + length bs) buf"
proof -
  let ?b = "take off buf @ bs @ drop (off + length bs) buf"
  have l: "length (take off buf) = off" using assms by simp
  have "take off ?b = take off buf" using l by simp
  moreover have "take (length bs) (drop off ?b) = bs" using l by simp
  moreover have "drop (off + length bs) ?b = drop (off + length bs) buf" using l by simp
  moreover have "length ?b = length buf" using assms by simp
  ultimately show ?thesis using assms that [of ?b] by (simp add: place_arg_def)
qed

text \<open>Constructing the later arguments leaves everything below the current offset alone.\<close>

lemma construct_args_ok:
  assumes "\<forall>a \<in> set as. arg_ok a" "layout_end cur as \<le> length buf"
  shows "\<exists>buf'. construct_args cur as buf = Inr buf' \<and> length buf' = length buf \<and>
    take cur buf' = take cur buf \<and>
    (\<forall>i < length as. take (argSz (as ! i)) (drop (layout cur as ! i) buf') = argBytes (as ! i))"
  using assms
proof (induction as arbitrary: cur buf)
  case (Cons a as)
  let ?o = "round_up cur (argAlign a)"
  have sz: "length (argBytes a) = argSz a" "0 < argAlign a" using Cons.prems by (auto simp: arg_ok_def)
  have as: "\<forall>a \<in> set as. 0 < argAlign a" using Cons.prems by (auto simp: arg_ok_def)
  have le: "cur \<le> ?o" using sz by (intro round_up_ge) simp
  have "?o + argSz a \<le> length buf"
    using layout_end_ge [OF as, of "?o + argSz a"] Cons.prems by simp
  then obtain buf1 where b1: "place_arg buf ?o (argBytes a) = Inr buf1" "length buf1 = length buf"
    "take ?o buf1 = take ?o buf" "take (argSz a) (drop ?o buf1) = argBytes a"
    using place_ok [of ?o "argBytes a" buf] sz(1) by metis
  obtain buf2 where b2: "construct_args (?o + argSz a) as buf1 = Inr buf2" "length buf2 = length buf"
    "take (?o + argSz a) buf2 = take (?o + argSz a) buf1"
    "\<forall>i < length as. take (argSz (as ! i)) (drop (layout (?o + argSz a) as ! i) buf2) = argBytes (as ! i)"
    using Cons.IH [of "?o + argSz a" buf1] Cons.prems b1(2) by auto
  have "take (argSz a) (drop ?o buf2) = take (argSz a) (drop ?o (take (?o + argSz a) buf2))"
    by (simp add: take_drop)
  also have "\<dots> = argBytes a" unfolding b2(3) using b1(4) by (simp add: take_drop)
  finally have here: "take (argSz a) (drop ?o buf2) = argBytes a" .
  have "take cur buf2 = take cur (take (?o + argSz a) buf2)" using le by (simp add: min_def)
  also have "\<dots> = take cur (take ?o buf1)" unfolding b2(3) using le by (simp add: min_def)
  also have "\<dots> = take cur buf" unfolding b1(3) using le by (simp add: min_def)
  finally have low: "take cur buf2 = take cur buf" .
  have "\<forall>i < length (a # as). take (argSz ((a # as) ! i)) (drop (layout cur (a # as) ! i) buf2) =
      argBytes ((a # as) ! i)"
    using here b2(4) by (auto simp: less_Suc_eq_0_disj)
  then show ?case using b1(1) b2(1,2) low by (auto simp: argOffset_eq)
qed simp

text \<open>
  C12: the buffer of packed kernel arguments holds, at each recorded offset, exactly the bytes of the
  argument; the offsets are aligned, in order, disjoint and within the buffer, and no write leaves it.
\<close>

theorem packKernArgs_layout:
  assumes "\<forall>a \<in> set args. arg_ok a"
  shows "\<exists>offs buf. packKernArgsCompOffset args = Inr (offs, buf) \<and> layout_ok 0 (length buf) args offs \<and>
    (\<forall>i < length args. take (argSz (args ! i)) (drop (offs ! i) buf) = argBytes (args ! i))"
proof -
  let ?n = "layout_end 0 args"
  obtain buf where "construct_args 0 args (replicate ?n 0) = Inr buf" "length buf = ?n"
    "\<forall>i < length args. take (argSz (args ! i)) (drop (layout 0 args ! i) buf) = argBytes (args ! i)"
    using construct_args_ok [OF assms, of 0 "replicate ?n 0"] by auto
  moreover have "layout_ok 0 ?n args (layout 0 args)"
    using assms by (intro layout_layout_ok) (auto simp: arg_ok_def)
  ultimately show ?thesis by (auto simp: packKernArgsCompOffset_def arg_offsets_layout)
qed

definition int_arg :: arg where
  "int_arg = \<lparr>argSz = 4, argAlign = 4, argBytes = [1, 2, 3, 4]\<rparr>"

definition ptr_arg :: arg where
  "ptr_arg = \<lparr>argSz = 8, argAlign = 8, argBytes = [9, 8, 7, 6, 5, 4, 3, 2]\<rparr>"

theorem packKernArgs_layout_witness:
  "\<exists>offs buf. packKernArgsCompOffset [int_arg, ptr_arg] = Inr (offs, buf) \<and>
     layout_ok 0 (length buf) [int_arg, ptr_arg] offs \<and> take 8 (drop (offs ! 1) buf) = argBytes ptr_arg"
proof -
  have "\<forall>a \<in> set [int_arg, ptr_arg]. arg_ok a" by (simp add: arg_ok_def int_arg_def ptr_arg_def)
  from packKernArgs_layout [OF this] obtain offs buf where
    p: "packKernArgsCompOffset [int_arg, ptr_arg] = Inr (offs, buf)"
      "layout_ok 0 (length buf) [int_arg, ptr_arg] offs"
      "\<forall>i < length [int_arg, ptr_arg]. take (argSz ([int_arg, ptr_arg] ! i)) (drop (offs ! i) buf) =
        argBytes ([int_arg, ptr_arg] ! i)" by blast
  from p(3) have "take (argSz ([int_arg, ptr_arg] ! 1)) (drop (offs ! 1) buf) = argBytes ptr_arg"
    by (metis length_Cons lessI list.size(3) nth_Cons_0 nth_Cons_Suc One_nat_def)
  then show ?thesis using p(1,2) by (simp add: ptr_arg_def)
qed

section \<open>Arguments of the HSA runtime\<close>

text \<open>
  \<open>(x + align - 1) & ~(align - 1)\<close> on 64-bit words; the alignment of a type is a power of two.
\<close>

definition align_mask :: "nat \<Rightarrow> nat \<Rightarrow> nat" where
  "align_mask x al = unat ((of_nat x + of_nat al - 1 :: 64 word) AND NOT (of_nat al - 1))"

text \<open>
  \<open>ArgBufSizeImpl\<close> has no specialisation that its own recursion reaches: after the last argument the
  pack is empty, while the primary template needs one more argument and the base case two.
\<close>

fun ArgBufSizeImpl :: "nat \<Rightarrow> arg list \<Rightarrow> nat res" where
  "ArgBufSizeImpl cur [] = Inl (NoMember ''ArgBufSizeImpl<CURR_SZ>'')"
| "ArgBufSizeImpl cur (a # as) = ArgBufSizeImpl (align_mask cur (argAlign a) + argSz a) as"

definition ArgBufSize :: "arg list \<Rightarrow> nat res" where
  "ArgBufSize args = (if args = [] then Inr 0 else ArgBufSizeImpl 0 args)"

definition copyArgUpdateOffset :: "arg \<Rightarrow> byte list \<times> nat \<Rightarrow> (byte list \<times> nat) res" where
  "copyArgUpdateOffset a = (\<lambda>(buffer, offset).
     rbind (check (offset < length buffer) ''offset < buffer.size()'') (\<lambda>_.
     let offset' = align_mask offset (argAlign a) in
     rbind (check (offset' < length buffer) ''offset < buffer.size()'') (\<lambda>_.
     rbind (place_arg buffer offset' (argBytes a)) (\<lambda>buffer'.
     rbind (check (offset' + argSz a \<le> length buffer') ''offset <= buffer.size()'') (\<lambda>_.
     Inr (buffer', offset' + argSz a))))))"

text \<open>
  The expansion of the pack is an array of \<open>int\<close> whose elements have the type \<open>void\<close>, which the
  compiler rejects as soon as there is an argument: only the instance that packs nothing exists.
\<close>

definition dagr_packKernArgs :: "arg list \<Rightarrow> 'm \<Rightarrow> 'm res" where
  "dagr_packKernArgs args memory = (if args = [] then Inr memory else Inl (NoMember ''array of int from void''))"

lemma align_mask_eq:
  assumes "al = 2 ^ k" "k < 64" "x + al < 2 ^ 64"
  shows "align_mask x al = round_up x al"
proof -
  let ?m = "mask k :: 64 word"
  have al: "(of_nat al :: 64 word) - 1 = ?m" using assms(1) by (simp add: mask_eq_exp_minus_1)
  have nm: "w AND NOT ?m = push_bit k (drop_bit k w)" for w :: "64 word"
    by (rule bit_word_eqI) (auto simp: bit_simps)
  have s: "(of_nat x + of_nat al - 1 :: 64 word) = of_nat (x + al - 1)"
  proof -
    have "0 < al" using assms(1) by simp
    then show ?thesis by (subst of_nat_diff) auto
  qed
  have lt: "x + al - 1 < 2 ^ 64" using assms(3) by simp
  then have u: "unat (of_nat (x + al - 1) :: 64 word) = x + al - 1"
    by (simp add: unat_of_nat)
  have le: "(x + al - 1) div al * al < 2 ^ 64"
    using lt div_times_less_eq_dividend [of "x + al - 1" al] by linarith
  have "unat (push_bit k (drop_bit k (of_nat (x + al - 1) :: 64 word))) =
      ((x + al - 1) div 2 ^ k * 2 ^ k) mod 2 ^ 64"
    unfolding unsigned_push_bit_eq unsigned_drop_bit_eq u
    using lt by (simp add: push_bit_eq_mult drop_bit_eq_div take_bit_eq_mod)
  also have "\<dots> = (x + al - 1) div al * al" using le by (simp add: assms(1))
  finally have p: "unat (push_bit k (drop_bit k (of_nat (x + al - 1) :: 64 word))) = (x + al - 1) div al * al" .
  have "align_mask x al = unat ((of_nat x + of_nat al - 1 :: 64 word) AND NOT ?m)"
    unfolding align_mask_def al ..
  then show ?thesis unfolding nm s p round_up_def .
qed

text \<open>
  Both rounding idioms of the library give the same offsets: the calls of \<open>copyArgUpdateOffset\<close>, which
  the pack is meant to expand to, construct the arguments as the packer of the ATMI tasks does.
\<close>

lemma dagr_pack_loop:
  assumes "\<forall>a \<in> set as. arg_ok a \<and> 0 < argSz a \<and> (\<exists>k < 64. argAlign a = 2 ^ k \<and> argAlign a < 2 ^ 32)"
    "layout_end cur as \<le> length buf" "length buf < 2 ^ 63"
  shows "rbind (for_each copyArgUpdateOffset as (buf, cur)) (\<lambda>(b, _). Inr b) = construct_args cur as buf"
  using assms
proof (induction as arbitrary: cur buf)
  case (Cons a as)
  let ?o = "round_up cur (argAlign a)"
  from Cons.prems(1) obtain k where k: "k < 64" "argAlign a = 2 ^ k" "argAlign a < 2 ^ 32" by auto
  have sz: "length (argBytes a) = argSz a" "0 < argAlign a" "0 < argSz a"
    using Cons.prems(1) by (auto simp: arg_ok_def)
  have as: "\<forall>a \<in> set as. 0 < argAlign a" using Cons.prems(1) by (auto simp: arg_ok_def)
  have le: "cur \<le> ?o" using sz(2) by (rule round_up_ge)
  have fit: "?o + argSz a \<le> length buf"
    using layout_end_ge [OF as, of "?o + argSz a"] Cons.prems(2) by simp
  have "cur + argAlign a < 2 ^ 64" using k(3) le fit Cons.prems(3) by simp
  then have o: "align_mask cur (argAlign a) = ?o" using k by (intro align_mask_eq) auto
  obtain buf1 where b1: "place_arg buf ?o (argBytes a) = Inr buf1" "length buf1 = length buf"
    using place_ok [of ?o "argBytes a" buf] sz(1) fit by metis
  have "copyArgUpdateOffset a (buf, cur) = Inr (buf1, ?o + argSz a)"
    using le fit sz(3) b1 by (simp add: copyArgUpdateOffset_def o Let_def)
  moreover have "rbind (for_each copyArgUpdateOffset as (buf1, ?o + argSz a)) (\<lambda>(b, _). Inr b) =
      construct_args (?o + argSz a) as buf1"
    using Cons.prems b1(2) by (intro Cons.IH) auto
  ultimately show ?case using b1(1) by (simp add: argOffset_eq)
qed simp

text \<open>No kernel with an argument has a buffer size: the template cannot be instantiated.\<close>

lemma ArgBufSizeImpl_none: "ArgBufSizeImpl cur args = Inl (NoMember ''ArgBufSizeImpl<CURR_SZ>'')"
  by (induction args arbitrary: cur) auto

end
