(* ===== verification/Atmi.thy ===== *)
theory Atmi
  imports KernArgs
begin

text \<open>
  The ATMI executors: launch parameters (\<open>ATMIcoreDef.h\<close>), kernel registration and launch policies
  for CPU, GPU and memory copies (\<open>ATMIcpuExecutor.h\<close>, \<open>ATMIgpuExecutor.h\<close>,
  \<open>ATMImemCopyExecutor.h\<close>) and the executor skeleton (\<open>ATMIbaseExecutor.h\<close>).

  The ATMI runtime is not part of the repository. The state is the list of the calls made to it, and
  what a call returns is given by functions of that list, the arguments \<open>hnd\<close> (task handles) and
  \<open>kern\<close> (kernel handles). The macro \<open>CHECK_ATMI\<close> prints a message and goes on, so a status has no
  further effect.
\<close>

section \<open>The calls to the runtime\<close>

datatype place = PlaceAny nat | PlaceCpu nat nat | PlaceGpu nat nat

datatype fence_scope = ScopeDevice | ScopeSystem

datatype devtype = DevCpu | DevGpu | DevAll

text \<open>\<open>atmi_cparm_t\<close> and \<open>atmi_lparm_t\<close> share their first fields; \<open>None\<close> is a default handle or null.\<close>

record cparam =
  group_handle :: "nat option"
  groupable :: bool
  profilable :: bool
  synchronous :: bool
  num_required :: nat
  requires_arr :: "nat list"
  num_required_groups :: nat
  required_groups :: "nat list"
  task_info :: "nat option"

type_synonym dim3 = "32 word \<times> 32 word \<times> 32 word"
type_synonym dim3u = "64 word \<times> 64 word \<times> 64 word"

record lparam = cparam +
  gridDim :: dim3u
  groupDim :: dim3u
  acquire_scope :: fence_scope
  release_scope :: fence_scope
  atmi_id :: string
  kernel_id :: nat
  continuation_task :: "nat option"
  lplace :: place

text \<open>An argument address: the function pointer of the instance, or an offset in its buffer.\<close>

datatype argaddr = FuncPtrAddr | BufAddr nat

datatype event =
    AtmiInit devtype
  | ModuleRegister "(nat \<times> nat) list"
  | KernelCreate nat nat "nat list" devtype "nat + string"
  | KernelRelease nat
  | TaskCreate nat lparam nat "argaddr list"
  | TaskLaunch nat lparam nat "argaddr list"
  | MemcpyAsync nat cparam nat nat nat
  | TaskActivate nat
  | TaskWait nat

record atmi =
  hnd :: "event list \<Rightarrow> nat"
  kern :: "event list \<Rightarrow> nat"

section \<open>ATMIcoreDef.h\<close>

definition InitAtmiBase :: "event list \<Rightarrow> event list" where
  "InitAtmiBase w = w @ [AtmiInit DevAll]"

definition waitOnTasks :: "nat list \<Rightarrow> event list \<Rightarrow> event list" where
  "waitOnTasks hs w = fold (\<lambda>h w. w @ [TaskWait h]) hs w"

definition activateTasks :: "nat list \<Rightarrow> event list \<Rightarrow> event list" where
  "activateTasks hs w = fold (\<lambda>h w. w @ [TaskActivate h]) hs w"

definition initCopyParam :: cparam where
  "initCopyParam = \<lparr>group_handle = None, groupable = False, profilable = False, synchronous = False,
     num_required = 0, requires_arr = [], num_required_groups = 0, required_groups = [],
     task_info = None\<rparr>"

definition initLaunchParam :: lparam where
  "initLaunchParam = cparam.extend initCopyParam
     \<lparr>gridDim = (1, 1, 1), groupDim = (1, 1, 1), acquire_scope = ScopeSystem,
      release_scope = ScopeSystem, atmi_id = ''ATMI_VRM'', kernel_id = 0, continuation_task = None,
      lplace = PlaceAny 0\<rparr>"

section \<open>Kernel registration\<close>

text \<open>
  The tables are lists of pairs searched by key. On the CPU the key is the wrapper generated for the
  types of function and arguments, \<open>wkey\<close>, and the function itself travels in the result.
\<close>

record cpu_kinfo = ck_kern :: nat  ck_func :: nat
record gpu_kinfo = gk_kern :: nat

type_synonym kern_table = "(nat \<times> nat) list"

definition cpu_registerKernel ::
  "atmi \<Rightarrow> nat \<Rightarrow> nat list \<Rightarrow> nat \<Rightarrow> kern_table \<times> event list \<Rightarrow> cpu_kinfo \<times> kern_table \<times> event list" where
  "cpu_registerKernel A wkey argSizes funcPtr = (\<lambda>(tab, w).
     case map_of tab wkey of
       Some k \<Rightarrow> (\<lparr>ck_kern = k, ck_func = funcPtr\<rparr>, tab, w)
     | None \<Rightarrow> let k = kern A w; w' = w @ [KernelCreate k (length argSizes + 1) (8 # argSizes) DevCpu (Inl wkey)] in
         (\<lparr>ck_kern = k, ck_func = funcPtr\<rparr>, (wkey, k) # tab, w'))"

definition gpu_registerKernel ::
  "atmi \<Rightarrow> (nat \<Rightarrow> string) \<Rightarrow> nat list \<Rightarrow> nat \<Rightarrow> kern_table \<times> event list \<Rightarrow>
    gpu_kinfo \<times> kern_table \<times> event list" where
  "gpu_registerKernel A name argSizes fptr = (\<lambda>(tab, w).
     case map_of tab fptr of
       Some k \<Rightarrow> (\<lparr>gk_kern = k\<rparr>, tab, w)
     | None \<Rightarrow> let k = kern A w; w' = w @ [KernelCreate k (length argSizes) argSizes DevGpu (Inr (name fptr))] in
         (\<lparr>gk_kern = k\<rparr>, (fptr, k) # tab, w'))"

text \<open>\<open>finish\<close> of both policies: release every registered kernel and clear the table.\<close>

definition reg_finish :: "kern_table \<times> event list \<Rightarrow> kern_table \<times> event list" where
  "reg_finish = (\<lambda>(tab, w). ([], fold (\<lambda>k w. w @ [KernelRelease (snd k)]) tab w))"

text \<open>\<open>GpuKernelRegAtmiPolicy::init\<close>: blobs are given by address, size and whether they are for a GPU.\<close>

definition gpu_reg_init :: "(nat \<times> nat \<times> bool) list \<Rightarrow> event list \<Rightarrow> event list res" where
  "gpu_reg_init blobs w =
     (let bs = map (\<lambda>(d, sz, _). (d, sz)) (filter (\<lambda>(d, sz, gpu). sz \<noteq> 0 \<and> gpu) blobs) in
      if bs = [] then Inl (Aborted ''No kernel code in the executable'')
      else Inr (w @ [ModuleRegister bs]))"

section \<open>Task instances\<close>

record task_args =
  mKernArgOffsets :: "nat list"
  mKernArgs :: "byte list"

record cpu_task = task_args +
  mThreads :: dim3
  mCpuKernelInfo :: cpu_kinfo
  cpuTaskHandle :: nat

record gpu_task = task_args +
  mBlocks :: dim3
  mThreadsPerBlock :: dim3
  mKernInfo :: gpu_kinfo
  gpuTaskHandle :: nat

record copy_task =
  mSrc :: nat
  mDst :: nat
  mSize :: nat
  copyTaskHandle :: nat

definition cpu_makeTask :: "dim3 \<Rightarrow> cpu_kinfo \<Rightarrow> arg list \<Rightarrow> cpu_task res" where
  "cpu_makeTask threads ki args = rbind (packKernArgsCompOffset args) (\<lambda>(offs, buf).
     Inr \<lparr>mKernArgOffsets = offs, mKernArgs = buf, mThreads = threads, mCpuKernelInfo = ki,
          cpuTaskHandle = 0\<rparr>)"

definition gpu_makeTask :: "dim3 \<Rightarrow> dim3 \<Rightarrow> gpu_kinfo \<Rightarrow> arg list \<Rightarrow> gpu_task res" where
  "gpu_makeTask blocks threads ki args = rbind (packKernArgsCompOffset args) (\<lambda>(offs, buf).
     Inr \<lparr>mKernArgOffsets = offs, mKernArgs = buf, mBlocks = blocks, mThreadsPerBlock = threads,
          mKernInfo = ki, gpuTaskHandle = 0\<rparr>)"

text \<open>The overload that takes the threads only: one block in each dimension.\<close>

definition gpu_makeTask_threads :: "dim3 \<Rightarrow> gpu_kinfo \<Rightarrow> arg list \<Rightarrow> gpu_task res" where
  "gpu_makeTask_threads threads ki args = gpu_makeTask (1, 1, 1) threads ki args"

definition copy_makeTask :: "nat \<Rightarrow> nat \<Rightarrow> nat \<Rightarrow> nat \<Rightarrow> copy_task" where
  "copy_makeTask sizeofT src dst numElems =
     \<lparr>mSrc = src, mDst = dst, mSize = numElems * sizeofT, copyTaskHandle = 0\<rparr>"

definition cpu_argAddresses :: "cpu_task \<Rightarrow> argaddr list" where
  "cpu_argAddresses ti = FuncPtrAddr # map BufAddr (mKernArgOffsets ti)"

definition gpu_argAddresses :: "gpu_task \<Rightarrow> argaddr list" where
  "gpu_argAddresses ti = map BufAddr (mKernArgOffsets ti)"

section \<open>Launch policies\<close>

text \<open>Products of block and thread counts are formed on 32-bit words and then widened.\<close>

definition widen :: "dim3 \<Rightarrow> dim3u" where
  "widen = (\<lambda>(x, y, z). (ucast x, ucast y, ucast z))"

definition cpu_initLaunchParam :: "bool \<Rightarrow> cpu_task \<Rightarrow> lparam" where
  "cpu_initLaunchParam sync ti = initLaunchParam\<lparr>groupDim := (1, 1, 1), gridDim := widen (mThreads ti),
     synchronous := sync, lplace := PlaceCpu 0 0\<rparr>"

definition gpu_initLaunchParam :: "bool \<Rightarrow> gpu_task \<Rightarrow> lparam" where
  "gpu_initLaunchParam sync ti = (case (mThreadsPerBlock ti, mBlocks ti) of
     ((tx, ty, tz), (bx, b_y, bz)) \<Rightarrow> initLaunchParam\<lparr>groupDim := widen (tx, ty, tz),
       gridDim := widen (tx * bx, ty * b_y, tz * bz), synchronous := sync, lplace := PlaceGpu 0 0\<rparr>)"

definition cpu_kernelHandle :: "cpu_task \<Rightarrow> nat" where
  "cpu_kernelHandle ti = ck_kern (mCpuKernelInfo ti)"

definition gpu_kernelHandle :: "gpu_task \<Rightarrow> nat" where
  "gpu_kernelHandle ti = gk_kern (mKernInfo ti)"

text \<open>\<open>KernelLaunchAtmiPolicy\<close>, over the target policy's three operations.\<close>

definition policy_makeInternalTask ::
  "atmi \<Rightarrow> ('ti \<Rightarrow> lparam) \<Rightarrow> ('ti \<Rightarrow> nat) \<Rightarrow> ('ti \<Rightarrow> argaddr list) \<Rightarrow> 'ti \<Rightarrow> nat list \<Rightarrow> event list \<Rightarrow>
    nat \<times> event list" where
  "policy_makeInternalTask A ilp kh addrs ti preds w =
     (let lp = (ilp ti)\<lparr>requires_arr := preds, num_required := length preds\<rparr>; h = hnd A w in
      (h, w @ [TaskCreate h lp (kh ti) (addrs ti)]))"

definition policy_launchInternalTask ::
  "atmi \<Rightarrow> ('ti \<Rightarrow> lparam) \<Rightarrow> ('ti \<Rightarrow> nat) \<Rightarrow> ('ti \<Rightarrow> argaddr list) \<Rightarrow> 'ti \<Rightarrow> nat list \<Rightarrow> event list \<Rightarrow>
    nat \<times> event list" where
  "policy_launchInternalTask A ilp kh addrs ti preds w =
     (let lp = (ilp ti)\<lparr>requires_arr := preds, num_required := length preds\<rparr>; h = hnd A w in
      (h, w @ [TaskLaunch h lp (kh ti) (addrs ti)]))"

definition cpu_makeInternalTask :: "atmi \<Rightarrow> bool \<Rightarrow> cpu_task \<Rightarrow> nat list \<Rightarrow> event list \<Rightarrow> nat \<times> event list" where
  "cpu_makeInternalTask A sync =
     policy_makeInternalTask A (cpu_initLaunchParam sync) cpu_kernelHandle cpu_argAddresses"

definition gpu_makeInternalTask :: "atmi \<Rightarrow> bool \<Rightarrow> gpu_task \<Rightarrow> nat list \<Rightarrow> event list \<Rightarrow> nat \<times> event list" where
  "gpu_makeInternalTask A sync =
     policy_makeInternalTask A (gpu_initLaunchParam sync) gpu_kernelHandle gpu_argAddresses"

definition copy_launchInternalTask :: "atmi \<Rightarrow> copy_task \<Rightarrow> nat list \<Rightarrow> event list \<Rightarrow> nat \<times> event list" where
  "copy_launchInternalTask A ti preds w =
     (let cp = initCopyParam\<lparr>requires_arr := preds, num_required := length preds\<rparr>; h = hnd A w in
      (h, w @ [MemcpyAsync h cp (mDst ti) (mSrc ti) (mSize ti)]))"

text \<open>ATMI has no call that creates a copy without launching it.\<close>

definition copy_makeInternalTask :: "atmi \<Rightarrow> copy_task \<Rightarrow> nat list \<Rightarrow> event list \<Rightarrow> nat \<times> event list" where
  "copy_makeInternalTask A ti preds w = copy_launchInternalTask A ti preds w"

text \<open>\<open>ExecutorSkeletonAtmi::launchTask\<close> for the two kernel policies.\<close>

definition cpu_launchTask :: "atmi \<Rightarrow> bool \<Rightarrow> cpu_task \<Rightarrow> nat list \<Rightarrow> event list \<Rightarrow> nat \<times> event list" where
  "cpu_launchTask A sync =
     policy_launchInternalTask A (cpu_initLaunchParam sync) cpu_kernelHandle cpu_argAddresses"

definition gpu_launchTask :: "atmi \<Rightarrow> bool \<Rightarrow> gpu_task \<Rightarrow> nat list \<Rightarrow> event list \<Rightarrow> nat \<times> event list" where
  "gpu_launchTask A sync =
     policy_launchInternalTask A (gpu_initLaunchParam sync) gpu_kernelHandle gpu_argAddresses"

section \<open>What the runtime is told\<close>

text \<open>
  A call that makes a task: its handle, the handles it requires, and whether it still has to be
  activated. Only the first \<open>num_required\<close> entries of the array count.
\<close>

fun task_of :: "event \<Rightarrow> (nat \<times> nat list \<times> bool) option" where
  "task_of (TaskCreate h lp k as) = Some (h, take (num_required lp) (requires_arr lp), True)"
| "task_of (TaskLaunch h lp k as) = Some (h, take (num_required lp) (requires_arr lp), False)"
| "task_of (MemcpyAsync h cp d s n) = Some (h, take (num_required cp) (requires_arr cp), False)"
| "task_of _ = None"

definition tasks :: "event list \<Rightarrow> (nat \<times> nat list \<times> bool) list" where
  "tasks w = List.map_filter task_of w"

definition task_handles :: "event list \<Rightarrow> nat set" where
  "task_handles w = fst ` set (tasks w)"

lemma tasks_append [simp]: "tasks (v @ w) = tasks v @ tasks w"
  by (simp add: tasks_def List.map_filter_def)

lemma tasks_Nil [simp]: "tasks [] = []"
  by (simp add: tasks_def List.map_filter_def)

lemma tasks_single: "tasks [e] = (case task_of e of None \<Rightarrow> [] | Some t \<Rightarrow> [t])"
  by (simp add: tasks_def List.map_filter_def split: option.splits)

lemma waitOnTasks_eq: "waitOnTasks hs w = w @ map TaskWait hs"
  by (induction hs arbitrary: w) (auto simp: waitOnTasks_def)

lemma activateTasks_eq: "activateTasks hs w = w @ map TaskActivate hs"
  by (induction hs arbitrary: w) (auto simp: activateTasks_def)

lemma tasks_wait [simp]: "tasks (map TaskWait hs) = []"
  by (induction hs) (auto simp: tasks_def List.map_filter_def)

lemma tasks_activate [simp]: "tasks (map TaskActivate hs) = []"
  by (induction hs) (auto simp: tasks_def List.map_filter_def)

section \<open>The interface of an executor\<close>

text \<open>
  What the DAG executors use of an executor: making an internal task appends one call to the log,
  which creates the task with exactly the given predecessors, and the handle can be stored in the
  instance. \<open>lazy\<close> says whether a task waits for its activation.
\<close>

locale task_maker =
  fixes mk :: "'ti \<Rightarrow> nat list \<Rightarrow> event list \<Rightarrow> nat \<times> event list"
    and get_handle :: "'ti \<Rightarrow> nat" and put_handle :: "nat \<Rightarrow> 'ti \<Rightarrow> 'ti"
    and H :: "event list \<Rightarrow> nat" and lazy :: bool
  assumes mk_call: "\<exists>e. mk ti ps w = (H w, w @ [e]) \<and> task_of e = Some (H w, ps, lazy)"
    and get_put: "get_handle (put_handle h ti) = h"
begin

lemma mk_handle: "fst (mk ti ps w) = H w"
  using mk_call [of ti ps w] by auto

lemma mk_tasks: "tasks (snd (mk ti ps w)) = tasks w @ [(H w, ps, lazy)]"
  using mk_call [of ti ps w] by (auto simp: tasks_single)

lemma mk_prefix: "\<exists>e. snd (mk ti ps w) = w @ [e]"
  using mk_call [of ti ps w] by auto

lemma mk_handles: "task_handles (snd (mk ti ps w)) = insert (H w) (task_handles w)"
  by (simp add: task_handles_def mk_tasks)

end

definition put_cpu :: "nat \<Rightarrow> cpu_task \<Rightarrow> cpu_task" where "put_cpu h ti = ti\<lparr>cpuTaskHandle := h\<rparr>"
definition put_gpu :: "nat \<Rightarrow> gpu_task \<Rightarrow> gpu_task" where "put_gpu h ti = ti\<lparr>gpuTaskHandle := h\<rparr>"
definition put_copy :: "nat \<Rightarrow> copy_task \<Rightarrow> copy_task" where "put_copy h ti = ti\<lparr>copyTaskHandle := h\<rparr>"

lemma policy_make_call:
  "\<exists>e. policy_makeInternalTask A ilp kh addrs ti ps w = (hnd A w, w @ [e]) \<and>
     task_of e = Some (hnd A w, ps, True)"
  by (simp add: policy_makeInternalTask_def Let_def)

interpretation cpu: task_maker "cpu_makeInternalTask A sync" cpuTaskHandle put_cpu "hnd A" True
  by unfold_locales (simp_all add: cpu_makeInternalTask_def policy_make_call put_cpu_def)

interpretation gpu: task_maker "gpu_makeInternalTask A sync" gpuTaskHandle put_gpu "hnd A" True
  by unfold_locales (simp_all add: gpu_makeInternalTask_def policy_make_call put_gpu_def)

interpretation cpy: task_maker "copy_makeInternalTask A" copyTaskHandle put_copy "hnd A" False
  by unfold_locales (simp_all add: copy_makeInternalTask_def copy_launchInternalTask_def Let_def put_copy_def)

section \<open>Registration is a cache\<close>

definition reg_inv :: "kern_table \<Rightarrow> bool" where
  "reg_inv tab \<longleftrightarrow> distinct (map fst tab)"

text \<open>
  Registering the same kernel again returns the same handle and makes no call; the first
  registration makes exactly one call, and keeps every handle given out before.
\<close>

theorem gpu_register_once:
  assumes "gpu_registerKernel A name szs f (tab, w) = (ki, tab', w')"
  shows "gpu_registerKernel A name szs' f (tab', w') = (ki, tab', w') \<and>
    (\<forall>g. g \<noteq> f \<longrightarrow> map_of tab' g = map_of tab g) \<and>
    length w' = length w + (if map_of tab f = None then 1 else 0)"
  using assms
  by (auto simp: gpu_registerKernel_def Let_def split: option.splits)

theorem gpu_register_once_witness:
  "gpu_registerKernel \<lparr>hnd = length, kern = length\<rparr> (\<lambda>_. ''k'') [4] 7
     ([(7, 0)], [KernelCreate 0 1 [4] DevGpu (Inr ''k'')]) =
   (\<lparr>gk_kern = 0\<rparr>, [(7, 0)], [KernelCreate 0 1 [4] DevGpu (Inr ''k'')])"
  using gpu_register_once [of "\<lparr>hnd = length, kern = length\<rparr>" "\<lambda>_. ''k''" "[4]" 7 "[]" "[]"
      "\<lparr>gk_kern = 0\<rparr>" "[(7, 0)]" "[KernelCreate 0 1 [4] DevGpu (Inr ''k'')]" "[4]"]
  by (simp add: gpu_registerKernel_def Let_def)

text \<open>All CPU functions of one signature share a kernel; the function pointer tells them apart.\<close>

lemma cpu_register_shared:
  assumes "cpu_registerKernel A wkey szs f (tab, w) = (ki, tab', w')"
  shows "cpu_registerKernel A wkey szs g (tab', w') = (\<lparr>ck_kern = ck_kern ki, ck_func = g\<rparr>, tab', w')"
  using assms by (auto simp: cpu_registerKernel_def Let_def split: option.splits)

section \<open>The size of a grid\<close>

lemma unat_widen: "unat (ucast (x :: 32 word) :: 64 word) = unat x"
proof -
  have "unat x < 2 ^ LENGTH(32)" by (rule unsigned_less)
  then show ?thesis by (simp add: unsigned_ucast_eq take_bit_nat_eq_self)
qed

text \<open>
  The grid of a GPU task is the product of its blocks and threads in each dimension, provided the
  product is below \<open>2 ^ 32\<close>; from there on it wraps, although the parameter is 64 bits wide.
\<close>

theorem gpu_grid_product:
  "\<exists>gx gy gz. gridDim (gpu_initLaunchParam sync (ti\<lparr>mThreadsPerBlock := (tx, ty, tz), mBlocks := (bx, b_y, bz)\<rparr>)) =
       (gx, gy, gz) \<and>
     unat gx = unat tx * unat bx mod 2 ^ 32 \<and> unat gy = unat ty * unat b_y mod 2 ^ 32 \<and>
     unat gz = unat tz * unat bz mod 2 ^ 32"
  by (simp add: gpu_initLaunchParam_def widen_def unat_widen unat_word_ariths)

end
