(* ===== verification/Aql.thy ===== *)
theory Aql
  imports Memory KernArgs Atmi
begin

text \<open>
  The packets of the HSA back end: the packet header of \<open>dagr/hsaCore.h\<close> and the packet factory of
  \<open>dagr/kernel.h\<close>. The numbers that \<open>hsa.h\<close> gives to packet kinds and fence scopes, and the bit
  positions of the header's fields, belong to the HSA runtime and are the parameter \<open>hsa_abi\<close>. What
  the code relies on is \<open>abi_ok\<close>: the fields do not overlap and the numbers fit.
\<close>

unbundle bit_operations_syntax

section \<open>The packet header\<close>

datatype PacketKind = KERNEL_DISPATCH | BARRIER_AND | BARRIER_OR

datatype FenceScope = SCOPE_NONE | SCOPE_AGENT | SCOPE_SYSTEM

datatype BarrierBit = BARRIER_DISABLE | BARRIER_ENABLE

record hsa_abi =
  HEADER_TYPE :: nat
  HEADER_BARRIER :: nat
  HEADER_SCACQUIRE :: nat
  HEADER_SCRELEASE :: nat
  SETUP_DIMENSIONS :: nat
  kind_code :: "PacketKind \<Rightarrow> nat"
  scope_code :: "FenceScope \<Rightarrow> nat"

text \<open>Bits \<open>[lo, lo + len)\<close> and \<open>[lo', lo' + len')\<close> do not meet.\<close>

definition fields_apart :: "nat \<Rightarrow> nat \<Rightarrow> nat \<Rightarrow> nat \<Rightarrow> bool" where
  "fields_apart lo len lo' len' \<longleftrightarrow> lo + len \<le> lo' \<or> lo' + len' \<le> lo"

definition abi_ok :: "hsa_abi \<Rightarrow> bool" where
  "abi_ok A \<longleftrightarrow> HEADER_TYPE A + 8 \<le> 16 \<and> HEADER_BARRIER A + 1 \<le> 16 \<and>
     HEADER_SCACQUIRE A + 2 \<le> 16 \<and> HEADER_SCRELEASE A + 2 \<le> 16 \<and>
     fields_apart (HEADER_TYPE A) 8 (HEADER_BARRIER A) 1 \<and> fields_apart (HEADER_TYPE A) 8 (HEADER_SCACQUIRE A) 2 \<and>
     fields_apart (HEADER_TYPE A) 8 (HEADER_SCRELEASE A) 2 \<and> fields_apart (HEADER_BARRIER A) 1 (HEADER_SCACQUIRE A) 2 \<and>
     fields_apart (HEADER_BARRIER A) 1 (HEADER_SCRELEASE A) 2 \<and>
     fields_apart (HEADER_SCACQUIRE A) 2 (HEADER_SCRELEASE A) 2 \<and>
     (\<forall>k. kind_code A k < 2 ^ 8) \<and> (\<forall>s. scope_code A s < 2 ^ 2) \<and> SETUP_DIMENSIONS A + 2 \<le> 16"

fun barrier_code :: "BarrierBit \<Rightarrow> nat" where
  "barrier_code BARRIER_DISABLE = 0" | "barrier_code BARRIER_ENABLE = 1"

text \<open>
  \<open>mVal |= toUnderTy(x) << SHIFT\<close>: the shift is done on a 32-bit integer, the assignment keeps the
  low 16 bits.
\<close>

definition or_shifted :: "nat \<Rightarrow> nat \<Rightarrow> 16 word \<Rightarrow> 16 word" where
  "or_shifted code sh mVal = mVal OR ucast (push_bit sh (of_nat code :: 32 word))"

definition setKind :: "hsa_abi \<Rightarrow> PacketKind \<Rightarrow> 16 word \<Rightarrow> 16 word" where
  "setKind A kind = or_shifted (kind_code A kind) (HEADER_TYPE A)"

definition setScope :: "hsa_abi \<Rightarrow> FenceScope \<Rightarrow> 16 word \<Rightarrow> 16 word" where
  "setScope A scope v = or_shifted (scope_code A scope) (HEADER_SCRELEASE A)
     (or_shifted (scope_code A scope) (HEADER_SCACQUIRE A) v)"

definition setBarrierBit :: "hsa_abi \<Rightarrow> BarrierBit \<Rightarrow> 16 word \<Rightarrow> 16 word" where
  "setBarrierBit A b = or_shifted (barrier_code b) (HEADER_BARRIER A)"

definition PacketHeader :: "hsa_abi \<Rightarrow> PacketKind \<Rightarrow> FenceScope \<Rightarrow> BarrierBit \<Rightarrow> 16 word" where
  "PacketHeader A kind scope b = setBarrierBit A b (setScope A scope (setKind A kind 0))"

subsection \<open>Its fields\<close>

definition header_field :: "nat \<Rightarrow> nat \<Rightarrow> 16 word \<Rightarrow> nat" where
  "header_field lo len h = unat (take_bit len (drop_bit lo h))"

lemma bit_or_shifted:
  assumes "n < 16"
  shows "bit (or_shifted code sh v) n \<longleftrightarrow> bit v n \<or> sh \<le> n \<and> bit code (n - sh)"
  using assms by (auto simp: or_shifted_def bit_simps)

lemma bit_code:
  assumes "code < 2 ^ len" "bit (code :: nat) n"
  shows "n < len"
proof (rule ccontr)
  assume "\<not> n < len"
  then have "(2 :: nat) ^ len \<le> 2 ^ n" by (intro power_increasing) auto
  with assms(1) have "code < 2 ^ n" by (rule less_le_trans)
  then have "code div 2 ^ n = 0" by simp
  with assms(2) show False by (simp add: bit_iff_odd)
qed

text \<open>A field contributes nothing to the bits of another one.\<close>

lemma field_off:
  assumes "fields_apart lo len lo' len'" "n < len" "code < 2 ^ len'"
  shows "\<not> (lo' \<le> lo + n \<and> bit (code :: nat) (lo + n - lo'))"
proof
  assume b: "lo' \<le> lo + n \<and> bit code (lo + n - lo')"
  then have "lo + n - lo' < len'" using bit_code [OF assms(3)] by blast
  with b assms(1,2) show False by (auto simp: fields_apart_def)
qed

lemma fields_apart_sym: "fields_apart lo len lo' len' \<Longrightarrow> fields_apart lo' len' lo len"
  by (auto simp: fields_apart_def)

lemma header_field_eqI:
  assumes "lo + len \<le> 16" "code < 2 ^ len" "\<And>n. n < len \<Longrightarrow> bit h (lo + n) \<longleftrightarrow> bit code n"
  shows "header_field lo len h = code"
proof -
  have "bit (unat (take_bit len (drop_bit lo h))) n = bit code n" for n
  proof (cases "n < len")
    case True
    then show ?thesis using assms by (simp add: bit_unsigned_iff bit_simps)
  next
    case False
    then show ?thesis using bit_code [OF assms(2)] by (auto simp: bit_unsigned_iff bit_simps)
  qed
  then show ?thesis unfolding header_field_def by (rule bit_eqI)
qed

lemma bit_header:
  assumes "n < 16"
  shows "bit (PacketHeader A k s b) n \<longleftrightarrow>
    HEADER_TYPE A \<le> n \<and> bit (kind_code A k) (n - HEADER_TYPE A) \<or>
    HEADER_SCACQUIRE A \<le> n \<and> bit (scope_code A s) (n - HEADER_SCACQUIRE A) \<or>
    HEADER_SCRELEASE A \<le> n \<and> bit (scope_code A s) (n - HEADER_SCRELEASE A) \<or>
    HEADER_BARRIER A \<le> n \<and> bit (barrier_code b) (n - HEADER_BARRIER A)"
  using assms
  by (auto simp: PacketHeader_def setBarrierBit_def setScope_def setKind_def bit_or_shifted)

lemma barrier_code_less: "barrier_code b < 2 ^ 1"
  by (cases b) auto

lemma header_fields:
  assumes A: "abi_ok A"
  shows "header_field (HEADER_TYPE A) 8 (PacketHeader A k s b) = kind_code A k"
    "header_field (HEADER_SCACQUIRE A) 2 (PacketHeader A k s b) = scope_code A s"
    "header_field (HEADER_SCRELEASE A) 2 (PacketHeader A k s b) = scope_code A s"
    "header_field (HEADER_BARRIER A) 1 (PacketHeader A k s b) = barrier_code b"
proof -
  let ?T = "HEADER_TYPE A" and ?B = "HEADER_BARRIER A"
    and ?Q = "HEADER_SCACQUIRE A" and ?R = "HEADER_SCRELEASE A"
  have fit: "?T + 8 \<le> 16" "?B + 1 \<le> 16" "?Q + 2 \<le> 16" "?R + 2 \<le> 16"
    and code: "kind_code A k < 2 ^ 8" "scope_code A s < 2 ^ 2"
    and ap: "fields_apart ?T 8 ?B 1" "fields_apart ?T 8 ?Q 2" "fields_apart ?T 8 ?R 2" "fields_apart ?B 1 ?Q 2" "fields_apart ?B 1 ?R 2"
      "fields_apart ?Q 2 ?R 2"
    using A by (auto simp: abi_ok_def)
  note ap' = ap [THEN fields_apart_sym]
  show "header_field ?T 8 (PacketHeader A k s b) = kind_code A k"
  proof (rule header_field_eqI [OF fit(1) code(1)])
    fix n :: nat assume n: "n < 8"
    with fit(1) have "?T + n < 16" by simp
    from bit_header [OF this] field_off [OF ap(1) n barrier_code_less] field_off [OF ap(2) n code(2)]
      field_off [OF ap(3) n code(2)]
    show "bit (PacketHeader A k s b) (?T + n) = bit (kind_code A k) n" by auto
  qed
  show "header_field ?Q 2 (PacketHeader A k s b) = scope_code A s"
  proof (rule header_field_eqI [OF fit(3) code(2)])
    fix n :: nat assume n: "n < 2"
    with fit(3) have "?Q + n < 16" by simp
    from bit_header [OF this] field_off [OF ap'(2) n code(1)] field_off [OF ap'(4) n barrier_code_less]
      field_off [OF ap(6) n code(2)]
    show "bit (PacketHeader A k s b) (?Q + n) = bit (scope_code A s) n" by auto
  qed
  show "header_field ?R 2 (PacketHeader A k s b) = scope_code A s"
  proof (rule header_field_eqI [OF fit(4) code(2)])
    fix n :: nat assume n: "n < 2"
    with fit(4) have "?R + n < 16" by simp
    from bit_header [OF this] field_off [OF ap'(3) n code(1)] field_off [OF ap'(5) n barrier_code_less]
      field_off [OF ap'(6) n code(2)]
    show "bit (PacketHeader A k s b) (?R + n) = bit (scope_code A s) n" by auto
  qed
  show "header_field ?B 1 (PacketHeader A k s b) = barrier_code b"
  proof (rule header_field_eqI [OF fit(2) barrier_code_less])
    fix n :: nat assume n: "n < 1"
    with fit(2) have "?B + n < 16" by simp
    from bit_header [OF this] field_off [OF ap'(1) n code(1)] field_off [OF ap(4) n code(2)]
      field_off [OF ap(5) n code(2)]
    show "bit (PacketHeader A k s b) (?B + n) = bit (barrier_code b) n" by auto
  qed
qed

text \<open>
  The 16 bits of a packet header carry the kind of the packet, the fence scope, twice, and the
  barrier bit, each in its field, whatever positions the runtime gives to the fields.
\<close>

theorem header_roundtrip:
  assumes "abi_ok A" "inj (kind_code A)" "inj (scope_code A)"
  shows "(PacketHeader A k s b = PacketHeader A k' s' b' \<longleftrightarrow> k = k' \<and> s = s' \<and> b = b') \<and>
    header_field (HEADER_TYPE A) 8 (PacketHeader A k s b) = kind_code A k \<and>
    header_field (HEADER_SCACQUIRE A) 2 (PacketHeader A k s b) = scope_code A s \<and>
    header_field (HEADER_SCRELEASE A) 2 (PacketHeader A k s b) = scope_code A s \<and>
    header_field (HEADER_BARRIER A) 1 (PacketHeader A k s b) = barrier_code b"
proof -
  have "barrier_code b = barrier_code b' \<longleftrightarrow> b = b'" by (cases b; cases b') auto
  then have "PacketHeader A k s b = PacketHeader A k' s' b' \<longleftrightarrow> k = k' \<and> s = s' \<and> b = b'"
    using header_fields [OF assms(1)] assms(2,3) by (metis injD)
  then show ?thesis using header_fields [OF assms(1)] by blast
qed

text \<open>An instance of the parameter, with numbers as a runtime may choose them.\<close>

definition abi_ex :: hsa_abi where
  "abi_ex = \<lparr>HEADER_TYPE = 0, HEADER_BARRIER = 8, HEADER_SCACQUIRE = 9, HEADER_SCRELEASE = 11,
     SETUP_DIMENSIONS = 0,
     kind_code = (\<lambda>k. case k of KERNEL_DISPATCH \<Rightarrow> 2 | BARRIER_AND \<Rightarrow> 3 | BARRIER_OR \<Rightarrow> 5),
     scope_code = (\<lambda>s. case s of SCOPE_NONE \<Rightarrow> 0 | SCOPE_AGENT \<Rightarrow> 1 | SCOPE_SYSTEM \<Rightarrow> 2)\<rparr>"

lemma abi_ex_ok: "abi_ok abi_ex" "inj (kind_code abi_ex)" "inj (scope_code abi_ex)"
  by (auto simp: abi_ok_def abi_ex_def fields_apart_def inj_def split: PacketKind.splits FenceScope.splits)

theorem header_roundtrip_witness:
  "PacketHeader abi_ex KERNEL_DISPATCH SCOPE_SYSTEM BARRIER_ENABLE \<noteq>
     PacketHeader abi_ex BARRIER_AND SCOPE_SYSTEM BARRIER_ENABLE \<and>
   header_field (HEADER_SCACQUIRE abi_ex) 2 (PacketHeader abi_ex KERNEL_DISPATCH SCOPE_SYSTEM BARRIER_ENABLE) = 2"
proof -
  have "scope_code abi_ex SCOPE_SYSTEM = 2" by (simp add: abi_ex_def)
  with header_roundtrip [OF abi_ex_ok, of KERNEL_DISPATCH SCOPE_SYSTEM BARRIER_ENABLE BARRIER_AND SCOPE_SYSTEM BARRIER_ENABLE]
  show ?thesis by simp
qed

section \<open>Packets\<close>

text \<open>A signal is its handle; 0 is \<open>NULL_SIGNAL\<close>.\<close>

record dispatch_pkt =
  dp_header :: "16 word"
  dp_setup :: "16 word"
  workgroup_size :: "16 word \<times> 16 word \<times> 16 word"
  dp_grid_size :: dim3
  private_segment_size :: "32 word"
  group_segment_size :: "32 word"
  kernel_object :: "64 word"
  kernarg_address :: nat
  dp_completion :: nat

record barrier_pkt =
  bp_header :: "16 word"
  bp_reserved :: "16 word"
  dep_signal :: "nat list"
  bp_completion :: nat

datatype packet = Dispatch dispatch_pkt | BarrierAnd barrier_pkt

definition zero_dispatch :: dispatch_pkt where
  "zero_dispatch = \<lparr>dp_header = 0, dp_setup = 0, workgroup_size = (0, 0, 0), dp_grid_size = (0, 0, 0),
     private_segment_size = 0, group_segment_size = 0, kernel_object = 0, kernarg_address = 0,
     dp_completion = 0\<rparr>"

definition BARRIER_PKT_NUM_PREDS :: nat where "BARRIER_PKT_NUM_PREDS = 5"

definition zero_barrier :: barrier_pkt where
  "zero_barrier = \<lparr>bp_header = 0, bp_reserved = 0, dep_signal = replicate BARRIER_PKT_NUM_PREDS 0,
     bp_completion = 0\<rparr>"

definition KERNEL_DISPATCH_SETUP :: "hsa_abi \<Rightarrow> 16 word" where
  "KERNEL_DISPATCH_SETUP A = ucast (push_bit (SETUP_DIMENSIONS A) 3 :: 32 word)"

text \<open>
  The first 32 bits of a packet are its header and the 16 bits that follow it; the header is or-ed
  in with a 32-bit store.
\<close>

definition updateHeader :: "16 word \<Rightarrow> 16 word \<Rightarrow> 16 word \<Rightarrow> (16 word \<times> 16 word) res" where
  "updateHeader hdr rest h = rbind (check (hdr = 0) ''header field should be 0'') (\<lambda>_.
     let pktHeader = push_bit 16 (ucast rest) OR ucast hdr :: 32 word; updated = pktHeader OR ucast h in
     Inr (ucast updated, ucast (drop_bit 16 updated)))"

definition isValid :: "64 word \<Rightarrow> bool" where "isValid mVal \<longleftrightarrow> mVal \<noteq> 0"

definition init_dispatch :: "hsa_abi \<Rightarrow> 16 word \<Rightarrow> dim3 \<Rightarrow> dim3 \<Rightarrow> nat \<Rightarrow> 64 word \<Rightarrow> memblock \<Rightarrow> nat \<Rightarrow>
    dispatch_pkt res" where
  "init_dispatch A header numBlks threadsPerBlk sharedMem kobj kernArgBuf sig =
     (case (numBlks, threadsPerBlk) of ((bx, b_y, bz), (tx, ty, tz)) \<Rightarrow>
      let pkt = zero_dispatch\<lparr>dp_setup := KERNEL_DISPATCH_SETUP A,
            workgroup_size := (ucast tx, ucast ty, ucast tz),
            dp_grid_size := (bx * tx, b_y * ty, bz * tz),
            group_segment_size := of_nat sharedMem, private_segment_size := 0\<rparr> in
      rbind (check (isValid kobj) ''kobj.isValid()'') (\<lambda>_.
      rbind (checkKernArgBlk kernArgBuf) (\<lambda>_.
      let pkt = pkt\<lparr>kernel_object := kobj, kernarg_address := mBeg kernArgBuf, dp_completion := sig\<rparr> in
      rbind (updateHeader (dp_header pkt) (dp_setup pkt) header) (\<lambda>(h, s).
      Inr (pkt\<lparr>dp_header := h, dp_setup := s\<rparr>)))))"

definition init_barrier :: "16 word \<Rightarrow> nat \<Rightarrow> nat list \<Rightarrow> nat \<Rightarrow> barrier_pkt res" where
  "init_barrier header compSig preds numPreds =
     (let pkt = zero_barrier\<lparr>bp_completion := compSig\<rparr> in
      rbind (check (numPreds \<le> BARRIER_PKT_NUM_PREDS) ''numPreds <= BARRIER_PKT_NUM_PREDS'') (\<lambda>_.
      rbind (if 0 < numPreds
        then (let n = min numPreds BARRIER_PKT_NUM_PREDS in
          if n \<le> length preds then Inr (pkt\<lparr>dep_signal := take n preds @ drop n (dep_signal pkt)\<rparr>)
          else Inl (Undefined ''read past the end of the predecessors''))
        else Inr pkt) (\<lambda>pkt.
      rbind (updateHeader (bp_header pkt) (bp_reserved pkt) header) (\<lambda>(h, s).
      Inr (pkt\<lparr>bp_header := h, bp_reserved := s\<rparr>)))))"

text \<open>A 32-bit word of two halves.\<close>

lemma updateHeader_zero: "updateHeader 0 rest h = Inr (h, rest)"
proof -
  have "ucast ((push_bit 16 (ucast rest) OR ucast (0 :: 16 word)) OR ucast h :: 32 word) = h"
    by (rule bit_word_eqI) (auto simp: bit_simps)
  moreover have "ucast (drop_bit 16 ((push_bit 16 (ucast rest) OR ucast (0 :: 16 word)) OR ucast h :: 32 word)) = rest"
    by (rule bit_word_eqI) (auto simp: bit_simps dest: bit_imp_le_length)
  ultimately show ?thesis by (simp add: updateHeader_def)
qed

lemma init_barrier_ok:
  assumes "n \<le> 5" "n \<le> length preds"
  shows "init_barrier header sig preds n = Inr \<lparr>bp_header = header, bp_reserved = 0,
     dep_signal = take n preds @ replicate (5 - n) 0, bp_completion = sig\<rparr>"
  using assms
  by (simp add: init_barrier_def zero_barrier_def BARRIER_PKT_NUM_PREDS_def updateHeader_zero Let_def)

lemma init_barrier_many: "5 < n \<Longrightarrow>
    init_barrier header sig preds n = Inl (AssertFail ''numPreds <= BARRIER_PKT_NUM_PREDS'')"
  by (simp add: init_barrier_def BARRIER_PKT_NUM_PREDS_def)

section \<open>The size of a tree of barriers\<close>

function barrierTreeSize_loop :: "nat \<Rightarrow> nat \<Rightarrow> nat" where
  "barrierTreeSize_loop val ret = (if val = 0 then ret
     else barrierTreeSize_loop (val div BARRIER_PKT_NUM_PREDS)
       (ret + (val + BARRIER_PKT_NUM_PREDS - 1) div BARRIER_PKT_NUM_PREDS))"
  by pat_completeness auto

termination
  by (relation "measure fst") (auto simp: BARRIER_PKT_NUM_PREDS_def)

declare barrierTreeSize_loop.simps [simp del]

definition barrierTreeSize :: "nat \<Rightarrow> nat" where
  "barrierTreeSize numPreds = barrierTreeSize_loop numPreds 0"

lemma loop_ge: "ret \<le> barrierTreeSize_loop val ret"
proof (induction val ret rule: barrierTreeSize_loop.induct)
  case (1 val ret)
  then show ?case by (subst barrierTreeSize_loop.simps) force
qed

lemma loop_more: "0 < val \<Longrightarrow> ret < barrierTreeSize_loop val ret"
proof -
  assume v: "0 < val"
  have "ret < ret + (val + BARRIER_PKT_NUM_PREDS - 1) div BARRIER_PKT_NUM_PREDS"
    using v by (simp add: BARRIER_PKT_NUM_PREDS_def div_greater_zero_iff)
  also have "\<dots> \<le> barrierTreeSize_loop val ret" using v loop_ge by (subst barrierTreeSize_loop.simps) simp
  finally show ?thesis .
qed

text \<open>One packet is reported exactly for one to four predecessors, although a packet takes five.\<close>

lemma barrierTreeSize_one: "barrierTreeSize n = 1 \<longleftrightarrow> 0 < n \<and> n < 5"
proof (cases "n = 0")
  case False
  have e: "barrierTreeSize n = barrierTreeSize_loop (n div 5) ((n + 4) div 5)"
    using False by (simp add: barrierTreeSize_def barrierTreeSize_loop.simps [of n] BARRIER_PKT_NUM_PREDS_def
        add.commute [of n 4])
  show ?thesis
  proof (cases "n < 5")
    case True
    then have "(n + 4) div 5 = 1" using False by linarith
    then show ?thesis using False True e by (simp add: barrierTreeSize_loop.simps)
  next
    case f: False
    then have "1 \<le> (n + 4) div 5" by linarith
    then have "1 < barrierTreeSize_loop (n div 5) ((n + 4) div 5)"
      using loop_more [of "n div 5" "(n + 4) div 5"] f by (simp add: div_greater_zero_iff)
    then show ?thesis using f e by simp
  qed
qed (simp add: barrierTreeSize_def barrierTreeSize_loop.simps)

end
