(* ===== verification/Pool.thy ===== *)
theory Pool
  imports Lending
begin

text \<open>
  \<open>cppUtils/include/cpputils/Allocator.h\<close>: \<open>ResourcePool\<close>, a stack of objects made by a factory
  in batches; and its users: the signal pools of \<open>dagr/hsaCore.h\<close> and the queue pools of
  \<open>dagr/queue.h\<close>. The factories call the HSA runtime, which is not part of the repository, so
  what they create is a parameter: \<open>create n\<close> is the object returned by the \<open>n\<close>-th call of the
  factory's \<open>create\<close>. The runtime hands out distinct handles, which is the hypothesis
  \<open>inj create\<close> of the theorems.
\<close>

section \<open>ResourcePool\<close>

record 'r pool =
  mResPool :: "'r list"
  mCreated :: nat
  mDestroyed :: "'r list"

definition pool_empty :: "'r pool" where
  "pool_empty = \<lparr>mResPool = [], mCreated = 0, mDestroyed = []\<rparr>"

definition pool_create_one :: "(nat \<Rightarrow> 'r) \<Rightarrow> 'r pool \<Rightarrow> 'r pool" where
  "pool_create_one create p = p\<lparr>mResPool := mResPool p @ [create (mCreated p)],
     mCreated := Suc (mCreated p)\<rparr>"

definition pool_replenish :: "(nat \<Rightarrow> 'r) \<Rightarrow> nat \<Rightarrow> 'r pool \<Rightarrow> 'r pool res" where
  "pool_replenish create batch p = rbind (check (mResPool p = []) ''mResPool.empty()'')
     (\<lambda>_. for_each (\<lambda>i q. Inr (pool_create_one create q)) [0..<batch] p)"

definition pool_init :: "(nat \<Rightarrow> 'r) \<Rightarrow> nat \<Rightarrow> 'r pool res" where
  "pool_init create batch = pool_replenish create batch pool_empty"

definition pool_destroy :: "'r pool \<Rightarrow> 'r pool" where
  "pool_destroy p = p\<lparr>mDestroyed := mDestroyed p @ mResPool p, mResPool := []\<rparr>"

definition pool_allocate :: "(nat \<Rightarrow> 'r) \<Rightarrow> nat \<Rightarrow> 'r pool \<Rightarrow> ('r \<times> 'r pool) res" where
  "pool_allocate create batch p =
     rbind (if mResPool p = [] then pool_replenish create batch p else Inr p) (\<lambda>q.
     rbind (check (mResPool q \<noteq> []) ''!mResPool.empty()'') (\<lambda>_.
     Inr (last (mResPool q), q\<lparr>mResPool := butlast (mResPool q)\<rparr>)))"

definition pool_deallocate :: "'r pool \<Rightarrow> 'r \<Rightarrow> 'r pool" where
  "pool_deallocate p obj = p\<lparr>mResPool := mResPool p @ [obj]\<rparr>"

subsection \<open>It lends\<close>

lemma replenish_empty:
  "mResPool p = [] \<Longrightarrow> pool_replenish create batch p =
     Inr (p\<lparr>mResPool := map create [mCreated p..<mCreated p + batch],
            mCreated := mCreated p + batch\<rparr>)"
proof -
  assume e: "mResPool p = []"
  have "for_each (\<lambda>i q. Inr (pool_create_one create q)) [0..<batch] p =
     Inr (p\<lparr>mResPool := mResPool p @ map create [mCreated p..<mCreated p + batch],
            mCreated := mCreated p + batch\<rparr>)"
    by (induction batch) (simp_all add: for_each_append pool_create_one_def)
  then show ?thesis using e by (simp add: pool_replenish_def)
qed

definition pool_stock :: "(nat \<Rightarrow> 'r) \<Rightarrow> 'r pool \<Rightarrow> 'r multiset" where
  "pool_stock create p = mset (map create [0..<mCreated p])"

definition pool_lends :: "(nat \<Rightarrow> 'r) \<Rightarrow> nat \<Rightarrow> 'r pool \<Rightarrow> 'r \<Rightarrow> 'r pool \<Rightarrow> bool" where
  "pool_lends create batch p r q \<longleftrightarrow> inj create \<and> pool_allocate create batch p = Inr (r, q)"

definition pool_gives :: "'r pool \<Rightarrow> 'r \<Rightarrow> 'r pool \<Rightarrow> bool" where
  "pool_gives p r q \<longleftrightarrow> q = pool_deallocate p r"

lemma pool_allocate_ok:
  assumes "0 < batch \<or> mResPool p \<noteq> []"
  obtains r q new where "pool_allocate create batch p = Inr (r, q)"
    "pool_stock create q = pool_stock create p + new"
    "add_mset r (mset (mResPool q)) = mset (mResPool p) + new"
    "mDestroyed q = mDestroyed p"
proof (cases "mResPool p = []")
  case True
  let ?xs = "map create [mCreated p..<mCreated p + batch]"
  have ne: "?xs \<noteq> []" using True assms by simp
  let ?q = "p\<lparr>mResPool := butlast ?xs, mCreated := mCreated p + batch\<rparr>"
  have "pool_allocate create batch p = Inr (last ?xs, ?q)"
    using True ne by (simp add: pool_allocate_def replenish_empty)
  moreover have "pool_stock create ?q = pool_stock create p + mset ?xs"
    using upt_add_eq_append [of 0 "mCreated p" batch] by (simp add: pool_stock_def)
  moreover have "add_mset (last ?xs) (mset (mResPool ?q)) = mset (mResPool p) + mset ?xs"
    using True mset_butlast_last [OF ne] by simp
  ultimately show ?thesis by (rule that) simp
next
  case False
  let ?q = "p\<lparr>mResPool := butlast (mResPool p)\<rparr>"
  have "pool_allocate create batch p = Inr (last (mResPool p), ?q)"
    using False by (simp add: pool_allocate_def)
  moreover have "pool_stock create ?q = pool_stock create p + {#}"
    by (simp add: pool_stock_def)
  moreover have "add_mset (last (mResPool p)) (mset (mResPool ?q)) = mset (mResPool p) + {#}"
    using mset_butlast_last [OF False] by simp
  ultimately show ?thesis by (rule that) simp
qed

lemma pool_allocate_fails:
  "batch = 0 \<Longrightarrow> mResPool p = [] \<Longrightarrow> pool_allocate create batch p = Inl (AssertFail ''!mResPool.empty()'')"
  by (simp add: pool_allocate_def replenish_empty)

lemma pool_lendsE:
  assumes "pool_lends create batch p r q"
  obtains new where "inj create" "pool_stock create q = pool_stock create p + new"
    "add_mset r (mset (mResPool q)) = mset (mResPool p) + new"
proof -
  have "0 < batch \<or> mResPool p \<noteq> []"
    using assms pool_allocate_fails [of batch p create] by (auto simp: pool_lends_def)
  then obtain r' q' new where *: "pool_allocate create batch p = Inr (r', q')"
    "pool_stock create q' = pool_stock create p + new"
    "add_mset r' (mset (mResPool q')) = mset (mResPool p) + new"
    by (rule pool_allocate_ok)
  then show ?thesis using assms by (intro that [of new]) (auto simp: pool_lends_def)
qed

interpretation pool: lender "pool_lends create batch" pool_gives "\<lambda>p. mset (mResPool p)"
  "pool_stock create" "\<lambda>p. inj create" for create :: "nat \<Rightarrow> 'r" and batch
proof
  fix p :: "'r pool" and r
  show "count (pool_stock create p) r \<le> 1" if "inj create"
    using that unfolding pool_stock_def
    by (metis distinct_map distinct_upt inj_on_subset subset_UNIV distinct_count_atmost_1
        le_numeral_extra(4) less_eq_nat.simps(1))
qed (auto simp: pool_gives_def pool_deallocate_def pool_stock_def elim: pool_lendsE)

section \<open>The pools of the HSA back end\<close>

definition INTR_SIGNAL_POOL_BATCH_SIZE :: nat where "INTR_SIGNAL_POOL_BATCH_SIZE = 4096"
definition USER_SIGNAL_POOL_BATCH_SIZE :: nat where "USER_SIGNAL_POOL_BATCH_SIZE = 16 * 4096"
definition QUEUE_POOL_BATCH_SIZE :: nat where "QUEUE_POOL_BATCH_SIZE = 8"

record 'r signal_pools =
  mUserSignalPool :: "'r pool"
  mIntrptSignalPool :: "'r pool"

definition takeUserSignal :: "(nat \<Rightarrow> 'r) \<Rightarrow> 'r signal_pools \<Rightarrow> ('r \<times> 'r signal_pools) res" where
  "takeUserSignal create s = rbind (pool_allocate create USER_SIGNAL_POOL_BATCH_SIZE (mUserSignalPool s))
     (\<lambda>(r, p). Inr (r, s\<lparr>mUserSignalPool := p\<rparr>))"

definition returnUserSignal :: "'r signal_pools \<Rightarrow> 'r \<Rightarrow> 'r signal_pools" where
  "returnUserSignal s sig = s\<lparr>mUserSignalPool := pool_deallocate (mUserSignalPool s) sig\<rparr>"

definition takeIntrptSignal :: "(nat \<Rightarrow> 'r) \<Rightarrow> 'r signal_pools \<Rightarrow> ('r \<times> 'r signal_pools) res" where
  "takeIntrptSignal create s = rbind (pool_allocate create INTR_SIGNAL_POOL_BATCH_SIZE (mIntrptSignalPool s))
     (\<lambda>(r, p). Inr (r, s\<lparr>mIntrptSignalPool := p\<rparr>))"

definition returnIntrptSignal :: "'r signal_pools \<Rightarrow> 'r \<Rightarrow> 'r signal_pools" where
  "returnIntrptSignal s sig = s\<lparr>mIntrptSignalPool := pool_deallocate (mIntrptSignalPool s) sig\<rparr>"

record queue_pools =
  mSerialQueuePool :: "nat pool"
  mConcurrentQueuePool :: "nat pool"

text \<open>\<open>QueueFactoryImpl::create\<close>: \<open>mk\<close> gives the pointer written by \<open>hsa_queue_create\<close>.\<close>

definition queueFactoryCreate :: "(nat \<Rightarrow> nat) \<Rightarrow> nat \<Rightarrow> nat res" where
  "queueFactoryCreate mk n = rbind (check (mk n \<noteq> 0) ''q'') (\<lambda>_. Inr (mk n))"

definition takeSerialQueue :: "(nat \<Rightarrow> nat) \<Rightarrow> queue_pools \<Rightarrow> (nat \<times> queue_pools) res" where
  "takeSerialQueue create s = rbind (pool_allocate create QUEUE_POOL_BATCH_SIZE (mSerialQueuePool s))
     (\<lambda>(q, p). Inr (q, s\<lparr>mSerialQueuePool := p\<rparr>))"

definition returnSerialQueue :: "queue_pools \<Rightarrow> nat \<Rightarrow> queue_pools res" where
  "returnSerialQueue s q = rbind (check (q \<noteq> 0) ''q'')
     (\<lambda>_. Inr (s\<lparr>mSerialQueuePool := pool_deallocate (mSerialQueuePool s) q\<rparr>))"

definition takeConcurrentQueue :: "(nat \<Rightarrow> nat) \<Rightarrow> queue_pools \<Rightarrow> (nat \<times> queue_pools) res" where
  "takeConcurrentQueue create s =
     rbind (pool_allocate create QUEUE_POOL_BATCH_SIZE (mConcurrentQueuePool s))
     (\<lambda>(q, p). Inr (q, s\<lparr>mConcurrentQueuePool := p\<rparr>))"

definition returnConcurrentQueue :: "queue_pools \<Rightarrow> nat \<Rightarrow> queue_pools res" where
  "returnConcurrentQueue s q = rbind (check (q \<noteq> 0) ''q'')
     (\<lambda>_. Inr (s\<lparr>mConcurrentQueuePool := pool_deallocate (mConcurrentQueuePool s) q\<rparr>))"

section \<open>Properties\<close>

text \<open>
  C11: a resource pool whose factory creates distinct objects never hands out an object that is still
  in use, and every object it has created is in the pool or in use, exactly once.
\<close>

theorem pool_never_shares:
  assumes "inj create" "pool_init create batch = Inr p0"
    "session (pool_lends create batch) pool_gives p0 {#} p K" "pool_allocate create batch p = Inr (r, q)"
  shows "r \<notin># K \<and> mset (mResPool q) + add_mset r K = pool_stock create q"
proof -
  have p0: "mset (mResPool p0) + {#} = pool_stock create p0"
    using assms(2) replenish_empty [of pool_empty create batch]
    by (auto simp: pool_init_def pool_stock_def pool_empty_def)
  have l: "pool_lends create batch p r q" using assms(1,4) by (simp add: pool_lends_def)
  have "session (pool_lends create batch) pool_gives p0 {#} q (add_mset r K)"
    using assms(3) l by (rule session.lend)
  then show ?thesis
    using pool.exclusive [OF assms(3,1) p0 l] pool.conservation [OF _ assms(1) p0] by blast
qed

theorem pool_never_shares_witness:
  "pool_allocate id 2 \<lparr>mResPool = [0], mCreated = 2, mDestroyed = []\<rparr> =
      Inr (0, \<lparr>mResPool = [], mCreated = 2, mDestroyed = []\<rparr>) \<and> (0 :: nat) \<notin># {#1#}"
proof -
  let ?p0 = "\<lparr>mResPool = [0, 1], mCreated = 2, mDestroyed = []\<rparr> :: nat pool"
  let ?p1 = "\<lparr>mResPool = [0], mCreated = 2, mDestroyed = []\<rparr> :: nat pool"
  have i: "pool_init id 2 = Inr ?p0"
    by (simp add: pool_init_def replenish_empty pool_empty_def numeral_2_eq_2)
  have "pool_lends id 2 ?p0 1 ?p1" by (simp add: pool_lends_def pool_allocate_def)
  then have "session (pool_lends id 2) pool_gives ?p0 {#} ?p1 {#1#}"
    using session.lend [OF session.start] by fastforce
  moreover have a: "pool_allocate id 2 ?p1 = Inr (0, \<lparr>mResPool = [], mCreated = 2, mDestroyed = []\<rparr>)"
    by (simp add: pool_allocate_def)
  ultimately show ?thesis using pool_never_shares [OF inj_on_id i] by blast
qed

end
