(* ===== verification/Dispatch.thy ===== *)
theory Dispatch
  imports Aql Pool
begin

text \<open>
  \<open>DispatchQueueSerial\<close> of \<open>dagr/queue.h\<close>: the producer side of an HSA queue. The ring, its write
  index and its doorbell are state; the packets are consumed by the device, so the read index that
  the \<open>k\<close>-th load of a queue observes is a parameter, \<open>read_at q k\<close>. The parameters also hold the
  handles that the runtime returns for new queues and signals. Indices do not reach \<open>2 ^ 64\<close>.
\<close>

unbundle bit_operations_syntax

section \<open>The state of the runtime\<close>

record hsa_env =
  abi :: hsa_abi
  read_at :: "nat \<Rightarrow> nat \<Rightarrow> nat"
  new_queue :: "nat \<Rightarrow> nat"
  new_signal :: "nat \<Rightarrow> nat"

record ring =
  ring_size :: nat
  ring_slots :: "nat \<Rightarrow> packet option"
  write_index :: nat
  doorbell :: nat

record hsa_world =
  rings :: "nat \<Rightarrow> ring"
  sig_val :: "nat \<Rightarrow> int"
  loads :: nat
  qpools :: queue_pools
  spools :: "nat signal_pools"

definition on_ring :: "nat \<Rightarrow> (ring \<Rightarrow> ring) \<Rightarrow> hsa_world \<Rightarrow> hsa_world" where
  "on_ring q f w = w\<lparr>rings := (rings w)(q := f (rings w q))\<rparr>"

section \<open>DispatchQueueSerial\<close>

record dispq =
  mHsaQueue :: nat
  mWriteIndex :: nat

definition dq_make :: "nat \<Rightarrow> hsa_world \<Rightarrow> dispq res" where
  "dq_make q w = rbind (check (q \<noteq> 0) ''q'')
     (\<lambda>_. Inr \<lparr>mHsaQueue = q, mWriteIndex = write_index (rings w q)\<rparr>)"

definition readIndex :: "hsa_env \<Rightarrow> dispq \<Rightarrow> hsa_world \<Rightarrow> nat \<times> hsa_world" where
  "readIndex E d w = (read_at E (mHsaQueue d) (loads w), w\<lparr>loads := Suc (loads w)\<rparr>)"

definition dq_size :: "dispq \<Rightarrow> hsa_world \<Rightarrow> nat" where
  "dq_size d w = ring_size (rings w (mHsaQueue d))"

definition sizeMinus1 :: "dispq \<Rightarrow> hsa_world \<Rightarrow> nat" where
  "sizeMinus1 d w = size_sub (dq_size d w) 1"

definition dq_full :: "hsa_env \<Rightarrow> dispq \<Rightarrow> hsa_world \<Rightarrow> bool \<times> hsa_world" where
  "dq_full E d w = (case readIndex E d w of (r, w') \<Rightarrow> (r + dq_size d w' \<le> mWriteIndex d, w'))"

definition dq_empty :: "hsa_env \<Rightarrow> dispq \<Rightarrow> hsa_world \<Rightarrow> bool \<times> hsa_world" where
  "dq_empty E d w = (case readIndex E d w of (r, w') \<Rightarrow> (mWriteIndex d = r, w'))"

text \<open>The runtime's \<open>add_write_index\<close> returns the value the index had before.\<close>

definition incWriteIndex :: "dispq \<Rightarrow> hsa_world \<Rightarrow> nat \<times> dispq \<times> hsa_world" where
  "incWriteIndex d w = (let old = write_index (rings w (mHsaQueue d)) in
     (old, d\<lparr>mWriteIndex := old\<rparr>, on_ring (mHsaQueue d) (write_index_update (\<lambda>_. old + 1)) w))"

definition headSlot :: "dispq \<Rightarrow> hsa_world \<Rightarrow> nat" where
  "headSlot d w = mWriteIndex d AND sizeMinus1 d w"

text \<open>\<open>while (full()) {}\<close>: the state when the loop ends, if it does.\<close>

partial_function (option) spin :: "hsa_env \<Rightarrow> dispq \<Rightarrow> hsa_world \<Rightarrow> hsa_world option" where
  "spin E d w = (case dq_full E d w of (b, w') \<Rightarrow> if b then spin E d w' else Some w')"

definition giveOneSlot :: "hsa_env \<Rightarrow> dispq \<Rightarrow> hsa_world \<Rightarrow> (nat \<times> dispq \<times> hsa_world) option" where
  "giveOneSlot E d w = Option.bind (spin E d w) (\<lambda>w'.
     case incWriteIndex d w' of (_, d', w'') \<Rightarrow> Some (headSlot d' w'', d', w''))"

definition submitPackets :: "dispq \<Rightarrow> hsa_world \<Rightarrow> hsa_world" where
  "submitPackets d w = on_ring (mHsaQueue d) (doorbell_update (\<lambda>_. mWriteIndex d)) w"

text \<open>A packet written through the pointer to a slot.\<close>

definition put_packet :: "nat \<Rightarrow> nat \<Rightarrow> packet \<Rightarrow> hsa_world \<Rightarrow> hsa_world" where
  "put_packet q slot p = on_ring q (\<lambda>r. r\<lparr>ring_slots := (ring_slots r)(slot := Some p)\<rparr>)"

subsection \<open>The busy wait\<close>

lemma dq_full_eq: "dq_full E d w = (read_at E (mHsaQueue d) (loads w) + dq_size d w \<le> mWriteIndex d,
    w\<lparr>loads := Suc (loads w)\<rparr>)"
  by (simp add: dq_full_def readIndex_def dq_size_def)

lemma spin_ends:
  assumes "loads w \<le> k" "read_at E (mHsaQueue d) k + dq_size d w > mWriteIndex d"
  shows "\<exists>n. n \<le> k \<and> loads w \<le> n \<and> spin E d w = Some (w\<lparr>loads := Suc n\<rparr>) \<and>
    mWriteIndex d < read_at E (mHsaQueue d) n + dq_size d w"
  using assms
proof (induction "k - loads w" arbitrary: w)
  case 0
  then show ?case by (intro exI [of _ k]) (auto simp: spin.simps [of E d w] dq_full_eq)
next
  case (Suc m)
  show ?case
  proof (cases "read_at E (mHsaQueue d) (loads w) + dq_size d w \<le> mWriteIndex d")
    case True
    let ?w = "w\<lparr>loads := Suc (loads w)\<rparr>"
    have "\<exists>n. n \<le> k \<and> loads ?w \<le> n \<and> spin E d ?w = Some (?w\<lparr>loads := Suc n\<rparr>) \<and>
        mWriteIndex d < read_at E (mHsaQueue d) n + dq_size d ?w"
      by (rule Suc.hyps(1)) (use Suc True in \<open>auto simp: dq_size_def\<close>)
    then show ?thesis using True by (auto simp: spin.simps [of E d w] dq_full_eq dq_size_def)
  next
    case False
    then show ?thesis using Suc.prems
      by (intro exI [of _ "loads w"]) (auto simp: spin.simps [of E d w] dq_full_eq)
  qed
qed

lemma spin_Some:
  "spin E d w = Some w' \<Longrightarrow> \<exists>n \<ge> loads w. w' = w\<lparr>loads := Suc n\<rparr> \<and>
    mWriteIndex d < read_at E (mHsaQueue d) n + dq_size d w"
proof (erule spin.raw_induct [where P = "\<lambda>E d w w'. \<exists>n \<ge> loads w. w' = w\<lparr>loads := Suc n\<rparr> \<and>
    mWriteIndex d < read_at E (mHsaQueue d) n + dq_size d w", rotated])
  fix spin :: "hsa_env \<Rightarrow> dispq \<Rightarrow> hsa_world \<Rightarrow> hsa_world option" and E d w and w' :: hsa_world
  assume IH: "\<And>E d w w'. spin E d w = Some w' \<Longrightarrow> \<exists>n \<ge> loads w. w' = w\<lparr>loads := Suc n\<rparr> \<and>
      mWriteIndex d < read_at E (mHsaQueue d) n + dq_size d w"
    and s: "(case dq_full E d w of (b, w') \<Rightarrow> if b then spin E d w' else Some w') = Some w'"
  show "\<exists>n \<ge> loads w. w' = w\<lparr>loads := Suc n\<rparr> \<and>
      mWriteIndex d < read_at E (mHsaQueue d) n + dq_size d w"
  proof (cases "read_at E (mHsaQueue d) (loads w) + dq_size d w \<le> mWriteIndex d")
    case True
    with s IH [of E d "w\<lparr>loads := Suc (loads w)\<rparr>" w'] show ?thesis
      by (auto simp: dq_full_eq dq_size_def intro: Suc_leD)
  next
    case False
    with s show ?thesis by (auto simp: dq_full_eq)
  qed
qed

lemma spin_None: "spin E d w = None \<longleftrightarrow>
    (\<forall>k \<ge> loads w. read_at E (mHsaQueue d) k + dq_size d w \<le> mWriteIndex d)"
  using spin_ends [where w = w and E = E and d = d] spin_Some [of E d w] by (metis linorder_not_le not_Some_eq)

subsection \<open>The slot\<close>

lemma and_size_minus1:
  assumes "s = 2 ^ k"
  shows "n AND (s - 1) = n mod (s :: nat)"
  using assms by (simp add: take_bit_eq_mod [symmetric] take_bit_eq_mask mask_eq_exp_minus_1)

lemma size_sub_one: "0 < s \<Longrightarrow> size_sub s 1 = s - 1"
  by simp

definition ring_ok :: "ring \<Rightarrow> bool" where
  "ring_ok r \<longleftrightarrow> (\<exists>k. ring_size r = 2 ^ k)"

text \<open>A queue object that has not given a slot yet, and one that has.\<close>

definition dq_fresh :: "dispq \<Rightarrow> hsa_world \<Rightarrow> bool" where
  "dq_fresh d w \<longleftrightarrow> mWriteIndex d = write_index (rings w (mHsaQueue d))"

definition dq_used :: "dispq \<Rightarrow> hsa_world \<Rightarrow> bool" where
  "dq_used d w \<longleftrightarrow> Suc (mWriteIndex d) = write_index (rings w (mHsaQueue d))"

text \<open>The state after the \<open>n\<close>-th load ended the wait and the slot was taken.\<close>

definition gave :: "dispq \<Rightarrow> nat \<Rightarrow> hsa_world \<Rightarrow> hsa_world" where
  "gave d n w = on_ring (mHsaQueue d) (\<lambda>r. r\<lparr>write_index := Suc (write_index r)\<rparr>) (w\<lparr>loads := Suc n\<rparr>)"

lemma loads_inj [simp]: "w\<lparr>loads := m\<rparr> = w\<lparr>loads := n\<rparr> \<longleftrightarrow> m = n"
  by (metis hsa_world.select_convs(3) hsa_world.surjective hsa_world.update_convs(3))

lemma giveOneSlot_eq:
  assumes "ring_ok (rings w (mHsaQueue d))"
  shows "giveOneSlot E d w = Some (slot, d', w') \<longleftrightarrow>
    (\<exists>n. spin E d w = Some (w\<lparr>loads := Suc n\<rparr>) \<and> w' = gave d n w \<and>
      slot = write_index (rings w (mHsaQueue d)) mod dq_size d w \<and>
      d' = d\<lparr>mWriteIndex := write_index (rings w (mHsaQueue d))\<rparr>)"
proof -
  let ?i = "write_index (rings w (mHsaQueue d))"
  obtain k where k: "ring_size (rings w (mHsaQueue d)) = 2 ^ k" using assms by (auto simp: ring_ok_def)
  have slot: "headSlot (d\<lparr>mWriteIndex := ?i\<rparr>) (gave d n w) = ?i mod dq_size d w" for n
    using and_size_minus1 [OF k] k
    by (simp add: headSlot_def sizeMinus1_def dq_size_def gave_def on_ring_def)
  have inc: "incWriteIndex d (w\<lparr>loads := Suc n\<rparr>) = (?i, d\<lparr>mWriteIndex := ?i\<rparr>, gave d n w)" for n
    by (simp add: incWriteIndex_def gave_def on_ring_def Let_def)
  show ?thesis
  proof (cases "spin E d w")
    case (Some v)
    then obtain n where v: "v = w\<lparr>loads := Suc n\<rparr>" using spin_Some by blast
    then show ?thesis using Some v by (auto simp: giveOneSlot_def inc slot)
  qed (simp add: giveOneSlot_def)
qed

text \<open>A packet that the device has not consumed when the read index is \<open>r\<close> sits in the slot.\<close>

definition unread_in :: "ring \<Rightarrow> nat \<Rightarrow> nat \<Rightarrow> bool" where
  "unread_in rg r slot \<longleftrightarrow> (\<exists>i. r \<le> i \<and> i < write_index rg \<and> i mod ring_size rg = slot)"

lemma unread_in_next:
  assumes "0 < ring_size rg" "r \<le> write_index rg"
  shows "unread_in rg r (write_index rg mod ring_size rg) \<longleftrightarrow> r + ring_size rg \<le> write_index rg"
proof
  assume "unread_in rg r (write_index rg mod ring_size rg)"
  then obtain i where i: "r \<le> i" "i < write_index rg" "i mod ring_size rg = write_index rg mod ring_size rg"
    by (auto simp: unread_in_def)
  then have "ring_size rg dvd write_index rg - i"
    by (metis less_imp_le_nat mod_eq_dvd_iff_nat)
  then have "ring_size rg \<le> write_index rg - i" using i(2) by (simp add: dvd_imp_le)
  then show "r + ring_size rg \<le> write_index rg" using i by linarith
next
  assume "r + ring_size rg \<le> write_index rg"
  then have "(write_index rg - ring_size rg) mod ring_size rg = write_index rg mod ring_size rg"
    by (metis add_leD2 le_mod_geq)
  then show "unread_in rg r (write_index rg mod ring_size rg)"
    using \<open>r + ring_size rg \<le> write_index rg\<close> assms(1)
    by (auto simp: unread_in_def intro!: exI [of _ "write_index rg - ring_size rg"])
qed

text \<open>
  C23: \<open>giveOneSlot\<close> returns if and only if some load of the read index shows room by the test the code
  makes, and then it hands out the position of the next packet, one packet after the other; the index
  it keeps for the doorbell is the index of that packet, and no packet is touched. If at the load that
  ended the wait the ring held fewer unread packets than it has slots, the slot is that of none of them.
\<close>

theorem giveOneSlot_next:
  assumes "ring_ok (rings w (mHsaQueue d))"
  shows "(giveOneSlot E d w = None \<longleftrightarrow>
      (\<forall>k \<ge> loads w. read_at E (mHsaQueue d) k + dq_size d w \<le> mWriteIndex d)) \<and>
    (\<forall>slot d' w'. giveOneSlot E d w = Some (slot, d', w') \<longrightarrow>
      slot = write_index (rings w (mHsaQueue d)) mod dq_size d w \<and> slot < dq_size d w \<and>
      write_index (rings w' (mHsaQueue d)) = Suc (write_index (rings w (mHsaQueue d))) \<and> dq_used d' w' \<and>
      doorbell (rings (submitPackets d' w') (mHsaQueue d)) = write_index (rings w (mHsaQueue d)) \<and>
      ring_slots (rings w' (mHsaQueue d)) = ring_slots (rings w (mHsaQueue d)) \<and>
      (\<exists>k \<ge> loads w. loads w' = Suc k \<and> (let r = read_at E (mHsaQueue d) k; i = write_index (rings w (mHsaQueue d)) in
        mWriteIndex d < r + dq_size d w \<and>
        (r \<le> i \<and> i < r + dq_size d w \<longrightarrow> \<not> unread_in (rings w (mHsaQueue d)) r slot))))"
proof -
  let ?rg = "rings w (mHsaQueue d)" and ?r = "read_at E (mHsaQueue d)"
  have s: "0 < dq_size d w" using assms by (auto simp: ring_ok_def dq_size_def)
  have "giveOneSlot E d w = None \<longleftrightarrow> spin E d w = None"
    by (auto simp: giveOneSlot_def incWriteIndex_def Let_def split: bind_splits)
  moreover have "slot = write_index ?rg mod dq_size d w \<and> slot < dq_size d w \<and>
      write_index (rings w' (mHsaQueue d)) = Suc (write_index ?rg) \<and> dq_used d' w' \<and>
      doorbell (rings (submitPackets d' w') (mHsaQueue d)) = write_index ?rg \<and>
      ring_slots (rings w' (mHsaQueue d)) = ring_slots ?rg \<and>
      (\<exists>k \<ge> loads w. loads w' = Suc k \<and> (let r = ?r k; i = write_index ?rg in mWriteIndex d < r + dq_size d w \<and>
        (r \<le> i \<and> i < r + dq_size d w \<longrightarrow> \<not> unread_in ?rg r slot)))"
    if give: "giveOneSlot E d w = Some (slot, d', w')" for slot d' w'
  proof -
    from give obtain n where n: "spin E d w = Some (w\<lparr>loads := Suc n\<rparr>)" "w' = gave d n w"
        "slot = write_index ?rg mod dq_size d w" "d' = d\<lparr>mWriteIndex := write_index ?rg\<rparr>"
      unfolding giveOneSlot_eq [OF assms] by blast
    have "loads w \<le> n" "mWriteIndex d < ?r n + dq_size d w" using spin_Some [OF n(1)] by auto
    moreover have "\<not> unread_in ?rg (?r n) slot" if "?r n \<le> write_index ?rg" "write_index ?rg < ?r n + dq_size d w"
      using unread_in_next [of ?rg "?r n"] that s n(3) by (simp add: dq_size_def)
    moreover have "loads w' = Suc n" by (simp add: n(2) gave_def on_ring_def)
    ultimately have "\<exists>k \<ge> loads w. loads w' = Suc k \<and> (let r = ?r k; i = write_index ?rg in mWriteIndex d < r + dq_size d w \<and>
        (r \<le> i \<and> i < r + dq_size d w \<longrightarrow> \<not> unread_in ?rg r slot))" unfolding Let_def by blast
    then show ?thesis using s n by (simp add: dq_used_def gave_def on_ring_def submitPackets_def)
  qed
  ultimately show ?thesis unfolding spin_None by blast
qed

text \<open>
  C24: the test for room compares with the index of the last packet instead of the next one, so once
  a queue object has given a slot, a full ring passes for one with room: the wait does not wait, and
  the slot it gives is the one of the oldest packet that the device has not read. With room for at
  least one packet the slot is free; a fresh queue object waits on a full ring.
\<close>

theorem giveOneSlot_overwrites:
  assumes rg: "ring_ok (rings w (mHsaQueue d))" and r: "r = read_at E (mHsaQueue d) (loads w)"
    and w: "r \<le> write_index (rings w (mHsaQueue d))" "write_index (rings w (mHsaQueue d)) \<le> r + dq_size d w"
    and give: "giveOneSlot E d w = Some (slot, d', w')"
  shows "(dq_used d w \<longrightarrow> loads w' = Suc (loads w)) \<and>
    (dq_used d w \<longrightarrow>
      (unread_in (rings w (mHsaQueue d)) r slot \<longleftrightarrow> write_index (rings w (mHsaQueue d)) = r + dq_size d w)) \<and>
    (dq_fresh d w \<longrightarrow> loads w' = Suc (loads w) \<longrightarrow> \<not> unread_in (rings w (mHsaQueue d)) r slot)"
proof -
  let ?rg = "rings w (mHsaQueue d)"
  have s: "0 < ring_size ?rg" using rg by (auto simp: ring_ok_def)
  from give obtain n where n: "spin E d w = Some (w\<lparr>loads := Suc n\<rparr>)" "w' = gave d n w"
      "slot = write_index ?rg mod ring_size ?rg"
    unfolding giveOneSlot_eq [OF rg] by (auto simp: dq_size_def)
  have "mWriteIndex d < r + dq_size d w \<Longrightarrow> loads w' = Suc (loads w)"
    using n r by (auto simp: spin.simps [of E d w] dq_full_eq gave_def on_ring_def)
  moreover have "mWriteIndex d < r + dq_size d w" if "loads w' = Suc (loads w)"
  proof -
    from that n(2) have "n = loads w" by (simp add: gave_def on_ring_def)
    with spin_Some [OF n(1)] r show ?thesis by auto
  qed
  moreover have "unread_in ?rg r slot \<longleftrightarrow> r + ring_size ?rg \<le> write_index ?rg"
    unfolding n(3) by (rule unread_in_next [OF s w(1)])
  ultimately show ?thesis using w(2) by (auto simp: dq_used_def dq_fresh_def dq_size_def)
qed

text \<open>A ring of four slots that holds four unread packets.\<close>

definition ring4 :: ring where
  "ring4 = \<lparr>ring_size = 4, ring_slots = Map.empty, write_index = 4, doorbell = 3\<rparr>"

definition world4 :: hsa_world where
  "world4 = \<lparr>rings = (\<lambda>_. ring4), sig_val = (\<lambda>_. 1), loads = 0,
     qpools = \<lparr>mSerialQueuePool = pool_empty, mConcurrentQueuePool = pool_empty\<rparr>,
     spools = \<lparr>mUserSignalPool = pool_empty, mIntrptSignalPool = pool_empty\<rparr>\<rparr>"

definition env4 :: hsa_env where
  "env4 = \<lparr>abi = abi_ex, read_at = (\<lambda>q k. 0), new_queue = Suc, new_signal = Suc\<rparr>"

lemma ring4_ok: "ring_ok (rings world4 q)"
  by (auto simp: ring_ok_def world4_def ring4_def intro!: exI [of _ 2])

theorem giveOneSlot_next_witness:
  "giveOneSlot env4 \<lparr>mHsaQueue = 7, mWriteIndex = 4\<rparr> world4 = None"
  using giveOneSlot_next [where w = world4 and d = "\<lparr>mHsaQueue = 7, mWriteIndex = 4\<rparr>" and E = env4, OF ring4_ok]
  by (simp add: world4_def ring4_def env4_def dq_size_def)

lemma give4: "\<exists>d' w'. giveOneSlot env4 \<lparr>mHsaQueue = 7, mWriteIndex = 3\<rparr> world4 = Some (0, d', w')"
proof -
  have "spin env4 \<lparr>mHsaQueue = 7, mWriteIndex = 3\<rparr> world4 = Some (world4\<lparr>loads := Suc 0\<rparr>)"
    by (subst spin.simps) (simp add: dq_full_eq env4_def world4_def ring4_def dq_size_def)
  then show ?thesis
    using giveOneSlot_eq [where w = world4 and d = "\<lparr>mHsaQueue = 7, mWriteIndex = 3\<rparr>" and E = env4 and slot = 0,
        OF ring4_ok]
    by (simp add: dq_size_def) (simp add: world4_def ring4_def)
qed

theorem giveOneSlot_overwrites_witness:
  "\<exists>d' w'. giveOneSlot env4 \<lparr>mHsaQueue = 7, mWriteIndex = 3\<rparr> world4 = Some (0, d', w') \<and> loads w' = 1 \<and>
    unread_in ring4 0 0"
proof -
  from give4 obtain d' w' where g: "giveOneSlot env4 \<lparr>mHsaQueue = 7, mWriteIndex = 3\<rparr> world4 = Some (0, d', w')"
    by blast
  from giveOneSlot_overwrites [OF ring4_ok refl _ _ g] have "loads w' = 1 \<and> unread_in ring4 0 0"
    by (simp add: env4_def world4_def ring4_def dq_size_def dq_used_def)
  with g show ?thesis by blast
qed

end
