(* ===== verification/HsaState.thy ===== *)
theory HsaState
  imports Dispatch
begin

text \<open>
  What the HSA back end learns at start-up and keeps: agents (\<open>RuntimeState\<close>, \<open>dagr/hsaCore.h\<close>), memory
  regions (\<open>AgentRegionState\<close>, \<open>dagr/memory.h\<close>), memory pools (\<open>dagr/hsaMemPool.h\<close>), loaded code
  (\<open>ExecutableState\<close>, \<open>dagr/binary.h\<close>) and registered kernels (\<open>GpuKernInfoState\<close>, \<open>dagr/kernel.h\<close>);
  and \<open>GpuExecutionResource::makeTask\<close> of \<open>dagr/executor.h\<close>. What the runtime answers (the agents and
  regions it iterates over, their attributes, the symbols of an executable) are parameters.
\<close>

unbundle bit_operations_syntax

section \<open>Agents\<close>

datatype device_kind = DeviceGPU | DeviceCPU | DeviceOther

record runtime_state =
  mGpuAgents :: "nat list"
  mCpuAgents :: "nat list"

definition checkDuplicate :: "nat list \<Rightarrow> nat \<Rightarrow> unit res" where
  "checkDuplicate agentVec agent = check (agent \<notin> set agentVec) ''duplicate agent''"

definition getAgent :: "nat list \<Rightarrow> nat \<Rightarrow> nat res" where
  "getAgent agentVec i = (if i < length agentVec then Inr (agentVec ! i) else Inl (Aborted ''std::out_of_range''))"

definition addNewAgent :: "nat \<Rightarrow> device_kind \<Rightarrow> runtime_state \<Rightarrow> runtime_state res" where
  "addNewAgent agent kind s = (case kind of
     DeviceCPU \<Rightarrow> rbind (checkDuplicate (mCpuAgents s) agent) (\<lambda>_. Inr (s\<lparr>mCpuAgents := mCpuAgents s @ [agent]\<rparr>))
   | DeviceGPU \<Rightarrow> rbind (checkDuplicate (mGpuAgents s) agent) (\<lambda>_. Inr (s\<lparr>mGpuAgents := mGpuAgents s @ [agent]\<rparr>))
   | DeviceOther \<Rightarrow> Inl (Aborted ''device kind''))"

text \<open>The runtime calls \<open>findGpuAgents\<close> on each agent in turn.\<close>

definition runtime_init :: "(nat \<Rightarrow> device_kind) \<Rightarrow> nat list \<Rightarrow> runtime_state res" where
  "runtime_init kind agents =
     rbind (for_each (\<lambda>a. addNewAgent a (kind a)) agents \<lparr>mGpuAgents = [], mCpuAgents = []\<rparr>) (\<lambda>s.
     rbind (check (mGpuAgents s \<noteq> []) ''!mGpuAgents.empty()'') (\<lambda>_.
     rbind (check (mCpuAgents s \<noteq> []) ''!mCpuAgents.empty()'') (\<lambda>_. Inr s)))"

definition gpuAgent :: "runtime_state \<Rightarrow> nat \<Rightarrow> nat res" where
  "gpuAgent s i = getAgent (mGpuAgents s) i"

definition cpuAgent :: "runtime_state \<Rightarrow> nat \<Rightarrow> nat res" where
  "cpuAgent s i = getAgent (mCpuAgents s) i"

lemma agents_found:
  assumes "distinct agents" "\<forall>a \<in> set agents. kind a \<noteq> DeviceOther"
  shows "for_each (\<lambda>a. addNewAgent a (kind a)) agents \<lparr>mGpuAgents = [], mCpuAgents = []\<rparr> =
    Inr \<lparr>mGpuAgents = filter (\<lambda>a. kind a = DeviceGPU) agents,
         mCpuAgents = filter (\<lambda>a. kind a = DeviceCPU) agents\<rparr>"
proof -
  have "\<exists>s. for_each (\<lambda>a. addNewAgent a (kind a)) agents \<lparr>mGpuAgents = [], mCpuAgents = []\<rparr> = Inr s \<and>
      s = \<lparr>mGpuAgents = filter (\<lambda>a. kind a = DeviceGPU) agents,
           mCpuAgents = filter (\<lambda>a. kind a = DeviceCPU) agents\<rparr>"
  proof (rule for_each_rule)
    fix ys y zs s
    assume ys: "agents = ys @ y # zs"
      and s: "s = \<lparr>mGpuAgents = filter (\<lambda>a. kind a = DeviceGPU) ys,
           mCpuAgents = filter (\<lambda>a. kind a = DeviceCPU) ys\<rparr>"
    have "y \<notin> set ys" "kind y \<noteq> DeviceOther" using assms ys by auto
    then show "\<exists>t'. addNewAgent y (kind y) s = Inr t' \<and>
        t' = \<lparr>mGpuAgents = filter (\<lambda>a. kind a = DeviceGPU) (ys @ [y]),
           mCpuAgents = filter (\<lambda>a. kind a = DeviceCPU) (ys @ [y])\<rparr>"
      by (cases "kind y") (auto simp: addNewAgent_def checkDuplicate_def s)
  qed simp
  then show ?thesis by blast
qed

section \<open>Regions and pools sorted by their flags\<close>

text \<open>
  The interface of both: \<open>register\<close> appends a global item to the list of the first class whose flag it
  has, ignores an item that is not global and aborts on a global item without any flag.
\<close>

locale flag_classes =
  fixes register :: "'r \<Rightarrow> 's \<Rightarrow> 's res"
    and global :: "'r \<Rightarrow> bool"
    and cls :: "'r \<Rightarrow> nat option"
    and view :: "'s \<Rightarrow> nat \<Rightarrow> 'r list"
    and msg :: string
  assumes skip: "\<not> global r \<Longrightarrow> register r s = Inr s"
    and put: "global r \<Longrightarrow> cls r = Some c \<Longrightarrow>
      \<exists>s'. register r s = Inr s' \<and> view s' = (view s)(c := view s c @ [r])"
    and abort: "global r \<Longrightarrow> cls r = None \<Longrightarrow> register r s = Inl (Aborted msg)"
begin

lemma registered:
  assumes "\<forall>r \<in> set rs. global r \<longrightarrow> cls r \<noteq> None"
  shows "\<exists>s'. for_each register rs s = Inr s' \<and>
    (\<forall>c. view s' c = view s c @ filter (\<lambda>r. global r \<and> cls r = Some c) rs)"
proof -
  have "\<exists>s'. for_each register rs s = Inr s' \<and>
      view s' = (\<lambda>c. view s c @ filter (\<lambda>r. global r \<and> cls r = Some c) rs)"
  proof (rule for_each_rule)
    fix ys y zs t
    assume ys: "rs = ys @ y # zs"
      and t: "view t = (\<lambda>c. view s c @ filter (\<lambda>r. global r \<and> cls r = Some c) ys)"
    show "\<exists>t'. register y t = Inr t' \<and>
        view t' = (\<lambda>c. view s c @ filter (\<lambda>r. global r \<and> cls r = Some c) (ys @ [y]))"
    proof (cases "global y")
      case True
      then obtain c where "cls y = Some c" using assms ys by auto
      with True put [of y c t] show ?thesis by (auto simp: t fun_eq_iff)
    qed (use skip in \<open>auto simp: t\<close>)
  qed simp
  then show ?thesis by auto
qed

lemma unclassified_aborts:
  assumes "rs = ys @ r # zs" "\<forall>y \<in> set ys. global y \<longrightarrow> cls y \<noteq> None" "global r" "cls r = None"
  shows "for_each register rs s = Inl (Aborted msg)"
proof -
  from registered [OF assms(2), of s] obtain t where "for_each register ys s = Inr t" by blast
  then show ?thesis using abort [OF assms(3,4)] by (simp add: assms(1) for_each_append)
qed

end

record flag_bits =
  FLAG_KERNARG :: "32 word"
  FLAG_COARSE :: "32 word"
  FLAG_FINE :: "32 word"

definition has_flag :: "32 word \<Rightarrow> 32 word \<Rightarrow> bool" where
  "has_flag flags f \<longleftrightarrow> flags AND f \<noteq> 0"

definition flag_class :: "flag_bits \<Rightarrow> 32 word \<Rightarrow> nat option" where
  "flag_class F flags = (if has_flag flags (FLAG_KERNARG F) then Some 0
     else if has_flag flags (FLAG_COARSE F) then Some 1
     else if has_flag flags (FLAG_FINE F) then Some 2 else None)"

subsection \<open>Regions\<close>

record region_info =
  segment_global :: bool
  global_flags :: "32 word"
  region_size :: nat
  region_granule :: nat
  region_alignment :: nat
  region_max :: nat

type_synonym regions = "nat \<Rightarrow> region_info"

definition sizeTyAttr :: "nat \<Rightarrow> nat res" where
  "sizeTyAttr sz = rbind (check (sz \<noteq> 0) ''sz != 0ul'') (\<lambda>_. Inr sz)"

definition isGlobal :: "regions \<Rightarrow> nat \<Rightarrow> bool" where
  "isGlobal R r \<longleftrightarrow> segment_global (R r)"

definition hasGlobalFlags :: "regions \<Rightarrow> nat \<Rightarrow> 32 word \<Rightarrow> bool res" where
  "hasGlobalFlags R r flag = rbind (check (isGlobal R r) ''isGlobal(region)'')
     (\<lambda>_. Inr (has_flag (global_flags (R r)) flag))"

definition isKernArg :: "flag_bits \<Rightarrow> regions \<Rightarrow> nat \<Rightarrow> bool res" where
  "isKernArg F R r = hasGlobalFlags R r (FLAG_KERNARG F)"

definition isCoarseGrain :: "flag_bits \<Rightarrow> regions \<Rightarrow> nat \<Rightarrow> bool res" where
  "isCoarseGrain F R r = hasGlobalFlags R r (FLAG_COARSE F)"

definition isFineGrain :: "flag_bits \<Rightarrow> regions \<Rightarrow> nat \<Rightarrow> bool res" where
  "isFineGrain F R r = hasGlobalFlags R r (FLAG_FINE F)"

definition allocGranule :: "regions \<Rightarrow> nat \<Rightarrow> nat res" where
  "allocGranule R r = sizeTyAttr (region_granule (R r))"

definition allocAlignment :: "regions \<Rightarrow> nat \<Rightarrow> nat res" where
  "allocAlignment R r = sizeTyAttr (region_alignment (R r))"

definition allocMaxSize :: "regions \<Rightarrow> nat \<Rightarrow> nat res" where
  "allocMaxSize R r = sizeTyAttr (region_max (R r))"

definition regionSize :: "regions \<Rightarrow> nat \<Rightarrow> nat res" where
  "regionSize R r = sizeTyAttr (region_size (R r))"

record region_state =
  mKernArgRegions :: "nat list"
  mCoarseRegions :: "nat list"
  mFineRegions :: "nat list"

definition registerRegion :: "flag_bits \<Rightarrow> regions \<Rightarrow> nat \<Rightarrow> region_state \<Rightarrow> region_state res" where
  "registerRegion F R r s = (if \<not> isGlobal R r then Inr s else
     rbind (isKernArg F R r) (\<lambda>b. if b then Inr (s\<lparr>mKernArgRegions := mKernArgRegions s @ [r]\<rparr>) else
     rbind (isCoarseGrain F R r) (\<lambda>b. if b then Inr (s\<lparr>mCoarseRegions := mCoarseRegions s @ [r]\<rparr>) else
     rbind (isFineGrain F R r) (\<lambda>b. if b then Inr (s\<lparr>mFineRegions := mFineRegions s @ [r]\<rparr>) else
     Inl (Aborted ''registerRegion'')))))"

definition region_init :: "flag_bits \<Rightarrow> regions \<Rightarrow> nat list \<Rightarrow> region_state res" where
  "region_init F R rs = for_each (registerRegion F R) rs
     \<lparr>mKernArgRegions = [], mCoarseRegions = [], mFineRegions = []\<rparr>"

definition getRegionImpl :: "nat list \<Rightarrow> nat \<Rightarrow> nat res" where
  "getRegionImpl regVec i = rbind (check (i < length regVec) ''id < regVec.size()'') (\<lambda>_. Inr (regVec ! i))"

definition kernArgRegion :: "region_state \<Rightarrow> nat \<Rightarrow> nat res" where
  "kernArgRegion s i = getRegionImpl (mKernArgRegions s) i"

definition coarseRegion :: "region_state \<Rightarrow> nat \<Rightarrow> nat res" where
  "coarseRegion s i = getRegionImpl (mCoarseRegions s) i"

definition fineRegion :: "region_state \<Rightarrow> nat \<Rightarrow> nat res" where
  "fineRegion s i = getRegionImpl (mFineRegions s) i"

definition region_view :: "region_state \<Rightarrow> nat \<Rightarrow> nat list" where
  "region_view s c = (if c = 0 then mKernArgRegions s else if c = 1 then mCoarseRegions s
     else if c = 2 then mFineRegions s else [])"

interpretation reg: flag_classes "registerRegion F R" "isGlobal R" "\<lambda>r. flag_class F (global_flags (R r))"
  region_view "''registerRegion''" for F R
  by unfold_locales
    (auto simp: registerRegion_def isKernArg_def isCoarseGrain_def isFineGrain_def hasGlobalFlags_def
      flag_class_def region_view_def fun_eq_iff split: if_splits)

subsection \<open>Memory pools\<close>

record pool_state =
  mKernargPools :: "nat list"
  mCoarsegrainPools :: "nat list"
  mFinegrainPools :: "nat list"

definition registerMemPool :: "flag_bits \<Rightarrow> nat \<Rightarrow> 32 word \<Rightarrow> pool_state \<Rightarrow> pool_state res" where
  "registerMemPool F p flags s =
     (if has_flag flags (FLAG_KERNARG F) then Inr (s\<lparr>mKernargPools := mKernargPools s @ [p]\<rparr>)
      else if has_flag flags (FLAG_COARSE F) then Inr (s\<lparr>mCoarsegrainPools := mCoarsegrainPools s @ [p]\<rparr>)
      else if has_flag flags (FLAG_FINE F) then Inr (s\<lparr>mFinegrainPools := mFinegrainPools s @ [p]\<rparr>)
      else Inl (Aborted ''registerMemPool''))"

definition visitMemPool :: "flag_bits \<Rightarrow> regions \<Rightarrow> nat \<Rightarrow> pool_state \<Rightarrow> pool_state res" where
  "visitMemPool F R p s = (if \<not> segment_global (R p) then Inr s
     else registerMemPool F p (global_flags (R p)) s)"

definition pool_view :: "pool_state \<Rightarrow> nat \<Rightarrow> nat list" where
  "pool_view s c = (if c = 0 then mKernargPools s else if c = 1 then mCoarsegrainPools s
     else if c = 2 then mFinegrainPools s else [])"

interpretation mpool: flag_classes "visitMemPool F R" "\<lambda>p. segment_global (R p)"
  "\<lambda>p. flag_class F (global_flags (R p))" pool_view "''registerMemPool''" for F R
  by unfold_locales
    (auto simp: visitMemPool_def registerMemPool_def flag_class_def pool_view_def fun_eq_iff split: if_splits)

definition mempool_init :: "flag_bits \<Rightarrow> regions \<Rightarrow> nat list \<Rightarrow> pool_state res" where
  "mempool_init F R ps = for_each (visitMemPool F R) ps
     \<lparr>mKernargPools = [], mCoarsegrainPools = [], mFinegrainPools = []\<rparr>"

text \<open>
  The regions of an agent are sorted completely: every global region is in exactly one list, that of
  the first of the kinds kernel-argument, coarse-grained, fine-grained that it has, in the order of
  the runtime, no other region is in any list, and the memory pools are sorted the same way.
\<close>

theorem regions_sorted:
  assumes "\<forall>r \<in> set rs. isGlobal R r \<longrightarrow> flag_class F (global_flags (R r)) \<noteq> None"
  shows "\<exists>s p. region_init F R rs = Inr s \<and> mempool_init F R rs = Inr p \<and>
    mKernArgRegions s = filter (\<lambda>r. isGlobal R r \<and> flag_class F (global_flags (R r)) = Some 0) rs \<and>
    mCoarseRegions s = filter (\<lambda>r. isGlobal R r \<and> flag_class F (global_flags (R r)) = Some 1) rs \<and>
    mFineRegions s = filter (\<lambda>r. isGlobal R r \<and> flag_class F (global_flags (R r)) = Some 2) rs \<and>
    mset (mKernArgRegions s @ mCoarseRegions s @ mFineRegions s) = filter_mset (isGlobal R) (mset rs) \<and>
    pool_view p = region_view s"
proof -
  from reg.registered [OF assms, of "\<lparr>mKernArgRegions = [], mCoarseRegions = [], mFineRegions = []\<rparr>"]
  obtain s where s: "region_init F R rs = Inr s"
    "\<And>c. region_view s c = filter (\<lambda>r. isGlobal R r \<and> flag_class F (global_flags (R r)) = Some c) rs"
    by (auto simp: region_init_def region_view_def)
  from assms have "\<forall>r \<in> set rs. segment_global (R r) \<longrightarrow> flag_class F (global_flags (R r)) \<noteq> None"
    by (simp add: isGlobal_def)
  from mpool.registered [OF this, of "\<lparr>mKernargPools = [], mCoarsegrainPools = [], mFinegrainPools = []\<rparr>"]
  obtain p where p: "mempool_init F R rs = Inr p"
    "\<And>c. pool_view p c = filter (\<lambda>r. segment_global (R r) \<and> flag_class F (global_flags (R r)) = Some c) rs"
    by (auto simp: mempool_init_def pool_view_def)
  have l: "mKernArgRegions s = filter (\<lambda>r. isGlobal R r \<and> flag_class F (global_flags (R r)) = Some 0) rs"
    "mCoarseRegions s = filter (\<lambda>r. isGlobal R r \<and> flag_class F (global_flags (R r)) = Some 1) rs"
    "mFineRegions s = filter (\<lambda>r. isGlobal R r \<and> flag_class F (global_flags (R r)) = Some 2) rs"
    using s(2) [of 0] s(2) [of 1] s(2) [of 2] by (simp_all add: region_view_def)
  have "mset (mKernArgRegions s @ mCoarseRegions s @ mFineRegions s) = filter_mset (isGlobal R) (mset rs)"
    using assms unfolding l
    by (induction rs) (auto simp: flag_class_def split: if_splits)
  moreover have "pool_view p = region_view s" using s(2) p(2) by (simp add: fun_eq_iff isGlobal_def)
  ultimately show ?thesis using s(1) p(1) l by blast
qed

text \<open>Three regions: kernel arguments (also fine-grained), one that is not global, coarse-grained.\<close>

definition flags_ex :: flag_bits where
  "flags_ex = \<lparr>FLAG_KERNARG = 1, FLAG_COARSE = 4, FLAG_FINE = 2\<rparr>"

definition regions_ex :: regions where
  "regions_ex r = \<lparr>segment_global = (r \<noteq> 2), global_flags = (if r = 1 then 3 else 4), region_size = 4096,
     region_granule = 4096, region_alignment = 4096, region_max = 4096\<rparr>"

theorem regions_sorted_witness:
  "\<exists>s. region_init flags_ex regions_ex [1, 2, 3] = Inr s \<and> mKernArgRegions s = [1] \<and> mCoarseRegions s = [3] \<and>
     mFineRegions s = []"
proof -
  have c: "flag_class flags_ex (global_flags (regions_ex r)) = (if r = 1 then Some 0 else Some 1)" for r
    by (simp add: flag_class_def has_flag_def flags_ex_def regions_ex_def)
  have g: "isGlobal regions_ex r \<longleftrightarrow> r \<noteq> 2" for r by (simp add: isGlobal_def regions_ex_def)
  have "\<forall>r \<in> set [1, 2, 3]. isGlobal regions_ex r \<longrightarrow> flag_class flags_ex (global_flags (regions_ex r)) \<noteq> None"
    by (simp add: c)
  from regions_sorted [OF this] show ?thesis by (auto simp: c g)
qed

end
