(* ===== verification/KernState.thy ===== *)
theory KernState
  imports HsaState KernNames
begin

text \<open>
  The kernels of the HSA back end: loaded executables (\<open>ExecutableState\<close>, \<open>dagr/binary.h\<close>), registered
  kernels (\<open>GpuKernInfoState\<close>, \<open>dagr/kernel.h\<close>) and the instances that \<open>GpuExecutionResource::makeTask\<close>
  (\<open>dagr/executor.h\<close>) makes of them. The handle of a loaded executable and the symbols it has are
  answers of the runtime, so they are parameters; a pointer to an entry of the table of kernels is
  the name under which the entry is stored.
\<close>

section \<open>ExecutableState\<close>

type_synonym executables = "nat list"

text \<open>\<open>exe_of b\<close> is the handle of the executable made from the bytes \<open>b\<close>.\<close>

definition loadMemory :: "(string \<Rightarrow> nat) \<Rightarrow> string \<Rightarrow> executables \<Rightarrow> executables" where
  "loadMemory exe_of bytes es = es @ [exe_of bytes]"

definition exec_init :: "(string \<Rightarrow> nat) \<Rightarrow> isa_blob list \<Rightarrow> executables" where
  "exec_init exe_of blobs = fold (\<lambda>b es. if \<not> blob_isEmpty b \<and> isGPU b then loadMemory exe_of (mBytes b) es
     else es) blobs []"

fun find_symbol :: "(nat \<Rightarrow> string \<Rightarrow> 64 word option) \<Rightarrow> executables \<Rightarrow> string \<Rightarrow> 64 word option" where
  "find_symbol symb [] name = None"
| "find_symbol symb (e # es) name = (case symb e name of Some k \<Rightarrow> Some k | None \<Rightarrow> find_symbol symb es name)"

definition kernelObjectByName :: "(nat \<Rightarrow> string \<Rightarrow> 64 word option) \<Rightarrow> executables \<Rightarrow> string \<Rightarrow> 64 word res" where
  "kernelObjectByName symb es name = (case find_symbol symb es name of
     None \<Rightarrow> Inl (Aborted ''kernelObjtectByName'') | Some k \<Rightarrow> Inr k)"

lemma exec_init_eq: "exec_init exe_of blobs =
    map (\<lambda>b. exe_of (mBytes b)) (filter (\<lambda>b. \<not> blob_isEmpty b \<and> isGPU b) blobs)"
proof -
  have "fold (\<lambda>b es. if \<not> blob_isEmpty b \<and> isGPU b then loadMemory exe_of (mBytes b) es else es) blobs es =
      es @ map (\<lambda>b. exe_of (mBytes b)) (filter (\<lambda>b. \<not> blob_isEmpty b \<and> isGPU b) blobs)" for es
    by (induction blobs arbitrary: es) (auto simp: loadMemory_def)
  then show ?thesis by (simp add: exec_init_def)
qed

section \<open>GpuKernInfoState\<close>

text \<open>\<open>mKernArgHeap\<close> points to a bucket of the kernel-argument heap.\<close>

record gpu_kern_info =
  mKernArgBufSz :: nat
  mKernArgHeap :: nat
  mKernObj :: "64 word"

record kern_state =
  mExes :: executables
  mKArgHeap :: kaheap
  mKernInfoByName :: "(string \<times> gpu_kern_info) list"
  mKernInfoByPtr :: "(nat \<times> string) list"

text \<open>
  \<open>ArgBufSize\<close> is a constant of the compiler, so an instance for which it has no value does not exist,
  whatever the table holds.
\<close>

definition registerKernel_name :: "(nat \<Rightarrow> string \<Rightarrow> 64 word option) \<Rightarrow> arg list \<Rightarrow> string \<Rightarrow> kern_state \<Rightarrow>
    (string \<times> kern_state) res" where
  "registerKernel_name symb args kname s = rbind (ArgBufSize args) (\<lambda>argBufSz.
     case map_of (mKernInfoByName s) kname of
     Some ki \<Rightarrow> Inr (kname, s)
   | None \<Rightarrow> rbind (kernelObjectByName symb (mExes s) kname) (\<lambda>kobj.
       rbind (check (isValid kobj) ''kobj.isValid()'') (\<lambda>_.
       rbind (heapForSize argBufSz (mKArgHeap s)) (\<lambda>(i, h, k).
       Inr (kname, s\<lparr>mKArgHeap := k, mKernInfoByName :=
         (kname, \<lparr>mKernArgBufSz = argBufSz, mKernArgHeap = i, mKernObj = kobj\<rparr>) # mKernInfoByName s\<rparr>)))))"

text \<open>\<open>names\<close> is the table of \<open>KernelPtrToNameLookup\<close>.\<close>

definition registerKernel_ptr :: "(nat \<times> string) list \<Rightarrow> (nat \<Rightarrow> string \<Rightarrow> 64 word option) \<Rightarrow> arg list \<Rightarrow> nat \<Rightarrow>
    kern_state \<Rightarrow> (string \<times> kern_state) res" where
  "registerKernel_ptr names symb args fptr s = rbind (ArgBufSize args) (\<lambda>_.
     case map_of (mKernInfoByPtr s) fptr of
     Some p \<Rightarrow> Inr (p, s)
   | None \<Rightarrow> rbind (lookup_name names fptr) (\<lambda>name.
       rbind (registerKernel_name symb args (name @ ''.kd'') s) (\<lambda>(p, s').
       Inr (p, s'\<lparr>mKernInfoByPtr := (fptr, p) # mKernInfoByPtr s'\<rparr>))))"

definition kern_state_make :: "executables \<Rightarrow> kern_state" where
  "kern_state_make es = \<lparr>mExes = es, mKArgHeap = kah_make, mKernInfoByName = [], mKernInfoByPtr = []\<rparr>"

definition kern_info :: "kern_state \<Rightarrow> string \<Rightarrow> gpu_kern_info res" where
  "kern_info s p = (case map_of (mKernInfoByName s) p of None \<Rightarrow> Inl (Undefined ''dangling kernel info'') | Some ki \<Rightarrow> Inr ki)"

section \<open>Instances\<close>

text \<open>
  Memory holds the bytes of the argument buffers. The constructor has the arguments packed, so that
  neither it nor \<open>makeTask\<close> has a template instance for a kernel with arguments.
\<close>

record kern_instance =
  ki_blocks :: dim3
  ki_threads :: dim3
  ki_info :: string
  ki_buf :: memblock

definition KernInstance :: "dim3 \<Rightarrow> dim3 \<Rightarrow> string \<Rightarrow> memblock \<Rightarrow> arg list \<Rightarrow> memory \<Rightarrow>
    (kern_instance \<times> memory) res" where
  "KernInstance blks thrds kinfo buf args mem = rbind (dagr_packKernArgs args mem) (\<lambda>mem.
     Inr (\<lparr>ki_blocks = blks, ki_threads = thrds, ki_info = kinfo, ki_buf = buf\<rparr>, mem))"

text \<open>\<open>FixedSizeHeap::allocate\<close> on a bucket; \<open>ptr\<close> is the answer of the runtime if it is asked for memory.\<close>

definition bucket_allocate :: "nat \<Rightarrow> nat \<Rightarrow> kaheap \<Rightarrow> (memblock \<times> kaheap) res option" where
  "bucket_allocate ptr i k = (if length k \<le> i then Some (Inl (Undefined ''dangling heap'')) else case k ! i of
     None \<Rightarrow> Some (Inl (Undefined ''null heap''))
   | Some h \<Rightarrow> (case (if mFreeBlocks h = [] then backing_allocate ptr else Inr null_blk) of
       Inl e \<Rightarrow> Some (Inl e)
     | Inr big \<Rightarrow> map_option (\<lambda>r. rbind r (\<lambda>(blk, h'). Inr (blk, k[i := Some h']))) (fsh_allocate big h)))"

definition hsa_makeTask :: "nat \<Rightarrow> dim3 \<Rightarrow> dim3 \<Rightarrow> string \<Rightarrow> arg list \<Rightarrow> kern_state \<times> memory \<Rightarrow>
    (kern_instance \<times> kern_state \<times> memory) res option" where
  "hsa_makeTask ptr blks thrds kinfo args = (\<lambda>(s, mem). obind (Some (dagr_packKernArgs args mem)) (\<lambda>_. case kern_info s kinfo of
     Inl e \<Rightarrow> Some (Inl e)
   | Inr ki \<Rightarrow> if mKernArgBufSz ki = 0
       then Some (rbind (KernInstance blks thrds kinfo null_blk args mem) (\<lambda>(t, mem'). Inr (t, s, mem')))
       else obind (bucket_allocate ptr (mKernArgHeap ki) (mKArgHeap s)) (\<lambda>(buf, k).
         Some (rbind (blk_size buf) (\<lambda>n.
           rbind (check (mKernArgBufSz ki \<le> n) ''argBuf.size() >= kinfo->kernArgBufSize()'') (\<lambda>_.
           rbind (KernInstance blks thrds kinfo buf args mem) (\<lambda>(t, mem').
           Inr (t, s\<lparr>mKArgHeap := k\<rparr>, mem'))))))))"

text \<open>The packet of an instance: \<open>PacketFactory::init\<close> on a \<open>GpuKernInstance\<close>.\<close>

definition init_instance :: "hsa_abi \<Rightarrow> 16 word \<Rightarrow> kern_state \<Rightarrow> kern_instance \<Rightarrow> nat \<Rightarrow> dispatch_pkt res" where
  "init_instance A header s ki compSig = rbind (kern_info s (ki_info ki)) (\<lambda>info.
     init_dispatch A header (ki_blocks ki) (ki_threads ki) 0 (mKernObj info) (ki_buf ki) compSig)"

section \<open>From a registered kernel to its packet\<close>

lemma bucket_allocate_ok:
  assumes inv: "kah_inv k" and h: "i < length k" "0 < i" "k ! i = Some h" and page: "fresh_page ptr k"
  shows "\<exists>blk k'. bucket_allocate ptr i k = Some (Inr (blk, k')) \<and> kah_inv k' \<and> 16 dvd mBeg blk \<and>
    mEnd blk = mBeg blk + 16 * i"
proof -
  have len: "length k = 256" and b: "bucket_ok i h" using inv h
    by (auto simp: kah_inv_def NUM_BUCKETS_def MAX_ALLOC_SIZE_def MIN_ALLOC_SIZE_def ALLOC_SIZE_def)
  let ?big = "if mFreeBlocks h = [] then \<lparr>mBeg = ptr, mEnd = ptr + ALLOC_SIZE\<rparr> else null_blk"
  have bk: "(if mFreeBlocks h = [] then backing_allocate ptr else Inr null_blk) = Inr ?big"
    using page by (simp add: backing_allocate_def fresh_page_def)
  have "Some h \<in> set k" using h by (metis nth_mem)
  then have "mFreeBlocks h = [] \<longrightarrow> new_block h ?big"
    using page b len h by (auto simp: new_block_def bucket_ok_def fresh_page_def ALLOC_SIZE_def in_these_eq)
  moreover have "16 dvd mBeg ?big" using page by (auto simp: fresh_page_def null_blk_def)
  ultimately obtain blk h' where a: "fsh_allocate ?big h = Some (Inr (blk, h'))" "bucket_ok i h'"
    "16 dvd mBeg blk" "mEnd blk = mBeg blk + 16 * i"
    using fsh_allocate_bucket [OF b h(2), of ?big] h(1) len by auto
  have "bucket_allocate ptr i k = Some (Inr (blk, k[i := Some h']))"
    using h bk a(1) by (simp add: bucket_allocate_def)
  then show ?thesis using a kah_inv_update [OF inv a(2)] by blast
qed

lemma init_dispatch_ok:
  assumes "isValid kobj" "checkKernArgBlk blk = Inr ()"
  shows "init_dispatch A header (bx, b_y, bz) (tx, ty, tz) sm kobj blk sig = Inr
    \<lparr>dp_header = header, dp_setup = KERNEL_DISPATCH_SETUP A,
     workgroup_size = (ucast tx, ucast ty, ucast tz), dp_grid_size = (bx * tx, b_y * ty, bz * tz),
     private_segment_size = 0, group_segment_size = of_nat sm, kernel_object = kobj,
     kernarg_address = mBeg blk, dp_completion = sig\<rparr>"
  using assms by (simp add: init_dispatch_def zero_dispatch_def updateHeader_zero Let_def)

definition kern_state_ex :: kern_state where
  "kern_state_ex = \<lparr>mExes = [1], mKArgHeap = kah_make[0 := Some (fsh_make 0)],
     mKernInfoByName = [(''k.kd'', \<lparr>mKernArgBufSz = 0, mKernArgHeap = 0, mKernObj = 77\<rparr>)], mKernInfoByPtr = []\<rparr>"

section \<open>The table of kernels\<close>

definition kern_inv :: "(nat \<times> string) list \<Rightarrow> (nat \<Rightarrow> string \<Rightarrow> 64 word option) \<Rightarrow> kern_state \<Rightarrow> bool" where
  "kern_inv names symb s \<longleftrightarrow> kah_inv (mKArgHeap s) \<and>
     (\<forall>f p. map_of (mKernInfoByPtr s) f = Some p \<longrightarrow> map_of (mKernInfoByName s) p \<noteq> None \<and>
       (\<exists>n. lookup_name names f = Inr n \<and> p = n @ ''.kd'')) \<and>
     (\<forall>p ki. map_of (mKernInfoByName s) p = Some ki \<longrightarrow> isValid (mKernObj ki) \<and> mKernArgBufSz ki = 0 \<and>
       kernelObjectByName symb (mExes s) p = Inr (mKernObj ki) \<and>
       mKernArgHeap ki < length (mKArgHeap s) \<and> mKArgHeap s ! mKernArgHeap ki \<noteq> None)"

lemma kern_inv_make: "kern_inv names symb (kern_state_make es)"
  by (simp add: kern_inv_def kern_state_make_def kah_inv_make)

lemma ArgBufSize_eq: "ArgBufSize args = (if args = [] then Inr 0 else Inl (NoMember ''ArgBufSizeImpl<CURR_SZ>''))"
  by (simp add: ArgBufSize_def ArgBufSizeImpl_none)

text \<open>The tables only grow.\<close>

definition grows :: "kern_state \<Rightarrow> kern_state \<Rightarrow> bool" where
  "grows s s' \<longleftrightarrow> mExes s' = mExes s \<and> map_of (mKernInfoByName s) \<subseteq>\<^sub>m map_of (mKernInfoByName s') \<and>
     map_of (mKernInfoByPtr s) \<subseteq>\<^sub>m map_of (mKernInfoByPtr s')"

lemma grows_refl [simp]: "grows s s"
  by (simp add: grows_def)

lemma grows_trans: "grows s s' \<Longrightarrow> grows s' s'' \<Longrightarrow> grows s s''"
  by (auto simp: grows_def intro: map_le_trans)

lemma registerKernel_name_ok:
  assumes inv: "kern_inv names symb s" and r: "registerKernel_name symb args kname s = Inr (p, s')"
  shows "kern_inv names symb s' \<and> grows s s' \<and> args = [] \<and> p = kname \<and> mKernInfoByPtr s' = mKernInfoByPtr s \<and>
    map_of (mKernInfoByName s') kname \<noteq> None"
proof (cases "map_of (mKernInfoByName s) kname")
  case None
  with r obtain kobj i h k where r':
    "kernelObjectByName symb (mExes s) kname = Inr kobj" "isValid kobj" "heapForSize 0 (mKArgHeap s) = Inr (i, h, k)"
    "p = kname" "args = []" "s' = s\<lparr>mKArgHeap := k, mKernInfoByName :=
         (kname, \<lparr>mKernArgBufSz = 0, mKernArgHeap = i, mKernObj = kobj\<rparr>) # mKernInfoByName s\<rparr>"
    by (auto simp: registerKernel_name_def ArgBufSize_eq rbind_eq_Inr check_eq_Inr split: if_splits)
  have ka: "kah_inv (mKArgHeap s)" using inv by (simp add: kern_inv_def)
  have "round_up 0 16 div 16 = 0" by (simp add: round_up_def)
  then obtain h1 k1 where "heapForSize 0 (mKArgHeap s) = Inr (0, h1, k1)" "kah_inv k1" "length k1 = 256"
      "k1 ! 0 = Some h1"
    using heapForSize_ok [OF ka, of 0] by (metis le0)
  with r'(3) have k: "kah_inv k" "length k = 256" "k ! i = Some h" "i < 256" by simp_all
  have keep: "k ! j \<noteq> None" if "j < length (mKArgHeap s)" "mKArgHeap s ! j \<noteq> None" for j
    using r'(3) that by (auto simp: heapForSize_def Let_def rbind_eq_Inr check_eq_Inr nth_list_update split: option.splits if_splits)
  have len: "length k = length (mKArgHeap s)" using ka k(1) by (simp add: kah_inv_def)
  have "isValid (mKernObj ki) \<and> mKernArgBufSz ki = 0 \<and> kernelObjectByName symb (mExes s') q = Inr (mKernObj ki) \<and>
      mKernArgHeap ki < length (mKArgHeap s') \<and> mKArgHeap s' ! mKernArgHeap ki \<noteq> None"
    if q: "map_of (mKernInfoByName s') q = Some ki" for q ki
  proof (cases "q = kname")
    case True
    then show ?thesis using q r'(1,2) k by (auto simp: r'(6))
  next
    case False
    then have "map_of (mKernInfoByName s) q = Some ki" using q by (simp add: r'(6))
    then show ?thesis using inv keep len by (simp add: r'(6) kern_inv_def)
  qed
  moreover have "map_of (mKernInfoByName s') q \<noteq> None \<and> (\<exists>n. lookup_name names f = Inr n \<and> q = n @ ''.kd'')"
    if "map_of (mKernInfoByPtr s') f = Some q" for f q
  proof -
    have "map_of (mKernInfoByPtr s) f = Some q" using that by (simp add: r'(6))
    then have "map_of (mKernInfoByName s) q \<noteq> None" "\<exists>n. lookup_name names f = Inr n \<and> q = n @ ''.kd''"
      using inv unfolding kern_inv_def by blast+
    then show ?thesis by (auto simp: r'(6))
  qed
  moreover have "kah_inv (mKArgHeap s')" using k(1) by (simp add: r'(6))
  ultimately have "kern_inv names symb s'" unfolding kern_inv_def by blast
  then show ?thesis using r' None by (auto simp: map_le_def grows_def)
next
  case (Some ki)
  then show ?thesis using r inv by (auto simp: registerKernel_name_def ArgBufSize_eq rbind_eq_Inr split: if_splits)
qed

lemma registerKernel_ptr_ok:
  assumes inv: "kern_inv names symb s" and r: "registerKernel_ptr names symb args f s = Inr (p, s')"
  shows "kern_inv names symb s' \<and> grows s s' \<and> args = [] \<and> map_of (mKernInfoByPtr s') f = Some p"
proof (cases "map_of (mKernInfoByPtr s) f")
  case None
  with r obtain n s1 where s1: "lookup_name names f = Inr n" "registerKernel_name symb args (n @ ''.kd'') s = Inr (p, s1)"
    "s' = s1\<lparr>mKernInfoByPtr := (f, p) # mKernInfoByPtr s1\<rparr>"
    by (auto simp: registerKernel_ptr_def ArgBufSize_eq rbind_eq_Inr Let_def split: if_splits)
  from registerKernel_name_ok [OF inv s1(2)] have ok: "kern_inv names symb s1" "grows s s1" "args = []" "p = n @ ''.kd''"
    "mKernInfoByPtr s1 = mKernInfoByPtr s" "map_of (mKernInfoByName s1) p \<noteq> None" by auto
  have "kern_inv names symb s'" using ok(1,4,6) s1(1) unfolding kern_inv_def s1(3) by auto
  moreover have "grows s s'" using ok(2) None by (auto simp: s1(3) ok(5) map_le_def grows_def)
  ultimately show ?thesis using ok(3) by (simp add: s1(3))
next
  case (Some q)
  then show ?thesis using r inv by (auto simp: registerKernel_ptr_def ArgBufSize_eq rbind_eq_Inr split: if_splits)
qed

text \<open>A program registers kernels by their names and by the addresses of their stubs, in any order.\<close>

datatype registration = ByName "arg list" string | ByPtr "arg list" nat

fun register :: "(nat \<times> string) list \<Rightarrow> (nat \<Rightarrow> string \<Rightarrow> 64 word option) \<Rightarrow> registration \<Rightarrow> kern_state \<Rightarrow>
    (string \<times> kern_state) res" where
  "register names symb (ByName args k) s = registerKernel_name symb args k s"
| "register names symb (ByPtr args f) s = registerKernel_ptr names symb args f s"

definition register_all :: "(nat \<times> string) list \<Rightarrow> (nat \<Rightarrow> string \<Rightarrow> 64 word option) \<Rightarrow> registration list \<Rightarrow> kern_state \<Rightarrow>
    kern_state res" where
  "register_all names symb = for_each (\<lambda>r s. rbind (register names symb r s) (\<lambda>(_, s). Inr s))"

text \<open>The entry a registration is given, and that it is given the same one again.\<close>

definition entered :: "(nat \<times> string) list \<Rightarrow> kern_state \<Rightarrow> registration \<Rightarrow> string \<Rightarrow> bool" where
  "entered names s r p \<longleftrightarrow> map_of (mKernInfoByName s) p \<noteq> None \<and> (case r of ByName args k \<Rightarrow> args = [] \<and> p = k
     | ByPtr args f \<Rightarrow> args = [] \<and> map_of (mKernInfoByPtr s) f = Some p)"

lemma entered_grows: "entered names s r p \<Longrightarrow> grows s s' \<Longrightarrow> entered names s' r p"
  by (cases r) (auto simp: entered_def grows_def map_le_def dom_def)

lemma entered_again: "entered names s r p \<Longrightarrow> register names symb r s = Inr (p, s)"
  by (cases r) (auto simp: entered_def registerKernel_name_def registerKernel_ptr_def ArgBufSize_eq)

lemma register_ok:
  assumes "kern_inv names symb s" "register names symb r s = Inr (p, s')"
  shows "kern_inv names symb s' \<and> grows s s' \<and> entered names s' r p"
proof (cases r)
  case (ByName args k)
  then show ?thesis using registerKernel_name_ok [OF assms(1), of args k p s'] assms(2) by (simp add: entered_def)
next
  case (ByPtr args f)
  then show ?thesis using registerKernel_ptr_ok [OF assms(1), of args f p s'] assms(2) by (auto simp: entered_def kern_inv_def)
qed

lemma register_all_ok:
  assumes "kern_inv names symb s" "register_all names symb rs s = Inr s'"
  shows "kern_inv names symb s' \<and> grows s s' \<and> (\<forall>r \<in> set rs. \<exists>p. entered names s' r p)"
  using assms
proof (induction rs arbitrary: s)
  case (Cons r rs)
  then obtain p s1 where s1: "register names symb r s = Inr (p, s1)" "register_all names symb rs s1 = Inr s'"
    by (auto simp: register_all_def rbind_eq_Inr)
  note ok = register_ok [OF Cons.prems(1) s1(1)]
  then show ?case using Cons.IH [OF _ s1(2)] entered_grows grows_trans by fastforce
qed (simp add: register_all_def)

text \<open>
  C22: after any sequence of registrations, by name and by address, that has not failed, every one of them
  is in the tables: made again, it returns its entry and changes nothing. The entry has the valid code
  object that its name, which for an address is the name of the stub's kernel, has in the loaded
  executables, and registrations made later never change or remove it. None of the kernels registered
  has arguments, since no other can be registered.
\<close>

theorem kernels_registered_once:
  assumes "register_all names symb rs (kern_state_make es) = Inr s" "r \<in> set rs"
  shows "\<exists>p ki. register names symb r s = Inr (p, s) \<and> kern_info s p = Inr ki \<and> isValid (mKernObj ki) \<and>
    kernelObjectByName symb es p = Inr (mKernObj ki) \<and> mKernArgBufSz ki = 0 \<and>
    (case r of ByName args k \<Rightarrow> args = [] \<and> p = k
     | ByPtr args f \<Rightarrow> args = [] \<and> (\<exists>n. lookup_name names f = Inr n \<and> p = n @ ''.kd'')) \<and>
    (\<forall>rs' s'. register_all names symb rs' s = Inr s' \<longrightarrow>
      register names symb r s' = Inr (p, s') \<and> kern_info s' p = Inr ki)"
proof -
  from register_all_ok [OF kern_inv_make assms(1)] assms(2) obtain p where
    s: "kern_inv names symb s" "grows (kern_state_make es) s" "entered names s r p" by blast
  then obtain ki where ki: "map_of (mKernInfoByName s) p = Some ki" by (auto simp: entered_def)
  have "isValid (mKernObj ki) \<and> kernelObjectByName symb es p = Inr (mKernObj ki) \<and> mKernArgBufSz ki = 0"
    using s(1,2) ki by (auto simp: kern_inv_def grows_def kern_state_make_def)
  moreover have "case r of ByName args k \<Rightarrow> args = [] \<and> p = k
     | ByPtr args f \<Rightarrow> args = [] \<and> (\<exists>n. lookup_name names f = Inr n \<and> p = n @ ''.kd'')"
    using s(1,3) by (auto simp: entered_def kern_inv_def split: registration.splits)
  moreover have "register names symb r s' = Inr (p, s') \<and> kern_info s' p = Inr ki"
    if "register_all names symb rs' s = Inr s'" for rs' s'
  proof -
    have g: "grows s s'" using register_all_ok [OF s(1) that] by simp
    then have "map_of (mKernInfoByName s') p = Some ki" using ki by (auto simp: grows_def map_le_def dom_def)
    then show ?thesis using entered_again [OF entered_grows [OF s(3) g]] by (simp add: kern_info_def)
  qed
  ultimately show ?thesis using entered_again [OF s(3)] ki by (auto simp: kern_info_def)
qed

text \<open>The kernel \<open>f\<close> is registered by the address of its stub, 1, and then by its name.\<close>

lemma register_f:
  "\<exists>s. register_all [(1, ''f'')] (\<lambda>e n. Some 7) [ByPtr [] 1, ByName [] ''f.kd''] (kern_state_make [1]) = Inr s"
proof -
  obtain i h k where "heapForSize 0 kah_make = Inr (i, h, k)"
    using heapForSize_ok [OF kah_inv_make, of 0] by blast
  then show ?thesis
    by (simp add: register_all_def registerKernel_ptr_def registerKernel_name_def kern_state_make_def kernelObjectByName_def
        isValid_def ArgBufSize_def Let_def lookup_name_def hasEntry_def)
qed

theorem kernels_registered_once_witness:
  "\<exists>s. register_all [(1, ''f'')] (\<lambda>e n. Some 7) [ByPtr [] 1, ByName [] ''f.kd''] (kern_state_make [1]) = Inr s \<and>
     register [(1, ''f'')] (\<lambda>e n. Some 7) (ByPtr [] 1) s = Inr (''f.kd'', s)"
proof -
  obtain s where s: "register_all [(1, ''f'')] (\<lambda>e n. Some 7) [ByPtr [] 1, ByName [] ''f.kd''] (kern_state_make [1]) = Inr s"
    using register_f by blast
  from kernels_registered_once [OF s, of "ByPtr [] 1"] s show ?thesis by (auto simp: lookup_name_def hasEntry_def)
qed

text \<open>
  C21: a kernel that has been registered takes no arguments; a task made of it becomes a packet that
  carries the code object the kernel's name has in the executables, the work-group and grid sizes,
  the header and the completion signal, and the null pointer for the arguments. Making it takes no
  block from the heap of kernel arguments and leaves memory alone. A task with arguments cannot be made.
\<close>

theorem hsa_task_packet:
  assumes reg: "register_all names symb rs (kern_state_make es) = Inr s" and p: "kern_info s p = Inr ki"
  shows "(if args = [] then
      \<exists>t pkt. hsa_makeTask ptr (bx, b_y, bz) (tx, ty, tz) p args (s, mem) = Some (Inr (t, s, mem)) \<and>
        init_instance A header s t sig = Inr pkt \<and>
        kernelObjectByName symb es p = Inr (kernel_object pkt) \<and> isValid (kernel_object pkt) \<and>
        dp_header pkt = header \<and> dp_completion pkt = sig \<and> kernarg_address pkt = 0 \<and>
        workgroup_size pkt = (ucast tx, ucast ty, ucast tz) \<and> dp_grid_size pkt = (bx * tx, b_y * ty, bz * tz)
    else hsa_makeTask ptr (bx, b_y, bz) (tx, ty, tz) p args (s, mem) = Some (Inl (NoMember ''array of int from void'')))"
proof (cases "args = []")
  case True
  note inv = register_all_ok [OF kern_inv_make reg]
  have "map_of (mKernInfoByName s) p = Some ki" using p by (auto simp: kern_info_def split: option.splits)
  then have ki: "isValid (mKernObj ki)" "mKernArgBufSz ki = 0" "kernelObjectByName symb es p = Inr (mKernObj ki)"
    using inv by (auto simp: kern_inv_def grows_def kern_state_make_def)
  let ?t = "\<lparr>ki_blocks = (bx, b_y, bz), ki_threads = (tx, ty, tz), ki_info = p, ki_buf = null_blk\<rparr>"
  have "hsa_makeTask ptr (bx, b_y, bz) (tx, ty, tz) p args (s, mem) = Some (Inr (?t, s, mem))"
    using p ki(2) True by (simp add: hsa_makeTask_def KernInstance_def dagr_packKernArgs_def)
  moreover have "checkKernArgBlk null_blk = Inr ()" by (simp add: checkKernArgBlk_def null_blk_def blk_size_def)
  then have "\<exists>pkt. init_instance A header s ?t sig = Inr pkt \<and> dp_header pkt = header \<and>
      kernel_object pkt = mKernObj ki \<and> dp_completion pkt = sig \<and> kernarg_address pkt = mBeg null_blk \<and>
      workgroup_size pkt = (ucast tx, ucast ty, ucast tz) \<and> dp_grid_size pkt = (bx * tx, b_y * ty, bz * tz)"
    using init_dispatch_ok [OF ki(1)] p by (simp add: init_instance_def)
  ultimately show ?thesis using ki True by (auto simp: null_blk_def)
qed (simp add: hsa_makeTask_def dagr_packKernArgs_def)

theorem hsa_task_packet_witness:
  "\<exists>s t pkt. register_all [(1, ''f'')] (\<lambda>e n. Some 7) [ByPtr [] 1, ByName [] ''f.kd''] (kern_state_make [1]) = Inr s \<and>
     hsa_makeTask 8192 (2, 1, 1) (64, 1, 1) ''f.kd'' [] (s, \<lambda>_. 0) = Some (Inr (t, s, \<lambda>_. 0)) \<and>
     init_instance abi_ex 5 s t 9 = Inr pkt \<and> kernel_object pkt = 7 \<and> dp_grid_size pkt = (128, 1, 1)"
proof -
  obtain s where s: "register_all [(1, ''f'')] (\<lambda>e n. Some 7) [ByPtr [] 1, ByName [] ''f.kd''] (kern_state_make [1]) = Inr s"
    using register_f by blast
  have "\<forall>r \<in> set [ByPtr [] 1, ByName [] ''f.kd'']. \<exists>p. entered [(1, ''f'')] s r p"
    using register_all_ok [OF kern_inv_make s] by blast
  then obtain ki where "kern_info s ''f.kd'' = Inr ki" by (auto simp: entered_def kern_info_def)
  from hsa_task_packet [OF s this, of "[]" 8192 2 1 1 64 1 1 "\<lambda>_. 0" abi_ex 5 9] s show ?thesis
    by (auto simp: kernelObjectByName_def)
qed

end
