(* ===== verification/HsaExec.thy ===== *)
theory HsaExec
  imports KernState
begin

text \<open>
  The executors of \<open>dagr/executor.h\<close>: \<open>SerialOrderedExecutor\<close> on one queue, \<open>SerialUnorderedExecutor\<close> on
  several, with their batches, and the waits on signals of \<open>dagr/hsaCore.h\<close>. A \<open>TaskHandle\<close> is its
  signal; a new signal has the value 1 that the factories give it.
\<close>

section \<open>Signals\<close>

definition takeSignal :: "hsa_env \<Rightarrow> hsa_world \<Rightarrow> (nat \<times> hsa_world) res" where
  "takeSignal E w = rbind (takeUserSignal (new_signal E) (spools w)) (\<lambda>(g, sp). Inr (g, w\<lparr>spools := sp\<rparr>))"

definition signal_store :: "nat \<Rightarrow> int \<Rightarrow> hsa_world \<Rightarrow> hsa_world" where
  "signal_store g v w = w\<lparr>sig_val := (sig_val w)(g := v)\<rparr>"

definition signal_add :: "nat \<Rightarrow> int \<Rightarrow> hsa_world \<Rightarrow> hsa_world" where
  "signal_add g v w = w\<lparr>sig_val := (sig_val w)(g := sig_val w g + v)\<rparr>"

text \<open>
  \<open>seen k\<close> is the value that the \<open>k\<close>-th wait on the signal returns; a wait may return early, so it is
  repeated until the value is 0.
\<close>

partial_function (option) waitOnSignal :: "(nat \<Rightarrow> int) \<Rightarrow> nat \<Rightarrow> nat option" where
  "waitOnSignal seen k = (if seen k \<noteq> 0 then waitOnSignal seen (Suc k) else Some (Suc k))"

lemma waitOnSignal_returns:
  "j \<le> k \<Longrightarrow> seen k = 0 \<Longrightarrow> \<exists>m. waitOnSignal seen j = Some (Suc m) \<and> seen m = 0"
proof (induction "k - j" arbitrary: j)
  case 0
  then show ?case by (simp add: waitOnSignal.simps)
next
  case (Suc n)
  then show ?case
    by (cases "seen j = 0") (auto simp: waitOnSignal.simps [of seen j])
qed

section \<open>SerialGpuExecutorBase\<close>

definition addTaskToQ :: "hsa_env \<Rightarrow> kern_state \<Rightarrow> dispq \<Rightarrow> kern_instance \<Rightarrow> 16 word \<Rightarrow> nat \<Rightarrow> hsa_world \<Rightarrow>
    (dispq \<times> hsa_world) res option" where
  "addTaskToQ E s d ki header compSig w = (case giveOneSlot E d w of None \<Rightarrow> None
   | Some (slot, d', w') \<Rightarrow> Some (rbind (init_instance (abi E) header s ki compSig) (\<lambda>pkt.
       Inr (d', put_packet (mHsaQueue d) slot (Dispatch pkt) w'))))"

definition takeQueue :: "hsa_env \<Rightarrow> hsa_world \<Rightarrow> (dispq \<times> hsa_world) res" where
  "takeQueue E w = rbind (takeSerialQueue (new_queue E) (qpools w)) (\<lambda>(q, qp).
     let w' = w\<lparr>qpools := qp\<rparr> in rbind (dq_make q w') (\<lambda>d. Inr (d, w')))"

definition returnQueue :: "dispq \<Rightarrow> hsa_world \<Rightarrow> hsa_world res" where
  "returnQueue d w = rbind (returnSerialQueue (qpools w) (mHsaQueue d)) (\<lambda>qp. Inr (w\<lparr>qpools := qp\<rparr>))"

section \<open>SerialOrderedExecutor\<close>

definition ordered_make :: "hsa_env \<Rightarrow> hsa_world \<Rightarrow> (dispq \<times> hsa_world) res" where
  "ordered_make E w = takeQueue E w"

definition ordered_destroy :: "dispq \<Rightarrow> hsa_world \<Rightarrow> hsa_world res" where
  "ordered_destroy d w = returnQueue d w"

definition ordered_addTaskImpl :: "hsa_env \<Rightarrow> kern_state \<Rightarrow> kern_instance \<Rightarrow> nat \<Rightarrow> FenceScope \<Rightarrow>
    dispq \<times> hsa_world \<Rightarrow> (dispq \<times> hsa_world) res option" where
  "ordered_addTaskImpl E s ki compSig scope = (\<lambda>(d, w).
     addTaskToQ E s d ki (PacketHeader (abi E) KERNEL_DISPATCH scope BARRIER_ENABLE) compSig w)"

definition ordered_launchTask :: "hsa_env \<Rightarrow> kern_state \<Rightarrow> kern_instance \<Rightarrow> dispq \<times> hsa_world \<Rightarrow>
    (nat \<times> dispq \<times> hsa_world) res option" where
  "ordered_launchTask E s ki = (\<lambda>(d, w). obind (Some (takeSignal E w)) (\<lambda>(compSig, w).
     obind (ordered_addTaskImpl E s ki compSig SCOPE_SYSTEM (d, w)) (\<lambda>(d, w).
     Some (Inr (compSig, d, submitPackets d w)))))"

definition ordered_launchAndForget :: "hsa_env \<Rightarrow> kern_state \<Rightarrow> kern_instance \<Rightarrow> dispq \<times> hsa_world \<Rightarrow>
    (dispq \<times> hsa_world) res option" where
  "ordered_launchAndForget E s ki st = obind (ordered_addTaskImpl E s ki 0 SCOPE_SYSTEM st) (\<lambda>(d, w).
     Some (Inr (d, submitPackets d w)))"

text \<open>The \<open>BatchState\<close> of this executor is its final signal.\<close>

definition ordered_startBatch :: "hsa_env \<Rightarrow> hsa_world \<Rightarrow> (nat \<times> hsa_world) res" where
  "ordered_startBatch E w = takeSignal E w"

definition ordered_addToBatch :: "hsa_env \<Rightarrow> kern_state \<Rightarrow> kern_instance \<Rightarrow> dispq \<times> hsa_world \<Rightarrow>
    (dispq \<times> hsa_world) res option" where
  "ordered_addToBatch E s ki st = ordered_addTaskImpl E s ki 0 SCOPE_AGENT st"

definition ordered_finishBatch :: "hsa_env \<Rightarrow> kern_state \<Rightarrow> nat \<Rightarrow> kern_instance \<Rightarrow> dispq \<times> hsa_world \<Rightarrow>
    (nat \<times> dispq \<times> hsa_world) res option" where
  "ordered_finishBatch E s finalSig ki st = obind (ordered_addTaskImpl E s ki finalSig SCOPE_SYSTEM st)
     (\<lambda>(d, w). Some (Inr (finalSig, d, submitPackets d w)))"

section \<open>SerialUnorderedExecutor\<close>

record uexec =
  mNumQueues :: nat
  mQueues :: "dispq list"
  mCurrQid :: nat

definition MAX_ACTIVE_QUEUES :: nat where "MAX_ACTIVE_QUEUES = 64"

text \<open>The initialiser computes \<open>max(1, numQs)\<close>; the body of the constructor assigns from \<open>numQs\<close> again.\<close>

definition unordered_make :: "hsa_env \<Rightarrow> nat \<Rightarrow> hsa_world \<Rightarrow> (uexec \<times> hsa_world) res" where
  "unordered_make E numQs w = (let n = min numQs MAX_ACTIVE_QUEUES in
     rbind (for_each (\<lambda>i (qs, w). rbind (takeQueue E w) (\<lambda>(d, w). Inr (qs @ [d], w))) [0..<n] ([], w))
     (\<lambda>(qs, w). Inr (\<lparr>mNumQueues = n, mQueues = qs, mCurrQid = 0\<rparr>, w)))"

definition unordered_destroy :: "uexec \<Rightarrow> hsa_world \<Rightarrow> hsa_world res" where
  "unordered_destroy x w = for_each returnQueue (mQueues x) w"

text \<open>The \<open>do\<close> loop of \<open>nextQid\<close>; a modulus by 0 is undefined.\<close>

partial_function (option) nextQid_loop :: "hsa_env \<Rightarrow> nat \<Rightarrow> dispq list \<Rightarrow> nat \<Rightarrow> hsa_world \<Rightarrow>
    (nat \<times> hsa_world) res option" where
  "nextQid_loop E n qs cur w = (if n = 0 then Some (Inl (Undefined ''modulus by zero''))
     else if length qs \<le> Suc cur mod n then Some (Inl (Undefined ''read past the end of mQueues''))
     else case dq_full E (qs ! (Suc cur mod n)) w of (b, w') \<Rightarrow>
       if b then nextQid_loop E n qs (Suc cur mod n) w' else Some (Inr (Suc cur mod n, w')))"

definition nextQid :: "hsa_env \<Rightarrow> uexec \<times> hsa_world \<Rightarrow> (nat \<times> uexec \<times> hsa_world) res option" where
  "nextQid E = (\<lambda>(x, w). obind (nextQid_loop E (mNumQueues x) (mQueues x) (mCurrQid x) w) (\<lambda>(c, w).
     Some (rbind (check (c < length (mQueues x)) ''mCurrQid < mQueues.size()'')
       (\<lambda>_. Inr (c, x\<lparr>mCurrQid := c\<rparr>, w)))))"

definition unordered_addTaskImpl :: "hsa_env \<Rightarrow> kern_state \<Rightarrow> nat \<Rightarrow> kern_instance \<Rightarrow> nat \<Rightarrow> FenceScope \<Rightarrow>
    uexec \<times> hsa_world \<Rightarrow> (uexec \<times> hsa_world) res option" where
  "unordered_addTaskImpl E s qid ki compSig scope = (\<lambda>(x, w).
     if length (mQueues x) \<le> qid then Some (Inl (Undefined ''read past the end of mQueues''))
     else obind (addTaskToQ E s (mQueues x ! qid) ki
         (PacketHeader (abi E) KERNEL_DISPATCH scope BARRIER_DISABLE) compSig w)
       (\<lambda>(d, w). Some (Inr (x\<lparr>mQueues := (mQueues x)[qid := d]\<rparr>, w))))"

definition unordered_launchTask :: "hsa_env \<Rightarrow> kern_state \<Rightarrow> kern_instance \<Rightarrow> uexec \<times> hsa_world \<Rightarrow>
    (nat \<times> uexec \<times> hsa_world) res option" where
  "unordered_launchTask E s ki st = obind (nextQid E st) (\<lambda>(qid, x, w).
     obind (Some (takeSignal E w)) (\<lambda>(compSig, w).
     obind (unordered_addTaskImpl E s qid ki compSig SCOPE_SYSTEM (x, w)) (\<lambda>(x, w).
     Some (Inr (compSig, x, submitPackets (mQueues x ! qid) w)))))"

definition unordered_launchAndForget :: "hsa_env \<Rightarrow> kern_state \<Rightarrow> kern_instance \<Rightarrow> uexec \<times> hsa_world \<Rightarrow>
    (uexec \<times> hsa_world) res option" where
  "unordered_launchAndForget E s ki st = obind (nextQid E st) (\<lambda>(qid, x, w).
     obind (unordered_addTaskImpl E s qid ki 0 SCOPE_SYSTEM (x, w)) (\<lambda>(x, w).
     Some (Inr (x, submitPackets (mQueues x ! qid) w))))"

subsection \<open>Batches\<close>

record batch_state =
  mPerQcompSig :: "nat list"
  mFinalSig :: nat

definition startBatch :: "hsa_env \<Rightarrow> uexec \<Rightarrow> hsa_world \<Rightarrow> (batch_state \<times> hsa_world) res" where
  "startBatch E x w =
     rbind (for_each (\<lambda>i (gs, w). rbind (takeSignal E w) (\<lambda>(g, w). Inr (gs @ [g], w))) [0..<mNumQueues x] ([], w))
     (\<lambda>(gs, w). rbind (check (length gs = mNumQueues x) ''mPerQcompSig.size() == exec.mNumQueues'') (\<lambda>_.
     rbind (takeSignal E w) (\<lambda>(f, w).
     Inr (\<lparr>mPerQcompSig = gs, mFinalSig = f\<rparr>, fold (\<lambda>g. signal_store g 0) gs w))))"

definition addToBatch :: "hsa_env \<Rightarrow> kern_state \<Rightarrow> batch_state \<Rightarrow> kern_instance \<Rightarrow> uexec \<times> hsa_world \<Rightarrow>
    (uexec \<times> hsa_world) res option" where
  "addToBatch E s b ki st = obind (nextQid E st) (\<lambda>(qid, x, w).
     if length (mPerQcompSig b) \<le> qid then Some (Inl (Undefined ''read past the end of mPerQcompSig''))
     else unordered_addTaskImpl E s qid ki (mPerQcompSig b ! qid) SCOPE_AGENT
       (x, signal_add (mPerQcompSig b ! qid) 1 w))"

text \<open>A barrier packet written to the next slot of a queue.\<close>

definition addBarrier :: "hsa_env \<Rightarrow> FenceScope \<Rightarrow> nat \<Rightarrow> nat list \<Rightarrow> nat \<Rightarrow> dispq \<Rightarrow> hsa_world \<Rightarrow>
    (dispq \<times> hsa_world) res option" where
  "addBarrier E scope compSig preds n d w = (case giveOneSlot E d w of None \<Rightarrow> None
   | Some (slot, d', w') \<Rightarrow>
       Some (rbind (init_barrier (PacketHeader (abi E) BARRIER_AND scope BARRIER_ENABLE) compSig preds n) (\<lambda>pkt.
         Inr (d', put_packet (mHsaQueue d) slot (BarrierAnd pkt) w'))))"

definition startBatchWithDep :: "hsa_env \<Rightarrow> nat \<Rightarrow> uexec \<times> hsa_world \<Rightarrow>
    (batch_state \<times> uexec \<times> hsa_world) res option" where
  "startBatchWithDep E depSig = (\<lambda>(x, w).
     obind (ofor_each (\<lambda>d (ds, w). obind (addBarrier E SCOPE_AGENT 0 [depSig] 1 d w) (\<lambda>(d', w').
         Some (Inr (ds @ [d'], w')))) (mQueues x) ([], w)) (\<lambda>(ds, w).
     obind (Some (startBatch E x w)) (\<lambda>(b, w). Some (Inr (b, x\<lparr>mQueues := ds\<rparr>, w)))))"

definition launchBatch :: "hsa_env \<Rightarrow> batch_state \<Rightarrow> uexec \<times> hsa_world \<Rightarrow>
    (nat \<times> uexec \<times> hsa_world) res option" where
  "launchBatch E b = (\<lambda>(x, w).
     obind (Some (check (barrierTreeSize (mNumQueues x) = 1) ''numBarrierPkts == 1'')) (\<lambda>_.
     if mQueues x = [] then Some (Inl (Undefined ''read past the end of mQueues''))
     else obind (addBarrier E SCOPE_SYSTEM (mFinalSig b) (mPerQcompSig b) (mNumQueues x) (mQueues x ! 0) w) (\<lambda>(d, w).
       let qs = (mQueues x)[0 := d] in
       Some (Inr (mFinalSig b, x\<lparr>mQueues := qs\<rparr>, fold submitPackets qs w)))))"

definition finishBatch :: "hsa_env \<Rightarrow> kern_state \<Rightarrow> batch_state \<Rightarrow> kern_instance \<Rightarrow> uexec \<times> hsa_world \<Rightarrow>
    (nat \<times> uexec \<times> hsa_world) res option" where
  "finishBatch E s b ki st = obind (addToBatch E s b ki st) (launchBatch E b)"

text \<open>
  A batch can be launched only on one to four queues, while the constructor admits up to 64, and
  none: an executor made for no queue is built, and its first choice of a queue divides by zero.
\<close>

theorem launchBatch_queues:
  "(launchBatch E b (x, w) = Some (Inl (AssertFail ''numBarrierPkts == 1'')) \<longleftrightarrow>
      mNumQueues x \<notin> {1..4}) \<and>
   (\<exists>x0. unordered_make E 0 w = Inr (x0, w) \<and>
      addToBatch E s b ki (x0, w) = Some (Inl (Undefined ''modulus by zero'')))"
proof
  have "launchBatch E b (x, w) \<noteq> Some (Inl (AssertFail ''numBarrierPkts == 1''))"
    if "barrierTreeSize (mNumQueues x) = 1"
    using that
    by (auto simp: launchBatch_def addBarrier_def init_barrier_def updateHeader_zero check_def Let_def obind_def rbind_def
        zero_barrier_def split: option.splits sum.splits if_splits)
  then show "launchBatch E b (x, w) = Some (Inl (AssertFail ''numBarrierPkts == 1'')) \<longleftrightarrow> mNumQueues x \<notin> {1..4}"
    using barrierTreeSize_one [of "mNumQueues x"] by (auto simp: launchBatch_def)
  have "nextQid E (\<lparr>mNumQueues = 0, mQueues = [], mCurrQid = 0\<rparr>, w) = Some (Inl (Undefined ''modulus by zero''))"
    by (simp add: nextQid_def nextQid_loop.simps)
  then show "\<exists>x0. unordered_make E 0 w = Inr (x0, w) \<and>
      addToBatch E s b ki (x0, w) = Some (Inl (Undefined ''modulus by zero''))"
    by (simp add: unordered_make_def addToBatch_def)
qed

end
