(* ===== verification/HsaCore.thy ===== *)
theory HsaCore
  imports Memory HsaExec CodeBlobs
begin

text \<open>
  The thin layer over the HSA runtime that the rest of \<open>DAGEE-lib/include/dagr\<close> stands on: the life of
  the runtime (\<open>InitHsa\<close>), the attributes of an agent (\<open>AgentQuery\<close>), the signal and queue factories and
  the three loops that wait on a signal (\<open>hsaCore.h\<close>, \<open>queue.h\<close>), and the copies between host vectors
  and device memory (\<open>memory.h\<close>). The status of each runtime call and what it writes are arguments;
  \<open>ASSERT_HSA\<close> fails on a bad status.
\<close>

definition ASSERT_HSA :: "bool \<Rightarrow> string \<Rightarrow> unit res" where
  "ASSERT_HSA success cmd = check success cmd"

section \<open>InitHsa\<close>

text \<open>
  The runtime counts the calls of \<open>hsa_init\<close> and refuses more than \<open>2 ^ 31 - 1\<close> of them;
  \<open>hsa_shut_down\<close> without a matching call of \<open>hsa_init\<close> is an error.
\<close>

definition initHsa :: "nat \<Rightarrow> nat res" where
  "initHsa refs = rbind (ASSERT_HSA (refs < 2 ^ 31 - 1) ''hsa_init'') (\<lambda>_. Inr (Suc refs))"

definition shutDownHsa :: "nat \<Rightarrow> nat res" where
  "shutDownHsa refs = rbind (ASSERT_HSA (0 < refs) ''hsa_shut_down'') (\<lambda>_. Inr (refs - 1))"

section \<open>AgentQuery\<close>

datatype agent_attr = QUEUE_MAX_SIZE | QUEUE_MIN_SIZE | QUEUES_MAX | WAVEFRONT_SIZE

text \<open>
  What \<open>hsa_agent_get_info\<close> writes, or \<open>None\<close> when it fails: the bytes of a number, whose width the
  attribute fixes; the 64 bytes of the name; the device.
\<close>

record agent_env =
  attr_bytes :: "nat \<Rightarrow> agent_attr \<Rightarrow> string option"
  name_bytes :: "nat \<Rightarrow> string option"
  device_of :: "nat \<Rightarrow> device_kind option"

text \<open>
  The call writes over the first bytes of \<open>sz\<close>, which is 8 bytes of zero before. More than 8 bytes go
  past the variable.
\<close>

definition agent_sizeTyAttr :: "agent_env \<Rightarrow> nat \<Rightarrow> agent_attr \<Rightarrow> nat res" where
  "agent_sizeTyAttr E agent attrName = (case attr_bytes E agent attrName of
     None \<Rightarrow> Inl (AssertFail ''hsa_agent_get_info'')
   | Some bs \<Rightarrow> if 8 < length bs then Inl (Undefined ''write past sz'')
       else let sz = le_nat (bs @ replicate (8 - length bs) (CHR 0x00)) in
         rbind (check (sz \<noteq> 0) ''sz != 0ul'') (\<lambda>_. Inr sz))"

definition maxQueueSize :: "agent_env \<Rightarrow> nat \<Rightarrow> nat res" where
  "maxQueueSize E agent = agent_sizeTyAttr E agent QUEUE_MAX_SIZE"

definition minQueueSize :: "agent_env \<Rightarrow> nat \<Rightarrow> nat res" where
  "minQueueSize E agent = agent_sizeTyAttr E agent QUEUE_MIN_SIZE"

definition maxNumQueues :: "agent_env \<Rightarrow> nat \<Rightarrow> nat res" where
  "maxNumQueues E agent = agent_sizeTyAttr E agent QUEUES_MAX"

definition wavefrontSize :: "agent_env \<Rightarrow> nat \<Rightarrow> nat res" where
  "wavefrontSize E agent = agent_sizeTyAttr E agent WAVEFRONT_SIZE"

text \<open>\<open>name\<close> reads the 64 characters as a C string, up to the first null.\<close>

definition agent_name :: "agent_env \<Rightarrow> nat \<Rightarrow> string res" where
  "agent_name E agent = (case name_bytes E agent of
     None \<Rightarrow> Inl (AssertFail ''hsa_agent_get_info'')
   | Some bs \<Rightarrow> if 64 < length bs then Inl (Undefined ''write past ret'')
       else let ret = bs @ replicate (64 - length bs) (CHR 0x00) in
         if CHR 0x00 \<in> set ret then Inr (takeWhile (\<lambda>c. c \<noteq> CHR 0x00) ret)
         else Inl (Undefined ''no null in ret''))"

definition agent_deviceKind :: "agent_env \<Rightarrow> nat \<Rightarrow> device_kind res" where
  "agent_deviceKind E agent = (case device_of E agent of
     None \<Rightarrow> Inl (AssertFail ''hsa_agent_get_info'') | Some k \<Rightarrow> Inr k)"

text \<open>
  The runtime gives these attributes in 4 bytes, the variable has 8: since it is zero before the call,
  its value is the attribute, for every width up to 8.
\<close>

lemma le_nat_append_zeros [simp]: "le_nat (bs @ replicate k (CHR 0x00)) = le_nat bs"
proof -
  have "le_nat (replicate k (CHR 0x00)) = 0" by (induction k) auto
  then show ?thesis by (induction bs) auto
qed

theorem agent_sizeTyAttr_width:
  assumes "attr_bytes E agent a = Some (le_bytes w n)" "w \<le> 8" "0 < n" "n < 256 ^ w"
  shows "agent_sizeTyAttr E agent a = Inr n"
  using assms by (simp add: agent_sizeTyAttr_def le_nat_bytes)

theorem agent_name_text:
  assumes "CHR 0x00 \<notin> set s"
  shows "name_bytes E agent = Some s \<Longrightarrow> length s \<le> 63 \<Longrightarrow> agent_name E agent = Inr s"
    and "name_bytes E agent = Some s \<Longrightarrow> length s = 64 \<Longrightarrow> agent_name E agent = Inl (Undefined ''no null in ret'')"
  using assms by (auto simp: agent_name_def takeWhile_append takeWhile_eq_Nil_iff)

section \<open>Signal factories\<close>

datatype signal_kind = InterruptSignal | UserSignal | IpcSignal

record sig_env =
  new_sig :: "(nat \<Rightarrow> (signal_kind \<times> int) option) \<Rightarrow> signal_kind \<Rightarrow> nat option"

type_synonym signals = "nat \<Rightarrow> (signal_kind \<times> int) option"

definition factory_create :: "sig_env \<Rightarrow> signal_kind \<Rightarrow> signals \<Rightarrow> (nat \<times> signals) res" where
  "factory_create E kind w = (case new_sig E w kind of
     None \<Rightarrow> Inl (AssertFail ''hsa_signal_create'') | Some s \<Rightarrow> Inr (s, w(s \<mapsto> (kind, 1))))"

definition InterruptSignalFactory_create :: "sig_env \<Rightarrow> signals \<Rightarrow> (nat \<times> signals) res" where
  "InterruptSignalFactory_create E w = factory_create E InterruptSignal w"

definition UserSignalFactory_create :: "sig_env \<Rightarrow> signals \<Rightarrow> (nat \<times> signals) res" where
  "UserSignalFactory_create E w = factory_create E UserSignal w"

definition IpcSignalFactory_create :: "sig_env \<Rightarrow> signals \<Rightarrow> (nat \<times> signals) res" where
  "IpcSignalFactory_create E w = factory_create E IpcSignal w"

definition factory_destroy :: "nat \<Rightarrow> signals \<Rightarrow> signals res" where
  "factory_destroy s w = rbind (ASSERT_HSA (s \<in> dom w) ''hsa_signal_destroy'') (\<lambda>_. Inr (w(s := None)))"

text \<open>The loop of a pool over its factory.\<close>

fun create_batch :: "(signals \<Rightarrow> (nat \<times> signals) res) \<Rightarrow> nat \<Rightarrow> signals \<Rightarrow> (nat list \<times> signals) res" where
  "create_batch f 0 w = Inr ([], w)"
| "create_batch f (Suc n) w = rbind (f w) (\<lambda>(s, w). rbind (create_batch f n w) (\<lambda>(ss, w). Inr (s # ss, w)))"

fun destroy_all :: "nat list \<Rightarrow> signals \<Rightarrow> signals res" where
  "destroy_all [] w = Inr w"
| "destroy_all (s # ss) w = rbind (factory_destroy s w) (destroy_all ss)"

text \<open>The runtime gives handles that are neither null nor in use.\<close>

definition fresh_signals :: "sig_env \<Rightarrow> bool" where
  "fresh_signals E \<longleftrightarrow> (\<forall>w k s. new_sig E w k = Some s \<longrightarrow> s \<noteq> 0 \<and> s \<notin> dom w)"

text \<open>
  Then a batch of a factory consists of distinct signals of its kind with value 1, none of them null
  or in use before, which is what the pools rely on; and destroying the batch gives back the state
  before it.
\<close>

lemma destroy_all_distinct:
  "distinct ss \<Longrightarrow> set ss \<subseteq> dom w \<Longrightarrow> destroy_all ss w = Inr (\<lambda>t. if t \<in> set ss then None else w t)"
proof (induction ss arbitrary: w)
  case (Cons s ss)
  then have "factory_destroy s w = Inr (w(s := None))" "set ss \<subseteq> dom (w(s := None))"
    by (auto simp: factory_destroy_def ASSERT_HSA_def)
  with Cons show ?case by (auto simp: fun_eq_iff)
qed simp

theorem create_batch_fresh:
  assumes "fresh_signals E" "create_batch (factory_create E k) n w = Inr (ss, w')"
  shows "length ss = n \<and> distinct ss \<and> 0 \<notin> set ss \<and> set ss \<inter> dom w = {} \<and>
    w' = (\<lambda>s. if s \<in> set ss then Some (k, 1) else w s) \<and> destroy_all ss w' = Inr w"
proof -
  have *: "length ss = n \<and> distinct ss \<and> 0 \<notin> set ss \<and> set ss \<inter> dom w = {} \<and>
    w' = (\<lambda>s. if s \<in> set ss then Some (k, 1) else w s)"
    using assms(2)
  proof (induction n arbitrary: w ss)
    case (Suc n)
    then obtain s where s: "new_sig E w k = Some s"
      by (auto simp: factory_create_def split: option.splits)
    then have c: "factory_create E k w = Inr (s, w(s \<mapsto> (k, 1)))" by (simp add: factory_create_def)
    with Suc.prems obtain us where ss: "ss = s # us"
      and us: "create_batch (factory_create E k) n (w(s \<mapsto> (k, 1))) = Inr (us, w')"
      by (cases "create_batch (factory_create E k) n (w(s \<mapsto> (k, 1)))") auto
    from s assms(1) have "s \<noteq> 0" "s \<notin> dom w" by (auto simp: fresh_signals_def)
    with Suc.IH [OF us] show ?case by (auto simp: ss fun_eq_iff)
  qed auto
  then have "w s = None" if "s \<in> set ss" for s
    using that by (metis disjoint_iff domIff)
  with * have "destroy_all ss w' = Inr w"
    by (subst destroy_all_distinct) (auto simp: fun_eq_iff)
  with * show ?thesis by blast
qed

text \<open>A runtime of this kind: the number after all those in use so far below a bound.\<close>

definition sig_ex :: sig_env where
  "sig_ex = \<lparr>new_sig = (\<lambda>w k. find (\<lambda>s. w s = None) [1..<100])\<rparr>"

theorem create_batch_fresh_ex:
  "\<exists>w'. create_batch (factory_create sig_ex UserSignal) 2 Map.empty = Inr ([1, 2], w') \<and>
     destroy_all [1, 2] w' = Inr Map.empty"
proof -
  have "fresh_signals sig_ex"
    by (auto simp: fresh_signals_def sig_ex_def find_Some_iff)
  moreover obtain w' where "create_batch (factory_create sig_ex UserSignal) 2 Map.empty = Inr ([1, 2], w')"
    by (simp add: factory_create_def sig_ex_def numeral_2_eq_2 upt_rec)
  ultimately show ?thesis using create_batch_fresh by blast
qed

section \<open>Queue factory\<close>

text \<open>The factory keeps the agent and the largest queue it can make, and asserts that there is one.\<close>

record queue_factory =
  qf_agent :: nat
  mMaxQsize :: nat

definition queueFactory_make :: "agent_env \<Rightarrow> nat \<Rightarrow> queue_factory res" where
  "queueFactory_make E agent = rbind (maxQueueSize E agent) (\<lambda>n.
     rbind (check (0 < n) ''mMaxQsize > 0'') (\<lambda>_. Inr \<lparr>qf_agent = agent, mMaxQsize = n\<rparr>))"

definition queueFactory_destroy :: "nat \<Rightarrow> nat set \<Rightarrow> nat set res" where
  "queueFactory_destroy q queues = rbind (ASSERT_HSA (q \<in> queues) ''hsa_queue_destroy'') (\<lambda>_. Inr (queues - {q}))"

lemma queueFactory_size: "queueFactory_make E agent = Inr f \<Longrightarrow> 0 < mMaxQsize f"
  by (auto simp: queueFactory_make_def check_def rbind_def split: sum.splits if_splits)

section \<open>Waiting on a signal\<close>

text \<open>
  \<open>seen k\<close> is the value the \<open>k\<close>-th call reads; the two waiting calls may return before the condition
  holds. The loops differ in the memory order of the read only, and return the number of the next call.
\<close>

partial_function (option) waitOnSignalAcquire :: "(nat \<Rightarrow> int) \<Rightarrow> nat \<Rightarrow> nat option" where
  "waitOnSignalAcquire seen k = (if seen k \<noteq> 0 then waitOnSignalAcquire seen (Suc k) else Some (Suc k))"

partial_function (option) waitOnSignalBusy :: "(nat \<Rightarrow> int) \<Rightarrow> nat \<Rightarrow> nat option" where
  "waitOnSignalBusy seen k = (if seen k \<noteq> 0 then waitOnSignalBusy seen (Suc k) else Some (Suc k))"

definition first_zero :: "(nat \<Rightarrow> int) \<Rightarrow> nat \<Rightarrow> nat \<Rightarrow> bool" where
  "first_zero seen j m \<longleftrightarrow> j \<le> m \<and> seen m = 0 \<and> (\<forall>i. j \<le> i \<and> i < m \<longrightarrow> seen i \<noteq> 0)"

lemma first_zero_step: "first_zero seen j m \<longleftrightarrow> (if seen j \<noteq> 0 then first_zero seen (Suc j) m else m = j)"
  unfolding first_zero_def by (metis Suc_leD Suc_leI le_neq_implies_less nat_less_le not_less_eq_eq order_refl)

text \<open>Any loop of this shape returns right behind the first zero, and does not return without one.\<close>

lemma wait_exact:
  assumes step: "\<And>j. f j = (if seen j \<noteq> 0 then f (Suc j) else Some (Suc j))"
    and ind: "\<And>j x. f j = Some x \<Longrightarrow> \<exists>m. x = Suc m \<and> first_zero seen j m"
  shows "f j = Some x \<longleftrightarrow> (\<exists>m. x = Suc m \<and> first_zero seen j m)"
proof
  assume "\<exists>m. x = Suc m \<and> first_zero seen j m"
  then obtain m where m: "x = Suc m" "first_zero seen j m" by blast
  from m(2) have "f j = Some (Suc m)"
  proof (induction "m - j" arbitrary: j)
    case 0
    then show ?case using step [of j] by (simp add: first_zero_def)
  next
    case (Suc n)
    then show ?case using step [of j] first_zero_step [of seen j m] by (cases "seen j = 0") auto
  qed
  then show "f j = Some x" by (simp add: m(1))
qed (rule ind)

lemma waitOnSignalAcquire_iff: "waitOnSignalAcquire seen j = Some x \<longleftrightarrow> (\<exists>m. x = Suc m \<and> first_zero seen j m)"
proof (rule wait_exact [OF waitOnSignalAcquire.simps])
  show "waitOnSignalAcquire seen j = Some x \<Longrightarrow> \<exists>m. x = Suc m \<and> first_zero seen j m" for j x
    by (erule waitOnSignalAcquire.raw_induct [rotated, where P = "\<lambda>seen j x. \<exists>m. x = Suc m \<and> first_zero seen j m"])
      (subst first_zero_step, auto split: if_splits)
qed

lemma waitOnSignalBusy_iff: "waitOnSignalBusy seen j = Some x \<longleftrightarrow> (\<exists>m. x = Suc m \<and> first_zero seen j m)"
proof (rule wait_exact [OF waitOnSignalBusy.simps])
  show "waitOnSignalBusy seen j = Some x \<Longrightarrow> \<exists>m. x = Suc m \<and> first_zero seen j m" for j x
    by (erule waitOnSignalBusy.raw_induct [rotated, where P = "\<lambda>seen j x. \<exists>m. x = Suc m \<and> first_zero seen j m"])
      (subst first_zero_step, auto split: if_splits)
qed

lemma waitOnSignal_iff: "waitOnSignal seen j = Some x \<longleftrightarrow> (\<exists>m. x = Suc m \<and> first_zero seen j m)"
proof (rule wait_exact [OF waitOnSignal.simps])
  show "waitOnSignal seen j = Some x \<Longrightarrow> \<exists>m. x = Suc m \<and> first_zero seen j m" for j x
    by (erule waitOnSignal.raw_induct [rotated, where P = "\<lambda>seen j x. \<exists>m. x = Suc m \<and> first_zero seen j m"])
      (subst first_zero_step, auto split: if_splits)
qed

theorem waits_agree:
  "waitOnSignalAcquire = waitOnSignal" "waitOnSignalBusy = waitOnSignal"
  by (intro ext option.expand; metis waitOnSignalAcquire_iff waitOnSignalBusy_iff waitOnSignal_iff option.exhaust_sel option.sel)+

section \<open>Copies between host and device\<close>

text \<open>A host vector is the address of its elements and their number; \<open>&vec[0]\<close> of an empty one is undefined.\<close>

type_synonym host_vec = "nat \<times> nat"

definition vec_data :: "host_vec \<Rightarrow> nat res" where
  "vec_data v = (if snd v = 0 then Inl (Undefined ''vec[0]'') else Inr (fst v))"

definition memCopy :: "bool \<Rightarrow> nat \<Rightarrow> nat \<Rightarrow> nat \<Rightarrow> nat \<Rightarrow> memory \<Rightarrow> memory res" where
  "memCopy ok sizeofT dst src numElem mem = rbind (ASSERT_HSA ok ''hsa_memory_copy'') (\<lambda>_.
     Inr (write_bytes mem dst (read_bytes mem src (sizeofT * numElem))))"

definition dm_copyIn :: "bool \<Rightarrow> nat \<Rightarrow> nat \<Rightarrow> host_vec \<Rightarrow> memory \<Rightarrow> memory res" where
  "dm_copyIn ok sizeofT devBuf vec mem = rbind (vec_data vec) (\<lambda>src. memCopy ok sizeofT devBuf src (snd vec) mem)"

definition dm_copyOut :: "bool \<Rightarrow> nat \<Rightarrow> host_vec \<Rightarrow> nat \<Rightarrow> memory \<Rightarrow> memory res" where
  "dm_copyOut ok sizeofT vec devBuf mem = rbind (check (devBuf \<noteq> 0) ''devBuf'') (\<lambda>_.
     rbind (check (0 < snd vec) ''vec.size() > 0'') (\<lambda>_.
     rbind (vec_data vec) (\<lambda>dst. memCopy ok sizeofT dst devBuf (snd vec) mem)))"

text \<open>\<open>makeCopy\<close> has no return statement: reaching its end is undefined.\<close>

definition dm_makeCopy :: "nat \<Rightarrow> bool \<Rightarrow> nat \<Rightarrow> host_vec \<Rightarrow> devmem \<times> memory \<Rightarrow> (nat \<times> devmem \<times> memory) res" where
  "dm_makeCopy ret ok sizeofT vec s = rbind (dm_allocate ret (snd vec) (fst s)) (\<lambda>(devBuf, m).
     rbind (check (devBuf \<noteq> 0) ''devBuf'') (\<lambda>_. rbind (vec_data vec) (\<lambda>src.
     rbind (memCopy ok sizeofT devBuf src (snd vec) (snd s)) (\<lambda>_. Inl (Undefined ''no return value'')))))"

definition bufs_apart :: "nat \<Rightarrow> nat \<Rightarrow> nat \<Rightarrow> bool" where
  "bufs_apart a b n \<longleftrightarrow> a + n \<le> b \<or> b + n \<le> a"

text \<open>A vector copied into a buffer and out of it into another arrives unchanged, and is itself unchanged.\<close>

theorem dm_copy_roundtrip:
  assumes "0 < n" "devBuf \<noteq> 0" "bufs_apart a devBuf (sz * n)" "bufs_apart a b (sz * n)"
  shows "\<exists>m1 m2. dm_copyIn True sz devBuf (a, n) mem = Inr m1 \<and> dm_copyOut True sz (b, n) devBuf m1 = Inr m2 \<and>
    read_bytes m2 b (sz * n) = read_bytes mem a (sz * n) \<and> read_bytes m2 a (sz * n) = read_bytes mem a (sz * n)"
proof -
  let ?bs = "read_bytes mem a (sz * n)"
  let ?m1 = "write_bytes mem devBuf ?bs"
  have "read_bytes ?m1 devBuf (sz * n) = ?bs" by (simp add: read_write_bytes_all)
  moreover from this have "read_bytes (write_bytes ?m1 b ?bs) a (sz * n) = ?bs"
    using assms by (subst read_write_other; (subst read_write_other)?) (auto simp: bufs_apart_def)
  ultimately show ?thesis using assms
    by (simp add: dm_copyIn_def dm_copyOut_def vec_data_def memCopy_def ASSERT_HSA_def read_write_bytes_all)
qed

text \<open>No call of \<open>makeCopy\<close> gives the buffer to its caller.\<close>

theorem dm_makeCopy_fails: "\<exists>e. dm_makeCopy ret ok sz vec s = Inl e"
  by (auto simp: dm_makeCopy_def rbind_def split: sum.splits)

section \<open>The destructor of KernArgHeap\<close>

text \<open>It deletes the heap of each bucket; deleting a null pointer does nothing. The result is what goes
  back to the backing heap.\<close>

definition kah_destroy :: "kaheap \<Rightarrow> memblock list \<times> kaheap" where
  "kah_destroy k = (concat (map (\<lambda>h. case h of None \<Rightarrow> [] | Some h \<Rightarrow> fst (fsh_destroy h)) k), [])"

text \<open>Every big block any bucket has obtained goes back exactly as often as it was obtained.\<close>

lemma kah_destroy_returns:
  "mset (fst (kah_destroy k)) = sum_list (map (\<lambda>h. case h of None \<Rightarrow> {#} | Some h \<Rightarrow> mset (mBigBlocks h)) k)"
  by (induction k) (auto simp: kah_destroy_def fsh_destroy_def split: option.splits)

end
