(* ===== verification/HipLaunch.thy ===== *)
theory HipLaunch
  imports KernArgs Atmi
begin

text \<open>
  The HIP side of the library: \<open>dagee/HIPinternal.h\<close> with the packer of the arguments of a
  \<open>KernelInstance\<close>, \<open>dagee/HIPsyncExecutor.h\<close> and the parallel loop of \<open>dagee/DataParFor.h\<close>. The
  kernels themselves run in the HIP runtime; a launch is recorded as an event.
\<close>

section \<open>Kernel instances\<close>

text \<open>What \<open>getKernelInfoHSA\<close> reads from the HIP runtime's table, an argument here.\<close>

record kernel_info_hsa =
  mCodeObj :: "64 word"
  workitem_private_segment_byte_size :: "32 word"
  workgroup_group_segment_byte_size :: "32 word"
  ki_agent :: nat

definition codeObjAddr :: "kernel_info_hsa \<Rightarrow> 64 word" where
  "codeObjAddr ki = mCodeObj ki"

definition privateSegmentSize :: "kernel_info_hsa \<Rightarrow> nat" where
  "privateSegmentSize ki = unat (workitem_private_segment_byte_size ki)"

definition groupSegmentSize :: "kernel_info_hsa \<Rightarrow> nat" where
  "groupSegmentSize ki = unat (workgroup_group_segment_byte_size ki)"

definition getKernelInfoHSA :: "(nat \<Rightarrow> (nat \<times> kernel_info_hsa) list option) \<Rightarrow> nat \<Rightarrow> kernel_info_hsa res" where
  "getKernelInfoHSA functions Fptr = (case functions Fptr of
     None \<Rightarrow> Inl (Undefined ''it->second'')
   | Some [] \<Rightarrow> Inl (Undefined ''vec[0]'')
   | Some ((agent, kernDesc) # _) \<Rightarrow> Inr (kernDesc\<lparr>ki_agent := agent\<rparr>))"

definition nextBufSize :: "nat \<Rightarrow> nat \<Rightarrow> nat \<Rightarrow> nat" where
  "nextBufSize origSize sz algn = ((origSize + algn - 1) div algn) * algn + sz"

text \<open>
  \<open>FillArgBuf\<close>: the vector grows by zeros to the end of the next argument, which is constructed in
  its last bytes.
\<close>

fun FillArgBuf :: "arg list \<Rightarrow> byte list \<Rightarrow> byte list res" where
  "FillArgBuf [] vec = Inr vec"
| "FillArgBuf (a # as) vec =
    (let newSz = nextBufSize (length vec) (argSz a) (argAlign a);
         vec = take newSz vec @ replicate (newSz - length vec) 0
     in rbind (place_arg vec (length vec - argSz a) (argBytes a)) (FillArgBuf as))"

definition hip_packKernArgs :: "arg list \<Rightarrow> byte list res" where
  "hip_packKernArgs args = FillArgBuf args []"

record hip_instance =
  hi_blocks :: dim3
  hi_threads :: dim3
  hi_info :: kernel_info_hsa
  hi_args :: "byte list"

definition makeKernelInstance :: "dim3 \<Rightarrow> dim3 \<Rightarrow> kernel_info_hsa \<Rightarrow> arg list \<Rightarrow> hip_instance res" where
  "makeKernelInstance blocks threadsPerBlock kinfo args =
    rbind (hip_packKernArgs args) (\<lambda>bs. Inr \<lparr>hi_blocks = blocks, hi_threads = threadsPerBlock, hi_info = kinfo, hi_args = bs\<rparr>)"

definition makeHSAkernelInstance :: "(nat \<Rightarrow> (nat \<times> kernel_info_hsa) list option) \<Rightarrow> dim3 \<Rightarrow> dim3 \<Rightarrow> nat \<Rightarrow> arg list \<Rightarrow>
    hip_instance res" where
  "makeHSAkernelInstance functions blocks threadsPerBlock kernPtr args =
    rbind (getKernelInfoHSA functions kernPtr) (\<lambda>kinfo. makeKernelInstance blocks threadsPerBlock kinfo args)"

subsection \<open>The same buffer as the packer of the ATMI tasks\<close>

text \<open>
  The vector that grows argument by argument is a prefix of the buffer allocated at once, the rest
  of which is still zero.
\<close>

lemma fill_prefix:
  assumes "\<forall>a \<in> set as. arg_ok a"
  shows "\<exists>buf. FillArgBuf as vec = Inr buf \<and> length buf = layout_end (length vec) as \<and>
    construct_args (length vec) as (vec @ replicate (layout_end (length vec) as - length vec) 0) = Inr buf"
  using assms
proof (induction as arbitrary: vec)
  case Nil
  then show ?case by simp
next
  case (Cons a as)
  let ?o = "round_up (length vec) (argAlign a)" and ?z = "replicate :: nat \<Rightarrow> byte \<Rightarrow> byte list"
  have al: "0 < argAlign a" "length (argBytes a) = argSz a" and as: "\<forall>a \<in> set as. 0 < argAlign a"
    using Cons.prems by (auto simp: arg_ok_def)
  have ge: "length vec \<le> ?o" by (rule round_up_ge [OF al(1)])
  let ?v = "vec @ ?z (?o - length vec) 0 @ argBytes a"
  have len: "length ?v = ?o + argSz a" using ge al(2) by simp
  have lim: "?o + argSz a \<le> layout_end (?o + argSz a) as" by (rule layout_end_ge [OF as])
  have nb: "nextBufSize (length vec) (argSz a) (argAlign a) = ?o + argSz a"
    by (simp add: nextBufSize_def round_up_def)
  have p1: "place_arg (take (?o + argSz a) vec @ ?z (?o + argSz a - length vec) 0) ?o (argBytes a) = Inr ?v"
    using ge al(2) by (simp add: place_arg_def)
  have p2: "place_arg (vec @ ?z (layout_end (?o + argSz a) as - length vec) 0) ?o (argBytes a) =
      Inr (?v @ ?z (layout_end (?o + argSz a) as - length ?v) 0)"
    using ge al(2) lim by (simp add: place_arg_def)
  obtain buf where buf: "FillArgBuf as ?v = Inr buf" "length buf = layout_end (length ?v) as"
      "construct_args (length ?v) as (?v @ ?z (layout_end (length ?v) as - length ?v) 0) = Inr buf"
    using Cons.IH [of ?v] Cons.prems by auto
  have l: "length (take (?o + argSz a) vec @ ?z (?o + argSz a - length vec) 0) - argSz a = ?o"
    using ge by simp
  have "FillArgBuf (a # as) vec = Inr buf"
    unfolding FillArgBuf.simps Let_def nb l p1 rbind_Inr by (rule buf(1))
  moreover have "construct_args (length vec) (a # as) (vec @ ?z (layout_end (length vec) (a # as) - length vec) 0) = Inr buf"
    using buf(3) p2 len by (simp add: argOffset_eq)
  ultimately show ?case using buf(2) len by simp
qed

text \<open>
  C13: the packer of HIP kernel instances, which grows its vector with each argument, gives the same
  bytes as the packer of the ATMI tasks, which computes all offsets and allocates once.
\<close>

theorem hip_pack_equiv:
  assumes "\<forall>a \<in> set args. arg_ok a"
  shows "\<exists>offs buf. packKernArgsCompOffset args = Inr (offs, buf) \<and> hip_packKernArgs args = Inr buf"
proof -
  obtain buf where "FillArgBuf args [] = Inr buf" "construct_args 0 args (replicate (layout_end 0 args) 0) = Inr buf"
    using fill_prefix [OF assms, of "[]"] by auto
  then show ?thesis by (simp add: packKernArgsCompOffset_def arg_offsets_layout hip_packKernArgs_def)
qed

theorem hip_pack_equiv_witness:
  "\<exists>offs buf. packKernArgsCompOffset [int_arg, ptr_arg] = Inr (offs, buf) \<and> hip_packKernArgs [int_arg, ptr_arg] = Inr buf"
  by (rule hip_pack_equiv) (simp add: arg_ok_def int_arg_def ptr_arg_def)

section \<open>HIPsyncExecutor\<close>

datatype hip_event = LaunchKernelGGL nat dim3 dim3 "arg list" | DeviceSynchronize | PrintStat string string nat

record hip_exec =
  mNumTasks :: nat
  he_name :: string

definition hip_make :: "string \<Rightarrow> hip_exec" where
  "hip_make name = \<lparr>mNumTasks = 0, he_name = name\<rparr>"

definition launchSyncTask :: "dim3 \<Rightarrow> dim3 \<Rightarrow> nat \<Rightarrow> arg list \<Rightarrow> hip_exec \<times> hip_event list \<Rightarrow> hip_exec \<times> hip_event list" where
  "launchSyncTask blocks threadsPerBlock f args =
    (\<lambda>(x, out). (x\<lparr>mNumTasks := mNumTasks x + 1\<rparr>, out @ [LaunchKernelGGL f blocks threadsPerBlock args]))"

definition syncWithDevice :: "hip_event list \<Rightarrow> hip_event list" where
  "syncWithDevice out = out @ [DeviceSynchronize]"

definition hip_destroy :: "hip_exec \<Rightarrow> hip_event list \<Rightarrow> hip_event list" where
  "hip_destroy x out = out @ [PrintStat (he_name x) ''Num Tasks'' (mNumTasks x)]"

text \<open>The number printed at the end is the number of launches.\<close>

lemma hip_counts:
  "mNumTasks (fst (fold (\<lambda>(b, t, f, as). launchSyncTask b t f as) ts (hip_make name, []))) = length ts \<and>
   snd (fold (\<lambda>(b, t, f, as). launchSyncTask b t f as) ts (hip_make name, [])) = map (\<lambda>(b, t, f, as). LaunchKernelGGL f b t as) ts"
proof (induction ts rule: rev_induct)
  case Nil
  show ?case by (simp add: hip_make_def)
next
  case (snoc t ts)
  then show ?case by (cases t) (auto simp: launchSyncTask_def split: prod.splits)
qed

section \<open>The parallel loop\<close>

definition NUM_BLOCKS :: nat where "NUM_BLOCKS = 8"

text \<open>
  The call of one thread of the grid: the product of the block size and the block index is a
  product of 32-bit values. The result lists the calls of the function.
\<close>

definition dataParForImpl :: "nat \<Rightarrow> nat \<Rightarrow> 32 word \<Rightarrow> 32 word \<Rightarrow> 32 word \<Rightarrow> nat list" where
  "dataParForImpl mbeg mend blockDim blockIdx threadIdx =
    (let tid = unat (blockDim * blockIdx + threadIdx); i = mbeg + tid in if i < mend then [i] else [])"

text \<open>All threads of the launch, block by block; on the device they run in any order.\<close>

definition data_par_for :: "nat \<Rightarrow> nat \<Rightarrow> nat list" where
  "data_par_for mbeg mend =
    (let threadsPerBlock = (size_sub mend mbeg + NUM_BLOCKS - 1) div NUM_BLOCKS; dim = of_nat threadsPerBlock :: 32 word in
     concat (map (\<lambda>b. concat (map (\<lambda>t. dataParForImpl mbeg mend dim (of_nat b) (of_nat t)) [0..<unat dim])) [0..<NUM_BLOCKS]))"

lemma blocks_of_threads: "concat (map (\<lambda>b. map (\<lambda>t. b * T + t) [0..<T]) [0..<n]) = [0..<n * T]"
proof (induction n)
  case (Suc n)
  have "map (\<lambda>t. n * T + t) [0..<T] = [n * T..<n * T + T]"
    by (rule nth_equalityI) simp_all
  then show ?case using Suc upt_add_eq_append [of 0 "n * T" T] by (simp add: add.commute)
qed simp

lemma concat_map_filter: "concat (map (\<lambda>x. if P x then [f x] else []) xs) = map f (filter P xs)"
  by (induction xs) auto

lemma filter_below: "n \<le> m \<Longrightarrow> filter (\<lambda>x. x < n) [0..<m] = [0..<n]"
  by (induction m) (auto simp: le_Suc_eq)

lemma grid_calls:
  assumes T: "T \<le> 2 ^ 29" "mend - mbeg \<le> 8 * T" and le: "mbeg \<le> mend"
  shows "concat (map (\<lambda>b. concat (map (\<lambda>t. dataParForImpl mbeg mend (of_nat T) (of_nat b) (of_nat t))
    [0..<unat (of_nat T :: 32 word)])) [0..<8]) = [mbeg..<mend]"
proof -
  let ?n = "mend - mbeg"
  have dim: "unat (of_nat T :: 32 word) = T" using T(1) by (simp add: unsigned_of_nat take_bit_nat_eq_self)
  have call: "dataParForImpl mbeg mend (of_nat T) (of_nat b) (of_nat t) = (if b * T + t < ?n then [mbeg + (b * T + t)] else [])"
    if "b < 8" "t < T" for b t
  proof -
    have "b * T + t < Suc b * T" using that(2) by simp
    also have "\<dots> \<le> 8 * T" using that(1) by (intro mult_right_mono) auto
    finally have lt: "b * T + t < 2 ^ LENGTH(32)" using T(1) by simp
    have "(of_nat T * of_nat b + of_nat t :: 32 word) = of_nat (b * T + t)" by (simp add: mult.commute)
    then have "unat (of_nat T * of_nat b + of_nat t :: 32 word) = b * T + t"
      using lt by (simp only: unsigned_of_nat take_bit_nat_eq_self of_nat_id)
    then show ?thesis using le by (auto simp: dataParForImpl_def Let_def)
  qed
  have "concat (map (\<lambda>t. dataParForImpl mbeg mend (of_nat T) (of_nat b) (of_nat t)) [0..<T]) =
     map ((+) mbeg) (filter (\<lambda>x. x < ?n) (map (\<lambda>t. b * T + t) [0..<T]))" if "b < 8" for b
  proof -
    have "map (\<lambda>t. dataParForImpl mbeg mend (of_nat T) (of_nat b) (of_nat t)) [0..<T] =
       map (\<lambda>t. if b * T + t < ?n then [mbeg + (b * T + t)] else []) [0..<T]"
      using call [OF that] by simp
    then show ?thesis by (simp only: concat_map_filter filter_map map_map comp_def)
  qed
  then have "map (\<lambda>b. concat (map (\<lambda>t. dataParForImpl mbeg mend (of_nat T) (of_nat b) (of_nat t)) [0..<T])) [0..<8] =
     map (\<lambda>b. map ((+) mbeg) (filter (\<lambda>x. x < ?n) (map (\<lambda>t. b * T + t) [0..<T]))) [0..<8]"
    by (intro map_cong) auto
  then have "concat (map (\<lambda>b. concat (map (\<lambda>t. dataParForImpl mbeg mend (of_nat T) (of_nat b) (of_nat t))
      [0..<unat (of_nat T :: 32 word)])) [0..<8]) =
     map ((+) mbeg) (filter (\<lambda>x. x < ?n) (concat (map (\<lambda>b. map (\<lambda>t. b * T + t) [0..<T]) [0..<8])))"
    by (simp only: dim filter_concat map_concat map_map comp_def)
  also have "\<dots> = map ((+) mbeg) [0..<?n]" using T(2) by (simp only: blocks_of_threads filter_below)
  also have "(+) mbeg = (\<lambda>i. i + mbeg)" by (rule ext) (rule add.commute)
  also have "map (\<lambda>i. i + mbeg) [0..<?n] = [mbeg..<mend]" using map_add_upt [of mbeg ?n] le by simp
  finally show ?thesis .
qed

text \<open>
  \<open>data_par_for\<close> launches a grid that calls the function on every index of the range exactly
  once, for ranges of up to \<open>2 ^ 32\<close> indices.
\<close>

theorem data_par_for_covers:
  assumes "mbeg \<le> mend" "mend - mbeg \<le> 2 ^ 32"
  shows "data_par_for mbeg mend = [mbeg..<mend]"
proof -
  have "(mend - mbeg + 8 - 1) div 8 \<le> 2 ^ 29" "mend - mbeg \<le> 8 * ((mend - mbeg + 8 - 1) div 8)"
    using assms(2) by simp_all
  then show ?thesis
    unfolding data_par_for_def Let_def NUM_BLOCKS_def size_sub_le [OF assms(1)] using assms(1) by (rule grid_calls)
qed

theorem data_par_for_covers_witness: "data_par_for 5 26 = [5..<26]"
  by (rule data_par_for_covers) simp_all

end
