(* ===== verification/Device.thy ===== *)
theory Device
  imports HsaExec
begin

text \<open>
  What the device does with the packets of a batch, as the HSA runtime documents it: it launches the
  packets of a queue in order and may finish them in any order, except that a packet with the
  barrier bit waits for all earlier ones, and that nothing passes a barrier packet, which waits for
  the signals it depends on. Finishing a packet decrements its completion signal. \<open>P j i\<close> is the
  packet at index \<open>i\<close> of the \<open>j\<close>-th queue, the indices running from \<open>base j\<close> to below \<open>en j\<close>.
\<close>

section \<open>Steps of the device\<close>

fun pkt_header :: "packet \<Rightarrow> 16 word" where
  "pkt_header (Dispatch p) = dp_header p" | "pkt_header (BarrierAnd p) = bp_header p"

fun completion :: "packet \<Rightarrow> nat" where
  "completion (Dispatch p) = dp_completion p" | "completion (BarrierAnd p) = bp_completion p"

fun deps :: "packet \<Rightarrow> nat set" where
  "deps (Dispatch p) = {}" | "deps (BarrierAnd p) = set (dep_signal p) - {0}"

fun is_barrier :: "packet \<Rightarrow> bool" where
  "is_barrier (Dispatch p) = False" | "is_barrier (BarrierAnd p) = True"

definition has_barrier_bit :: "hsa_abi \<Rightarrow> packet \<Rightarrow> bool" where
  "has_barrier_bit A p \<longleftrightarrow> header_field (HEADER_BARRIER A) 1 (pkt_header p) = 1"

definition may_finish :: "hsa_abi \<Rightarrow> (nat \<Rightarrow> nat \<Rightarrow> packet option) \<Rightarrow> (nat \<Rightarrow> nat) \<Rightarrow> (nat \<times> nat) set \<Rightarrow>
    (nat \<Rightarrow> int) \<Rightarrow> nat \<Rightarrow> nat \<Rightarrow> packet \<Rightarrow> bool" where
  "may_finish A P base D sig j i p \<longleftrightarrow> (\<forall>g \<in> deps p. sig g = 0) \<and>
     (has_barrier_bit A p \<longrightarrow> (\<forall>k. base j \<le> k \<and> k < i \<longrightarrow> (j, k) \<in> D)) \<and>
     (\<forall>k p'. base j \<le> k \<and> k < i \<and> P j k = Some p' \<longrightarrow> (is_barrier p' \<longrightarrow> (j, k) \<in> D) \<and>
       (has_barrier_bit A p' \<longrightarrow> (\<forall>l. base j \<le> l \<and> l < k \<longrightarrow> (j, l) \<in> D)))"

definition finish :: "packet \<Rightarrow> (nat \<Rightarrow> int) \<Rightarrow> nat \<Rightarrow> int" where
  "finish p sig = (if completion p = 0 then sig else sig(completion p := sig (completion p) - 1))"

inductive device :: "hsa_abi \<Rightarrow> (nat \<Rightarrow> nat \<Rightarrow> packet option) \<Rightarrow> nat \<Rightarrow> (nat \<Rightarrow> nat) \<Rightarrow> (nat \<Rightarrow> nat) \<Rightarrow>
    (nat \<Rightarrow> int) \<Rightarrow> (nat \<times> nat) set \<Rightarrow> (nat \<Rightarrow> int) \<Rightarrow> bool"
  for A P n base en sig0 where
  start: "device A P n base en sig0 {} sig0"
| step: "device A P n base en sig0 D sig \<Longrightarrow> j < n \<Longrightarrow> base j \<le> i \<Longrightarrow> i < en j \<Longrightarrow> (j, i) \<notin> D \<Longrightarrow>
    P j i = Some p \<Longrightarrow> may_finish A P base D sig j i p \<Longrightarrow>
    device A P n base en sig0 (insert (j, i) D) (finish p sig)"

section \<open>A batch in the queues\<close>

text \<open>
  Tasks at \<open>base j \<le> i < te j\<close> of each queue, completing the signal of the queue, and a barrier packet
  at \<open>te 0\<close> of the first queue that depends on these signals and completes the final one.
\<close>

definition batch_end :: "(nat \<Rightarrow> nat) \<Rightarrow> nat \<Rightarrow> nat" where
  "batch_end te j = (if j = 0 then Suc (te 0) else te j)"

definition batch_written :: "hsa_abi \<Rightarrow> (nat \<Rightarrow> nat \<Rightarrow> packet option) \<Rightarrow> (nat \<Rightarrow> nat) \<Rightarrow> (nat \<Rightarrow> nat) \<Rightarrow>
    nat list \<Rightarrow> nat \<Rightarrow> (nat \<Rightarrow> int) \<Rightarrow> bool" where
  "batch_written A P base te perQ final sig0 \<longleftrightarrow> perQ \<noteq> [] \<and> distinct (final # perQ) \<and> 0 \<notin> set (final # perQ) \<and>
     (\<forall>j < length perQ. base j \<le> te j \<and> sig0 (perQ ! j) = int (te j - base j)) \<and> sig0 final = 1 \<and>
     (\<forall>j < length perQ. \<forall>i. base j \<le> i \<and> i < te j \<longrightarrow> (\<exists>p. P j i = Some (Dispatch p) \<and>
        dp_completion p = perQ ! j \<and> \<not> has_barrier_bit A (Dispatch p))) \<and>
     (\<exists>p. P 0 (te 0) = Some (BarrierAnd p) \<and> set (dep_signal p) - {0} = set perQ \<and> bp_completion p = final)"

lemma written_task:
  "batch_written A P base te perQ final sig0 \<Longrightarrow> j < length perQ \<Longrightarrow> base j \<le> i \<Longrightarrow> i < te j \<Longrightarrow>
    \<exists>p. P j i = Some (Dispatch p) \<and> dp_completion p = perQ ! j \<and> \<not> has_barrier_bit A (Dispatch p)"
  unfolding batch_written_def by blast

definition batch_tasks :: "nat \<Rightarrow> (nat \<Rightarrow> nat) \<Rightarrow> (nat \<Rightarrow> nat) \<Rightarrow> (nat \<times> nat) set" where
  "batch_tasks n base te = {(j, i). j < n \<and> base j \<le> i \<and> i < te j}"

definition left :: "(nat \<Rightarrow> nat) \<Rightarrow> (nat \<Rightarrow> nat) \<Rightarrow> (nat \<times> nat) set \<Rightarrow> nat \<Rightarrow> nat set" where
  "left base te D j = {i. base j \<le> i \<and> i < te j \<and> (j, i) \<notin> D}"

lemma finite_left [simp]: "finite (left base te D j)"
  by (rule finite_subset [of _ "{..<te j}"]) (auto simp: left_def)

lemma left_insert: "left base te (insert (j, i) D) k = (if k = j then left base te D j - {i} else left base te D k)"
  by (auto simp: left_def)

lemma left_empty: "left base te {} j = {base j..<te j}"
  by (auto simp: left_def)

definition batch_dev_inv :: "nat list \<Rightarrow> nat \<Rightarrow> (nat \<Rightarrow> nat) \<Rightarrow> (nat \<Rightarrow> nat) \<Rightarrow> (nat \<times> nat) set \<Rightarrow> (nat \<Rightarrow> int) \<Rightarrow> bool" where
  "batch_dev_inv perQ final base te D sig \<longleftrightarrow>
     (\<forall>j < length perQ. sig (perQ ! j) = int (card (left base te D j))) \<and>
     sig final = (if (0, te 0) \<in> D then 0 else 1) \<and>
     ((0, te 0) \<in> D \<longrightarrow> batch_tasks (length perQ) base te \<subseteq> D)"

lemma left_none:
  "(\<forall>j < n. left base te D j = {}) \<longleftrightarrow> batch_tasks n base te \<subseteq> D"
  by (auto simp: left_def batch_tasks_def)

lemma device_inv:
  assumes B: "batch_written A P base te perQ final sig0"
    and "device A P (length perQ) base (batch_end te) sig0 D sig"
  shows "batch_dev_inv perQ final base te D sig"
  using assms(2)
proof induction
  case start
  then show ?case using B by (auto simp: batch_dev_inv_def batch_written_def left_empty)
next
  case (step D sig j i p)
  note I = step.IH [unfolded batch_dev_inv_def]
  from B have d: "distinct (final # perQ)" and nz: "0 \<notin> set (final # perQ)"
    by (auto simp: batch_written_def)
  from B obtain bp where bp: "P 0 (te 0) = Some (BarrierAnd bp)" "set (dep_signal bp) - {0} = set perQ"
    "bp_completion bp = final" by (auto simp: batch_written_def)
  show ?case
  proof (cases "j = 0 \<and> i = te 0")
    case True
    with step.hyps bp have p: "p = BarrierAnd bp" by simp
    have "\<forall>k < length perQ. left base te D k = {}"
    proof (intro allI impI)
      fix k assume k: "k < length perQ"
      then have "sig (perQ ! k) = 0"
        using step.hyps p bp(2) by (auto simp: may_finish_def dest: nth_mem)
      with I k show "left base te D k = {}" by (auto simp: card_eq_0_iff)
    qed
    moreover have "finish p sig = sig(final := sig final - 1)" using nz by (simp add: finish_def p bp(3))
    moreover have "perQ ! k \<noteq> final" if "k < length perQ" for k using d that by (auto dest: nth_mem)
    moreover have "(0, te 0) \<notin> D" using step.hyps True by auto
    ultimately show ?thesis using I True left_none [of "length perQ" base te D]
      by (auto simp: batch_dev_inv_def left_insert)
  next
    case False
    with step.hyps have it: "i < te j" by (auto simp: batch_end_def split: if_splits)
    from written_task [OF B step.hyps(2,3) it] step.hyps obtain dp where p: "p = Dispatch dp" "dp_completion dp = perQ ! j" by auto
    have cz: "perQ ! j \<noteq> 0" "perQ ! j \<noteq> final" using d nz nth_mem [OF step.hyps(2)]
      by (metis list.set_intros(2)) (metis d distinct.simps(2) nth_mem step.hyps(2))
    have f: "finish p sig = sig(perQ ! j := sig (perQ ! j) - 1)" using p cz by (simp add: finish_def)
    have il: "i \<in> left base te D j" using step.hyps it by (simp add: left_def)
    have nb: "(0, te 0) \<notin> D"
    proof
      assume "(0, te 0) \<in> D"
      with I have "batch_tasks (length perQ) base te \<subseteq> D" by auto
      with step.hyps it show False by (auto simp: batch_tasks_def)
    qed
    have "finish p sig (perQ ! k) = int (card (left base te (insert (j, i) D) k))" if k: "k < length perQ" for k
    proof (cases "k = j")
      case True
      have "0 < card (left base te D j)" using il by (auto simp: card_gt_0_iff)
      then show ?thesis using True I k il by (simp add: f left_insert of_nat_diff)
    next
      case False
      then have "perQ ! k \<noteq> perQ ! j" using d k step.hyps(2) by (simp add: nth_eq_iff_index_eq)
      then show ?thesis using False I k by (simp add: f left_insert)
    qed
    then show ?thesis using nb I False cz by (auto simp: batch_dev_inv_def f)
  qed
qed

lemma device_progress:
  assumes B: "batch_written A P base te perQ final sig0"
    and dev: "device A P (length perQ) base (batch_end te) sig0 D sig" and wait: "sig final \<noteq> 0"
  shows "\<exists>j i p. j < length perQ \<and> base j \<le> i \<and> i < batch_end te j \<and> (j, i) \<notin> D \<and> P j i = Some p \<and>
    may_finish A P base D sig j i p"
proof -
  from device_inv [OF B dev] have I: "\<forall>j < length perQ. sig (perQ ! j) = int (card (left base te D j))"
    "(0, te 0) \<notin> D" using wait by (auto simp: batch_dev_inv_def split: if_splits)
  from B have n: "0 < length perQ" "base 0 \<le> te 0" by (auto simp: batch_written_def)
  from B obtain bp where bp: "P 0 (te 0) = Some (BarrierAnd bp)" "set (dep_signal bp) - {0} = set perQ"
    by (auto simp: batch_written_def)
  have earlier: "\<not> is_barrier p' \<and> \<not> has_barrier_bit A p'"
    if "j < length perQ" "base j \<le> k" "k < te j" "P j k = Some p'" for j k p'
    using written_task [OF B that(1-3)] that(4) by auto
  show ?thesis
  proof (cases "batch_tasks (length perQ) base te \<subseteq> D")
    case True
    have "\<forall>g \<in> deps (BarrierAnd bp). sig g = 0"
      using True left_none [of "length perQ" base te D] I(1) bp(2) by (auto simp: in_set_conv_nth)
    then have "may_finish A P base D sig 0 (te 0) (BarrierAnd bp)"
      using True earlier n by (auto simp: may_finish_def batch_tasks_def)
    then show ?thesis using bp(1) I(2) n by (intro exI [of _ 0] exI [of _ "te 0"]) (auto simp: batch_end_def)
  next
    case False
    then obtain j i where ji: "j < length perQ" "base j \<le> i" "i < te j" "(j, i) \<notin> D"
      by (auto simp: batch_tasks_def)
    from written_task [OF B ji(1-3)] obtain p where p: "P j i = Some (Dispatch p)" "\<not> has_barrier_bit A (Dispatch p)" by blast
    have "may_finish A P base D sig j i (Dispatch p)"
    proof -
      have "\<forall>k p'. base j \<le> k \<and> k < i \<and> P j k = Some p' \<longrightarrow> \<not> is_barrier p' \<and> \<not> has_barrier_bit A p'"
        using earlier [OF ji(1)] ji(3) by (meson less_trans)
      then show ?thesis unfolding may_finish_def using p(2) by (simp only: deps.simps) blast
    qed
    then show ?thesis using p ji by (intro exI [of _ j] exI [of _ i]) (auto simp: batch_end_def)
  qed
qed

end

