(* ===== verification/Kite.thy ===== *)
theory Kite
  imports HipLaunch HsaState Device
begin

text \<open>
  \<open>SerialHSAexecutor\<close> of \<open>dagee/HSAexecutor.h\<close>: kernel instances of the HIP side dispatched one at a
  time on an HSA queue of its own, or four at a time as a kite, a kernel before two others before
  a last one, with barrier packets in between. What the runtime answers is the argument
  \<open>kite_env\<close>; a wait on a signal is the argument \<open>runs\<close>, the state in which it returns. Its
  \<open>executeDAG\<close> uses members that no class of task graphs has and is left out.
\<close>

unbundle bit_operations_syntax

section \<open>State\<close>

datatype hsa_status = STATUS_SUCCESS | STATUS_INFO_BREAK | STATUS_ERROR

record kite_env =
  k_abi :: hsa_abi
  k_agents :: "nat list"
  k_agent_info :: "nat \<Rightarrow> hsa_status \<times> device_kind"
  k_new_queue :: "nat \<Rightarrow> nat"
  k_regions :: "nat \<Rightarrow> nat list"
  k_is_global :: "nat \<Rightarrow> bool"
  k_is_kernarg :: "nat \<Rightarrow> bool"
  k_region_size :: "nat \<Rightarrow> nat"
  k_memory :: "nat \<Rightarrow> nat"
  k_new_signal :: "nat \<Rightarrow> nat"

text \<open>Signals are handles; \<open>k_live\<close> are those created and not destroyed, \<open>k_made\<close> counts creations.\<close>

record kite_world =
  k_rings :: "nat \<Rightarrow> ring"
  k_sig :: "nat \<Rightarrow> int"
  k_mem :: memory
  k_live :: "nat list"
  k_made :: nat

record kite_exec =
  k_agent :: nat
  k_queue :: nat
  k_region :: nat
  mKernArgSegSize :: nat
  mKernArgHead :: nat
  mKernArgTail :: nat

section \<open>Callbacks of the discovery\<close>

text \<open>The runtime calls a callback until it returns anything but success.\<close>

fun hsa_iterate :: "('x \<Rightarrow> 'd \<Rightarrow> hsa_status \<times> 'd) \<Rightarrow> 'x list \<Rightarrow> 'd \<Rightarrow> hsa_status \<times> 'd" where
  "hsa_iterate f [] d = (STATUS_SUCCESS, d)"
| "hsa_iterate f (x # xs) d = (case f x d of (st, d) \<Rightarrow> if st = STATUS_SUCCESS then hsa_iterate f xs d else (st, d))"

definition get_gpu_agent :: "kite_env \<Rightarrow> nat \<Rightarrow> nat option \<Rightarrow> hsa_status \<times> nat option" where
  "get_gpu_agent E agent data = (case k_agent_info E agent of (status, device_type) \<Rightarrow>
     if status = STATUS_SUCCESS \<and> device_type = DeviceGPU then (STATUS_INFO_BREAK, Some agent) else (STATUS_SUCCESS, data))"

definition get_kernarg_memory_region :: "kite_env \<Rightarrow> nat \<Rightarrow> nat \<Rightarrow> hsa_status \<times> nat" where
  "get_kernarg_memory_region E region data =
    (if \<not> k_is_global E region then (STATUS_SUCCESS, data)
     else if k_is_kernarg E region then (STATUS_INFO_BREAK, region) else (STATUS_SUCCESS, data))"

text \<open>
  \<open>init\<close>: a failed check only prints, so without a GPU the agent is never written; without a
  region the handle of no region is used. The size of the region, which the runtime writes as a
  64-bit value over a 32-bit variable, is taken for its low half.
\<close>

definition kite_init :: "kite_env \<Rightarrow> kite_exec res" where
  "kite_init E = (case snd (hsa_iterate (get_gpu_agent E) (k_agents E) None) of
     None \<Rightarrow> Inl (Undefined ''agent'')
   | Some agent \<Rightarrow>
       let queue = k_new_queue E agent;
           kernarg_region = snd (hsa_iterate (get_kernarg_memory_region E) (k_regions E agent) (2 ^ 64 - 1));
           kernarg_address = k_memory E kernarg_region
       in Inr \<lparr>k_agent = agent, k_queue = queue, k_region = kernarg_region,
         mKernArgSegSize = k_region_size E kernarg_region mod 2 ^ 32,
         mKernArgHead = kernarg_address, mKernArgTail = kernarg_address\<rparr>)"

section \<open>Packets\<close>

definition hsaPacketHeader :: "hsa_abi \<Rightarrow> PacketKind \<Rightarrow> 16 word" where
  "hsaPacketHeader A type =
    (let header = or_shifted (kind_code A type) (HEADER_TYPE A) 0;
         header = or_shifted (scope_code A SCOPE_SYSTEM) (HEADER_SCACQUIRE A) header;
         header = or_shifted (scope_code A SCOPE_SYSTEM) (HEADER_SCRELEASE A) header
     in header)"

definition kernel_dispatch_setup :: "hsa_abi \<Rightarrow> 16 word" where
  "kernel_dispatch_setup A = ucast (push_bit (SETUP_DIMENSIONS A) 3 :: 32 word)"

text \<open>The 32-bit store to the first two fields of a packet.\<close>

definition packet_store_release :: "16 word \<Rightarrow> 16 word \<Rightarrow> 16 word \<times> 16 word" where
  "packet_store_release header rest =
    (let v = ucast header OR push_bit 16 (ucast rest) :: 32 word in (ucast v, ucast (drop_bit 16 v)))"

definition signal_create :: "kite_env \<Rightarrow> int \<Rightarrow> kite_world \<Rightarrow> nat \<times> kite_world" where
  "signal_create E v w = (let g = k_new_signal E (k_made w) in
     (g, w\<lparr>k_sig := (k_sig w)(g := v), k_live := g # k_live w, k_made := Suc (k_made w)\<rparr>))"

definition signal_destroy :: "nat \<Rightarrow> kite_world \<Rightarrow> kite_world" where
  "signal_destroy g w = w\<lparr>k_live := remove1 g (k_live w)\<rparr>"

definition initDispatchPacket :: "kite_env \<Rightarrow> hip_instance \<Rightarrow> nat \<Rightarrow> kite_world \<Rightarrow> dispatch_pkt \<times> kite_world" where
  "initDispatchPacket E ki argPtr w =
    (case (hi_blocks ki, hi_threads ki) of ((bx, b_y, bz), (tx, ty, tz)) \<Rightarrow>
     let pkt = zero_dispatch\<lparr>workgroup_size := (ucast tx, ucast ty, ucast tz),
           dp_grid_size := (bx * tx, b_y * ty, bz * tz), kernel_object := codeObjAddr (hi_info ki)\<rparr>;
         (g, w) = signal_create E 1 w;
         pkt = pkt\<lparr>dp_completion := g, kernarg_address := argPtr,
           private_segment_size := of_nat (privateSegmentSize (hi_info ki)),
           group_segment_size := of_nat (groupSegmentSize (hi_info ki))\<rparr>;
         (h, s) = packet_store_release (hsaPacketHeader (k_abi E) KERNEL_DISPATCH) (kernel_dispatch_setup (k_abi E))
     in (pkt\<lparr>dp_header := h, dp_setup := s\<rparr>, w))"

definition initBarrierPacket :: "hsa_abi \<Rightarrow> barrier_pkt" where
  "initBarrierPacket A = (case packet_store_release (hsaPacketHeader A BARRIER_AND) 0 of
     (h, s) \<Rightarrow> zero_barrier\<lparr>bp_header := h, bp_reserved := s\<rparr>)"

section \<open>SerialHSAexecutor\<close>

type_synonym kite_state = "kite_exec \<times> kite_world"

text \<open>The argument buffer has no check: writing past its end is undefined.\<close>

definition initArgs :: "hip_instance \<Rightarrow> kite_state \<Rightarrow> (nat \<times> kite_state) res" where
  "initArgs ki = (\<lambda>(x, w). let n = length (hi_args ki) in
    if mKernArgTail x + n \<le> mKernArgHead x + mKernArgSegSize x
    then Inr (mKernArgTail x, x\<lparr>mKernArgTail := mKernArgTail x + n\<rparr>,
      w\<lparr>k_mem := write_bytes (k_mem w) (mKernArgTail x) (hi_args ki)\<rparr>)
    else Inl (Undefined ''write past the kernel argument buffer''))"

definition freeArgs :: "hip_instance \<Rightarrow> kite_exec \<Rightarrow> kite_exec" where
  "freeArgs ki x = x\<lparr>mKernArgTail := mKernArgTail x - length (hi_args ki)\<rparr>"

definition kite_ring :: "kite_state \<Rightarrow> ring" where
  "kite_ring = (\<lambda>(x, w). k_rings w (k_queue x))"

definition on_queue :: "(ring \<Rightarrow> ring) \<Rightarrow> kite_state \<Rightarrow> kite_state" where
  "on_queue f = (\<lambda>(x, w). (x, w\<lparr>k_rings := (k_rings w)(k_queue x := f (k_rings w (k_queue x)))\<rparr>))"

definition getPacketAddr :: "nat \<Rightarrow> ring \<Rightarrow> nat" where
  "getPacketAddr index r = (let qMask = size_sub (ring_size r) 1 in index AND qMask)"

definition store_packet :: "nat \<Rightarrow> packet \<Rightarrow> kite_state \<Rightarrow> kite_state" where
  "store_packet slot p = on_queue (\<lambda>r. r\<lparr>ring_slots := (ring_slots r)(slot := Some p)\<rparr>)"

definition put_dispatch :: "kite_env \<Rightarrow> nat \<Rightarrow> hip_instance \<Rightarrow> kite_state \<Rightarrow> kite_state res" where
  "put_dispatch E slot ki st = rbind (initArgs ki st) (\<lambda>(argPtr, x, w).
     case initDispatchPacket E ki argPtr w of (pkt, w) \<Rightarrow> Inr (store_packet slot (Dispatch pkt) (x, w)))"

text \<open>The completion signal of a packet, read through the pointer to its slot.\<close>

definition completion_at :: "nat \<Rightarrow> kite_state \<Rightarrow> nat res" where
  "completion_at slot st = (case ring_slots (kite_ring st) slot of
     None \<Rightarrow> Inl (Undefined ''completion_signal'') | Some p \<Rightarrow> Inr (completion p))"

definition set_dep :: "nat \<Rightarrow> nat \<Rightarrow> nat \<Rightarrow> kite_state \<Rightarrow> kite_state res" where
  "set_dep slot i g st = (case ring_slots (kite_ring st) slot of
     Some (BarrierAnd p) \<Rightarrow> Inr (store_packet slot (BarrierAnd (p\<lparr>dep_signal := (dep_signal p)[i := g]\<rparr>)) st)
   | _ \<Rightarrow> Inl (Undefined ''dep_signal''))"

definition take_dispatch :: "nat \<Rightarrow> hip_instance \<Rightarrow> kite_state \<Rightarrow> kite_state res" where
  "take_dispatch slot ki st = rbind (completion_at slot st) (\<lambda>g.
     case st of (x, w) \<Rightarrow> Inr (freeArgs ki x, signal_destroy g w))"

definition store_write_index :: "nat \<Rightarrow> kite_state \<Rightarrow> kite_state" where
  "store_write_index i = on_queue (write_index_update (\<lambda>_. i))"

definition ring_doorbell :: "nat \<Rightarrow> kite_state \<Rightarrow> kite_state" where
  "ring_doorbell i = on_queue (doorbell_update (\<lambda>_. i))"

definition dispatch :: "kite_env \<Rightarrow> (nat \<Rightarrow> kite_state \<Rightarrow> kite_state option) \<Rightarrow> hip_instance \<Rightarrow> kite_state \<Rightarrow>
    kite_state res option" where
  "dispatch E runs ki st =
    (let index = write_index (kite_ring st); slot = getPacketAddr index (kite_ring st) in
     obind (Some (put_dispatch E slot ki st)) (\<lambda>st.
     let st = ring_doorbell index (store_write_index (index + 1) st) in
     obind (Some (completion_at slot st)) (\<lambda>g.
     case runs g st of None \<Rightarrow> None | Some st \<Rightarrow> Some (take_dispatch slot ki st))))"

text \<open>\<open>dispatchKiteDAG\<close> up to its wait: the packets are written and the device is told.\<close>

definition kite_submit :: "kite_env \<Rightarrow> hip_instance \<Rightarrow> hip_instance \<Rightarrow> hip_instance \<Rightarrow> hip_instance \<Rightarrow>
    kite_state \<Rightarrow> kite_state res" where
  "kite_submit E topKi leftKi rightKi bottomKi st =
    (let r = kite_ring st; index = write_index r;
         topPkt = getPacketAddr index r; topBarrierPkt = getPacketAddr (index + 1) r;
         leftPkt = getPacketAddr (index + 2) r; rightPkt = getPacketAddr (index + 3) r;
         bottomBarrierPkt = getPacketAddr (index + 4) r; bottomPkt = getPacketAddr (index + 5) r in
     rbind (check (ring_size r > 6) ''mQueue->size > 6'') (\<lambda>_.
     rbind (put_dispatch E topPkt topKi st) (\<lambda>st.
     rbind (put_dispatch E leftPkt leftKi st) (\<lambda>st.
     rbind (put_dispatch E rightPkt rightKi st) (\<lambda>st.
     rbind (put_dispatch E bottomPkt bottomKi st) (\<lambda>st.
     let st = store_packet topBarrierPkt (BarrierAnd (initBarrierPacket (k_abi E))) st;
         st = store_packet bottomBarrierPkt (BarrierAnd (initBarrierPacket (k_abi E))) st in
     rbind (completion_at topPkt st) (\<lambda>g. rbind (set_dep topBarrierPkt 0 g st) (\<lambda>st.
     rbind (completion_at leftPkt st) (\<lambda>g. rbind (set_dep bottomBarrierPkt 0 g st) (\<lambda>st.
     rbind (completion_at rightPkt st) (\<lambda>g. rbind (set_dep bottomBarrierPkt 1 g st) (\<lambda>st.
     let st = store_write_index (write_index (kite_ring st) + 6) st in
     Inr (ring_doorbell (index + 5) (ring_doorbell (index + 3) (ring_doorbell (index + 2) (ring_doorbell index st))))))))))))))))"

text \<open>After the wait.\<close>

definition kite_release :: "nat \<Rightarrow> hip_instance \<Rightarrow> hip_instance \<Rightarrow> hip_instance \<Rightarrow> hip_instance \<Rightarrow>
    kite_state \<Rightarrow> kite_state res" where
  "kite_release index topKi leftKi rightKi bottomKi st =
    (let r = kite_ring st in
     rbind (take_dispatch (getPacketAddr (index + 5) r) bottomKi st) (\<lambda>st.
     rbind (take_dispatch (getPacketAddr (index + 3) r) rightKi st) (\<lambda>st.
     rbind (take_dispatch (getPacketAddr (index + 2) r) leftKi st) (\<lambda>st.
     take_dispatch (getPacketAddr index r) topKi st))))"

definition dispatchKiteDAG :: "kite_env \<Rightarrow> (nat \<Rightarrow> kite_state \<Rightarrow> kite_state option) \<Rightarrow> hip_instance \<Rightarrow> hip_instance \<Rightarrow>
    hip_instance \<Rightarrow> hip_instance \<Rightarrow> kite_state \<Rightarrow> kite_state res option" where
  "dispatchKiteDAG E runs topKi leftKi rightKi bottomKi st =
    (let index = write_index (kite_ring st) in
     obind (Some (kite_submit E topKi leftKi rightKi bottomKi st)) (\<lambda>st.
     obind (Some (completion_at (getPacketAddr (index + 5) (kite_ring st)) st)) (\<lambda>g.
     case runs g st of None \<Rightarrow> None | Some st \<Rightarrow> Some (kite_release index topKi leftKi rightKi bottomKi st))))"

section \<open>Headers\<close>

lemma or_shifted_0: "or_shifted 0 sh v = v"
  by (simp add: or_shifted_def)

text \<open>The headers are those of the HSA back end of the library, without the barrier bit.\<close>

lemma hsaPacketHeader_eq: "hsaPacketHeader A k = PacketHeader A k SCOPE_SYSTEM BARRIER_DISABLE"
  by (simp add: hsaPacketHeader_def PacketHeader_def setBarrierBit_def setScope_def setKind_def or_shifted_0 Let_def)

lemma packet_store_eq: "packet_store_release header rest = (header, rest)"
proof -
  have "ucast (ucast header OR push_bit 16 (ucast rest) :: 32 word) = header"
    by (rule bit_word_eqI) (auto simp: bit_simps)
  moreover have "ucast (drop_bit 16 (ucast header OR push_bit 16 (ucast rest) :: 32 word)) = rest"
    by (rule bit_word_eqI) (auto simp: bit_simps dest: bit_imp_le_length)
  ultimately show ?thesis by (simp add: packet_store_release_def)
qed

text \<open>The discovery finds the first GPU and its first region for kernel arguments.\<close>

lemma iterate_gpu: "snd (hsa_iterate (get_gpu_agent E) as None) =
    find (\<lambda>a. k_agent_info E a = (STATUS_SUCCESS, DeviceGPU)) as"
  by (induction as) (auto simp: get_gpu_agent_def split: prod.splits)

lemma iterate_region: "snd (hsa_iterate (get_kernarg_memory_region E) rs d) =
    (case find (\<lambda>r. k_is_global E r \<and> k_is_kernarg E r) rs of None \<Rightarrow> d | Some r \<Rightarrow> r)"
  by (induction rs) (auto simp: get_kernarg_memory_region_def)

lemma kite_init_eq: "kite_init E = (case find (\<lambda>a. k_agent_info E a = (STATUS_SUCCESS, DeviceGPU)) (k_agents E) of
     None \<Rightarrow> Inl (Undefined ''agent'')
   | Some agent \<Rightarrow> (let r = (case find (\<lambda>r. k_is_global E r \<and> k_is_kernarg E r) (k_regions E agent) of
         None \<Rightarrow> 2 ^ 64 - 1 | Some r \<Rightarrow> r) in
       Inr \<lparr>k_agent = agent, k_queue = k_new_queue E agent, k_region = r, mKernArgSegSize = k_region_size E r mod 2 ^ 32,
         mKernArgHead = k_memory E r, mKernArgTail = k_memory E r\<rparr>))"
  unfolding kite_init_def iterate_gpu iterate_region by (simp add: Let_def split: option.split)

subsection \<open>Shutdown\<close>

datatype kite_call = MemoryFree nat | QueueDestroy nat | HsaShutDown

definition kite_shutdown :: "kite_exec \<Rightarrow> kite_call list" where
  "kite_shutdown x = [MemoryFree (mKernArgHead x), QueueDestroy (k_queue x), HsaShutDown]"

text \<open>It gives back the buffer and the queue that \<open>init\<close> obtained: no dispatch moves the head of the buffer.\<close>

lemma kite_shutdown_returns:
  "kite_init E = Inr x \<Longrightarrow> kite_shutdown (freeArgs ki x) =
     [MemoryFree (k_memory E (k_region x)), QueueDestroy (k_new_queue E (k_agent x)), HsaShutDown]"
  by (auto simp: kite_init_def kite_shutdown_def freeArgs_def Let_def split: option.splits)

end
