(* ===== verification/Batch.thy ===== *)
theory Batch
  imports Device
begin

text \<open>
  A batch of \<open>SerialUnorderedExecutor\<close> from \<open>startBatch\<close> to \<open>launchBatch\<close>: what it leaves in the queues
  and signals, and that the final signal reaches 0 exactly when every task of the batch has
  finished.
\<close>

section \<open>Fresh signals\<close>

definition sig_pool :: "hsa_world \<Rightarrow> nat pool" where
  "sig_pool w = mUserSignalPool (spools w)"

text \<open>
  The runtime returns a new handle each time, never the null one; the signals in the pool, and those
  still to be created, have the value 1.
\<close>

definition signals_ok :: "hsa_env \<Rightarrow> hsa_world \<Rightarrow> bool" where
  "signals_ok E w \<longleftrightarrow> inj (new_signal E) \<and> 0 \<notin> range (new_signal E) \<and> distinct (mResPool (sig_pool w)) \<and>
     set (mResPool (sig_pool w)) \<subseteq> new_signal E ` {..<mCreated (sig_pool w)} \<and>
     (\<forall>g \<in> set (mResPool (sig_pool w)) \<union> new_signal E ` {mCreated (sig_pool w)..}. sig_val w g = 1)"

text \<open>The signals \<open>G\<close> are out of the pool.\<close>

definition taken :: "hsa_env \<Rightarrow> nat set \<Rightarrow> hsa_world \<Rightarrow> bool" where
  "taken E G w \<longleftrightarrow> G \<inter> set (mResPool (sig_pool w)) = {} \<and> G \<subseteq> new_signal E ` {..<mCreated (sig_pool w)}"

lemma pool_with_signal:
  fixes E :: hsa_env and w :: hsa_world
  defines "p \<equiv> sig_pool w" and "c \<equiv> new_signal E"
  assumes ok: "signals_ok E w" and G: "taken E G w"
  shows "\<exists>q. (if mResPool p = [] then pool_replenish c USER_SIGNAL_POOL_BATCH_SIZE p else Inr p) = Inr q \<and>
    distinct (mResPool q) \<and> mResPool q \<noteq> [] \<and> set (mResPool q) \<subseteq> c ` {..<mCreated q} \<and>
    mCreated p \<le> mCreated q \<and> set (mResPool q) \<inter> G = {} \<and>
    (\<forall>g \<in> set (mResPool q) \<union> c ` {mCreated q..}. sig_val w g = 1)"
proof (cases "mResPool p = []")
  case True
  let ?B = "USER_SIGNAL_POOL_BATCH_SIZE"
  let ?new = "map c [mCreated p..<mCreated p + ?B]"
  let ?q = "p\<lparr>mResPool := ?new, mCreated := mCreated p + ?B\<rparr>"
  have inj: "inj c" and one: "\<forall>g \<in> c ` {mCreated p..}. sig_val w g = 1"
    using ok by (auto simp: signals_ok_def p_def c_def)
  have new: "set ?new = c ` {mCreated p..<mCreated p + ?B}" by simp
  have "distinct ?new" using inj by (simp add: distinct_map inj_on_subset [OF _ subset_UNIV])
  moreover have "?new \<noteq> []" by (simp add: USER_SIGNAL_POOL_BATCH_SIZE_def)
  moreover have "set ?new \<subseteq> c ` {..<mCreated p + ?B}" unfolding new by (intro image_mono) auto
  moreover have "set ?new \<inter> G = {}"
  proof -
    have "{mCreated p..<mCreated p + ?B} \<inter> {..<mCreated p} = {}" by auto
    then have "c ` {mCreated p..<mCreated p + ?B} \<inter> c ` {..<mCreated p} = {}"
      by (simp only: image_Int [OF inj, symmetric] image_empty)
    moreover have "G \<subseteq> c ` {..<mCreated p}" using G by (simp add: taken_def p_def c_def)
    ultimately show ?thesis unfolding new by blast
  qed
  moreover have "\<forall>g \<in> set ?new \<union> c ` {mCreated p + ?B..}. sig_val w g = 1"
    using one unfolding new by auto
  ultimately show ?thesis using True by (intro exI [of _ ?q]) (simp add: replenish_empty del: set_map)
next
  case False
  then show ?thesis using ok G unfolding signals_ok_def taken_def p_def c_def by auto
qed

lemma takeSignal_ok:
  assumes ok: "signals_ok E w" and G: "taken E G w"
  shows "\<exists>g w'. takeSignal E w = Inr (g, w') \<and> signals_ok E w' \<and> taken E (insert g G) w' \<and> g \<notin> G \<and> g \<noteq> 0 \<and>
    sig_val w g = 1 \<and> w' = w\<lparr>spools := spools w'\<rparr>"
proof -
  let ?c = "new_signal E"
  obtain q where q: "(if mResPool (sig_pool w) = [] then pool_replenish ?c USER_SIGNAL_POOL_BATCH_SIZE (sig_pool w)
      else Inr (sig_pool w)) = Inr q"
    "distinct (mResPool q)" "mResPool q \<noteq> []" "set (mResPool q) \<subseteq> ?c ` {..<mCreated q}"
    "mCreated (sig_pool w) \<le> mCreated q" "set (mResPool q) \<inter> G = {}"
    "\<forall>g \<in> set (mResPool q) \<union> ?c ` {mCreated q..}. sig_val w g = 1"
    using pool_with_signal [OF assms] by blast
  let ?g = "last (mResPool q)" and ?q = "q\<lparr>mResPool := butlast (mResPool q)\<rparr>"
  let ?w = "w\<lparr>spools := (spools w)\<lparr>mUserSignalPool := ?q\<rparr>\<rparr>"
  have "pool_allocate ?c USER_SIGNAL_POOL_BATCH_SIZE (sig_pool w) = Inr (?g, ?q)"
    unfolding pool_allocate_def q(1) using q(3) by simp
  then have t: "takeSignal E w = Inr (?g, ?w)"
    by (simp add: takeSignal_def takeUserSignal_def sig_pool_def)
  have g: "?g \<in> set (mResPool q)" "?g \<notin> set (butlast (mResPool q))"
    using q(2,3) distinct_butlast_last by auto
  have sub: "set (butlast (mResPool q)) \<subseteq> set (mResPool q)" by (auto dest: in_set_butlastD)
  have inj: "inj ?c" "0 \<notin> range ?c" using ok by (auto simp: signals_ok_def)
  have "signals_ok E ?w"
    using inj q(2,4,7) sub by (auto simp: signals_ok_def sig_pool_def distinct_butlast)
  moreover have "?c ` {..<mCreated (sig_pool w)} \<subseteq> ?c ` {..<mCreated q}" using q(5) by (intro image_mono) auto
  then have "taken E (insert ?g G) ?w"
    using G g q(4,6) sub unfolding taken_def by (auto simp: sig_pool_def)
  moreover have "?g \<notin> G" "sig_val w ?g = 1" using g(1) q(6,7) by auto
  moreover have "?g \<noteq> 0" using g(1) q(4) inj(2) by force
  ultimately show ?thesis using t by (intro exI [of _ ?g] exI [of _ ?w]) simp
qed

text \<open>The loop of \<open>startBatch\<close> that takes one signal for each queue.\<close>

lemma takeSignals_ok:
  assumes "signals_ok E w"
  shows "\<exists>gs w'. for_each (\<lambda>i (gs, w). rbind (takeSignal E w) (\<lambda>(g, w). Inr (gs @ [g], w))) [0..<n] ([], w) =
      Inr (gs, w') \<and> length gs = n \<and> distinct gs \<and> 0 \<notin> set gs \<and> signals_ok E w' \<and> taken E (set gs) w' \<and>
      w' = w\<lparr>spools := spools w'\<rparr>"
proof -
  let ?f = "\<lambda>(i :: nat) (gs, w). rbind (takeSignal E w) (\<lambda>(g, w). Inr (gs @ [g], w))"
  have "\<exists>st. for_each ?f [0..<n] ([], w) = Inr st \<and> (case st of (gs, w') \<Rightarrow> length gs = length [0..<n] \<and> distinct gs \<and>
      0 \<notin> set gs \<and> signals_ok E w' \<and> taken E (set gs) w' \<and> w' = w\<lparr>spools := spools w'\<rparr>)"
  proof (rule for_each_rule)
    fix ys zs :: "nat list" and y :: nat and st
    assume "case st of (gs, w') \<Rightarrow> length gs = length ys \<and> distinct gs \<and>
      0 \<notin> set gs \<and> signals_ok E w' \<and> taken E (set gs) w' \<and> w' = w\<lparr>spools := spools w'\<rparr>"
    then obtain gs v where st: "st = (gs, v)" "length gs = length ys" "distinct gs" "0 \<notin> set gs" "signals_ok E v"
        "taken E (set gs) v" "v = w\<lparr>spools := spools v\<rparr>" by (cases st) auto
    from takeSignal_ok [OF st(5,6)] obtain g v' where t: "takeSignal E v = Inr (g, v')" "signals_ok E v'"
        "taken E (insert g (set gs)) v'" "g \<notin> set gs" "g \<noteq> 0" "v' = v\<lparr>spools := spools v'\<rparr>" by blast
    have "v' = w\<lparr>spools := spools v'\<rparr>"
      by (subst t(6), subst st(7)) simp
    then show "\<exists>t'. ?f y st = Inr t' \<and> (case t' of (gs, w') \<Rightarrow> length gs = length (ys @ [y]) \<and> distinct gs \<and>
        0 \<notin> set gs \<and> signals_ok E w' \<and> taken E (set gs) w' \<and> w' = w\<lparr>spools := spools w'\<rparr>)"
      using st t by simp
  qed (use assms in \<open>simp add: taken_def\<close>)
  then show ?thesis by auto
qed

lemma fold_signal_store: "fold (\<lambda>g. signal_store g 0) gs w =
    w\<lparr>sig_val := (\<lambda>h. if h \<in> set gs then 0 else sig_val w h)\<rparr>"
  by (induction gs arbitrary: w) (auto simp: signal_store_def fun_eq_iff)

lemma startBatch_ok:
  assumes ok: "signals_ok E w"
  shows "\<exists>b w'. startBatch E x w = Inr (b, w') \<and> length (mPerQcompSig b) = mNumQueues x \<and>
    distinct (mFinalSig b # mPerQcompSig b) \<and> 0 \<notin> set (mFinalSig b # mPerQcompSig b) \<and> signals_ok E w' \<and>
    (\<forall>g \<in> set (mPerQcompSig b). sig_val w' g = 0) \<and> sig_val w' (mFinalSig b) = 1 \<and>
    taken E (set (mFinalSig b # mPerQcompSig b)) w' \<and> rings w' = rings w"
proof -
  from takeSignals_ok [OF ok, of "mNumQueues x"] obtain gs v where
    gs: "for_each (\<lambda>i (gs, w). rbind (takeSignal E w) (\<lambda>(g, w). Inr (gs @ [g], w))) [0..<mNumQueues x] ([], w) =
      Inr (gs, v)" "length gs = mNumQueues x" "distinct gs" "0 \<notin> set gs" "signals_ok E v" "taken E (set gs) v"
      "v = w\<lparr>spools := spools v\<rparr>" by blast
  from takeSignal_ok [OF gs(5,6)] obtain f u where f: "takeSignal E v = Inr (f, u)" "signals_ok E u"
      "taken E (insert f (set gs)) u" "f \<notin> set gs" "f \<noteq> 0" "sig_val v f = 1" "u = v\<lparr>spools := spools u\<rparr>" by blast
  let ?w = "u\<lparr>sig_val := (\<lambda>h. if h \<in> set gs then 0 else sig_val u h)\<rparr>"
  have "sig_val u = sig_val v" "rings u = rings v" by (subst f(7), simp)+
  moreover have "rings v = rings w" by (subst gs(7), simp)
  ultimately have r: "rings ?w = rings w" "sig_val ?w f = 1" using f(4,6) by simp_all
  have p: "sig_pool ?w = sig_pool u" by (simp add: sig_pool_def)
  have t: "taken E (insert f (set gs)) ?w" using f(3) by (simp add: taken_def p)
  have "set gs \<inter> (set (mResPool (sig_pool u)) \<union> new_signal E ` {mCreated (sig_pool u)..}) = {}"
  proof -
    have inj: "inj (new_signal E)" using f(2) by (simp add: signals_ok_def)
    have "{..<mCreated (sig_pool u)} \<inter> {mCreated (sig_pool u)..} = {}" by auto
    then have "new_signal E ` {..<mCreated (sig_pool u)} \<inter> new_signal E ` {mCreated (sig_pool u)..} = {}"
      by (simp only: image_Int [OF inj, symmetric] image_empty)
    then show ?thesis using f(3) unfolding taken_def by blast
  qed
  then have "signals_ok E ?w" using f(2) unfolding signals_ok_def p by auto
  moreover have "startBatch E x w = Inr (\<lparr>mPerQcompSig = gs, mFinalSig = f\<rparr>, ?w)"
    using gs(1,2) f(1) by (simp add: startBatch_def fold_signal_store)
  ultimately show ?thesis using gs(2,3,4) f(4,5) t r
    by (intro exI [of _ "\<lparr>mPerQcompSig = gs, mFinalSig = f\<rparr>"] exI [of _ ?w]) simp
qed

section \<open>Writing packets\<close>

abbreviation wix :: "hsa_world \<Rightarrow> nat \<Rightarrow> nat" where
  "wix w q \<equiv> write_index (rings w q)"

definition pkt_at :: "hsa_world \<Rightarrow> nat \<Rightarrow> nat \<Rightarrow> packet option" where
  "pkt_at w q i = ring_slots (rings w q) (i mod ring_size (rings w q))"

definition wrote :: "packet \<Rightarrow> nat \<Rightarrow> hsa_world \<Rightarrow> hsa_world \<Rightarrow> bool" where
  "wrote p q w w' \<longleftrightarrow> sig_val w' = sig_val w \<and> spools w' = spools w \<and>
     rings w' = (rings w)(q := (rings w q)\<lparr>write_index := Suc (wix w q),
       ring_slots := (ring_slots (rings w q))(wix w q mod ring_size (rings w q) \<mapsto> p)\<rparr>)"

lemma put_gave_wrote:
  "wrote p (mHsaQueue d) w (put_packet (mHsaQueue d) (wix w (mHsaQueue d) mod dq_size d w) p (gave d n w))"
  by (simp add: wrote_def put_packet_def gave_def on_ring_def dq_size_def)

lemma addTaskToQ_wrote:
  assumes "ring_ok (rings w (mHsaQueue d))" "addTaskToQ E s d ki header sig w = Some (Inr (d', w'))"
  shows "\<exists>p. init_instance (abi E) header s ki sig = Inr p \<and> mHsaQueue d' = mHsaQueue d \<and>
    wrote (Dispatch p) (mHsaQueue d) w w'"
  using assms(2) put_gave_wrote
  by (auto simp: addTaskToQ_def giveOneSlot_eq [OF assms(1)] rbind_eq_Inr split: option.splits)

lemma addBarrier_wrote:
  assumes "ring_ok (rings w (mHsaQueue d))" "addBarrier E scope c preds n d w = Some (Inr (d', w'))"
  shows "\<exists>p. init_barrier (PacketHeader (abi E) BARRIER_AND scope BARRIER_ENABLE) c preds n = Inr p \<and>
    mHsaQueue d' = mHsaQueue d \<and> wrote (BarrierAnd p) (mHsaQueue d) w w'"
  using assms(2) put_gave_wrote
  by (auto simp: addBarrier_def giveOneSlot_eq [OF assms(1)] rbind_eq_Inr split: option.splits)

lemma wrote_simps:
  assumes "wrote p q w w'"
  shows "ring_size (rings w' r) = ring_size (rings w r)" "ring_ok (rings w' r) = ring_ok (rings w r)"
    "wix w' r = (if r = q then Suc (wix w q) else wix w r)" "sig_val w' = sig_val w"
    "pkt_at w' r i = (if r = q \<and> i mod ring_size (rings w q) = wix w q mod ring_size (rings w q) then Some p
      else pkt_at w r i)"
  using assms by (auto simp: wrote_def ring_ok_def pkt_at_def)

text \<open>A packet that is less than a ring behind is left alone.\<close>

lemma mod_apart: "i < k \<Longrightarrow> k < i + m \<Longrightarrow> i mod m \<noteq> k mod (m :: nat)"
proof
  assume a: "i < k" "k < i + m" "i mod m = k mod m"
  then have "m dvd k - i" by (metis less_imp_le_nat mod_eq_dvd_iff_nat)
  with a(1) have "m \<le> k - i" by (simp add: dvd_imp_le)
  with a(1,2) show False by simp
qed

lemma wrote_keeps:
  assumes "wrote p q w w'" "i < wix w r" "wix w r < i + ring_size (rings w r)"
  shows "pkt_at w' r i = pkt_at w r i"
  using mod_apart [OF assms(2,3)] by (auto simp: wrote_simps(5) [OF assms(1)])

lemma wrote_here:
  assumes "wrote p q w w'"
  shows "pkt_at w' q (wix w q) = Some p"
  by (simp add: wrote_simps(5) [OF assms])

lemma init_instance_fields:
  "init_instance A header s ki sig = Inr p \<Longrightarrow> dp_header p = header \<and> dp_completion p = sig"
  by (cases "ki_blocks ki"; cases "ki_threads ki")
    (auto simp: init_instance_def init_dispatch_def rbind_eq_Inr updateHeader_zero Let_def zero_dispatch_def)

section \<open>Adding to a batch\<close>

lemma nextQid_loop_Inr:
  "nextQid_loop E n qs cur w = Some r \<Longrightarrow> \<forall>c w'. r = Inr (c, w') \<longrightarrow> c < n \<and> c < length qs \<and> (\<exists>k. w' = w\<lparr>loads := k\<rparr>)"
proof (erule nextQid_loop.raw_induct [where P = "\<lambda>E n qs cur w r. \<forall>c w'. r = Inr (c, w') \<longrightarrow>
    c < n \<and> c < length qs \<and> (\<exists>k. w' = w\<lparr>loads := k\<rparr>)", rotated])
  fix nextQid_loop :: "hsa_env \<Rightarrow> nat \<Rightarrow> dispq list \<Rightarrow> nat \<Rightarrow> hsa_world \<Rightarrow> (nat \<times> hsa_world) res option"
    and E n qs cur w r
  let ?c = "Suc cur mod n"
  assume IH: "\<And>E n qs cur w r. nextQid_loop E n qs cur w = Some r \<Longrightarrow>
      \<forall>c w'. r = Inr (c, w') \<longrightarrow> c < n \<and> c < length qs \<and> (\<exists>k. w' = w\<lparr>loads := k\<rparr>)"
    and s: "(if n = 0 then Some (Inl (Undefined ''modulus by zero''))
     else if length qs \<le> ?c then Some (Inl (Undefined ''read past the end of mQueues''))
     else case dq_full E (qs ! ?c) w of (b, w') \<Rightarrow>
       if b then nextQid_loop E n qs ?c w' else Some (Inr (?c, w'))) = Some r"
  show "\<forall>c w'. r = Inr (c, w') \<longrightarrow> c < n \<and> c < length qs \<and> (\<exists>k. w' = w\<lparr>loads := k\<rparr>)"
  proof (intro allI impI)
    fix c w' assume r: "r = Inr (c, w')"
    with s have g: "0 < n" "?c < length qs" by (auto split: if_splits)
    obtain b where f: "dq_full E (qs ! ?c) w = (b, w\<lparr>loads := Suc (loads w)\<rparr>)" by (simp add: dq_full_eq)
    show "c < n \<and> c < length qs \<and> (\<exists>k. w' = w\<lparr>loads := k\<rparr>)"
    proof (cases b)
      case True
      with s g f r have "nextQid_loop E n qs ?c (w\<lparr>loads := Suc (loads w)\<rparr>) = Some (Inr (c, w'))" by simp
      from IH [OF this] show ?thesis by force
    next
      case False
      with s g f r show ?thesis by auto
    qed
  qed
qed

lemma nextQid_Inr:
  assumes "nextQid E (x, w) = Some (Inr (c, x', w'))"
  shows "c < mNumQueues x \<and> c < length (mQueues x) \<and> x' = x\<lparr>mCurrQid := c\<rparr> \<and> (\<exists>k. w' = w\<lparr>loads := k\<rparr>)"
  using assms nextQid_loop_Inr
  by (fastforce simp: nextQid_def obind_eq_Inr rbind_eq_Inr check_eq_Inr)

text \<open>
  The invariant of a batch that is being filled: \<open>Q\<close> holds the handles of the queues, \<open>base\<close> their
  write indices when the batch began, and \<open>pl\<close> the queue and index of each task added so far. The
  packets are in place as long as no queue has taken more of them than its ring holds.
\<close>

definition task_header :: "hsa_env \<Rightarrow> 16 word" where
  "task_header E = PacketHeader (abi E) KERNEL_DISPATCH SCOPE_AGENT BARRIER_DISABLE"

definition fits :: "nat list \<Rightarrow> (nat \<Rightarrow> nat) \<Rightarrow> hsa_world \<Rightarrow> bool" where
  "fits Q base w \<longleftrightarrow> (\<forall>j < length Q. wix w (Q ! j) \<le> base j + ring_size (rings w (Q ! j)))"

definition placed :: "hsa_env \<Rightarrow> kern_state \<Rightarrow> batch_state \<Rightarrow> nat list \<Rightarrow> kern_instance \<Rightarrow> nat \<times> nat \<Rightarrow>
    hsa_world \<Rightarrow> bool" where
  "placed E s b Q ki = (\<lambda>(j, i) w. \<exists>p. init_instance (abi E) (task_header E) s ki (mPerQcompSig b ! j) = Inr p \<and>
     pkt_at w (Q ! j) i = Some (Dispatch p))"

definition filling :: "hsa_env \<Rightarrow> kern_state \<Rightarrow> batch_state \<Rightarrow> nat list \<Rightarrow> (nat \<Rightarrow> nat) \<Rightarrow> kern_instance list \<Rightarrow>
    (nat \<times> nat) list \<Rightarrow> uexec \<times> hsa_world \<Rightarrow> bool" where
  "filling E s b Q base kis pl = (\<lambda>(x, w). map mHsaQueue (mQueues x) = Q \<and> mNumQueues x = length Q \<and>
     (\<forall>q \<in> set Q. ring_ok (rings w q)) \<and>
     (\<forall>j < length Q. base j \<le> wix w (Q ! j) \<and> sig_val w (mPerQcompSig b ! j) = int (wix w (Q ! j) - base j)) \<and>
     sig_val w (mFinalSig b) = 1 \<and> length pl = length kis \<and> distinct pl \<and>
     set pl = batch_tasks (length Q) base (\<lambda>j. wix w (Q ! j)) \<and>
     (fits Q base w \<longrightarrow> (\<forall>m < length kis. placed E s b Q (kis ! m) (pl ! m) w)))"

definition batch_signals :: "batch_state \<Rightarrow> nat list \<Rightarrow> bool" where
  "batch_signals b Q \<longleftrightarrow> length (mPerQcompSig b) = length Q \<and> distinct (mFinalSig b # mPerQcompSig b) \<and>
     0 \<notin> set (mFinalSig b # mPerQcompSig b) \<and> distinct Q \<and> Q \<noteq> []"

lemma addToBatch_filling:
  assumes I: "filling E s b Q base kis pl (x, w)" and S: "batch_signals b Q"
    and add: "addToBatch E s b ki (x, w) = Some (Inr (x', w'))"
  shows "\<exists>jp. filling E s b Q base (kis @ [ki]) (pl @ [jp]) (x', w')"
proof -
  from add obtain c x1 w1 where q: "nextQid E (x, w) = Some (Inr (c, x1, w1))" "c < length (mPerQcompSig b)"
    "unordered_addTaskImpl E s c ki (mPerQcompSig b ! c) SCOPE_AGENT (x1, signal_add (mPerQcompSig b ! c) 1 w1) =
      Some (Inr (x', w'))"
    by (auto simp: addToBatch_def obind_eq_Inr split: if_splits)
  from nextQid_Inr [OF q(1)] obtain k where x1: "c < length (mQueues x)" "x1 = x\<lparr>mCurrQid := c\<rparr>" "w1 = w\<lparr>loads := k\<rparr>"
    by auto
  let ?g = "mPerQcompSig b ! c" and ?q = "Q ! c"
  let ?v = "signal_add ?g 1 w1"
  have Q: "map mHsaQueue (mQueues x) = Q" "mNumQueues x = length Q" "\<forall>q \<in> set Q. ring_ok (rings w q)"
    using I by (auto simp: filling_def)
  have c: "c < length Q" "mHsaQueue (mQueues x ! c) = ?q" using Q(1) x1(1) by auto
  have v: "rings ?v = rings w" "sig_val ?v = (sig_val w)(?g := sig_val w ?g + 1)"
    using x1(3) by (simp_all add: signal_add_def)
  from q(3) x1(1,2) obtain d' where d': "addTaskToQ E s (mQueues x ! c) ki (task_header E) ?g ?v = Some (Inr (d', w'))"
    "x' = x1\<lparr>mQueues := (mQueues x)[c := d']\<rparr>"
    by (auto simp: unordered_addTaskImpl_def obind_eq_Inr task_header_def)
  have "ring_ok (rings ?v (mHsaQueue (mQueues x ! c)))" using Q(3) c by (simp add: v)
  from addTaskToQ_wrote [OF this d'(1)] obtain p where p: "init_instance (abi E) (task_header E) s ki ?g = Inr p"
    "mHsaQueue d' = ?q" "wrote (Dispatch p) ?q ?v w'" by (auto simp: c)
  note W = wrote_simps [OF p(3)]
  have pv: "pkt_at ?v = pkt_at w" by (simp add: fun_eq_iff pkt_at_def v)
  have ne: "Q ! j = ?q \<longleftrightarrow> j = c" "mPerQcompSig b ! j = ?g \<longleftrightarrow> j = c" "mPerQcompSig b ! j \<noteq> mFinalSig b"
    if "j < length Q" for j
  proof -
    show "mPerQcompSig b ! j \<noteq> mFinalSig b"
      using S that unfolding batch_signals_def by (metis distinct.simps(2) nth_mem)
  qed (use S c that in \<open>auto simp: batch_signals_def nth_eq_iff_index_eq\<close>)
  have te: "wix w' (Q ! j) = (if j = c then Suc (wix w ?q) else wix w (Q ! j))" if "j < length Q" for j
    using ne(1) [OF that] by (simp add: W v)
  let ?pl = "pl @ [(c, wix w ?q)]"
  have F: "filling E s b Q base (kis @ [ki]) ?pl (x', w')"
    unfolding filling_def prod.case
  proof (intro conjI)
    show "map mHsaQueue (mQueues x') = Q" using d'(2) Q(1) p(2) c by (auto simp: map_update list_update_same_conv)
    show "mNumQueues x' = length Q" using d'(2) x1(2) Q(2) by simp
    show "\<forall>q \<in> set Q. ring_ok (rings w' q)" using Q(3) by (simp add: W v)
    show "\<forall>j < length Q. base j \<le> wix w' (Q ! j) \<and>
        sig_val w' (mPerQcompSig b ! j) = int (wix w' (Q ! j) - base j)"
      using I ne by (auto simp: filling_def W v of_nat_diff)
    show "sig_val w' (mFinalSig b) = 1" using I ne [OF c(1)] by (simp add: filling_def W v)
    show "length ?pl = length (kis @ [ki])" using I by (simp add: filling_def)
    have pl: "set pl = batch_tasks (length Q) base (\<lambda>j. wix w (Q ! j))" "distinct pl" using I by (auto simp: filling_def)
    then show "distinct ?pl" by (auto simp: batch_tasks_def)
    have "base c \<le> wix w ?q" using I c by (simp add: filling_def)
    then show "set ?pl = batch_tasks (length Q) base (\<lambda>j. wix w' (Q ! j))"
      using pl(1) te c by (auto simp: batch_tasks_def less_Suc_eq split: if_splits)
    show "fits Q base w' \<longrightarrow> (\<forall>m < length (kis @ [ki]). placed E s b Q ((kis @ [ki]) ! m) (?pl ! m) w')"
    proof (intro impI allI)
      fix m assume f: "fits Q base w'" and m: "m < length (kis @ [ki])"
      have f0: "fits Q base w" using f ne by (auto simp: fits_def W v split: if_splits dest: Suc_leD)
      show "placed E s b Q ((kis @ [ki]) ! m) (?pl ! m) w'"
      proof (cases "m < length kis")
        case True
        obtain j i where ji: "pl ! m = (j, i)" by (cases "pl ! m")
        have l: "length pl = length kis" using I by (simp add: filling_def)
        then have "(j, i) \<in> set pl" using ji True by (metis nth_mem)
        then have b: "j < length Q" "base j \<le> i" "i < wix w (Q ! j)" using pl(1) by (auto simp: batch_tasks_def)
        have "pkt_at w' (Q ! j) i = pkt_at w (Q ! j) i"
        proof (cases "j = c")
          case True
          have "Suc (wix w ?q) \<le> base c + ring_size (rings w ?q)" using f c by (auto simp: fits_def W v)
          moreover have "base c \<le> i" using b(2) True by simp
          ultimately have "wix w ?q < i + ring_size (rings w ?q)" by linarith
          then show ?thesis using wrote_keeps [OF p(3), of i ?q] b(3) True by (simp add: v pv)
        next
          case False
          then show ?thesis using ne(1) [OF b(1)] by (simp add: W pv)
        qed
        moreover have "placed E s b Q (kis ! m) (pl ! m) w" using I f0 True by (simp add: filling_def)
        ultimately show ?thesis using True ji l by (auto simp: placed_def nth_append)
      next
        case False
        then have "m = length kis" using m by simp
        moreover have "length pl = length kis" using I by (simp add: filling_def)
        moreover have "pkt_at w' ?q (wix w ?q) = Some (Dispatch p)" using wrote_here [OF p(3)] by (simp add: v)
        ultimately show ?thesis using p(1) by (simp add: placed_def nth_append)
      qed
    qed
  qed
  then show ?thesis by blast
qed

lemma adding_filling:
  assumes S: "batch_signals b Q"
  shows "filling E s b Q base kis pl (x, w) \<Longrightarrow> ofor_each (addToBatch E s b) kis' (x, w) = Some (Inr (x', w')) \<Longrightarrow>
    \<exists>pl'. filling E s b Q base (kis @ kis') pl' (x', w')"
proof (induction kis' arbitrary: kis pl x w)
  case (Cons ki kis')
  from Cons.prems(2) obtain x1 w1 where "addToBatch E s b ki (x, w) = Some (Inr (x1, w1))"
    and r: "ofor_each (addToBatch E s b) kis' (x1, w1) = Some (Inr (x', w'))"
    by (auto simp: obind_eq_Inr)
  from addToBatch_filling [OF Cons.prems(1) S this(1)] obtain jp where
    "filling E s b Q base (kis @ [ki]) (pl @ [jp]) (x1, w1)" by blast
  from Cons.IH [OF this r] show ?case by simp
qed auto

section \<open>Launching\<close>

lemma submit_all: "rings (fold submitPackets qs w) q = (rings w q)\<lparr>doorbell := doorbell (rings (fold submitPackets qs w) q)\<rparr> \<and>
    sig_val (fold submitPackets qs w) = sig_val w \<and> spools (fold submitPackets qs w) = spools w"
proof (induction qs arbitrary: w)
  case (Cons d qs)
  have r: "rings (submitPackets d w) q = (rings w q)\<lparr>doorbell := doorbell (rings (submitPackets d w) q)\<rparr>"
    by (simp add: submitPackets_def on_ring_def)
  show ?case
    using Cons.IH [of "submitPackets d w"] r
    by (simp add: submitPackets_def on_ring_def split: if_splits)
qed simp

lemma submit_simps:
  "wix (fold submitPackets qs w) q = wix w q" "ring_size (rings (fold submitPackets qs w) q) = ring_size (rings w q)"
  "pkt_at (fold submitPackets qs w) q i = pkt_at w q i" "sig_val (fold submitPackets qs w) = sig_val w"
proof -
  obtain x where "rings (fold submitPackets qs w) q = (rings w q)\<lparr>doorbell := x\<rparr>" using submit_all by blast
  then show "wix (fold submitPackets qs w) q = wix w q" "pkt_at (fold submitPackets qs w) q i = pkt_at w q i"
    "ring_size (rings (fold submitPackets qs w) q) = ring_size (rings w q)" by (simp_all add: pkt_at_def)
qed (use submit_all in blast)

text \<open>What \<open>launchBatch\<close> leaves for the device.\<close>

lemma launchBatch_written:
  assumes I: "filling E s b Q base kis pl (x, w)" and S: "batch_signals b Q" and A: "abi_ok (abi E)"
    and l: "launchBatch E b (x, w) = Some (Inr (g, x', w'))" and fit: "fits Q base w'"
  shows "g = mFinalSig b \<and>
    batch_written (abi E) (\<lambda>j. pkt_at w' (Q ! j)) base (\<lambda>j. wix w (Q ! j)) (mPerQcompSig b) (mFinalSig b) (sig_val w') \<and>
    (\<forall>m < length kis. placed E s b Q (kis ! m) (pl ! m) w') \<and> (\<forall>j < length Q. wix w' (Q ! j) = batch_end (\<lambda>j. wix w (Q ! j)) j)"
proof -
  let ?te = "\<lambda>j. wix w (Q ! j)"
  have Q: "map mHsaQueue (mQueues x) = Q" "mNumQueues x = length Q" "\<forall>q \<in> set Q. ring_ok (rings w q)"
    using I by (auto simp: filling_def)
  have n: "0 < length Q" using S by (simp add: batch_signals_def)
  have ne0: "mQueues x \<noteq> []" using Q(1) n by auto
  then have q0: "mHsaQueue (mQueues x ! 0) = Q ! 0" "mQueues x \<noteq> []" unfolding Q(1) [symmetric] by simp_all
  from l q0(2) obtain d v where d: "addBarrier E SCOPE_SYSTEM (mFinalSig b) (mPerQcompSig b) (length Q) (mQueues x ! 0) w =
      Some (Inr (d, v))" "g = mFinalSig b" "w' = fold submitPackets ((mQueues x)[0 := d]) v"
    and bt: "barrierTreeSize (length Q) = 1"
    by (auto simp: launchBatch_def obind_eq_Inr check_eq_Inr Q(2) Let_def split: if_splits)
  have "ring_ok (rings w (mHsaQueue (mQueues x ! 0)))" using Q(3) q0 n by simp
  from addBarrier_wrote [OF this d(1)] obtain p where
    p: "init_barrier (PacketHeader (abi E) BARRIER_AND SCOPE_SYSTEM BARRIER_ENABLE) (mFinalSig b) (mPerQcompSig b) (length Q) = Inr p"
      "wrote (BarrierAnd p) (Q ! 0) w v" by (auto simp: q0)
  have len: "length (mPerQcompSig b) = length Q" "length Q \<le> 5" "0 \<notin> set (mPerQcompSig b)"
    using S bt barrierTreeSize_one by (auto simp: batch_signals_def)
  have pf: "set (dep_signal p) - {0} = set (mPerQcompSig b)" "bp_completion p = mFinalSig b"
    using p(1) len init_barrier_ok [of "length Q" "mPerQcompSig b"] by auto
  note W = wrote_simps [OF p(2)] and F = submit_simps
  have ne: "Q ! j = Q ! 0 \<longleftrightarrow> j = 0" if "j < length Q" for j
    using S that n by (auto simp: batch_signals_def nth_eq_iff_index_eq)
  have f0: "fits Q base w" using fit ne by (auto simp: fits_def d(3) F W split: if_splits dest: Suc_leD)
  have keep: "pkt_at w' (Q ! j) i = pkt_at w (Q ! j) i" if "j < length Q" "base j \<le> i" "i < ?te j" for j i
  proof (cases "j = 0")
    case True
    have "Suc (?te 0) \<le> base 0 + ring_size (rings w (Q ! 0))" using fit n by (auto simp: fits_def d(3) F W)
    moreover have "base 0 \<le> i" using that(2) True by simp
    ultimately have "?te 0 < i + ring_size (rings w (Q ! 0))" by linarith
    then show ?thesis using wrote_keeps [OF p(2), of i "Q ! 0"] that True by (simp add: d(3) F)
  next
    case False
    then show ?thesis using ne [OF that(1)] by (simp add: d(3) F W)
  qed
  have pl: "length pl = length kis" "set pl = batch_tasks (length Q) base ?te" "distinct pl"
    "\<forall>m < length kis. placed E s b Q (kis ! m) (pl ! m) w"
    using I f0 by (auto simp: filling_def)
  have placed: "placed E s b Q (kis ! m) (pl ! m) w'" if m: "m < length kis" for m
  proof -
    obtain j i where ji: "pl ! m = (j, i)" by (cases "pl ! m")
    then have "(j, i) \<in> batch_tasks (length Q) base ?te" using pl(1,2) m by (metis nth_mem)
    then show ?thesis using pl(4) m ji keep by (auto simp: placed_def batch_tasks_def)
  qed
  have task: "\<exists>p. pkt_at w' (Q ! j) i = Some (Dispatch p) \<and> dp_completion p = mPerQcompSig b ! j \<and>
      \<not> has_barrier_bit (abi E) (Dispatch p)" if "j < length Q" "base j \<le> i" "i < ?te j" for j i
  proof -
    have "(j, i) \<in> set pl" using pl(2) that by (simp add: batch_tasks_def)
    then obtain m where m: "m < length kis" "pl ! m = (j, i)" using pl(1) by (metis in_set_conv_nth)
    with placed [OF m(1)] obtain t where t: "init_instance (abi E) (task_header E) s (kis ! m) (mPerQcompSig b ! j) = Inr t"
      "pkt_at w' (Q ! j) i = Some (Dispatch t)" by (auto simp: placed_def)
    have "\<not> has_barrier_bit (abi E) (Dispatch t)"
      using init_instance_fields [OF t(1)] header_fields(4) [OF A]
      by (simp add: has_barrier_bit_def task_header_def)
    then show ?thesis using t init_instance_fields [OF t(1)] by blast
  qed
  have "pkt_at w' (Q ! 0) (?te 0) = Some (BarrierAnd p)" using wrote_here [OF p(2)] by (simp add: d(3) F)
  moreover have "\<forall>j < length Q. base j \<le> ?te j \<and> sig_val w' (mPerQcompSig b ! j) = int (?te j - base j)"
    using I by (simp add: filling_def d(3) F W)
  moreover have "sig_val w' (mFinalSig b) = 1" using I by (simp add: filling_def d(3) F W)
  ultimately have "batch_written (abi E) (\<lambda>j. pkt_at w' (Q ! j)) base ?te (mPerQcompSig b) (mFinalSig b) (sig_val w')"
    unfolding batch_written_def len(1) using S pf task n by (auto simp: batch_signals_def)
  moreover have "\<forall>j < length Q. wix w' (Q ! j) = batch_end ?te j" using ne by (auto simp: d(3) F W batch_end_def)
  ultimately show ?thesis using d(2) placed by blast
qed

section \<open>The batch as a whole\<close>

text \<open>What a client does with a batch: start it, add every task, launch it.\<close>

definition run_batch :: "hsa_env \<Rightarrow> kern_state \<Rightarrow> kern_instance list \<Rightarrow> uexec \<times> hsa_world \<Rightarrow>
    (nat \<times> uexec \<times> hsa_world) res option" where
  "run_batch E s kis = (\<lambda>(x, w). obind (Some (startBatch E x w)) (\<lambda>(b, w).
     obind (ofor_each (addToBatch E s b) kis (x, w)) (launchBatch E b)))"

text \<open>An executor with one queue object for each queue.\<close>

definition exec_ok :: "uexec \<Rightarrow> hsa_world \<Rightarrow> bool" where
  "exec_ok x w \<longleftrightarrow> length (mQueues x) = mNumQueues x \<and> distinct (map mHsaQueue (mQueues x)) \<and>
     (\<forall>d \<in> set (mQueues x). ring_ok (rings w (mHsaQueue d)))"

definition handles :: "uexec \<Rightarrow> nat list" where
  "handles x = map mHsaQueue (mQueues x)"

text \<open>The packets between the write indices of the worlds before and after the batch.\<close>

definition batch_fits :: "uexec \<Rightarrow> hsa_world \<Rightarrow> hsa_world \<Rightarrow> bool" where
  "batch_fits x w w' \<longleftrightarrow> fits (handles x) (\<lambda>j. wix w (handles x ! j)) w'"

definition batch_device :: "hsa_env \<Rightarrow> uexec \<Rightarrow> hsa_world \<Rightarrow> hsa_world \<Rightarrow> (nat \<times> nat) set \<Rightarrow> (nat \<Rightarrow> int) \<Rightarrow> bool" where
  "batch_device E x w w' = device (abi E) (\<lambda>j. pkt_at w' (handles x ! j)) (length (handles x))
     (\<lambda>j. wix w (handles x ! j)) (\<lambda>j. wix w' (handles x ! j)) (sig_val w')"

lemma device_cong_dir:
  "device A P n base en sig0 D sig \<Longrightarrow> \<forall>j < n. en j = en' j \<Longrightarrow> device A P n base en' sig0 D sig"
proof (induction rule: device.induct)
  case (step D sig j i p)
  then show ?case by (intro device.step) auto
qed (rule device.start)

lemma device_cong:
  "\<forall>j < n. en j = en' j \<Longrightarrow> device A P n base en sig0 D sig = device A P n base en' sig0 D sig"
  using device_cong_dir [of A P n base en sig0 D sig en'] device_cong_dir [of A P n base en' sig0 D sig en]
  by auto

lemma run_batch_written:
  assumes x: "exec_ok x w" and sg: "signals_ok E w" and A: "abi_ok (abi E)"
    and run: "run_batch E s kis (x, w) = Some (Inr (g, x', w'))" and fit: "batch_fits x w w'"
  shows "\<exists>b pl te. g = mFinalSig b \<and> length (mPerQcompSig b) = length (handles x) \<and>
    batch_written (abi E) (\<lambda>j. pkt_at w' (handles x ! j)) (\<lambda>j. wix w (handles x ! j)) te (mPerQcompSig b) g (sig_val w') \<and>
    (\<forall>j < length (handles x). wix w' (handles x ! j) = batch_end te j) \<and>
    distinct pl \<and> length pl = length kis \<and> set pl = batch_tasks (length (handles x)) (\<lambda>j. wix w (handles x ! j)) te \<and>
    (\<forall>m < length kis. placed E s b (handles x) (kis ! m) (pl ! m) w')"
proof -
  let ?Q = "handles x" and ?base = "\<lambda>j. wix w (handles x ! j)"
  obtain b w1 where b: "startBatch E x w = Inr (b, w1)" "length (mPerQcompSig b) = mNumQueues x"
    "distinct (mFinalSig b # mPerQcompSig b)" "0 \<notin> set (mFinalSig b # mPerQcompSig b)"
    "\<forall>g \<in> set (mPerQcompSig b). sig_val w1 g = 0" "sig_val w1 (mFinalSig b) = 1" "rings w1 = rings w"
    using startBatch_ok [OF sg, of x] by blast
  from run b(1) obtain x2 w2 where
    r: "ofor_each (addToBatch E s b) kis (x, w1) = Some (Inr (x2, w2))" "launchBatch E b (x2, w2) = Some (Inr (g, x', w'))"
    by (auto simp: run_batch_def obind_eq_Inr)
  have n: "mNumQueues x = length ?Q" using x by (simp add: exec_ok_def handles_def)
  have F0: "filling E s b ?Q ?base [] [] (x, w1)"
    using x b(2,5,6) n by (auto simp: filling_def exec_ok_def handles_def b(7) batch_tasks_def)
  have ne: "?Q \<noteq> []"
  proof
    assume e: "?Q = []"
    have "kis = []"
    proof (rule ccontr)
      assume "kis \<noteq> []"
      then obtain k ks where "kis = k # ks" by (cases kis) auto
      then have "\<exists>st. addToBatch E s b k (x, w1) = Some (Inr st)" using r(1) by (auto simp: obind_eq_Inr)
      then show False using n e
        by (auto simp: addToBatch_def nextQid_def nextQid_loop.simps [of E 0] obind_eq_Inr)
    qed
    then have "x2 = x" using r(1) by simp
    then show False using r(2) n e barrierTreeSize_one [of 0] by (auto simp: launchBatch_def)
  qed
  have S: "batch_signals b ?Q" using b n x ne by (simp add: batch_signals_def exec_ok_def handles_def)
  from adding_filling [OF S F0 r(1)] obtain pl where F: "filling E s b ?Q ?base kis pl (x2, w2)" by auto
  from launchBatch_written [OF F S A r(2)] fit F b(2) n show ?thesis
    by (auto simp: batch_fits_def filling_def)
qed

lemma run_batch_completes:
  assumes "exec_ok x w" "signals_ok E w" "abi_ok (abi E)" "batch_fits x w w'"
    and "run_batch E s kis (x, w) = Some (Inr (g, x', w'))"
  shows "\<exists>pl. distinct pl \<and> length pl = length kis \<and>
    (\<forall>m < length kis. \<exists>p c. init_instance (abi E) (task_header E) s (kis ! m) c = Inr p \<and>
      pkt_at w' (handles x ! fst (pl ! m)) (snd (pl ! m)) = Some (Dispatch p)) \<and>
    (\<forall>D sig. batch_device E x w w' D sig \<longrightarrow> (sig g = 0 \<longrightarrow> set pl \<subseteq> D) \<and>
      (sig g \<noteq> 0 \<longrightarrow> (\<exists>jp sig'. jp \<notin> D \<and> batch_device E x w w' (insert jp D) sig')))"
proof -
  from run_batch_written [OF assms(1-3,5,4)] obtain b pl te where
    B: "length (mPerQcompSig b) = length (handles x)"
      "batch_written (abi E) (\<lambda>j. pkt_at w' (handles x ! j)) (\<lambda>j. wix w (handles x ! j)) te (mPerQcompSig b) g (sig_val w')"
      "\<forall>j < length (handles x). wix w' (handles x ! j) = batch_end te j"
    and pl: "distinct pl" "length pl = length kis"
      "set pl = batch_tasks (length (handles x)) (\<lambda>j. wix w (handles x ! j)) te"
      "\<forall>m < length kis. placed E s b (handles x) (kis ! m) (pl ! m) w'" by blast
  have dev: "batch_device E x w w' D sig \<longleftrightarrow> device (abi E) (\<lambda>j. pkt_at w' (handles x ! j)) (length (mPerQcompSig b))
     (\<lambda>j. wix w (handles x ! j)) (batch_end te) (sig_val w') D sig" for D sig
    unfolding batch_device_def B(1) using B(3) by (intro device_cong) simp
  have "(sig g = 0 \<longrightarrow> set pl \<subseteq> D) \<and>
      (sig g \<noteq> 0 \<longrightarrow> (\<exists>jp sig'. jp \<notin> D \<and> batch_device E x w w' (insert jp D) sig'))"
    if d: "batch_device E x w w' D sig" for D sig
  proof (intro conjI impI)
    assume "sig g = 0"
    then show "set pl \<subseteq> D" using device_inv [OF B(2) d [unfolded dev]]
      by (auto simp: batch_dev_inv_def pl(3) B(1) split: if_splits)
  next
    assume "sig g \<noteq> 0"
    from device_progress [OF B(2) d [unfolded dev] this] show "\<exists>jp sig'. jp \<notin> D \<and> batch_device E x w w' (insert jp D) sig'"
      unfolding dev using device.step [OF d [unfolded dev]] by blast
  qed
  moreover have "\<exists>p c. init_instance (abi E) (task_header E) s (kis ! m) c = Inr p \<and>
      pkt_at w' (handles x ! fst (pl ! m)) (snd (pl ! m)) = Some (Dispatch p)" if "m < length kis" for m
    using pl(4) that by (simp add: placed_def case_prod_unfold) blast
  ultimately show ?thesis using pl(1,2) by blast
qed

text \<open>
  A device that always finishes another packet while the final signal is not 0 gets there: the packets
  of a batch are finitely many. \<open>D k\<close> and \<open>sg k\<close> are the finished packets and the signals after \<open>k\<close> steps.
\<close>

lemma batch_device_range:
  "batch_device E x w w' D sig \<Longrightarrow> D \<subseteq> (SIGMA j:{..<length (handles x)}. {..<wix w' (handles x ! j)})"
  unfolding batch_device_def by (induction rule: device.induct) auto

lemma batch_device_ends:
  assumes go: "\<And>D sig. batch_device E x w w' D sig \<Longrightarrow> sig g \<noteq> 0 \<Longrightarrow> \<exists>jp sig'. jp \<notin> D \<and> batch_device E x w w' (insert jp D) sig'"
    and D0: "batch_device E x w w' D0 sig0"
  shows "\<exists>D sg. D 0 = D0 \<and> (\<forall>k :: nat. batch_device E x w w' (D k) (sg k)) \<and> (\<forall>k. D k \<subseteq> D (Suc k)) \<and> (\<exists>k. sg k g = 0)"
  using D0
proof (induction "card ((SIGMA j:{..<length (handles x)}. {..<wix w' (handles x ! j)}) - D0)" arbitrary: D0 sig0 rule: less_induct)
  case less
  show ?case
  proof (cases "sig0 g = 0")
    case True
    then show ?thesis using less.prems by (intro exI [of _ "\<lambda>_. D0"] exI [of _ "\<lambda>_. sig0"]) simp
  next
    case False
    obtain jp sig' where jp: "jp \<notin> D0" "batch_device E x w w' (insert jp D0) sig'" using go [OF less.prems False] by blast
    have "jp \<in> (SIGMA j:{..<length (handles x)}. {..<wix w' (handles x ! j)})" using batch_device_range [OF jp(2)] by blast
    then have "card ((SIGMA j:{..<length (handles x)}. {..<wix w' (handles x ! j)}) - insert jp D0) <
        card ((SIGMA j:{..<length (handles x)}. {..<wix w' (handles x ! j)}) - D0)"
      using jp(1) by (intro psubset_card_mono) auto
    from less.hyps [OF this jp(2)] obtain D sg where
      D: "D 0 = insert jp D0" "\<forall>k :: nat. batch_device E x w w' (D k) (sg k)" "\<forall>k. D k \<subseteq> D (Suc k)" "\<exists>k. sg k g = 0"
      by blast
    show ?thesis
      using D less.prems
      by (intro exI [of _ "case_nat D0 D"] exI [of _ "case_nat sig0 sg"]) (auto split: nat.split intro: exI [of _ "Suc _"])
  qed
qed

text \<open>
  C20: a launched batch leaves every task in one queue position, exactly once; whatever the order in which
  the device finishes packets, the final signal is 0 only when all tasks of the batch have finished,
  and as long as it is not 0 the device can finish another packet. (The batch must not put more
  packets into a queue than its ring holds.)
\<close>

theorem batch_completes:
  assumes "exec_ok x w" "signals_ok E w" "abi_ok (abi E)" "batch_fits x w w'"
    and "run_batch E s kis (x, w) = Some (Inr (g, x', w'))"
  shows "\<exists>pl. distinct pl \<and> length pl = length kis \<and>
    (\<forall>m < length kis. \<exists>p c. init_instance (abi E) (task_header E) s (kis ! m) c = Inr p \<and>
      pkt_at w' (handles x ! fst (pl ! m)) (snd (pl ! m)) = Some (Dispatch p)) \<and>
    (\<forall>D sig. batch_device E x w w' D sig \<longrightarrow> (sig g = 0 \<longrightarrow> set pl \<subseteq> D) \<and>
      (sig g \<noteq> 0 \<longrightarrow> (\<exists>jp sig'. jp \<notin> D \<and> batch_device E x w w' (insert jp D) sig')))"
  using assms by (rule run_batch_completes)

text \<open>One queue with a ring of four slots, three signals in the pool, one task.\<close>

definition ki_ex :: kern_instance where
  "ki_ex = \<lparr>ki_blocks = (2, 1, 1), ki_threads = (64, 1, 1), ki_info = ''k.kd'', ki_buf = \<lparr>mBeg = 16, mEnd = 32\<rparr>\<rparr>"

definition uexec_ex :: uexec where
  "uexec_ex = \<lparr>mNumQueues = Suc 0, mQueues = [\<lparr>mHsaQueue = 7, mWriteIndex = 0\<rparr>], mCurrQid = 0\<rparr>"

definition world_ex :: hsa_world where
  "world_ex = \<lparr>rings = (\<lambda>_. \<lparr>ring_size = 4, ring_slots = Map.empty, write_index = 0, doorbell = 0\<rparr>),
     sig_val = (\<lambda>_. 1), loads = 0, qpools = \<lparr>mSerialQueuePool = pool_empty, mConcurrentQueuePool = pool_empty\<rparr>,
     spools = \<lparr>mUserSignalPool = \<lparr>mResPool = [1, 2, 3], mCreated = 3, mDestroyed = []\<rparr>, mIntrptSignalPool = pool_empty\<rparr>\<rparr>"

lemma world_ex_signals: "signals_ok env4 world_ex"
  by (auto simp: signals_ok_def sig_pool_def world_ex_def env4_def numeral_3_eq_3 lessThan_Suc)

lemma env4_sel [simp]: "read_at env4 q k = 0" "abi env4 = abi_ex" "new_signal env4 = Suc"
  by (simp_all add: env4_def)

lemma give_idle:
  assumes "ring_ok (rings w (mHsaQueue d))" "mWriteIndex d < dq_size d w"
  shows "giveOneSlot env4 d w = Some (wix w (mHsaQueue d) mod dq_size d w,
    d\<lparr>mWriteIndex := wix w (mHsaQueue d)\<rparr>, gave d (loads w) w)"
  using assms by (simp add: giveOneSlot_eq spin.simps [of env4 d w] dq_full_eq)

lemma ki_ex_packet: "\<exists>p. init_instance abi_ex h kern_state_ex ki_ex c = Inr p"
  by (simp add: init_instance_def kern_info_def kern_state_ex_def ki_ex_def init_dispatch_def isValid_def
      checkKernArgBlk_def MIN_ALLOC_SIZE_def blk_size_def updateHeader_zero Let_def zero_dispatch_def)

lemma nextQid_ex:
  assumes "ring_size (rings w 7) = 4"
  shows "nextQid env4 (uexec_ex, w) = Some (Inr (0, uexec_ex, w\<lparr>loads := Suc (loads w)\<rparr>))"
proof -
  have "nextQid_loop env4 (Suc 0) [\<lparr>mHsaQueue = 7, mWriteIndex = 0\<rparr>] 0 w = Some (Inr (0, w\<lparr>loads := Suc (loads w)\<rparr>))"
    using assms by (subst nextQid_loop.simps) (simp add: dq_full_eq dq_size_def)
  then show ?thesis by (simp add: nextQid_def uexec_ex_def)
qed

definition batch_ex :: batch_state where
  "batch_ex = \<lparr>mPerQcompSig = [3], mFinalSig = 2\<rparr>"

lemma ring_of_four: "ring_size r = 4 \<Longrightarrow> ring_ok r"
  by (auto simp: ring_ok_def intro!: exI [of _ 2])

lemma startBatch_ex: "\<exists>w. startBatch env4 uexec_ex world_ex = Inr (batch_ex, w) \<and> rings w = rings world_ex"
  by (simp add: startBatch_def takeSignal_def takeUserSignal_def pool_allocate_def world_ex_def uexec_ex_def
      signal_store_def batch_ex_def)

lemma addToBatch_ex:
  assumes "rings w = rings world_ex"
  shows "\<exists>w'. addToBatch env4 kern_state_ex batch_ex ki_ex (uexec_ex, w) = Some (Inr (uexec_ex, w')) \<and>
    wix w' 7 = 1 \<and> ring_size (rings w' 7) = 4"
proof -
  obtain p where p: "init_instance abi_ex (PacketHeader abi_ex KERNEL_DISPATCH SCOPE_AGENT BARRIER_DISABLE) kern_state_ex ki_ex 3 = Inr p"
    using ki_ex_packet by blast
  have r: "rings w 7 = \<lparr>ring_size = 4, ring_slots = Map.empty, write_index = 0, doorbell = 0\<rparr>"
    using assms by (simp add: world_ex_def)
  show ?thesis
    using r p by (simp add: addToBatch_def nextQid_ex [unfolded uexec_ex_def] batch_ex_def unordered_addTaskImpl_def addTaskToQ_def signal_add_def
        give_idle ring_of_four dq_size_def uexec_ex_def put_packet_def on_ring_def gave_def)
qed

lemma launchBatch_ex:
  assumes "wix w 7 = 1" "ring_size (rings w 7) = 4"
  shows "\<exists>g x' w'. launchBatch env4 batch_ex (uexec_ex, w) = Some (Inr (g, x', w')) \<and>
    wix w' 7 = 2 \<and> ring_size (rings w' 7) = 4"
proof -
  have one: "barrierTreeSize (Suc 0) = Suc 0" using barrierTreeSize_one [of 1] by simp
  show ?thesis
    using assms by (simp add: launchBatch_def addBarrier_def init_barrier_ok one batch_ex_def uexec_ex_def give_idle
        ring_of_four dq_size_def put_packet_def on_ring_def gave_def submitPackets_def Let_def)
qed

lemma world_ex_runs:
  "\<exists>g x' w'. run_batch env4 kern_state_ex [ki_ex] (uexec_ex, world_ex) = Some (Inr (g, x', w')) \<and>
    batch_fits uexec_ex world_ex w'"
proof -
  obtain w1 where w1: "startBatch env4 uexec_ex world_ex = Inr (batch_ex, w1)" "rings w1 = rings world_ex"
    using startBatch_ex by blast
  obtain w2 where w2: "addToBatch env4 kern_state_ex batch_ex ki_ex (uexec_ex, w1) = Some (Inr (uexec_ex, w2))"
      "wix w2 7 = 1" "ring_size (rings w2 7) = 4"
    using addToBatch_ex [OF w1(2)] by blast
  from launchBatch_ex [OF w2(2,3)] obtain g x' w' where l: "launchBatch env4 batch_ex (uexec_ex, w2) = Some (Inr (g, x', w'))"
      "wix w' 7 = 2" "ring_size (rings w' 7) = 4" by blast
  have "run_batch env4 kern_state_ex [ki_ex] (uexec_ex, world_ex) = Some (Inr (g, x', w'))"
    using w1(1) w2(1) l(1) by (simp add: run_batch_def)
  moreover have "batch_fits uexec_ex world_ex w'"
    using l(2,3) by (simp add: batch_fits_def fits_def handles_def uexec_ex_def world_ex_def)
  ultimately show ?thesis by blast
qed

theorem batch_completes_witness:
  "\<exists>g x' w' jp. run_batch env4 kern_state_ex [ki_ex] (uexec_ex, world_ex) = Some (Inr (g, x', w')) \<and>
     (\<forall>D sig. batch_device env4 uexec_ex world_ex w' D sig \<longrightarrow> sig g = 0 \<longrightarrow> jp \<in> D)"
proof -
  from world_ex_runs obtain g x' w' where r:
    "run_batch env4 kern_state_ex [ki_ex] (uexec_ex, world_ex) = Some (Inr (g, x', w'))"
    "batch_fits uexec_ex world_ex w'" by blast
  have x: "exec_ok uexec_ex world_ex"
    by (auto simp: exec_ok_def uexec_ex_def world_ex_def ring_ok_def intro!: exI [of _ 2])
  have A: "abi_ok (abi env4)" using abi_ex_ok by simp
  have "\<exists>pl. length pl = length [ki_ex] \<and>
      (\<forall>D sig. batch_device env4 uexec_ex world_ex w' D sig \<longrightarrow> sig g = 0 \<longrightarrow> set pl \<subseteq> D)"
    using batch_completes [OF x world_ex_signals A r(2,1)] by (elim exE conjE, intro exI conjI) (assumption, simp)
  then obtain pl where pl: "length pl = length [ki_ex]"
    "\<forall>D sig. batch_device env4 uexec_ex world_ex w' D sig \<longrightarrow> sig g = 0 \<longrightarrow> set pl \<subseteq> D" by blast
  moreover from pl(1) obtain jp where "jp \<in> set pl" by (metis length_greater_0_conv list.set_intros(1) neq_Nil_conv list.size(3) length_Cons zero_less_Suc)
  ultimately show ?thesis using r(1) by blast
qed

end
