(* ===== verification/KiteLaws.thy ===== *)
theory KiteLaws
  imports Kite Batch
begin

text \<open>
  The kite of \<open>dispatchKiteDAG\<close>: the six packets it writes, the orders in which the device can
  finish them, and the release of arguments and signals after the wait.
\<close>

section \<open>What the device does with the six packets\<close>














section \<open>What is written\<close>

definition kite_pkt :: "kite_env \<Rightarrow> hip_instance \<Rightarrow> nat \<Rightarrow> nat \<Rightarrow> dispatch_pkt" where
  "kite_pkt E ki argPtr g = (case (hi_blocks ki, hi_threads ki) of ((bx, b_y, bz), (tx, ty, tz)) \<Rightarrow>
     \<lparr>dp_header = hsaPacketHeader (k_abi E) KERNEL_DISPATCH, dp_setup = kernel_dispatch_setup (k_abi E),
      workgroup_size = (ucast tx, ucast ty, ucast tz), dp_grid_size = (bx * tx, b_y * ty, bz * tz),
      private_segment_size = workitem_private_segment_byte_size (hi_info ki),
      group_segment_size = workgroup_group_segment_byte_size (hi_info ki),
      kernel_object = codeObjAddr (hi_info ki), kernarg_address = argPtr, dp_completion = g\<rparr>)"


lemma kite_pkt_fields [simp]:
  "dp_completion (kite_pkt E ki a g) = g" "kernarg_address (kite_pkt E ki a g) = a"
  "dp_header (kite_pkt E ki a g) = hsaPacketHeader (k_abi E) KERNEL_DISPATCH"
  by (simp_all add: kite_pkt_def split: prod.splits)














section \<open>An instance\<close>







end
