(* ===== verification/Helpers.thy ===== *)
theory Helpers
  imports Prelude Complex_Main
begin

text \<open>
  Instrumentation of \<open>cppUtils\<close>: the timer of \<open>Timer.h\<close>, the series of measurements of \<open>Stat.h\<close> and
  the error criteria of \<open>CheckError.h\<close>. The readings of the clock are an argument; printing is
  recorded as what is printed.
\<close>

section \<open>CppTimer\<close>

datatype TimeUnit = S | MS | US | NS

text \<open>
  A duration is a number of ticks of the clock, nanoseconds; \<open>duration_cast\<close> rounds towards zero.
\<close>

fun ns_per :: "TimeUnit \<Rightarrow> nat" where
  "ns_per S = 1000000000" | "ns_per MS = 1000000" | "ns_per US = 1000" | "ns_per NS = 1"

definition elapsed :: "TimeUnit \<Rightarrow> nat \<Rightarrow> nat" where
  "elapsed u d = d div ns_per u"

record timer =
  mOn :: bool
  mStart :: nat
  mDuration :: nat
  mTopic :: string
  mRegion :: string

text \<open>\<open>now k\<close> is the k-th reading of the clock; the state counts the readings.\<close>

definition timer_start :: "(nat \<Rightarrow> nat) \<Rightarrow> timer \<times> nat \<Rightarrow> (timer \<times> nat) res" where
  "timer_start now = (\<lambda>(t, k).
    rbind (check (\<not> mOn t) ''Timer already running'') (\<lambda>_.
    Inr (t\<lparr>mOn := True, mStart := now k\<rparr>, k + 1)))"

definition timer_stop :: "(nat \<Rightarrow> nat) \<Rightarrow> timer \<times> nat \<Rightarrow> (nat \<times> timer \<times> nat) res" where
  "timer_stop now = (\<lambda>(t, k).
    rbind (check (mOn t) ''Timer hasn't started'') (\<lambda>_.
    let t0 = mStart t; t = t\<lparr>mOn := False, mStart := now k\<rparr>; currInterval = mStart t - t0 in
    Inr (currInterval, t\<lparr>mDuration := mDuration t + currInterval\<rparr>, k + 1)))"

definition timer_make :: "(nat \<Rightarrow> nat) \<Rightarrow> string \<Rightarrow> string \<Rightarrow> bool \<Rightarrow> nat \<Rightarrow> (timer \<times> nat) res" where
  "timer_make now topicName regionName startNow k =
    (let t = \<lparr>mOn = False, mStart = 0, mDuration = 0, mTopic = topicName, mRegion = regionName\<rparr> in
     if startNow then timer_start now (t, k) else Inr (t, k))"

fun unit_str :: "TimeUnit \<Rightarrow> string" where
  "unit_str S = '' Time (sec)''" | "unit_str MS = '' Time (ms)''" | "unit_str US = '' Time (us)''" | "unit_str NS = '' Time (ns)''"

definition timer_print :: "TimeUnit \<Rightarrow> timer \<Rightarrow> string \<times> string \<times> nat" where
  "timer_print u t = (mTopic t, mRegion t @ unit_str u, elapsed u (mDuration t))"

definition timer_destroy :: "TimeUnit \<Rightarrow> (nat \<Rightarrow> nat) \<Rightarrow> timer \<times> nat \<Rightarrow> (string \<times> string \<times> nat) res" where
  "timer_destroy u now = (\<lambda>(t, k).
    rbind (if mOn t then rbind (timer_stop now (t, k)) (\<lambda>(_, t, k). Inr (t, k)) else Inr (t, k)) (\<lambda>(t, _).
    Inr (timer_print u t)))"

text \<open>\<open>timeThis\<close>, for a function that returns: the clock is read before and after it.\<close>

definition timeThis :: "(nat \<Rightarrow> nat) \<Rightarrow> string \<Rightarrow> string \<Rightarrow> nat \<Rightarrow> (string \<times> string \<times> nat) res" where
  "timeThis now topicName regionName k =
    rbind (timer_make now topicName regionName True k) (timer_destroy US now)"

text \<open>
  Intervals add up: after any number of start and stop pairs the timer is off and its duration is
  the sum of the intervals that the pairs measured.
\<close>

definition run_interval :: "(nat \<Rightarrow> nat) \<Rightarrow> timer \<times> nat \<Rightarrow> (timer \<times> nat) res" where
  "run_interval now st = rbind (timer_start now st) (\<lambda>st. rbind (timer_stop now st) (\<lambda>(_, st). Inr st))"

lemma run_interval_eq:
  "\<not> mOn t \<Longrightarrow> run_interval now (t, k) =
    Inr (t\<lparr>mStart := now (k + 1), mDuration := mDuration t + (now (k + 1) - now k)\<rparr>, k + 2)"
  by (cases t) (simp add: run_interval_def timer_start_def timer_stop_def Let_def)

lemma timer_total:
  assumes "\<not> mOn t"
  shows "\<exists>t'. for_each (\<lambda>_. run_interval now) [0..<n] (t, k) = Inr (t', k + 2 * n) \<and> \<not> mOn t' \<and>
    mDuration t' = mDuration t + (\<Sum>i<n. now (k + 2 * i + 1) - now (k + 2 * i))"
proof (induction n)
  case (Suc n)
  then obtain t' where t': "for_each (\<lambda>_. run_interval now) [0..<n] (t, k) = Inr (t', k + 2 * n)" "\<not> mOn t'"
      "mDuration t' = mDuration t + (\<Sum>i<n. now (k + 2 * i + 1) - now (k + 2 * i))" by blast
  then show ?case by (simp add: for_each_append run_interval_eq)
qed (simp add: assms)

lemma timeThis_prints:
  "timeThis now topic region k = Inr (topic, region @ '' Time (us)'', (now (k + 1) - now k) div 1000)"
  by (simp add: timeThis_def timer_make_def timer_start_def timer_stop_def timer_destroy_def timer_print_def elapsed_def Let_def)

lemma timer_misuse:
  "mOn t \<Longrightarrow> timer_start now (t, k) = Inl (AssertFail ''Timer already running'')"
  "\<not> mOn t \<Longrightarrow> timer_stop now (t, k) = Inl (AssertFail ''Timer hasn't started'')"
  by (simp_all add: timer_start_def timer_stop_def)

section \<open>StatSeries\<close>

text \<open>\<open>min_element\<close> and \<open>max_element\<close> of a non-empty series.\<close>

definition stat_min :: "'a::linorder list \<Rightarrow> 'a res" where
  "stat_min s = rbind (check (s \<noteq> []) ''!mSeries.empty()'') (\<lambda>_. Inr (fold min s (hd s)))"

definition stat_max :: "'a::linorder list \<Rightarrow> 'a res" where
  "stat_max s = rbind (check (s \<noteq> []) ''!mSeries.empty()'') (\<lambda>_. Inr (fold max s (hd s)))"

definition stat_range :: "'a::linorder list \<Rightarrow> ('a \<times> 'a) res" where
  "stat_range s = rbind (stat_min s) (\<lambda>lo. rbind (stat_max s) (\<lambda>hi. Inr (lo, hi)))"

definition stat_sum :: "'a::monoid_add list \<Rightarrow> 'a" where
  "stat_sum s = fold (\<lambda>x acc. acc + x) s 0"

definition stat_avg :: "'a::field_char_0 list \<Rightarrow> 'a" where
  "stat_avg s = stat_sum s / of_nat (length s)"

text \<open>\<open>stdDev\<close> as written: the root of the sum of the squared deviations, not of their mean.\<close>

definition stat_stdDev :: "real list \<Rightarrow> real" where
  "stat_stdDev s = (let a = stat_avg s; sumSqDev = fold (\<lambda>i acc. acc + (i - a) * (i - a)) s 0 in sqrt sumSqDev)"

lemma fold_min: "x \<in> set (y # s) \<Longrightarrow> fold min s y \<le> (x :: 'a::linorder)"
proof (induction s arbitrary: x y)
  case (Cons a s)
  have "fold min s (min a y) \<le> min a y" by (rule Cons.IH) simp
  then show ?case using Cons.prems Cons.IH [of x "min a y"] by (auto simp: min_le_iff_disj)
qed simp

lemma fold_max: "x \<in> set (y # s) \<Longrightarrow> (x :: 'a::linorder) \<le> fold max s y"
proof (induction s arbitrary: x y)
  case (Cons a s)
  have "max a y \<le> fold max s (max a y)" by (rule Cons.IH) simp
  then show ?case using Cons.prems Cons.IH [of x "max a y"] by auto
qed simp

lemma stat_sum_eq: "stat_sum s = sum_list (s :: 'a::comm_monoid_add list)"
proof -
  have "fold (\<lambda>x acc. acc + x) s a = a + sum_list s" for a
    by (induction s arbitrary: a) (simp_all add: algebra_simps)
  then show ?thesis by (simp add: stat_sum_def)
qed

lemma sum_list_between:
  "(\<And>x. x \<in> set s \<Longrightarrow> lo \<le> x \<and> x \<le> (hi :: real)) \<Longrightarrow> lo * of_nat (length s) \<le> sum_list s \<and> sum_list s \<le> hi * of_nat (length s)"
  by (induction s) (fastforce simp: algebra_simps)+

text \<open>The average of a series lies in its range.\<close>

lemma stat_avg_in_range:
  assumes "s \<noteq> []"
  shows "\<exists>lo hi. stat_range s = Inr (lo, hi) \<and> lo \<le> stat_avg s \<and> stat_avg s \<le> (hi :: real)"
proof -
  let ?lo = "fold min s (hd s)" and ?hi = "fold max s (hd s)"
  have "lo * of_nat (length s) \<le> sum_list s \<and> sum_list s \<le> hi * of_nat (length s)"
    if "lo = ?lo" "hi = ?hi" for lo hi
    by (rule sum_list_between) (use that fold_min [of _ "hd s" s] fold_max [of _ "hd s" s] in auto)
  then have "?lo \<le> stat_avg s" "stat_avg s \<le> ?hi"
    using assms by (simp_all add: stat_avg_def stat_sum_eq field_simps)
  then show ?thesis using assms by (simp add: stat_range_def stat_min_def stat_max_def)
qed

text \<open>\<open>stdDev\<close> grows with the number of measurements: two series with the same spread differ.\<close>

lemma stdDev_not_mean: "stat_stdDev [0, 2] = sqrt 2" "stat_stdDev [0, 2, 0, 2] = 2"
  by (simp_all add: stat_stdDev_def stat_avg_def stat_sum_def Let_def)

section \<open>Error criteria\<close>

definition failIf :: "bool \<Rightarrow> string \<Rightarrow> unit res" where
  "failIf cond msg = (if cond then Inl (Aborted msg) else Inr ())"

definition AbsoluteError :: "real \<Rightarrow> real \<Rightarrow> real \<Rightarrow> bool" where
  "AbsoluteError threshold refVal measured \<longleftrightarrow> \<bar>threshold\<bar> < \<bar>measured - refVal\<bar>"

text \<open>
  The relative error of a reference value of zero is infinite, or not a number for two zeros,
  which compares as false.
\<close>

definition RelativeError :: "real \<Rightarrow> real \<Rightarrow> real \<Rightarrow> bool" where
  "RelativeError threshold refVal measured \<longleftrightarrow>
     (if refVal = 0 then measured \<noteq> 0 else \<bar>threshold\<bar> < \<bar>(measured - refVal) / refVal\<bar>)"

lemma errors_irrefl: "\<not> AbsoluteError t x x" "\<not> RelativeError t x x"
  by (simp_all add: AbsoluteError_def RelativeError_def)

end
