(* ===== verification/Streams.thy ===== *)
theory Streams
  imports Decimal
begin

text \<open>
  The part of the input streams of the C++ library the sources read text with: lines with a
  delimiter, and extraction of words and of unsigned numbers in base 10 from a string. An
  extraction skips white space; on failure the stream stays failed, and an extraction from a
  failed stream leaves its variable alone. \<open>cppUtils/include/cpputils/StringHelp.h\<close> is modelled
  with them.
\<close>

section \<open>Lines\<close>

text \<open>\<open>std::getline\<close> until the stream is empty: a final delimiter does not start another line.\<close>

function getlines :: "char \<Rightarrow> string \<Rightarrow> string list" where
  "getlines delim [] = []"
| "getlines delim (c # cs) = takeWhile (\<lambda>x. x \<noteq> delim) (c # cs) #
     getlines delim (drop 1 (dropWhile (\<lambda>x. x \<noteq> delim) (c # cs)))"
  by pat_completeness auto
termination
proof (relation "measure (\<lambda>(d, s). length s)")
  fix delim c and cs :: string
  have "length (dropWhile (\<lambda>x. x \<noteq> delim) (c # cs)) \<le> Suc (length cs)"
    by (rule order_trans [OF length_dropWhile_le]) simp
  then show "((delim, drop 1 (dropWhile (\<lambda>x. x \<noteq> delim) (c # cs))), delim, c # cs) \<in> measure (\<lambda>(d, s). length s)"
    by (simp add: less_Suc_eq_le)
qed simp

abbreviation newline :: char where "newline \<equiv> CHR 0x0A"

lemma getlines_line: "delim \<notin> set l \<Longrightarrow> getlines delim (l @ delim # s) = l # getlines delim s"
proof (cases "l @ delim # s")
  case (Cons c cs)
  assume "delim \<notin> set l"
  then have "takeWhile (\<lambda>x. x \<noteq> delim) (l @ delim # s) = l" "dropWhile (\<lambda>x. x \<noteq> delim) (l @ delim # s) = delim # s"
    by (induction l) auto
  then show ?thesis using getlines.simps(2) [of delim c cs] unfolding Cons [symmetric] by simp
qed simp

lemma getlines_last: "delim \<notin> set l \<Longrightarrow> l \<noteq> [] \<Longrightarrow> getlines delim l = [l]"
proof (cases l)
  case (Cons c cs)
  assume "delim \<notin> set l"
  then have "takeWhile (\<lambda>x. x \<noteq> delim) l = l" "dropWhile (\<lambda>x. x \<noteq> delim) l = []"
    by (auto simp: takeWhile_eq_all_conv dropWhile_eq_Nil_conv)
  then show ?thesis using getlines.simps(2) [of delim c cs] unfolding Cons [symmetric]
    by (simp only: drop_Nil getlines.simps(1))
qed simp

lemma getlines_unlines:
  "(\<And>l. l \<in> set ls \<Longrightarrow> delim \<notin> set l) \<Longrightarrow> getlines delim (concat (map (\<lambda>l. l @ [delim]) ls)) = ls"
  by (induction ls) (simp_all add: getlines_line)

text \<open>\<open>splitCSVstr\<close> of \<open>StringHelp.h\<close> appends the items to its output.\<close>

definition splitCSVstr :: "string \<Rightarrow> string list \<Rightarrow> char \<Rightarrow> string list" where
  "splitCSVstr inputStr output delim = fold (\<lambda>item out. out @ [item]) (getlines delim inputStr) output"

text \<open>Items separated by a delimiter are read back, with an empty last item lost.\<close>

lemma splitCSVstr_join:
  assumes "\<And>l. l \<in> set (ls @ [x]) \<Longrightarrow> delim \<notin> set l"
  shows "splitCSVstr (concat (map (\<lambda>l. l @ [delim]) ls) @ x) out delim = out @ ls @ (if x = [] then [] else [x])"
proof -
  have a: "fold (\<lambda>item out. out @ [item]) items out = out @ items" for items out :: "string list"
    by (induction items arbitrary: out) simp_all
  have "getlines delim (concat (map (\<lambda>l. l @ [delim]) ls) @ x) = ls @ (if x = [] then [] else [x])"
    using assms by (induction ls) (simp_all add: getlines_line getlines_last)
  then show ?thesis unfolding splitCSVstr_def a by simp
qed

section \<open>String streams\<close>

record istream =
  is_buf :: string
  is_fail :: bool

definition istringstream :: "string \<Rightarrow> istream" where
  "istringstream s = \<lparr>is_buf = s, is_fail = False\<rparr>"

definition is_space :: "char \<Rightarrow> bool" where
  "is_space c \<longleftrightarrow> of_char c = (32 :: nat) \<or> (9 \<le> (of_char c :: nat) \<and> (of_char c :: nat) \<le> 13)"

text \<open>
  \<open>operator>>\<close> on an unsigned number below \<open>lim\<close>: an optional sign and digits. Without digits
  the variable gets 0, a number that is too large gives the largest one; both fail. A negative
  number wraps.
\<close>

definition split_sign :: "string \<Rightarrow> bool \<times> string" where
  "split_sign s = (if take 1 s = ''-'' then (True, drop 1 s)
                   else if take 1 s = ''+'' then (False, drop 1 s) else (False, s))"

definition get_unsigned :: "nat \<Rightarrow> nat \<Rightarrow> istream \<Rightarrow> nat \<times> istream" where
  "get_unsigned lim v ls =
    (if is_fail ls then (v, ls)
     else case dropWhile is_space (is_buf ls) of
       [] \<Rightarrow> (v, \<lparr>is_buf = [], is_fail = True\<rparr>)
     | s \<Rightarrow> (let (neg, t) = split_sign s; ds = takeWhile is_digit t; r = dropWhile is_digit t; n = dec_val ds in
         if ds = [] then (0, \<lparr>is_buf = r, is_fail = True\<rparr>)
         else if lim \<le> n then (lim - 1, \<lparr>is_buf = r, is_fail = True\<rparr>)
         else (if neg then (lim - n) mod lim else n, \<lparr>is_buf = r, is_fail = False\<rparr>)))"

definition get_u64 :: "nat \<Rightarrow> istream \<Rightarrow> nat \<times> istream" where
  "get_u64 = get_unsigned (2 ^ 64)"

definition get_u32 :: "32 word \<Rightarrow> istream \<Rightarrow> 32 word \<times> istream" where
  "get_u32 v ls = (let (n, ls) = get_unsigned (2 ^ 32) (unat v) ls in (of_nat n, ls))"

text \<open>\<open>operator>>\<close> on a string: the next word.\<close>

definition get_word :: "string \<Rightarrow> istream \<Rightarrow> string \<times> istream" where
  "get_word v ls =
    (if is_fail ls then (v, ls)
     else case dropWhile is_space (is_buf ls) of
       [] \<Rightarrow> (v, \<lparr>is_buf = [], is_fail = True\<rparr>)
     | s \<Rightarrow> (takeWhile (\<lambda>c. \<not> is_space c) s, \<lparr>is_buf = dropWhile (\<lambda>c. \<not> is_space c) s, is_fail = False\<rparr>))"

section \<open>Reading what was written\<close>

lemma space_blank [simp]: "is_space CHR '' ''"
  by (simp add: is_space_def)

lemma digit_not_space: "is_digit c \<Longrightarrow> \<not> is_space c"
  by (auto simp: is_digit_def is_space_def)

lemma takeWhile_all_stop: "list_all P xs \<Longrightarrow> ys = [] \<or> \<not> P (hd ys) \<Longrightarrow>
    takeWhile P (xs @ ys) = xs \<and> dropWhile P (xs @ ys) = ys"
  by (induction xs) (cases ys, auto)

lemma dec_first: "\<exists>c cs. dec n = c # cs \<and> is_digit c"
  using dec_digits [of n] dec_not_Nil [of n] by (cases "dec n") auto

lemma split_sign_digit: "is_digit c \<Longrightarrow> split_sign (c # s) = (False, c # s)"
  by (auto simp: split_sign_def is_digit_def)

lemma get_unsigned_dec:
  assumes "n < lim" "rest = [] \<or> \<not> is_digit (hd rest)"
  shows "get_unsigned lim v \<lparr>is_buf = dec n @ rest, is_fail = False\<rparr> = (n, \<lparr>is_buf = rest, is_fail = False\<rparr>)"
proof -
  obtain c cs where c: "dec n = c # cs" "is_digit c" using dec_first by blast
  have tw: "takeWhile is_digit (dec n @ rest) = dec n" "dropWhile is_digit (dec n @ rest) = rest"
    using takeWhile_all_stop [OF dec_digits assms(2)] by auto
  have ws: "dropWhile is_space (dec n @ rest) = dec n @ rest" using c digit_not_space by simp
  have sg: "split_sign (dec n @ rest) = (False, dec n @ rest)" using c split_sign_digit by simp
  have nn: "dec n @ rest = c # (cs @ rest)" using c(1) by simp
  show ?thesis
    unfolding get_unsigned_def istream.simps ws if_False
    using sg tw assms(1) dec_val_dec [of n]
    by (simp only: nn list.case) (simp add: c(1) [symmetric])
qed

lemma get_unsigned_blank:
  "get_unsigned lim v \<lparr>is_buf = CHR '' '' # s, is_fail = False\<rparr> = get_unsigned lim v \<lparr>is_buf = s, is_fail = False\<rparr>"
  by (simp add: get_unsigned_def)

lemma get_u64_dec:
  "n < 2 ^ 64 \<Longrightarrow> rest = [] \<or> \<not> is_digit (hd rest) \<Longrightarrow>
    get_u64 v \<lparr>is_buf = dec n @ rest, is_fail = False\<rparr> = (n, \<lparr>is_buf = rest, is_fail = False\<rparr>)"
  unfolding get_u64_def by (rule get_unsigned_dec)

lemma get_u64_blank:
  "get_u64 v \<lparr>is_buf = CHR '' '' # s, is_fail = False\<rparr> = get_u64 v \<lparr>is_buf = s, is_fail = False\<rparr>"
  unfolding get_u64_def by (rule get_unsigned_blank)

lemma get_u32_dec:
  "n < 2 ^ 32 \<Longrightarrow> rest = [] \<or> \<not> is_digit (hd rest) \<Longrightarrow>
    get_u32 v \<lparr>is_buf = dec n @ rest, is_fail = False\<rparr> = (of_nat n, \<lparr>is_buf = rest, is_fail = False\<rparr>)"
  by (simp add: get_u32_def get_unsigned_dec)

lemma get_u32_blank:
  "get_u32 v \<lparr>is_buf = CHR '' '' # s, is_fail = False\<rparr> = get_u32 v \<lparr>is_buf = s, is_fail = False\<rparr>"
  by (simp add: get_u32_def get_unsigned_blank)

lemma get_unsigned_fail: "is_fail ls \<Longrightarrow> get_unsigned lim v ls = (v, ls)"
  by (simp add: get_unsigned_def)

end
