(* ===== verification/CmdLine.thy ===== *)
theory CmdLine
  imports Streams
begin

text \<open>
  The command line parser of \<open>cppUtils/include/cpputils/CmdLine.h\<close>. The parser keeps pointers to
  options that its client owns: the options are a list of objects, a pointer is an index into
  it. The classes derived from \<open>OptionBase\<close> are the constructors of a data type over a common
  type of values; \<open>Option<T>\<close> carries the extraction of its T from a stream.
\<close>

section \<open>Options\<close>

datatype 'v opt =
    OptVal char string "'v \<Rightarrow> istream \<Rightarrow> 'v \<times> istream" 'v
  | OptBool char string bool
  | OptEnum char string "(string \<times> 'v) list" 'v

fun opt_name :: "'v opt \<Rightarrow> char" where
  "opt_name (OptVal c h g v) = c"
| "opt_name (OptBool c h b) = c"
| "opt_name (OptEnum c h m v) = c"

fun helpStr :: "'v opt \<Rightarrow> string" where
  "helpStr (OptVal c h g v) = h"
| "helpStr (OptBool c h b) = h"
| "helpStr (OptEnum c h m v) = h"

fun needsVal :: "'v opt \<Rightarrow> bool" where
  "needsVal (OptVal c h g v) = True"
| "needsVal (OptBool c h b) = False"
| "needsVal (OptEnum c h m v) = True"

fun initVal :: "string \<Rightarrow> 'v opt \<Rightarrow> 'v opt res" where
  "initVal val (OptVal c h g v) =
    (let (v, ss) = g v (istringstream val) in
     if is_fail ss \<or> is_buf ss \<noteq> [] then Inl (Aborted ''Bad value'') else Inr (OptVal c h g v))"
| "initVal val (OptBool c h b) = Inr (OptBool c h True)"
| "initVal val (OptEnum c h m v) = (case map_of m val of
     None \<Rightarrow> Inl (Aborted ''Bad value'') | Some e \<Rightarrow> Inr (OptEnum c h m e))"

text \<open>\<open>EnumOption::strVal\<close>; the map is given in the order of its iteration.\<close>

fun strVal :: "'v opt \<Rightarrow> string" where
  "strVal (OptEnum c h m v) = (case find (\<lambda>p. snd p = v) m of Some p \<Rightarrow> fst p | None \<Rightarrow> h)"
| "strVal opt = helpStr opt"

section \<open>The parser\<close>

record parser =
  mNonOpts :: "string list"
  mOpts :: "nat list"
  mOptKeys :: "char list"

definition deref_opt :: "'v opt list \<Rightarrow> nat \<Rightarrow> 'v opt res" where
  "deref_opt os ptr = (if ptr < length os then Inr (os ! ptr) else Inl (Undefined ''OptionBase*''))"

definition addOption :: "'v opt list \<Rightarrow> nat \<Rightarrow> parser \<Rightarrow> parser res" where
  "addOption os ptr p = rbind (deref_opt os ptr) (\<lambda>opt.
     Inr (p\<lparr>mOpts := mOpts p @ [ptr], mOptKeys := mOptKeys p @ [opt_name opt]\<rparr>))"

definition parser_make :: "'v opt list \<Rightarrow> nat list \<Rightarrow> parser res" where
  "parser_make os opts = for_each (\<lambda>ptr p. rbind (deref_opt os ptr) (\<lambda>opt.
     Inr (p\<lparr>mOptKeys := mOptKeys p @ [opt_name opt]\<rparr>))) opts \<lparr>mNonOpts = [], mOpts = opts, mOptKeys = []\<rparr>"

text \<open>\<open>printHelp\<close>: the lines of the help text; \<open>helpExit\<close> prints it and aborts.\<close>

definition printHelp :: "'v opt list \<Rightarrow> parser \<Rightarrow> string list res" where
  "printHelp os p = for_each (\<lambda>ptr out. rbind (deref_opt os ptr) (\<lambda>opt.
     Inr (out @ [''-'' @ [opt_name opt] @ (if needsVal opt then '' <val>'' else []) @ ''   :    '' @ helpStr opt])))
     (mOpts p) [''Usage: progname [options]'', ''Options: '']"

definition helpExit :: "string \<Rightarrow> 'a res" where
  "helpExit msg = Inl (Aborted msg)"

definition findOption :: "parser \<Rightarrow> char \<Rightarrow> nat res" where
  "findOption p argName =
    (let i = length (takeWhile (\<lambda>c. c \<noteq> argName) (mOptKeys p)) in
     if i = length (mOptKeys p) then helpExit (''Unrecognized option: '' @ [argName])
     else rbind (check (i < length (mOpts p)) ''size_t(index) < mOpts.size()'') (\<lambda>_. Inr (mOpts p ! i)))"

definition init_opt :: "nat \<Rightarrow> string \<Rightarrow> 'v opt list \<Rightarrow> 'v opt list res" where
  "init_opt ptr val os = rbind (deref_opt os ptr) (\<lambda>opt. rbind (initVal val opt) (\<lambda>opt. Inr (os[ptr := opt])))"

text \<open>
  The loop of \<open>parse\<close> over the arguments that are left; the first character of an empty argument
  is the null character.
\<close>

fun parse_args :: "string list \<Rightarrow> 'v opt list \<times> parser \<Rightarrow> ('v opt list \<times> parser) res" where
  "parse_args [] (os, p) = Inr (os, p)"
| "parse_args (arg # args) (os, p) =
    (if take 1 arg = ''-'' then
       if length arg \<noteq> 2 then helpExit (''Unrecognized Option: '' @ arg)
       else rbind (findOption p (arg ! 1)) (\<lambda>opt. rbind (deref_opt os opt) (\<lambda>obj.
         if needsVal obj then
           (case args of
             [] \<Rightarrow> Inl (AssertFail ''i < numArgs'')
           | argVal # args \<Rightarrow> rbind (init_opt opt argVal os) (\<lambda>os. parse_args args (os, p)))
         else rbind (init_opt opt ''true'' os) (\<lambda>os. parse_args args (os, p))))
     else parse_args args (os, p\<lparr>mNonOpts := mNonOpts p @ [arg]\<rparr>))"

definition parse :: "string list \<Rightarrow> bool \<Rightarrow> 'v opt list \<times> parser \<Rightarrow> ('v opt list \<times> parser) res" where
  "parse argsArr ignoreFirst st = parse_args (drop (if ignoreFirst then 1 else 0) argsArr) st"

section \<open>Well-formed parsers\<close>

text \<open>Different options with different names.\<close>

definition parser_ok :: "'v opt list \<Rightarrow> parser \<Rightarrow> bool" where
  "parser_ok os p \<longleftrightarrow> distinct (mOpts p) \<and> (\<forall>ptr \<in> set (mOpts p). ptr < length os) \<and>
     mOptKeys p = map (\<lambda>ptr. opt_name (os ! ptr)) (mOpts p) \<and> distinct (mOptKeys p)"

lemma initVal_keeps: "initVal v opt = Inr opt' \<Longrightarrow> opt_name opt' = opt_name opt \<and> needsVal opt' = needsVal opt"
  by (cases opt) (auto split: prod.splits if_splits option.splits)

lemma parser_make_loop:
  assumes "\<forall>ptr \<in> set opts. ptr < length os"
  shows "for_each (\<lambda>ptr p. rbind (deref_opt os ptr) (\<lambda>opt. Inr (p\<lparr>mOptKeys := mOptKeys p @ [opt_name opt]\<rparr>))) opts p =
    Inr (p\<lparr>mOptKeys := mOptKeys p @ map (\<lambda>ptr. opt_name (os ! ptr)) opts\<rparr>)"
  using assms by (induction opts arbitrary: p) (simp_all add: deref_opt_def)

lemma parser_make_ok:
  assumes "distinct opts" "\<forall>ptr \<in> set opts. ptr < length os" "distinct (map (\<lambda>ptr. opt_name (os ! ptr)) opts)"
  shows "\<exists>p. parser_make os opts = Inr p \<and> parser_ok os p \<and> mOpts p = opts \<and> mNonOpts p = []"
  unfolding parser_make_def parser_make_loop [OF assms(2)] using assms by (auto simp: parser_ok_def)

lemma addOption_ok:
  assumes "parser_ok os p" "ptr < length os" "ptr \<notin> set (mOpts p)" "opt_name (os ! ptr) \<notin> set (mOptKeys p)"
  shows "\<exists>p'. addOption os ptr p = Inr p' \<and> parser_ok os p' \<and> mOpts p' = mOpts p @ [ptr]"
  using assms by (auto simp: addOption_def deref_opt_def parser_ok_def)

text \<open>The option with a name.\<close>

definition option_of :: "'v opt list \<Rightarrow> parser \<Rightarrow> char \<Rightarrow> nat option" where
  "option_of os p c = find (\<lambda>ptr. opt_name (os ! ptr) = c) (mOpts p)"

lemma first_position: "(case find P xs of None \<Rightarrow> length (takeWhile (\<lambda>x. \<not> P x) xs) = length xs
    | Some x \<Rightarrow> length (takeWhile (\<lambda>x. \<not> P x) xs) < length xs \<and> xs ! length (takeWhile (\<lambda>x. \<not> P x) xs) = x)"
  by (induction xs) (auto split: option.splits)

lemma findOption_eq:
  assumes "parser_ok os p"
  shows "findOption p c = (case option_of os p c of
     None \<Rightarrow> Inl (Aborted (''Unrecognized option: '' @ [c])) | Some ptr \<Rightarrow> Inr ptr)"
proof -
  have "length (takeWhile (\<lambda>x. x \<noteq> c) (mOptKeys p)) = length (takeWhile (\<lambda>ptr. opt_name (os ! ptr) \<noteq> c) (mOpts p))"
    using assms by (simp add: parser_ok_def takeWhile_map comp_def)
  moreover have "length (mOptKeys p) = length (mOpts p)" using assms by (simp add: parser_ok_def)
  ultimately show ?thesis
    using first_position [of "\<lambda>ptr. opt_name (os ! ptr) = c" "mOpts p"]
    by (auto simp: findOption_def option_of_def helpExit_def Let_def split: option.splits)
qed

lemma find_SomeD: "find P xs = Some x \<Longrightarrow> x \<in> set xs \<and> P x"
  by (induction xs) (auto split: if_splits)

lemma find_ex: "x \<in> set xs \<Longrightarrow> P x \<Longrightarrow> \<exists>y. find P xs = Some y"
  by (induction xs) auto

lemma names_inj:
  "parser_ok os p \<Longrightarrow> x \<in> set (mOpts p) \<Longrightarrow> y \<in> set (mOpts p) \<Longrightarrow> opt_name (os ! x) = opt_name (os ! y) \<Longrightarrow> x = y"
  by (auto simp: parser_ok_def distinct_map dest: inj_onD)

lemma option_of_Some:
  assumes ok: "parser_ok os p"
  shows "option_of os p c = Some ptr \<longleftrightarrow> ptr \<in> set (mOpts p) \<and> opt_name (os ! ptr) = c"
proof
  assume "option_of os p c = Some ptr"
  then show "ptr \<in> set (mOpts p) \<and> opt_name (os ! ptr) = c"
    unfolding option_of_def by (rule find_SomeD)
next
  assume a: "ptr \<in> set (mOpts p) \<and> opt_name (os ! ptr) = c"
  obtain q where q: "option_of os p c = Some q"
    using find_ex [of ptr "mOpts p" "\<lambda>ptr. opt_name (os ! ptr) = c"] a unfolding option_of_def by blast
  have "q \<in> set (mOpts p) \<and> opt_name (os ! q) = c" using find_SomeD q unfolding option_of_def by fast
  then have "q = ptr" using names_inj [OF ok, of q ptr] a by simp
  then show "option_of os p c = Some ptr" using q by simp
qed

section \<open>What a command line says\<close>

datatype item = NonOpt string | Flag char | Setting char string

fun render :: "item \<Rightarrow> string list" where
  "render (NonOpt s) = [s]"
| "render (Flag c) = [[CHR ''-'', c]]"
| "render (Setting c v) = [[CHR ''-'', c], v]"

fun item_ok :: "'v opt list \<Rightarrow> parser \<Rightarrow> item \<Rightarrow> bool" where
  "item_ok os p (NonOpt s) \<longleftrightarrow> take 1 s \<noteq> ''-''"
| "item_ok os p (Flag c) \<longleftrightarrow> (\<exists>ptr. option_of os p c = Some ptr \<and> \<not> needsVal (os ! ptr))"
| "item_ok os p (Setting c v) \<longleftrightarrow> (\<exists>ptr. option_of os p c = Some ptr \<and> needsVal (os ! ptr))"

fun nonopts :: "item list \<Rightarrow> string list" where
  "nonopts [] = []"
| "nonopts (NonOpt s # is) = s # nonopts is"
| "nonopts (_ # is) = nonopts is"

text \<open>The values the items give to the option with a name, in order.\<close>

fun vals_of :: "char \<Rightarrow> item list \<Rightarrow> string list" where
  "vals_of c [] = []"
| "vals_of c (NonOpt s # is) = vals_of c is"
| "vals_of c (Flag d # is) = (if d = c then ''true'' # vals_of c is else vals_of c is)"
| "vals_of c (Setting d v # is) = (if d = c then v # vals_of c is else vals_of c is)"

text \<open>
  The meaning of items: the arguments that are not options are appended, and each option is
  initialised with the values for its name one after the other.
\<close>

definition meaning :: "item list \<Rightarrow> 'v opt list \<times> parser \<Rightarrow> 'v opt list \<times> parser \<Rightarrow> bool" where
  "meaning is = (\<lambda>(os, p) (os', p'). p' = p\<lparr>mNonOpts := mNonOpts p @ nonopts is\<rparr> \<and> length os' = length os \<and>
     (\<forall>q < length os. if q \<in> set (mOpts p) then for_each initVal (vals_of (opt_name (os ! q)) is) (os ! q) = Inr (os' ! q)
        else os' ! q = os ! q))"

end
