(* ===== verification/CmdLineLaws.thy ===== *)
theory CmdLineLaws
  imports CmdLine
begin

text \<open>
  The parser of command lines accepts exactly the renderings of items, and its result is what
  the items mean.
\<close>

section \<open>Initialising one option\<close>

lemma parser_ok_update:
  assumes "parser_ok os p" "ptr \<in> set (mOpts p)" "opt_name o' = opt_name (os ! ptr)"
  shows "parser_ok (os[ptr := o']) p"
proof -
  have "opt_name (os[ptr := o'] ! q) = opt_name (os ! q)" if "q \<in> set (mOpts p)" for q
    using assms that by (cases "q = ptr") (auto simp: parser_ok_def)
  then have "map (\<lambda>q. opt_name (os[ptr := o'] ! q)) (mOpts p) = map (\<lambda>q. opt_name (os ! q)) (mOpts p)"
    by (rule map_cong [OF refl])
  then show ?thesis using assms(1) unfolding parser_ok_def length_list_update by metis
qed

lemma parser_ok_nonopts [simp]: "parser_ok os (p\<lparr>mNonOpts := x\<rparr>) = parser_ok os p"
  by (auto simp: parser_ok_def)

lemma init_opt_eq:
  assumes "parser_ok os p" "option_of os p c = Some ptr"
  shows "init_opt ptr val os = rbind (initVal val (os ! ptr)) (\<lambda>o'. Inr (os[ptr := o']))"
  using assms option_of_Some [OF assms(1), of c ptr] by (auto simp: init_opt_def deref_opt_def parser_ok_def)

lemma after_ptr:
  assumes ok: "parser_ok os p" and c: "option_of os p c = Some ptr" and init: "initVal val (os ! ptr) = Inr o'"
  shows "ptr \<in> set (mOpts p)" "ptr < length os" "opt_name (os ! ptr) = c"
    "opt_name o' = c" "needsVal o' = needsVal (os ! ptr)"
  using option_of_Some [OF ok, of c ptr] ok c initVal_keeps [OF init] by (auto simp: parser_ok_def)

lemma after_ok:
  assumes ok: "parser_ok os p" and c: "option_of os p c = Some ptr" and init: "initVal val (os ! ptr) = Inr o'"
  shows "parser_ok (os[ptr := o']) p"
  using parser_ok_update [OF ok] after_ptr [OF assms] by simp

lemma after_name:
  assumes ok: "parser_ok os p" and c: "option_of os p c = Some ptr" and init: "initVal val (os ! ptr) = Inr o'"
  shows "opt_name (os[ptr := o'] ! q) = opt_name (os ! q)"
  using after_ptr [OF assms] by (cases "q = ptr") simp_all

lemma after_needs:
  assumes ok: "parser_ok os p" and c: "option_of os p c = Some ptr" and init: "initVal val (os ! ptr) = Inr o'"
  shows "needsVal (os[ptr := o'] ! q) = needsVal (os ! q)"
  using after_ptr [OF assms] by (cases "q = ptr") simp_all

lemma after_item:
  assumes ok: "parser_ok os p" and c: "option_of os p c = Some ptr" and init: "initVal val (os ! ptr) = Inr o'"
  shows "item_ok (os[ptr := o']) p it = item_ok os p it"
  by (cases it) (simp_all add: after_needs [OF assms] option_of_Some [OF ok] option_of_Some [OF after_ok [OF assms]] after_name [OF assms])

lemma after_meaning:
  assumes ok: "parser_ok os p" and c: "option_of os p c = Some ptr" and init: "initVal val (os ! ptr) = Inr o'"
    and first: "\<And>d. vals_of d (it # is) = (if d = c then val # vals_of d is else vals_of d is)"
    and none: "nonopts (it # is) = nonopts is"
  shows "meaning (it # is) (os, p) r \<longleftrightarrow> meaning is (os[ptr := o'], p) r"
proof -
  obtain os' p' where r: "r = (os', p')" by (cases r)
  have "(if q \<in> set (mOpts p) then for_each initVal (vals_of (opt_name (os ! q)) (it # is)) (os ! q) = Inr (os' ! q)
        else os' ! q = os ! q) \<longleftrightarrow>
      (if q \<in> set (mOpts p) then for_each initVal (vals_of (opt_name (os[ptr := o'] ! q)) is) (os[ptr := o'] ! q) = Inr (os' ! q)
        else os' ! q = os[ptr := o'] ! q)" for q
  proof (cases "q = ptr")
    case True
    then show ?thesis using after_ptr [OF ok c init] init unfolding first after_name [OF ok c init] by simp
  next
    case False
    then have "q \<in> set (mOpts p) \<Longrightarrow> opt_name (os ! q) \<noteq> c"
      using names_inj [OF ok, of q ptr] after_ptr [OF ok c init] by auto
    then show ?thesis using False unfolding first after_name [OF ok c init] by auto
  qed
  then show ?thesis unfolding r meaning_def prod.case none length_list_update by blast
qed

lemma meaning_NonOpt: "meaning (NonOpt s # is) (os, p) r \<longleftrightarrow> meaning is (os, p\<lparr>mNonOpts := mNonOpts p @ [s]\<rparr>) r"
  by (cases r) (simp add: meaning_def)

text \<open>An option whose initialisation fails has no meaning.\<close>

lemma meaning_fails:
  assumes ok: "parser_ok os p" and c: "option_of os p c = Some ptr" and m: "meaning (it # is) (os, p) r"
    and first: "vals_of c (it # is) = val # vals_of c is"
  shows "\<exists>o'. initVal val (os ! ptr) = Inr o'"
proof -
  obtain os' p' where r: "r = (os', p')" by (cases r)
  have "ptr \<in> set (mOpts p)" "ptr < length os" "opt_name (os ! ptr) = c"
    using option_of_Some [OF ok, of c ptr] ok c by (auto simp: parser_ok_def)
  then have "for_each initVal (val # vals_of c is) (os ! ptr) = Inr (os' ! ptr)"
    using m first unfolding r meaning_def by auto
  then show ?thesis by (auto simp: res_elims)
qed

section \<open>Parsing\<close>

lemma parse_complete:
  assumes "parser_ok os p" "list_all (item_ok os p) is" "meaning is (os, p) r"
  shows "parse_args (concat (map render is)) (os, p) = Inr r"
  using assms
proof (induction "is" arbitrary: os p)
  case Nil
  obtain os' p' where r: "r = (os', p')" by (cases r)
  have "os' = os" using Nil.prems(3) unfolding r meaning_def by (auto intro!: nth_equalityI split: if_splits)
  then show ?case using Nil.prems(3) unfolding r meaning_def by simp
next
  case (Cons it "is")
  note ok = Cons.prems(1)
  show ?case
  proof (cases it)
    case (NonOpt s)
    let ?p = "p\<lparr>mNonOpts := mNonOpts p @ [s]\<rparr>"
    have ok': "parser_ok os ?p" using ok by simp
    have "item_ok os ?p x = item_ok os p x" for x by (cases x) (simp_all add: option_of_def)
    then have all: "list_all (item_ok os ?p) is" using Cons.prems(2) by (simp add: list_all_iff)
    have m: "meaning is (os, ?p) r" using Cons.prems(3) meaning_NonOpt [of s "is" os p r] NonOpt by simp
    show ?thesis using Cons.IH [OF ok' all m] Cons.prems(2) NonOpt by simp
  next
    case (Flag c)
    then obtain ptr where ptr: "option_of os p c = Some ptr" "\<not> needsVal (os ! ptr)" using Cons.prems(2) by auto
    obtain o' where o': "initVal ''true'' (os ! ptr) = Inr o'"
      using meaning_fails [OF ok ptr(1) Cons.prems(3), of "''true''"] Flag by auto
    have "meaning is (os[ptr := o'], p) r"
      using after_meaning [OF ok ptr(1) o', of it "is" r] Cons.prems(3) Flag by simp
    moreover have "list_all (item_ok (os[ptr := o']) p) is"
      using Cons.prems(2) after_item [OF ok ptr(1) o'] by (simp add: list_all_iff)
    ultimately have "parse_args (concat (map render is)) (os[ptr := o'], p) = Inr r"
      using Cons.IH after_ok [OF ok ptr(1) o'] by blast
    then show ?thesis
      using Flag ptr o' findOption_eq [OF ok, of c] init_opt_eq [OF ok ptr(1), of "''true''"] after_ptr(2) [OF ok ptr(1) o']
      by (simp add: deref_opt_def)
  next
    case (Setting c v)
    then obtain ptr where ptr: "option_of os p c = Some ptr" "needsVal (os ! ptr)" using Cons.prems(2) by auto
    obtain o' where o': "initVal v (os ! ptr) = Inr o'"
      using meaning_fails [OF ok ptr(1) Cons.prems(3), of v] Setting by auto
    have "meaning is (os[ptr := o'], p) r"
      using after_meaning [OF ok ptr(1) o', of it "is" r] Cons.prems(3) Setting by simp
    moreover have "list_all (item_ok (os[ptr := o']) p) is"
      using Cons.prems(2) after_item [OF ok ptr(1) o'] by (simp add: list_all_iff)
    ultimately have "parse_args (concat (map render is)) (os[ptr := o'], p) = Inr r"
      using Cons.IH after_ok [OF ok ptr(1) o'] by blast
    then show ?thesis
      using Setting ptr o' findOption_eq [OF ok, of c] init_opt_eq [OF ok ptr(1), of v] after_ptr(2) [OF ok ptr(1) o']
      by (simp add: deref_opt_def)
  qed
qed

lemma parse_sound:
  assumes "parser_ok os p" "parse_args args (os, p) = Inr r"
  shows "\<exists>is. args = concat (map render is) \<and> list_all (item_ok os p) is \<and> meaning is (os, p) r"
  using assms
proof (induction "length args" arbitrary: args os p rule: less_induct)
  case less
  note ok = less.prems(1)
  show ?case
  proof (cases args)
    case Nil
    have "meaning [] (os, p) r" using less.prems(2) Nil by (auto simp: meaning_def)
    then show ?thesis using Nil by (intro exI [of _ "[]"]) simp
  next
    case (Cons arg rest)
    show ?thesis
    proof (cases "take 1 arg = ''-''")
      case False
      let ?p = "p\<lparr>mNonOpts := mNonOpts p @ [arg]\<rparr>"
      have ok': "parser_ok os ?p" using ok by simp
      have "parse_args rest (os, ?p) = Inr r" using less.prems(2) Cons False by simp
      then obtain "is" where i: "rest = concat (map render is)" "list_all (item_ok os ?p) is" "meaning is (os, ?p) r"
        using less.hyps [OF _ ok', of rest] Cons by auto
      have "item_ok os ?p x = item_ok os p x" for x by (cases x) (simp_all add: option_of_def)
      then have "list_all (item_ok os p) (NonOpt arg # is)" using i(2) False by (simp add: list_all_iff)
      then show ?thesis using i Cons meaning_NonOpt [of arg "is" os p r] by (intro exI [of _ "NonOpt arg # is"]) simp
    next
      case True
      have two: "length arg = 2" using less.prems(2) Cons True by (auto simp: helpExit_def split: if_splits)
      then obtain c where arg: "arg = [CHR ''-'', c]" using True
        by (cases arg; cases "drop 1 arg") (auto simp: length_Suc_conv numeral_2_eq_2)
      obtain ptr where ptr: "option_of os p c = Some ptr"
        using less.prems(2) Cons arg findOption_eq [OF ok, of c] by (cases "option_of os p c") auto
      have b: "ptr < length os" using option_of_Some [OF ok, of c ptr] ok ptr by (auto simp: parser_ok_def)
      show ?thesis
      proof (cases "needsVal (os ! ptr)")
        case False
        obtain o' where o': "initVal ''true'' (os ! ptr) = Inr o'" "parse_args rest (os[ptr := o'], p) = Inr r"
          using less.prems(2) Cons arg ptr b False findOption_eq [OF ok, of c] init_opt_eq [OF ok ptr]
          by (auto simp: deref_opt_def res_elims)
        obtain "is" where i: "rest = concat (map render is)" "list_all (item_ok (os[ptr := o']) p) is" "meaning is (os[ptr := o'], p) r"
          using less.hyps [OF _ after_ok [OF ok ptr o'(1)] o'(2)] Cons by auto
        have "list_all (item_ok os p) (Flag c # is)"
          using i(2) after_item [OF ok ptr o'(1)] ptr False by (simp add: list_all_iff)
        moreover have "meaning (Flag c # is) (os, p) r" using after_meaning [OF ok ptr o'(1)] i(3) by simp
        ultimately show ?thesis using i(1) Cons arg by (intro exI [of _ "Flag c # is"]) simp
      next
        case needs: True
        obtain v rest' where rest: "rest = v # rest'"
          using less.prems(2) Cons arg ptr b needs findOption_eq [OF ok, of c]
          by (cases rest) (auto simp: deref_opt_def)
        obtain o' where o': "initVal v (os ! ptr) = Inr o'" "parse_args rest' (os[ptr := o'], p) = Inr r"
          using less.prems(2) Cons arg ptr b needs rest findOption_eq [OF ok, of c] init_opt_eq [OF ok ptr]
          by (auto simp: deref_opt_def res_elims)
        obtain "is" where i: "rest' = concat (map render is)" "list_all (item_ok (os[ptr := o']) p) is" "meaning is (os[ptr := o'], p) r"
          using less.hyps [OF _ after_ok [OF ok ptr o'(1)] o'(2)] Cons rest by auto
        have "list_all (item_ok os p) (Setting c v # is)"
          using i(2) after_item [OF ok ptr o'(1)] ptr needs by (simp add: list_all_iff)
        moreover have "meaning (Setting c v # is) (os, p) r" using after_meaning [OF ok ptr o'(1)] i(3) by simp
        ultimately show ?thesis using i(1) Cons arg rest by (intro exI [of _ "Setting c v # is"]) simp
      qed
    qed
  qed
qed

text \<open>
  C29: a parser with options of different names accepts a command line exactly when, after the
  program name, it is a sequence of arguments without a dash, names of options without a value
  and names of options followed by a value, and each option accepts the values given for it
  one after the other; the arguments without a dash are then collected in order and every
  option has been initialised with exactly its values.
\<close>

theorem parse_grammar:
  assumes "parser_ok os p"
  shows "parse (prog # args) True (os, p) = Inr r \<longleftrightarrow>
    (\<exists>is. args = concat (map render is) \<and> list_all (item_ok os p) is \<and> meaning is (os, p) r)"
proof
  assume "parse (prog # args) True (os, p) = Inr r"
  then show "\<exists>is. args = concat (map render is) \<and> list_all (item_ok os p) is \<and> meaning is (os, p) r"
    using parse_sound [OF assms] by (simp add: parse_def)
next
  assume "\<exists>is. args = concat (map render is) \<and> list_all (item_ok os p) is \<and> meaning is (os, p) r"
  then obtain "is" where i: "args = concat (map render is)" "list_all (item_ok os p) is" "meaning is (os, p) r" by blast
  show "parse (prog # args) True (os, p) = Inr r"
    using parse_complete [OF assms i(2,3)] i(1) by (simp add: parse_def)
qed

definition demo_opts :: "nat opt list" where
  "demo_opts = [OptVal CHR ''n'' ''Number of Tasks to launch'' get_u64 1024, OptBool CHR ''o'' ''Ordered vs Unordered Launch'' False,
     OptEnum CHR ''k'' ''Kind'' [(''cpu'', 1), (''gpu'', 2)] 1]"

definition demo_parser :: parser where
  "demo_parser = \<lparr>mNonOpts = [], mOpts = [0, 1, 2], mOptKeys = [CHR ''n'', CHR ''o'', CHR ''k'']\<rparr>"

theorem parse_grammar_witness:
  "parser_make demo_opts [0, 1, 2] = Inr demo_parser \<and>
    (parse [''prog'', ''-n'', ''77'', ''in'', ''-o'', ''-k'', ''gpu''] True (demo_opts, demo_parser) =
      Inr ([OptVal CHR ''n'' ''Number of Tasks to launch'' get_u64 77, OptBool CHR ''o'' ''Ordered vs Unordered Launch'' True,
        OptEnum CHR ''k'' ''Kind'' [(''cpu'', 1), (''gpu'', 2)] 2], demo_parser\<lparr>mNonOpts := [''in'']\<rparr>))"
proof -
  have ok: "parser_ok demo_opts demo_parser" by (auto simp: parser_ok_def demo_opts_def demo_parser_def)
  have n: "get_u64 v \<lparr>is_buf = ''77'', is_fail = False\<rparr> = (77, \<lparr>is_buf = [], is_fail = False\<rparr>)" for v
    by (simp add: get_u64_def get_unsigned_def is_space_def split_sign_def is_digit_def dec_val_def)
  have m: "parser_make demo_opts [0, 1, 2] = Inr demo_parser"
    by (simp add: parser_make_def demo_opts_def demo_parser_def deref_opt_def)
  show ?thesis
    unfolding parse_grammar [OF ok]
    using m n
    by (intro conjI exI [of _ "[Setting CHR ''n'' ''77'', NonOpt ''in'', Flag CHR ''o'', Setting CHR ''k'' ''gpu'']"])
      (simp_all add: demo_opts_def demo_parser_def option_of_def meaning_def istringstream_def All_less_Suc numeral_3_eq_3 nth_Cons')
qed

end
