(* ===== verification/Sparse.thy ===== *)
theory Sparse
  imports Streams
begin

text \<open>
  Sparse matrices, \<open>cppUtils/include/cpputils/SparseMatrix.h\<close>: adjacency lists read from a file
  in the Matrix Market format, and the compressed form built from them. Node identifiers have
  the default type \<open>uint32_t\<close>, sizes are \<open>size_t\<close>; the type of the edge data is a parameter,
  and so is the extraction of edge data from a stream (of a \<open>double\<close>, by default).
\<close>

section \<open>Adjacency lists\<close>

record 'e gsm =
  m_numNodes :: nat
  m_numEdges :: nat
  m_adjVecs :: "(32 word \<times> 'e) list list"

definition gsm_empty :: "'e gsm" where
  "gsm_empty = \<lparr>m_numNodes = 0, m_numEdges = 0, m_adjVecs = []\<rparr>"

text \<open>
  \<open>resize\<close> throws \<open>length_error\<close> beyond \<open>max_size\<close>, which for a vector of vectors of 24 bytes is the
  largest \<open>ptrdiff_t\<close> divided by 24; nothing catches it.
\<close>

definition adjVecs_max_size :: nat where "adjVecs_max_size = (2 ^ 63 - 1) div 24"

definition vec_resize :: "nat \<Rightarrow> nat \<Rightarrow> 'a \<Rightarrow> 'a list \<Rightarrow> 'a list res" where
  "vec_resize max_size n x xs = (if n \<le> max_size then Inr (take n xs @ replicate (n - length xs) x)
     else Inl (Aborted ''length_error''))"

definition gsm_alloc :: "nat \<Rightarrow> nat \<Rightarrow> 'e gsm \<Rightarrow> 'e gsm res" where
  "gsm_alloc numNodes numEdges m = rbind (vec_resize adjVecs_max_size numNodes [] (m_adjVecs m)) (\<lambda>vecs.
     Inr (m\<lparr>m_numNodes := numNodes, m_numEdges := numEdges, m_adjVecs := vecs\<rparr>))"

definition gsm_addEdge :: "32 word \<Rightarrow> 32 word \<Rightarrow> 'e \<Rightarrow> 'e gsm \<Rightarrow> 'e gsm res" where
  "gsm_addEdge src dst ed m =
    rbind (check (unat src < m_numNodes m) ''src ID out of bounds'') (\<lambda>_.
    rbind (check (unat dst < m_numNodes m) ''dst ID out of bounds'') (\<lambda>_.
    if unat src < length (m_adjVecs m)
    then Inr (m\<lparr>m_adjVecs := (m_adjVecs m)[unat src := (m_adjVecs m ! unat src) @ [(dst, ed)]]\<rparr>)
    else Inl (Undefined ''m_adjVecs[src]'')))"

text \<open>The range of the edges of a node, from \<open>adjBegin\<close> to \<open>adjEnd\<close>.\<close>

definition gsm_adj :: "'e gsm \<Rightarrow> nat \<Rightarrow> (32 word \<times> 'e) list res" where
  "gsm_adj m i = rbind (check (i < m_numNodes m) ''adjBegin: index out of bound'') (\<lambda>_.
    if i < length (m_adjVecs m) then Inr (m_adjVecs m ! i) else Inl (Undefined ''m_adjVecs[i]''))"

definition readTriple :: "('a \<Rightarrow> istream \<Rightarrow> 'a \<times> istream) \<Rightarrow> ('b \<Rightarrow> istream \<Rightarrow> 'b \<times> istream) \<Rightarrow>
    ('c \<Rightarrow> istream \<Rightarrow> 'c \<times> istream) \<Rightarrow> string \<Rightarrow> 'a \<Rightarrow> 'b \<Rightarrow> 'c \<Rightarrow> 'a \<times> 'b \<times> 'c" where
  "readTriple get1 get2 get3 line first second third =
    (let ls = istringstream line;
         (first, ls) = get1 first ls;
         (second, ls) = get2 second ls;
         (third, ls) = get3 third ls
     in (first, second, third))"

text \<open>
  One line of the file. \<open>line[0]\<close> of an empty line is the null character, so such a line is
  not skipped.
\<close>

definition market_line :: "('e::zero \<Rightarrow> istream \<Rightarrow> 'e \<times> istream) \<Rightarrow> string \<Rightarrow> bool \<times> 'e gsm \<Rightarrow> (bool \<times> 'e gsm) res" where
  "market_line getE line = (\<lambda>(first, m).
    if take 1 line = ''%'' then Inr (first, m)
    else if first then
      (let (srcNodes, dstNodes, numEdges) = readTriple get_u64 get_u64 get_u64 line 0 0 0 in
       rbind (check (srcNodes > 0) ''srcNodes > 0'') (\<lambda>_.
       rbind (check (dstNodes > 0) ''dstNodes > 0'') (\<lambda>_.
       let numNodes = max srcNodes dstNodes in rbind (gsm_alloc numNodes numEdges m) (\<lambda>m. Inr (False, m)))))
    else
      (let (src, dst, ed) = readTriple get_u32 get_u32 getE line 0 0 0 in
       rbind (gsm_addEdge (src - 1) (dst - 1) ed m) (\<lambda>m. Inr (False, m))))"

text \<open>The argument is the text of the file, \<open>None\<close> when it cannot be opened.\<close>

definition readMatrixMarket :: "('e::zero \<Rightarrow> istream \<Rightarrow> 'e \<times> istream) \<Rightarrow> string option \<Rightarrow> 'e gsm \<Rightarrow> 'e gsm res" where
  "readMatrixMarket getE file m = (case file of
     None \<Rightarrow> Inl (Aborted ''Failed to open file'')
   | Some content \<Rightarrow> rbind (for_each (market_line getE) (getlines newline content) (True, m)) (\<lambda>(_, m). Inr m))"

section \<open>The compressed form\<close>

record 'e csr =
  c_numNodes :: nat
  c_numEdges :: nat
  m_index :: "32 word list"
  m_adj :: "32 word list"
  m_edgeData :: "'e list"

definition csr_empty :: "'e csr" where
  "csr_empty = \<lparr>c_numNodes = 0, c_numEdges = 0, m_index = [], m_adj = [], m_edgeData = []\<rparr>"

definition csr_alloc :: "nat \<Rightarrow> nat \<Rightarrow> 'e csr \<Rightarrow> 'e csr" where
  "csr_alloc numNodes numEdges c = c\<lparr>c_numNodes := numNodes, c_numEdges := numEdges\<rparr>"

definition csr_dealloc :: "'e csr \<Rightarrow> 'e csr" where
  "csr_dealloc c = c\<lparr>m_index := [], m_adj := [], m_edgeData := [], c_numNodes := 0, c_numEdges := 0\<rparr>"

definition csr_edge :: "32 word \<times> 'e \<Rightarrow> 'e csr \<times> 32 word \<Rightarrow> 'e csr \<times> 32 word" where
  "csr_edge e = (\<lambda>(c, adjSize). (c\<lparr>m_adj := m_adj c @ [fst e], m_edgeData := m_edgeData c @ [snd e]\<rparr>, adjSize + 1))"

definition csr_node :: "'e gsm \<Rightarrow> nat \<Rightarrow> 'e csr \<Rightarrow> 'e csr res" where
  "csr_node spMat i c =
    (if i < length (m_index c) then
      rbind (gsm_adj spMat i) (\<lambda>es.
      let (c, adjSize) = fold csr_edge es (c, m_index c ! i) in
      Inr (c\<lparr>m_index := m_index c @ [adjSize]\<rparr>))
     else Inl (Undefined ''m_index[i]''))"

definition copyFrom :: "'e gsm \<Rightarrow> 'e csr \<Rightarrow> 'e csr res" where
  "copyFrom spMat c =
    (let c = csr_alloc (m_numNodes spMat) (m_numEdges spMat) c; c = c\<lparr>m_index := m_index c @ [0]\<rparr> in
    rbind (for_each (csr_node spMat) [0..<m_numNodes spMat] c) (\<lambda>c.
    rbind (check (length (m_index c) = c_numNodes c + 1) ''copyFrom: Wrong number of nodes'') (\<lambda>_.
    rbind (check (length (m_adj c) = c_numEdges c) ''copyFrom: wrong number of edges'') (\<lambda>_.
    rbind (check (length (m_edgeData c) = c_numEdges c) ''copyFrom: wrong number of edges'') (\<lambda>_.
    Inr c)))))"

definition csr_make :: "'e gsm \<Rightarrow> 'e csr res" where
  "csr_make spMat = copyFrom spMat csr_empty"

text \<open>The iterators count edges; \<open>src + 1\<close> is an addition of 32-bit values.\<close>

definition csr_adjBegin :: "'e csr \<Rightarrow> 32 word \<Rightarrow> nat res" where
  "csr_adjBegin c src = rbind (check (unat src < c_numNodes c) ''src < numNodes()'') (\<lambda>_.
    if unat src < length (m_index c) then Inr (unat (m_index c ! unat src)) else Inl (Undefined ''m_index[src]''))"

definition csr_adjEnd :: "'e csr \<Rightarrow> 32 word \<Rightarrow> nat res" where
  "csr_adjEnd c src =
    rbind (check (unat src < c_numNodes c \<and> unat (src + 1) \<le> c_numNodes c) ''src < numNodes() && (src + 1) <= numNodes()'') (\<lambda>_.
    if unat (src + 1) < length (m_index c) then Inr (unat (m_index c ! unat (src + 1)))
    else Inl (Undefined ''m_index[src + 1]''))"

definition csr_edgeDst :: "'e csr \<Rightarrow> nat \<Rightarrow> 32 word res" where
  "csr_edgeDst c iter = rbind (check (iter < length (m_adj c)) ''*iter < m_adj.size()'') (\<lambda>_. Inr (m_adj c ! iter))"

definition csr_edgeData :: "'e csr \<Rightarrow> nat \<Rightarrow> 'e res" where
  "csr_edgeData c iter = rbind (check (iter < length (m_adj c)) ''*iter < m_adj.size()'') (\<lambda>_.
    if iter < length (m_edgeData c) then Inr (m_edgeData c ! iter) else Inl (Undefined ''m_edgeData[iter]''))"

text \<open>
  What a client reads: the loop from \<open>adjBegin(src)\<close> to \<open>adjEnd(src)\<close> over \<open>edgeDst\<close> and
  \<open>edgeData\<close>.
\<close>

definition csr_row :: "'e csr \<Rightarrow> 32 word \<Rightarrow> (32 word \<times> 'e) list res" where
  "csr_row c src = rbind (csr_adjBegin c src) (\<lambda>b. rbind (csr_adjEnd c src) (\<lambda>e.
    for_each (\<lambda>k row. rbind (csr_edgeDst c k) (\<lambda>d. rbind (csr_edgeData c k) (\<lambda>x. Inr (row @ [(d, x)])))) [b..<e] []))"

section \<open>The compressed form holds the rows\<close>

lemma fold_csr_edge:
  "fold csr_edge es (c, s) = (c\<lparr>m_adj := m_adj c @ map fst es, m_edgeData := m_edgeData c @ map snd es\<rparr>, s + of_nat (length es))"
proof (induction es arbitrary: c s)
  case (Cons e es)
  then show ?case by (simp add: csr_edge_def algebra_simps)
qed simp

text \<open>The prefix sums of the lengths of the rows.\<close>

definition starts :: "'a list list \<Rightarrow> nat \<Rightarrow> nat" where
  "starts rows i = length (concat (take i rows))"

lemma unat_of_nat_small: "n < 2 ^ LENGTH('a) \<Longrightarrow> unat (of_nat n :: 'a::len word) = n"
  by (simp add: unsigned_of_nat take_bit_nat_eq_self)

lemma starts_0 [simp]: "starts rows 0 = 0"
  by (simp add: starts_def)

lemma starts_Suc: "i < length rows \<Longrightarrow> starts rows (Suc i) = starts rows i + length (rows ! i)"
  by (simp add: starts_def take_Suc_conv_app_nth)

lemma starts_mono: "i \<le> j \<Longrightarrow> starts rows i \<le> starts rows j"
proof -
  assume "i \<le> j"
  then have "concat (take j rows) = concat (take i rows) @ concat (take (j - i) (drop i rows))"
    by (metis concat_append le_add_diff_inverse take_add)
  then show ?thesis by (simp add: starts_def)
qed

lemma starts_all: "length rows \<le> i \<Longrightarrow> starts rows i = length (concat rows)"
  by (simp add: starts_def)

lemma row_in_concat:
  assumes "i < length rows" "k < length (rows ! i)"
  shows "concat rows ! (starts rows i + k) = rows ! i ! k"
proof -
  have "concat rows = concat (take i rows) @ rows ! i @ concat (drop (Suc i) rows)"
    by (metis assms(1) concat_append concat.simps(2) id_take_nth_drop)
  then show ?thesis using assms(2) by (simp add: starts_def nth_append)
qed

definition csr_of :: "nat \<Rightarrow> nat \<Rightarrow> (32 word \<times> 'e) list list \<Rightarrow> nat \<Rightarrow> 'e csr" where
  "csr_of n k rows i = \<lparr>c_numNodes = n, c_numEdges = k, m_index = map (\<lambda>j. of_nat (starts rows j)) [0..<Suc i],
     m_adj = map fst (concat (take i rows)), m_edgeData = map snd (concat (take i rows))\<rparr>"

lemma csr_node_step:
  assumes "i < m_numNodes spMat" "i < length (m_adjVecs spMat)"
  shows "csr_node spMat i (csr_of n k (m_adjVecs spMat) i) = Inr (csr_of n k (m_adjVecs spMat) (Suc i))"
proof -
  have "[0..<Suc (Suc i)] = [0..<Suc i] @ [Suc i]" by simp
  moreover have "map (\<lambda>j. (of_nat (starts (m_adjVecs spMat) j) :: 32 word)) [0..<Suc i] ! i = of_nat (starts (m_adjVecs spMat) i)"
    by (simp del: upt_Suc)
  ultimately show ?thesis using assms starts_Suc [OF assms(2)]
    by (simp add: csr_node_def gsm_adj_def csr_of_def fold_csr_edge take_Suc_conv_app_nth del: upt_Suc)
qed

lemma copy_loop:
  assumes "m_numNodes spMat \<le> length (m_adjVecs spMat)" "i \<le> m_numNodes spMat"
  shows "for_each (csr_node spMat) [0..<i] (csr_of n k (m_adjVecs spMat) 0) = Inr (csr_of n k (m_adjVecs spMat) i)"
  using assms(2)
proof (induction i)
  case (Suc i)
  then show ?case using assms(1) csr_node_step [of i spMat n k] by (simp add: for_each_append)
qed simp

text \<open>Construction succeeds exactly when the announced number of edges is the number of edges.\<close>

lemma csr_make_eq:
  assumes "m_numNodes spMat = length (m_adjVecs spMat)"
  shows "csr_make spMat = (if length (concat (m_adjVecs spMat)) = m_numEdges spMat
    then Inr (csr_of (m_numNodes spMat) (m_numEdges spMat) (m_adjVecs spMat) (m_numNodes spMat))
    else Inl (AssertFail ''copyFrom: wrong number of edges''))"
proof -
  let ?rows = "m_adjVecs spMat" and ?n = "m_numNodes spMat" and ?k = "m_numEdges spMat"
  have start: "(csr_alloc ?n ?k csr_empty)\<lparr>m_index := m_index (csr_alloc ?n ?k csr_empty) @ [0]\<rparr> = csr_of ?n ?k ?rows 0"
    by (simp add: csr_alloc_def csr_empty_def csr_of_def)
  have loop: "for_each (csr_node spMat) [0..<?n] (csr_of ?n ?k ?rows 0) = Inr (csr_of ?n ?k ?rows ?n)"
    using copy_loop [of spMat ?n] assms by simp
  show ?thesis
    unfolding csr_make_def copyFrom_def Let_def start loop using assms by (simp add: csr_of_def del: upt_Suc)
qed

lemma row_loop:
  assumes "\<And>k. k < length xs \<Longrightarrow> b + k < length (m_adj c) \<and> b + k < length (m_edgeData c) \<and>
    xs ! k = (m_adj c ! (b + k), m_edgeData c ! (b + k))"
  shows "for_each (\<lambda>k row. rbind (csr_edgeDst c k) (\<lambda>d. rbind (csr_edgeData c k) (\<lambda>x. Inr (row @ [(d, x)]))))
    [b..<b + length xs] [] = Inr xs"
  using assms
proof (induction xs rule: rev_induct)
  case (snoc x xs)
  have p: "b + k < length (m_adj c) \<and> b + k < length (m_edgeData c) \<and>
    xs ! k = (m_adj c ! (b + k), m_edgeData c ! (b + k))" if "k < length xs" for k
    using snoc.prems [of k] that by (simp add: nth_append)
  note IH = snoc.IH [OF p]
  have "b + length xs < length (m_adj c) \<and> b + length xs < length (m_edgeData c) \<and>
     x = (m_adj c ! (b + length xs), m_edgeData c ! (b + length xs))" using snoc.prems [of "length xs"] by simp
  then show ?case using IH by (simp add: for_each_append csr_edgeDst_def csr_edgeData_def)
qed simp

lemma csr_row_of:
  fixes rows :: "(32 word \<times> 'e) list list"
  assumes i: "i < length rows" "i < 2 ^ 32 - 1" and e: "length (concat rows) < 2 ^ 32"
  shows "csr_row (csr_of (length rows) k rows (length rows)) (of_nat i) = Inr (rows ! i)"
proof -
  let ?c = "csr_of (length rows) k rows (length rows)"
  have u: "unat (of_nat i :: 32 word) = i" "unat (of_nat i + 1 :: 32 word) = Suc i"
  proof -
    have s: "i < 2 ^ LENGTH(32)" "Suc i < 2 ^ LENGTH(32)" using i(2) by simp_all
    show "unat (of_nat i :: 32 word) = i" by (rule unat_of_nat_small) (rule s)
    have "of_nat i + 1 = (of_nat (Suc i) :: 32 word)" by (simp only: of_nat_Suc add.commute)
    then show "unat (of_nat i + 1 :: 32 word) = Suc i" using unat_of_nat_small [OF s(2)] by (simp only:)
  qed
  have le: "starts rows j < 2 ^ 32" for j
    using starts_mono [of j "max j (length rows)" rows] starts_all [of rows "max j (length rows)"] e by simp
  have ix: "j \<le> length rows \<Longrightarrow> unat (m_index ?c ! j) = starts rows j" for j
    using unat_of_nat_small [where 'a = 32, of "starts rows j"] le [of j] by (simp add: csr_of_def del: upt_Suc)
  have b: "csr_adjBegin ?c (of_nat i) = Inr (starts rows i)" "csr_adjEnd ?c (of_nat i) = Inr (starts rows i + length (rows ! i))"
    using u ix [of i] ix [of "Suc i"] i(1) starts_Suc [OF i(1)]
    by (simp_all add: csr_adjBegin_def csr_adjEnd_def csr_of_def del: upt_Suc)
  have lim: "starts rows i + length (rows ! i) \<le> length (concat rows)"
    using starts_Suc [OF i(1)] starts_mono [of "Suc i" "length rows" rows] starts_all [of rows "length rows"] i(1) by simp
  have el: "starts rows i + k < length (m_adj ?c) \<and> starts rows i + k < length (m_edgeData ?c) \<and>
     rows ! i ! k = (m_adj ?c ! (starts rows i + k), m_edgeData ?c ! (starts rows i + k))" if "k < length (rows ! i)" for k
    using that lim row_in_concat [OF i(1) that] by (simp add: csr_of_def)
  show ?thesis
    using row_loop [of "rows ! i" "starts rows i" ?c, OF el] b by (simp add: csr_row_def)
qed

end
