(* ===== verification/SparseLaws.thy ===== *)
theory SparseLaws
  imports Sparse
begin

text \<open>
  The compressed form has the rows of the adjacency lists, and a file in the Matrix Market
  format gives back the edges that were written to it.
\<close>

section \<open>Compression\<close>

text \<open>
  \<open>CompressedMatrix\<close> is built from adjacency lists exactly when these have as many edges as
  the header of the file announced; below the width of its index it then gives every node the
  edges of its adjacency list, in order.
\<close>

theorem csr_represents:
  assumes "m_numNodes spMat = length (m_adjVecs spMat)" and e: "length (concat (m_adjVecs spMat)) < 2 ^ 32"
  shows "if length (concat (m_adjVecs spMat)) = m_numEdges spMat
    then \<exists>c. csr_make spMat = Inr c \<and> (\<forall>i < m_numNodes spMat. i < 2 ^ 32 - 1 \<longrightarrow> csr_row c (of_nat i) = gsm_adj spMat i)
    else csr_make spMat = Inl (AssertFail ''copyFrom: wrong number of edges'')"
proof -
  have "csr_row (csr_of (m_numNodes spMat) k (m_adjVecs spMat) (m_numNodes spMat)) (of_nat i) = gsm_adj spMat i"
    if "i < m_numNodes spMat" "i < 2 ^ 32 - 1" for i k
    using csr_row_of [of i "m_adjVecs spMat" k] assms that by (simp add: gsm_adj_def)
  then show ?thesis using csr_make_eq [OF assms(1)] by auto
qed

theorem csr_represents_witness:
  "\<exists>c. csr_make \<lparr>m_numNodes = 2, m_numEdges = 3, m_adjVecs = [[(1, 5), (0, 6)], [(1, 7 :: int)]]\<rparr> = Inr c \<and>
    (\<forall>i < 2. i < 2 ^ 32 - 1 \<longrightarrow> csr_row c (of_nat i) =
      gsm_adj \<lparr>m_numNodes = 2, m_numEdges = 3, m_adjVecs = [[(1, 5), (0, 6)], [(1, 7)]]\<rparr> i)"
  using csr_represents [of "\<lparr>m_numNodes = 2, m_numEdges = 3, m_adjVecs = [[(1, 5), (0, 6)], [(1, 7 :: int)]]\<rparr>"]
  by simp

section \<open>Reading a file\<close>

lemma gsm_alloc_empty: "gsm_alloc n k gsm_empty = (if n \<le> adjVecs_max_size
    then Inr \<lparr>m_numNodes = n, m_numEdges = k, m_adjVecs = replicate n []\<rparr> else Inl (Aborted ''length_error''))"
  by (simp add: gsm_alloc_def gsm_empty_def vec_resize_def)

text \<open>The adjacency lists of a sequence of edges.\<close>

definition rows_of :: "nat \<Rightarrow> (nat \<times> nat \<times> 'e) list \<Rightarrow> (32 word \<times> 'e) list list" where
  "rows_of n es = map (\<lambda>i. map (\<lambda>(s, d, x). (of_nat d, x)) (filter (\<lambda>(s, d, x). s = i) es)) [0..<n]"

lemma length_rows_of [simp]: "length (rows_of n es) = n"
  by (simp add: rows_of_def)

lemma rows_of_snoc:
  "s < n \<Longrightarrow> rows_of n (es @ [(s, d, x)]) = (rows_of n es)[s := (rows_of n es ! s) @ [(of_nat d, x)]]"
  by (rule nth_equalityI) (auto simp: rows_of_def nth_list_update)

lemma length_concat_update:
  "s < length rows \<Longrightarrow> length (concat (rows[s := (rows ! s) @ [y]])) = Suc (length (concat rows))"
  by (induction rows arbitrary: s) (auto split: nat.splits)

lemma length_rows_of_concat:
  "(\<And>s d x. (s, d, x) \<in> set es \<Longrightarrow> s < n) \<Longrightarrow> length (concat (rows_of n es)) = length es"
proof (induction es rule: rev_induct)
  case Nil
  show ?case by (simp add: rows_of_def)
next
  case (snoc e es)
  obtain s d x where e: "e = (s, d, x)" by (cases e) auto
  have "length (concat (rows_of n es)) = length es" by (rule snoc.IH) (use snoc.prems in fastforce)
  moreover have "s < n" using snoc.prems [of s d x] e by simp
  ultimately show ?case unfolding e by (simp add: rows_of_snoc length_concat_update del: length_concat)
qed

text \<open>A line of numbers as a program writes it, the numbers counted from 1.\<close>

definition edge_line :: "('e \<Rightarrow> string) \<Rightarrow> nat \<times> nat \<times> 'e \<Rightarrow> string" where
  "edge_line pr = (\<lambda>(s, d, x). dec (s + 1) @ '' '' @ dec (d + 1) @ '' '' @ pr x)"

definition head_line :: "nat \<Rightarrow> nat \<Rightarrow> nat \<Rightarrow> string" where
  "head_line n m k = dec n @ '' '' @ dec m @ '' '' @ dec k"

definition market_text :: "('e \<Rightarrow> string) \<Rightarrow> string list \<Rightarrow> nat \<Rightarrow> nat \<Rightarrow> (nat \<times> nat \<times> 'e) list \<Rightarrow> string" where
  "market_text pr comments n m es = concat (map (\<lambda>l. l @ [newline])
     (map ((#) CHR ''%'') comments @ head_line n m (length es) # map (edge_line pr) es))"

lemma blank_digit [simp]: "\<not> is_digit CHR '' ''"
  by (simp add: is_digit_def)

lemma read_head:
  assumes "n < 2 ^ 64" "m < 2 ^ 64" "k < 2 ^ 64"
  shows "readTriple get_u64 get_u64 get_u64 (head_line n m k) 0 0 0 = (n, m, k)"
proof -
  have k: "get_u64 0 \<lparr>is_buf = dec k, is_fail = False\<rparr> = (k, \<lparr>is_buf = [], is_fail = False\<rparr>)"
    using get_u64_dec [OF assms(3), of "[]"] by simp
  show ?thesis
    using assms k by (simp add: readTriple_def istringstream_def head_line_def get_u64_dec get_u64_blank)
qed

lemma read_edge:
  assumes "s + 1 < 2 ^ 32" "d + 1 < 2 ^ 32" and rd: "fst (getE 0 \<lparr>is_buf = '' '' @ pr x, is_fail = False\<rparr>) = x"
  shows "readTriple get_u32 get_u32 getE (edge_line pr (s, d, x)) 0 0 0 = (of_nat (s + 1), of_nat (d + 1), x)"
proof -
  obtain ls where ls: "getE 0 \<lparr>is_buf = '' '' @ pr x, is_fail = False\<rparr> = (x, ls)" using rd by (metis prod.collapse)
  have u: "get_u32 0 \<lparr>is_buf = dec (s + 1) @ ('' '' @ dec (d + 1) @ '' '' @ pr x), is_fail = False\<rparr> =
      (of_nat (s + 1), \<lparr>is_buf = '' '' @ dec (d + 1) @ '' '' @ pr x, is_fail = False\<rparr>)"
    by (rule get_u32_dec) (use assms in simp_all)
  have v: "get_u32 0 \<lparr>is_buf = '' '' @ (dec (d + 1) @ ('' '' @ pr x)), is_fail = False\<rparr> =
      (of_nat (d + 1), \<lparr>is_buf = '' '' @ pr x, is_fail = False\<rparr>)"
    using get_u32_blank get_u32_dec [of "d + 1" "'' '' @ pr x"] assms by simp
  show ?thesis
    unfolding readTriple_def istringstream_def edge_line_def prod.case Let_def
    using u v ls by simp
qed

lemma dec_not_percent: "take 1 (dec n @ s) \<noteq> ''%''"
  using dec_first [of n] by (auto simp: is_digit_def)

lemma of_nat_Suc_minus: "(of_nat (s + 1) - 1 :: 32 word) = of_nat s"
  by simp

text \<open>One line of an edge extends the adjacency lists of the edges read so far.\<close>

lemma market_edge:
  assumes s: "s < n" "d < n" "s + 1 < 2 ^ 32" "d + 1 < 2 ^ 32"
    and rd: "fst (getE 0 \<lparr>is_buf = '' '' @ pr x, is_fail = False\<rparr>) = x"
  shows "market_line getE (edge_line pr (s, d, x)) (False, \<lparr>m_numNodes = n, m_numEdges = k, m_adjVecs = rows_of n es\<rparr>) =
    Inr (False, \<lparr>m_numNodes = n, m_numEdges = k, m_adjVecs = rows_of n (es @ [(s, d, x)])\<rparr>)"
proof -
  have p: "take 1 (edge_line pr (s, d, x)) \<noteq> ''%''" unfolding edge_line_def prod.case by (rule dec_not_percent)
  have u: "unat (of_nat s :: 32 word) = s" "unat (of_nat d :: 32 word) = d"
    using unat_of_nat_small [where 'a = 32, of s] unat_of_nat_small [where 'a = 32, of d] s by simp_all
  show ?thesis
    unfolding market_line_def prod.case read_edge [where getE = getE and pr = pr, OF s(3,4) rd] of_nat_Suc_minus Let_def
    using p u s(1,2) by (simp add: gsm_addEdge_def rows_of_snoc)
qed

lemma market_edges:
  assumes "\<And>s d x. (s, d, x) \<in> set es \<Longrightarrow> s < n \<and> d < n \<and> s + 1 < 2 ^ 32 \<and> d + 1 < 2 ^ 32 \<and>
      fst (getE 0 \<lparr>is_buf = '' '' @ pr x, is_fail = False\<rparr>) = x"
  shows "for_each (market_line getE) (map (edge_line pr) es) (False, \<lparr>m_numNodes = n, m_numEdges = k, m_adjVecs = replicate n []\<rparr>) =
    Inr (False, \<lparr>m_numNodes = n, m_numEdges = k, m_adjVecs = rows_of n es\<rparr>)"
  using assms
proof (induction es rule: rev_induct)
  case Nil
  have "rows_of n ([] :: (nat \<times> nat \<times> 'a) list) = replicate n []" by (rule nth_equalityI) (simp_all add: rows_of_def)
  then show ?case by simp
next
  case (snoc e es)
  obtain s d x where e: "e = (s, d, x)" by (cases e) auto
  have IH: "for_each (market_line getE) (map (edge_line pr) es) (False, \<lparr>m_numNodes = n, m_numEdges = k, m_adjVecs = replicate n []\<rparr>) =
    Inr (False, \<lparr>m_numNodes = n, m_numEdges = k, m_adjVecs = rows_of n es\<rparr>)"
    by (rule snoc.IH, rule snoc.prems) simp
  have "s < n \<and> d < n \<and> s + 1 < 2 ^ 32 \<and> d + 1 < 2 ^ 32 \<and> fst (getE 0 \<lparr>is_buf = '' '' @ pr x, is_fail = False\<rparr>) = x"
    using snoc.prems [of s d x] e by simp
  then show ?case unfolding e map_append list.map for_each_append IH using market_edge [of s n d getE pr x k es] by simp
qed

lemma comments_skip: "for_each (market_line getE) (map ((#) CHR ''%'') comments) st = Inr st"
proof (induction comments)
  case (Cons c cs)
  have "market_line getE (CHR ''%'' # c) st = Inr st" by (cases st) (simp add: market_line_def)
  then show ?case using Cons by simp
qed simp

lemma dec_no_newline: "newline \<notin> set (dec n)"
  using dec_digits [of n] by (auto simp: list_all_iff is_digit_def)

lemma market_head:
  assumes "0 < n" "0 < m" "n < 2 ^ 64" "m < 2 ^ 64" "k < 2 ^ 64"
  shows "market_line getE (head_line n m k) (True, gsm_empty) = (if max n m \<le> adjVecs_max_size
    then Inr (False, \<lparr>m_numNodes = max n m, m_numEdges = k, m_adjVecs = replicate (max n m) []\<rparr>)
    else Inl (Aborted ''length_error''))"
proof -
  have p: "take 1 (head_line n m k) \<noteq> ''%''" unfolding head_line_def by (rule dec_not_percent)
  show ?thesis
    unfolding market_line_def prod.case read_head [OF assms(3-5)] Let_def gsm_alloc_empty
    using p assms(1,2) by simp
qed

text \<open>
  C27: reading a Matrix Market file with comment lines, a header with the number of rows, columns
  and entries, and one line per entry gives adjacency lists with exactly the entries written,
  in their order; the compressed form is built and gives every node the same entries. What the
  edge data prints must be read back by its extraction. More nodes than the vector of lists can hold
  make its \<open>resize\<close> throw.
\<close>

theorem market_roundtrip:
  assumes dims: "0 < n" "0 < m" "n < 2 ^ 64" "m < 2 ^ 64" and k: "length es < 2 ^ 32"
    and es: "\<And>s d x. (s, d, x) \<in> set es \<Longrightarrow> s < max n m \<and> d < max n m \<and> s + 1 < 2 ^ 32 \<and> d + 1 < 2 ^ 32 \<and>
      fst (getE 0 \<lparr>is_buf = '' '' @ pr x, is_fail = False\<rparr>) = x \<and> newline \<notin> set (pr x)"
    and comments: "\<And>c. c \<in> set comments \<Longrightarrow> newline \<notin> set c"
  shows "if max n m \<le> adjVecs_max_size then
    \<exists>spMat c. readMatrixMarket getE (Some (market_text pr comments n m es)) gsm_empty = Inr spMat \<and>
    m_numNodes spMat = max n m \<and> m_numEdges spMat = length es \<and> csr_make spMat = Inr c \<and>
    (\<forall>i < max n m. gsm_adj spMat i = Inr (map (\<lambda>(s, d, x). (of_nat d, x)) (filter (\<lambda>(s, d, x). s = i) es)) \<and>
      (i < 2 ^ 32 - 1 \<longrightarrow> csr_row c (of_nat i) = gsm_adj spMat i))
    else readMatrixMarket getE (Some (market_text pr comments n m es)) gsm_empty = Inl (Aborted ''length_error'')"
proof -
  let ?n = "max n m"
  let ?M = "\<lparr>m_numNodes = ?n, m_numEdges = length es, m_adjVecs = rows_of ?n es\<rparr>"
  let ?C = "csr_of ?n (length es) (rows_of ?n es) ?n"
  have lines: "getlines newline (market_text pr comments n m es) =
     map ((#) CHR ''%'') comments @ head_line n m (length es) # map (edge_line pr) es"
    unfolding market_text_def
    by (rule getlines_unlines) (use es comments dec_no_newline in \<open>auto simp: head_line_def edge_line_def\<close>)
  have "length es < 2 ^ 64" using k by simp
  note head = market_head [OF dims this, of getE]
  have "for_each (market_line getE) (map (edge_line pr) es) (False, \<lparr>m_numNodes = ?n, m_numEdges = length es, m_adjVecs = replicate ?n []\<rparr>) =
      Inr (False, ?M)"
    by (rule market_edges) (use es in blast)
  then have read: "readMatrixMarket getE (Some (market_text pr comments n m es)) gsm_empty =
      (if ?n \<le> adjVecs_max_size then Inr ?M else Inl (Aborted ''length_error''))"
    unfolding readMatrixMarket_def option.case lines for_each_append comments_skip by (simp add: head)
  have len: "length (concat (rows_of ?n es)) = length es" by (rule length_rows_of_concat) (use es in blast)
  have make: "csr_make ?M = Inr ?C" using csr_make_eq [of ?M] len by simp
  have row: "gsm_adj ?M i = Inr (map (\<lambda>(s, d, x). (of_nat d, x)) (filter (\<lambda>(s, d, x). s = i) es))" if "i < ?n" for i
    using that by (simp add: gsm_adj_def rows_of_def)
  have "csr_row ?C (of_nat i) = gsm_adj ?M i" if "i < ?n" "i < 2 ^ 32 - 1" for i
    using csr_row_of [of i "rows_of ?n es" "length es"] that len k by (simp add: gsm_adj_def)
  then show ?thesis using read make row by (cases "?n \<le> adjVecs_max_size") (auto intro!: exI [of _ ?M] exI [of _ ?C])
qed

theorem market_roundtrip_witness:
  "\<exists>spMat c. readMatrixMarket get_u64 (Some (market_text dec [''%MatrixMarket''] 2 3 [(0, 2, 5), (1, 1, 70), (0, 0, 9)])) gsm_empty = Inr spMat \<and>
    m_numNodes spMat = max 2 3 \<and> m_numEdges spMat = 3 \<and> csr_make spMat = Inr c \<and>
    (\<forall>i < max 2 3. gsm_adj spMat i = Inr (map (\<lambda>(s, d, x). (of_nat d, x)) (filter (\<lambda>(s, d, x). s = i) [(0, 2, 5), (1, 1, 70), (0, 0, 9)])) \<and>
      (i < 2 ^ 32 - 1 \<longrightarrow> csr_row c (of_nat i) = gsm_adj spMat i))"
proof -
  have rd: "fst (get_u64 0 \<lparr>is_buf = '' '' @ dec x, is_fail = False\<rparr>) = x" if "x < 2 ^ 64" for x
    using get_u64_blank [of 0 "dec x"] get_u64_dec [OF that, of "[]" 0] by simp
  have "max 2 3 \<le> adjVecs_max_size" by (simp add: adjVecs_max_size_def)
  then show ?thesis
    using market_roundtrip [of 2 3 "[(0, 2, 5), (1, 1, 70), (0, 0, 9)]" get_u64 dec "[''%MatrixMarket'']"] rd dec_no_newline
    by (simp add: disj_imp) fastforce
qed

text \<open>
  An empty line behind the header is not skipped: it reads as an edge from node 0, whose
  identifier is decremented to the largest one.
\<close>

lemma market_blank_line:
  assumes "m_numNodes m < 2 ^ 32"
  shows "market_line getE [] (False, m) = Inl (AssertFail ''src ID out of bounds'')"
  using assms
  by (simp add: market_line_def readTriple_def istringstream_def get_u32_def get_unsigned_def gsm_addEdge_def
      unsigned_minus_1_eq_mask mask_eq_exp_minus_1 split: prod.split)

lemma market_not_open: "readMatrixMarket getE None m = Inl (Aborted ''Failed to open file'')"
  by (simp add: readMatrixMarket_def)

end
