(* ===== verification/Matrix.thy ===== *)
theory Matrix
  imports Prelude
begin

text \<open>
  Dense matrices, \<open>cppUtils/include/cpputils/Matrix.h\<close>. A \<open>Matrix\<close> does not own its
  elements: it is a view of an array, given by a pointer and the distance between two rows (or
  columns). Here a pointer is an index into the array of elements, the template parameter
  \<open>ROW_MAJOR\<close> is a boolean argument, and \<open>operator()\<close> becomes the index of the element
  it refers to. A \<open>TiledMatrix\<close> is an array of square tiles, each stored contiguously. Both
  are views: a set of locations numbered by rows and columns.
\<close>

section \<open>\<open>Matrix\<close>\<close>

record matrix =
  mPtr :: nat
  mLdDimSz :: nat
  mCols :: nat
  mRows :: nat

fun mat_get :: "bool \<Rightarrow> matrix \<Rightarrow> nat \<Rightarrow> nat \<Rightarrow> nat" where
  "mat_get True m i j = mPtr m + (i * mLdDimSz m + j)"
| "mat_get False m i j = mPtr m + (j * mLdDimSz m + i)"

text \<open>The constructor; a null pointer is \<open>None\<close>, the default leading dimension 0.\<close>

definition matrix_make :: "bool \<Rightarrow> nat option \<Rightarrow> nat \<Rightarrow> nat \<Rightarrow> nat \<Rightarrow> matrix res" where
  "matrix_make rm ptr rows cols lDimSz =
    rbind (check (ptr \<noteq> None) ''Matrix initialized with nullptr'') (\<lambda>_.
    rbind (check (rows > 0) ''invalid row size'') (\<lambda>_.
    rbind (check (cols > 0) ''invalid col size'') (\<lambda>_.
    Inr \<lparr>mPtr = the ptr, mLdDimSz = (if lDimSz = 0 then (if rm then cols else rows) else lDimSz),
        mCols = cols, mRows = rows\<rparr>)))"

definition mat_numElements :: "matrix \<Rightarrow> nat" where
  "mat_numElements m = mRows m * mCols m"

definition getSubMat :: "bool \<Rightarrow> matrix \<Rightarrow> nat \<Rightarrow> nat \<Rightarrow> nat \<Rightarrow> nat \<Rightarrow> matrix res" where
  "getSubMat rm m rowOffset colOffset subRows subCols =
    rbind (check (rowOffset < mRows m) ''invalid row offset'') (\<lambda>_.
    rbind (check (colOffset < mCols m) ''invalid col offset'') (\<lambda>_.
    let subRows = (if subRows > size_sub (mRows m) rowOffset then size_sub (mRows m) rowOffset else subRows);
        subCols = (if subCols > size_sub (mCols m) subCols then size_sub (mCols m) colOffset else subCols)
    in matrix_make rm (Some (mat_get rm m rowOffset colOffset)) subRows subCols (mLdDimSz m)))"

definition getSubMat_rest :: "bool \<Rightarrow> matrix \<Rightarrow> nat \<Rightarrow> nat \<Rightarrow> matrix res" where
  "getSubMat_rest rm m rowOff colOff =
    getSubMat rm m rowOff colOff (size_sub (mRows m) rowOff) (size_sub (mCols m) colOff)"

section \<open>\<open>TiledMatrix\<close>\<close>

text \<open>The size \<open>B\<close> of the tiles is a template parameter; its default is 64.\<close>

definition TILE_AREA :: "nat \<Rightarrow> nat" where
  "TILE_AREA B = B * B"

definition calcTiles :: "nat \<Rightarrow> nat \<Rightarrow> nat" where
  "calcTiles B dimSize = (dimSize + B - 1) div B"

record tiled =
  tPtr :: nat
  mRowTiles :: nat
  mColTiles :: nat
  tRows :: nat
  tCols :: nat

definition tiled_make :: "nat \<Rightarrow> nat \<Rightarrow> nat \<Rightarrow> nat \<Rightarrow> tiled" where
  "tiled_make B ptr rows cols = \<lparr>tPtr = ptr, mRowTiles = calcTiles B rows,
    mColTiles = calcTiles B cols, tRows = rows, tCols = cols\<rparr>"

definition storageSize :: "nat \<Rightarrow> nat \<Rightarrow> nat \<Rightarrow> nat" where
  "storageSize B rows cols =
    (let rowTiles = calcTiles B rows; colTiles = calcTiles B cols in rowTiles * colTiles * TILE_AREA B)"

definition getTile :: "bool \<Rightarrow> nat \<Rightarrow> tiled \<Rightarrow> nat \<Rightarrow> nat \<Rightarrow> matrix res" where
  "getTile rm B t trow tcol =
    rbind (check (trow < mRowTiles t \<and> tcol < mColTiles t) ''trow < mRowTiles && tcol < mColTiles'') (\<lambda>_.
    let tileBeg = (if rm then tPtr t + (mColTiles t * trow * TILE_AREA B + tcol * TILE_AREA B)
                   else tPtr t + (mRowTiles t * tcol * TILE_AREA B + trow * TILE_AREA B))
    in matrix_make rm (Some tileBeg) B B B)"

definition tiled_index :: "bool \<Rightarrow> nat \<Rightarrow> tiled \<Rightarrow> nat \<Rightarrow> nat \<Rightarrow> nat res" where
  "tiled_index rm B t i j =
    (let trow = i div B; tcol = j div B in
    rbind (getTile rm B t trow tcol) (\<lambda>tileMat.
    let rowOff = i mod B; colOff = j mod B in Inr (mat_get rm tileMat rowOff colOff)))"

definition tiled_numElements :: "tiled \<Rightarrow> nat" where
  "tiled_numElements t = tRows t * tCols t"

section \<open>Views\<close>

text \<open>
  What the helpers of \<open>MatrixHelper.h\<close> use of a matrix of either class: \<open>rows()\<close>,
  \<open>cols()\<close> and the element \<open>operator()\<close> refers to.
\<close>

record mat_view =
  v_rows :: nat
  v_cols :: nat
  v_loc :: "nat \<Rightarrow> nat \<Rightarrow> nat res"

definition matrix_view :: "bool \<Rightarrow> matrix \<Rightarrow> mat_view" where
  "matrix_view rm m = \<lparr>v_rows = mRows m, v_cols = mCols m, v_loc = (\<lambda>i j. Inr (mat_get rm m i j))\<rparr>"

definition tiled_view :: "bool \<Rightarrow> nat \<Rightarrow> tiled \<Rightarrow> mat_view" where
  "tiled_view rm B t = \<lparr>v_rows = tRows t, v_cols = tCols t, v_loc = tiled_index rm B t\<rparr>"

text \<open>
  The contract of a view: inside its bounds every element has its own location, and the
  locations lie in the range of the array that belongs to the view.
\<close>

definition v_at :: "mat_view \<Rightarrow> nat \<Rightarrow> nat \<Rightarrow> nat" where
  "v_at V i j = (case v_loc V i j of Inl _ \<Rightarrow> 0 | Inr l \<Rightarrow> l)"

definition dense :: "mat_view \<Rightarrow> nat \<Rightarrow> nat \<Rightarrow> bool" where
  "dense V lo hi \<longleftrightarrow> (\<forall>i < v_rows V. \<forall>j < v_cols V.
     v_loc V i j = Inr (v_at V i j) \<and> lo \<le> v_at V i j \<and> v_at V i j < hi \<and>
     (\<forall>k < v_rows V. \<forall>l < v_cols V. v_at V i j = v_at V k l \<longrightarrow> i = k \<and> j = l))"

lemma denseD:
  assumes "dense V lo hi" "i < v_rows V" "j < v_cols V"
  shows "v_loc V i j = Inr (v_at V i j)" "lo \<le> v_at V i j" "v_at V i j < hi"
  using assms by (auto simp: dense_def)

lemma dense_inj:
  assumes "dense V lo hi" "i < v_rows V" "j < v_cols V" "k < v_rows V" "l < v_cols V"
    and "v_at V i j = v_at V k l"
  shows "i = k \<and> j = l"
  using assms unfolding dense_def by blast

lemma denseI:
  assumes "\<And>i j. i < v_rows V \<Longrightarrow> j < v_cols V \<Longrightarrow> v_loc V i j = Inr (f i j)"
    and "\<And>i j. i < v_rows V \<Longrightarrow> j < v_cols V \<Longrightarrow> lo \<le> f i j \<and> f i j < hi"
    and "\<And>i j k l. i < v_rows V \<Longrightarrow> j < v_cols V \<Longrightarrow> k < v_rows V \<Longrightarrow> l < v_cols V \<Longrightarrow>
      f i j = f k l \<Longrightarrow> i = k \<and> j = l"
  shows "dense V lo hi"
  using assms unfolding dense_def v_at_def by simp

lemma dense_mono: "dense V lo hi \<Longrightarrow> lo' \<le> lo \<Longrightarrow> hi \<le> hi' \<Longrightarrow> dense V lo' hi'"
  unfolding dense_def by (meson le_trans less_le_trans)

section \<open>Positions in a grid\<close>

text \<open>Row-major numbering of a grid: the pairs of an index and an offset below the width.\<close>

lemma grid_less: "i < (m :: nat) \<Longrightarrow> j < n \<Longrightarrow> i * n + j < m * n"
proof -
  assume "i < m" "j < n"
  then have "i * n + j < Suc i * n" by simp
  also have "Suc i * n \<le> m * n" using \<open>i < m\<close> by (intro mult_right_mono) auto
  finally show ?thesis .
qed

lemma grid_inj: "j < (n :: nat) \<Longrightarrow> l < n \<Longrightarrow> i * n + j = k * n + l \<Longrightarrow> i = k \<and> j = l"
proof -
  assume b: "j < n" "l < n" and e: "i * n + j = k * n + l"
  have "(i * n + j) div n = i" "(k * n + l) div n = k" using b by simp_all
  then have "i = k" using e by simp
  then show ?thesis using e by simp
qed

lemma grid_within: "(j :: nat) < w \<Longrightarrow> w \<le> n \<Longrightarrow> i < m \<Longrightarrow> i * n + j < (m - 1) * n + w"
proof -
  assume b: "j < w" "w \<le> n" "i < m"
  then have "i * n \<le> (m - 1) * n" by (intro mult_right_mono) auto
  then show ?thesis using b by linarith
qed

section \<open>Matrices are dense views\<close>

text \<open>The leading dimension is at least the length of a row (a column).\<close>

definition mat_ok :: "bool \<Rightarrow> matrix \<Rightarrow> bool" where
  "mat_ok rm m \<longleftrightarrow> 0 < mRows m \<and> 0 < mCols m \<and> (if rm then mCols m else mRows m) \<le> mLdDimSz m"

text \<open>The end of the part of the array the matrix uses.\<close>

definition mat_end :: "bool \<Rightarrow> matrix \<Rightarrow> nat" where
  "mat_end rm m = mPtr m + (if rm then (mRows m - 1) * mLdDimSz m + mCols m
                            else (mCols m - 1) * mLdDimSz m + mRows m)"

lemma matrix_view_simps [simp]:
  "v_rows (matrix_view rm m) = mRows m" "v_cols (matrix_view rm m) = mCols m"
  "v_loc (matrix_view rm m) i j = Inr (mat_get rm m i j)" "v_at (matrix_view rm m) i j = mat_get rm m i j"
  by (simp_all add: matrix_view_def v_at_def)

lemma mat_get_lower: "mPtr m \<le> mat_get rm m i j"
  by (cases rm) simp_all

lemma mat_get_upper:
  assumes "mat_ok rm m" "i < mRows m" "j < mCols m"
  shows "mat_get rm m i j < mat_end rm m"
  using assms grid_within [of j "mCols m" "mLdDimSz m" i "mRows m"]
    grid_within [of i "mRows m" "mLdDimSz m" j "mCols m"]
  by (cases rm) (simp_all add: mat_ok_def mat_end_def)

lemma mat_get_inj:
  assumes "mat_ok rm m" "i < mRows m" "j < mCols m" "k < mRows m" "l < mCols m"
    and "mat_get rm m i j = mat_get rm m k l"
  shows "i = k \<and> j = l"
  using assms grid_inj [of j "mLdDimSz m" l i k] grid_inj [of i "mLdDimSz m" k j l]
  by (cases rm) (auto simp: mat_ok_def)

lemma matrix_dense: "mat_ok rm m \<Longrightarrow> dense (matrix_view rm m) (mPtr m) (mat_end rm m)"
  by (rule denseI [where f = "mat_get rm m"]) (simp_all add: mat_get_lower mat_get_upper mat_get_inj)

lemma matrix_make_ok:
  assumes "matrix_make rm ptr rows cols l = Inr m" "l = 0 \<or> (if rm then cols else rows) \<le> l"
  shows "mat_ok rm m \<and> mRows m = rows \<and> mCols m = cols \<and> ptr = Some (mPtr m)"
  using assms by (auto simp: matrix_make_def mat_ok_def res_elims split: if_splits)

lemma matrix_make_Inr: "0 < rows \<Longrightarrow> 0 < cols \<Longrightarrow> matrix_make rm (Some p) rows cols l =
   Inr \<lparr>mPtr = p, mLdDimSz = (if l = 0 then (if rm then cols else rows) else l), mCols = cols, mRows = rows\<rparr>"
  by (simp add: matrix_make_def)

lemma mat_end_default: "matrix_make rm (Some p) rows cols 0 = Inr m \<Longrightarrow> mat_end rm m = p + rows * cols"
  by (cases rows; cases cols) (auto simp: matrix_make_def mat_end_def res_elims algebra_simps)

section \<open>Sub-matrices\<close>

text \<open>
  The width of a sub-matrix: the code compares the requested width with the width of the
  matrix less the requested width instead of the offset. A request for more than half of the
  columns gets all the columns up to the right border, one for more columns than there are
  is not clipped.
\<close>

lemma getSubMat_eq:
  assumes "rowOffset < mRows m" "colOffset < mCols m" "mCols m \<le> 2 ^ 63" "subCols < 2 ^ 63"
    "0 < subRows" "0 < subCols" "0 < mLdDimSz m"
  shows "getSubMat rm m rowOffset colOffset subRows subCols =
    Inr \<lparr>mPtr = mat_get rm m rowOffset colOffset, mLdDimSz = mLdDimSz m,
      mCols = (if mCols m < subCols then subCols
               else if mCols m < 2 * subCols then mCols m - colOffset else subCols),
      mRows = min subRows (mRows m - rowOffset)\<rparr>"
proof -
  have c: "(if subCols > size_sub (mCols m) subCols then size_sub (mCols m) colOffset else subCols) =
     (if mCols m < subCols then subCols else if mCols m < 2 * subCols then mCols m - colOffset else subCols)"
    using assms by (auto simp: size_sub_def)
  have r: "(if subRows > size_sub (mRows m) rowOffset then size_sub (mRows m) rowOffset else subRows) =
      min subRows (mRows m - rowOffset)"
    using assms by (auto simp: min_def)
  show ?thesis
    using assms unfolding getSubMat_def c r Let_def by (simp add: matrix_make_Inr)
qed

lemma mat_get_sub:
  assumes "s = \<lparr>mPtr = mat_get rm m a b, mLdDimSz = mLdDimSz m, mCols = c, mRows = r\<rparr>"
  shows "mat_get rm s i j = mat_get rm m (a + i) (b + j)"
  using assms by (cases rm) (simp_all add: algebra_simps)

section \<open>Tiled matrices are dense views\<close>

lemma calcTiles_less: "0 < B \<Longrightarrow> i < n \<Longrightarrow> i div B < calcTiles B n"
proof -
  assume B: "0 < B" and "i < n"
  then have "(i + B) div B \<le> (n + B - 1) div B" by (intro div_le_mono) simp
  moreover have "(i + B) div B = Suc (i div B)" using div_add_self2 [of B i] B by simp
  ultimately show ?thesis by (simp only: calcTiles_def Suc_le_eq)
qed

definition tile_loc :: "bool \<Rightarrow> nat \<Rightarrow> tiled \<Rightarrow> nat \<Rightarrow> nat \<Rightarrow> nat" where
  "tile_loc rm B t i j = tPtr t +
    (if rm then (i div B * mColTiles t + j div B) * (B * B) + (i mod B * B + j mod B)
     else (j div B * mRowTiles t + i div B) * (B * B) + (j mod B * B + i mod B))"

lemma tiled_index_loc:
  assumes "0 < B" "i div B < mRowTiles t" "j div B < mColTiles t"
  shows "tiled_index rm B t i j = Inr (tile_loc rm B t i j)"
  using assms
  by (cases rm) (simp_all add: tiled_index_def getTile_def tile_loc_def matrix_make_Inr TILE_AREA_def algebra_simps)

lemma tile_offsets: "0 < (B :: nat) \<Longrightarrow> x mod B * B + y mod B < B * B"
  by (rule grid_less) simp_all

lemma tile_pair_inj:
  assumes "0 < (B :: nat)" "tj < n" "tm < n"
    and "(ti * n + tj) * (B * B) + (i mod B * B + j mod B) = (tk * n + tm) * (B * B) + (k mod B * B + l mod B)"
  shows "ti = tk \<and> tj = tm \<and> i mod B = k mod B \<and> j mod B = l mod B"
proof -
  have a: "ti * n + tj = tk * n + tm" and b: "i mod B * B + j mod B = k mod B * B + l mod B"
    using grid_inj [OF tile_offsets tile_offsets, OF assms(1) assms(1) assms(4)] by auto
  show ?thesis
    using grid_inj [OF assms(2,3) a] grid_inj [OF _ _ b] assms(1) by simp
qed

lemma div_mod_inj: "i div B = k div B \<Longrightarrow> i mod B = k mod B \<Longrightarrow> i = (k :: nat)"
  by (metis div_mult_mod_eq)

lemma tile_loc_inj:
  assumes "0 < B" "i div B < mRowTiles t" "j div B < mColTiles t" "k div B < mRowTiles t" "l div B < mColTiles t"
    and "tile_loc rm B t i j = tile_loc rm B t k l"
  shows "i = k \<and> j = l"
proof (cases rm)
  case True
  then show ?thesis
    using assms tile_pair_inj [of B "j div B" "mColTiles t" "l div B" "i div B" i j "k div B" k l]
    by (auto simp: tile_loc_def intro: div_mod_inj)
next
  case False
  then show ?thesis
    using assms tile_pair_inj [of B "i div B" "mRowTiles t" "k div B" "j div B" j i "l div B" l k]
    by (auto simp: tile_loc_def intro: div_mod_inj)
qed

lemma tile_loc_bounds:
  assumes "0 < B" "i div B < mRowTiles t" "j div B < mColTiles t"
  shows "tPtr t \<le> tile_loc rm B t i j \<and> tile_loc rm B t i j < tPtr t + mRowTiles t * mColTiles t * TILE_AREA B"
proof (cases rm)
  case True
  have "(i div B * mColTiles t + j div B) * (B * B) + (i mod B * B + j mod B) < (mRowTiles t * mColTiles t) * (B * B)"
    using assms by (intro grid_less tile_offsets)
  then show ?thesis using True by (simp add: tile_loc_def TILE_AREA_def)
next
  case False
  have "(j div B * mRowTiles t + i div B) * (B * B) + (j mod B * B + i mod B) < (mColTiles t * mRowTiles t) * (B * B)"
    using assms by (intro grid_less tile_offsets)
  then show ?thesis using False by (simp add: tile_loc_def TILE_AREA_def mult.commute)
qed

lemma tiled_view_simps [simp]:
  "v_rows (tiled_view rm B t) = tRows t" "v_cols (tiled_view rm B t) = tCols t"
  "v_loc (tiled_view rm B t) = tiled_index rm B t"
  by (simp_all add: tiled_view_def)

lemma tiled_dense:
  assumes B: "0 < B" and t: "t = tiled_make B p rows cols"
  shows "dense (tiled_view rm B t) p (p + storageSize B rows cols)"
proof -
  have s: "i div B < mRowTiles t" "j div B < mColTiles t" if "i < rows" "j < cols" for i j
    using calcTiles_less [OF B] that t by (simp_all add: tiled_make_def)
  have e: "tPtr t = p" "tRows t = rows" "tCols t = cols"
      "storageSize B rows cols = mRowTiles t * mColTiles t * TILE_AREA B"
    using t by (simp_all add: tiled_make_def storageSize_def)
  show ?thesis
  proof (rule denseI [where f = "tile_loc rm B t"])
    fix i j assume "i < v_rows (tiled_view rm B t)" "j < v_cols (tiled_view rm B t)"
    then have b: "i div B < mRowTiles t" "j div B < mColTiles t" using s e by simp_all
    show "v_loc (tiled_view rm B t) i j = Inr (tile_loc rm B t i j)" using tiled_index_loc [OF B b] by simp
    show "p \<le> tile_loc rm B t i j \<and> tile_loc rm B t i j < p + storageSize B rows cols"
      using tile_loc_bounds [OF B b] e by simp
  next
    fix i j k l
    assume "i < v_rows (tiled_view rm B t)" "j < v_cols (tiled_view rm B t)"
      "k < v_rows (tiled_view rm B t)" "l < v_cols (tiled_view rm B t)"
      and q: "tile_loc rm B t i j = tile_loc rm B t k l"
    then show "i = k \<and> j = l" using s e tile_loc_inj [OF B _ _ _ _ q] by simp
  qed
qed

end
