(* ===== verification/MatrixOps.thy ===== *)
theory MatrixOps
  imports Matrix
begin

text \<open>
  The helpers of \<open>cppUtils/include/cpputils/MatrixHelper.h\<close>. They are templates over the
  class of the matrix and use its \<open>rows()\<close>, \<open>cols()\<close> and \<open>operator()\<close> only, so
  they are functions of a view here; the arrays all matrices point into are one list of
  elements, which the writing helpers return updated. An access outside of it is undefined.
\<close>

section \<open>Access\<close>

definition v_read :: "'a list \<Rightarrow> mat_view \<Rightarrow> nat \<Rightarrow> nat \<Rightarrow> 'a res" where
  "v_read st V i j = rbind (v_loc V i j) (\<lambda>l.
     if l < length st then Inr (st ! l) else Inl (Undefined ''read past the end''))"

definition v_write :: "'a list \<Rightarrow> mat_view \<Rightarrow> nat \<Rightarrow> nat \<Rightarrow> 'a \<Rightarrow> 'a list res" where
  "v_write st V i j x = rbind (v_loc V i j) (\<lambda>l.
     if l < length st then Inr (st[l := x]) else Inl (Undefined ''write past the end''))"

lemma v_read_dense:
  "dense V lo hi \<Longrightarrow> hi \<le> length st \<Longrightarrow> i < v_rows V \<Longrightarrow> j < v_cols V \<Longrightarrow>
    v_read st V i j = Inr (st ! v_at V i j)"
  using denseD [of V lo hi i j] by (simp add: v_read_def)

lemma v_write_dense:
  "dense V lo hi \<Longrightarrow> hi \<le> length st \<Longrightarrow> i < v_rows V \<Longrightarrow> j < v_cols V \<Longrightarrow>
    v_write st V i j x = Inr (st[v_at V i j := x])"
  using denseD [of V lo hi i j] by (simp add: v_write_def)

section \<open>The helpers\<close>

definition swap_cells :: "mat_view \<Rightarrow> nat \<Rightarrow> nat \<Rightarrow> 'a list \<Rightarrow> 'a list res" where
  "swap_cells V i j st =
    rbind (v_read st V i j) (\<lambda>x. rbind (v_read st V j i) (\<lambda>y.
    rbind (v_write st V i j y) (\<lambda>st. v_write st V j i x)))"

text \<open>
  \<open>transpose\<close> needs \<open>ptr()\<close>, which only \<open>Matrix\<close> has. The result is a new matrix on the
  same array, with the default leading dimension.
\<close>

definition mat_transpose :: "bool \<Rightarrow> matrix \<Rightarrow> 'a list \<Rightarrow> (matrix \<times> 'a list) res" where
  "mat_transpose rm mat st =
    rbind (for_each (\<lambda>i. for_each (\<lambda>j. swap_cells (matrix_view rm mat) i j) [i + 1..<mCols mat])
      [0..<mRows mat] st) (\<lambda>st.
    rbind (matrix_make rm (Some (mPtr mat)) (mCols mat) (mRows mat) 0) (\<lambda>m. Inr (m, st)))"

text \<open>
  The generators clear a vector, give it the size of the matrix and build a matrix on it: the
  vector is the whole array, the pointer is 0. The value type has a one and a conversion from
  sizes.
\<close>

definition genSymPosDefMat_Naive :: "bool \<Rightarrow> nat \<Rightarrow> (matrix \<times> 'a::semiring_1 list) res" where
  "genSymPosDefMat_Naive rm rows =
    (let backingVec = replicate (rows * rows) 1 in
    rbind (matrix_make rm (Some 0) rows rows 0) (\<lambda>mat.
    rbind (for_each (\<lambda>i st. v_write st (matrix_view rm mat) i i (of_nat (mRows mat)))
      [0..<mRows mat] backingVec) (\<lambda>st.
    Inr (mat, st))))"

definition genSameValMatrix :: "nat \<Rightarrow> nat \<Rightarrow> 'a \<Rightarrow> (matrix \<times> 'a list) res" where
  "genSameValMatrix rows cols defaultVal =
    (let backingVec = replicate (rows * cols) defaultVal in
    rbind (matrix_make True (Some 0) rows cols 0) (\<lambda>m. Inr (m, backingVec)))"

text \<open>
  \<open>dist(rng)\<close> of the standard library is an argument: \<open>draw s k\<close> is the k-th number of the
  generator with seed s. The static seed is passed and returned.
\<close>

definition genRandMatrix :: "(nat \<Rightarrow> nat \<Rightarrow> 'a::one) \<Rightarrow> nat \<Rightarrow> nat \<Rightarrow> nat \<Rightarrow> (matrix \<times> 'a list \<times> nat) res" where
  "genRandMatrix draw rows cols seed =
    (let backingVec = replicate (rows * cols) 1 in
    rbind (matrix_make True (Some 0) rows cols 0) (\<lambda>M.
    rbind (for_each (\<lambda>i. for_each (\<lambda>j (st, k).
        rbind (v_write st (matrix_view True M) i j (draw seed k)) (\<lambda>st. Inr (st, k + 1)))
      [0..<mCols M]) [0..<mRows M] (backingVec, 0)) (\<lambda>(st, k).
    Inr (M, st, seed + 1))))"

definition convToLowerTri :: "mat_view \<Rightarrow> 'a::zero list \<Rightarrow> 'a list res" where
  "convToLowerTri Mat st =
    for_each (\<lambda>i. for_each (\<lambda>j st. v_write st Mat i j 0) [i + 1..<v_cols Mat]) [0..<v_rows Mat] st"

text \<open>What \<open>compareMatrices\<close> prints.\<close>

datatype report = SizeMismatch | MismatchAt nat nat | ComparisonPassed | ComparisonFailed

definition compare_cell :: "mat_view \<Rightarrow> mat_view \<Rightarrow> ('a \<Rightarrow> 'a \<Rightarrow> bool) \<Rightarrow> 'a list \<Rightarrow>
    nat \<Rightarrow> nat \<Rightarrow> bool \<times> report list \<Rightarrow> (bool \<times> report list) res" where
  "compare_cell m1 m2 err st i j = (\<lambda>(passed, out).
    rbind (v_read st m1 i j) (\<lambda>x. rbind (v_read st m2 i j) (\<lambda>y.
    if err x y then Inr (False, out @ [MismatchAt i j]) else Inr (passed, out))))"

definition compareMatrices :: "mat_view \<Rightarrow> mat_view \<Rightarrow> ('a \<Rightarrow> 'a \<Rightarrow> bool) \<Rightarrow> 'a list \<Rightarrow>
    (bool \<times> report list) res" where
  "compareMatrices m1 m2 err st =
    rbind (for_each (\<lambda>i. for_each (\<lambda>j. compare_cell m1 m2 err st i j) [0..<v_cols m1]) [0..<v_rows m1]
      (True, if v_rows m1 \<noteq> v_rows m2 \<or> v_cols m1 \<noteq> v_cols m2 then [SizeMismatch] else [])) (\<lambda>(passed, out).
    Inr (passed, out @ [if passed then ComparisonPassed else ComparisonFailed]))"

definition copyMatrix :: "mat_view \<Rightarrow> mat_view \<Rightarrow> 'a list \<Rightarrow> 'a list res" where
  "copyMatrix dst src st =
    rbind (check (v_rows src = v_rows dst \<and> v_cols src = v_cols dst)
      ''src.rows() == dst.rows() && src.cols() == dst.cols()'') (\<lambda>_.
    for_each (\<lambda>i. for_each (\<lambda>j st. rbind (v_read st src i j) (\<lambda>x. v_write st dst i j x))
      [0..<v_cols src]) [0..<v_rows src] st)"

section \<open>Loops over the cells\<close>

text \<open>A nest of two loops is one loop over the pairs of indices in row-major order.\<close>

definition cells :: "nat list \<Rightarrow> (nat \<Rightarrow> nat list) \<Rightarrow> (nat \<times> nat) list" where
  "cells is js = concat (map (\<lambda>i. map (Pair i) (js i)) is)"

lemma for_each_nest:
  "for_each (\<lambda>i. for_each (\<lambda>j. f i j) (js i)) is s = for_each (\<lambda>(i, j). f i j) (cells is js) s"
  by (induction "is" arbitrary: s)
    (simp_all add: cells_def for_each_append for_each_map cong: rbind_cong)

lemma set_cells [simp]: "(i, j) \<in> set (cells is js) \<longleftrightarrow> i \<in> set is \<and> j \<in> set (js i)"
  by (auto simp: cells_def)

lemma distinct_cells: "distinct is \<Longrightarrow> (\<And>i. i \<in> set is \<Longrightarrow> distinct (js i)) \<Longrightarrow> distinct (cells is js)"
  unfolding cells_def by (induction "is") (auto simp: distinct_map inj_on_def)

text \<open>A loop that writes to each cell of a list of cells once.\<close>

lemma write_loop:
  assumes D: "dense V lo hi" "hi \<le> length st" and d: "distinct ps"
    and g: "\<And>i j. (i, j) \<in> set ps \<Longrightarrow> i < v_rows V \<and> j < v_cols V"
    and body: "\<And>i j st'. (i, j) \<in> set ps \<Longrightarrow> length st' = length st \<Longrightarrow>
      (\<And>k. k < lo \<or> hi \<le> k \<Longrightarrow> st' ! k = st ! k) \<Longrightarrow> f (i, j) st' = v_write st' V i j (val i j)"
  shows "\<exists>st'. for_each f ps st = Inr st' \<and> length st' = length st \<and>
    (\<forall>(i, j) \<in> set ps. st' ! v_at V i j = val i j) \<and>
    (\<forall>k. (\<forall>(i, j) \<in> set ps. k \<noteq> v_at V i j) \<longrightarrow> st' ! k = st ! k)"
proof (rule for_each_rule)
  fix ys y zs st'
  assume ps: "ps = ys @ y # zs"
    and inv: "length st' = length st \<and> (\<forall>(i, j) \<in> set ys. st' ! v_at V i j = val i j) \<and>
      (\<forall>k. (\<forall>(i, j) \<in> set ys. k \<noteq> v_at V i j) \<longrightarrow> st' ! k = st ! k)"
  obtain i j where y: "y = (i, j)" by fastforce
  have b: "i < v_rows V" "j < v_cols V" using g [of i j] ps y by auto
  have len: "length st' = length st" using inv by blast
  have frame: "st' ! k = st ! k" if "k < lo \<or> hi \<le> k" for k
  proof -
    have "k \<noteq> v_at V a c" if "(a, c) \<in> set ys" for a c
      using denseD(2,3) [OF D(1), of a c] g [of a c] ps that \<open>k < lo \<or> hi \<le> k\<close> by auto
    then show ?thesis using inv by blast
  qed
  have eq: "f y st' = Inr (st'[v_at V i j := val i j])"
    using body [of i j st', OF _ len frame] v_write_dense [OF D(1) _ b, of st'] ps y len D(2) by simp
  have other: "v_at V a c \<noteq> v_at V i j" if "(a, c) \<in> set ys" for a c
    using dense_inj [OF D(1), of a c i j] g [of a c] b d ps y that by auto
  have lt: "v_at V i j < length st'" using denseD(3) [OF D(1) b] len D(2) by simp
  have w: "st'[v_at V i j := val i j] ! v_at V a c = val a c" if r: "(a, c) \<in> set (ys @ [y])" for a c
  proof (cases "(a, c) \<in> set ys")
    case True
    then show ?thesis using other [OF True] inv by (auto simp: nth_list_update)
  next
    case False
    then show ?thesis using r y lt by simp
  qed
  have r: "st'[v_at V i j := val i j] ! k = st ! k" if r: "\<forall>(a, c) \<in> set (ys @ [y]). k \<noteq> v_at V a c" for k
  proof -
    have "k \<noteq> v_at V i j" "\<forall>(a, c) \<in> set ys. k \<noteq> v_at V a c" using r y by auto
    then show ?thesis using inv by simp
  qed
  show "\<exists>t'. f y st' = Inr t' \<and> length t' = length st \<and>
     (\<forall>(a, c) \<in> set (ys @ [y]). t' ! v_at V a c = val a c) \<and>
     (\<forall>k. (\<forall>(a, c) \<in> set (ys @ [y]). k \<noteq> v_at V a c) \<longrightarrow> t' ! k = st ! k)"
    using eq w r len by auto
qed simp

text \<open>What a view shows of the array.\<close>

definition entry :: "'a list \<Rightarrow> mat_view \<Rightarrow> nat \<Rightarrow> nat \<Rightarrow> 'a" where
  "entry st V i j = st ! v_at V i j"

section \<open>The contract of the classes of matrices\<close>

text \<open>
  What the helpers rely on: the operations of a class give a dense view of the part of the
  array that a well-formed matrix owns.
\<close>

locale matrix_class =
  fixes view :: "'m \<Rightarrow> mat_view" and first :: "'m \<Rightarrow> nat" and limit :: "'m \<Rightarrow> nat"
    and ok :: "'m \<Rightarrow> bool"
  assumes dense_view: "ok m \<Longrightarrow> dense (view m) (first m) (limit m)"
begin

lemma lower_tri:
  assumes "ok m" "limit m \<le> length st"
  shows "\<exists>st'. convToLowerTri (view m) st = Inr st' \<and> length st' = length st \<and>
    (\<forall>i < v_rows (view m). \<forall>j < v_cols (view m).
      entry st' (view m) i j = (if i < j then 0 else entry st (view m) i j)) \<and>
    (\<forall>k. k < first m \<or> limit m \<le> k \<longrightarrow> st' ! k = st ! k)"
proof -
  let ?V = "view m" and ?ps = "cells [0..<v_rows (view m)] (\<lambda>i. [i + 1..<v_cols (view m)])"
  have D: "dense ?V (first m) (limit m)" by (rule dense_view) fact
  have g: "i < v_rows ?V \<and> j < v_cols ?V" if "(i, j) \<in> set ?ps" for i j using that by simp
  have d: "distinct ?ps" by (rule distinct_cells) simp_all
  obtain st' where st': "for_each (\<lambda>(i, j) st. v_write st ?V i j 0) ?ps st = Inr st'" "length st' = length st"
    and w: "\<And>i j. (i, j) \<in> set ?ps \<Longrightarrow> st' ! v_at ?V i j = 0"
    and r: "\<And>k. \<forall>(i, j) \<in> set ?ps. k \<noteq> v_at ?V i j \<Longrightarrow> st' ! k = st ! k"
    using write_loop [OF D assms(2) d g, of "\<lambda>(i, j) st. v_write st ?V i j 0" "\<lambda>_ _. 0"] by fastforce
  have lower: "st' ! v_at ?V i j = st ! v_at ?V i j" if "i < v_rows ?V" "j < v_cols ?V" "\<not> i < j" for i j
    by (rule r) (use dense_inj [OF D that(1,2)] that(3) in auto)
  have "st' ! k = st ! k" if "k < first m \<or> limit m \<le> k" for k
    by (rule r) (use denseD(2,3) [OF D] that in fastforce)
  then show ?thesis using st' w lower unfolding convToLowerTri_def for_each_nest entry_def by simp
qed

end

locale matrix_classes = dst: matrix_class view first limit ok + src: matrix_class view2 first2 limit2 ok2
  for view :: "'m \<Rightarrow> mat_view" and first :: "'m \<Rightarrow> nat" and limit :: "'m \<Rightarrow> nat" and ok :: "'m \<Rightarrow> bool"
    and view2 :: "'n \<Rightarrow> mat_view" and first2 :: "'n \<Rightarrow> nat" and limit2 :: "'n \<Rightarrow> nat" and ok2 :: "'n \<Rightarrow> bool"
begin

lemma copy:
  assumes ok: "ok d" "ok2 s" "limit d \<le> length st" "limit2 s \<le> length st"
    and shape: "v_rows (view2 s) = v_rows (view d)" "v_cols (view2 s) = v_cols (view d)"
    and apart: "limit d \<le> first2 s \<or> limit2 s \<le> first d"
  shows "\<exists>st'. copyMatrix (view d) (view2 s) st = Inr st' \<and> length st' = length st \<and>
    (\<forall>i < v_rows (view d). \<forall>j < v_cols (view d).
      entry st' (view d) i j = entry st (view2 s) i j \<and> entry st' (view2 s) i j = entry st (view2 s) i j) \<and>
    (\<forall>k. k < first d \<or> limit d \<le> k \<longrightarrow> st' ! k = st ! k)"
proof -
  let ?V = "view d" and ?S = "view2 s" and ?ps = "cells [0..<v_rows (view d)] (\<lambda>i. [0..<v_cols (view d)])"
  let ?f = "\<lambda>(i, j) st. rbind (v_read st ?S i j) (\<lambda>x. v_write st ?V i j x)"
  have D: "dense ?V (first d) (limit d)" and S: "dense ?S (first2 s) (limit2 s)"
    using dst.dense_view src.dense_view ok by auto
  have g: "i < v_rows ?V \<and> j < v_cols ?V" if "(i, j) \<in> set ?ps" for i j using that by simp
  have body: "?f (i, j) t = v_write t ?V i j (st ! v_at ?S i j)"
    if p: "(i, j) \<in> set ?ps" and l: "length t = length st"
      and fr: "\<And>k. k < first d \<or> limit d \<le> k \<Longrightarrow> t ! k = st ! k" for i j t
  proof -
    have b: "i < v_rows ?S" "j < v_cols ?S" using g [OF p] shape by simp_all
    have "t ! v_at ?S i j = st ! v_at ?S i j"
      by (rule fr) (use denseD(2,3) [OF S b] apart in auto)
    then show ?thesis using v_read_dense [OF S _ b, of t] l ok(4) by simp
  qed
  have d: "distinct ?ps" by (rule distinct_cells) simp_all
  obtain st' where st': "for_each ?f ?ps st = Inr st'" "length st' = length st"
    and w: "\<And>i j. (i, j) \<in> set ?ps \<Longrightarrow> st' ! v_at ?V i j = st ! v_at ?S i j"
    and r: "\<And>k. \<forall>(i, j) \<in> set ?ps. k \<noteq> v_at ?V i j \<Longrightarrow> st' ! k = st ! k"
    using write_loop [OF D ok(3) d g body] by fastforce
  have fr: "st' ! k = st ! k" if "k < first d \<or> limit d \<le> k" for k
    by (rule r) (use denseD(2,3) [OF D] that in fastforce)
  have "st' ! v_at ?S i j = st ! v_at ?S i j" if "i < v_rows ?V" "j < v_cols ?V" for i j
    by (rule fr) (use denseD(2,3) [OF S] shape that apart in fastforce)
  then show ?thesis using st' w fr shape unfolding copyMatrix_def for_each_nest entry_def by simp
qed

lemma compare:
  assumes ok: "ok d" "ok2 s" "limit d \<le> length st" "limit2 s \<le> length st"
    and shape: "v_rows (view2 s) = v_rows (view d)" "v_cols (view2 s) = v_cols (view d)"
  shows "\<exists>passed out. compareMatrices (view d) (view2 s) err st = Inr (passed, out) \<and>
    (passed \<longleftrightarrow> (\<forall>i < v_rows (view d). \<forall>j < v_cols (view d).
       \<not> err (entry st (view d) i j) (entry st (view2 s) i j))) \<and>
    out = map (\<lambda>(i, j). MismatchAt i j) (filter (\<lambda>(i, j). err (entry st (view d) i j) (entry st (view2 s) i j))
        (cells [0..<v_rows (view d)] (\<lambda>_. [0..<v_cols (view d)]))) @
      [if passed then ComparisonPassed else ComparisonFailed]"
proof -
  let ?V = "view d" and ?S = "view2 s" and ?ps = "cells [0..<v_rows (view d)] (\<lambda>i. [0..<v_cols (view d)])"
  let ?e = "\<lambda>(i, j). err (entry st (view d) i j) (entry st (view2 s) i j)"
  let ?Q = "\<lambda>ys t. t = (list_all (\<lambda>p. \<not> ?e p) ys, map (\<lambda>(i, j). MismatchAt i j) (filter ?e ys))"
  have D: "dense ?V (first d) (limit d)" and S: "dense ?S (first2 s) (limit2 s)"
    using dst.dense_view src.dense_view ok by auto
  have "\<exists>t. for_each (\<lambda>(i, j). compare_cell ?V ?S err st i j) ?ps (True, []) = Inr t \<and> ?Q ?ps t"
  proof (rule for_each_rule)
    fix ys y zs t assume ps: "?ps = ys @ y # zs" and Q: "?Q ys t"
    obtain i j where y: "y = (i, j)" by fastforce
    have "(i, j) \<in> set ?ps" unfolding ps y by simp
    then have b: "i < v_rows ?V" "j < v_cols ?V" by simp_all
    have rd: "v_read st ?V i j = Inr (entry st ?V i j)" "v_read st ?S i j = Inr (entry st ?S i j)"
      using v_read_dense [OF D ok(3)] v_read_dense [OF S ok(4)] b shape by (simp_all add: entry_def)
    show "\<exists>t'. (case y of (i, j) \<Rightarrow> compare_cell ?V ?S err st i j) t = Inr t' \<and> ?Q (ys @ [y]) t'"
      using Q rd y by (auto simp: compare_cell_def)
  qed simp
  then have run: "for_each (\<lambda>(i, j). compare_cell ?V ?S err st i j) ?ps (True, []) =
      Inr (list_all (\<lambda>p. \<not> ?e p) ?ps, map (\<lambda>(i, j). MismatchAt i j) (filter ?e ?ps))" by blast
  have all: "list_all (\<lambda>p. \<not> ?e p) ?ps \<longleftrightarrow> (\<forall>i < v_rows ?V. \<forall>j < v_cols ?V. \<not> ?e (i, j))"
    unfolding list_all_iff by auto
  have "compareMatrices ?V ?S err st = Inr (list_all (\<lambda>p. \<not> ?e p) ?ps,
     map (\<lambda>(i, j). MismatchAt i j) (filter ?e ?ps) @ [if list_all (\<lambda>p. \<not> ?e p) ?ps then ComparisonPassed else ComparisonFailed])"
    using run shape unfolding compareMatrices_def for_each_nest by simp
  then show ?thesis using all by simp
qed

end

section \<open>The two classes\<close>

definition tiled_ok :: "nat \<Rightarrow> tiled \<Rightarrow> bool" where
  "tiled_ok B t \<longleftrightarrow> 0 < B \<and> t = tiled_make B (tPtr t) (tRows t) (tCols t)"

definition tiled_end :: "nat \<Rightarrow> tiled \<Rightarrow> nat" where
  "tiled_end B t = tPtr t + storageSize B (tRows t) (tCols t)"

interpretation mats: matrix_class "matrix_view rm" mPtr "mat_end rm" "mat_ok rm" for rm
  by unfold_locales (rule matrix_dense)

interpretation tiles: matrix_class "tiled_view rm B" tPtr "tiled_end B" "tiled_ok B" for rm B
  by unfold_locales (auto simp: tiled_ok_def tiled_end_def intro: tiled_dense)

interpretation tile_to_mat: matrix_classes "matrix_view rm" mPtr "mat_end rm" "mat_ok rm"
    "tiled_view rm2 B" tPtr "tiled_end B" "tiled_ok B" for rm rm2 B
  by unfold_locales

interpretation mat_to_tile: matrix_classes "tiled_view rm2 B" tPtr "tiled_end B" "tiled_ok B"
    "matrix_view rm" mPtr "mat_end rm" "mat_ok rm" for rm rm2 B
  by unfold_locales

end
