(* ===== verification/MatrixLaws.thy ===== *)
theory MatrixLaws
  imports MatrixOps Complex_Main
begin

text \<open>
  What the helpers on matrices compute: transposition of square matrices in place, the
  generated symmetric positive definite matrix, conversion between the plain and the tiled
  representation, and the extent of sub-matrices.
\<close>

section \<open>Transposition\<close>

lemma swap_cells_dense:
  assumes D: "dense V lo hi" "hi \<le> length st" and b: "i < v_rows V" "j < v_cols V" "j < v_rows V" "i < v_cols V"
  shows "swap_cells V i j st = Inr (st[v_at V i j := entry st V j i, v_at V j i := entry st V i j])"
  using v_read_dense [OF D b(1,2)] v_read_dense [OF D b(3,4)] v_write_dense [OF D b(1,2)]
    v_write_dense [OF D(1) _ b(3,4), of "st[v_at V i j := entry st V j i]"] D(2)
  by (simp add: swap_cells_def entry_def)

text \<open>The pairs above the diagonal, each swapped once.\<close>

lemma swap_loop:
  assumes D: "dense V lo hi" "hi \<le> length st" and n: "v_rows V = n" "v_cols V = n"
  shows "\<exists>st'. for_each (\<lambda>i. for_each (swap_cells V i) [i + 1..<n]) [0..<n] st = Inr st' \<and>
    length st' = length st \<and> (\<forall>i < n. \<forall>j < n. entry st' V i j = entry st V j i)"
proof -
  let ?ps = "cells [0..<n] (\<lambda>i. [i + 1..<n])"
  let ?Q = "\<lambda>ys st'. length st' = length st \<and> (\<forall>i < n. \<forall>j < n. entry st' V i j =
     (if (i, j) \<in> set ys \<or> (j, i) \<in> set ys then entry st V j i else entry st V i j))"
  have "\<exists>st'. for_each (\<lambda>(i, j). swap_cells V i j) ?ps st = Inr st' \<and> ?Q ?ps st'"
  proof (rule for_each_rule)
    fix ys y zs t assume ps: "?ps = ys @ y # zs" and Q: "?Q ys t"
    obtain a c where y: "y = (a, c)" by fastforce
    have "(a, c) \<in> set ?ps" unfolding ps y by simp
    then have b: "a < n" "c < n" "a < c" by auto
    have "distinct ?ps" by (rule distinct_cells) simp_all
    then have new: "(a, c) \<notin> set ys" unfolding ps y by simp
    have "set ys \<subseteq> set ?ps" unfolding ps by auto
    then have up: "(c, a) \<notin> set ys" using b(3) by auto
    let ?t = "t[v_at V a c := entry t V c a, v_at V c a := entry t V a c]"
    have run: "swap_cells V a c t = Inr ?t"
      using swap_cells_dense [OF D(1), of t a c] D(2) Q b n by simp
    have lt: "v_at V a c < length t" "v_at V c a < length t"
      using denseD(3) [OF D(1), of a c] denseD(3) [OF D(1), of c a] b n D(2) Q by auto
    have inj: "v_at V i j = v_at V k l \<longleftrightarrow> i = k \<and> j = l" if "i < n" "j < n" "k < n" "l < n" for i j k l
      using dense_inj [OF D(1), of i j k l] that n by auto
    have "entry ?t V i j = (if (i, j) = (a, c) \<or> (i, j) = (c, a) then entry t V j i else entry t V i j)"
      if "i < n" "j < n" for i j
      using lt inj [OF b(1,2) that] inj [OF b(2,1) that] b(3)
      by (auto simp: entry_def nth_list_update)
    then have "?Q (ys @ [y]) ?t" using Q new up y b by auto
    then show "\<exists>t'. (case y of (i, j) \<Rightarrow> swap_cells V i j) t = Inr t' \<and> ?Q (ys @ [y]) t'"
      using run y by auto
  qed simp
  then obtain st' where st': "for_each (\<lambda>(i, j). swap_cells V i j) ?ps st = Inr st'" "?Q ?ps st'" by blast
  have "entry st' V i j = entry st V j i" if "i < n" "j < n" for i j
    using st'(2) that by (cases "i = j") auto
  then show ?thesis using st' unfolding for_each_nest by blast
qed

lemma transpose_run:
  assumes "mat_ok rm m" "mRows m = n" "mCols m = n" "mLdDimSz m = n" "mat_end rm m \<le> length st"
  shows "\<exists>st'. mat_transpose rm m st = Inr (m, st') \<and> length st' = length st \<and>
    (\<forall>i < n. \<forall>j < n. entry st' (matrix_view rm m) i j = entry st (matrix_view rm m) j i)"
proof -
  have m: "matrix_make rm (Some (mPtr m)) n n 0 = Inr m"
    using assms by (simp add: matrix_make_Inr mat_ok_def)
  show ?thesis
    using swap_loop [OF matrix_dense [OF assms(1)] assms(5), of n] assms m
    by (auto simp: mat_transpose_def)
qed

text \<open>
  \<open>transpose\<close> of a square matrix without padding works in place: the result is the same
  view, each element is found at the transposed position, and transposing twice restores the
  matrix.
\<close>

theorem transpose_square:
  assumes "mat_ok rm m" "mRows m = n" "mCols m = n" "mLdDimSz m = n" "mat_end rm m \<le> length st"
  shows "\<exists>st' st''. mat_transpose rm m st = Inr (m, st') \<and>
    (\<forall>i < n. \<forall>j < n. entry st' (matrix_view rm m) i j = entry st (matrix_view rm m) j i) \<and>
    mat_transpose rm m st' = Inr (m, st'') \<and>
    (\<forall>i < n. \<forall>j < n. entry st'' (matrix_view rm m) i j = entry st (matrix_view rm m) i j)"
proof -
  obtain st' where 1: "mat_transpose rm m st = Inr (m, st')" "length st' = length st"
      "\<forall>i < n. \<forall>j < n. entry st' (matrix_view rm m) i j = entry st (matrix_view rm m) j i"
    using transpose_run [OF assms] by blast
  obtain st'' where "mat_transpose rm m st' = Inr (m, st'')"
      "\<forall>i < n. \<forall>j < n. entry st'' (matrix_view rm m) i j = entry st' (matrix_view rm m) j i"
    using transpose_run [OF assms(1-4)] assms(5) 1(2) by metis
  then show ?thesis using 1 by auto
qed

theorem transpose_square_witness:
  "\<exists>st' st''. mat_transpose True \<lparr>mPtr = 1, mLdDimSz = 2, mCols = 2, mRows = 2\<rparr> [0, 1, 2, 3, 4 :: int] =
    Inr (\<lparr>mPtr = 1, mLdDimSz = 2, mCols = 2, mRows = 2\<rparr>, st') \<and>
    (\<forall>i < 2. \<forall>j < 2. entry st' (matrix_view True \<lparr>mPtr = 1, mLdDimSz = 2, mCols = 2, mRows = 2\<rparr>) i j =
      entry [0, 1, 2, 3, 4] (matrix_view True \<lparr>mPtr = 1, mLdDimSz = 2, mCols = 2, mRows = 2\<rparr>) j i) \<and>
    mat_transpose True \<lparr>mPtr = 1, mLdDimSz = 2, mCols = 2, mRows = 2\<rparr> st' =
      Inr (\<lparr>mPtr = 1, mLdDimSz = 2, mCols = 2, mRows = 2\<rparr>, st'') \<and>
    (\<forall>i < 2. \<forall>j < 2. entry st'' (matrix_view True \<lparr>mPtr = 1, mLdDimSz = 2, mCols = 2, mRows = 2\<rparr>) i j =
      entry [0, 1, 2, 3, 4] (matrix_view True \<lparr>mPtr = 1, mLdDimSz = 2, mCols = 2, mRows = 2\<rparr>) i j)"
  by (rule transpose_square [where rm = True and m = "\<lparr>mPtr = 1, mLdDimSz = 2, mCols = 2, mRows = 2\<rparr>" and n = 2
    and st = "[0, 1, 2, 3, 4]"]) (simp_all add: mat_ok_def mat_end_def)

text \<open>
  Matrices that are not square: with more columns than rows the loop reads past the last row;
  with fewer columns some elements keep their place while the leading dimension changes.
\<close>

lemma transpose_wide:
  "mat_transpose True \<lparr>mPtr = 0, mLdDimSz = 3, mCols = 3, mRows = 2\<rparr> [1, 2, 3, 4, 5, 6 :: int] =
    Inl (Undefined ''read past the end'')"
  by (simp add: mat_transpose_def matrix_make_def swap_cells_def v_read_def v_write_def numeral_eq_Suc)

lemma transpose_tall:
  "mat_transpose True \<lparr>mPtr = 0, mLdDimSz = 2, mCols = 2, mRows = 3\<rparr> [1, 2, 3, 4, 5, 6 :: int] =
    Inr (\<lparr>mPtr = 0, mLdDimSz = 3, mCols = 3, mRows = 2\<rparr>, [1, 3, 2, 4, 5, 6])"
  by (simp add: mat_transpose_def matrix_make_def swap_cells_def v_read_def v_write_def numeral_eq_Suc)

section \<open>The generated positive definite matrix\<close>

lemma gen_run:
  assumes "0 < n"
  shows "\<exists>m (st :: 'a::semiring_1 list). genSymPosDefMat_Naive rm n = Inr (m, st) \<and> mRows m = n \<and> mCols m = n \<and> length st = n * n \<and>
    mat_ok rm m \<and> mat_end rm m = n * n \<and>
    (\<forall>i < n. \<forall>j < n. entry st (matrix_view rm m) i j = (if i = j then of_nat n else 1))"
proof -
  let ?m = "\<lparr>mPtr = 0, mLdDimSz = n, mCols = n, mRows = n\<rparr>"
  let ?V = "matrix_view rm ?m" and ?st = "replicate (n * n) 1 :: 'a list"
  have make: "matrix_make rm (Some 0) n n 0 = Inr ?m" using assms by (simp add: matrix_make_Inr)
  have ok: "mat_ok rm ?m" and e: "mat_end rm ?m = n * n"
    using matrix_make_ok [OF make] mat_end_default [OF make] by auto
  have D: "dense ?V 0 (n * n)" using matrix_dense [OF ok] e by simp
  let ?ps = "map (\<lambda>i. (i, i)) [0..<n]"
  let ?f = "\<lambda>(i, j) st. v_write st ?V i j (of_nat n)"
  have "\<exists>st. for_each ?f ?ps ?st = Inr st \<and> length st = length ?st \<and>
    (\<forall>(i, j) \<in> set ?ps. st ! v_at ?V i j = of_nat n) \<and>
    (\<forall>k. (\<forall>(i, j) \<in> set ?ps. k \<noteq> v_at ?V i j) \<longrightarrow> st ! k = ?st ! k)"
    by (rule write_loop [OF D]) (auto simp: distinct_map inj_on_def)
  then obtain st where st: "for_each ?f ?ps ?st = Inr st" and len: "length st = length ?st"
    and w': "\<forall>(i, j) \<in> set ?ps. st ! v_at ?V i j = of_nat n"
    and r: "\<forall>k. (\<forall>(i, j) \<in> set ?ps. k \<noteq> v_at ?V i j) \<longrightarrow> st ! k = ?st ! k"
    by (elim exE conjE) (rule that)
  have w: "st ! v_at ?V i i = of_nat n" if "i < n" for i using w' that by simp
  have "st ! v_at ?V i j = 1" if b: "i < n" "j < n" "i \<noteq> j" for i j
  proof -
    have "v_at ?V i j \<noteq> v_at ?V k k" if "k < n" for k
      using dense_inj [OF D, of i j k k] b that by auto
    then have "st ! v_at ?V i j = ?st ! v_at ?V i j" using r by auto
    then show ?thesis using denseD(3) [OF D, of i j] b by simp
  qed
  then have ent: "\<forall>i < n. \<forall>j < n. entry st ?V i j = (if i = j then of_nat n else 1)"
    using w by (simp add: entry_def)
  have "genSymPosDefMat_Naive rm n = Inr (?m, st)"
    using make st by (simp add: genSymPosDefMat_Naive_def for_each_map)
  then show ?thesis using len ok e ent by (intro exI [of _ ?m] exI [of _ st]) simp
qed

lemma ones_plus_diagonal:
  fixes x :: "nat \<Rightarrow> 'a :: linordered_idom"
  shows "(\<Sum>i<n. \<Sum>j<n. x i * (if i = j then of_nat n else 1) * x j) =
    (\<Sum>i<n. x i) * (\<Sum>i<n. x i) + (of_nat n - 1) * (\<Sum>i<n. x i * x i)"
proof -
  have "(\<Sum>j<n. x i * (if i = j then of_nat n else 1) * x j) = x i * (\<Sum>j<n. x j) + (of_nat n - 1) * (x i * x i)"
    if i: "i < n" for i
  proof -
    have "x i * (if i = j then of_nat n else 1) * x j = x i * x j + (if i = j then (of_nat n - 1) * (x i * x i) else 0)" for j
      by (simp add: algebra_simps)
    then have "(\<Sum>j<n. x i * (if i = j then of_nat n else 1) * x j) =
        (\<Sum>j<n. x i * x j) + (\<Sum>j<n. if i = j then (of_nat n - 1) * (x i * x i) else 0)"
      by (simp add: sum.distrib)
    then show ?thesis using i by (simp add: sum_distrib_left)
  qed
  then have "(\<Sum>i<n. \<Sum>j<n. x i * (if i = j then of_nat n else 1) * x j) =
      (\<Sum>i<n. x i * (\<Sum>j<n. x j) + (of_nat n - 1) * (x i * x i))" by simp
  also have "\<dots> = (\<Sum>i<n. x i * (\<Sum>j<n. x j)) + (\<Sum>i<n. (of_nat n - 1) * (x i * x i))" by (rule sum.distrib)
  finally show ?thesis by (simp only: sum_distrib_right sum_distrib_left [of "of_nat n - 1"])
qed

lemma ones_plus_diagonal_pos:
  fixes x :: "nat \<Rightarrow> 'a :: linordered_idom"
  assumes "k < n" "x k \<noteq> 0"
  shows "0 < (\<Sum>i<n. \<Sum>j<n. x i * (if i = j then of_nat n else 1) * x j)"
proof -
  have sq: "0 < (\<Sum>i<n. x i * x i)"
    by (rule sum_pos2 [where i = k]) (use assms in \<open>auto simp: zero_less_mult_iff linorder_neq_iff\<close>)
  show ?thesis
  proof (cases "n = 1")
    case True
    then show ?thesis using assms by (auto simp: ones_plus_diagonal zero_less_mult_iff linorder_neq_iff)
  next
    case False
    then have "(1 :: 'a) < of_nat n" using assms(1) by (metis less_nat_zero_code linorder_neqE_nat less_one of_nat_1 of_nat_less_iff)
    then have "0 < (of_nat n - 1) * (\<Sum>i<n. x i * x i)" using sq by simp
    then show ?thesis unfolding ones_plus_diagonal by (simp add: add_nonneg_pos)
  qed
qed

text \<open>
  The matrix that \<open>genSymPosDefMat_Naive\<close> generates is symmetric and positive definite,
  over any ordered value type that holds its dimension exactly.
\<close>

theorem genSymPosDef_posdef:
  assumes "0 < n"
  shows "\<exists>m (st :: 'a::linordered_idom list). genSymPosDefMat_Naive rm n = Inr (m, st) \<and> mRows m = n \<and> mCols m = n \<and>
    (\<forall>i < n. \<forall>j < n. entry st (matrix_view rm m) i j = entry st (matrix_view rm m) j i) \<and>
    (\<forall>x. (\<exists>i < n. x i \<noteq> 0) \<longrightarrow> 0 < (\<Sum>i<n. \<Sum>j<n. x i * entry st (matrix_view rm m) i j * x j))"
proof -
  obtain m and st :: "'a list" where g: "genSymPosDefMat_Naive rm n = Inr (m, st)" "mRows m = n" "mCols m = n"
    and e: "\<And>i j. i < n \<Longrightarrow> j < n \<Longrightarrow> entry st (matrix_view rm m) i j = (if i = j then of_nat n else 1)"
    using gen_run [OF assms, of rm] by blast
  have "0 < (\<Sum>i<n. \<Sum>j<n. x i * entry st (matrix_view rm m) i j * x j)" if x: "i < n" "x i \<noteq> 0" for x :: "nat \<Rightarrow> 'a" and i
    using ones_plus_diagonal_pos [where k = i and n = n and x = x, OF x] by (simp add: e)
  then show ?thesis using g e by auto
qed

theorem genSymPosDef_posdef_witness:
  "\<exists>m (st :: int list). genSymPosDefMat_Naive True 3 = Inr (m, st) \<and> mRows m = 3 \<and> mCols m = 3 \<and>
    (\<forall>i < 3. \<forall>j < 3. entry st (matrix_view True m) i j = entry st (matrix_view True m) j i) \<and>
    (\<forall>x. (\<exists>i < 3. x i \<noteq> 0) \<longrightarrow> 0 < (\<Sum>i<3. \<Sum>j<3. x i * entry st (matrix_view True m) i j * x j))"
  by (rule genSymPosDef_posdef [of 3 True]) simp

lemma genSymPosDef_empty: "genSymPosDefMat_Naive rm 0 = Inl (AssertFail ''invalid row size'')"
  by (simp add: genSymPosDefMat_Naive_def matrix_make_def)

section \<open>Conversion to tiles and back\<close>

text \<open>
  C30: copying a matrix into a tiled matrix of the same shape, of any tile size and order, makes
  \<open>compareMatrices\<close> pass for every criterion that accepts equal values; after any later change
  of the matrix itself, copying back restores all its elements.
\<close>

theorem tiled_copy_roundtrip:
  assumes m: "mat_ok rm m" "mat_end rm m \<le> length st" and B: "0 < B"
    and t: "t = tiled_make B p (mRows m) (mCols m)" "p + storageSize B (mRows m) (mCols m) \<le> length st"
    and apart: "mat_end rm m \<le> p \<or> p + storageSize B (mRows m) (mCols m) \<le> mPtr m"
    and err: "\<And>x. \<not> err x x"
  shows "\<exists>st'. copyMatrix (tiled_view rm2 B t) (matrix_view rm m) st = Inr st' \<and>
    compareMatrices (tiled_view rm2 B t) (matrix_view rm m) err st' = Inr (True, [ComparisonPassed]) \<and>
    (\<forall>u. length u = length st' \<and> (\<forall>k. p \<le> k \<and> k < p + storageSize B (mRows m) (mCols m) \<longrightarrow> u ! k = st' ! k) \<longrightarrow>
      (\<exists>st''. copyMatrix (matrix_view rm m) (tiled_view rm2 B t) u = Inr st'' \<and>
        (\<forall>i < mRows m. \<forall>j < mCols m.
          entry st'' (matrix_view rm m) i j = entry st (matrix_view rm m) i j)))"
proof -
  have tok: "tiled_ok B t" and e: "tPtr t = p" "tRows t = mRows m" "tCols t = mCols m"
      "tiled_end B t = p + storageSize B (mRows m) (mCols m)"
    using B t by (simp_all add: tiled_ok_def tiled_make_def tiled_end_def)
  obtain st' where c: "copyMatrix (tiled_view rm2 B t) (matrix_view rm m) st = Inr st'" "length st' = length st"
    and eq: "\<And>i j. i < mRows m \<Longrightarrow> j < mCols m \<Longrightarrow>
      entry st' (tiled_view rm2 B t) i j = entry st (matrix_view rm m) i j \<and>
      entry st' (matrix_view rm m) i j = entry st (matrix_view rm m) i j"
    using mat_to_tile.copy [OF tok m(1), of st rm2] m t apart e by auto
  have cmp: "compareMatrices (tiled_view rm2 B t) (matrix_view rm m) err st' = Inr (True, [ComparisonPassed])"
  proof -
    let ?b = "\<lambda>(i, j). err (entry st' (tiled_view rm2 B t) i j) (entry st' (matrix_view rm m) i j)"
    have none: "filter ?b (cells [0..<mRows m] (\<lambda>_. [0..<mCols m])) = []"
      using eq err by (auto simp: filter_empty_conv)
    have "mat_end rm m \<le> length st'" "tiled_end B t \<le> length st'" using m t e c(2) by auto
    from mat_to_tile.compare [OF tok m(1) this(2,1), of rm2 err]
    show ?thesis using e none eq err by auto
  qed
  have restored: "\<exists>st''. copyMatrix (matrix_view rm m) (tiled_view rm2 B t) u = Inr st'' \<and>
        (\<forall>i < mRows m. \<forall>j < mCols m. entry st'' (matrix_view rm m) i j = entry st (matrix_view rm m) i j)"
    if u: "length u = length st'" "\<forall>k. p \<le> k \<and> k < p + storageSize B (mRows m) (mCols m) \<longrightarrow> u ! k = st' ! k" for u
  proof -
    have D: "dense (tiled_view rm2 B t) p (p + storageSize B (mRows m) (mCols m))"
      using tiled_dense [OF B t(1)] .
    have same: "entry u (tiled_view rm2 B t) i j = entry st' (tiled_view rm2 B t) i j" if "i < mRows m" "j < mCols m" for i j
      using denseD(2,3) [OF D, of i j] that e u(2) by (simp add: entry_def)
    have fits: "mat_end rm m \<le> length u" "tiled_end B t \<le> length u" using m t e c(2) u(1) by auto
    obtain st'' where "copyMatrix (matrix_view rm m) (tiled_view rm2 B t) u = Inr st''"
      and "\<And>i j. i < mRows m \<Longrightarrow> j < mCols m \<Longrightarrow> entry st'' (matrix_view rm m) i j = entry u (tiled_view rm2 B t) i j"
      using tile_to_mat.copy [OF m(1) tok fits, of rm2] apart e by auto
    then show ?thesis using same eq by auto
  qed
  show ?thesis using c(1) cmp restored by blast
qed

theorem tiled_copy_roundtrip_witness:
  "\<exists>st'. copyMatrix (tiled_view False 2 (tiled_make 2 6 2 3)) (matrix_view True \<lparr>mPtr = 0, mLdDimSz = 3, mCols = 3, mRows = 2\<rparr>)
      ([1, 2, 3, 4, 5, 6] @ replicate 8 (0 :: int)) = Inr st' \<and>
    compareMatrices (tiled_view False 2 (tiled_make 2 6 2 3)) (matrix_view True \<lparr>mPtr = 0, mLdDimSz = 3, mCols = 3, mRows = 2\<rparr>)
      (\<noteq>) st' = Inr (True, [ComparisonPassed]) \<and>
    (\<forall>u. length u = length st' \<and> (\<forall>k. 6 \<le> k \<and> k < 6 + storageSize 2 2 3 \<longrightarrow> u ! k = st' ! k) \<longrightarrow>
      (\<exists>st''. copyMatrix (matrix_view True \<lparr>mPtr = 0, mLdDimSz = 3, mCols = 3, mRows = 2\<rparr>)
          (tiled_view False 2 (tiled_make 2 6 2 3)) u = Inr st'' \<and>
        (\<forall>i < 2. \<forall>j < 3. entry st'' (matrix_view True \<lparr>mPtr = 0, mLdDimSz = 3, mCols = 3, mRows = 2\<rparr>) i j =
          entry ([1, 2, 3, 4, 5, 6] @ replicate 8 0) (matrix_view True \<lparr>mPtr = 0, mLdDimSz = 3, mCols = 3, mRows = 2\<rparr>) i j)))"
  using tiled_copy_roundtrip [of True "\<lparr>mPtr = 0, mLdDimSz = 3, mCols = 3, mRows = 2\<rparr>"
      "[1, 2, 3, 4, 5, 6] @ replicate 8 (0 :: int)" 2 "tiled_make 2 6 2 3" 6 "(\<noteq>)" False]
  by (simp add: mat_ok_def mat_end_def storageSize_def calcTiles_def TILE_AREA_def)

section \<open>Lower triangle\<close>

text \<open>
  \<open>convToLowerTri\<close> clears exactly the elements above the diagonal, of a matrix of either class.
\<close>

lemma convToLowerTri_matrix:
  assumes "mat_ok rm m" "mat_end rm m \<le> length st"
  shows "\<exists>st'. convToLowerTri (matrix_view rm m) st = Inr st' \<and> length st' = length st \<and>
    (\<forall>i < mRows m. \<forall>j < mCols m. entry st' (matrix_view rm m) i j =
      (if i < j then 0 else entry st (matrix_view rm m) i j)) \<and>
    (\<forall>k. k < mPtr m \<or> mat_end rm m \<le> k \<longrightarrow> st' ! k = st ! k)"
  using mats.lower_tri [OF assms] by simp

lemma convToLowerTri_tiled:
  assumes "0 < B" "t = tiled_make B p rows cols" "p + storageSize B rows cols \<le> length st"
  shows "\<exists>st'. convToLowerTri (tiled_view rm B t) st = Inr st' \<and> length st' = length st \<and>
    (\<forall>i < rows. \<forall>j < cols. entry st' (tiled_view rm B t) i j =
      (if i < j then 0 else entry st (tiled_view rm B t) i j)) \<and>
    (\<forall>k. k < p \<or> p + storageSize B rows cols \<le> k \<longrightarrow> st' ! k = st ! k)"
  using tiles.lower_tri [of B t st rm] assms by (simp add: tiled_ok_def tiled_end_def tiled_make_def)

section \<open>Sub-matrices\<close>

text \<open>
  A sub-matrix shows the elements of its matrix from the requested corner on, and its rows
  are clipped to those of the matrix. Its columns are not: a request for more than half of the
  columns is widened to the right border and one for more columns than there are is granted.
  It lies inside the matrix exactly unless the request exceeds the right border by being at
  most half, or more than all, of the columns.
\<close>

theorem getSubMat_extent:
  assumes "mat_ok rm m" "rowOffset < mRows m" "colOffset < mCols m" "mCols m \<le> 2 ^ 63" "subCols < 2 ^ 63"
    "0 < subRows" "0 < subCols"
  shows "\<exists>s. getSubMat rm m rowOffset colOffset subRows subCols = Inr s \<and>
    (\<forall>i j. mat_get rm s i j = mat_get rm m (rowOffset + i) (colOffset + j)) \<and>
    mRows s = min subRows (mRows m - rowOffset) \<and>
    mCols s = (if mCols m < 2 * subCols \<and> subCols \<le> mCols m then mCols m - colOffset else subCols) \<and>
    (colOffset + mCols s \<le> mCols m \<longleftrightarrow>
      colOffset + subCols \<le> mCols m \<or> (mCols m < 2 * subCols \<and> subCols \<le> mCols m))"
proof -
  let ?s = "\<lparr>mPtr = mat_get rm m rowOffset colOffset, mLdDimSz = mLdDimSz m,
      mCols = (if mCols m < subCols then subCols
               else if mCols m < 2 * subCols then mCols m - colOffset else subCols),
      mRows = min subRows (mRows m - rowOffset)\<rparr>"
  have "0 < mLdDimSz m" using assms(1) by (auto simp: mat_ok_def split: if_splits)
  then have "getSubMat rm m rowOffset colOffset subRows subCols = Inr ?s"
    using getSubMat_eq assms by blast
  moreover have "mat_get rm ?s i j = mat_get rm m (rowOffset + i) (colOffset + j)" for i j
    by (rule mat_get_sub) (rule refl)
  ultimately show ?thesis using assms(3) by (intro exI [of _ ?s]) auto
qed

theorem getSubMat_extent_witness:
  "\<exists>s. getSubMat True \<lparr>mPtr = 0, mLdDimSz = 8, mCols = 8, mRows = 8\<rparr> 2 6 3 4 = Inr s \<and>
    (\<forall>i j. mat_get True s i j = mat_get True \<lparr>mPtr = 0, mLdDimSz = 8, mCols = 8, mRows = 8\<rparr> (2 + i) (6 + j)) \<and>
    mRows s = min 3 (8 - 2) \<and> mCols s = (if 8 < 2 * (4 :: nat) \<and> 4 \<le> (8 :: nat) then 8 - 6 else 4) \<and>
    (6 + mCols s \<le> 8 \<longleftrightarrow> 6 + (4 :: nat) \<le> 8 \<or> (8 < 2 * (4 :: nat) \<and> 4 \<le> (8 :: nat)))"
  using getSubMat_extent [of True "\<lparr>mPtr = 0, mLdDimSz = 8, mCols = 8, mRows = 8\<rparr>" 2 6 4 3]
  by (simp add: mat_ok_def)

end
