(* ===== verification/Buffers.thy ===== *)
theory Buffers
  imports Prelude
begin

text \<open>
  Device buffers: the functions of \<open>dagee/DeviceAlloc.h\<close> with \<open>DeviceBufferManager\<close> over HIP, and those of
  \<open>dagee/ATMIalloc.h\<close> with \<open>AllocManagerAtmi\<close> over ATMI. The state holds the buffers that the runtimes
  have handed out and memory; what the runtimes answer (the address of a new buffer, whether a copy
  succeeds) is an argument. Sizes and addresses stay below \<open>2 ^ 64\<close>.
\<close>

section \<open>The runtimes\<close>

datatype space = DeviceMem | PinnedHost | AtmiGpu | AtmiShared

record buf_world =
  live :: "nat \<Rightarrow> (space \<times> nat) option"
  bmem :: memory

record buf_env =
  new_buf :: "buf_world \<Rightarrow> space \<Rightarrow> nat \<Rightarrow> nat option"
  copy_ok :: "buf_world \<Rightarrow> nat \<Rightarrow> nat \<Rightarrow> nat \<Rightarrow> bool"

text \<open>The pointer after the call, null when the call fails, and the status.\<close>

definition rt_malloc :: "buf_env \<Rightarrow> space \<Rightarrow> nat \<Rightarrow> buf_world \<Rightarrow> nat \<times> bool \<times> buf_world" where
  "rt_malloc E sp n w = (case new_buf E w sp n of None \<Rightarrow> (0, False, w)
     | Some a \<Rightarrow> (a, True, if a = 0 then w else w\<lparr>live := (live w)(a \<mapsto> (sp, n))\<rparr>))"

definition rt_free :: "space set \<Rightarrow> nat \<Rightarrow> buf_world \<Rightarrow> bool \<times> buf_world" where
  "rt_free sps a w = (if a = 0 then (True, w) else case live w a of
     Some (sp, _) \<Rightarrow> if sp \<in> sps then (True, w\<lparr>live := (live w)(a := None)\<rparr>) else (False, w)
   | None \<Rightarrow> (False, w))"

definition rt_memcpy :: "buf_env \<Rightarrow> nat \<Rightarrow> nat \<Rightarrow> nat \<Rightarrow> buf_world \<Rightarrow> bool \<times> buf_world" where
  "rt_memcpy E dst src n w = (if copy_ok E w dst src n
     then (True, w\<lparr>bmem := write_bytes (bmem w) dst (read_bytes (bmem w) src n)\<rparr>) else (False, w))"

text \<open>\<open>CHECK_HIP\<close> ends the program on a bad status; \<open>CHECK_ATMI\<close> prints a message only.\<close>

definition CHECK_HIP :: "string \<Rightarrow> bool \<Rightarrow> unit res" where
  "CHECK_HIP cmd b = (if b then Inr () else Inl (Aborted cmd))"

section \<open>DeviceAlloc.h\<close>

definition deviceAlloc :: "buf_env \<Rightarrow> nat \<Rightarrow> nat \<Rightarrow> buf_world \<Rightarrow> (nat \<times> buf_world) res" where
  "deviceAlloc E sizeofT numElems w = (case rt_malloc E DeviceMem (numElems * sizeofT) w of (a, st, w) \<Rightarrow>
     rbind (CHECK_HIP ''hipMalloc'' st) (\<lambda>_. rbind (check (a \<noteq> 0) ''deviceAlloc failed'') (\<lambda>_. Inr (a, w))))"

definition hostAlloc :: "buf_env \<Rightarrow> nat \<Rightarrow> nat \<Rightarrow> buf_world \<Rightarrow> (nat \<times> buf_world) res" where
  "hostAlloc E sizeofT numElems w = (case rt_malloc E PinnedHost (numElems * sizeofT) w of (a, st, w) \<Rightarrow>
     rbind (CHECK_HIP ''hipHostMalloc'' st) (\<lambda>_. rbind (check (a \<noteq> 0) ''hostAlloc failed'') (\<lambda>_. Inr (a, w))))"

definition deviceFree :: "nat \<Rightarrow> buf_world \<Rightarrow> (nat \<times> buf_world) res" where
  "deviceFree a w = (case rt_free {DeviceMem} a w of (st, w) \<Rightarrow> rbind (CHECK_HIP ''hipFree'' st) (\<lambda>_. Inr (0, w)))"

definition hostFree :: "nat \<Rightarrow> buf_world \<Rightarrow> (nat \<times> buf_world) res" where
  "hostFree a w = (case rt_free {PinnedHost} a w of (st, w) \<Rightarrow> rbind (CHECK_HIP ''hipHostFree'' st) (\<lambda>_. Inr (0, w)))"

definition copyToDevice :: "buf_env \<Rightarrow> nat \<Rightarrow> nat \<Rightarrow> nat \<Rightarrow> nat \<Rightarrow> buf_world \<Rightarrow> buf_world res" where
  "copyToDevice E sizeofT deviceBuffer hostBuffer numElems w =
     (case rt_memcpy E deviceBuffer hostBuffer (numElems * sizeofT) w of (st, w) \<Rightarrow>
       rbind (CHECK_HIP ''hipMemcpy'' st) (\<lambda>_. Inr w))"

definition copyToHost :: "buf_env \<Rightarrow> nat \<Rightarrow> nat \<Rightarrow> nat \<Rightarrow> nat \<Rightarrow> buf_world \<Rightarrow> buf_world res" where
  "copyToHost E sizeofT hostBuffer deviceBuffer numElems w =
     (case rt_memcpy E hostBuffer deviceBuffer (numElems * sizeofT) w of (st, w) \<Rightarrow>
       rbind (CHECK_HIP ''hipMemcpy'' st) (\<lambda>_. Inr w))"

definition copyHostToHost :: "buf_env \<Rightarrow> nat \<Rightarrow> nat \<Rightarrow> nat \<Rightarrow> nat \<Rightarrow> buf_world \<Rightarrow> buf_world res" where
  "copyHostToHost E sizeofT destHostBuffer srcHostBuffer numElems w =
     (case rt_memcpy E destHostBuffer srcHostBuffer (numElems * sizeofT) w of (st, w) \<Rightarrow>
       rbind (CHECK_HIP ''hipMemcpy'' st) (\<lambda>_. Inr w))"

section \<open>DeviceBufferManager\<close>

record dev_mgr =
  mDevBufs :: "nat list"
  mHostBufs :: "nat list"

definition dev_mgr_make :: dev_mgr where
  "dev_mgr_make = \<lparr>mDevBufs = [], mHostBufs = []\<rparr>"

definition dev_freeAllBufs :: "dev_mgr \<Rightarrow> buf_world \<Rightarrow> (dev_mgr \<times> buf_world) res" where
  "dev_freeAllBufs m w =
     rbind (for_each (\<lambda>p w. rbind (deviceFree p w) (\<lambda>(_, w). Inr w)) (mDevBufs m) w) (\<lambda>w.
     rbind (for_each (\<lambda>p w. rbind (hostFree p w) (\<lambda>(_, w). Inr w)) (mHostBufs m) w) (\<lambda>w.
     Inr (m\<lparr>mDevBufs := [], mHostBufs := []\<rparr>, w)))"

definition makeDeviceCopy :: "buf_env \<Rightarrow> nat \<Rightarrow> nat \<Rightarrow> nat \<Rightarrow> dev_mgr \<times> buf_world \<Rightarrow> (nat \<times> dev_mgr \<times> buf_world) res" where
  "makeDeviceCopy E sizeofT hostBuffer numElems = (\<lambda>(m, w).
     rbind (deviceAlloc E sizeofT numElems w) (\<lambda>(deviceBuffer, w).
     rbind (copyToDevice E sizeofT deviceBuffer hostBuffer numElems w) (\<lambda>w.
     rbind (check (deviceBuffer \<notin> set (mDevBufs m)) ''duplicate buffer'') (\<lambda>_.
     Inr (deviceBuffer, m\<lparr>mDevBufs := mDevBufs m @ [deviceBuffer]\<rparr>, w)))))"

definition makeSharedCopy :: "buf_env \<Rightarrow> nat \<Rightarrow> nat \<Rightarrow> nat \<Rightarrow> dev_mgr \<times> buf_world \<Rightarrow> (nat \<times> dev_mgr \<times> buf_world) res" where
  "makeSharedCopy E sizeofT hostBuffer numElems = (\<lambda>(m, w).
     rbind (hostAlloc E sizeofT numElems w) (\<lambda>(hostLockedBuffer, w).
     rbind (copyHostToHost E sizeofT hostLockedBuffer hostBuffer numElems w) (\<lambda>w.
     rbind (check (hostLockedBuffer \<notin> set (mHostBufs m)) ''duplicate buffer'') (\<lambda>_.
     Inr (hostLockedBuffer, m\<lparr>mHostBufs := mHostBufs m @ [hostLockedBuffer]\<rparr>, w)))))"

text \<open>A vector is given by the address of its elements and their number; an empty one has no first element.\<close>

definition vec_front :: "nat \<times> nat \<Rightarrow> nat res" where
  "vec_front v = (if snd v = 0 then Inl (Undefined ''first element of an empty vector'') else Inr (fst v))"

definition makeDeviceCopy_vec :: "buf_env \<Rightarrow> nat \<Rightarrow> nat \<times> nat \<Rightarrow> dev_mgr \<times> buf_world \<Rightarrow> (nat \<times> dev_mgr \<times> buf_world) res" where
  "makeDeviceCopy_vec E sizeofT vec st = rbind (vec_front vec) (\<lambda>p. makeDeviceCopy E sizeofT p (snd vec) st)"

definition makeSharedCopy_vec :: "buf_env \<Rightarrow> nat \<Rightarrow> nat \<times> nat \<Rightarrow> dev_mgr \<times> buf_world \<Rightarrow> (nat \<times> dev_mgr \<times> buf_world) res" where
  "makeSharedCopy_vec E sizeofT vec st = rbind (vec_front vec) (\<lambda>p. makeSharedCopy E sizeofT p (snd vec) st)"

definition copyVecToDevice :: "buf_env \<Rightarrow> nat \<Rightarrow> nat \<Rightarrow> nat \<times> nat \<Rightarrow> buf_world \<Rightarrow> buf_world res" where
  "copyVecToDevice E sizeofT deviceBuffer vec w =
     rbind (vec_front vec) (\<lambda>p. copyToDevice E sizeofT deviceBuffer p (snd vec) w)"

definition copyVecToHost :: "buf_env \<Rightarrow> nat \<Rightarrow> nat \<times> nat \<Rightarrow> nat \<Rightarrow> buf_world \<Rightarrow> buf_world res" where
  "copyVecToHost E sizeofT vec deviceBuffer w =
     rbind (vec_front vec) (\<lambda>p. copyToHost E sizeofT p deviceBuffer (snd vec) w)"

definition copyToHostVector :: "buf_env \<Rightarrow> nat \<Rightarrow> nat \<times> nat \<Rightarrow> nat \<Rightarrow> buf_world \<Rightarrow> buf_world res" where
  "copyToHostVector E sizeofT vec hostBuffer w =
     rbind (vec_front vec) (\<lambda>p. copyHostToHost E sizeofT p hostBuffer (snd vec) w)"

section \<open>ATMIalloc.h\<close>

definition atmiMalloc :: "buf_env \<Rightarrow> nat \<Rightarrow> space \<Rightarrow> nat \<Rightarrow> buf_world \<Rightarrow> (nat \<times> buf_world) res" where
  "atmiMalloc E sizeofT memType numElems w = (case rt_malloc E memType (numElems * sizeofT) w of (a, _, w) \<Rightarrow>
     rbind (check (a \<noteq> 0) ''Malloc failed'') (\<lambda>_. Inr (a, w)))"

definition atmiFree :: "nat \<Rightarrow> buf_world \<Rightarrow> nat \<times> buf_world" where
  "atmiFree a w = (0, snd (rt_free {AtmiGpu, AtmiShared} a w))"

definition atmiMemcpy :: "buf_env \<Rightarrow> nat \<Rightarrow> nat \<Rightarrow> nat \<Rightarrow> nat \<Rightarrow> buf_world \<Rightarrow> buf_world" where
  "atmiMemcpy E sizeofT dstBuffer srcBuffer numElems w = snd (rt_memcpy E dstBuffer srcBuffer (numElems * sizeofT) w)"

text \<open>\<open>AllocManagerAtmiImpl\<close>, its state the list \<open>mBufs\<close>.\<close>

definition atmi_freeAllBufs :: "nat list \<Rightarrow> buf_world \<Rightarrow> nat list \<times> buf_world" where
  "atmi_freeAllBufs mBufs w = ([], fold (\<lambda>p w. snd (atmiFree p w)) mBufs w)"

definition makeCopyImpl :: "buf_env \<Rightarrow> nat \<Rightarrow> nat \<times> nat \<Rightarrow> space \<Rightarrow> nat list \<times> buf_world \<Rightarrow> (nat \<times> nat list \<times> buf_world) res" where
  "makeCopyImpl E sizeofT vec memType = (\<lambda>(mBufs, w).
     rbind (atmiMalloc E sizeofT memType (snd vec) w) (\<lambda>(retBuffer, w).
     rbind (vec_front vec) (\<lambda>p.
     let w = atmiMemcpy E sizeofT retBuffer p (snd vec) w in
     rbind (check (retBuffer \<notin> set mBufs) ''duplicate buffer'') (\<lambda>_.
     Inr (retBuffer, mBufs @ [retBuffer], w)))))"

definition atmi_makeDeviceCopy :: "buf_env \<Rightarrow> nat \<Rightarrow> nat \<times> nat \<Rightarrow> nat list \<times> buf_world \<Rightarrow> (nat \<times> nat list \<times> buf_world) res" where
  "atmi_makeDeviceCopy E sizeofT vec = makeCopyImpl E sizeofT vec AtmiGpu"

definition atmi_makeSharedCopy :: "buf_env \<Rightarrow> nat \<Rightarrow> nat \<times> nat \<Rightarrow> nat list \<times> buf_world \<Rightarrow> (nat \<times> nat list \<times> buf_world) res" where
  "atmi_makeSharedCopy E sizeofT vec = makeCopyImpl E sizeofT vec AtmiShared"

definition copyVecToBuffer :: "buf_env \<Rightarrow> nat \<Rightarrow> nat \<Rightarrow> nat \<times> nat \<Rightarrow> buf_world \<Rightarrow> buf_world res" where
  "copyVecToBuffer E sizeofT buffer vec w = rbind (vec_front vec) (\<lambda>p. Inr (atmiMemcpy E sizeofT buffer p (snd vec) w))"

definition copyBufferToVec :: "buf_env \<Rightarrow> nat \<Rightarrow> nat \<times> nat \<Rightarrow> nat \<Rightarrow> buf_world \<Rightarrow> buf_world res" where
  "copyBufferToVec E sizeofT vec buffer w = rbind (vec_front vec) (\<lambda>p. Inr (atmiMemcpy E sizeofT p buffer (snd vec) w))"

section \<open>The contract of a buffer manager\<close>

text \<open>
  A copy is a new live buffer that the manager owns and that holds the bytes of the vector; the
  release gives back every buffer the manager owns and no other. The laws hold for runtimes whose
  copies succeed and whose new buffers are not live.
\<close>

definition fresh_bufs :: "buf_env \<Rightarrow> bool" where
  "fresh_bufs E \<longleftrightarrow> (\<forall>w sp n a. new_buf E w sp n = Some a \<longrightarrow> live w a = None) \<and> (\<forall>w d s n. copy_ok E w d s n)"

text \<open>A sequence of copies into given spaces.\<close>

definition copy_all :: "(space \<Rightarrow> nat \<times> nat \<Rightarrow> 's \<Rightarrow> (nat \<times> 's) res) \<Rightarrow> (space \<times> nat \<times> nat) list \<Rightarrow> 's \<Rightarrow> 's res" where
  "copy_all mk = for_each (\<lambda>(sp, v) st. rbind (mk sp v st) (\<lambda>(_, st). Inr st))"

locale buffer_manager =
  fixes mk :: "buf_env \<Rightarrow> nat \<Rightarrow> space \<Rightarrow> nat \<times> nat \<Rightarrow> 'm \<times> buf_world \<Rightarrow> (nat \<times> 'm \<times> buf_world) res"
    and release :: "'m \<Rightarrow> buf_world \<Rightarrow> ('m \<times> buf_world) res"
    and owned :: "'m \<Rightarrow> nat set" and owns :: "'m \<Rightarrow> buf_world \<Rightarrow> bool" and S :: "space set"
  assumes mk_copy: "fresh_bufs E \<Longrightarrow> owns m w \<Longrightarrow> sp \<in> S \<Longrightarrow> mk E sz sp v (m, w) = Inr (a, m', w') \<Longrightarrow>
      owned m' = insert a (owned m) \<and> owns m' w' \<and> live w a = None \<and> live w' = (live w)(a \<mapsto> (sp, snd v * sz)) \<and>
      bmem w' = write_bytes (bmem w) a (read_bytes (bmem w) (fst v) (snd v * sz))"
    and release_all: "owns m w \<Longrightarrow> \<exists>m'. release m w = Inr (m', w\<lparr>live := live w |` (- owned m)\<rparr>) \<and> owned m' = {}"
begin

text \<open>Whatever was copied, the destructor leaves the buffers that were live before.\<close>

lemma copies_owned:
  assumes "fresh_bufs E" "owns m w" "fst ` set vs \<subseteq> S" "copy_all (mk E sz) vs (m, w) = Inr (m', w')"
  shows "owns m' w' \<and> live w' |` (- owned m') = live w |` (- owned m)"
  using assms(2-4)
proof (induction vs arbitrary: m w)
  case (Cons v vs)
  then obtain a m1 w1 where m1: "mk E sz (fst v) (snd v) (m, w) = Inr (a, m1, w1)" "copy_all (mk E sz) vs (m1, w1) = Inr (m', w')"
    by (cases v) (auto simp: copy_all_def rbind_eq_Inr)
  have sp: "fst v \<in> S" "fst ` set vs \<subseteq> S" using Cons.prems by simp_all
  note c = mk_copy [OF assms(1) Cons.prems(1) sp(1) m1(1)]
  have l: "live w1 |` (- owned m1) = live w |` (- owned m)" using c by (auto simp: restrict_map_def fun_eq_iff)
  have "owns m1 w1" using c by blast
  from Cons.IH [OF this sp(2) m1(2)] show ?case by (simp only: l)
qed (simp add: copy_all_def)

lemma copies_release:
  assumes "fresh_bufs E" "owns m w" "fst ` set vs \<subseteq> S" "copy_all (mk E sz) vs (m, w) = Inr (m', w')"
  shows "\<exists>m''. release m' w' = Inr (m'', w'\<lparr>live := live w |` (- owned m)\<rparr>) \<and> owned m'' = {}"
  using release_all [of m' w'] copies_owned [OF assms] by auto

text \<open>A copy of a copy holds the bytes of the vector.\<close>

lemma copy_contents:
  assumes "fresh_bufs E" "owns m w" "sp \<in> S" "mk E sz sp v (m, w) = Inr (a, m', w')"
  shows "read_bytes (bmem w') a (snd v * sz) = read_bytes (bmem w) (fst v) (snd v * sz)"
  using mk_copy [OF assms] read_write_bytes_all by (metis length_read_bytes)

end

section \<open>The managers of the library\<close>

definition dev_owned :: "dev_mgr \<Rightarrow> nat set" where
  "dev_owned m = set (mDevBufs m) \<union> set (mHostBufs m)"

definition dev_owns :: "dev_mgr \<Rightarrow> buf_world \<Rightarrow> bool" where
  "dev_owns m w \<longleftrightarrow> distinct (mDevBufs m @ mHostBufs m) \<and>
     (\<forall>a \<in> set (mDevBufs m). a \<noteq> 0 \<and> (\<exists>n. live w a = Some (DeviceMem, n))) \<and>
     (\<forall>a \<in> set (mHostBufs m). a \<noteq> 0 \<and> (\<exists>n. live w a = Some (PinnedHost, n)))"

definition dev_copy :: "buf_env \<Rightarrow> nat \<Rightarrow> space \<Rightarrow> nat \<times> nat \<Rightarrow> dev_mgr \<times> buf_world \<Rightarrow> (nat \<times> dev_mgr \<times> buf_world) res" where
  "dev_copy E sz sp v = (if sp = DeviceMem then makeDeviceCopy_vec E sz v else makeSharedCopy_vec E sz v)"

lemma frees_ok:
  assumes "\<forall>a \<in> set as. a \<noteq> 0 \<and> (\<exists>sp n. live w a = Some (sp, n) \<and> sp \<in> S)" "distinct as"
  shows "fold (\<lambda>p w. snd (rt_free S p w)) as w = w\<lparr>live := live w |` (- set as)\<rparr>"
  using assms
proof (induction as arbitrary: w)
  case (Cons a as)
  let ?w = "w\<lparr>live := (live w)(a := None)\<rparr>"
  have f: "snd (rt_free S a w) = ?w" using Cons.prems(1) by (auto simp: rt_free_def)
  have l: "live ?w |` (- set as) = live w |` (- set (a # as))" by (auto simp: restrict_map_def fun_eq_iff)
  have "\<forall>b \<in> set as. b \<noteq> 0 \<and> (\<exists>sp n. live ?w b = Some (sp, n) \<and> sp \<in> S)" using Cons.prems by auto
  then have "fold (\<lambda>p w. snd (rt_free S p w)) as ?w = ?w\<lparr>live := live ?w |` (- set as)\<rparr>"
    using Cons.IH [of ?w] Cons.prems(2) by (simp only: distinct.simps simp_thms)
  then have "fold (\<lambda>p w. snd (rt_free S p w)) as ?w = ?w\<lparr>live := live w |` (- set (a # as))\<rparr>" by (simp only: l)
  then show ?case by (simp only: fold_simps f) simp
qed (simp add: restrict_map_def)

lemma for_each_frees:
  assumes "\<forall>a \<in> set as. a \<noteq> 0 \<and> (\<exists>n. live w a = Some (sp, n))" "distinct as"
    and "\<forall>a w. (\<exists>n. live w a = Some (sp, n)) \<and> a \<noteq> 0 \<longrightarrow> f a w = Inr (w\<lparr>live := (live w)(a := None)\<rparr>)"
  shows "for_each f as w = Inr (w\<lparr>live := live w |` (- set as)\<rparr>)"
  using assms(1,2)
proof (induction as arbitrary: w)
  case (Cons a as)
  let ?w = "w\<lparr>live := (live w)(a := None)\<rparr>"
  have f: "f a w = Inr ?w" using Cons.prems(1) assms(3) by auto
  have l: "live ?w |` (- set as) = live w |` (- set (a # as))" by (auto simp: restrict_map_def fun_eq_iff)
  have "\<forall>b \<in> set as. b \<noteq> 0 \<and> (\<exists>n. live ?w b = Some (sp, n))" using Cons.prems by auto
  then have "for_each f as ?w = Inr (?w\<lparr>live := live ?w |` (- set as)\<rparr>)"
    using Cons.IH [of ?w] Cons.prems(2) by (simp only: distinct.simps simp_thms)
  then have "for_each f as ?w = Inr (?w\<lparr>live := live w |` (- set (a # as))\<rparr>)" by (simp only: l)
  then show ?case by (simp add: f)
qed (simp add: restrict_map_def)

lemma deviceFree_live [simp]: "live w a = Some (DeviceMem, n) \<Longrightarrow> a \<noteq> 0 \<Longrightarrow> deviceFree a w = Inr (0, w\<lparr>live := (live w)(a := None)\<rparr>)"
  by (simp add: deviceFree_def rt_free_def CHECK_HIP_def)

lemma hostFree_live [simp]: "live w a = Some (PinnedHost, n) \<Longrightarrow> a \<noteq> 0 \<Longrightarrow> hostFree a w = Inr (0, w\<lparr>live := (live w)(a := None)\<rparr>)"
  by (simp add: hostFree_def rt_free_def CHECK_HIP_def)

lemma dev_release:
  assumes "dev_owns m w"
  shows "dev_freeAllBufs m w = Inr (\<lparr>mDevBufs = [], mHostBufs = []\<rparr>, w\<lparr>live := live w |` (- dev_owned m)\<rparr>)"
proof -
  let ?w = "w\<lparr>live := live w |` (- set (mDevBufs m))\<rparr>"
  note o = assms [unfolded dev_owns_def]
  have d: "distinct (mDevBufs m)" "distinct (mHostBufs m)" "set (mDevBufs m) \<inter> set (mHostBufs m) = {}" using o by auto
  have v1: "\<forall>a \<in> set (mDevBufs m). a \<noteq> 0 \<and> (\<exists>n. live w a = Some (DeviceMem, n))" using o by blast
  have v2: "\<forall>a \<in> set (mHostBufs m). a \<noteq> 0 \<and> (\<exists>n. live ?w a = Some (PinnedHost, n))"
  proof
    fix a assume a: "a \<in> set (mHostBufs m)"
    then have "a \<in> - set (mDevBufs m)" using d(3) by blast
    then have "live ?w a = live w a" by simp
    then show "a \<noteq> 0 \<and> (\<exists>n. live ?w a = Some (PinnedHost, n))" using o a by metis
  qed
  have l: "live ?w |` (- set (mHostBufs m)) = live w |` (- dev_owned m)"
    by (simp add: dev_owned_def)
  have 1: "for_each (\<lambda>p w. rbind (deviceFree p w) (\<lambda>(_, w). Inr w)) (mDevBufs m) w = Inr ?w"
    by (rule for_each_frees [OF v1 d(1)]) auto
  have 2: "for_each (\<lambda>p w. rbind (hostFree p w) (\<lambda>(_, w). Inr w)) (mHostBufs m) ?w = Inr (?w\<lparr>live := live w |` (- dev_owned m)\<rparr>)"
    unfolding l [symmetric] by (rule for_each_frees [OF v2 d(2)]) auto
  show ?thesis unfolding dev_freeAllBufs_def 1 by (simp add: 2 del: fold_simps)
qed

lemma dev_copy_cases:
  assumes "fresh_bufs E" "sp \<in> {DeviceMem, PinnedHost}" "dev_copy E sz sp v (m, w) = Inr (a, m', w')"
  shows "a \<noteq> 0 \<and> live w a = None \<and> live w' = (live w)(a \<mapsto> (sp, snd v * sz)) \<and>
    bmem w' = write_bytes (bmem w) a (read_bytes (bmem w) (fst v) (snd v * sz)) \<and>
    m' = (if sp = DeviceMem then m\<lparr>mDevBufs := mDevBufs m @ [a]\<rparr> else m\<lparr>mHostBufs := mHostBufs m @ [a]\<rparr>)"
  using assms
  by (auto simp: dev_copy_def makeDeviceCopy_vec_def makeSharedCopy_vec_def makeDeviceCopy_def makeSharedCopy_def
        rbind_eq_Inr check_eq_Inr deviceAlloc_def hostAlloc_def rt_malloc_def copyToDevice_def copyHostToHost_def
        rt_memcpy_def fresh_bufs_def vec_front_def CHECK_HIP_def split: if_splits option.splits)

interpretation dm: buffer_manager dev_copy dev_freeAllBufs dev_owned dev_owns "{DeviceMem, PinnedHost}"
proof (unfold_locales, goal_cases)
  case (1 E m w sp sz v a m' w')
  note c = dev_copy_cases [OF 1(1,3,4)]
  have "a \<notin> set (mDevBufs m) \<union> set (mHostBufs m)" using 1(2) c by (auto simp: dev_owns_def)
  then show ?case using c 1(2,3) by (cases "sp = DeviceMem") (auto simp: dev_owns_def dev_owned_def)
next
  case (2 m w)
  then show ?case by (simp add: dev_release) (simp add: dev_owned_def)
qed

text \<open>The manager over ATMI. Its list holds the addresses only; the spaces are those of the live buffers.\<close>

definition atmi_copy :: "buf_env \<Rightarrow> nat \<Rightarrow> space \<Rightarrow> nat \<times> nat \<Rightarrow> nat list \<times> buf_world \<Rightarrow> (nat \<times> nat list \<times> buf_world) res" where
  "atmi_copy E sz sp v = (if sp = AtmiGpu then atmi_makeDeviceCopy E sz v else atmi_makeSharedCopy E sz v)"

definition atmi_owns :: "nat list \<Rightarrow> buf_world \<Rightarrow> bool" where
  "atmi_owns bs w \<longleftrightarrow> distinct bs \<and> (\<forall>a \<in> set bs. a \<noteq> 0 \<and> (\<exists>sp n. live w a = Some (sp, n) \<and> sp \<in> {AtmiGpu, AtmiShared}))"

lemma atmi_copy_cases:
  assumes "fresh_bufs E" "sp \<in> {AtmiGpu, AtmiShared}" "atmi_copy E sz sp v (m, w) = Inr (a, m', w')"
  shows "a \<noteq> 0 \<and> live w a = None \<and> live w' = (live w)(a \<mapsto> (sp, snd v * sz)) \<and>
    bmem w' = write_bytes (bmem w) a (read_bytes (bmem w) (fst v) (snd v * sz)) \<and> m' = m @ [a]"
  using assms
  by (auto simp: atmi_copy_def atmi_makeDeviceCopy_def atmi_makeSharedCopy_def makeCopyImpl_def atmiMalloc_def atmiMemcpy_def
        rbind_eq_Inr check_eq_Inr rt_malloc_def rt_memcpy_def fresh_bufs_def vec_front_def split: if_splits option.splits)

interpretation am: buffer_manager atmi_copy "\<lambda>m w. Inr (atmi_freeAllBufs m w)" set atmi_owns "{AtmiGpu, AtmiShared}"
proof (unfold_locales, goal_cases)
  case (1 E m w sp sz v a m' w')
  note c = atmi_copy_cases [OF 1(1,3,4)]
  have "a \<notin> set m" using 1(2) c by (auto simp: atmi_owns_def)
  then show ?case using c 1(2,3) by (auto simp: atmi_owns_def)
next
  case (2 m w)
  have "fold (\<lambda>p w. snd (rt_free {AtmiGpu, AtmiShared} p w)) m w = w\<lparr>live := live w |` (- set m)\<rparr>"
    by (rule frees_ok) (use 2 in \<open>auto simp: atmi_owns_def\<close>)
  then show ?case by (simp add: atmi_freeAllBufs_def atmiFree_def)
qed

section \<open>Properties\<close>

lemma dev_owns_bmem: "dev_owns m (w\<lparr>bmem := x\<rparr>) = dev_owns m w"
  by (simp add: dev_owns_def)

lemma dev_copy_device: "makeDeviceCopy_vec E sz v = dev_copy E sz DeviceMem v"
  by (simp add: dev_copy_def)

text \<open>
  Take a new \<open>DeviceBufferManager\<close> and any sequence of device and pinned copies it makes, then one more
  device copy of a vector. Copying that buffer back into a vector of the same length gives the bytes
  of the first vector (as they were when the copy was made), and the destructor then succeeds and
  leaves live exactly the buffers that were live before the manager existed.
\<close>

theorem device_copies_released:
  assumes "fresh_bufs E" "fst ` set vs \<subseteq> {DeviceMem, PinnedHost}"
    and "copy_all (dev_copy E sz) vs (dev_mgr_make, w0) = Inr (m, w)"
    and "makeDeviceCopy_vec E sz v (m, w) = Inr (a, m1, w1)" and "snd u = snd v"
  shows "\<exists>w2 m3. copyVecToHost E sz u a w1 = Inr w2 \<and>
    read_bytes (bmem w2) (fst u) (snd u * sz) = read_bytes (bmem w) (fst v) (snd v * sz) \<and>
    dev_freeAllBufs m1 w2 = Inr (m3, w2\<lparr>live := live w0\<rparr>)"
proof -
  have o0: "dev_owns dev_mgr_make w0" "dev_owned dev_mgr_make = {}"
    by (simp_all add: dev_owns_def dev_owned_def dev_mgr_make_def)
  note o = dm.copies_owned [OF assms(1) o0(1) assms(2,3)]
  note c = dm.mk_copy [OF assms(1) conjunct1 [OF o] _ assms(4) [unfolded dev_copy_device], simplified]
  let ?w2 = "w1\<lparr>bmem := write_bytes (bmem w1) (fst u) (read_bytes (bmem w1) a (snd u * sz))\<rparr>"
  have n: "snd v \<noteq> 0" using assms(4) by (simp add: makeDeviceCopy_vec_def vec_front_def split: if_splits)
  have 1: "copyVecToHost E sz u a w1 = Inr ?w2"
    using assms(1,5) n by (simp add: copyVecToHost_def vec_front_def copyToHost_def rt_memcpy_def fresh_bufs_def CHECK_HIP_def)
  have 2: "read_bytes (bmem ?w2) (fst u) (snd u * sz) = read_bytes (bmem w) (fst v) (snd v * sz)"
    using dm.copy_contents [OF assms(1) conjunct1 [OF o] _ assms(4) [unfolded dev_copy_device]] assms(5)
    by (simp add: read_write_bytes_all)
  have l: "live ?w2 |` (- dev_owned m1) = live w0"
    using c conjunct2 [OF o] o0(2) by (auto simp: restrict_map_def fun_eq_iff split: if_splits)
  have "dev_owns m1 ?w2" using c by (simp only: dev_owns_bmem)
  then have "dev_freeAllBufs m1 ?w2 = Inr (\<lparr>mDevBufs = [], mHostBufs = []\<rparr>, ?w2\<lparr>live := live w0\<rparr>)"
    by (simp only: dev_release l)
  with 1 2 show ?thesis by blast
qed

text \<open>A runtime that hands out the first free of three addresses.\<close>

definition demo_runtime :: buf_env where
  "demo_runtime = \<lparr>new_buf = (\<lambda>w sp n. List.find (\<lambda>a. live w a = None) [1000, 2000, 3000]), copy_ok = (\<lambda>w d s n. True)\<rparr>"

definition demo_mem :: buf_world where
  "demo_mem = \<lparr>live = [500 \<mapsto> (DeviceMem, 8)], bmem = (\<lambda>a. word_of_nat a)\<rparr>"

lemma demo_runtime_fresh: "fresh_bufs demo_runtime"
  by (auto simp: fresh_bufs_def demo_runtime_def split: if_splits)

theorem device_copies_released_witness:
  "\<exists>m w a m1 w1 w2 m3. copy_all (dev_copy demo_runtime 1) [(PinnedHost, 10, 3)] (dev_mgr_make, demo_mem) = Inr (m, w) \<and>
     makeDeviceCopy_vec demo_runtime 1 (20, 2) (m, w) = Inr (a, m1, w1) \<and> a = 2000 \<and> length (mHostBufs m1) = 1 \<and>
     copyVecToHost demo_runtime 1 (40, 2) a w1 = Inr w2 \<and>
     dev_freeAllBufs m1 w2 = Inr (m3, w2\<lparr>live := live demo_mem\<rparr>)"
proof -
  let ?m = "\<lparr>mDevBufs = [], mHostBufs = [1000]\<rparr>"
  let ?w = "\<lparr>live = (live demo_mem)(1000 \<mapsto> (PinnedHost, 3)), bmem = write_bytes (bmem demo_mem) 1000 (read_bytes (bmem demo_mem) 10 3)\<rparr>"
  let ?w1 = "\<lparr>live = (live ?w)(2000 \<mapsto> (DeviceMem, 2)), bmem = write_bytes (bmem ?w) 2000 (read_bytes (bmem ?w) 20 2)\<rparr>"
  let ?m1 = "\<lparr>mDevBufs = [2000], mHostBufs = [1000]\<rparr>"
  note d = dev_copy_def makeSharedCopy_vec_def makeDeviceCopy_vec_def makeSharedCopy_def makeDeviceCopy_def hostAlloc_def deviceAlloc_def
    rt_malloc_def copyHostToHost_def copyToDevice_def rt_memcpy_def CHECK_HIP_def vec_front_def demo_runtime_def demo_mem_def dev_mgr_make_def
  have 1: "copy_all (dev_copy demo_runtime 1) [(PinnedHost, 10, 3)] (dev_mgr_make, demo_mem) = Inr (?m, ?w)"
    by (simp add: copy_all_def d)
  have 2: "makeDeviceCopy_vec demo_runtime 1 (20, 2) (?m, ?w) = Inr (2000, ?m1, ?w1)"
    by (simp add: d)
  from device_copies_released [OF demo_runtime_fresh _ 1 2, of "(40, 2)"]
  obtain w2 m3 where "copyVecToHost demo_runtime 1 (40, 2) 2000 ?w1 = Inr w2" "dev_freeAllBufs ?m1 w2 = Inr (m3, w2\<lparr>live := live demo_mem\<rparr>)"
    by auto
  with 1 2 show ?thesis by (intro exI conjI) (assumption | simp)+
qed

end
