(* ===== verification/Partition.thy ===== *)
theory Partition
  imports Buffers "HOL-Library.Multiset"
begin

text \<open>
  The partitions of the out-of-core executor: \<open>dagee/Partition.h\<close>. The blocks of a partition are kept in a
  hash map from variable names; the order in which an iterator meets them is not specified and is the
  argument \<open>walk\<close>, a rearrangement of the entries. Sizes are of type \<open>size_t\<close>: products and sums wrap.
\<close>

section \<open>Data blocks\<close>

record data_block =
  mPtr :: nat
  mBlkSize :: nat

type_synonym blocks = "(string \<times> data_block) list"

definition addDataBlock :: "nat \<Rightarrow> string \<Rightarrow> nat \<Rightarrow> nat \<Rightarrow> blocks \<Rightarrow> blocks res" where
  "addDataBlock sizeofT name ptr numElem d =
     rbind (check (map_of d name = None) ''find(name) == cend()'') (\<lambda>_.
     Inr (d @ [(name, \<lparr>mPtr = ptr, mBlkSize = (numElem * sizeofT) mod 2 ^ 64\<rparr>)]))"

definition blkPtr :: "string \<Rightarrow> blocks \<Rightarrow> nat res" where
  "blkPtr name d = (case map_of d name of None \<Rightarrow> Inl (AssertFail ''find(name) != cend()'') | Some b \<Rightarrow> Inr (mPtr b))"

text \<open>The functions of an iterator, which stands for the entry it points to.\<close>

definition varName :: "string \<times> data_block \<Rightarrow> string" where
  "varName i = fst i"

definition blkPtr_at :: "string \<times> data_block \<Rightarrow> nat" where
  "blkPtr_at i = mPtr (snd i)"

definition blkSz :: "string \<times> data_block \<Rightarrow> nat" where
  "blkSz i = mBlkSize (snd i)"

definition numBlocks :: "blocks \<Rightarrow> nat" where
  "numBlocks d = length d"

definition totalBytes :: "(blocks \<Rightarrow> blocks) \<Rightarrow> blocks \<Rightarrow> nat" where
  "totalBytes walk d = fold (\<lambda>p sum. (sum + mBlkSize (snd p)) mod 2 ^ 64) (walk d) 0"

section \<open>The data of a partition on the device\<close>

text \<open>
  The constructor fills a variable of its own that hides the member of the same name, so the member
  keeps the null pointer of its initialiser. A pointer that is advanced past the end of the buffer,
  \<open>lim\<close>, is undefined.
\<close>

record dev_data =
  devBlocks :: blocks
  mDeviceDataPtr :: nat

definition place_block :: "nat \<Rightarrow> string \<times> data_block \<Rightarrow> blocks \<times> nat \<Rightarrow> (blocks \<times> nat) res" where
  "place_block lim i = (\<lambda>(d, bytePtr).
     rbind (addDataBlock 1 (varName i) bytePtr (blkSz i) d) (\<lambda>d.
     if bytePtr + blkSz i \<le> lim then Inr (d, bytePtr + blkSz i) else Inl (Undefined ''pointer past the end of the buffer'')))"

definition dev_data_make :: "buf_env \<Rightarrow> (blocks \<Rightarrow> blocks) \<Rightarrow> blocks \<Rightarrow> buf_world \<Rightarrow> (dev_data \<times> buf_world) res" where
  "dev_data_make E walk tmpl w =
     (let totBytes = totalBytes walk tmpl in
     rbind (deviceAlloc E 1 totBytes w) (\<lambda>(localPtr, w).
     rbind (for_each (place_block (localPtr + totBytes)) (walk tmpl) ([], localPtr)) (\<lambda>(d, _).
     Inr (\<lparr>devBlocks = d, mDeviceDataPtr = 0\<rparr>, w))))"

definition dev_data_destroy :: "dev_data \<Rightarrow> buf_world \<Rightarrow> buf_world res" where
  "dev_data_destroy d w = rbind (deviceFree (mDeviceDataPtr d) w) (\<lambda>(_, w). Inr w)"

section \<open>Partitions\<close>

text \<open>
  The function that fills the graph is given the graph and the address of the device data. A task
  handle is \<open>None\<close> until it is first written.
\<close>

record 'g partition =
  mDAGfillFunc :: "nat \<Rightarrow> 'g \<Rightarrow> 'g res"
  mHostData :: nat
  mDeviceData :: nat
  mDAGptr :: nat
  mSrcTask :: "nat option"
  mSinkTask :: "nat option"

definition partition_make :: "(nat \<Rightarrow> 'g \<Rightarrow> 'g res) \<Rightarrow> nat \<Rightarrow> 'g partition" where
  "partition_make dagFillFunc hostData = \<lparr>mDAGfillFunc = dagFillFunc, mHostData = hostData, mDeviceData = 0,
     mDAGptr = 0, mSrcTask = None, mSinkTask = None\<rparr>"

definition fillDAG :: "nat \<Rightarrow> 'g \<Rightarrow> 'g partition \<Rightarrow> ('g partition \<times> 'g) res" where
  "fillDAG dag g part = rbind (check (dag \<noteq> 0) ''null ptr arg'') (\<lambda>_.
     let part = part\<lparr>mDAGptr := dag\<rparr> in
     rbind (mDAGfillFunc part (mDeviceData part) g) (\<lambda>g. Inr (part, g)))"

definition task_handle :: "nat option \<Rightarrow> nat res" where
  "task_handle h = (case h of None \<Rightarrow> Inl (Undefined ''uninitialised task handle'') | Some t \<Rightarrow> Inr t)"

section \<open>The layout of the device data\<close>

lemma totalBytes_eq: "mset (walk d) = mset d \<Longrightarrow> totalBytes walk d = sum_list (map blkSz d) mod 2 ^ 64"
proof -
  assume p: "mset (walk d) = mset d"
  have "fold (\<lambda>p sum. (sum + mBlkSize (snd p)) mod 2 ^ 64) xs (a mod 2 ^ 64) = (a + sum_list (map blkSz xs)) mod 2 ^ 64"
    for xs :: blocks and a
    by (induction xs arbitrary: a) (simp_all add: blkSz_def mod_simps add.assoc)
  from this [of "walk d" 0] have "totalBytes walk d = sum_list (map blkSz (walk d)) mod 2 ^ 64" by (simp add: totalBytes_def)
  moreover have "sum_list (map blkSz (walk d)) = sum_list (map blkSz d)"
    using arg_cong [OF p, of "\<lambda>m. sum_mset (image_mset blkSz m)"] by (simp add: sum_mset_sum_list flip: mset_map)
  ultimately show ?thesis by simp
qed

text \<open>Blocks one after the other from an address on.\<close>

fun packed :: "nat \<Rightarrow> blocks \<Rightarrow> blocks" where
  "packed a [] = []"
| "packed a (i # is) = (varName i, \<lparr>mPtr = a, mBlkSize = blkSz i\<rparr>) # packed (a + blkSz i) is"

lemma packed_names [simp]: "map fst (packed a is) = map fst is"
  by (induction "is" arbitrary: a) (auto simp: varName_def)

lemma packed_append: "packed a (xs @ ys) = packed a xs @ packed (a + sum_list (map blkSz xs)) ys"
  by (induction xs arbitrary: a) (auto simp: add.assoc)

lemma place_blocks:
  assumes "distinct (map fst is)" "lim < a + 2 ^ 64"
  shows "for_each (place_block lim) is ([], a) = (if is = [] \<or> a + sum_list (map blkSz is) \<le> lim
    then Inr (packed a is, a + sum_list (map blkSz is)) else Inl (Undefined ''pointer past the end of the buffer''))"
  using assms(1)
proof (induction "is" rule: rev_induct)
  case (snoc y ys)
  have IH: "for_each (place_block lim) ys ([], a) = (if ys = [] \<or> a + sum_list (map blkSz ys) \<le> lim
    then Inr (packed a ys, a + sum_list (map blkSz ys)) else Inl (Undefined ''pointer past the end of the buffer''))"
    using snoc by simp
  have "varName y \<notin> fst ` set (packed a ys)"
    using snoc.prems packed_names [of a ys] by (metis (no_types) distinct_append distinct.simps(2) list.map(2) list.set_map map_append
      not_distinct_conv_prefix varName_def)
  then have m: "map_of (packed a ys) (varName y) = None" by (simp add: map_of_eq_None_iff)
  have "blkSz y mod 2 ^ 64 = blkSz y" if "a + sum_list (map blkSz ys) + blkSz y \<le> lim" using that assms(2) by simp
  then have "place_block lim y (packed a ys, a + sum_list (map blkSz ys)) =
      (if a + sum_list (map blkSz (ys @ [y])) \<le> lim then Inr (packed a (ys @ [y]), a + sum_list (map blkSz (ys @ [y])))
       else Inl (Undefined ''pointer past the end of the buffer''))"
    using m by (simp add: place_block_def addDataBlock_def packed_append add.assoc)
  then show ?case unfolding for_each_append IH by auto
qed simp

lemma packed_block:
  assumes "(n, b) \<in> set (packed a is)"
  shows "a \<le> mPtr b \<and> mPtr b + mBlkSize b \<le> a + sum_list (map blkSz is)"
  using assms by (induction "is" arbitrary: a) fastforce+

lemma packed_disjoint:
  assumes "i < j" "j < length is"
  shows "mPtr (snd (packed a is ! i)) + mBlkSize (snd (packed a is ! i)) \<le> mPtr (snd (packed a is ! j))"
  using assms
proof (induction "is" arbitrary: a i j)
  case (Cons x xs)
  obtain j' where j: "j = Suc j'" "j' < length xs" using Cons.prems by (cases j) auto
  have l: "length (packed b xs) = length xs" for b using packed_names [of b xs] by (metis length_map)
  show ?case
  proof (cases i)
    case 0
    have "packed (a + blkSz x) xs ! j' \<in> set (packed (a + blkSz x) xs)" using j l by simp
    then show ?thesis using 0 j packed_block [of "fst (packed (a + blkSz x) xs ! j')"
      "snd (packed (a + blkSz x) xs ! j')" "a + blkSz x" xs] by simp
  next
    case (Suc i')
    then show ?thesis using Cons j by simp
  qed
qed simp

lemma packed_sizes: "map (\<lambda>i. (varName i, blkSz i)) (packed a is) = map (\<lambda>i. (varName i, blkSz i)) is"
  by (induction "is" arbitrary: a) (auto simp: varName_def blkSz_def)

lemma length_packed [simp]: "length (packed a is) = length is"
  using packed_names [of a "is"] by (metis length_map)

section \<open>Properties\<close>

text \<open>
  C26: The device data made from a template has a block of the same name and size for each block of the
  template; the blocks lie one after the other inside one new device buffer of the total size and do
  not overlap. The destructor however frees nothing: it reads the member that the constructor has
  hidden, so the buffer stays live. If the sizes sum up to \<open>2 ^ 64\<close> or more, the size of the buffer
  wraps and the constructor leaves it.
\<close>

theorem dev_data_layout:
  assumes "mset (walk d) = mset d" "distinct (map fst d)"
    and "new_buf E w DeviceMem (totalBytes walk d) = Some a" "a \<noteq> 0"
  shows "if sum_list (map blkSz d) < 2 ^ 64 then \<exists>dd w'. dev_data_make E walk d w = Inr (dd, w') \<and>
      live w' = (live w)(a \<mapsto> (DeviceMem, sum_list (map blkSz d))) \<and>
      map (\<lambda>i. (varName i, blkSz i)) (devBlocks dd) = map (\<lambda>i. (varName i, blkSz i)) (walk d) \<and>
      (\<forall>i \<in> set (devBlocks dd). a \<le> blkPtr_at i \<and> blkPtr_at i + blkSz i \<le> a + sum_list (map blkSz d)) \<and>
      (\<forall>i j. i < j \<and> j < numBlocks d \<longrightarrow>
        blkPtr_at (devBlocks dd ! i) + blkSz (devBlocks dd ! i) \<le> blkPtr_at (devBlocks dd ! j)) \<and>
      (\<forall>w2. dev_data_destroy dd w2 = Inr w2)
    else dev_data_make E walk d w = Inl (Undefined ''pointer past the end of the buffer'')"
proof -
  let ?n = "sum_list (map blkSz d)" and ?dd = "\<lparr>devBlocks = packed a (walk d), mDeviceDataPtr = 0\<rparr>"
  have n: "totalBytes walk d = ?n mod 2 ^ 64" using totalBytes_eq [of walk] assms(1) by simp
  have d: "distinct (map fst (walk d))" "length (walk d) = length d"
    using mset_eq_imp_distinct_iff [of "map fst (walk d)" "map fst d"] mset_eq_length [OF assms(1)] assms(1,2)
    by (simp_all add: mset_map)
  have s: "sum_list (map blkSz (walk d)) = ?n"
    using arg_cong [OF assms(1), of "\<lambda>m. sum_mset (image_mset blkSz m)"] by (simp add: sum_mset_sum_list flip: mset_map)
  have make: "dev_data_make E walk d w = rbind (for_each (place_block (a + ?n mod 2 ^ 64)) (walk d) ([], a))
      (\<lambda>(b, _). Inr (\<lparr>devBlocks = b, mDeviceDataPtr = 0\<rparr>, w\<lparr>live := (live w)(a \<mapsto> (DeviceMem, ?n mod 2 ^ 64))\<rparr>))"
    using assms(3,4) by (simp add: dev_data_make_def deviceAlloc_def rt_malloc_def CHECK_HIP_def n Let_def)
  have lim: "a + ?n mod 2 ^ 64 < a + 2 ^ 64" by simp
  have 2: "\<forall>i \<in> set (devBlocks ?dd). a \<le> blkPtr_at i \<and> blkPtr_at i + blkSz i \<le> a + ?n"
    using packed_block [of _ _ a "walk d"] s by (auto simp: blkPtr_at_def blkSz_def)
  have 3: "\<forall>i j. i < j \<and> j < numBlocks d \<longrightarrow>
      blkPtr_at (devBlocks ?dd ! i) + blkSz (devBlocks ?dd ! i) \<le> blkPtr_at (devBlocks ?dd ! j)"
    using packed_disjoint [of _ _ "walk d" a] d(2) by (simp add: blkPtr_at_def blkSz_def numBlocks_def)
  have 4: "\<forall>w2. dev_data_destroy ?dd w2 = Inr w2"
    by (simp add: dev_data_destroy_def deviceFree_def rt_free_def CHECK_HIP_def)
  show ?thesis
  proof (cases "?n < 2 ^ 64")
    case True
    then have 1: "dev_data_make E walk d w = Inr (?dd, w\<lparr>live := (live w)(a \<mapsto> (DeviceMem, ?n))\<rparr>)"
      unfolding make place_blocks [OF d(1) lim] s by simp
    show ?thesis unfolding if_P [OF True]
      by (intro exI conjI, rule 1, simp, simp add: packed_sizes, rule 2, rule 3, rule 4)
  next
    case False
    have "?n mod 2 ^ 64 < 2 ^ 64" by simp
    also have "\<dots> \<le> ?n" using False by simp
    finally have "?n mod 2 ^ 64 < ?n" .
    moreover from this have "walk d \<noteq> []" using s by (metis less_nat_zero_code list.simps(8) sum_list.Nil)
    ultimately show ?thesis unfolding if_not_P [OF False] make place_blocks [OF d(1) lim] s by simp
  qed
qed

theorem dev_data_layout_witness:
  "\<exists>dd w'. dev_data_make demo_runtime rev [(''x'', \<lparr>mPtr = 16, mBlkSize = 8\<rparr>), (''y'', \<lparr>mPtr = 64, mBlkSize = 4\<rparr>)] demo_mem =
     Inr (dd, w') \<and> map varName (devBlocks dd) = [''y'', ''x''] \<and> live w' 1000 = Some (DeviceMem, 12) \<and>
     dev_data_destroy dd w' = Inr w'"
proof -
  let ?d = "[(''x'', \<lparr>mPtr = 16, mBlkSize = 8\<rparr>), (''y'', \<lparr>mPtr = 64, mBlkSize = 4\<rparr>)]"
  have f: "new_buf demo_runtime demo_mem DeviceMem (totalBytes rev ?d) = Some 1000"
    by (simp add: demo_runtime_def demo_mem_def)
  have n: "mset (rev ?d) = mset ?d" "distinct (map fst ?d)" by simp_all
  have "sum_list (map blkSz ?d) < 2 ^ 64" by (simp add: blkSz_def)
  from dev_data_layout [OF n f, unfolded if_P [OF this]] obtain dd w' where
    l: "dev_data_make demo_runtime rev ?d demo_mem = Inr (dd, w')"
      "live w' = (live demo_mem)(1000 \<mapsto> (DeviceMem, sum_list (map blkSz ?d)))"
      "map (\<lambda>i. (varName i, blkSz i)) (devBlocks dd) = map (\<lambda>i. (varName i, blkSz i)) (rev ?d)"
      "dev_data_destroy dd w' = Inr w'" by auto
  have "map varName (devBlocks dd) = map fst (map (\<lambda>i. (varName i, blkSz i)) (devBlocks dd))" by simp
  also have "\<dots> = [''y'', ''x'']" unfolding l(3) by (simp add: varName_def)
  finally show ?thesis using l by (auto simp: blkSz_def)
qed

end
