(* ===== verification/TaskDag.thy ===== *)
theory TaskDag
  imports Prelude
begin

text \<open>
  The task graph of \<open>DAGEE-lib/include/dagee/TaskDAG.h\<close>: the three node layouts (successor lists
  with a predecessor counter, predecessor lists, both), the operations of \<open>DAGbase\<close> that build and
  inspect a graph, its well-formedness invariant, and the refinement to a directed graph. The
  traversal in topological order is in the theory \<open>Topo\<close>.

  Nodes live at addresses; the address that the allocator returns is an argument of \<open>addNode\<close>.
  Adjacency lists hold addresses, so that an edge shares its end points as the code does, and a
  use of an address with no live node is \<open>Undefined\<close>.
\<close>

section \<open>Nodes\<close>

type_synonym addr = nat

datatype node_kind = NodePush | NodePull | NodeInOut

text \<open>\<open>impl::ChooseNodeType\<close>; the instance that stores neither list has no member \<open>type\<close>.\<close>

fun ChooseNodeType :: "bool \<Rightarrow> bool \<Rightarrow> node_kind res" where
  "ChooseNodeType True True = Inr NodeInOut"
| "ChooseNodeType False True = Inr NodePush"
| "ChooseNodeType True False = Inr NodePull"
| "ChooseNodeType False False = Inl (NoMember ''type'')"

text \<open>
  One record holds the fields of the base classes; a layout uses those its bases have. The counters
  are \<open>std::atomic<unsigned>\<close>. (The extra \<open>mNumPred\<close> that \<open>NodeInOut\<close> declares itself is never read
  or written: its methods name those of \<open>PredCountBase\<close>.)
\<close>

record 'd node =
  mData :: 'd
  mNumPred :: "32 word"
  mDepCounter :: "32 word"
  mSuccList :: "addr list"
  mPredList :: "addr list"
  mDone :: bool

definition make_node :: "'d \<Rightarrow> 'd node" where
  "make_node d = \<lparr>mData = d, mNumPred = 0, mDepCounter = 0, mSuccList = [], mPredList = [],
     mDone = False\<rparr>"

fun stores_succ :: "node_kind \<Rightarrow> bool" where
  "stores_succ NodePull = False" | "stores_succ _ = True"

fun stores_pred :: "node_kind \<Rightarrow> bool" where
  "stores_pred NodePush = False" | "stores_pred _ = True"

subsection \<open>NodeSuccBase\<close>

definition hasSucc :: "'d node \<Rightarrow> addr \<Rightarrow> bool res" where
  "hasSucc nd n = rbind (check (n \<noteq> 0) ''null pointer arg'') (\<lambda>_. Inr (n \<in> set (mSuccList nd)))"

definition addSucc :: "'d node \<Rightarrow> addr \<Rightarrow> 'd node res" where
  "addSucc nd n = rbind (check (n \<noteq> 0) ''null pointer arg'') (\<lambda>_.
     rbind (hasSucc nd n) (\<lambda>b. rbind (check (\<not> b) ''duplicate edge'') (\<lambda>_.
     Inr (nd\<lparr>mSuccList := mSuccList nd @ [n]\<rparr>))))"

definition node_isSink :: "'d node \<Rightarrow> bool" where
  "node_isSink nd \<longleftrightarrow> mSuccList nd = []"

subsection \<open>NodePredBase\<close>

definition hasPred :: "'d node \<Rightarrow> addr \<Rightarrow> bool res" where
  "hasPred nd n = rbind (check (n \<noteq> 0) ''null pointer arg'') (\<lambda>_. Inr (n \<in> set (mPredList nd)))"

definition addPred :: "'d node \<Rightarrow> addr \<Rightarrow> 'd node res" where
  "addPred nd n = rbind (check (n \<noteq> 0) ''null pointer arg'') (\<lambda>_.
     rbind (hasPred nd n) (\<lambda>b. rbind (check (\<not> b) ''duplicate edge'') (\<lambda>_.
     Inr (nd\<lparr>mPredList := mPredList nd @ [n]\<rparr>))))"

subsection \<open>PredCountBase\<close>

definition pc_isSrc :: "'d node \<Rightarrow> bool" where
  "pc_isSrc nd \<longleftrightarrow> mNumPred nd = 0"

definition pc_addPred :: "'d node \<Rightarrow> 'd node" where
  "pc_addPred nd = nd\<lparr>mNumPred := mNumPred nd + 1\<rparr>"

definition resetDepCounter :: "'d node \<Rightarrow> 'd node" where
  "resetDepCounter nd = nd\<lparr>mDepCounter := mNumPred nd\<rparr>"

definition decrementDepCounter :: "'d node \<Rightarrow> 32 word \<times> 'd node" where
  "decrementDepCounter nd = (mDepCounter nd - 1, nd\<lparr>mDepCounter := mDepCounter nd - 1\<rparr>)"

subsection \<open>The operations of the three layouts\<close>

fun node_addSucc :: "node_kind \<Rightarrow> 'd node \<Rightarrow> addr \<Rightarrow> 'd node res" where
  "node_addSucc NodePush nd b = addSucc nd b"
| "node_addSucc NodePull nd b = Inr nd"
| "node_addSucc NodeInOut nd b = addSucc nd b"

fun node_addPred :: "node_kind \<Rightarrow> 'd node \<Rightarrow> addr \<Rightarrow> 'd node res" where
  "node_addPred NodePush nd a = Inr (pc_addPred nd)"
| "node_addPred NodePull nd a = addPred nd a"
| "node_addPred NodeInOut nd a = rbind (addPred nd a) (\<lambda>nd'. Inr (pc_addPred nd'))"

section \<open>DAGbase\<close>

record 'd dag =
  dkind :: node_kind
  mAllNodes :: "addr list"
  nodeAt :: "addr \<Rightarrow> 'd node option"

definition dag_empty :: "node_kind \<Rightarrow> 'd dag" where
  "dag_empty k = \<lparr>dkind = k, mAllNodes = [], nodeAt = (\<lambda>_. None)\<rparr>"

definition deref :: "'d dag \<Rightarrow> addr \<Rightarrow> 'd node res" where
  "deref g p = (case nodeAt g p of None \<Rightarrow> Inl (Undefined ''dangling node'') | Some nd \<Rightarrow> Inr nd)"

definition put_node :: "'d dag \<Rightarrow> addr \<Rightarrow> 'd node \<Rightarrow> 'd dag" where
  "put_node g p nd = g\<lparr>nodeAt := (nodeAt g)(p \<mapsto> nd)\<rparr>"

definition on_node :: "'d dag \<Rightarrow> addr \<Rightarrow> ('d node \<Rightarrow> 'd node res) \<Rightarrow> 'd dag res" where
  "on_node g p f = rbind (deref g p) (\<lambda>nd. rbind (f nd) (\<lambda>nd'. Inr (put_node g p nd')))"

definition addNode :: "addr \<Rightarrow> 'd \<Rightarrow> 'd dag \<Rightarrow> (addr \<times> 'd dag) res" where
  "addNode t d g = rbind (check (t \<noteq> 0) ''node allocation failed'') (\<lambda>_.
     let g' = put_node g t (make_node d) in Inr (t, g'\<lparr>mAllNodes := mAllNodes g' @ [t]\<rparr>))"

definition addEdge :: "addr \<Rightarrow> addr \<Rightarrow> 'd dag \<Rightarrow> 'd dag res" where
  "addEdge a b g =
     rbind (check (a \<noteq> 0 \<and> b \<noteq> 0) ''both args should be non-null'') (\<lambda>_.
     rbind (check (a \<noteq> b) ''cannot add self edge, i.e., src==dst'') (\<lambda>_.
     rbind (on_node g a (\<lambda>nd. node_addSucc (dkind g) nd b)) (\<lambda>g'.
     on_node g' b (\<lambda>nd. node_addPred (dkind g') nd a))))"

definition addFanOutEdges :: "addr \<Rightarrow> addr list \<Rightarrow> 'd dag \<Rightarrow> 'd dag res" where
  "addFanOutEdges a lb g = for_each (\<lambda>b g. addEdge a b g) lb g"

definition addFanInEdges :: "addr list \<Rightarrow> addr \<Rightarrow> 'd dag \<Rightarrow> 'd dag res" where
  "addFanInEdges la b g = for_each (\<lambda>a g. addEdge a b g) la g"

text \<open>The three overloads; \<open>&&\<close> does not evaluate its second operand when the first is false.\<close>

definition hasEdge :: "addr \<Rightarrow> addr \<Rightarrow> 'd dag \<Rightarrow> bool res" where
  "hasEdge a b g = (case dkind g of
       NodeInOut \<Rightarrow> rbind (deref g a) (\<lambda>na. rbind (hasSucc na b) (\<lambda>s.
         if s then rbind (deref g b) (\<lambda>nb. hasPred nb a) else Inr False))
     | NodePull \<Rightarrow> rbind (deref g b) (\<lambda>nb. hasPred nb a)
     | NodePush \<Rightarrow> rbind (deref g a) (\<lambda>na. hasSucc na b))"

definition addEdgeIfAbsent :: "addr \<Rightarrow> addr \<Rightarrow> 'd dag \<Rightarrow> 'd dag res" where
  "addEdgeIfAbsent a b g =
     rbind (check (a \<noteq> 0 \<and> b \<noteq> 0) ''both args should be non-null'') (\<lambda>_.
     rbind (check (a \<noteq> b) ''cannot add self edge, i.e., src==dst'') (\<lambda>_.
     rbind (hasEdge a b g) (\<lambda>e. if \<not> e then addEdge a b g else Inr g)))"

text \<open>\<open>NodePull::isSrc\<close> stops at the first predecessor that is not done.\<close>

fun all_done :: "'d dag \<Rightarrow> addr list \<Rightarrow> bool res" where
  "all_done g [] = Inr True"
| "all_done g (p # ps) = rbind (deref g p) (\<lambda>nd. if \<not> mDone nd then Inr False else all_done g ps)"

definition isSrc :: "'d dag \<Rightarrow> addr \<Rightarrow> bool res" where
  "isSrc g p = rbind (deref g p) (\<lambda>nd. case dkind g of
       NodePush \<Rightarrow> Inr (pc_isSrc nd)
     | NodePull \<Rightarrow> all_done g (mPredList nd)
     | NodeInOut \<Rightarrow> Inr (pc_isSrc nd))"

definition successors :: "'d dag \<Rightarrow> addr \<Rightarrow> addr list res" where
  "successors g p = (if stores_succ (dkind g) then rbind (deref g p) (\<lambda>nd. Inr (mSuccList nd))
     else Inl (NoMember ''successors''))"

definition predecessors :: "'d dag \<Rightarrow> addr \<Rightarrow> addr list res" where
  "predecessors g p = (if stores_pred (dkind g) then rbind (deref g p) (\<lambda>nd. Inr (mPredList nd))
     else Inl (NoMember ''predecessors''))"

definition isSink :: "'d dag \<Rightarrow> addr \<Rightarrow> bool res" where
  "isSink g p = (if stores_succ (dkind g) then rbind (deref g p) (\<lambda>nd. Inr (node_isSink nd))
     else Inl (NoMember ''isSink''))"

definition nodeData :: "'d dag \<Rightarrow> addr \<Rightarrow> 'd res" where
  "nodeData g p = rbind (deref g p) (\<lambda>nd. Inr (mData nd))"

definition set_nodeData :: "addr \<Rightarrow> 'd \<Rightarrow> 'd dag \<Rightarrow> 'd dag res" where
  "set_nodeData p d g = on_node g p (\<lambda>nd. Inr (nd\<lparr>mData := d\<rparr>))"

text \<open>
  A callback sees the graph and its own captured state, and may change both. The loop runs over
  the node list the graph has when it starts.
\<close>

type_synonym ('d, 's) visitor = "addr \<Rightarrow> 'd dag \<times> 's \<Rightarrow> ('d dag \<times> 's) res"

definition forEachNode :: "('d, 's) visitor \<Rightarrow> 'd dag \<times> 's \<Rightarrow> ('d dag \<times> 's) res" where
  "forEachNode func gs = for_each (\<lambda>p gs.
     rbind (check (p \<noteq> 0) ''found null node in mAllNodes'') (\<lambda>_. func p gs)) (mAllNodes (fst gs)) gs"

definition forEachSource :: "('d, 's) visitor \<Rightarrow> 'd dag \<times> 's \<Rightarrow> ('d dag \<times> 's) res" where
  "forEachSource func = forEachNode (\<lambda>p gs.
     rbind (isSrc (fst gs) p) (\<lambda>s. if s then func p gs else Inr gs))"

definition forEachSink :: "('d, 's) visitor \<Rightarrow> 'd dag \<times> 's \<Rightarrow> ('d dag \<times> 's) res" where
  "forEachSink func = forEachNode (\<lambda>p gs.
     rbind (isSink (fst gs) p) (\<lambda>s. if s then func p gs else Inr gs))"

definition dag_size :: "'d dag \<Rightarrow> (nat \<times> nat) res" where
  "dag_size g = for_each (\<lambda>t (numNodes, numEdges).
     rbind (successors g t) (\<lambda>ss. Inr (numNodes + 1, numEdges + length ss))) (mAllNodes g) (0, 0)"

definition destroyNode :: "addr \<Rightarrow> 'd dag \<Rightarrow> 'd dag res" where
  "destroyNode t g = rbind (check (t \<noteq> 0) ''arg must be non-null'') (\<lambda>_.
     rbind (deref g t) (\<lambda>_. Inr (g\<lparr>nodeAt := (nodeAt g)(t := None)\<rparr>)))"

definition destroyAllNodes :: "'d dag \<Rightarrow> 'd dag res" where
  "destroyAllNodes g = rbind (for_each destroyNode (mAllNodes g) g) (\<lambda>g'. Inr (g'\<lparr>mAllNodes := []\<rparr>))"

definition dag_clear :: "'d dag \<Rightarrow> 'd dag res" where
  "dag_clear g = destroyAllNodes g"

end
