(* ===== verification/DagLaws.thy ===== *)
theory DagLaws
  imports TaskDag
begin

text \<open>
  The contract of the task graph. The locale \<open>digraph\<close> states what the clients of a graph rely on:
  its operations build a finite directed graph, without self edges and without duplicates. Its
  lemmas on fans, on lists of edges and on acyclicity are proved once; the interpretation \<open>dg\<close>
  discharges the laws for \<open>DAGbase\<close> in all three layouts from the invariant \<open>wf_dag\<close>.
\<close>

section \<open>The interface of a graph\<close>

locale digraph =
  fixes inv :: "'g \<Rightarrow> bool" and V :: "'g \<Rightarrow> nat set" and E :: "'g \<Rightarrow> (nat \<times> nat) set"
    and add_edge :: "nat \<Rightarrow> nat \<Rightarrow> 'g \<Rightarrow> 'g res" and has_edge :: "nat \<Rightarrow> nat \<Rightarrow> 'g \<Rightarrow> bool res"
    and add_absent :: "nat \<Rightarrow> nat \<Rightarrow> 'g \<Rightarrow> 'g res"
  assumes add_fresh: "inv g \<Longrightarrow> a \<in> V g \<Longrightarrow> b \<in> V g \<Longrightarrow> a \<noteq> b \<Longrightarrow> (a, b) \<notin> E g \<Longrightarrow>
      \<exists>g'. add_edge a b g = Inr g' \<and> inv g' \<and> V g' = V g \<and> E g' = insert (a, b) (E g)"
    and add_dup: "inv g \<Longrightarrow> (a, b) \<in> E g \<Longrightarrow> \<exists>e. add_edge a b g = Inl e"
    and add_self: "\<exists>e. add_edge a a g = Inl e"
    and has_iff: "inv g \<Longrightarrow> a \<in> V g \<Longrightarrow> b \<in> V g \<Longrightarrow> has_edge a b g = Inr ((a, b) \<in> E g)"
    and absent_def: "a \<noteq> b \<Longrightarrow> a \<noteq> 0 \<Longrightarrow> b \<noteq> 0 \<Longrightarrow> add_absent a b g =
      rbind (has_edge a b g) (\<lambda>e. if \<not> e then add_edge a b g else Inr g)"
    and closed: "inv g \<Longrightarrow> E g \<subseteq> V g \<times> V g" and null: "inv g \<Longrightarrow> 0 \<notin> V g"
    and irrefl: "inv g \<Longrightarrow> (a, a) \<notin> E g"
begin

lemma absent_ok:
  assumes "inv g" "a \<in> V g" "b \<in> V g" "a \<noteq> b"
  shows "\<exists>g'. add_absent a b g = Inr g' \<and> inv g' \<and> V g' = V g \<and> E g' = insert (a, b) (E g)"
proof -
  have "a \<noteq> 0" "b \<noteq> 0" using assms null by metis+
  then show ?thesis
    using assms add_fresh [of g a b] by (auto simp: absent_def has_iff insert_absorb)
qed

lemma add_ok_iff:
  assumes "inv g" "a \<in> V g" "b \<in> V g"
  shows "(\<exists>g'. add_edge a b g = Inr g') \<longleftrightarrow> a \<noteq> b \<and> (a, b) \<notin> E g"
  by (metis add_dup add_fresh add_self assms sum.distinct(1))

lemma edges_ok:
  assumes "inv g" "set es \<subseteq> V g \<times> V g" "distinct es" "set es \<inter> E g = {}" "\<forall>(a, b) \<in> set es. a \<noteq> b"
  shows "\<exists>g'. for_each (\<lambda>(a, b) g. add_edge a b g) es g = Inr g' \<and> inv g' \<and> V g' = V g \<and>
    E g' = set es \<union> E g"
proof -
  have "\<exists>t. for_each (\<lambda>(a, b) g. add_edge a b g) es g = Inr t \<and>
      (inv t \<and> V t = V g \<and> E t = set es \<union> E g)"
  proof (rule for_each_rule)
    fix ys y zs t assume es: "es = ys @ y # zs" and t: "inv t \<and> V t = V g \<and> E t = set ys \<union> E g"
    obtain a b where y: "y = (a, b)" by (cases y)
    have "a \<in> V t" "b \<in> V t" "a \<noteq> b" "(a, b) \<notin> E t"
      using assms t es y by auto
    with add_fresh t obtain t' where
      "add_edge a b t = Inr t'" "inv t'" "V t' = V t" "E t' = insert (a, b) (E t)" by meson
    with t y show "\<exists>t'. (case y of (a, b) \<Rightarrow> add_edge a b) t = Inr t' \<and>
        inv t' \<and> V t' = V g \<and> E t' = set (ys @ [y]) \<union> E g"
      by auto
  qed (use assms in simp)
  then show ?thesis by blast
qed

lemma absents_ok:
  assumes "inv g" "set es \<subseteq> V g \<times> V g" "\<forall>(a, b) \<in> set es. a \<noteq> b"
  shows "\<exists>g'. for_each (\<lambda>p g. add_absent (fst p) (snd p) g) es g = Inr g' \<and> inv g' \<and> V g' = V g \<and>
    E g' = set es \<union> E g"
proof -
  have "\<exists>t. for_each (\<lambda>p g. add_absent (fst p) (snd p) g) es g = Inr t \<and>
      (inv t \<and> V t = V g \<and> E t = set es \<union> E g)"
  proof (rule for_each_rule)
    fix ys y zs t assume es: "es = ys @ y # zs" and t: "inv t \<and> V t = V g \<and> E t = set ys \<union> E g"
    obtain a b where y: "y = (a, b)" by (cases y)
    have "a \<in> V t" "b \<in> V t" "a \<noteq> b" using assms t es y by auto
    with absent_ok t obtain t' where
      "add_absent a b t = Inr t'" "inv t'" "V t' = V t" "E t' = insert (a, b) (E t)" by meson
    with t y show "\<exists>t'. add_absent (fst y) (snd y) t = Inr t' \<and>
        inv t' \<and> V t' = V g \<and> E t' = set (ys @ [y]) \<union> E g"
      by auto
  qed (use assms in simp)
  then show ?thesis by blast
qed

text \<open>Edges that follow a rank keep a graph free of cycles.\<close>

lemma ranked_acyclic:
  assumes "\<forall>(a, b) \<in> E g. (r a :: nat) < r b"
  shows "acyclic (E g)"
  by (rule acyclicI_order [of _ "\<lambda>x. - int (r x)"]) (use assms in auto)

lemma fan_out:
  assumes "inv g" "a \<in> V g" "set bs \<subseteq> V g - {a}" "distinct bs" "\<forall>b \<in> set bs. (a, b) \<notin> E g"
  shows "\<exists>g'. for_each (\<lambda>b g. add_edge a b g) bs g = Inr g' \<and> inv g' \<and> V g' = V g \<and>
    E g' = {a} \<times> set bs \<union> E g"
proof -
  have "for_each (\<lambda>b g. add_edge a b g) bs g = for_each (\<lambda>(a, b) g. add_edge a b g) (map (Pair a) bs) g"
    by (simp add: for_each_map)
  moreover have "set (map (Pair a) bs) = {a} \<times> set bs" by auto
  moreover have "distinct (map (Pair a) bs)" using assms by (auto simp: distinct_map inj_on_def)
  ultimately show ?thesis using edges_ok [of g "map (Pair a) bs"] assms by fastforce
qed

lemma fan_in:
  assumes "inv g" "b \<in> V g" "set as \<subseteq> V g - {b}" "distinct as" "\<forall>a \<in> set as. (a, b) \<notin> E g"
  shows "\<exists>g'. for_each (\<lambda>a g. add_edge a b g) as g = Inr g' \<and> inv g' \<and> V g' = V g \<and>
    E g' = set as \<times> {b} \<union> E g"
proof -
  have "for_each (\<lambda>a g. add_edge a b g) as g =
      for_each (\<lambda>(a, b) g. add_edge a b g) (map (\<lambda>a. (a, b)) as) g"
    by (simp add: for_each_map)
  moreover have "set (map (\<lambda>a. (a, b)) as) = set as \<times> {b}" by auto
  moreover have "distinct (map (\<lambda>a. (a, b)) as)" using assms by (auto simp: distinct_map inj_on_def)
  ultimately show ?thesis using edges_ok [of g "map (\<lambda>a. (a, b)) as"] assms by fastforce
qed

end

section \<open>The graph that a \<open>DAGbase\<close> represents\<close>

definition verts :: "'d dag \<Rightarrow> addr set" where "verts g = set (mAllNodes g)"

definition succs :: "'d dag \<Rightarrow> addr \<Rightarrow> addr list" where
  "succs g p = (case nodeAt g p of None \<Rightarrow> [] | Some nd \<Rightarrow> mSuccList nd)"

definition preds :: "'d dag \<Rightarrow> addr \<Rightarrow> addr list" where
  "preds g p = (case nodeAt g p of None \<Rightarrow> [] | Some nd \<Rightarrow> mPredList nd)"

definition npred :: "'d dag \<Rightarrow> addr \<Rightarrow> 32 word" where
  "npred g p = (case nodeAt g p of None \<Rightarrow> 0 | Some nd \<Rightarrow> mNumPred nd)"

definition depc :: "'d dag \<Rightarrow> addr \<Rightarrow> 32 word" where
  "depc g p = (case nodeAt g p of None \<Rightarrow> 0 | Some nd \<Rightarrow> mDepCounter nd)"

definition edges :: "'d dag \<Rightarrow> (addr \<times> addr) set" where
  "edges g = (if stores_succ (dkind g) then {(a, b). a \<in> verts g \<and> b \<in> set (succs g a)}
     else {(a, b). b \<in> verts g \<and> a \<in> set (preds g b)})"

definition wf_dag :: "'d dag \<Rightarrow> bool" where
  "wf_dag g \<longleftrightarrow> distinct (mAllNodes g) \<and> 0 \<notin> verts g \<and> dom (nodeAt g) = verts g \<and>
     edges g \<subseteq> verts g \<times> verts g \<and> (\<forall>p. (p, p) \<notin> edges g) \<and>
     (\<forall>p. distinct (succs g p) \<and> distinct (preds g p)) \<and>
     (\<forall>p. \<not> stores_succ (dkind g) \<longrightarrow> succs g p = []) \<and>
     (\<forall>p. \<not> stores_pred (dkind g) \<longrightarrow> preds g p = []) \<and>
     (stores_pred (dkind g) \<longrightarrow> (\<forall>b \<in> verts g. set (preds g b) = {a. (a, b) \<in> edges g})) \<and>
     (dkind g \<noteq> NodePull \<longrightarrow> (\<forall>b \<in> verts g. npred g b = of_nat (card {a. (a, b) \<in> edges g})))"

named_theorems dag_simps \<open>the views of an updated graph\<close>

lemma put_node_simps [dag_simps]:
  "dkind (put_node g p nd) = dkind g" "mAllNodes (put_node g p nd) = mAllNodes g"
  "nodeAt (put_node g p nd) = (nodeAt g)(p \<mapsto> nd)" "verts (put_node g p nd) = verts g"
  "succs (put_node g p nd) q = (if q = p then mSuccList nd else succs g q)"
  "preds (put_node g p nd) q = (if q = p then mPredList nd else preds g q)"
  "npred (put_node g p nd) q = (if q = p then mNumPred nd else npred g q)"
  "depc (put_node g p nd) q = (if q = p then mDepCounter nd else depc g q)"
  by (auto simp: put_node_def verts_def succs_def preds_def npred_def depc_def)

lemma deref_Some [simp]: "nodeAt g p = Some nd \<Longrightarrow> deref g p = Inr nd"
  by (simp add: deref_def)

lemma view_Some:
  "nodeAt g p = Some nd \<Longrightarrow> succs g p = mSuccList nd" "nodeAt g p = Some nd \<Longrightarrow> preds g p = mPredList nd"
  "nodeAt g p = Some nd \<Longrightarrow> npred g p = mNumPred nd" "nodeAt g p = Some nd \<Longrightarrow> depc g p = mDepCounter nd"
  by (simp_all add: succs_def preds_def npred_def depc_def)

lemma wf_dag_node: "wf_dag g \<Longrightarrow> p \<in> verts g \<Longrightarrow> \<exists>nd. nodeAt g p = Some nd"
  by (auto simp: wf_dag_def)

lemma wf_dag_nonnull: "wf_dag g \<Longrightarrow> p \<in> verts g \<Longrightarrow> 0 < p"
  by (cases p) (auto simp: wf_dag_def)

lemma edges_finite: "wf_dag g \<Longrightarrow> finite {a. (a, b) \<in> edges g}"
proof -
  assume "wf_dag g"
  then have "{a. (a, b) \<in> edges g} \<subseteq> verts g" by (auto simp: wf_dag_def)
  then show ?thesis by (rule finite_subset) (simp add: verts_def)
qed

lemma edges_pred: "wf_dag g \<Longrightarrow> stores_pred (dkind g) \<Longrightarrow> b \<in> verts g \<Longrightarrow>
    (a, b) \<in> edges g \<longleftrightarrow> a \<in> set (preds g b)"
  by (auto simp: wf_dag_def)

lemma edges_succ: "stores_succ (dkind g) \<Longrightarrow> a \<in> verts g \<Longrightarrow>
    (a, b) \<in> edges g \<longleftrightarrow> b \<in> set (succs g a)"
  by (auto simp: edges_def)

lemma wf_dag_empty: "wf_dag (dag_empty k)"
  by (auto simp: wf_dag_def dag_empty_def verts_def succs_def preds_def edges_def)

subsection \<open>Adding a node\<close>

lemma addNode_ok:
  assumes "wf_dag g" "t \<noteq> 0" "t \<notin> verts g"
  shows "\<exists>g'. addNode t d g = Inr (t, g') \<and> wf_dag g' \<and> verts g' = insert t (verts g) \<and>
    edges g' = edges g \<and> dkind g' = dkind g"
proof -
  let ?g = "put_node g t (make_node d)"
  let ?g' = "?g\<lparr>mAllNodes := mAllNodes ?g @ [t]\<rparr>"
  have view: "verts ?g' = insert t (verts g)" "dkind ?g' = dkind g" "mAllNodes ?g' = mAllNodes g @ [t]"
    "nodeAt ?g' = (nodeAt g)(t \<mapsto> make_node d)"
    "\<And>q. succs ?g' q = (if q = t then [] else succs g q)"
    "\<And>q. preds ?g' q = (if q = t then [] else preds g q)"
    "\<And>q. npred ?g' q = (if q = t then 0 else npred g q)"
    by (auto simp: put_node_def verts_def make_node_def succs_def preds_def npred_def)
  have E: "edges ?g' = edges g"
    using assms(3) by (auto simp: edges_def view split: if_splits)
  have none: "\<And>a. (a, t) \<notin> edges g" "\<And>a. (t, a) \<notin> edges g"
    using assms by (auto simp: wf_dag_def)
  have "wf_dag ?g'"
    using assms none unfolding wf_dag_def E view
    by (auto simp: verts_def)
  then show ?thesis using assms view E by (auto simp: addNode_def Let_def)
qed

subsection \<open>Adding an edge\<close>

lemma addEdge_effect:
  assumes wf: "wf_dag g" and a: "a \<in> verts g" and b: "b \<in> verts g" and ab: "a \<noteq> b" "(a, b) \<notin> edges g"
  shows "\<exists>g'. addEdge a b g = Inr g' \<and> dkind g' = dkind g \<and> mAllNodes g' = mAllNodes g \<and>
    dom (nodeAt g') = dom (nodeAt g) \<and>
    succs g' = (\<lambda>p. if p = a \<and> stores_succ (dkind g) then succs g a @ [b] else succs g p) \<and>
    preds g' = (\<lambda>p. if p = b \<and> stores_pred (dkind g) then preds g b @ [a] else preds g p) \<and>
    npred g' = (\<lambda>p. if p = b \<and> dkind g \<noteq> NodePull then npred g b + 1 else npred g p)"
proof -
  obtain na nb where n: "nodeAt g a = Some na" "nodeAt g b = Some nb"
    using wf_dag_node [OF wf] a b by blast
  have nz: "0 < a" "0 < b" using wf_dag_nonnull [OF wf] a b by auto
  have v: "succs g a = mSuccList na" "preds g b = mPredList nb" "npred g b = mNumPred nb"
    using n by (simp_all add: view_Some)
  have "stores_succ (dkind g) \<Longrightarrow> b \<notin> set (mSuccList na)"
    using ab a by (simp add: edges_succ v)
  moreover have "stores_pred (dkind g) \<Longrightarrow> a \<notin> set (mPredList nb)"
    using ab b wf by (simp add: edges_pred v)
  ultimately show ?thesis
    using n nz ab v
    by (cases "dkind g")
      (auto simp: addEdge_def on_node_def addSucc_def hasSucc_def addPred_def hasPred_def pc_addPred_def
        dag_simps deref_def fun_eq_iff succs_def preds_def npred_def)
qed

lemma addEdge_ok:
  assumes wf: "wf_dag g" and a: "a \<in> verts g" and b: "b \<in> verts g" and ab: "a \<noteq> b" "(a, b) \<notin> edges g"
  shows "\<exists>g'. addEdge a b g = Inr g' \<and> wf_dag g' \<and> mAllNodes g' = mAllNodes g \<and> dkind g' = dkind g \<and>
    edges g' = insert (a, b) (edges g)"
proof -
  from addEdge_effect [OF assms] obtain g' where g': "addEdge a b g = Inr g'"
    and k: "dkind g' = dkind g" "mAllNodes g' = mAllNodes g" "dom (nodeAt g') = dom (nodeAt g)"
    and s: "succs g' = (\<lambda>p. if p = a \<and> stores_succ (dkind g) then succs g a @ [b] else succs g p)"
    and p: "preds g' = (\<lambda>p. if p = b \<and> stores_pred (dkind g) then preds g b @ [a] else preds g p)"
    and n: "npred g' = (\<lambda>p. if p = b \<and> dkind g \<noteq> NodePull then npred g b + 1 else npred g p)"
    by blast
  have v: "verts g' = verts g" by (simp add: verts_def k)
  have E: "edges g' = insert (a, b) (edges g)"
  proof (cases "stores_succ (dkind g)")
    case True
    then show ?thesis using a by (auto simp: edges_def k v s split: if_splits)
  next
    case False
    then have "stores_pred (dkind g)" by (cases "dkind g") auto
    with False show ?thesis using b by (auto simp: edges_def k v p split: if_splits)
  qed
  have col: "{x. (x, q) \<in> edges g'} = (if q = b then insert a {x. (x, q) \<in> edges g} else {x. (x, q) \<in> edges g})" for q
    using ab(1) by (auto simp: E)
  have card: "card {x. (x, q) \<in> edges g'} = (if q = b then 1 else 0) + card {x. (x, q) \<in> edges g}" for q
    using ab(2) edges_finite [OF wf, of b] by (auto simp: col)
  have dist: "distinct (succs g' q) \<and> distinct (preds g' q)" for q
    using wf ab(2) a b edges_succ [of g a b] edges_pred [OF wf, of b a]
    by (auto simp: wf_dag_def s p)
  have "wf_dag g'"
    unfolding wf_dag_def
  proof (intro conjI)
    show "stores_pred (dkind g') \<longrightarrow> (\<forall>b \<in> verts g'. set (preds g' b) = {a. (a, b) \<in> edges g'})"
      using wf unfolding wf_dag_def by (simp add: k v p col)
    show "dkind g' \<noteq> NodePull \<longrightarrow> (\<forall>b \<in> verts g'. npred g' b = of_nat (card {a. (a, b) \<in> edges g'}))"
      using wf unfolding wf_dag_def by (simp add: k v n card)
    show "\<forall>p. distinct (succs g' p) \<and> distinct (preds g' p)" using dist by blast
    show "edges g' \<subseteq> verts g' \<times> verts g'" using wf a b by (auto simp: wf_dag_def E v)
    show "\<forall>p. (p, p) \<notin> edges g'" using wf ab by (auto simp: wf_dag_def E)
    show "\<forall>p. \<not> stores_succ (dkind g') \<longrightarrow> succs g' p = []"
      using wf by (simp add: wf_dag_def k s)
    show "\<forall>q. \<not> stores_pred (dkind g') \<longrightarrow> preds g' q = []"
      using wf by (simp add: wf_dag_def k p)
  qed (use wf in \<open>auto simp: wf_dag_def k v\<close>)
  then show ?thesis using g' k E by blast
qed

lemma hasEdge_iff:
  assumes wf: "wf_dag g" and a: "a \<in> verts g" and b: "b \<in> verts g"
  shows "hasEdge a b g = Inr ((a, b) \<in> edges g)"
proof -
  obtain na nb where n: "nodeAt g a = Some na" "nodeAt g b = Some nb"
    using wf_dag_node [OF wf] a b by blast
  have nz: "0 < a" "0 < b" using wf_dag_nonnull [OF wf] a b by auto
  have v: "succs g a = mSuccList na" "preds g b = mPredList nb"
    using n by (simp_all add: view_Some)
  show ?thesis
    using n nz edges_succ [of g a b] edges_pred [OF wf, of b a] a b
    by (cases "dkind g") (auto simp: hasEdge_def hasSucc_def hasPred_def v)
qed

lemma addEdge_dup:
  assumes wf: "wf_dag g" and ab: "(a, b) \<in> edges g"
  shows "addEdge a b g = Inl (AssertFail ''duplicate edge'')"
proof -
  have vv: "a \<in> verts g" "b \<in> verts g" "a \<noteq> b" using wf ab by (auto simp: wf_dag_def)
  obtain na nb where n: "nodeAt g a = Some na" "nodeAt g b = Some nb"
    using wf_dag_node [OF wf] vv by blast
  have nz: "0 < a" "0 < b" using wf_dag_nonnull [OF wf] vv by auto
  have v: "succs g a = mSuccList na" "preds g b = mPredList nb"
    using n by (simp_all add: view_Some)
  show ?thesis
    using n nz edges_succ [of g a b] edges_pred [OF wf, of b a] vv ab
    by (cases "dkind g")
      (auto simp: addEdge_def on_node_def addSucc_def hasSucc_def addPred_def hasPred_def v
        dag_simps deref_def)
qed

interpretation dg: digraph wf_dag verts edges addEdge hasEdge addEdgeIfAbsent
proof
  fix g :: "'d dag" and a b
  show "wf_dag g \<Longrightarrow> a \<in> verts g \<Longrightarrow> b \<in> verts g \<Longrightarrow> a \<noteq> b \<Longrightarrow> (a, b) \<notin> edges g \<Longrightarrow>
      \<exists>g'. addEdge a b g = Inr g' \<and> wf_dag g' \<and> verts g' = verts g \<and> edges g' = insert (a, b) (edges g)"
    using addEdge_ok [of g a b] by (auto simp: verts_def)
  show "\<exists>e. addEdge a a g = Inl e" by (cases "a = 0") (auto simp: addEdge_def)
qed (auto simp: addEdge_dup hasEdge_iff addEdgeIfAbsent_def wf_dag_def)

subsection \<open>Sources and sinks\<close>

text \<open>Fewer nodes than a counter can count: the predecessor counters do not wrap.\<close>

definition countable_dag :: "'d dag \<Rightarrow> bool" where
  "countable_dag g \<longleftrightarrow> length (mAllNodes g) < 2 ^ 32"

lemma card_preds_less:
  assumes "wf_dag g" "countable_dag g" shows "card {a. (a, b) \<in> edges g} < 2 ^ 32"
proof -
  have "card {a. (a, b) \<in> edges g} \<le> card (verts g)"
    by (rule card_mono) (use assms in \<open>auto simp: wf_dag_def verts_def\<close>)
  also have "card (verts g) \<le> length (mAllNodes g)" by (simp add: verts_def card_length)
  finally show ?thesis using assms by (simp add: countable_dag_def)
qed

lemma npred_unat:
  assumes "wf_dag g" "countable_dag g" "dkind g \<noteq> NodePull" "b \<in> verts g"
  shows "unat (npred g b) = card {a. (a, b) \<in> edges g}"
  using card_preds_less [OF assms(1, 2), of b] assms
  by (auto simp: wf_dag_def unat_of_nat)

lemma isSrc_iff:
  assumes "wf_dag g" "countable_dag g" "dkind g \<noteq> NodePull" "b \<in> verts g"
  shows "isSrc g b = Inr (\<forall>a. (a, b) \<notin> edges g)"
proof -
  obtain nb where nb: "nodeAt g b = Some nb" using wf_dag_node assms by blast
  have "mNumPred nb = 0 \<longleftrightarrow> unat (npred g b) = 0" by (simp add: view_Some [OF nb] unat_eq_0)
  also have "\<dots> \<longleftrightarrow> (\<forall>a. (a, b) \<notin> edges g)"
    using assms edges_finite [of g b] by (simp add: npred_unat card_eq_0_iff)
  finally show ?thesis using assms(3) nb
    by (cases "dkind g") (auto simp: isSrc_def pc_isSrc_def)
qed

lemma isSink_iff:
  assumes "wf_dag g" "stores_succ (dkind g)" "a \<in> verts g"
  shows "isSink g a = Inr (\<forall>b. (a, b) \<notin> edges g)"
proof -
  obtain na where na: "nodeAt g a = Some na" using wf_dag_node assms by blast
  then show ?thesis using assms edges_succ [of g a]
    by (auto simp: isSink_def node_isSink_def view_Some)
qed

text \<open>
  In the pull layout nothing sets \<open>mDone\<close>, so a node with a predecessor is never a source; the
  test agrees with the other layouts on a graph no one has marked.
\<close>

lemma all_done_unmarked:
  assumes "\<forall>p \<in> set ps. \<exists>nd. nodeAt g p = Some nd \<and> \<not> mDone nd"
  shows "all_done g ps = Inr (ps = [])"
  using assms by (cases ps) auto

subsection \<open>Visiting the nodes\<close>

lemma forEachNode_eq:
  assumes "0 \<notin> verts (fst gs)"
  shows "forEachNode f gs = for_each f (mAllNodes (fst gs)) gs"
proof -
  have "\<forall>p \<in> set (mAllNodes (fst gs)). 0 < p" using assms by (metis gr0I verts_def)
  then show ?thesis unfolding forEachNode_def by (intro for_each_cong) simp
qed

text \<open>\<open>size()\<close> is the number of nodes and the number of edges.\<close>

lemma dag_size_loop:
  assumes "\<forall>p \<in> set ps. nodeAt g p \<noteq> None" "stores_succ (dkind g)"
  shows "for_each (\<lambda>t (numNodes, numEdges).
     rbind (successors g t) (\<lambda>ss. Inr (numNodes + 1, numEdges + length ss))) ps (n, m) =
     Inr (n + length ps, m + (\<Sum>p \<leftarrow> ps. length (succs g p)))"
  using assms
proof (induction ps arbitrary: n m)
  case (Cons p ps)
  then obtain nd where "nodeAt g p = Some nd" by auto
  with Cons show ?case by (simp add: successors_def view_Some)
qed simp

lemma dag_size_ok:
  assumes wf: "wf_dag g" and s: "stores_succ (dkind g)"
  shows "dag_size g = Inr (card (verts g), card (edges g))"
proof -
  have d: "distinct (mAllNodes g)" "dom (nodeAt g) = verts g" using wf by (auto simp: wf_dag_def)
  have "edges g = (SIGMA p : verts g. set (succs g p))"
    using s by (auto simp: edges_def)
  then have "card (edges g) = (\<Sum>p \<in> verts g. card (set (succs g p)))"
    by (simp add: card_SigmaI verts_def)
  also have "\<dots> = (\<Sum>p \<in> verts g. length (succs g p))"
    using wf by (auto simp: wf_dag_def distinct_card intro!: sum.cong)
  also have "\<dots> = (\<Sum>p \<leftarrow> mAllNodes g. length (succs g p))"
    using d by (simp add: verts_def sum_list_distinct_conv_sum_set)
  finally have e: "card (edges g) = (\<Sum>p \<leftarrow> mAllNodes g. length (succs g p))" .
  have v: "card (verts g) = length (mAllNodes g)" using d by (simp add: verts_def distinct_card)
  have live: "\<forall>p \<in> set (mAllNodes g). nodeAt g p \<noteq> None"
    using d unfolding verts_def by (auto simp: dom_def)
  show ?thesis
    unfolding dag_size_def e v using dag_size_loop [OF live s, of 0 0] by simp
qed

text \<open>\<open>clear\<close> destroys every node once and leaves an empty graph.\<close>

lemma dag_clear_ok:
  assumes wf: "wf_dag g"
  shows "dag_clear g = Inr (g\<lparr>mAllNodes := [], nodeAt := (\<lambda>_. None)\<rparr>)"
proof -
  have "\<exists>t. for_each destroyNode (mAllNodes g) g = Inr t \<and>
      t = g\<lparr>nodeAt := (\<lambda>p. if p \<in> set (mAllNodes g) then None else nodeAt g p)\<rparr>"
  proof (rule for_each_rule)
    fix ys y zs t
    assume ys: "mAllNodes g = ys @ y # zs"
      and t: "t = g\<lparr>nodeAt := (\<lambda>p. if p \<in> set ys then None else nodeAt g p)\<rparr>"
    have "y \<notin> set ys" "y \<noteq> 0" "y \<in> dom (nodeAt g)" using wf ys by (auto simp: wf_dag_def verts_def)
    then show "\<exists>t'. destroyNode y t = Inr t' \<and>
        t' = g\<lparr>nodeAt := (\<lambda>p. if p \<in> set (ys @ [y]) then None else nodeAt g p)\<rparr>"
      by (auto simp: destroyNode_def deref_def t fun_eq_iff)
  qed simp
  moreover have "(\<lambda>p. if p \<in> set (mAllNodes g) then None else nodeAt g p) = (\<lambda>_. None)"
    using wf by (auto simp: wf_dag_def verts_def fun_eq_iff dom_def)
  ultimately show ?thesis by (auto simp: dag_clear_def destroyAllNodes_def)
qed

end
