(* ===== verification/Topo.thy ===== *)
theory Topo
  imports DagLaws
begin

text \<open>
  \<open>DAGbase::forEachNode_TopoOrder\<close>: the traversal that every executor of the library rests on. The
  work list is used as a stack, the dependence counters of the nodes as the in-degrees that are
  left. The loop is a partial function; \<open>topo_rule\<close> shows that it returns on every well-formed
  graph, and gives the executors a rule in the style of a Hoare logic.
\<close>

section \<open>The traversal\<close>

text \<open>The body of the first loop: collect the sources, reset the counters.\<close>

definition topo_collect :: "('d, addr list) visitor" where
  "topo_collect p = (\<lambda>(g, nodeQ). rbind (isSrc g p) (\<lambda>s.
     rbind (on_node g p (\<lambda>nd. Inr (resetDepCounter nd))) (\<lambda>g'.
     Inr (g', if s then nodeQ @ [p] else nodeQ))))"

text \<open>The body of the inner loop over the successors of a finished node.\<close>

definition topo_release :: "addr \<Rightarrow> 'd dag \<times> addr list \<Rightarrow> ('d dag \<times> addr list) res" where
  "topo_release d = (\<lambda>(g, nodeQ).
     rbind (check (d \<noteq> 0) ''found null node in successors of a source'') (\<lambda>_.
     rbind (deref g d) (\<lambda>nd. let (v, nd') = decrementDepCounter nd in
     Inr (put_node g d nd', if v = 0 then nodeQ @ [d] else nodeQ))))"

text \<open>One turn of the \<open>while\<close> loop, on a work list that is not empty.\<close>

definition topo_step ::
  "('d, 's) visitor \<Rightarrow> 'd dag \<times> 's \<times> addr list \<Rightarrow> ('d dag \<times> 's \<times> addr list) res" where
  "topo_step func = (\<lambda>(g, s, nodeQ).
     let p = last nodeQ; nodeQ' = butlast nodeQ in
     rbind (deref g p) (\<lambda>nd.
     rbind (check (mDepCounter nd = 0) ''every node in nodeQ must be a source'') (\<lambda>_.
     rbind (func p (g, s)) (\<lambda>(g1, s1).
     rbind (successors g1 p) (\<lambda>ds.
     rbind (for_each topo_release ds (g1, nodeQ')) (\<lambda>(g2, q2). Inr (g2, s1, q2)))))))"

partial_function (option) topo_loop ::
  "('d, 's) visitor \<Rightarrow> 'd dag \<times> 's \<times> addr list \<Rightarrow> ('d dag \<times> 's) res option" where
  "topo_loop func st = (if snd (snd st) = [] then Some (Inr (fst st, fst (snd st)))
     else case topo_step func st of Inl e \<Rightarrow> Some (Inl e) | Inr st' \<Rightarrow> topo_loop func st')"

definition forEachNode_TopoOrder ::
  "('d, 's) visitor \<Rightarrow> 'd dag \<times> 's \<Rightarrow> ('d dag \<times> 's) res option" where
  "forEachNode_TopoOrder func gs =
     (if \<not> stores_succ (dkind (fst gs)) then Some (Inl (NoMember ''successors''))
      else case forEachNode topo_collect (fst gs, []) of
        Inl e \<Rightarrow> Some (Inl e)
      | Inr (g, nodeQ) \<Rightarrow> topo_loop func (g, snd gs, nodeQ))"

section \<open>What a traversal leaves alone\<close>

definition frame :: "'d dag \<Rightarrow> 'd dag \<Rightarrow> bool" where
  "frame g g' \<longleftrightarrow> dkind g' = dkind g \<and> mAllNodes g' = mAllNodes g \<and>
     dom (nodeAt g') = dom (nodeAt g) \<and> succs g' = succs g \<and> preds g' = preds g \<and> npred g' = npred g"

definition ndata :: "'d dag \<Rightarrow> addr \<Rightarrow> 'd option" where
  "ndata g p = map_option mData (nodeAt g p)"

lemma frame_refl [simp, intro]: "frame g g"
  by (simp add: frame_def)

lemma frame_trans [trans]: "frame g g' \<Longrightarrow> frame g' g'' \<Longrightarrow> frame g g''"
  by (simp add: frame_def)

lemma frame_verts: "frame g g' \<Longrightarrow> verts g' = verts g"
  by (simp add: frame_def verts_def)

lemma frame_edges: "frame g g' \<Longrightarrow> edges g' = edges g"
  by (simp add: frame_def edges_def verts_def)

lemma frame_wf: "frame g g' \<Longrightarrow> wf_dag g' \<longleftrightarrow> wf_dag g"
  by (simp add: frame_edges wf_dag_def frame_verts)
    (simp add: frame_def)

lemma frame_countable: "frame g g' \<Longrightarrow> countable_dag g' \<longleftrightarrow> countable_dag g"
  by (simp add: frame_def countable_dag_def)

lemmas frame_simps = frame_verts frame_edges frame_wf frame_countable

text \<open>Writing a counter or the data of a live node stays in the frame.\<close>

lemma frame_put:
  assumes "nodeAt g p = Some nd" "mNumPred nd' = mNumPred nd" "mSuccList nd' = mSuccList nd"
    "mPredList nd' = mPredList nd"
  shows "frame g (put_node g p nd')"
  using assms by (auto simp: frame_def dag_simps view_Some fun_eq_iff)

lemma ndata_put [dag_simps]: "ndata (put_node g p nd) = (ndata g)(p \<mapsto> mData nd)"
  by (auto simp: ndata_def put_node_def fun_eq_iff)

lemma ndata_put_same: "nodeAt g p = Some nd \<Longrightarrow> mData nd' = mData nd \<Longrightarrow> ndata (put_node g p nd') = ndata g"
  by (auto simp: dag_simps fun_eq_iff) (simp add: ndata_def)

lemma set_nodeData_frame:
  assumes "wf_dag g" "p \<in> verts g"
  shows "\<exists>g'. set_nodeData p d g = Inr g' \<and> frame g g' \<and> depc g' = depc g \<and>
    ndata g' = (ndata g)(p \<mapsto> d)"
proof -
  obtain nd where nd: "nodeAt g p = Some nd" using wf_dag_node assms by blast
  then have "frame g (put_node g p (nd\<lparr>mData := d\<rparr>))" by (intro frame_put) auto
  with nd show ?thesis
    by (auto simp: set_nodeData_def on_node_def dag_simps view_Some fun_eq_iff)
qed

section \<open>Topological orders\<close>

definition topo_order :: "(addr \<times> addr) set \<Rightarrow> addr list \<Rightarrow> bool" where
  "topo_order E vis \<longleftrightarrow> (\<forall>ys p zs. vis = ys @ p # zs \<longrightarrow> (\<forall>a. (a, p) \<in> E \<longrightarrow> a \<in> set ys))"

lemma topo_order_Nil [simp]: "topo_order E []"
  by (simp add: topo_order_def)

lemma topo_order_snoc:
  "topo_order E (vis @ [p]) \<longleftrightarrow> topo_order E vis \<and> (\<forall>a. (a, p) \<in> E \<longrightarrow> a \<in> set vis)"
proof
  assume t: "topo_order E (vis @ [p])"
  have "topo_order E vis"
    unfolding topo_order_def
  proof (intro allI impI)
    fix ys q zs a assume "vis = ys @ q # zs" "(a, q) \<in> E"
    then have "vis @ [p] = ys @ q # (zs @ [p])" by simp
    with t \<open>(a, q) \<in> E\<close> show "a \<in> set ys" unfolding topo_order_def by blast
  qed
  moreover have "\<forall>a. (a, p) \<in> E \<longrightarrow> a \<in> set vis"
    using t unfolding topo_order_def by blast
  ultimately show "topo_order E vis \<and> (\<forall>a. (a, p) \<in> E \<longrightarrow> a \<in> set vis)" by blast
next
  assume t: "topo_order E vis \<and> (\<forall>a. (a, p) \<in> E \<longrightarrow> a \<in> set vis)"
  show "topo_order E (vis @ [p])"
    unfolding topo_order_def
  proof (intro allI impI)
    fix ys q zs a assume e: "vis @ [p] = ys @ q # zs" "(a, q) \<in> E"
    show "a \<in> set ys"
    proof (cases zs rule: rev_cases)
      case Nil
      with e t show ?thesis by simp
    next
      case (snoc ws w)
      with e t show ?thesis unfolding topo_order_def by simp
    qed
  qed
qed

lemma topo_order_pred: "topo_order E vis \<Longrightarrow> p \<in> set vis \<Longrightarrow> (a, p) \<in> E \<Longrightarrow> a \<in> set vis"
  unfolding topo_order_def by (metis Un_iff in_set_conv_decomp set_append)

lemma topo_order_before:
  assumes "topo_order E vis" "distinct vis" "(vis ! i, vis ! j) \<in> E" "i < length vis" "j < length vis"
  shows "i < j"
proof -
  have "vis = take j vis @ vis ! j # drop (Suc j) vis" using assms(5) by (rule id_take_nth_drop)
  then have "vis ! i \<in> set (take j vis)" using assms(1,3) unfolding topo_order_def by blast
  then obtain k where "k < j" "vis ! k = vis ! i" using assms(5) by (auto simp: in_set_conv_nth)
  then show ?thesis using assms nth_eq_iff_index_eq by (metis less_trans)
qed

text \<open>The nodes of the graph that a traversal reaches.\<close>

definition covers :: "'d dag \<Rightarrow> addr list \<Rightarrow> bool" where
  "covers g vis \<longleftrightarrow> distinct vis \<and> set vis \<subseteq> verts g \<and> topo_order (edges g) vis \<and>
     (\<forall>p \<in> verts g. (\<forall>a. (a, p) \<in> edges g \<longrightarrow> a \<in> set vis) \<longrightarrow> p \<in> set vis)"

lemma covers_acyclic:
  assumes "wf_dag g" "acyclic (edges g)" "covers g vis"
  shows "set vis = verts g"
proof -
  have "finite (edges g)"
    by (rule finite_subset [of _ "verts g \<times> verts g"]) (use assms(1) in \<open>auto simp: wf_dag_def verts_def\<close>)
  then have wf: "wf (edges g)" using assms(2) by (simp add: finite_acyclic_wf)
  have "p \<in> verts g \<longrightarrow> p \<in> set vis" for p
  proof (induction p rule: wf_induct_rule [OF wf])
    case (1 p)
    show ?case
    proof
      assume "p \<in> verts g"
      moreover have "\<forall>a. (a, p) \<in> edges g \<longrightarrow> a \<in> set vis"
        using 1 assms(1) by (auto simp: wf_dag_def)
      ultimately show "p \<in> set vis" using assms(3) by (auto simp: covers_def)
    qed
  qed
  then show ?thesis using assms(3) by (auto simp: covers_def)
qed

lemma topo_order_rtrancl:
  assumes "topo_order E vis" "(a, p) \<in> E\<^sup>*" "p \<in> set vis" shows "a \<in> set vis"
  using assms(2,3) by (induction rule: rtrancl_induct) (auto dest: topo_order_pred [OF assms(1)])

text \<open>A node on a cycle, or behind one, is never reached.\<close>

lemma topo_order_no_cycle:
  assumes t: "topo_order E vis" and d: "distinct vis" and c: "(a, a) \<in> E\<^sup>+"
  shows "a \<notin> set vis"
proof
  assume "a \<in> set vis"
  have mono: "(x, y) \<in> E\<^sup>+ \<Longrightarrow> j < length vis \<Longrightarrow> y = vis ! j \<Longrightarrow> \<exists>i < j. x = vis ! i" for x y j
  proof (induction arbitrary: j rule: trancl_induct)
    case (base y)
    then have "x \<in> set vis" using topo_order_pred [OF t] nth_mem by metis
    then obtain i where "i < length vis" "x = vis ! i" by (metis in_set_conv_nth)
    then show ?case using topo_order_before [OF t d] base by metis
  next
    case (step y z)
    then have "y \<in> set vis" using topo_order_pred [OF t] nth_mem by metis
    then obtain k where k: "k < length vis" "y = vis ! k" by (metis in_set_conv_nth)
    then have "k < j" using topo_order_before [OF t d] step by metis
    moreover obtain i where "i < k" "x = vis ! i" using step.IH [OF k] by blast
    ultimately show ?case using less_trans by blast
  qed
  from \<open>a \<in> set vis\<close> obtain j where j: "j < length vis" "a = vis ! j" by (metis in_set_conv_nth)
  from mono [OF c j] obtain i where "i < j" "a = vis ! i" by blast
  with j d show False by (metis less_imp_neq less_trans nth_eq_iff_index_eq)
qed

section \<open>The traversal returns\<close>

lemma release_ok:
  assumes "nodeAt g d \<noteq> None" "d \<noteq> 0"
  shows "\<exists>g'. topo_release d (g, q) = Inr (g', if depc g d = 1 then q @ [d] else q) \<and> frame g g' \<and>
    ndata g' = ndata g \<and> depc g' = (depc g)(d := depc g d - 1)"
proof -
  obtain nd where nd: "nodeAt g d = Some nd" using assms by blast
  let ?g = "put_node g d (nd\<lparr>mDepCounter := mDepCounter nd - 1\<rparr>)"
  have "frame g ?g" using nd by (intro frame_put) auto
  moreover have "ndata ?g = ndata g" using nd by (intro ndata_put_same) auto
  moreover have "depc ?g = (depc g)(d := depc g d - 1)"
    using nd by (auto simp: dag_simps view_Some fun_eq_iff)
  moreover have "topo_release d (g, q) = Inr (?g, if depc g d = 1 then q @ [d] else q)"
    using nd assms(2) by (simp add: topo_release_def decrementDepCounter_def view_Some)
  ultimately show ?thesis by blast
qed

lemma release_loop:
  assumes "\<forall>d \<in> set ds. nodeAt g d \<noteq> None \<and> d \<noteq> 0" "distinct ds"
  shows "\<exists>g'. for_each topo_release ds (g, q) = Inr (g', q @ filter (\<lambda>d. depc g d = 1) ds) \<and>
    frame g g' \<and> ndata g' = ndata g \<and>
    depc g' = (\<lambda>d. if d \<in> set ds then depc g d - 1 else depc g d)"
proof -
  let ?P = "\<lambda>ys (g', q'). q' = q @ filter (\<lambda>d. depc g d = 1) ys \<and> frame g g' \<and> ndata g' = ndata g \<and>
    depc g' = (\<lambda>d. if d \<in> set ys then depc g d - 1 else depc g d)"
  have "\<exists>t. for_each topo_release ds (g, q) = Inr t \<and> ?P ds t"
  proof (rule for_each_rule)
    fix ys y zs t assume ds: "ds = ys @ y # zs" and "?P ys t"
    then obtain g' q' where t: "t = (g', q')" and P: "?P ys (g', q')" by (cases t) auto
    have y: "y \<notin> set ys" "y \<noteq> 0" using assms ds by auto
    have "nodeAt g y \<noteq> None" using assms ds by auto
    then have "nodeAt g' y \<noteq> None" using P by (auto simp: frame_def)
    from release_ok [OF this y(2), of q'] obtain g'' where
      g'': "topo_release y (g', q') = Inr (g'', if depc g' y = 1 then q' @ [y] else q')"
        "frame g' g''" "ndata g'' = ndata g'" "depc g'' = (depc g')(y := depc g' y - 1)"
      by blast
    have "frame g g''" using P g''(2) frame_trans by blast
    with g'' P y t show "\<exists>t'. topo_release y t = Inr t' \<and> ?P (ys @ [y]) t'"
      by (auto simp: fun_eq_iff)
  qed simp
  then show ?thesis by auto
qed

text \<open>After the first loop the counters hold the in-degrees and the work list the sources.\<close>

lemma collect_ok:
  assumes wf: "wf_dag g" and c: "countable_dag g" and k: "stores_succ (dkind g)"
  shows "\<exists>g'. forEachNode topo_collect (g, []) =
      Inr (g', filter (\<lambda>p. \<forall>a. (a, p) \<notin> edges g) (mAllNodes g)) \<and>
    frame g g' \<and> ndata g' = ndata g \<and> (\<forall>p \<in> verts g. depc g' p = npred g p)"
proof -
  let ?src = "\<lambda>p. \<forall>a. (a, p) \<notin> edges g"
  let ?P = "\<lambda>ys (g', q'). q' = filter ?src ys \<and> frame g g' \<and> ndata g' = ndata g \<and>
    (\<forall>p \<in> set ys. depc g' p = npred g p)"
  have "\<exists>t. for_each topo_collect (mAllNodes g) (g, []) = Inr t \<and> ?P (mAllNodes g) t"
  proof (rule for_each_rule)
    fix ys y zs t assume ds: "mAllNodes g = ys @ y # zs" and "?P ys t"
    then obtain g' q' where t: "t = (g', q')" and P: "?P ys (g', q')" by (cases t) auto
    have w: "wf_dag g'" "countable_dag g'" "dkind g' \<noteq> NodePull" "y \<in> verts g'"
      using P wf c k ds by (auto simp: frame_simps) (auto simp: frame_def verts_def)
    have "edges g' = edges g" using P frame_edges by blast
    then have src: "isSrc g' y = Inr (?src y)" using w by (simp add: isSrc_iff)
    obtain nd where nd: "nodeAt g' y = Some nd" using wf_dag_node [of g' y] w by blast
    let ?g = "put_node g' y (resetDepCounter nd)"
    have f: "frame g' ?g" using nd by (intro frame_put) (auto simp: resetDepCounter_def)
    have n: "ndata ?g = ndata g'" using nd by (intro ndata_put_same) (auto simp: resetDepCounter_def)
    have "topo_collect y (g', q') = Inr (?g, if ?src y then q' @ [y] else q')"
      using nd by (simp add: topo_collect_def src on_node_def)
    moreover have "depc ?g p = npred g p" if "p \<in> set (ys @ [y])" for p
      using that nd P by (auto simp: dag_simps resetDepCounter_def frame_def view_Some(3) [OF nd, symmetric])
    moreover have "frame g ?g" using P f frame_trans by blast
    ultimately show "\<exists>t'. topo_collect y t = Inr t' \<and> ?P (ys @ [y]) t'"
      using P n by (auto simp: t)
  qed simp
  moreover have "0 \<notin> verts (fst (g, [] :: addr list))" using wf by (simp add: wf_dag_def)
  ultimately show ?thesis using forEachNode_eq [of "(g, [])" topo_collect] by (auto simp: verts_def)
qed

definition topo_inv :: "'d dag \<Rightarrow> addr list \<Rightarrow> addr list \<Rightarrow> 'd dag \<Rightarrow> bool" where
  "topo_inv g0 vis q g \<longleftrightarrow> frame g0 g \<and> distinct (vis @ q) \<and> set (vis @ q) \<subseteq> verts g0 \<and>
     topo_order (edges g0) vis \<and>
     (\<forall>p \<in> verts g0. unat (depc g p) = card {a. (a, p) \<in> edges g0 \<and> a \<notin> set vis}) \<and>
     (\<forall>p \<in> verts g0. p \<in> set (vis @ q) \<longleftrightarrow> depc g p = 0)"

lemma topo_inv_init:
  assumes "wf_dag g" "countable_dag g" "stores_succ (dkind g)"
    "frame g g'" "\<forall>p \<in> verts g. depc g' p = npred g p"
  shows "topo_inv g [] (filter (\<lambda>p. \<forall>a. (a, p) \<notin> edges g) (mAllNodes g)) g'"
proof -
  have u: "unat (depc g' p) = card {a. (a, p) \<in> edges g}" if "p \<in> verts g" for p
    using npred_unat [OF assms(1,2) _ that] assms(3,5) that by (cases "dkind g") auto
  have "depc g' p = 0 \<longleftrightarrow> (\<forall>a. (a, p) \<notin> edges g)" if "p \<in> verts g" for p
    using u [OF that] edges_finite [OF assms(1), of p] by (simp flip: unat_eq_0)
  then show ?thesis
    using u assms by (auto simp: topo_inv_def wf_dag_def verts_def)
qed

lemma card_one: "x \<in> S \<Longrightarrow> card S = 1 \<longleftrightarrow> S = {x}"
  by (metis One_nat_def card.empty card.insert card_1_singletonE empty_iff finite.emptyI
      singletonD)

text \<open>The nodes whose last open predecessor is \<open>p\<close> are those the step releases.\<close>

lemma topo_inv_step:
  assumes wf: "wf_dag g0" and k: "stores_succ (dkind g0)"
    and inv: "topo_inv g0 vis (q @ [p]) g" and f: "frame g g1"
    and dep: "depc g1 = (\<lambda>d. if d \<in> set (succs g p) then depc g d - 1 else depc g d)"
  shows "topo_inv g0 (vis @ [p]) (q @ filter (\<lambda>d. depc g d = 1) (succs g p)) g1"
proof -
  let ?open = "\<lambda>vis d. {a. (a, d) \<in> edges g0 \<and> a \<notin> set vis}"
  have p: "p \<in> verts g0" "p \<notin> set vis" using inv by (auto simp: topo_inv_def)
  have s: "succs g p = succs g0 p" using inv by (simp add: topo_inv_def frame_def)
  have E: "d \<in> set (succs g p) \<longleftrightarrow> (p, d) \<in> edges g0" for d
    using edges_succ [OF k p(1)] by (simp add: s)
  have fin: "finite (?open vis d)" for d
    using edges_finite [OF wf, of d] by (rule rev_finite_subset) auto
  have op: "?open (vis @ [p]) d = ?open vis d - {p}" for d by auto
  have u: "unat (depc g d) = card (?open vis d)" if "d \<in> verts g0" for d
    using inv that by (simp add: topo_inv_def)
  have pd: "p \<in> ?open vis d" if "(p, d) \<in> edges g0" for d using that p by simp
  have pos: "0 < card (?open vis d)" if "(p, d) \<in> edges g0" for d
    using pd [OF that] fin [of d] card_gt_0_iff by blast
  have d_in: "d \<in> verts g0" if "(p, d) \<in> edges g0" for d using wf that by (auto simp: wf_dag_def)
  have dep1: "unat (depc g1 d) = card (?open (vis @ [p]) d)" if d: "d \<in> verts g0" for d
  proof (cases "(p, d) \<in> edges g0")
    case True
    then have "depc g d \<noteq> 0" using u [OF d] pos by (metis less_irrefl unat_0)
    then have "unat (depc g d - 1) = unat (depc g d) - 1" by (simp add: unat_minus_one)
    then show ?thesis unfolding op using True u [OF d] pd [OF True] fin [of d] E by (simp add: dep)
  next
    case False
    then have "?open vis d - {p} = ?open vis d" by auto
    then show ?thesis unfolding op using False u [OF d] E by (simp add: dep)
  qed
  have one: "depc g d = 1 \<longleftrightarrow> ?open vis d = {p}" if "(p, d) \<in> edges g0" for d
  proof -
    have "depc g d = 1 \<longleftrightarrow> unat (depc g d) = 1" by (metis unat_1 word_unat_eq_iff)
    also have "\<dots> \<longleftrightarrow> ?open vis d = {p}"
      using u [OF d_in [OF that]] card_one [OF pd [OF that]] by simp
    finally show ?thesis .
  qed
  have old: "d \<in> set (vis @ q @ [p]) \<longleftrightarrow> depc g d = 0" if "d \<in> verts g0" for d
    using inv that by (auto simp: topo_inv_def)
  have fresh: "d \<notin> set vis \<union> set q \<union> {p}" if "(p, d) \<in> edges g0" for d
    using old [OF d_in [OF that]] u [OF d_in [OF that]] pos [OF that]
    by auto
  have zero: "depc g1 d = 0 \<longleftrightarrow> d \<in> set vis \<union> set q \<union> {p} \<union> {d. (p, d) \<in> edges g0 \<and> depc g d = 1}"
    if d: "d \<in> verts g0" for d
  proof (cases "(p, d) \<in> edges g0")
    case True
    then have "depc g1 d = depc g d - 1" by (simp add: dep E)
    then show ?thesis using fresh [OF True] True by auto
  next
    case False
    then have "depc g1 d = depc g d" by (simp add: dep E)
    then show ?thesis using False old [OF d] by auto
  qed
  have preds_p: "\<forall>a. (a, p) \<in> edges g0 \<longrightarrow> a \<in> set vis"
  proof -
    have "depc g p = 0" using old [OF p(1)] by simp
    then have "?open vis p = {}" using u [OF p(1)] fin [of p] by simp
    then show ?thesis by blast
  qed
  have "distinct (succs g p)" using wf by (simp add: s wf_dag_def)
  then have "distinct ((vis @ [p]) @ q @ filter (\<lambda>d. depc g d = 1) (succs g p))"
    using inv fresh E by (auto simp: topo_inv_def)
  moreover have "set ((vis @ [p]) @ q @ filter (\<lambda>d. depc g d = 1) (succs g p)) \<subseteq> verts g0"
    using inv d_in E by (auto simp: topo_inv_def)
  moreover have "topo_order (edges g0) (vis @ [p])"
    using inv preds_p by (simp add: topo_order_snoc topo_inv_def)
  moreover have "frame g0 g1" using inv f frame_trans by (auto simp: topo_inv_def)
  moreover have "\<forall>d \<in> verts g0. d \<in> set ((vis @ [p]) @ q @ filter (\<lambda>d. depc g d = 1) (succs g p))
      \<longleftrightarrow> depc g1 d = 0"
    using zero E by auto
  ultimately show ?thesis using dep1 unfolding topo_inv_def by blast
qed

lemma topo_inv_done:
  assumes "wf_dag g0" "topo_inv g0 vis [] g"
  shows "covers g0 vis"
  unfolding covers_def
proof (intro conjI ballI impI)
  fix p assume p: "p \<in> verts g0" "\<forall>a. (a, p) \<in> edges g0 \<longrightarrow> a \<in> set vis"
  then have "unat (depc g p) = card {a. (a, p) \<in> edges g0 \<and> a \<notin> set vis}"
    using assms by (simp add: topo_inv_def)
  also have "{a. (a, p) \<in> edges g0 \<and> a \<notin> set vis} = {}" using p by auto
  finally have "depc g p = 0" by (simp add: unat_eq_0)
  then show "p \<in> set vis" using assms p by (auto simp: topo_inv_def)
qed (use assms in \<open>auto simp: topo_inv_def\<close>)

section \<open>The rule for traversals\<close>

text \<open>
  What a callback must keep, given the nodes visited before it runs, the data of the nodes and its
  own state: the shape of the graph and its counters, and the property \<open>P\<close>.
\<close>

definition visits_ok ::
  "'d dag \<Rightarrow> ('d, 's) visitor \<Rightarrow> (addr list \<Rightarrow> (addr \<Rightarrow> 'd option) \<Rightarrow> 's \<Rightarrow> bool) \<Rightarrow> bool" where
  "visits_ok g0 func P \<longleftrightarrow> (\<forall>vis p g s. frame g0 g \<longrightarrow> distinct (vis @ [p]) \<longrightarrow> set (vis @ [p]) \<subseteq> verts g0 \<longrightarrow>
     topo_order (edges g0) (vis @ [p]) \<longrightarrow> P vis (ndata g) s \<longrightarrow>
     (\<exists>g' s'. func p (g, s) = Inr (g', s') \<and> frame g g' \<and> depc g' = depc g \<and>
        P (vis @ [p]) (ndata g') s'))"

lemma topo_step_ok:
  assumes wf: "wf_dag g0" and k: "stores_succ (dkind g0)" and inv: "topo_inv g0 vis (q @ [p]) g"
    and P: "P vis (ndata g) s" and f: "visits_ok g0 func P"
  shows "\<exists>g' s' q'. topo_step func (g, s, q @ [p]) = Inr (g', s', q') \<and>
    topo_inv g0 (vis @ [p]) q' g' \<and> P (vis @ [p]) (ndata g') s' \<and> (edges g0 = {} \<longrightarrow> q' = q)"
proof -
  have p: "p \<in> verts g0" "distinct (vis @ [p])" "set (vis @ [p]) \<subseteq> verts g0"
    and fr: "frame g0 g" and dep: "depc g p = 0"
    using inv by (auto simp: topo_inv_def)
  then obtain nd where nd: "nodeAt g p = Some nd"
    using wf_dag_node [of g p] wf by (auto simp: frame_simps)
  have "unat (depc g p) = card {a. (a, p) \<in> edges g0 \<and> a \<notin> set vis}"
    using inv p(1) by (simp add: topo_inv_def)
  moreover have "finite {a. (a, p) \<in> edges g0 \<and> a \<notin> set vis}"
    using edges_finite [OF wf, of p] by (rule rev_finite_subset) auto
  ultimately have "{a. (a, p) \<in> edges g0 \<and> a \<notin> set vis} = {}" using dep by simp
  then have topo: "topo_order (edges g0) (vis @ [p])"
    using inv by (auto simp: topo_order_snoc topo_inv_def)
  from f fr p(2,3) topo P obtain g1 s1 where
    g1: "func p (g, s) = Inr (g1, s1)" "frame g g1" "depc g1 = depc g" "P (vis @ [p]) (ndata g1) s1"
    unfolding visits_ok_def by blast
  have fr1: "frame g0 g1" using fr g1(2) frame_trans by blast
  have wf1: "wf_dag g1" using fr1 wf by (simp add: frame_wf)
  have k1: "stores_succ (dkind g1)" using fr1 k by (simp add: frame_def)
  have p1: "p \<in> verts g1" using fr1 p(1) by (simp add: frame_verts)
  obtain nd1 where nd1: "nodeAt g1 p = Some nd1" using wf_dag_node [OF wf1 p1] by blast
  have sc: "succs g1 p = succs g p" using g1(2) by (simp add: frame_def)
  have "\<forall>d \<in> set (succs g1 p). nodeAt g1 d \<noteq> None \<and> d \<noteq> 0"
  proof
    fix d assume "d \<in> set (succs g1 p)"
    then have "d \<in> verts g1" using edges_succ [OF k1 p1] wf1 by (auto simp: wf_dag_def)
    then show "nodeAt g1 d \<noteq> None \<and> d \<noteq> 0" using wf1 by (auto simp: wf_dag_def)
  qed
  moreover have "distinct (succs g1 p)" using wf1 by (simp add: wf_dag_def)
  ultimately obtain g2 where
    g2: "for_each topo_release (succs g1 p) (g1, q) =
        Inr (g2, q @ filter (\<lambda>d. depc g1 d = 1) (succs g1 p))"
      "frame g1 g2" "ndata g2 = ndata g1"
      "depc g2 = (\<lambda>d. if d \<in> set (succs g1 p) then depc g1 d - 1 else depc g1 d)"
    using release_loop by blast
  have "frame g g2" using g1(2) g2(2) frame_trans by blast
  then have "topo_inv g0 (vis @ [p]) (q @ filter (\<lambda>d. depc g1 d = 1) (succs g1 p)) g2"
    using topo_inv_step [OF wf k inv, of g2] g2(4) unfolding g1(3) sc by blast
  moreover have "topo_step func (g, s, q @ [p]) =
      Inr (g2, s1, q @ filter (\<lambda>d. depc g1 d = 1) (succs g1 p))"
    using nd nd1 dep g1(1) g2(1) k1 by (simp add: topo_step_def successors_def view_Some)
  moreover have "succs g1 p = []" if "edges g0 = {}"
    using edges_succ [OF k p(1)] fr1 that by (cases "succs g0 p") (auto simp: frame_def)
  ultimately show ?thesis using g1(4) g2(3) by auto
qed

text \<open>Without edges the stack is only emptied.\<close>

lemma topo_loop_ok:
  assumes wf: "wf_dag g0" and k: "stores_succ (dkind g0)" and f: "visits_ok g0 func P"
    and inv: "topo_inv g0 vis q g" and P: "P vis (ndata g) s"
  shows "\<exists>g' s' vis'. topo_loop func (g, s, q) = Some (Inr (g', s')) \<and> frame g0 g' \<and>
    covers g0 vis' \<and> P vis' (ndata g') s' \<and> (edges g0 = {} \<longrightarrow> vis' = vis @ rev q)"
  using inv P
proof (induction "card (verts g0) - length vis" arbitrary: vis q g s rule: less_induct)
  case less
  show ?case
  proof (cases q rule: rev_cases)
    case Nil
    with less.prems have "covers g0 vis" using topo_inv_done [OF wf] by blast
    with Nil less.prems show ?thesis
      by (auto simp: topo_loop.simps topo_inv_def)
  next
    case (snoc q' p)
    with less.prems topo_step_ok [where vis = vis and q = q' and p = p, OF wf k _ _ f]
    obtain g' s' q'' where
      st: "topo_step func (g, s, q) = Inr (g', s', q'')" "topo_inv g0 (vis @ [p]) q'' g'"
        "P (vis @ [p]) (ndata g') s'" "edges g0 = {} \<longrightarrow> q'' = q'"
      by blast
    have "distinct (vis @ q)" "set (vis @ q) \<subseteq> verts g0" using less.prems(1) by (auto simp: topo_inv_def)
    then have "length (vis @ q) \<le> card (verts g0)"
      using distinct_card [of "vis @ q"] card_mono [of "verts g0" "set (vis @ q)"]
      by (simp add: verts_def)
    then have "card (verts g0) - length (vis @ [p]) < card (verts g0) - length vis"
      using snoc by simp
    from less.hyps [OF this st(2,3)] show ?thesis
      using st(1,4) snoc by (subst topo_loop.simps) auto
  qed
qed

text \<open>
  The rule: every traversal of a well-formed graph returns; its visits are distinct, in an order
  compatible with the edges, and reach every node all of whose predecessors they reach. Without edges
  the nodes are visited in the reverse of their order in the list.
\<close>

lemma topo_rule_order:
  assumes wf: "wf_dag g" and c: "countable_dag g" and k: "stores_succ (dkind g)"
    and f: "visits_ok g func P" and P: "P [] (ndata g) s"
  shows "\<exists>g' s' vis. forEachNode_TopoOrder func (g, s) = Some (Inr (g', s')) \<and> frame g g' \<and>
    covers g vis \<and> P vis (ndata g') s' \<and> (edges g = {} \<longrightarrow> vis = rev (mAllNodes g))"
proof -
  from collect_ok [OF wf c k] obtain g1 where
    g1: "forEachNode topo_collect (g, []) =
        Inr (g1, filter (\<lambda>p. \<forall>a. (a, p) \<notin> edges g) (mAllNodes g))"
      "frame g g1" "ndata g1 = ndata g" "\<forall>p \<in> verts g. depc g1 p = npred g p"
    by blast
  from topo_inv_init [OF wf c k g1(2,4)]
  have "\<exists>g' s' vis'. topo_loop func (g1, s, filter (\<lambda>p. \<forall>a. (a, p) \<notin> edges g) (mAllNodes g)) =
      Some (Inr (g', s')) \<and> frame g g' \<and> covers g vis' \<and> P vis' (ndata g') s' \<and>
      (edges g = {} \<longrightarrow> vis' = rev (mAllNodes g))"
    using topo_loop_ok [OF wf k f] P g1(3) by fastforce
  then show ?thesis using g1(1) k by (simp add: forEachNode_TopoOrder_def)
qed

lemma topo_rule:
  assumes "wf_dag g" "countable_dag g" "stores_succ (dkind g)" "visits_ok g func P" "P [] (ndata g) s"
  shows "\<exists>g' s' vis. forEachNode_TopoOrder func (g, s) = Some (Inr (g', s')) \<and> frame g g' \<and>
    covers g vis \<and> P vis (ndata g') s'"
  using topo_rule_order [OF assms] by blast

section \<open>Graphs built from lists\<close>

text \<open>A program that adds nodes and then edges, as the example programs do.\<close>

definition build :: "node_kind \<Rightarrow> (addr \<times> 'd) list \<Rightarrow> (addr \<times> addr) list \<Rightarrow> 'd dag res" where
  "build k ns es = rbind (for_each (\<lambda>(t, d) g. rbind (addNode t d g) (\<lambda>(_, g'). Inr g')) ns (dag_empty k))
     (for_each (\<lambda>(a, b) g. addEdge a b g) es)"

lemma build_ok:
  fixes ns :: "(addr \<times> 'd) list"
  assumes "distinct (map fst ns)" "0 \<notin> set (map fst ns)" "distinct es"
    "set es \<subseteq> set (map fst ns) \<times> set (map fst ns)" "\<forall>(a, b) \<in> set es. a \<noteq> b"
  shows "\<exists>g. build k ns es = Inr g \<and> wf_dag g \<and> dkind g = k \<and> verts g = set (map fst ns) \<and>
    edges g = set es"
proof -
  let ?add = "\<lambda>(t, d :: 'd) g. rbind (addNode t d g) (\<lambda>(_, g'). Inr g')"
  have "\<exists>g. for_each ?add ns (dag_empty k) = Inr g \<and>
      (wf_dag g \<and> dkind g = k \<and> verts g = set (map fst ns) \<and> edges g = {})"
  proof (rule for_each_rule)
    fix ys y zs and t :: "'d dag"
    assume ns: "ns = ys @ y # zs"
      and t: "wf_dag t \<and> dkind t = k \<and> verts t = set (map fst ys) \<and> edges t = {}"
    obtain p d where y: "y = (p, d)" by (cases y)
    have "p \<noteq> 0" "p \<notin> verts t" using assms ns y t by (auto simp: image_iff)
    with addNode_ok [of t p d] t obtain g' where
      "addNode p d t = Inr (p, g')" "wf_dag g'" "verts g' = insert p (verts t)" "edges g' = edges t"
      "dkind g' = dkind t" by blast
    with t y show "\<exists>t'. ?add y t = Inr t' \<and>
        wf_dag t' \<and> dkind t' = k \<and> verts t' = set (map fst (ys @ [y])) \<and> edges t' = {}"
      by auto
  qed (simp add: wf_dag_empty, simp add: dag_empty_def verts_def edges_def)
  then obtain g where g: "for_each ?add ns (dag_empty k) = Inr g" "wf_dag g" "dkind g = k"
    "verts g = set (map fst ns)" "edges g = {}" by blast
  have "\<exists>t. for_each (\<lambda>(a, b) g. addEdge a b g) es g = Inr t \<and>
      (wf_dag t \<and> dkind t = k \<and> verts t = verts g \<and> edges t = set es)"
  proof (rule for_each_rule)
    fix ys y zs and t :: "'d dag"
    assume es: "es = ys @ y # zs"
      and t: "wf_dag t \<and> dkind t = k \<and> verts t = verts g \<and> edges t = set ys"
    obtain a b where y: "y = (a, b)" by (cases y)
    have "a \<in> verts t" "b \<in> verts t" "a \<noteq> b" "(a, b) \<notin> edges t"
      using assms es y t g(4) by auto
    with addEdge_ok [of t a b] t obtain g' where
      "addEdge a b t = Inr g'" "wf_dag g'" "mAllNodes g' = mAllNodes t" "dkind g' = dkind t"
      "edges g' = insert (a, b) (edges t)" by blast
    with t y show "\<exists>t'. (case y of (a, b) \<Rightarrow> addEdge a b) t = Inr t' \<and>
        wf_dag t' \<and> dkind t' = k \<and> verts t' = verts g \<and> edges t' = set (ys @ [y])"
      by (auto simp: verts_def)
  qed (use g in simp)
  then show ?thesis using g by (auto simp: build_def)
qed

lemma countable_card: "wf_dag g \<Longrightarrow> card (verts g) < 2 ^ 32 \<Longrightarrow> countable_dag g"
  by (simp add: wf_dag_def verts_def countable_dag_def distinct_card)

text \<open>The four-node kite of the example programs: \<open>a\<close> before \<open>b\<close> and \<open>c\<close>, both before \<open>d\<close>.\<close>

definition kite_edges :: "(addr \<times> addr) list" where
  "kite_edges = [(1, 2), (1, 3), (2, 4), (3, 4)]"

definition kite_nodes :: "(addr \<times> string) list" where
  "kite_nodes = [(1, ''a''), (2, ''b''), (3, ''c''), (4, ''d'')]"

lemma kite_acyclic: "acyclic (set kite_edges)"
  by (rule acyclicI_order [of _ "\<lambda>x. - int x"]) (auto simp: kite_edges_def)

lemma kite_ok:
  "\<exists>g. build k kite_nodes kite_edges = Inr g \<and> wf_dag g \<and> countable_dag g \<and> dkind g = k \<and>
     verts g = {1, 2, 3, 4} \<and> edges g = set kite_edges"
  using build_ok [of kite_nodes kite_edges k] countable_card
  by (fastforce simp: kite_nodes_def kite_edges_def)

text \<open>A callback that records the nodes it is given.\<close>

definition record_visit :: "('d, addr list) visitor" where
  "record_visit p = (\<lambda>(g, s). Inr (g, s @ [p]))"

lemma record_visit_ok: "visits_ok g record_visit (\<lambda>vis _ s. s = vis)"
  by (auto simp: visits_ok_def record_visit_def)

section \<open>Properties\<close>

text \<open>
  C2: on a well-formed acyclic graph with successor lists, the traversal returns, and it has visited
  every node exactly once, no node before all its predecessors.
\<close>

theorem topo_visits_all:
  assumes "wf_dag g" "countable_dag g" "stores_succ (dkind g)" "acyclic (edges g)"
    "visits_ok g func P" "P [] (ndata g) s"
  shows "\<exists>g' s' vis. forEachNode_TopoOrder func (g, s) = Some (Inr (g', s')) \<and> frame g g' \<and>
    distinct vis \<and> set vis = verts g \<and> topo_order (edges g) vis \<and> P vis (ndata g') s'"
  using topo_rule [OF assms(1-3,5,6)] covers_acyclic [OF assms(1,4)]
  unfolding covers_def by metis

theorem topo_visits_all_witness:
  "\<exists>(g :: string dag) g' s'. build NodePush kite_nodes kite_edges = Inr g \<and>
     forEachNode_TopoOrder record_visit (g, []) = Some (Inr (g', s')) \<and>
     distinct s' \<and> set s' = {1, 2, 3, 4} \<and> topo_order (set kite_edges) s'"
proof -
  obtain g :: "string dag" where g: "build NodePush kite_nodes kite_edges = Inr g" "wf_dag g"
    "countable_dag g" "dkind g = NodePush" "verts g = {1, 2, 3, 4}" "edges g = set kite_edges"
    using kite_ok [of NodePush] by blast
  with topo_visits_all [of g record_visit "\<lambda>vis _ s. s = vis" "[]"] kite_acyclic record_visit_ok
  show ?thesis by fastforce
qed

text \<open>
  C7: on a graph with a cycle the traversal still returns, without an error, but a node on a cycle,
  and every node reachable from it, is never visited.
\<close>

theorem topo_skips_cycles:
  assumes "wf_dag g" "countable_dag g" "stores_succ (dkind g)" "(a, a) \<in> (edges g)\<^sup>+"
    "(a, p) \<in> (edges g)\<^sup>*"
  shows "\<exists>g' vis. forEachNode_TopoOrder record_visit (g, []) = Some (Inr (g', vis)) \<and>
    a \<notin> set vis \<and> p \<notin> set vis"
proof -
  from topo_rule [OF assms(1-3) record_visit_ok] obtain g' vis where
    t: "forEachNode_TopoOrder record_visit (g, []) = Some (Inr (g', vis))" "covers g vis"
    by blast
  then have o: "topo_order (edges g) vis" "distinct vis" by (auto simp: covers_def)
  have "a \<notin> set vis" using topo_order_no_cycle [OF o assms(4)] .
  moreover have "p \<notin> set vis" using topo_order_rtrancl [OF o(1) assms(5)] calculation by blast
  ultimately show ?thesis using t by blast
qed

theorem topo_skips_cycles_witness:
  "\<exists>(g :: unit dag) g' vis. build NodeInOut [(1, ()), (2, ()), (3, ())] [(1, 2), (2, 1), (2, 3)] = Inr g \<and>
     forEachNode_TopoOrder record_visit (g, []) = Some (Inr (g', vis)) \<and> 1 \<notin> set vis \<and> 3 \<notin> set vis"
proof -
  obtain g :: "unit dag" where
    g: "build NodeInOut [(1, ()), (2, ()), (3, ())] [(1, 2), (2, 1), (2, 3)] = Inr g" "wf_dag g"
      "dkind g = NodeInOut" "verts g = {1, 2, 3}" "edges g = {(1, 2), (2, 1), (2, 3)}"
    using build_ok [of "[(1, ()), (2, ()), (3, ())]" "[(1, 2), (2, 1), (2, 3)]" NodeInOut]
    by fastforce
  have "(1, 2) \<in> edges g" "(2, 1) \<in> edges g" "(2, 3) \<in> edges g" by (simp_all add: g(5))
  then have "(1, 1) \<in> (edges g)\<^sup>+" "(1, 3) \<in> (edges g)\<^sup>*" by (meson r_into_trancl trancl.simps, meson r_into_rtrancl rtrancl.simps)
  moreover have "countable_dag g" using countable_card [OF g(2)] g(4) by simp
  ultimately show ?thesis using topo_skips_cycles [of g 1 3] g(1-3) by auto
qed

end
