(* ===== verification/AtmiDag.thy ===== *)
theory AtmiDag
  imports Atmi Topo
begin

text \<open>
  The executors that turn a task graph into ATMI tasks: \<open>ATMIdagExecutor\<close> and the part that
  \<open>AtmiMixedDagExecutor\<close> shares with it. The locale \<open>lazy_tasks\<close> is the contract of a visitor that
  makes the task of one node; its lemmas say what the runtime is told about a whole graph, and that
  activating the sources and waiting for the sinks is enough.
\<close>

section \<open>Making the tasks of a graph\<close>

type_synonym 'x lazy_state = "'x \<times> event list \<times> nat list \<times> nat list"

text \<open>The callback of \<open>ATMIdagExecutor::makeLazyTasks\<close>.\<close>

definition collectPreds :: "('ti \<Rightarrow> nat) \<Rightarrow> 'ti dag \<Rightarrow> addr list \<Rightarrow> nat list res" where
  "collectPreds get_handle g ps =
     for_each (\<lambda>q hs. rbind (nodeData g q) (\<lambda>d. Inr (hs @ [get_handle d]))) ps []"

definition dag_lazy :: "('ti \<Rightarrow> nat list \<Rightarrow> event list \<Rightarrow> nat \<times> event list) \<Rightarrow> ('ti \<Rightarrow> nat) \<Rightarrow>
    (nat \<Rightarrow> 'ti \<Rightarrow> 'ti) \<Rightarrow> ('ti, unit lazy_state) visitor" where
  "dag_lazy mk get_handle put_handle p = (\<lambda>(g, u, w, src, snk).
     rbind (predecessors g p) (\<lambda>ps.
     rbind (collectPreds get_handle g ps) (\<lambda>predHandles.
     rbind (nodeData g p) (\<lambda>tdata.
     case mk tdata predHandles w of (h, w') \<Rightarrow>
     rbind (set_nodeData p (put_handle h tdata) g) (\<lambda>g'.
     rbind (isSrc g' p) (\<lambda>s. rbind (isSink g' p) (\<lambda>k.
     Inr (g', u, w', if s then src @ [h] else src, if k then snk @ [h] else snk))))))))"

text \<open>
  The first loop of \<open>executeParallel\<close>: the graphs, with whatever else they own, are given by their
  addresses in a store. The result is \<open>None\<close> when a traversal does not return.
\<close>

fun lazy_all :: "('d, 'x lazy_state) visitor \<Rightarrow> addr list \<Rightarrow>
    (addr \<Rightarrow> ('d dag \<times> 'x) option) \<times> event list \<times> nat list \<times> nat list \<Rightarrow>
    ((addr \<Rightarrow> ('d dag \<times> 'x) option) \<times> event list \<times> nat list \<times> nat list) res option" where
  "lazy_all makeLazy [] st = Some (Inr st)"
| "lazy_all makeLazy (d # ds) (D, st) = (case D d of
      None \<Rightarrow> Some (Inl (Undefined ''dead graph''))
    | Some (g, x) \<Rightarrow> (case forEachNode_TopoOrder makeLazy (g, x, st) of
        None \<Rightarrow> None
      | Some (Inl e) \<Rightarrow> Some (Inl e)
      | Some (Inr (g', x', st')) \<Rightarrow> lazy_all makeLazy ds (D(d \<mapsto> (g', x')), st')))"

definition executeParallel :: "('d, 'x lazy_state) visitor \<Rightarrow> addr list \<Rightarrow>
    (addr \<Rightarrow> ('d dag \<times> 'x) option) \<times> event list \<Rightarrow>
    ((addr \<Rightarrow> ('d dag \<times> 'x) option) \<times> event list) res option" where
  "executeParallel makeLazy ds = (\<lambda>(D, w). case lazy_all makeLazy ds (D, w, [], []) of
     None \<Rightarrow> None
   | Some (Inl e) \<Rightarrow> Some (Inl e)
   | Some (Inr (D', w', src, snk)) \<Rightarrow> Some (Inr (D', waitOnTasks snk (activateTasks src w'))))"

definition execute :: "('d, 'x lazy_state) visitor \<Rightarrow> addr \<Rightarrow>
    (addr \<Rightarrow> ('d dag \<times> 'x) option) \<times> event list \<Rightarrow>
    ((addr \<Rightarrow> ('d dag \<times> 'x) option) \<times> event list) res option" where
  "execute makeLazy d = executeParallel makeLazy [d]"

section \<open>Runs of the runtime\<close>

text \<open>
  What the runtime promises: a task runs when it is activated, or launched, and the tasks it
  requires have run; one that requires others is triggered by them. A set of finished tasks
  contains, with a task, the tasks it requires, and a wait returns when its task has finished.
\<close>

inductive runs :: "event list \<Rightarrow> nat \<Rightarrow> bool" for w :: "event list" where
  activated: "(h, [], True) \<in> set (tasks w) \<Longrightarrow> TaskActivate h \<in> set w \<Longrightarrow> runs w h"
| launched: "(h, [], False) \<in> set (tasks w) \<Longrightarrow> runs w h"
| triggered: "(h, ps, b) \<in> set (tasks w) \<Longrightarrow> ps \<noteq> [] \<Longrightarrow> \<forall>p \<in> set ps. runs w p \<Longrightarrow> runs w h"

definition finished :: "event list \<Rightarrow> nat set \<Rightarrow> bool" where
  "finished w F \<longleftrightarrow> (\<forall>(h, ps, b) \<in> set (tasks w). h \<in> F \<longrightarrow> set ps \<subseteq> F) \<and>
     (\<forall>h. TaskWait h \<in> set w \<longrightarrow> h \<in> F)"

lemma runs_mono: "runs w h \<Longrightarrow> runs (w @ v) h"
proof (induction rule: runs.induct)
  case (activated h)
  then show ?case by (intro runs.activated) auto
next
  case (launched h)
  then show ?case by (intro runs.launched) auto
next
  case (triggered h ps b)
  then show ?case by (intro runs.triggered [of h ps b]) auto
qed

section \<open>The contract of a visitor\<close>

definition is_source :: "'d dag \<Rightarrow> addr \<Rightarrow> bool" where
  "is_source g p \<longleftrightarrow> (\<forall>a. (a, p) \<notin> edges g)"

definition is_sink :: "'d dag \<Rightarrow> addr \<Rightarrow> bool" where
  "is_sink g p \<longleftrightarrow> (\<forall>b. (p, b) \<notin> edges g)"

definition task_dag :: "'d dag \<Rightarrow> bool" where
  "task_dag g \<longleftrightarrow> wf_dag g \<and> countable_dag g \<and> dkind g = NodeInOut \<and> acyclic (edges g)"

lemma frame_task_dag: "frame g g' \<Longrightarrow> task_dag g' \<longleftrightarrow> task_dag g"
  by (simp add: task_dag_def frame_simps) (simp add: frame_def)

lemma source_preds: "task_dag g \<Longrightarrow> p \<in> verts g \<Longrightarrow> preds g p = [] \<longleftrightarrow> is_source g p"
  using edges_pred [of g p] by (auto simp: task_dag_def is_source_def)

text \<open>
  \<open>hv\<close> reads the handle stored for a node; \<open>tells\<close> says which calls make the task that a node holds. The
  step law: one call, for the task of the node and with the handles of the predecessors; the handle
  is stored; sources and sinks are collected; nothing else changes.
\<close>

locale lazy_tasks =
  fixes makeLazy :: "('d, 'x lazy_state) visitor"
    and hv :: "(addr \<Rightarrow> 'd option) \<Rightarrow> 'x \<Rightarrow> addr \<Rightarrow> nat"
    and inv :: "addr set \<Rightarrow> (addr \<Rightarrow> 'd option) \<Rightarrow> 'x \<Rightarrow> bool"
    and tells :: "(addr \<Rightarrow> 'd option) \<Rightarrow> 'x \<Rightarrow> addr \<Rightarrow> event \<Rightarrow> bool"
    and H :: "event list \<Rightarrow> nat"
  assumes step: "task_dag g \<Longrightarrow> p \<in> verts g \<Longrightarrow> inv (verts g) (ndata g) x \<Longrightarrow>
    \<exists>g' x' e b. makeLazy p (g, x, w, src, snk) = Inr (g', x', w @ [e],
        if is_source g p then src @ [H w] else src, if is_sink g p then snk @ [H w] else snk) \<and>
      task_of e = Some (H w, map (hv (ndata g) x) (preds g p), b) \<and>
      frame g g' \<and> depc g' = depc g \<and> inv (verts g) (ndata g') x' \<and>
      tells (ndata g) x p e \<and> (\<forall>q \<in> verts g. tells (ndata g') x' q = tells (ndata g) x q) \<and>
      (\<forall>q \<in> verts g. hv (ndata g') x' q = (if q = p then H w else hv (ndata g) x q))"
begin

definition told :: "'d dag \<Rightarrow> (addr \<Rightarrow> event \<Rightarrow> bool) \<Rightarrow> event list \<Rightarrow> nat list \<Rightarrow> nat list \<Rightarrow>
    addr list \<Rightarrow> (addr \<Rightarrow> 'd option) \<Rightarrow> 'x lazy_state \<Rightarrow> bool" where
  "told g T w0 src0 snk0 vis nd = (\<lambda>(x, w, src, snk). inv (verts g) nd x \<and> (\<forall>q \<in> verts g. tells nd x q = T q) \<and>
     (\<exists>es. w = w0 @ es \<and> length es = length vis \<and> list_all2 T vis es \<and>
       map (\<lambda>(h, ps, b). (h, ps)) (tasks es) = map (\<lambda>p. (hv nd x p, map (hv nd x) (preds g p))) vis) \<and>
     src = src0 @ map (hv nd x) (filter (is_source g) vis) \<and>
     snk = snk0 @ map (hv nd x) (filter (is_sink g) vis) \<and>
     ((\<forall>w. H w \<notin> task_handles w) \<longrightarrow> distinct (map fst (tasks w0)) \<longrightarrow> distinct (map fst (tasks w))))"

lemma visits_told:
  assumes g: "task_dag g"
  shows "visits_ok g makeLazy (told g T w0 src0 snk0)"
  unfolding visits_ok_def
proof (intro allI impI)
  fix vis p g1 s
  assume f: "frame g g1" and d: "distinct (vis @ [p])" and v: "set (vis @ [p]) \<subseteq> verts g"
    and t: "topo_order (edges g) (vis @ [p])" and P: "told g T w0 src0 snk0 vis (ndata g1) s"
  obtain x w src snk where s: "s = (x, w, src, snk)" by (cases s)
  have g1: "task_dag g1" "verts g1 = verts g" "preds g1 = preds g"
    "is_source g1 p = is_source g p" "is_sink g1 p = is_sink g p"
    using f g by (auto simp: frame_task_dag frame_simps is_source_def is_sink_def) (simp add: frame_def)
  from P have inv: "inv (verts g1) (ndata g1) x" by (simp add: told_def s g1)
  have p: "p \<in> verts g1" using v g1 by simp
  from step [OF g1(1) p inv, of w src snk] obtain g' x' e b where
    e: "makeLazy p (g1, s) = Inr (g', x', w @ [e],
        if is_source g p then src @ [H w] else src, if is_sink g p then snk @ [H w] else snk)"
      "task_of e = Some (H w, map (hv (ndata g1) x) (preds g p), b)" "frame g1 g'" "depc g' = depc g1"
      "inv (verts g) (ndata g') x'"
      "\<forall>q \<in> verts g. hv (ndata g') x' q = (if q = p then H w else hv (ndata g1) x q)"
      "tells (ndata g1) x p e" "\<forall>q \<in> verts g. tells (ndata g') x' q = tells (ndata g1) x q"
    unfolding s g1 by blast
  have T: "T p e" "\<forall>q \<in> verts g. tells (ndata g') x' q = T q" using e(7,8) P v by (auto simp: told_def s)
  let ?h = "hv (ndata g') x'" and ?k = "hv (ndata g1) x"
  have hp: "?h p = H w" using e(6) v by simp
  have old: "?h q = ?k q" if "q \<in> set vis" for q using e(6) v d that by auto
  have pv: "set (preds g q) \<subseteq> set vis" if "q \<in> set (vis @ [p])" for q
  proof
    fix a assume "a \<in> set (preds g q)"
    then have ed: "(a, q) \<in> edges g"
      using edges_pred [of g q a] g v that by (auto simp: task_dag_def)
    show "a \<in> set vis"
      using t ed that unfolding topo_order_snoc by (auto dest: topo_order_pred)
  qed
  have oldp: "map ?h (preds g q) = map ?k (preds g q)" if "q \<in> set (vis @ [p])" for q
    using pv [OF that] old by auto
  from P obtain es where es: "w = w0 @ es" "length es = length vis"
    "map (\<lambda>(h, ps, b). (h, ps)) (tasks es) = map (\<lambda>q. (?k q, map ?k (preds g q))) vis" "list_all2 T vis es"
    by (auto simp: told_def s)
  have "list_all2 T (vis @ [p]) (es @ [e])" using es(4) T(1) by (intro list_all2_appendI) simp_all
  moreover
  have "map (\<lambda>(h, ps, b). (h, ps)) (tasks (es @ [e])) = map (\<lambda>q. (?h q, map ?h (preds g q))) (vis @ [p])"
  proof -
    have "map (\<lambda>q. (?h q, map ?h (preds g q))) vis = map (\<lambda>q. (?k q, map ?k (preds g q))) vis"
    proof (rule map_cong [OF refl])
      fix q assume "q \<in> set vis"
      then show "(?h q, map ?h (preds g q)) = (?k q, map ?k (preds g q))"
        using old [of q] oldp [of q] by (simp del: map_eq_conv)
    qed
    then show ?thesis using es(3) e(2) oldp [of p] hp by (simp add: tasks_single del: map_eq_conv)
  qed
  moreover have "src = src0 @ map ?h (filter (is_source g) vis)" "snk = snk0 @ map ?h (filter (is_sink g) vis)"
    using P old by (auto simp: told_def s)
  moreover have "(\<forall>w. H w \<notin> task_handles w) \<longrightarrow> distinct (map fst (tasks w0)) \<longrightarrow>
      distinct (map fst (tasks (w @ [e])))"
  proof (intro impI)
    assume fr: "\<forall>w. H w \<notin> task_handles w" and d0: "distinct (map fst (tasks w0))"
    have "distinct (map fst (tasks w))" using P fr d0 by (simp add: told_def s)
    moreover have "H w \<notin> fst ` set (tasks w)" using fr by (simp add: task_handles_def)
    ultimately show "distinct (map fst (tasks (w @ [e])))" using e(2) by (auto simp: tasks_single)
  qed
  ultimately have "told g T w0 src0 snk0 (vis @ [p]) (ndata g') (x', w @ [e],
      if is_source g p then src @ [H w] else src, if is_sink g p then snk @ [H w] else snk)"
    using e(5) es(1,2) hp T(2) unfolding told_def prod.case by (intro conjI exI [of _ "es @ [e]"]) simp_all
  then show "\<exists>g' s'. makeLazy p (g1, s) = Inr (g', s') \<and> frame g1 g' \<and> depc g' = depc g1 \<and>
      told g T w0 src0 snk0 (vis @ [p]) (ndata g') s'"
    using e by blast
qed

text \<open>
  The tasks of a whole graph, in the order \<open>vis\<close> they were made: one per node, the one that the node
  holds, requiring the tasks of its predecessors.
\<close>

lemma lazy_graph:
  assumes g: "task_dag g" and i: "inv (verts g) (ndata g) x"
  shows "\<exists>g' x' es src' snk' vis h. forEachNode_TopoOrder makeLazy (g, x, w, src, snk) =
      Some (Inr (g', x', w @ es, src', snk')) \<and> frame g g' \<and> inv (verts g) (ndata g') x' \<and>
    distinct vis \<and> set vis = verts g \<and> topo_order (edges g) vis \<and> length es = length vis \<and>
    list_all2 (tells (ndata g) x) vis es \<and>
    map (\<lambda>(h, ps, b). (h, ps)) (tasks es) = map (\<lambda>p. (h p, map h (preds g p))) vis \<and>
    src' = src @ map h (filter (is_source g) vis) \<and> snk' = snk @ map h (filter (is_sink g) vis) \<and>
    ((\<forall>w. H w \<notin> task_handles w) \<longrightarrow> distinct (map fst (tasks w)) \<longrightarrow> distinct (map fst (tasks (w @ es))))"
proof -
  have k: "stores_succ (dkind g)" "wf_dag g" "countable_dag g" "acyclic (edges g)"
    using g by (auto simp: task_dag_def)
  let ?T = "tells (ndata g) x"
  have "told g ?T w src snk [] (ndata g) (x, w, src, snk)" using i by (simp add: told_def)
  from topo_rule [OF k(2,3,1) visits_told [OF g] this] obtain g' s' vis where
    r: "forEachNode_TopoOrder makeLazy (g, x, w, src, snk) = Some (Inr (g', s'))" "frame g g'"
      "covers g vis" "told g ?T w src snk vis (ndata g') s'" by blast
  obtain x' w' src' snk' where s: "s' = (x', w', src', snk')" by (cases s')
  have "set vis = verts g" using covers_acyclic [OF k(2,4) r(3)] .
  moreover have "distinct vis" "topo_order (edges g) vis" using r(3) by (auto simp: covers_def)
  moreover from r(4) obtain es where "w' = w @ es" "length es = length vis" "list_all2 ?T vis es"
    "map (\<lambda>(h, ps, b). (h, ps)) (tasks es) =
      map (\<lambda>p. (hv (ndata g') x' p, map (hv (ndata g') x') (preds g p))) vis"
    "src' = src @ map (hv (ndata g') x') (filter (is_source g) vis)"
    "snk' = snk @ map (hv (ndata g') x') (filter (is_sink g) vis)"
    "inv (verts g) (ndata g') x'"
    "(\<forall>w. H w \<notin> task_handles w) \<longrightarrow> distinct (map fst (tasks w)) \<longrightarrow> distinct (map fst (tasks w'))"
    unfolding told_def s prod.case by blast
  ultimately show ?thesis
    using r(1,2) unfolding s by blast
qed

end

section \<open>Activating the sources and waiting for the sinks\<close>

text \<open>
  Every task of a graph is behind a source and before a sink: if the sources are activated and the
  sinks waited for, all tasks run and all have finished.
\<close>

lemma graph_runs:
  assumes g: "task_dag g" and vis: "distinct vis" "set vis = verts g" "topo_order (edges g) vis"
    and tk: "\<forall>p \<in> set vis. \<exists>b. (h p, map h (preds g p), b) \<in> set (tasks w)"
    and act: "\<forall>p \<in> set vis. is_source g p \<longrightarrow> TaskActivate (h p) \<in> set w"
    and p: "p \<in> verts g"
  shows "runs w (h p)"
proof -
  have fin: "finite (edges g)"
    by (rule finite_subset [of _ "verts g \<times> verts g"])
      (use g in \<open>auto simp: task_dag_def wf_dag_def verts_def\<close>)
  then have wf: "wf (edges g)" using g by (simp add: finite_acyclic_wf task_dag_def)
  have "p \<in> verts g \<longrightarrow> runs w (h p)"
  proof (induction p rule: wf_induct_rule [OF wf])
    case (1 p)
    show ?case
    proof
      assume p: "p \<in> verts g"
      then obtain b where b: "(h p, map h (preds g p), b) \<in> set (tasks w)" using tk vis by blast
      show "runs w (h p)"
      proof (cases "preds g p = []")
        case True
        then have "TaskActivate (h p) \<in> set w" using act p vis source_preds [OF g p] by blast
        with b True show ?thesis by (cases b) (auto intro: runs.intros)
      next
        case False
        have "\<forall>a \<in> set (preds g p). runs w (h a)"
        proof
          fix a assume "a \<in> set (preds g p)"
          then have e: "(a, p) \<in> edges g" using edges_pred [of g p a] g p by (auto simp: task_dag_def)
          moreover have "a \<in> verts g" using e g by (auto simp: task_dag_def wf_dag_def)
          ultimately show "runs w (h a)" using 1 by blast
        qed
        with b False show ?thesis by (intro runs.triggered [of "h p" "map h (preds g p)" b]) auto
      qed
    qed
  qed
  with p show ?thesis by blast
qed

lemma graph_finished:
  assumes g: "task_dag g" and vis: "distinct vis" "set vis = verts g"
    and tk: "\<forall>p \<in> set vis. \<exists>b. (h p, map h (preds g p), b) \<in> set (tasks w)"
    and wt: "\<forall>p \<in> set vis. is_sink g p \<longrightarrow> TaskWait (h p) \<in> set w"
    and F: "finished w F" and p: "p \<in> verts g"
  shows "h p \<in> F"
proof -
  have "finite (edges g)"
    by (rule finite_subset [of _ "verts g \<times> verts g"])
      (use g in \<open>auto simp: task_dag_def wf_dag_def verts_def\<close>)
  then have wf: "wf ((edges g)\<inverse>)" using g by (simp add: finite_acyclic_wf_converse task_dag_def)
  have "p \<in> verts g \<longrightarrow> h p \<in> F"
  proof (induction p rule: wf_induct_rule [OF wf])
    case (1 p)
    show ?case
    proof
      assume p: "p \<in> verts g"
      show "h p \<in> F"
      proof (cases "is_sink g p")
        case True
        then show ?thesis using wt p vis F by (auto simp: finished_def)
      next
        case False
        then obtain b where e: "(p, b) \<in> edges g" by (auto simp: is_sink_def)
        then have b: "b \<in> verts g" using g by (auto simp: task_dag_def wf_dag_def)
        with 1 e have "h b \<in> F" by blast
        moreover obtain c where "(h b, map h (preds g b), c) \<in> set (tasks w)" using tk vis b by blast
        ultimately have "set (map h (preds g b)) \<subseteq> F" using F by (fastforce simp: finished_def)
        moreover have "p \<in> set (preds g b)" using edges_pred [of g b p] g b e by (auto simp: task_dag_def)
        ultimately show ?thesis by auto
      qed
    qed
  qed
  with p show ?thesis by blast
qed

section \<open>executeParallel\<close>

text \<open>The runtime was told of every node of \<open>g\<close>, under the handles \<open>h\<close>, by the calls \<open>w\<close>.\<close>

definition scheduled :: "'d dag \<Rightarrow> (addr \<Rightarrow> nat) \<Rightarrow> event list \<Rightarrow> bool" where
  "scheduled g h w \<longleftrightarrow> (\<forall>p \<in> verts g. \<exists>b. (h p, map h (preds g p), b) \<in> set (tasks w)) \<and>
     (\<forall>p \<in> verts g. is_source g p \<longrightarrow> TaskActivate (h p) \<in> set w) \<and>
     (\<forall>p \<in> verts g. is_sink g p \<longrightarrow> TaskWait (h p) \<in> set w)"

lemma ex_vis: "task_dag g \<Longrightarrow> \<exists>vis. distinct vis \<and> set vis = verts g \<and> topo_order (edges g) vis"
proof -
  assume g: "task_dag g"
  then have k: "wf_dag g" "countable_dag g" "stores_succ (dkind g)" "acyclic (edges g)"
    by (auto simp: task_dag_def)
  from topo_rule [OF k(1-3) record_visit_ok refl] obtain vis where c: "covers g vis" by blast
  have "set vis = verts g" using covers_acyclic [OF k(1,4) c] .
  then show ?thesis using c unfolding covers_def by blast
qed

lemma scheduled_runs: "task_dag g \<Longrightarrow> scheduled g h w \<Longrightarrow> p \<in> verts g \<Longrightarrow> runs w (h p)"
  using ex_vis [of g] graph_runs [of g _ h w p] unfolding scheduled_def by metis

lemma scheduled_finished:
  "task_dag g \<Longrightarrow> scheduled g h w \<Longrightarrow> finished w F \<Longrightarrow> p \<in> verts g \<Longrightarrow> h p \<in> F"
  using ex_vis [of g] graph_finished [of g _ h w F p] unfolding scheduled_def by metis

context lazy_tasks
begin

definition ready :: "(addr \<Rightarrow> ('d dag \<times> 'x) option) \<Rightarrow> addr \<Rightarrow> bool" where
  "ready D d \<longleftrightarrow> (\<exists>g x. D d = Some (g, x) \<and> task_dag g \<and> inv (verts g) (ndata g) x)"

definition sent :: "(addr \<Rightarrow> ('d dag \<times> 'x) option) \<Rightarrow> event list \<Rightarrow> nat list \<Rightarrow> nat list \<Rightarrow> addr \<Rightarrow> bool" where
  "sent D w src snk d \<longleftrightarrow> (\<exists>g x h. D d = Some (g, x) \<and>
     (\<forall>p \<in> verts g. \<exists>b. (h p, map h (preds g p), b) \<in> set (tasks w)) \<and>
     (\<forall>p \<in> verts g. (is_source g p \<longrightarrow> h p \<in> set src) \<and> (is_sink g p \<longrightarrow> h p \<in> set snk)))"

lemma sent_append:
  assumes "sent D w src snk d" "set (tasks w) \<subseteq> set (tasks w')" "set src \<subseteq> set src'" "set snk \<subseteq> set snk'"
  shows "sent D w' src' snk' d"
proof -
  from assms(1) obtain g x h where "D d = Some (g, x)"
    "\<forall>p \<in> verts g. \<exists>b. (h p, map h (preds g p), b) \<in> set (tasks w)"
    "\<forall>p \<in> verts g. (is_source g p \<longrightarrow> h p \<in> set src) \<and> (is_sink g p \<longrightarrow> h p \<in> set snk)"
    unfolding sent_def by blast
  moreover have "\<forall>p \<in> verts g. \<exists>b. (h p, map h (preds g p), b) \<in> set (tasks w')"
    using calculation(2) assms(2) by (meson subsetD)
  moreover have "\<forall>p \<in> verts g. (is_source g p \<longrightarrow> h p \<in> set src') \<and> (is_sink g p \<longrightarrow> h p \<in> set snk')"
    using calculation(3) assms(3,4) by (meson subsetD)
  ultimately show ?thesis unfolding sent_def by blast
qed

lemma lazy_all_ok:
  assumes "distinct ds" "\<forall>d \<in> set ds. ready D d"
  shows "\<exists>D' es src' snk'. lazy_all makeLazy ds (D, w, src, snk) =
      Some (Inr (D', w @ es, src @ src', snk @ snk')) \<and> (\<forall>d \<in> set ds. sent D es src' snk' d) \<and>
    length es = (\<Sum>d \<leftarrow> ds. card (verts (fst (the (D d))))) \<and>
    ((\<forall>w. H w \<notin> task_handles w) \<longrightarrow> distinct (map fst (tasks w)) \<longrightarrow> distinct (map fst (tasks (w @ es))))"
  using assms
proof (induction ds arbitrary: D w src snk)
  case Nil
  show ?case by (intro exI [of _ D] exI [of _ "[]"]) simp
next
  case (Cons d ds)
  then obtain g x where g: "D d = Some (g, x)" "task_dag g" "inv (verts g) (ndata g) x"
    by (auto simp: ready_def)
  from lazy_graph [OF g(2,3), of w src snk] obtain g' x' es src' snk' vis h where
    l: "forEachNode_TopoOrder makeLazy (g, x, w, src, snk) = Some (Inr (g', x', w @ es, src', snk'))"
      "distinct vis" "set vis = verts g" "length es = length vis"
      "map (\<lambda>(h, ps, b). (h, ps)) (tasks es) = map (\<lambda>p. (h p, map h (preds g p))) vis"
      "src' = src @ map h (filter (is_source g) vis)" "snk' = snk @ map h (filter (is_sink g) vis)"
      "(\<forall>w. H w \<notin> task_handles w) \<longrightarrow> distinct (map fst (tasks w)) \<longrightarrow> distinct (map fst (tasks (w @ es)))"
    by blast
  obtain D1 where D1: "D1 = D(d \<mapsto> (g', x'))" by blast
  have same: "ready D1 e = ready D e" "sent D1 v a b e = sent D v a b e" "D1 e = D e"
    if "e \<in> set ds" for e v a b
    using that Cons.prems(1) by (auto simp: ready_def sent_def D1)
  have rdy: "\<forall>e \<in> set ds. ready D1 e" using Cons.prems(2) same by simp
  have "distinct ds" using Cons.prems(1) by simp
  from Cons.IH [OF this rdy, of "w @ es" src' snk'] obtain D' es2 src2 snk2 where
    r: "lazy_all makeLazy ds (D1, w @ es, src', snk') =
        Some (Inr (D', (w @ es) @ es2, src' @ src2, snk' @ snk2))"
      "\<forall>d \<in> set ds. sent D1 es2 src2 snk2 d" "length es2 = (\<Sum>d \<leftarrow> ds. card (verts (fst (the (D1 d)))))"
      "(\<forall>w. H w \<notin> task_handles w) \<longrightarrow> distinct (map fst (tasks (w @ es))) \<longrightarrow>
        distinct (map fst (tasks ((w @ es) @ es2)))"
    by blast
  have here: "sent D es (map h (filter (is_source g) vis)) (map h (filter (is_sink g) vis)) d"
  proof -
    have "\<exists>b. (h p, map h (preds g p), b) \<in> set (tasks es)" if "p \<in> verts g" for p
    proof -
      have "(h p, map h (preds g p)) \<in> set (map (\<lambda>(h, ps, b). (h, ps)) (tasks es))"
        unfolding l(5) using that l(3) by auto
      then show ?thesis by auto
    qed
    then show ?thesis using g(1) l(3) by (auto simp: sent_def)
  qed
  let ?src = "map h (filter (is_source g) vis) @ src2" and ?snk = "map h (filter (is_sink g) vis) @ snk2"
  have "\<forall>e \<in> set (d # ds). sent D (es @ es2) ?src ?snk e"
  proof
    fix e assume e: "e \<in> set (d # ds)"
    show "sent D (es @ es2) ?src ?snk e"
    proof (cases "e = d")
      case True
      then show ?thesis using here by (auto intro: sent_append)
    next
      case False
      then have "sent D es2 src2 snk2 e" using e r(2) same(2) by simp
      then show ?thesis by (auto intro: sent_append)
    qed
  qed
  moreover have "length (es @ es2) = (\<Sum>d \<leftarrow> d # ds. card (verts (fst (the (D d)))))"
  proof -
    have "(\<Sum>d \<leftarrow> ds. card (verts (fst (the (D1 d))))) = (\<Sum>d \<leftarrow> ds. card (verts (fst (the (D d)))))"
      using same(3) by (intro arg_cong [where f = sum_list] map_cong) auto
    moreover have "card (verts g) = length vis" using l(2,3) distinct_card by metis
    ultimately show ?thesis using l(4) r(3) g(1) by simp
  qed
  moreover have "lazy_all makeLazy (d # ds) (D, w, src, snk) =
      Some (Inr (D', w @ (es @ es2), src @ ?src, snk @ ?snk))"
    using g(1) l(1,6,7) r(1) by (simp add: D1)
  ultimately show ?case using l(8) r(4) by (metis append_assoc)
qed

lemma execute_ok:
  assumes "distinct ds" "\<forall>d \<in> set ds. ready D d"
  shows "\<exists>D' es src snk. executeParallel makeLazy ds (D, w) =
      Some (Inr (D', w @ es @ map TaskActivate src @ map TaskWait snk)) \<and>
    length es = (\<Sum>d \<leftarrow> ds. card (verts (fst (the (D d))))) \<and>
    (\<forall>d \<in> set ds. \<exists>g x h. D d = Some (g, x) \<and> task_dag g \<and>
       scheduled g h (es @ map TaskActivate src @ map TaskWait snk)) \<and>
    ((\<forall>w. H w \<notin> task_handles w) \<longrightarrow> distinct (map fst (tasks w)) \<longrightarrow> distinct (map fst (tasks (w @ es))))"
proof -
  from lazy_all_ok [OF assms, of w "[]" "[]"] obtain D' es src snk where
    l: "lazy_all makeLazy ds (D, w, [], []) = Some (Inr (D', w @ es, src, snk))"
      "\<forall>d \<in> set ds. sent D es src snk d" "length es = (\<Sum>d \<leftarrow> ds. card (verts (fst (the (D d)))))"
      "(\<forall>w. H w \<notin> task_handles w) \<longrightarrow> distinct (map fst (tasks w)) \<longrightarrow> distinct (map fst (tasks (w @ es)))"
    unfolding append_Nil by blast
  have "\<exists>g x h. D d = Some (g, x) \<and> task_dag g \<and>
       scheduled g h (es @ map TaskActivate src @ map TaskWait snk)" if "d \<in> set ds" for d
  proof -
    have "sent D es src snk d" using l(2) that by blast
    then obtain g x h where "D d = Some (g, x)"
      "\<forall>p \<in> verts g. \<exists>b. (h p, map h (preds g p), b) \<in> set (tasks es)"
      "\<forall>p \<in> verts g. (is_source g p \<longrightarrow> h p \<in> set src) \<and> (is_sink g p \<longrightarrow> h p \<in> set snk)"
      unfolding sent_def by blast
    moreover have "task_dag g" using assms(2) that calculation(1) by (auto simp: ready_def)
    moreover have "scheduled g h (es @ map TaskActivate src @ map TaskWait snk)"
      using calculation(2,3) by (auto simp: scheduled_def)
    ultimately show ?thesis by blast
  qed
  moreover have "executeParallel makeLazy ds (D, w) =
      Some (Inr (D', w @ es @ map TaskActivate src @ map TaskWait snk))"
    using l(1) by (simp add: executeParallel_def waitOnTasks_eq activateTasks_eq)
  ultimately show ?thesis using l(3,4) by blast
qed

end

section \<open>The visitor of ATMIdagExecutor\<close>

lemma nodeData_ok:
  assumes "wf_dag g" "q \<in> verts g"
  shows "\<exists>d. nodeData g q = Inr d \<and> ndata g q = Some d"
  using wf_dag_node [OF assms] by (auto simp: nodeData_def ndata_def)

definition stored :: "('ti \<Rightarrow> nat) \<Rightarrow> (addr \<Rightarrow> 'ti option) \<Rightarrow> addr \<Rightarrow> nat" where
  "stored get_handle nd q = (case nd q of None \<Rightarrow> 0 | Some d \<Rightarrow> get_handle d)"

lemma collectPreds_ok:
  assumes "wf_dag g" "set ps \<subseteq> verts g"
  shows "collectPreds get_handle g ps = Inr (map (stored get_handle (ndata g)) ps)"
proof -
  have "\<exists>t. for_each (\<lambda>q hs. rbind (nodeData g q) (\<lambda>d. Inr (hs @ [get_handle d]))) ps [] = Inr t \<and>
      t = map (stored get_handle (ndata g)) ps"
  proof (rule for_each_rule)
    fix ys y zs t
    assume "ps = ys @ y # zs" and t: "t = map (stored get_handle (ndata g)) ys"
    then have "y \<in> verts g" using assms(2) by auto
    then obtain d where "nodeData g y = Inr d" "ndata g y = Some d" using nodeData_ok assms(1) by blast
    then show "\<exists>t'. rbind (nodeData g y) (\<lambda>d. Inr (t @ [get_handle d])) = Inr t' \<and>
        t' = map (stored get_handle (ndata g)) (ys @ [y])"
      using t by (simp add: stored_def)
  qed simp
  then show ?thesis by (auto simp: collectPreds_def)
qed

lemma task_dag_tests:
  assumes "task_dag g" "p \<in> verts g"
  shows "isSrc g p = Inr (is_source g p)" "isSink g p = Inr (is_sink g p)"
    "predecessors g p = Inr (preds g p)" "set (preds g p) \<subseteq> verts g"
proof -
  have k: "wf_dag g" "countable_dag g" "dkind g = NodeInOut" using assms(1) by (auto simp: task_dag_def)
  show "isSrc g p = Inr (is_source g p)" using isSrc_iff [OF k(1,2) _ assms(2)] k(3) by (simp add: is_source_def)
  show "isSink g p = Inr (is_sink g p)" using isSink_iff [OF k(1) _ assms(2)] k(3) by (simp add: is_sink_def)
  obtain nd where "nodeAt g p = Some nd" using wf_dag_node [OF k(1) assms(2)] by blast
  then show "predecessors g p = Inr (preds g p)" using k(3) by (simp add: predecessors_def view_Some)
  show "set (preds g p) \<subseteq> verts g" using edges_pred [OF k(1) _ assms(2)] k by (auto simp: wf_dag_def)
qed

sublocale task_maker < lt: lazy_tasks "dag_lazy mk get_handle put_handle"
  "\<lambda>nd x. stored get_handle nd" "\<lambda>V nd x. True" "\<lambda>nd x p e. True" H
proof
  fix g :: "'ti dag" and p and x :: unit and w src snk
  assume g: "task_dag g" "p \<in> verts g"
  have wf: "wf_dag g" using g by (simp add: task_dag_def)
  obtain d where d: "nodeData g p = Inr d" "ndata g p = Some d" using nodeData_ok [OF wf g(2)] by blast
  let ?ps = "map (stored get_handle (ndata g)) (preds g p)"
  obtain e where e: "mk d ?ps w = (H w, w @ [e])" "task_of e = Some (H w, ?ps, lazy)"
    using mk_call by blast
  obtain g' where g': "set_nodeData p (put_handle (H w) d) g = Inr g'" "frame g g'" "depc g' = depc g"
    "ndata g' = (ndata g)(p \<mapsto> put_handle (H w) d)"
    using set_nodeData_frame [OF wf g(2)] by blast
  have g2: "task_dag g'" "p \<in> verts g'" "is_source g' p = is_source g p" "is_sink g' p = is_sink g p"
    using g g'(2) by (auto simp: frame_task_dag frame_verts frame_edges is_source_def is_sink_def)
  have "dag_lazy mk get_handle put_handle p (g, x, w, src, snk) = Inr (g', x, w @ [e],
      if is_source g p then src @ [H w] else src, if is_sink g p then snk @ [H w] else snk)"
    using d(1) e(1) g'(1) g2(3,4)
    by (simp add: dag_lazy_def task_dag_tests [OF g] task_dag_tests [OF g2(1,2)] collectPreds_ok [OF wf])
  moreover have "\<forall>q \<in> verts g. stored get_handle (ndata g') q =
      (if q = p then H w else stored get_handle (ndata g) q)"
    by (simp add: g'(4) stored_def get_put)
  ultimately show "\<exists>g' x' e b. dag_lazy mk get_handle put_handle p (g, x, w, src, snk) = Inr (g', x', w @ [e],
        if is_source g p then src @ [H w] else src, if is_sink g p then snk @ [H w] else snk) \<and>
      task_of e = Some (H w, map (stored get_handle (ndata g)) (preds g p), b) \<and>
      frame g g' \<and> depc g' = depc g \<and> True \<and> True \<and> (\<forall>q \<in> verts g. (\<lambda>e :: event. True) = (\<lambda>e. True)) \<and>
      (\<forall>q \<in> verts g. stored get_handle (ndata g') q = (if q = p then H w else stored get_handle (ndata g) q))"
    using e(2) g'(2,3) by blast
qed

section \<open>Properties\<close>

lemma scheduled_later: "scheduled g h v \<Longrightarrow> scheduled g h (w @ v)"
  by (fastforce simp: scheduled_def)

text \<open>
  C3: making the tasks of an acyclic graph creates exactly one task per node, in an order compatible
  with the edges, each requiring exactly the tasks of its predecessors; the collected handles are
  those of the sources and of the sinks, and distinct nodes get distinct tasks.
\<close>

theorem gpu_tasks_mirror_graph:
  assumes "task_dag g" "\<forall>w. hnd A w \<notin> task_handles w"
  shows "\<exists>g' es src snk vis h.
    forEachNode_TopoOrder (dag_lazy (gpu_makeInternalTask A sync) gpuTaskHandle put_gpu) (g, (), [], [], []) =
      Some (Inr (g', (), es, src, snk)) \<and>
    distinct vis \<and> set vis = verts g \<and> topo_order (edges g) vis \<and> inj_on h (verts g) \<and>
    map (\<lambda>(h, ps, b). (h, ps)) (tasks es) = map (\<lambda>p. (h p, map h (preds g p))) vis \<and>
    (\<forall>p \<in> verts g. set (preds g p) = {a. (a, p) \<in> edges g}) \<and>
    src = map h (filter (is_source g) vis) \<and> snk = map h (filter (is_sink g) vis)"
proof -
  from gpu.lt.lazy_graph [where A = A and sync = sync and w = "[]" and src = "[]" and snk = "[]", OF assms(1) TrueI] obtain g' es src snk vis h where
    l: "forEachNode_TopoOrder (dag_lazy (gpu_makeInternalTask A sync) gpuTaskHandle put_gpu) (g, (), [], [], []) =
        Some (Inr (g', (), es, src, snk))"
      "distinct vis" "set vis = verts g" "topo_order (edges g) vis"
      "map (\<lambda>(h, ps, b). (h, ps)) (tasks es) = map (\<lambda>p. (h p, map h (preds g p))) vis"
      "src = map h (filter (is_source g) vis)" "snk = map h (filter (is_sink g) vis)"
      "distinct (map fst (tasks es))"
    using assms(2) by auto
  have "map fst (tasks es) = map fst (map (\<lambda>(h, ps, b). (h, ps)) (tasks es))" by auto
  also have "\<dots> = map h vis" unfolding l(5) by simp
  finally have "inj_on h (verts g)" using l(8,3) by (simp add: distinct_map)
  moreover have "\<forall>p \<in> verts g. set (preds g p) = {a. (a, p) \<in> edges g}"
    using assms(1) by (auto simp: task_dag_def wf_dag_def)
  ultimately show ?thesis using l by blast
qed

text \<open>
  C1: \<open>executeParallel\<close> on acyclic graphs returns; it activates the sources and waits for the sinks only,
  and that is enough: every task of every graph runs, and when the waits have returned every task has
  finished.
\<close>

theorem cpu_executeParallel_complete:
  assumes "distinct ds" "\<forall>d \<in> set ds. \<exists>g. D d = Some (g, ()) \<and> task_dag g"
  shows "\<exists>D' v. executeParallel (dag_lazy (cpu_makeInternalTask A sync) cpuTaskHandle put_cpu) ds (D, w) =
      Some (Inr (D', w @ v)) \<and>
    (\<forall>d \<in> set ds. \<exists>g h. D d = Some (g, ()) \<and> scheduled g h v \<and>
      (\<forall>p \<in> verts g. runs (w @ v) (h p) \<and> (\<forall>F. finished (w @ v) F \<longrightarrow> h p \<in> F)))"
proof -
  have "\<forall>d \<in> set ds. cpu.lt.ready D d" using assms(2) by (auto simp: cpu.lt.ready_def)
  from cpu.lt.execute_ok [where A = A and sync = sync and w = w, OF assms(1) this] obtain D' v where
    v: "executeParallel (dag_lazy (cpu_makeInternalTask A sync) cpuTaskHandle put_cpu) ds (D, w) =
        Some (Inr (D', w @ v))"
      "\<forall>d \<in> set ds. \<exists>g x h. D d = Some (g, x) \<and> task_dag g \<and> scheduled g h v"
    by blast
  have "\<exists>g h. D d = Some (g, ()) \<and> scheduled g h v \<and>
      (\<forall>p \<in> verts g. runs (w @ v) (h p) \<and> (\<forall>F. finished (w @ v) F \<longrightarrow> h p \<in> F))" if "d \<in> set ds" for d
  proof -
    from v(2) that obtain g h where g: "D d = Some (g, ())" "task_dag g" "scheduled g h v" by auto
    have "scheduled g h (w @ v)" using scheduled_later [OF g(3)] .
    then show ?thesis using g scheduled_runs [OF g(2)] scheduled_finished [OF g(2)] by blast
  qed
  then show ?thesis using v(1) by blast
qed

text \<open>A kite whose nodes are the given tasks.\<close>

lemma task_kite:
  fixes t :: 'ti
  shows "\<exists>g :: 'ti dag. build NodeInOut [(1, t), (2, t), (3, t), (4, t)] kite_edges = Inr g \<and> task_dag g \<and>
    verts g = {1, 2, 3, 4} \<and> edges g = set kite_edges"
proof -
  have "\<exists>g :: 'ti dag. build NodeInOut [(1, t), (2, t), (3, t), (4, t)] kite_edges = Inr g \<and> wf_dag g \<and>
      dkind g = NodeInOut \<and> verts g = set (map fst [(1, t), (2, t), (3, t), (4, t)]) \<and> edges g = set kite_edges"
    by (rule build_ok) (auto simp: kite_edges_def)
  then show ?thesis using countable_card kite_acyclic by (fastforce simp: task_dag_def)
qed

definition cpu_noop :: cpu_task where
  "cpu_noop = \<lparr>mKernArgOffsets = [], mKernArgs = [], mThreads = (1, 1, 1),
     mCpuKernelInfo = \<lparr>ck_kern = 0, ck_func = 64\<rparr>, cpuTaskHandle = 0\<rparr>"

theorem cpu_executeParallel_complete_witness:
  "\<exists>g D' v h. build NodeInOut [(1, cpu_noop), (2, cpu_noop), (3, cpu_noop), (4, cpu_noop)] kite_edges = Inr g \<and>
     executeParallel (dag_lazy (cpu_makeInternalTask \<lparr>hnd = length, kern = length\<rparr> False) cpuTaskHandle put_cpu)
       [8] ([8 \<mapsto> (g, ())], []) = Some (Inr (D', v)) \<and> runs v (h (4 :: nat)) \<and> finished v UNIV"
proof -
  obtain g where g: "build NodeInOut [(1, cpu_noop), (2, cpu_noop), (3, cpu_noop), (4, cpu_noop)] kite_edges = Inr g"
    "task_dag g" "verts g = {1, 2, 3, 4}" using task_kite [of cpu_noop] by blast
  from cpu_executeParallel_complete [of "[8]" "[8 \<mapsto> (g, ())]" "\<lparr>hnd = length, kern = length\<rparr>" False "[]"] g(2)
  obtain D' v h where "executeParallel (dag_lazy (cpu_makeInternalTask \<lparr>hnd = length, kern = length\<rparr> False)
      cpuTaskHandle put_cpu) [8] ([8 \<mapsto> (g, ())], []) = Some (Inr (D', v))" "\<forall>p \<in> verts g. runs v (h p)"
    by auto
  moreover have "finished v UNIV" by (simp add: finished_def)
  ultimately show ?thesis using g by auto
qed

definition gpu_noop :: gpu_task where
  "gpu_noop = \<lparr>mKernArgOffsets = [], mKernArgs = [], mBlocks = (1, 1, 1), mThreadsPerBlock = (1, 1, 1),
     mKernInfo = \<lparr>gk_kern = 0\<rparr>, gpuTaskHandle = 0\<rparr>"

text \<open>A runtime whose handles are fresh: one more than every handle it has given out.\<close>

definition fresh_hnd :: "event list \<Rightarrow> nat" where
  "fresh_hnd w = Suc (sum_list (map fst (tasks w)))"

lemma fresh_hnd_fresh: "fresh_hnd w \<notin> task_handles w"
proof
  assume "fresh_hnd w \<in> task_handles w"
  then have "Suc (sum_list (map fst (tasks w))) \<in> set (map fst (tasks w))"
    by (simp add: fresh_hnd_def task_handles_def)
  then show False using member_le_sum_list by fastforce
qed

theorem gpu_tasks_mirror_graph_witness:
  "\<exists>g g' es src snk. build NodeInOut [(1, gpu_noop), (2, gpu_noop), (3, gpu_noop), (4, gpu_noop)] kite_edges = Inr g \<and>
     forEachNode_TopoOrder (dag_lazy (gpu_makeInternalTask \<lparr>hnd = fresh_hnd, kern = length\<rparr> False) gpuTaskHandle put_gpu)
       (g, (), [], [], []) = Some (Inr (g', (), es, src, snk)) \<and> length (tasks es) = 4"
proof -
  obtain g where g: "build NodeInOut [(1, gpu_noop), (2, gpu_noop), (3, gpu_noop), (4, gpu_noop)] kite_edges = Inr g"
    "task_dag g" "verts g = {1, 2, 3, 4}" using task_kite [of gpu_noop] by blast
  have "\<forall>w. hnd \<lparr>hnd = fresh_hnd, kern = length\<rparr> w \<notin> task_handles w" using fresh_hnd_fresh by simp
  from gpu_tasks_mirror_graph [OF g(2) this, of False] obtain g' es src snk vis h where
    l: "forEachNode_TopoOrder (dag_lazy (gpu_makeInternalTask \<lparr>hnd = fresh_hnd, kern = length\<rparr> False) gpuTaskHandle put_gpu)
        (g, (), [], [], []) = Some (Inr (g', (), es, src, snk))" "distinct vis" "set vis = verts g"
      "map (\<lambda>(h, ps, b). (h, ps)) (tasks es) = map (\<lambda>p. (h p, map h (preds g p))) vis"
    by blast
  have "length (tasks es) = length vis" using arg_cong [OF l(4), of length] by simp
  also have "\<dots> = 4" using distinct_card [OF l(2)] l(3) g(3) by simp
  finally show ?thesis using g(1) l(1) by blast
qed

end
