(* ===== verification/MixedDag.thy ===== *)
theory MixedDag
  imports Topo
begin

text \<open>
  The rest of \<open>TaskDAG.h\<close>: the index of a type in a parameter pack and the integer sequences used to
  iterate over one, the pointer that carries its type in its low bits, the graph whose nodes hold
  data of several types, and the manager that owns graphs.
\<close>

unbundle bit_operations_syntax

section \<open>Type indices and integer sequences\<close>

text \<open>Types of a pack are elements of a list; a rejected instance is \<open>NoMember\<close>.\<close>

fun GetTypeIdImpl :: "'t \<Rightarrow> nat \<Rightarrow> 't list \<Rightarrow> nat" where
  "GetTypeIdImpl x i [] = i"
| "GetTypeIdImpl x i [a] = (if x = a then i else i + 1)"
| "GetTypeIdImpl x i (a # b # as) = (if x = a then i else GetTypeIdImpl x (i + 1) (b # as))"

definition GetTypeId :: "'t \<Rightarrow> 't list \<Rightarrow> nat res" where
  "GetTypeId x ts = (if ts = [] then Inl (NoMember ''value'')
     else if GetTypeIdImpl x 0 ts < length ts then Inr (GetTypeIdImpl x 0 ts)
     else Inl (NoMember ''Invalid input type searched in parameter pack''))"

lemma GetTypeIdImpl_found:
  "x \<in> set ts \<Longrightarrow> \<exists>j < length ts. GetTypeIdImpl x i ts = i + j \<and> ts ! j = x \<and> (\<forall>k < j. ts ! k \<noteq> x)"
proof (induction x i ts rule: GetTypeIdImpl.induct)
  case (3 x i a b as)
  show ?case
  proof (cases "x = a")
    case False
    with 3 obtain j where "j < length (b # as)" "GetTypeIdImpl x (i + 1) (b # as) = i + 1 + j"
      "(b # as) ! j = x" "\<forall>k < j. (b # as) ! k \<noteq> x" by auto
    with False show ?thesis
      by (intro exI [of _ "Suc j"]) (auto simp: less_Suc_eq_0_disj)
  qed auto
qed auto

lemma GetTypeIdImpl_absent: "x \<notin> set ts \<Longrightarrow> ts \<noteq> [] \<Longrightarrow> GetTypeIdImpl x i ts = i + length ts"
  by (induction x i ts rule: GetTypeIdImpl.induct) auto

lemma GetTypeId_present: "x \<in> set ts \<Longrightarrow> \<exists>i < length ts. GetTypeId x ts = Inr i \<and> ts ! i = x \<and> (\<forall>k < i. ts ! k \<noteq> x)"
  using GetTypeIdImpl_found [of x ts 0] by (fastforce simp: GetTypeId_def)

lemma GetTypeId_eq:
  "GetTypeId x ts = Inr i \<longleftrightarrow> i < length ts \<and> ts ! i = x \<and> (\<forall>k < i. ts ! k \<noteq> x)"
proof (cases "x \<in> set ts")
  case True
  from GetTypeId_present [OF this] obtain j where
    "j < length ts" "GetTypeId x ts = Inr j" "ts ! j = x" "\<forall>k < j. ts ! k \<noteq> x" by blast
  then show ?thesis by (metis linorder_neqE_nat sum.inject(2))
next
  case False
  then show ?thesis
    using GetTypeIdImpl_absent [of x ts 0] nth_mem by (force simp: GetTypeId_def)
qed

text \<open>
  \<open>std::conditional\<close> needs both its types, so the recursion is entered whatever \<open>Beg < End\<close> says;
  only the specialisation for equal bounds ends it.
\<close>

partial_function (option) MakeIntSeqHelper :: "nat \<Rightarrow> nat \<Rightarrow> nat list \<Rightarrow> nat list option" where
  "MakeIntSeqHelper b e prefix = (if b = e then Some prefix
     else Option.bind (MakeIntSeqHelper (b + 1) e (prefix @ [b]))
       (\<lambda>ty. Some (if b < e then ty else prefix)))"

definition MakeIndexSeq :: "nat \<Rightarrow> nat list option" where
  "MakeIndexSeq n = MakeIntSeqHelper 0 n []"

lemma MakeIntSeqHelper_ok: "b \<le> e \<Longrightarrow> MakeIntSeqHelper b e prefix = Some (prefix @ [b..<e])"
proof (induction "e - b" arbitrary: b prefix)
  case 0
  then show ?case by (simp add: MakeIntSeqHelper.simps)
next
  case (Suc n)
  then show ?case
    using Suc.hyps(1) [of "b + 1" "prefix @ [b]"]
    by (subst MakeIntSeqHelper.simps) (simp add: upt_conv_Cons)
qed

lemma MakeIndexSeq_ok: "MakeIndexSeq n = Some [0..<n]"
  by (simp add: MakeIndexSeq_def MakeIntSeqHelper_ok)

lemma MakeIntSeqHelper_returns: "MakeIntSeqHelper b e p = Some r \<Longrightarrow> b \<le> e"
proof (erule MakeIntSeqHelper.raw_induct [where P = "\<lambda>b e p r. b \<le> e", rotated])
  fix rec b e p and r :: "nat list"
  assume IH: "\<And>b e p r. rec b e p = Some r \<Longrightarrow> b \<le> e"
    and r: "(if b = e then Some p else Option.bind (rec (b + 1) e (p @ [b]))
       (\<lambda>ty. Some (if b < e then ty else p))) = Some r"
  show "b \<le> e"
  proof (cases "b = e")
    case False
    with r obtain ty where "rec (b + 1) e (p @ [b]) = Some ty" by (auto simp: bind_eq_Some_conv)
    then show ?thesis using IH by fastforce
  qed simp
qed

section \<open>MultiTypePtr\<close>

definition MAX_TYPES :: "64 word" where "MAX_TYPES = 8"
definition PTR_MASK :: "64 word" where "PTR_MASK = MAX_TYPES - 1"

definition mtp_make :: "'t list \<Rightarrow> 't \<Rightarrow> 64 word \<Rightarrow> 64 word res" where
  "mtp_make ts ty ptr =
     (if length ts \<le> unat MAX_TYPES then rbind (GetTypeId ty ts) (\<lambda>i. Inr (ptr OR of_nat i))
      else Inl (NoMember ''Can't uniquely encode types''))"

definition mtp_id :: "64 word \<Rightarrow> 64 word" where "mtp_id p = p AND PTR_MASK"
definition mtp_ptr :: "64 word \<Rightarrow> 64 word" where "mtp_ptr p = p AND NOT PTR_MASK"

text \<open>\<open>applyByTypeImpl\<close> tests the identifier against every index of the pack in order.\<close>

definition mtp_apply ::
  "'t list \<Rightarrow> ('t \<Rightarrow> 64 word \<Rightarrow> 's \<Rightarrow> 's res) \<Rightarrow> 64 word \<Rightarrow> 's \<Rightarrow> 's res" where
  "mtp_apply ts func p s = for_each (\<lambda>(i, ty) s.
     if mtp_id p = of_nat i then func ty (mtp_ptr p) s else Inr s) (zip [0..<length ts] ts) s"

lemma mask7: "(7 :: 64 word) = mask 3"
  by (simp add: mask_eq_exp_minus_1)

lemma ptr_mask: "PTR_MASK = mask 3"
  by (simp add: PTR_MASK_def MAX_TYPES_def mask_eq_exp_minus_1)

lemma or_low_bits:
  assumes "ptr AND PTR_MASK = 0" "i < 8"
  shows "mtp_id (ptr OR of_nat i) = of_nat i" "mtp_ptr (ptr OR of_nat i) = ptr"
proof -
  have "take_bit 3 (of_nat i :: 64 word) = of_nat i"
    using assms(2) by (simp add: take_bit_word_eq_self unat_of_nat take_bit_nat_eq_self flip: of_nat_take_bit)
  then have i: "(of_nat i :: 64 word) AND mask 3 = of_nat i" by (simp add: take_bit_eq_mask)
  show "mtp_id (ptr OR of_nat i) = of_nat i"
    using assms(1) by (simp add: mtp_id_def ptr_mask i bit.conj_disj_distrib2)
  have "(of_nat i :: 64 word) AND NOT (mask 3) = 0"
    by (subst i [symmetric]) (simp add: and.assoc)
  moreover have "ptr AND NOT (mask 3) = ptr"
  proof -
    have "ptr = (ptr AND mask 3) OR (ptr AND NOT (mask 3))"
      by (metis bit.conj_disj_distrib bit.disj_cancel_right bit.conj_one_right)
    then show ?thesis using assms(1) by (simp add: ptr_mask)
  qed
  ultimately show "mtp_ptr (ptr OR of_nat i) = ptr"
    by (simp add: mtp_ptr_def ptr_mask bit.conj_disj_distrib2)
qed

lemma mtp_apply_at:
  assumes "i < length ts" "length ts \<le> 8" "mtp_id p = of_nat i"
  shows "mtp_apply ts func p s = func (ts ! i) (mtp_ptr p) s"
proof -
  have inj: "(of_nat i :: 64 word) = of_nat j \<longleftrightarrow> i = j" if "j < 8" for j
    using that assms(1,2) by (simp add: word_of_nat_eq_iff take_bit_nat_eq_self)
  have z: "zip [0..<length ts] ts = zip [0..<i] (take i ts) @ (i, ts ! i) # zip [Suc i..<length ts] (drop (Suc i) ts)"
  proof (rule nth_equalityI)
    fix k assume "k < length (zip [0..<length ts] ts)"
    then show "zip [0..<length ts] ts ! k =
        (zip [0..<i] (take i ts) @ (i, ts ! i) # zip [Suc i..<length ts] (drop (Suc i) ts)) ! k"
      using assms(1) by (auto simp: nth_append nth_Cons split: nat.splits)
        (metis add_Suc_right le_add_diff_inverse linorder_not_less)
  qed (use assms(1) in auto)
  have skip: "for_each (\<lambda>(i, ty) s. if mtp_id p = of_nat i then func ty (mtp_ptr p) s else Inr s) xs s = Inr s"
    if "\<forall>(j, ty) \<in> set xs. j < 8 \<and> j \<noteq> i" for xs s
    using that by (induction xs arbitrary: s) (auto simp: assms(3) inj)
  have a: "\<forall>(j, ty) \<in> set (zip [0..<i] (take i ts)). j < 8 \<and> j \<noteq> i"
    using assms(1,2) by (auto dest!: set_zip_leftD)
  have b: "\<forall>(j, ty) \<in> set (zip [Suc i..<length ts] (drop (Suc i) ts)). j < 8 \<and> j \<noteq> i"
    using assms(1,2) by (auto dest!: set_zip_leftD)
  show ?thesis
    unfolding mtp_apply_def z for_each_append assms(3) skip [OF a, unfolded assms(3)]
    by (cases "func (ts ! i) (mtp_ptr p) s") (simp_all add: skip [OF b, unfolded assms(3)])
qed

text \<open>
  C15: a pointer to an object of type \<open>ty\<close>, aligned to eight bytes and packed into a \<open>MultiTypePtr\<close>,
  keeps its address, and \<open>apply\<close> calls the function exactly once, on that type and address.
\<close>

theorem mtp_apply_once:
  assumes "ty \<in> set ts" "length ts \<le> 8" "ptr AND PTR_MASK = 0"
  shows "\<exists>p. mtp_make ts ty ptr = Inr p \<and> mtp_ptr p = ptr \<and> mtp_apply ts func p s = func ty ptr s"
proof -
  obtain i where i: "i < length ts" "GetTypeId ty ts = Inr i" "ts ! i = ty"
    using GetTypeId_present [OF assms(1)] by blast
  then have "i < 8" using assms(2) by simp
  from or_low_bits [OF assms(3) this] i(1,2) assms(2) show ?thesis
    using mtp_apply_at [of i ts "ptr OR of_nat i" func s] i(3)
    by (auto simp: mtp_make_def MAX_TYPES_def)
qed

theorem mtp_apply_once_witness:
  "\<exists>p. mtp_make [''Cpu'', ''Gpu'', ''Copy''] ''Gpu'' 4096 = Inr p \<and>
     mtp_apply [''Cpu'', ''Gpu'', ''Copy''] (\<lambda>ty ptr s. Inr (s @ [(ty, ptr)])) p [] = Inr [(''Gpu'', 4096)]"
proof -
  have "(4096 :: 64 word) AND PTR_MASK = 0" by (simp add: PTR_MASK_def MAX_TYPES_def)
  from mtp_apply_once [OF _ _ this, of "''Gpu''" "[''Cpu'', ''Gpu'', ''Copy'']"
      "\<lambda>ty ptr s. Inr (s @ [(ty, ptr)])" "[]"]
  show ?thesis by auto
qed

end
