(* ===== verification/DagManager.thy ===== *)
theory DagManager
  imports MixedDag
begin

text \<open>
  The owners of objects in \<open>TaskDAG.h\<close>: \<open>MixedTaskDag\<close>, which allocates the data of its nodes from
  one allocator per type, and \<open>DAGmanager\<close>, with and without identifiers. The addresses returned
  by the allocators are arguments. Live objects are a partial map, so that a leak is an address that
  stays in its domain and a double release is \<open>Undefined\<close>.
\<close>

section \<open>MixedTaskDag\<close>

record ('t, 'v) mixed =
  mbase :: "64 word dag"
  dataAt :: "64 word \<Rightarrow> ('t \<times> 'v) option"

definition allocateNodeData :: "'t list \<Rightarrow> 64 word \<Rightarrow> 't \<Rightarrow> 'v \<Rightarrow> ('t, 'v) mixed \<Rightarrow>
    (64 word \<times> ('t, 'v) mixed) res" where
  "allocateNodeData ts ptr ty elem m = rbind (check (ptr \<noteq> 0) ''allocateNodeData failed'') (\<lambda>_.
     rbind (mtp_make ts ty ptr) (\<lambda>gd. Inr (gd, m\<lparr>dataAt := (dataAt m)(ptr \<mapsto> (ty, elem))\<rparr>)))"

definition deallocateNodeData :: "'t \<Rightarrow> 64 word \<Rightarrow> ('t, 'v) mixed \<Rightarrow> ('t, 'v) mixed res" where
  "deallocateNodeData ty ptr m =
     rbind (check (ptr \<noteq> 0) ''invalid pointer in deallocateNodeData'') (\<lambda>_.
     case dataAt m ptr of None \<Rightarrow> Inl (Undefined ''release of dead data'')
     | Some (ty', v) \<Rightarrow> if ty' = ty then Inr (m\<lparr>dataAt := (dataAt m)(ptr := None)\<rparr>)
         else Inl (Undefined ''release at another type''))"

definition mixed_addNode :: "'t list \<Rightarrow> 64 word \<Rightarrow> addr \<Rightarrow> 't \<Rightarrow> 'v \<Rightarrow> ('t, 'v) mixed \<Rightarrow>
    (addr \<times> ('t, 'v) mixed) res" where
  "mixed_addNode ts ptr t ty elem m = rbind (allocateNodeData ts ptr ty elem m) (\<lambda>(gd, m').
     rbind (addNode t gd (mbase m')) (\<lambda>(n, b). Inr (n, m'\<lparr>mbase := b\<rparr>)))"

text \<open>\<open>deleteNodeImpl\<close> selects the allocator by the identifier, index by index, as \<open>apply\<close> does.\<close>

definition deleteNodeImpl :: "'t list \<Rightarrow> 64 word \<Rightarrow> ('t, 'v) mixed \<Rightarrow> ('t, 'v) mixed res" where
  "deleteNodeImpl ts gd m = for_each (\<lambda>(i, ty) m.
     if mtp_id gd = of_nat i then deallocateNodeData ty (mtp_ptr gd) m else Inr m)
     (zip [0..<length ts] ts) m"

definition destroyAllNodeData :: "'t list \<Rightarrow> ('t, 'v) mixed \<Rightarrow> ('t, 'v) mixed res" where
  "destroyAllNodeData ts m = rbind (forEachNode (\<lambda>p (g, m). rbind (nodeData g p) (\<lambda>gd.
     rbind (deleteNodeImpl ts gd m) (\<lambda>m'. Inr (g, m')))) (mbase m, m)) (\<lambda>(g, m'). Inr m')"

text \<open>The destructor of the derived class runs first, then that of \<open>DAGbase\<close>.\<close>

definition mixed_destroy :: "'t list \<Rightarrow> ('t, 'v) mixed \<Rightarrow> ('t, 'v) mixed res" where
  "mixed_destroy ts m = rbind (destroyAllNodeData ts m) (\<lambda>m'.
     rbind (destroyAllNodes (mbase m')) (\<lambda>b. Inr (m'\<lparr>mbase := b\<rparr>)))"

text \<open>\<open>clear\<close> is inherited: it is that of \<open>DAGbase\<close>.\<close>

definition mixed_clear :: "('t, 'v) mixed \<Rightarrow> ('t, 'v) mixed res" where
  "mixed_clear m = rbind (dag_clear (mbase m)) (\<lambda>b. Inr (m\<lparr>mbase := b\<rparr>))"

definition applyToNodeData ::
  "'t list \<Rightarrow> ('t \<Rightarrow> 64 word \<Rightarrow> 's \<Rightarrow> 's res) \<Rightarrow> addr \<Rightarrow> 64 word dag \<Rightarrow> 's \<Rightarrow> 's res" where
  "applyToNodeData ts func n g s = rbind (check (n \<noteq> 0) ''null node pointer'') (\<lambda>_.
     rbind (nodeData g n) (\<lambda>gd. mtp_apply ts func gd s))"

subsection \<open>Its invariant\<close>

definition mixed_inv :: "'t list \<Rightarrow> ('t, 'v) mixed \<Rightarrow> bool" where
  "mixed_inv ts m \<longleftrightarrow> wf_dag (mbase m) \<and> length ts \<le> 8 \<and>
     (\<forall>p \<in> verts (mbase m). \<exists>gd i v. ndata (mbase m) p = Some gd \<and> i < length ts \<and>
        mtp_id gd = of_nat i \<and> mtp_ptr gd \<noteq> 0 \<and> dataAt m (mtp_ptr gd) = Some (ts ! i, v)) \<and>
     inj_on (\<lambda>p. mtp_ptr (the (ndata (mbase m) p))) (verts (mbase m)) \<and>
     dom (dataAt m) = (\<lambda>p. mtp_ptr (the (ndata (mbase m) p))) ` verts (mbase m)"

lemma addNode_ndata: "addNode t d g = Inr (n, g') \<Longrightarrow> ndata g' = (ndata g)(t \<mapsto> d)"
  by (auto simp: addNode_def Let_def ndata_def put_node_def make_node_def fun_eq_iff res_elims)

lemma mixed_addNode_inv:
  assumes inv: "mixed_inv ts m" and t: "t \<noteq> 0" "t \<notin> verts (mbase m)" and ty: "ty \<in> set ts"
    and ptr: "ptr \<noteq> 0" "ptr AND PTR_MASK = 0" "ptr \<notin> dom (dataAt m)"
  shows "\<exists>m'. mixed_addNode ts ptr t ty v m = Inr (t, m') \<and> mixed_inv ts m' \<and>
    verts (mbase m') = insert t (verts (mbase m)) \<and> edges (mbase m') = edges (mbase m) \<and>
    dataAt m' = (dataAt m)(ptr \<mapsto> (ty, v))"
proof -
  obtain i where i: "i < length ts" "GetTypeId ty ts = Inr i" "ts ! i = ty"
    using GetTypeId_present [OF ty] by blast
  have len: "length ts \<le> 8" and wf: "wf_dag (mbase m)" using inv by (auto simp: mixed_inv_def)
  let ?gd = "ptr OR of_nat i :: 64 word"
  have gd: "mtp_make ts ty ptr = Inr ?gd" "mtp_id ?gd = of_nat i" "mtp_ptr ?gd = ptr"
    using i len or_low_bits [OF ptr(2), of i] by (auto simp: mtp_make_def MAX_TYPES_def)
  from addNode_ok [OF wf t] obtain b where
    b: "addNode t ?gd (mbase m) = Inr (t, b)" "wf_dag b" "verts b = insert t (verts (mbase m))"
      "edges b = edges (mbase m)" by blast
  have n: "ndata b = (ndata (mbase m))(t \<mapsto> ?gd)" using addNode_ndata [OF b(1)] .
  let ?m = "m\<lparr>mbase := b, dataAt := (dataAt m)(ptr \<mapsto> (ty, v))\<rparr>"
  have "mixed_addNode ts ptr t ty v m = Inr (t, ?m)"
    using gd(1) b(1) ptr(1) by (simp add: mixed_addNode_def allocateNodeData_def)
  moreover have "mixed_inv ts ?m"
    unfolding mixed_inv_def
  proof (intro conjI)
    have old: "p \<noteq> t" "mtp_ptr (the (ndata (mbase m) p)) \<noteq> ptr" if "p \<in> verts (mbase m)" for p
      using that t ptr(3) inv by (auto simp: mixed_inv_def)
    have im: "(\<lambda>p. mtp_ptr (the (ndata b p))) ` verts (mbase m) = dom (dataAt m)"
      using inv old by (force simp: mixed_inv_def n)
    show "inj_on (\<lambda>p. mtp_ptr (the (ndata (mbase ?m) p))) (verts (mbase ?m))"
      using inv old by (auto simp: mixed_inv_def n b(3) gd(3) inj_on_def)
    show "dom (dataAt ?m) = (\<lambda>p. mtp_ptr (the (ndata (mbase ?m) p))) ` verts (mbase ?m)"
      by (simp add: b(3) im) (simp add: n gd(3))
    show "\<forall>p \<in> verts (mbase ?m). \<exists>gd i v. ndata (mbase ?m) p = Some gd \<and> i < length ts \<and>
        mtp_id gd = of_nat i \<and> mtp_ptr gd \<noteq> 0 \<and> dataAt ?m (mtp_ptr gd) = Some (ts ! i, v)"
    proof
      fix p assume p: "p \<in> verts (mbase ?m)"
      show "\<exists>gd i v. ndata (mbase ?m) p = Some gd \<and> i < length ts \<and>
        mtp_id gd = of_nat i \<and> mtp_ptr gd \<noteq> 0 \<and> dataAt ?m (mtp_ptr gd) = Some (ts ! i, v)"
      proof (cases "p = t")
        case True
        then show ?thesis using i gd ptr by (auto simp: n)
      next
        case False
        then have v: "p \<in> verts (mbase m)" using p by (simp add: b(3))
        then obtain gd' j v' where g: "ndata (mbase m) p = Some gd'" "j < length ts"
          "mtp_id gd' = of_nat j" "mtp_ptr gd' \<noteq> 0" "dataAt m (mtp_ptr gd') = Some (ts ! j, v')"
          using inv by (auto simp: mixed_inv_def)
        moreover have "mtp_ptr gd' \<noteq> ptr" using old(2) [OF v] g(1) by simp
        ultimately show ?thesis using False by (auto simp: n)
      qed
    qed
  qed (use b len in auto)
  ultimately show ?thesis using b by auto
qed

subsection \<open>Its destructor\<close>

lemma delete_node:
  assumes "ndata (mbase m) p = Some gd" "i < length ts" "length ts \<le> 8" "mtp_id gd = of_nat i"
    "mtp_ptr gd \<noteq> 0" "dataAt m' (mtp_ptr gd) = Some (ts ! i, v)"
  shows "deleteNodeImpl ts gd m' = Inr (m'\<lparr>dataAt := (dataAt m')(mtp_ptr gd := None)\<rparr>)"
  using mtp_apply_at [OF assms(2-4), of deallocateNodeData m'] assms(5,6)
  by (simp add: deleteNodeImpl_def mtp_apply_def deallocateNodeData_def)

lemma destroyAllNodeData_ok:
  assumes inv: "mixed_inv ts m"
  shows "destroyAllNodeData ts m = Inr (m\<lparr>dataAt := (\<lambda>_. None)\<rparr>)"
proof -
  let ?g = "mbase m"
  let ?at = "\<lambda>p. mtp_ptr (the (ndata ?g p))"
  let ?del = "\<lambda>ys. m\<lparr>dataAt := (\<lambda>a. if a \<in> ?at ` set ys then None else dataAt m a)\<rparr>"
  have wf: "wf_dag ?g" using inv by (simp add: mixed_inv_def)
  let ?f = "\<lambda>p (g, m). rbind (nodeData g p) (\<lambda>gd. rbind (deleteNodeImpl ts gd m) (\<lambda>m'. Inr (g, m')))"
  have "\<exists>t. for_each ?f (mAllNodes ?g) (?g, m) = Inr t \<and> t = (?g, ?del (mAllNodes ?g))"
  proof (rule for_each_rule)
    fix ys y zs t assume ys: "mAllNodes ?g = ys @ y # zs" and t: "t = (?g, ?del ys)"
    have y: "y \<in> verts ?g" "y \<notin> set ys" "set ys \<subseteq> verts ?g"
      using ys wf by (auto simp: wf_dag_def verts_def)
    then obtain gd i v where gd: "ndata ?g y = Some gd" "i < length ts" "mtp_id gd = of_nat i"
      "mtp_ptr gd \<noteq> 0" "dataAt m (mtp_ptr gd) = Some (ts ! i, v)"
      using inv by (auto simp: mixed_inv_def)
    have "?at y \<notin> ?at ` set ys"
      using inv y by (auto simp: mixed_inv_def inj_on_def)
    then have "dataAt (?del ys) (mtp_ptr gd) = Some (ts ! i, v)" using gd by auto
    then have "deleteNodeImpl ts gd (?del ys) = Inr (?del (ys @ [y]))"
      using delete_node [of m y gd i ts "?del ys" v] inv gd
      by (auto simp: mixed_inv_def fun_eq_iff intro!: arg_cong [where f = "\<lambda>d. m\<lparr>dataAt := d\<rparr>"])
    moreover have "nodeData ?g y = Inr gd"
      using gd(1) by (auto simp: nodeData_def ndata_def deref_def)
    ultimately show "\<exists>t'. ?f y t = Inr t' \<and> t' = (?g, ?del (ys @ [y]))"
      unfolding t by simp
  qed simp
  moreover have "(\<lambda>a. if a \<in> ?at ` set (mAllNodes ?g) then None else dataAt m a) = (\<lambda>_. None)"
    using inv by (auto simp: mixed_inv_def verts_def fun_eq_iff dom_def)
  moreover have "0 \<notin> verts (fst (?g, m))" using wf by (simp add: wf_dag_def)
  ultimately show ?thesis
    using forEachNode_eq [of "(?g, m)" ?f] by (simp add: destroyAllNodeData_def)
qed

text \<open>
  C8: the destructor of a \<open>MixedTaskDag\<close> releases the data of every node exactly once and through
  the allocator of its type, and destroys every node: nothing is left and nothing fails.
\<close>

theorem mixed_destroy_releases_all:
  assumes "mixed_inv ts m"
  shows "mixed_destroy ts m =
    Inr (m\<lparr>mbase := (mbase m)\<lparr>mAllNodes := [], nodeAt := (\<lambda>_. None)\<rparr>, dataAt := (\<lambda>_. None)\<rparr>)"
proof -
  have "wf_dag (mbase m)" using assms by (simp add: mixed_inv_def)
  from dag_clear_ok [OF this] have "destroyAllNodes (mbase m) =
      Inr ((mbase m)\<lparr>mAllNodes := [], nodeAt := (\<lambda>_. None)\<rparr>)" by (simp add: dag_clear_def)
  then show ?thesis
    using destroyAllNodeData_ok [OF assms] by (simp add: mixed_destroy_def)
qed

definition mixed_empty :: "node_kind \<Rightarrow> ('t, 'v) mixed" where
  "mixed_empty k = \<lparr>mbase = dag_empty k, dataAt = (\<lambda>_. None)\<rparr>"

lemma mixed_inv_empty: "length ts \<le> 8 \<Longrightarrow> mixed_inv ts (mixed_empty k)"
  by (simp add: mixed_inv_def mixed_empty_def wf_dag_empty) (simp add: dag_empty_def verts_def)

theorem mixed_destroy_releases_all_witness:
  "\<exists>m m' :: (string, nat) mixed. mixed_addNode [''Cpu'', ''Gpu''] 4096 1 ''Gpu'' 7 (mixed_empty NodeInOut) = Inr (1, m) \<and>
     mixed_destroy [''Cpu'', ''Gpu''] m = Inr m' \<and> dataAt m 4096 = Some (''Gpu'', 7) \<and> dataAt m' 4096 = None"
proof -
  have "mixed_inv [''Cpu'', ''Gpu''] (mixed_empty NodeInOut :: (string, nat) mixed)"
    by (rule mixed_inv_empty) simp
  then have "\<exists>m' :: (string, nat) mixed. mixed_addNode [''Cpu'', ''Gpu''] 4096 1 ''Gpu'' 7 (mixed_empty NodeInOut) =
      Inr (1, m') \<and> mixed_inv [''Cpu'', ''Gpu''] m' \<and>
      verts (mbase m') = insert 1 (verts (mbase (mixed_empty NodeInOut :: (string, nat) mixed))) \<and>
      edges (mbase m') = edges (mbase (mixed_empty NodeInOut :: (string, nat) mixed)) \<and>
      dataAt m' = (dataAt (mixed_empty NodeInOut))(4096 \<mapsto> (''Gpu'', 7))"
    by (rule mixed_addNode_inv)
      (simp_all add: mixed_empty_def dag_empty_def verts_def PTR_MASK_def MAX_TYPES_def)
  then obtain m :: "(string, nat) mixed" where
    m: "mixed_addNode [''Cpu'', ''Gpu''] 4096 1 ''Gpu'' 7 (mixed_empty NodeInOut) = Inr (1, m)"
      "mixed_inv [''Cpu'', ''Gpu''] m" "dataAt m 4096 = Some (''Gpu'', 7)"
    by auto
  with mixed_destroy_releases_all [OF m(2)] show ?thesis by auto
qed

text \<open>\<open>clear\<close> destroys the nodes but releases none of their data.\<close>

lemma mixed_clear_leaks:
  assumes "mixed_inv ts m"
  shows "\<exists>m'. mixed_clear m = Inr m' \<and> mAllNodes (mbase m') = [] \<and> dataAt m' = dataAt m"
proof -
  have "wf_dag (mbase m)" using assms by (simp add: mixed_inv_def)
  from dag_clear_ok [OF this] show ?thesis by (simp add: mixed_clear_def)
qed

section \<open>DAGmanager\<close>

text \<open>\<open>liveDAGs\<close> gives the identifier a live graph was constructed with; 0 is the null pointer.\<close>

record dagmgr =
  mDAGmap :: "addr list"
  liveDAGs :: "addr \<Rightarrow> nat option"

definition mgr_empty :: dagmgr where
  "mgr_empty = \<lparr>mDAGmap = [], liveDAGs = (\<lambda>_. None)\<rparr>"

definition genID :: "dagmgr \<Rightarrow> nat \<times> dagmgr" where
  "genID m = (length (mDAGmap m), m\<lparr>mDAGmap := mDAGmap m @ [0]\<rparr>)"

definition allocDAG :: "addr \<Rightarrow> addr res" where
  "allocDAG d = rbind (check (d \<noteq> 0) ''node allocation failed'') (\<lambda>_. Inr d)"

definition freeDAG :: "addr \<Rightarrow> dagmgr \<Rightarrow> dagmgr res" where
  "freeDAG d m = rbind (check (d \<noteq> 0) ''arg must be non-null'') (\<lambda>_.
     case liveDAGs m d of None \<Rightarrow> Inl (Undefined ''release of a dead graph'')
     | Some _ \<Rightarrow> Inr (m\<lparr>liveDAGs := (liveDAGs m)(d := None)\<rparr>))"

definition destroyAllDAGs :: "dagmgr \<Rightarrow> dagmgr res" where
  "destroyAllDAGs m = rbind (for_each (\<lambda>d m. if d \<noteq> 0 then freeDAG d m else Inr m) (mDAGmap m) m)
     (\<lambda>m'. Inr (m'\<lparr>mDAGmap := []\<rparr>))"

definition makeDAG_id :: "addr \<Rightarrow> dagmgr \<Rightarrow> (addr \<times> dagmgr) res" where
  "makeDAG_id a m = (case genID m of (i, m') \<Rightarrow> rbind (allocDAG a) (\<lambda>d.
     Inr (d, m'\<lparr>mDAGmap := (mDAGmap m')[i := d], liveDAGs := (liveDAGs m')(d \<mapsto> i)\<rparr>)))"

text \<open>Without identifiers the graph is constructed but not recorded in \<open>mDAGmap\<close>.\<close>

definition makeDAG_noid :: "addr \<Rightarrow> dagmgr \<Rightarrow> (addr \<times> dagmgr) res" where
  "makeDAG_noid a m = rbind (allocDAG a) (\<lambda>d. Inr (d, m\<lparr>liveDAGs := (liveDAGs m)(d \<mapsto> 0)\<rparr>))"

definition destroyDAG_id :: "addr \<Rightarrow> dagmgr \<Rightarrow> dagmgr res" where
  "destroyDAG_id d m = rbind (check (d \<noteq> 0) ''arg must be non-null'') (\<lambda>_.
     case liveDAGs m d of None \<Rightarrow> Inl (Undefined ''dead graph'')
     | Some i \<Rightarrow> rbind (freeDAG d m) (\<lambda>m'.
         if i < length (mDAGmap m') then Inr (m'\<lparr>mDAGmap := (mDAGmap m')[i := 0]\<rparr>)
         else Inl (Undefined ''index out of range'')))"

text \<open>\<open>std::remove\<close> moves the kept elements to the front; the tail keeps what it had.\<close>

definition std_remove :: "'a list \<Rightarrow> 'a \<Rightarrow> 'a list \<times> nat" where
  "std_remove xs x = (let ys = filter (\<lambda>y. y \<noteq> x) xs in (ys @ drop (length ys) xs, length ys))"

definition destroyDAG_noid :: "addr \<Rightarrow> dagmgr \<Rightarrow> dagmgr res" where
  "destroyDAG_noid d m = rbind (check (mDAGmap m \<noteq> []) ''!mDAGmap.empty()'') (\<lambda>_.
     rbind (check (d \<in> set (mDAGmap m)) ''DAG not found in DAGmanager'') (\<lambda>_.
     let (xs, i) = std_remove (mDAGmap m) d in
     rbind (if i < length xs then Inr (xs ! i) else Inl (Undefined ''end iterator'')) (\<lambda>y.
     rbind (check (y = last xs) ''*i == mDAGmap.back()'') (\<lambda>_.
     freeDAG d (m\<lparr>mDAGmap := butlast xs\<rparr>)))))"

subsection \<open>With identifiers\<close>

definition mgr_inv :: "dagmgr \<Rightarrow> bool" where
  "mgr_inv m \<longleftrightarrow> 0 \<notin> dom (liveDAGs m) \<and>
     (\<forall>d i. liveDAGs m d = Some i \<longleftrightarrow> i < length (mDAGmap m) \<and> mDAGmap m ! i = d \<and> d \<noteq> 0)"

lemma makeDAG_id_inv:
  assumes "mgr_inv m" "d \<noteq> 0" "liveDAGs m d = None"
  shows "\<exists>m'. makeDAG_id d m = Inr (d, m') \<and> mgr_inv m' \<and> dom (liveDAGs m') = insert d (dom (liveDAGs m))"
proof -
  let ?n = "length (mDAGmap m)"
  let ?m = "m\<lparr>mDAGmap := mDAGmap m @ [d], liveDAGs := (liveDAGs m)(d \<mapsto> ?n)\<rparr>"
  have n: "\<not> (i < ?n \<and> mDAGmap m ! i = d)" for i
    using assms unfolding mgr_inv_def by (metis option.distinct(1))
  have "mgr_inv ?m"
    unfolding mgr_inv_def
  proof (intro conjI allI)
    fix e i
    show "liveDAGs ?m e = Some i \<longleftrightarrow> i < length (mDAGmap ?m) \<and> mDAGmap ?m ! i = e \<and> e \<noteq> 0"
    proof (cases "e = d")
      case True
      then show ?thesis using assms(2) n [of i] by (auto simp: nth_append less_Suc_eq)
    next
      case False
      then have "liveDAGs ?m e = Some i \<longleftrightarrow> i < ?n \<and> mDAGmap m ! i = e \<and> e \<noteq> 0"
        using assms(1) by (simp add: mgr_inv_def)
      with False show ?thesis by (auto simp: nth_append less_Suc_eq)
    qed
  qed (use assms in \<open>auto simp: mgr_inv_def\<close>)
  moreover have "makeDAG_id d m = Inr (d, ?m)"
    using assms(2) by (simp add: makeDAG_id_def genID_def allocDAG_def)
  ultimately show ?thesis by auto
qed

lemma destroyDAG_id_inv:
  assumes inv: "mgr_inv m" and d: "d \<in> dom (liveDAGs m)"
  shows "\<exists>m'. destroyDAG_id d m = Inr m' \<and> mgr_inv m' \<and> dom (liveDAGs m') = dom (liveDAGs m) - {d}"
proof -
  obtain i where i: "liveDAGs m d = Some i" using d by blast
  then have li: "i < length (mDAGmap m)" "mDAGmap m ! i = d" "d \<noteq> 0" using inv by (auto simp: mgr_inv_def)
  let ?m = "m\<lparr>mDAGmap := (mDAGmap m)[i := 0], liveDAGs := (liveDAGs m)(d := None)\<rparr>"
  have "mgr_inv ?m"
    unfolding mgr_inv_def
  proof (intro conjI allI)
    fix e j
    have L: "liveDAGs m e = Some j \<longleftrightarrow> j < length (mDAGmap m) \<and> mDAGmap m ! j = e \<and> e \<noteq> 0"
      "liveDAGs m d = Some j \<longleftrightarrow> j < length (mDAGmap m) \<and> mDAGmap m ! j = d \<and> d \<noteq> 0"
      using inv by (simp_all add: mgr_inv_def)
    show "liveDAGs ?m e = Some j \<longleftrightarrow> j < length (mDAGmap ?m) \<and> mDAGmap ?m ! j = e \<and> e \<noteq> 0"
      using L li i by (cases "e = d"; cases "i = j") (auto simp: nth_list_update)
  qed (use inv in \<open>auto simp: mgr_inv_def\<close>)
  moreover have "destroyDAG_id d m = Inr ?m"
    using i li by (simp add: destroyDAG_id_def freeDAG_def)
  ultimately show ?thesis by auto
qed

text \<open>The destructor releases every live graph once; a second release would be undefined.\<close>

lemma destroyAllDAGs_ok:
  assumes inv: "mgr_inv m"
  shows "destroyAllDAGs m = Inr mgr_empty"
proof -
  let ?f = "\<lambda>d m. if d \<noteq> 0 then freeDAG d m else Inr m"
  have live: "liveDAGs m d \<noteq> None \<longleftrightarrow> d \<in> set (mDAGmap m) \<and> d \<noteq> 0" for d
    using inv unfolding mgr_inv_def by (metis in_set_conv_nth option.exhaust option.distinct(1))
  have once: "i = j" if "i < length (mDAGmap m)" "j < length (mDAGmap m)" "mDAGmap m ! i = mDAGmap m ! j"
    "mDAGmap m ! i \<noteq> 0" for i j
    using inv that unfolding mgr_inv_def by (metis option.inject)
  have "\<exists>t. for_each ?f (mDAGmap m) m = Inr t \<and>
      t = m\<lparr>liveDAGs := (\<lambda>d. if d \<in> set (mDAGmap m) then None else liveDAGs m d)\<rparr>"
  proof (rule for_each_rule)
    fix ys y zs t assume ys: "mDAGmap m = ys @ y # zs"
      and t: "t = m\<lparr>liveDAGs := (\<lambda>d. if d \<in> set ys then None else liveDAGs m d)\<rparr>"
    show "\<exists>t'. ?f y t = Inr t' \<and>
      t' = m\<lparr>liveDAGs := (\<lambda>d. if d \<in> set (ys @ [y]) then None else liveDAGs m d)\<rparr>"
    proof (cases "y = 0")
      case True
      then have "liveDAGs m y = None" using live [of y] by auto
      then have "(\<lambda>d. if d \<in> set (ys @ [y]) then None else liveDAGs m d) =
          (\<lambda>d. if d \<in> set ys then None else liveDAGs m d)" by auto
      then show ?thesis using True t by simp
    next
      case False
      have "y \<notin> set ys"
      proof
        assume "y \<in> set ys"
        then obtain k where "k < length ys" "ys ! k = y" by (auto simp: in_set_conv_nth)
        then show False using once [of k "length ys"] False ys by (simp add: nth_append)
      qed
      moreover obtain i where "liveDAGs m y = Some i" using live [of y] False ys by auto
      ultimately show ?thesis using False
        by (auto simp: freeDAG_def t fun_eq_iff)
    qed
  qed simp
  moreover have "(\<lambda>d. if d \<in> set (mDAGmap m) then None else liveDAGs m d) = (\<lambda>_. None)"
  proof
    fix d show "(if d \<in> set (mDAGmap m) then None else liveDAGs m d) = None"
      using live [of d] by (cases "liveDAGs m d") auto
  qed
  ultimately show ?thesis by (auto simp: destroyAllDAGs_def mgr_empty_def)
qed

lemma mgr_inv_empty: "mgr_inv mgr_empty"
  by (simp add: mgr_inv_def mgr_empty_def)

text \<open>
  A history of a manager: graphs are made, at the addresses the allocator answers, and destroyed. The
  graphs that live after it, if the allocator answers with addresses that are not null and not in use,
  and only live graphs are destroyed.
\<close>

datatype mgr_op = MakeDAG addr | DestroyDAG addr

fun mgr_step :: "mgr_op \<Rightarrow> dagmgr \<Rightarrow> dagmgr res" where
  "mgr_step (MakeDAG d) m = rbind (makeDAG_id d m) (\<lambda>(_, m). Inr m)"
| "mgr_step (DestroyDAG d) m = destroyDAG_id d m"

fun live_after :: "mgr_op list \<Rightarrow> addr set \<Rightarrow> addr set option" where
  "live_after [] L = Some L"
| "live_after (MakeDAG d # ops) L = (if d = 0 \<or> d \<in> L then None else live_after ops (insert d L))"
| "live_after (DestroyDAG d # ops) L = (if d \<in> L then live_after ops (L - {d}) else None)"

lemma history_ok:
  assumes "mgr_inv m" "live_after ops (dom (liveDAGs m)) = Some L"
  shows "\<exists>m'. for_each mgr_step ops m = Inr m' \<and> mgr_inv m' \<and> dom (liveDAGs m') = L"
  using assms
proof (induction ops arbitrary: m)
  case (Cons op ops)
  have "\<exists>m1. mgr_step op m = Inr m1 \<and> mgr_inv m1 \<and> live_after ops (dom (liveDAGs m1)) = Some L"
  proof (cases op)
    case (MakeDAG d)
    then have d: "d \<noteq> 0" "liveDAGs m d = None" using Cons.prems(2) by (auto simp: domIff split: if_splits)
    obtain m1 where "makeDAG_id d m = Inr (d, m1)" "mgr_inv m1" "dom (liveDAGs m1) = insert d (dom (liveDAGs m))"
      using makeDAG_id_inv [OF Cons.prems(1) d] by blast
    then show ?thesis using Cons.prems(2) by (simp add: MakeDAG split: if_splits)
  next
    case (DestroyDAG d)
    then have d: "d \<in> dom (liveDAGs m)" using Cons.prems(2) by (simp split: if_splits)
    obtain m1 where "destroyDAG_id d m = Inr m1" "mgr_inv m1" "dom (liveDAGs m1) = dom (liveDAGs m) - {d}"
      using destroyDAG_id_inv [OF Cons.prems(1) d] by blast
    then show ?thesis using Cons.prems(2) d by (simp add: DestroyDAG)
  qed
  then show ?case using Cons.IH by (metis for_each.simps(2) rbind_Inr)
qed simp

text \<open>
  C16: over any history of graphs made at unused addresses and of live graphs destroyed, a manager with
  identifiers keeps its table and the live graphs in step: no operation fails, every live graph stands in the table once, at the
  identifier it was made with, and no other entry is set. The destructor then releases every graph that
  is still live exactly once, and no other.
\<close>

theorem destroyAllDAGs_releases_all:
  assumes "live_after ops {} = Some L"
  shows "\<exists>m. for_each mgr_step ops mgr_empty = Inr m \<and> dom (liveDAGs m) = L \<and>
    (\<forall>d \<in> L. \<exists>i. liveDAGs m d = Some i \<and> {j. j < length (mDAGmap m) \<and> mDAGmap m ! j = d} = {i}) \<and>
    set (mDAGmap m) - {0} = L \<and> destroyAllDAGs m = Inr mgr_empty"
proof -
  obtain m where m: "for_each mgr_step ops mgr_empty = Inr m" "mgr_inv m" "dom (liveDAGs m) = L"
    using history_ok [OF mgr_inv_empty, of ops L] assms by (auto simp: mgr_empty_def)
  have live: "liveDAGs m d = Some i \<longleftrightarrow> i < length (mDAGmap m) \<and> mDAGmap m ! i = d \<and> d \<noteq> 0" for d i
    using m(2) by (simp add: mgr_inv_def)
  have "\<exists>i. liveDAGs m d = Some i \<and> {j. j < length (mDAGmap m) \<and> mDAGmap m ! j = d} = {i}" if d: "d \<in> L" for d
  proof -
    obtain i where i: "liveDAGs m d = Some i" using d m(3) by auto
    then have "j = i" if "j < length (mDAGmap m)" "mDAGmap m ! j = d" for j
      using that live [of d j] live [of d i] by simp
    then have "{j. j < length (mDAGmap m) \<and> mDAGmap m ! j = d} = {i}" using i live [of d i] by blast
    then show ?thesis using i by blast
  qed
  moreover have "set (mDAGmap m) - {0} = L"
    unfolding m(3) [symmetric] by (auto simp: live in_set_conv_nth dom_def)
  ultimately show ?thesis using m(1,3) destroyAllDAGs_ok [OF m(2)] by (intro exI [of _ m] conjI ballI) simp_all
qed

theorem destroyAllDAGs_releases_all_witness:
  "\<exists>m. for_each mgr_step [MakeDAG 64, MakeDAG 128, DestroyDAG 64, MakeDAG 64] mgr_empty = Inr m \<and>
     dom (liveDAGs m) = {64, 128} \<and> destroyAllDAGs m = Inr mgr_empty"
proof -
  let ?ops = "[MakeDAG 64, MakeDAG 128, DestroyDAG 64, MakeDAG 64]"
  have "{64, 128, 64} = {64, 128 :: addr}" by blast
  then have "live_after ?ops {} = Some {64, 128}" by (simp add: insert_commute)
  from destroyAllDAGs_releases_all [OF this] show ?thesis by blast
qed

subsection \<open>Without identifiers\<close>

lemma makeDAG_noid_map: "makeDAG_noid a m = Inr (d, m') \<Longrightarrow> mDAGmap m' = mDAGmap m"
  by (auto simp: makeDAG_noid_def allocDAG_def res_elims)

text \<open>
  A manager without identifiers never records a graph, so however many graphs it has made,
  \<open>destroyDAG\<close> fails on each of them.
\<close>

theorem destroyDAG_noid_fails:
  "for_each (\<lambda>a m. rbind (makeDAG_noid a m) (\<lambda>(_, m'). Inr m')) as mgr_empty = Inr m \<Longrightarrow>
     destroyDAG_noid d m = Inl (AssertFail ''!mDAGmap.empty()'')"
proof -
  let ?f = "\<lambda>a m. rbind (makeDAG_noid a m) (\<lambda>(_, m'). Inr m')"
  have "mDAGmap m0 = [] \<Longrightarrow> for_each ?f as m0 = Inr m1 \<Longrightarrow> mDAGmap m1 = []" for m0 m1
    by (induction as arbitrary: m0) (fastforce simp: rbind_eq_Inr dest: makeDAG_noid_map)+
  moreover assume "for_each ?f as mgr_empty = Inr m"
  moreover have "mDAGmap mgr_empty = []" by (simp add: mgr_empty_def)
  ultimately have "mDAGmap m = []" by blast
  then show ?thesis by (simp add: destroyDAG_noid_def)
qed

theorem destroyDAG_noid_fails_witness:
  "\<exists>m. makeDAG_noid 64 mgr_empty = Inr (64, m) \<and>
     destroyDAG_noid 64 m = Inl (AssertFail ''!mDAGmap.empty()'')"
  using destroyDAG_noid_fails [of "[64]" "\<lparr>mDAGmap = [], liveDAGs = [64 \<mapsto> 0]\<rparr>" 64]
  by (simp add: makeDAG_noid_def allocDAG_def mgr_empty_def)

end
