(* ===== verification/OutOfCore.thy ===== *)
theory OutOfCore
  imports Partition AtmiDag DagManager
begin

text \<open>
  The out-of-core executor \<open>dagee/OutOfCoreATMIexecutor.h\<close> over the GPU executor: a graph of partitions,
  each with data on the host, a slot of device data, and a graph of tasks of its own. The state holds
  what the executor owns, the host data, the task graphs by address, the device buffers, and the calls
  to the ATMI runtime.
\<close>

section \<open>State\<close>

record ooc =
  mNullKern :: gpu_kinfo
  mDAGmgr :: dagmgr
  dagAt :: "addr \<Rightarrow> gpu_task dag option"
  hostAt :: "nat \<Rightarrow> blocks option"
  devAt :: "nat \<Rightarrow> dev_data option"
  mDeviceDataSlots :: "nat list"
  buffers :: buf_world
  calls :: "event list"

record ooc_env =
  atmiE :: atmi
  bufE :: buf_env
  syncE :: bool
  walkE :: "blocks \<Rightarrow> blocks"
  newDag :: "ooc \<Rightarrow> nat"
  newDev :: "ooc \<Rightarrow> nat"

type_synonym part = "gpu_task dag partition"

definition slot_at :: "'a list \<Rightarrow> nat \<Rightarrow> 'a res" where
  "slot_at xs i = (if i < length xs then Inr (xs ! i) else Inl (Undefined ''index out of range''))"

definition dag_at :: "ooc \<Rightarrow> addr \<Rightarrow> gpu_task dag res" where
  "dag_at st d = (case dagAt st d of None \<Rightarrow> Inl (Undefined ''dead graph'') | Some g \<Rightarrow> Inr g)"

definition host_at :: "ooc \<Rightarrow> nat \<Rightarrow> blocks res" where
  "host_at st p = (case hostAt st p of None \<Rightarrow> Inl (Undefined ''dead host data'') | Some d \<Rightarrow> Inr d)"

definition dev_at :: "ooc \<Rightarrow> nat \<Rightarrow> dev_data res" where
  "dev_at st p = (case devAt st p of None \<Rightarrow> Inl (Undefined ''dead device data'') | Some d \<Rightarrow> Inr d)"

section \<open>Construction and device data\<close>

definition ooc_make :: "atmi \<Rightarrow> (nat \<Rightarrow> string) \<Rightarrow> nat \<Rightarrow> (nat \<Rightarrow> blocks option) \<Rightarrow> buf_world \<Rightarrow>
    kern_table \<times> event list \<Rightarrow> ooc \<times> kern_table" where
  "ooc_make A name nullKernel hosts bw tw = (case gpu_registerKernel A name [8] nullKernel tw of (ki, tab, w) \<Rightarrow>
     (\<lparr>mNullKern = ki, mDAGmgr = mgr_empty, dagAt = (\<lambda>_. None), hostAt = hosts, devAt = (\<lambda>_. None),
       mDeviceDataSlots = [], buffers = bw, calls = w\<rparr>, tab))"

definition freeDeviceData :: "ooc \<Rightarrow> ooc res" where
  "freeDeviceData st = rbind (for_each (\<lambda>p st. rbind (dev_at st p) (\<lambda>d.
     rbind (dev_data_destroy d (buffers st)) (\<lambda>bw. Inr (st\<lparr>devAt := (devAt st)(p := None), buffers := bw\<rparr>))))
     (mDeviceDataSlots st) st) (\<lambda>st. Inr (st\<lparr>mDeviceDataSlots := []\<rparr>))"

definition new_device_data :: "ooc_env \<Rightarrow> blocks \<Rightarrow> ooc \<Rightarrow> ooc res" where
  "new_device_data E tmpl st = rbind (dev_data_make (bufE E) (walkE E) tmpl (buffers st)) (\<lambda>(d, bw).
     let p = newDev E st in
     Inr (st\<lparr>devAt := (devAt st)(p \<mapsto> d), buffers := bw, mDeviceDataSlots := mDeviceDataSlots st @ [p]\<rparr>))"

definition makeDeviceDataBuffers :: "ooc_env \<Rightarrow> blocks \<Rightarrow> nat \<Rightarrow> ooc \<Rightarrow> ooc res" where
  "makeDeviceDataBuffers E tmpl numBuffers st =
     rbind (freeDeviceData st) (for_each (\<lambda>_. new_device_data E tmpl) [0 ..< numBuffers])"

definition numDeviceDataSlots :: "ooc \<Rightarrow> nat" where
  "numDeviceDataSlots st = length (mDeviceDataSlots st)"

text \<open>\<open>makePartitionDAG\<close>, on the manager \<open>mPartDAGmgr\<close>.\<close>

definition makePartitionDAG :: "addr \<Rightarrow> dagmgr \<Rightarrow> (addr \<times> 'g partition dag \<times> dagmgr) res" where
  "makePartitionDAG a mPartDAGmgr = rbind (makeDAG_noid a mPartDAGmgr) (\<lambda>(d, m). Inr (d, dag_empty NodeInOut, m))"

section \<open>Preparing the graph of partitions\<close>

text \<open>The callback captures the index of the next slot, the last user of each slot, and the new edges.\<close>

definition assign_slot :: "nat list \<Rightarrow> ('g partition, nat \<times> addr list \<times> (addr \<times> addr) list) visitor" where
  "assign_slot slots partNode = (\<lambda>(g, index, prevUser, newEdges).
     rbind (nodeData g partNode) (\<lambda>part. rbind (slot_at slots index) (\<lambda>s.
     rbind (set_nodeData partNode (part\<lparr>mDeviceData := s\<rparr>) g) (\<lambda>g.
     rbind (slot_at prevUser index) (\<lambda>u.
     let newEdges = if u \<noteq> 0 then newEdges @ [(u, partNode)] else newEdges;
         prevUser = prevUser[index := partNode];
         index = (index + 1) mod length slots in
     Inr (g, index, prevUser, newEdges))))))"

definition assignDeviceDataSlots :: "nat list \<Rightarrow> 'g partition dag \<Rightarrow> 'g partition dag res option" where
  "assignDeviceDataSlots slots partDAG =
     obind (forEachNode_TopoOrder (assign_slot slots) (partDAG, 0, replicate (length slots) 0, []))
       (\<lambda>(g, _, _, newEdges). Some (for_each (\<lambda>(a, b). addEdgeIfAbsent a b) newEdges g))"

text \<open>\<open>ATMIdagExecutor::makeDAG\<close>, on the manager without identifiers.\<close>

definition makeDAG :: "ooc_env \<Rightarrow> ooc \<Rightarrow> (addr \<times> ooc) res" where
  "makeDAG E st = rbind (makeDAG_noid (newDag E st) (mDAGmgr st)) (\<lambda>(d, m).
     Inr (d, st\<lparr>mDAGmgr := m, dagAt := (dagAt st)(d \<mapsto> dag_empty NodeInOut)\<rparr>))"

definition fill_partition :: "ooc_env \<Rightarrow> (part, ooc) visitor" where
  "fill_partition E partNode = (\<lambda>(g, st). rbind (nodeData g partNode) (\<lambda>part.
     rbind (makeDAG E st) (\<lambda>(d, st). rbind (dag_at st d) (\<lambda>td.
     rbind (fillDAG d td part) (\<lambda>(part, td).
     rbind (set_nodeData partNode part g) (\<lambda>g. Inr (g, st\<lparr>dagAt := (dagAt st)(d \<mapsto> td)\<rparr>)))))))"

definition makePerPartitionDAGs :: "ooc_env \<Rightarrow> part dag \<times> ooc \<Rightarrow> (part dag \<times> ooc) res" where
  "makePerPartitionDAGs E = forEachNode (fill_partition E)"

definition preparePartitionDAG :: "ooc_env \<Rightarrow> part dag \<times> ooc \<Rightarrow> (part dag \<times> ooc) res option" where
  "preparePartitionDAG E = (\<lambda>(partDAG, st). obind (assignDeviceDataSlots (mDeviceDataSlots st) partDAG)
     (\<lambda>g. Some (makePerPartitionDAGs E (g, st))))"

section \<open>The tasks of a partition\<close>

definition collectPredHandles :: "part dag \<Rightarrow> addr \<Rightarrow> nat list res" where
  "collectPredHandles partDAG node = rbind (predecessors partDAG node) (\<lambda>ps.
     for_each (\<lambda>n hs. rbind (nodeData partDAG n) (\<lambda>d. rbind (task_handle (mSinkTask d)) (\<lambda>h. Inr (hs @ [h])))) ps [])"

definition nullptr_arg :: arg where
  "nullptr_arg = \<lparr>argSz = 8, argAlign = 8, argBytes = replicate 8 0\<rparr>"

definition makeNullTask :: "ooc_env \<Rightarrow> gpu_kinfo \<Rightarrow> nat list \<Rightarrow> event list \<Rightarrow> (nat \<times> event list) res" where
  "makeNullTask E nullKern predHandles w =
     rbind (gpu_makeTask (1, 1, 1) (1, 1, 1) nullKern [nullptr_arg]) (\<lambda>ki.
     Inr (gpu_makeInternalTask (atmiE E) (syncE E) ki predHandles w))"

definition makeMemCpyTasks :: "ooc_env \<Rightarrow> gpu_kinfo \<Rightarrow> nat \<times> blocks \<Rightarrow> nat \<times> blocks \<Rightarrow> nat \<Rightarrow> event list \<Rightarrow>
    (nat \<times> event list) res" where
  "makeMemCpyTasks E nullKern dst src predTask w =
     rbind (check (fst dst \<noteq> 0) ''dst ptr null'') (\<lambda>_. rbind (check (fst src \<noteq> 0) ''src ptr null'') (\<lambda>_.
     rbind (check (fst src \<noteq> fst dst) ''source and destination of memcpy cannot be same'') (\<lambda>_.
     rbind (check (numBlocks (snd src) = numBlocks (snd dst)) ''src and dst must have equal numBlocks'') (\<lambda>_.
     rbind (for_each (\<lambda>i (memTasks, w). rbind (blkPtr (varName i) (snd dst)) (\<lambda>d.
         let cparm = initCopyParam\<lparr>requires_arr := [predTask], num_required := 1\<rparr>; th = hnd (atmiE E) w in
         Inr (memTasks @ [th], w @ [MemcpyAsync th cparm d (blkPtr_at i) (blkSz i)])))
       (walkE E (snd src)) ([], w)) (\<lambda>(memTasks, w).
     makeNullTask E nullKern memTasks w)))))"

definition dag_task :: "ooc_env \<Rightarrow> nat \<Rightarrow> (gpu_task, event list \<times> nat list) visitor" where
  "dag_task E memCpySink task = (\<lambda>(g, w, sinkHandles).
     rbind (isSrc g task) (\<lambda>s.
     rbind (if s then Inr [memCpySink] else rbind (predecessors g task) (collectPreds gpuTaskHandle g)) (\<lambda>predHandles.
     rbind (nodeData g task) (\<lambda>tdata.
     case gpu_makeInternalTask (atmiE E) (syncE E) tdata predHandles w of (h, w) \<Rightarrow>
     rbind (set_nodeData task (put_gpu h tdata) g) (\<lambda>g.
     rbind (isSink g task) (\<lambda>k. Inr (g, w, if k then sinkHandles @ [h] else sinkHandles)))))))"

definition makeDAGtasks :: "ooc_env \<Rightarrow> gpu_kinfo \<Rightarrow> gpu_task dag \<Rightarrow> nat \<Rightarrow> event list \<Rightarrow>
    (nat \<times> gpu_task dag \<times> event list) res option" where
  "makeDAGtasks E nullKern dag memCpySink w =
     obind (forEachNode_TopoOrder (dag_task E memCpySink) (dag, w, [])) (\<lambda>(dag, w, sinkHandles).
     Some (rbind (makeNullTask E nullKern sinkHandles w) (\<lambda>(h, w). Inr (h, dag, w))))"

text \<open>The state of the loop over the partitions: the graph, the executor, all sources and all sinks.\<close>

definition makeTasksForPartition :: "ooc_env \<Rightarrow> addr \<Rightarrow> part dag \<times> ooc \<times> nat list \<times> nat list \<Rightarrow>
    (part dag \<times> ooc \<times> nat list \<times> nat list) res option" where
  "makeTasksForPartition E pNode = (\<lambda>(g, st, allSources, allSinks).
     obind (Some (
       rbind (isSrc g pNode) (\<lambda>isSrc. rbind (nodeData g pNode) (\<lambda>part.
       rbind (if \<not> isSrc then collectPredHandles g pNode else Inr []) (\<lambda>preds.
       rbind (makeNullTask E (mNullKern st) preds (calls st)) (\<lambda>(s, w).
       let part = part\<lparr>mSrcTask := Some s\<rparr>; allSources = if isSrc then allSources @ [s] else allSources in
       rbind (dev_at st (mDeviceData part)) (\<lambda>dev. rbind (host_at st (mHostData part)) (\<lambda>host.
       rbind (makeMemCpyTasks E (mNullKern st) (mDeviceData part, devBlocks dev) (mHostData part, host) s w) (\<lambda>(memCpySink, w).
       rbind (dag_at st (mDAGptr part)) (\<lambda>td. Inr (part, dev, host, td, allSources, memCpySink, w)))))))))))
     (\<lambda>(part, dev, host, td, allSources, memCpySink, w).
     obind (makeDAGtasks E (mNullKern st) td memCpySink w) (\<lambda>(dagSink, td, w).
     Some (
       rbind (makeMemCpyTasks E (mNullKern st) (mHostData part, host) (mDeviceData part, devBlocks dev) dagSink w) (\<lambda>(k, w).
       rbind (set_nodeData pNode (part\<lparr>mSinkTask := Some k\<rparr>) g) (\<lambda>g.
       rbind (isSink g pNode) (\<lambda>isSink.
       Inr (g, st\<lparr>calls := w, dagAt := (dagAt st)(mDAGptr part \<mapsto> td)\<rparr>, allSources,
         if isSink then allSinks @ [k] else allSinks))))))))"

definition executePartitionDAG :: "ooc_env \<Rightarrow> part dag \<times> ooc \<Rightarrow> (part dag \<times> ooc) res option" where
  "executePartitionDAG E = (\<lambda>(partDAG, st).
     obind (ofor_each (\<lambda>p s. obind (Some (check (p \<noteq> 0) ''found null node in mAllNodes'')) (\<lambda>_.
         makeTasksForPartition E p s)) (mAllNodes partDAG) (partDAG, st, [], []))
       (\<lambda>(g, st, sources, sinks).
     Some (Inr (g, st\<lparr>calls := waitOnTasks sinks (activateTasks sources (calls st))\<rparr>))))"

end
