(* ===== verification/Stages.thy ===== *)
theory Stages
  imports OutOfCore
begin

text \<open>
  Pieces of a schedule. A stage is a list of tasks with one entry and one exit: every task of it waits,
  directly or not, for the entry task, and the exit waits for all of them. Stages compose.
\<close>

type_synonym task = "nat \<times> nat list \<times> bool"

definition closed_under :: "task list \<Rightarrow> nat set \<Rightarrow> bool" where
  "closed_under ts F \<longleftrightarrow> (\<forall>(h, ps, b) \<in> set ts. h \<in> F \<longrightarrow> set ps \<subseteq> F)"

definition triggers :: "task list \<Rightarrow> nat set \<Rightarrow> bool" where
  "triggers ts R \<longleftrightarrow> (\<forall>(h, ps, b) \<in> set ts. ps \<noteq> [] \<and> set ps \<subseteq> R \<longrightarrow> h \<in> R)"

definition handles_of :: "task list \<Rightarrow> nat set" where
  "handles_of ts = fst ` set ts"

lemma closed_under_append [simp]: "closed_under (xs @ ys) F \<longleftrightarrow> closed_under xs F \<and> closed_under ys F"
  by (simp add: closed_under_def ball_Un)

lemma closed_under_Cons [simp]: "closed_under (t # ts) F \<longleftrightarrow> (fst t \<in> F \<longrightarrow> set (fst (snd t)) \<subseteq> F) \<and> closed_under ts F"
  by (cases t) (simp add: closed_under_def)

lemma triggers_append [simp]: "triggers (xs @ ys) F \<longleftrightarrow> triggers xs F \<and> triggers ys F"
  by (simp add: triggers_def ball_Un)

lemma triggers_Cons [simp]:
  "triggers (t # ts) R \<longleftrightarrow> (fst (snd t) \<noteq> [] \<and> set (fst (snd t)) \<subseteq> R \<longrightarrow> fst t \<in> R) \<and> triggers ts R"
  by (cases t) (simp add: triggers_def)

lemma handles_of_simps [simp]:
  "handles_of [] = {}" "handles_of (t # ts) = insert (fst t) (handles_of ts)"
  "handles_of (xs @ ys) = handles_of xs \<union> handles_of ys"
  by (auto simp: handles_of_def)

definition stage :: "task list \<Rightarrow> nat \<Rightarrow> nat \<Rightarrow> bool" where
  "stage ts p k \<longleftrightarrow> k \<in> handles_of ts \<and>
     (\<forall>F. closed_under ts F \<and> k \<in> F \<longrightarrow> handles_of ts \<subseteq> F) \<and>
     (\<forall>F. closed_under ts F \<and> handles_of ts \<inter> F \<noteq> {} \<longrightarrow> p \<in> F) \<and>
     (\<forall>R. triggers ts R \<and> p \<in> R \<longrightarrow> handles_of ts \<subseteq> R)"

lemma stage_append:
  assumes "stage xs p q" "stage ys q k"
  shows "stage (xs @ ys) p k"
proof -
  have k: "k \<in> handles_of ys" "q \<in> handles_of xs" using assms by (auto simp: stage_def)
  have up: "handles_of xs \<union> handles_of ys \<subseteq> F" if "closed_under xs F" "closed_under ys F" "k \<in> F" for F
  proof -
    have y: "handles_of ys \<subseteq> F" using assms(2) that unfolding stage_def by blast
    then have "q \<in> F" using assms(2) that k unfolding stage_def by blast
    then show ?thesis using assms(1) that y unfolding stage_def by blast
  qed
  have st: "p \<in> F" if "closed_under xs F" "closed_under ys F" "(handles_of xs \<union> handles_of ys) \<inter> F \<noteq> {}" for F
  proof (cases "handles_of xs \<inter> F = {}")
    case True
    then have "q \<in> F" using assms(2) that unfolding stage_def by blast
    then show ?thesis using True k by blast
  next
    case False
    then show ?thesis using assms(1) that unfolding stage_def by blast
  qed
  have rn: "handles_of xs \<union> handles_of ys \<subseteq> R" if "triggers xs R" "triggers ys R" "p \<in> R" for R
  proof -
    have "handles_of xs \<subseteq> R" using assms(1) that unfolding stage_def by blast
    then show ?thesis using assms(2) that k unfolding stage_def by blast
  qed
  show ?thesis unfolding stage_def
    by (intro conjI allI impI) (use k up st rn in auto)
qed

text \<open>Tasks that all wait for the entry, and a task that waits for all of them.\<close>

lemma stage_fan:
  assumes "hs \<noteq> []"
  shows "stage (map (\<lambda>h. (h, [p], b)) hs @ [(k, hs, b')]) p k"
proof -
  let ?ts = "map (\<lambda>h. (h, [p], b)) hs"
  have h: "handles_of ?ts = set hs" by (simp add: handles_of_def image_image)
  have c: "closed_under ?ts F \<longleftrightarrow> (set hs \<inter> F \<noteq> {} \<longrightarrow> p \<in> F)" for F by (auto simp: closed_under_def)
  have t: "triggers ?ts R \<longleftrightarrow> (p \<in> R \<longrightarrow> set hs \<subseteq> R)" for R by (auto simp: triggers_def)
  show ?thesis unfolding stage_def using assms by (auto simp: h c t) (metis last_in_set subsetD IntI empty_iff)+
qed

section \<open>The tasks of a graph as a stage\<close>

lemma dag_induct [consumes 2]:
  assumes "task_dag g" "p \<in> verts g"
    and step: "\<And>p. p \<in> verts g \<Longrightarrow> (\<And>a. (a, p) \<in> edges g \<Longrightarrow> P a) \<Longrightarrow> P p"
  shows "P p"
proof -
  have V: "edges g \<subseteq> verts g \<times> verts g" "finite (edges g)"
    using assms(1) by (auto simp: task_dag_def wf_dag_def verts_def intro: finite_subset)
  then have "wf (edges g)" using assms(1) by (simp add: finite_acyclic_wf task_dag_def)
  then have "p \<in> verts g \<longrightarrow> P p" by (induction p rule: wf_induct_rule) (use step V(1) in blast)
  then show ?thesis using assms(2) by blast
qed

lemma dag_induct_back [consumes 2]:
  assumes "task_dag g" "p \<in> verts g"
    and step: "\<And>p. p \<in> verts g \<Longrightarrow> (\<And>b. (p, b) \<in> edges g \<Longrightarrow> P b) \<Longrightarrow> P p"
  shows "P p"
proof -
  have V: "edges g \<subseteq> verts g \<times> verts g" "finite (edges g)"
    using assms(1) by (auto simp: task_dag_def wf_dag_def verts_def intro: finite_subset)
  then have "wf ((edges g)\<inverse>)" using assms(1) by (simp add: finite_acyclic_wf_converse task_dag_def)
  then have "p \<in> verts g \<longrightarrow> P p" by (induction p rule: wf_induct_rule) (use step V(1) in blast)
  then show ?thesis using assms(2) by blast
qed

lemma ex_source: "task_dag g \<Longrightarrow> p \<in> verts g \<Longrightarrow> \<exists>s \<in> verts g. is_source g s"
  by (induction p rule: dag_induct) (auto simp: is_source_def)

lemma ex_sink: "task_dag g \<Longrightarrow> p \<in> verts g \<Longrightarrow> \<exists>s \<in> verts g. is_sink g s"
  by (induction p rule: dag_induct_back) (auto simp: is_sink_def)

definition graph_tasks :: "'d dag \<Rightarrow> addr list \<Rightarrow> (addr \<Rightarrow> nat) \<Rightarrow> nat \<Rightarrow> task list" where
  "graph_tasks g vis h m = map (\<lambda>p. (h p, if is_source g p then [m] else map h (preds g p), True)) vis"

lemma preds_edges: "task_dag g \<Longrightarrow> p \<in> verts g \<Longrightarrow> set (preds g p) = {a. (a, p) \<in> edges g}"
  using edges_pred [of g p] by (auto simp: task_dag_def)

lemma edges_verts: "task_dag g \<Longrightarrow> (a, b) \<in> edges g \<Longrightarrow> a \<in> verts g \<and> b \<in> verts g"
  by (auto simp: task_dag_def wf_dag_def)

lemma graph_closed:
  assumes "task_dag g" "set vis = verts g"
  shows "closed_under (graph_tasks g vis h m) F \<longleftrightarrow>
    (\<forall>p \<in> verts g. h p \<in> F \<longrightarrow> (if is_source g p then m \<in> F else \<forall>a. (a, p) \<in> edges g \<longrightarrow> h a \<in> F))"
  using preds_edges [OF assms(1)] assms(2) by (auto simp: closed_under_def graph_tasks_def image_subset_iff)

lemma graph_triggers:
  assumes "task_dag g" "set vis = verts g"
  shows "triggers (graph_tasks g vis h m) R \<longleftrightarrow>
    (\<forall>p \<in> verts g. (if is_source g p then m \<in> R else \<forall>a. (a, p) \<in> edges g \<longrightarrow> h a \<in> R) \<longrightarrow> h p \<in> R)"
proof -
  have "preds g p \<noteq> []" if "p \<in> verts g" "\<not> is_source g p" for p
    using source_preds [OF assms(1) that(1)] that(2) by simp
  then show ?thesis using preds_edges [OF assms(1)] assms(2) by (auto simp: triggers_def graph_tasks_def image_subset_iff)
qed

lemma stage_graph:
  assumes g: "task_dag g" and v: "set vis = verts g" "verts g \<noteq> {}"
  shows "stage (graph_tasks g vis h m @ [(k, map h (filter (is_sink g) vis), True)]) m k"
proof -
  let ?ts = "graph_tasks g vis h m" and ?snk = "map h (filter (is_sink g) vis)"
  have H: "handles_of ?ts = h ` verts g" by (simp add: handles_of_def graph_tasks_def image_image v(1))
  have S: "set ?snk = h ` {p \<in> verts g. is_sink g p}" using v(1) by auto
  obtain p0 where p0: "p0 \<in> verts g" using v(2) by blast
  have snk: "?snk \<noteq> []" using ex_sink [OF g p0] v(1) by (auto simp: filter_empty_conv)
  note C = graph_closed [OF g v(1), of h m]
  note T = graph_triggers [OF g v(1), of h m]
  have up: "h p \<in> F" if "closed_under ?ts F" "set ?snk \<subseteq> F" "p \<in> verts g" for F p
    using g that(3)
  proof (induction p rule: dag_induct_back)
    case (1 p)
    show ?case
    proof (cases "is_sink g p")
      case True
      then show ?thesis using that(2) 1 S by blast
    next
      case False
      then obtain b where b: "(p, b) \<in> edges g" by (auto simp: is_sink_def)
      then have "h b \<in> F" "b \<in> verts g" "\<not> is_source g b" using 1 edges_verts [OF g] by (auto simp: is_source_def)
      then show ?thesis using that(1) b unfolding C by auto
    qed
  qed
  have st: "m \<in> F" if "closed_under ?ts F" "p \<in> verts g" "h p \<in> F" for F p
    using g that(2,3)
  proof (induction p rule: dag_induct)
    case (1 p)
    show ?case
    proof (cases "is_source g p")
      case True
      then show ?thesis using that(1) 1 unfolding C by auto
    next
      case False
      then obtain a where a: "(a, p) \<in> edges g" by (auto simp: is_source_def)
      then have "h a \<in> F" using that(1) 1 False unfolding C by auto
      then show ?thesis using 1 a by blast
    qed
  qed
  have rn: "h p \<in> R" if r: "triggers ?ts R" "m \<in> R" "p \<in> verts g" for R p
    using g r(3) by (induction p rule: dag_induct) (use r(1,2) in \<open>auto simp: T\<close>)
  have first: "handles_of (?ts @ [(k, ?snk, True)]) \<subseteq> F" if "closed_under (?ts @ [(k, ?snk, True)]) F" "k \<in> F" for F
    using up [of F] that by (auto simp: H)
  have second: "m \<in> F" if c: "closed_under (?ts @ [(k, ?snk, True)]) F" "handles_of (?ts @ [(k, ?snk, True)]) \<inter> F \<noteq> {}" for F
  proof (cases "k \<in> F")
    case True
    then have "h p0 \<in> F" using first [OF c(1)] p0 by (auto simp: H)
    then show ?thesis using st p0 c(1) by simp
  next
    case False
    then obtain p where "p \<in> verts g" "h p \<in> F" using c(2) by (auto simp: H)
    then show ?thesis using st c(1) by simp
  qed
  have third: "handles_of (?ts @ [(k, ?snk, True)]) \<subseteq> R" if "triggers (?ts @ [(k, ?snk, True)]) R" "m \<in> R" for R
  proof -
    have "h ` verts g \<subseteq> R" using rn [of R] that by auto
    moreover from this have "set ?snk \<subseteq> R" using S by auto
    ultimately show ?thesis using that(1) snk by (simp add: H)
  qed
  have "k \<in> handles_of (?ts @ [(k, ?snk, True)])" by simp
  with first second third show ?thesis unfolding stage_def by blast
qed

end
