(* ===== verification/PartTasks.thy ===== *)
theory PartTasks
  imports Stages
begin

text \<open>
  What the executor tells the runtime about one partition: a null task behind the predecessors, the
  copies to the device, the tasks of the partition's graph, and the copies back to the host. The last
  three are stages.
\<close>

fun copy_of :: "event \<Rightarrow> (nat \<times> nat \<times> nat) option" where
  "copy_of (MemcpyAsync h cp d s n) = Some (d, s, n)"
| "copy_of _ = None"

definition copies :: "event list \<Rightarrow> (nat \<times> nat \<times> nat) list" where
  "copies w = List.map_filter copy_of w"

lemma copies_append [simp]: "copies (v @ w) = copies v @ copies w"
  by (simp add: copies_def List.map_filter_def)

lemma copies_Nil [simp]: "copies [] = []"
  by (simp add: copies_def List.map_filter_def)

lemma copies_single: "copies [e] = (case copy_of e of None \<Rightarrow> [] | Some t \<Rightarrow> [t])"
  by (simp add: copies_def List.map_filter_def split: option.splits)

lemma gpu_call:
  "\<exists>e. gpu_makeInternalTask A sync ti ps w = (hnd A w, w @ [e]) \<and> task_of e = Some (hnd A w, ps, True) \<and> copy_of e = None"
  by (simp add: gpu_makeInternalTask_def policy_makeInternalTask_def Let_def)

lemma null_args: "\<exists>offs buf. packKernArgsCompOffset [nullptr_arg] = Inr (offs, buf)"
  by (simp add: packKernArgsCompOffset_def nullptr_arg_def argOffsetInBuff_def place_arg_def)

lemma makeNullTask_ok:
  "\<exists>e. makeNullTask E nk ps w = Inr (hnd (atmiE E) w, w @ [e]) \<and> task_of e = Some (hnd (atmiE E) w, ps, True) \<and> copy_of e = None"
proof -
  obtain offs buf where "packKernArgsCompOffset [nullptr_arg] = Inr (offs, buf)" using null_args by blast
  then show ?thesis using gpu_call [of "atmiE E" "syncE E" _ ps w] by (simp add: makeNullTask_def gpu_makeTask_def)
qed

section \<open>Copies\<close>

text \<open>The copies of the blocks of \<open>src\<close>, each to the block of the same name.\<close>

definition block_copies :: "(blocks \<Rightarrow> blocks) \<Rightarrow> blocks \<Rightarrow> blocks \<Rightarrow> (nat \<times> nat \<times> nat) list" where
  "block_copies walk dst src = map (\<lambda>i. (mPtr (the (map_of dst (varName i))), blkPtr_at i, blkSz i)) (walk src)"

definition same_blocks :: "(blocks \<Rightarrow> blocks) \<Rightarrow> nat \<times> blocks \<Rightarrow> nat \<times> blocks \<Rightarrow> bool" where
  "same_blocks walk a b \<longleftrightarrow> fst a \<noteq> 0 \<and> fst b \<noteq> 0 \<and> fst a \<noteq> fst b \<and> length (snd a) = length (snd b) \<and>
     fst ` set (snd a) = fst ` set (snd b) \<and> snd a \<noteq> [] \<and> mset (walk (snd a)) = mset (snd a) \<and> mset (walk (snd b)) = mset (snd b)"

lemma same_blocks_sym: "same_blocks walk a b \<Longrightarrow> same_blocks walk b a"
  unfolding same_blocks_def by auto

lemma makeMemCpyTasks_ok:
  assumes "same_blocks (walkE E) dst src"
  shows "\<exists>k es. makeMemCpyTasks E nk dst src p w = Inr (k, w @ es) \<and> stage (tasks es) p k \<and>
    copies es = block_copies (walkE E) (snd dst) (snd src) \<and> length (tasks es) = numBlocks (snd src) + 1"
proof -
  let ?xs = "walkE E (snd src)"
  let ?copy = "\<lambda>i (memTasks, w). rbind (blkPtr (varName i) (snd dst)) (\<lambda>d.
      let cparm = initCopyParam\<lparr>requires_arr := [p], num_required := 1\<rparr>; th = hnd (atmiE E) w in
      Inr (memTasks @ [th], w @ [MemcpyAsync th cparm d (blkPtr_at i) (blkSz i)]))"
  have names: "varName i \<in> fst ` set (snd dst)" if "i \<in> set ?xs" for i
  proof -
    have "set ?xs = set (snd src)" using assms mset_eq_setD unfolding same_blocks_def by blast
    then show ?thesis using assms that by (auto simp: same_blocks_def varName_def)
  qed
  have "\<exists>t. for_each ?copy ?xs ([], w) = Inr t \<and> (\<exists>es. t = (map fst (tasks es), w @ es) \<and> length (tasks es) = length ?xs \<and>
      tasks es = map (\<lambda>h. (h, [p], False)) (map fst (tasks es)) \<and>
      copies es = map (\<lambda>i. (mPtr (the (map_of (snd dst) (varName i))), blkPtr_at i, blkSz i)) ?xs)"
  proof (rule for_each_rule)
    fix ys y zs t
    assume xs: "?xs = ys @ y # zs" and "\<exists>es. t = (map fst (tasks es), w @ es) \<and> length (tasks es) = length ys \<and>
      tasks es = map (\<lambda>h. (h, [p], False)) (map fst (tasks es)) \<and>
      copies es = map (\<lambda>i. (mPtr (the (map_of (snd dst) (varName i))), blkPtr_at i, blkSz i)) ys"
    then obtain es where es: "t = (map fst (tasks es), w @ es)" "length (tasks es) = length ys"
      "tasks es = map (\<lambda>h. (h, [p], False)) (map fst (tasks es))"
      "copies es = map (\<lambda>i. (mPtr (the (map_of (snd dst) (varName i))), blkPtr_at i, blkSz i)) ys" by blast
    have "varName y \<in> fst ` set (snd dst)" using names xs by simp
    then obtain b where b: "map_of (snd dst) (varName y) = Some b" by (metis map_of_eq_None_iff not_Some_eq)
    let ?e = "MemcpyAsync (hnd (atmiE E) (w @ es)) (initCopyParam\<lparr>requires_arr := [p], num_required := 1\<rparr>) (mPtr b) (blkPtr_at y) (blkSz y)"
    have "?copy y t = Inr (map fst (tasks (es @ [?e])), w @ es @ [?e])"
      by (simp add: es(1) blkPtr_def b tasks_single Let_def)
    moreover have "tasks (es @ [?e]) = map (\<lambda>h. (h, [p], False)) (map fst (tasks (es @ [?e])))"
      using es(3) by (simp add: tasks_single)
    moreover have "copies (es @ [?e]) = map (\<lambda>i. (mPtr (the (map_of (snd dst) (varName i))), blkPtr_at i, blkSz i)) (ys @ [y])"
      by (simp add: es(4) copies_single b)
    moreover have "length (tasks (es @ [?e])) = length (ys @ [y])" by (simp add: es(2) tasks_single)
    ultimately show "\<exists>t'. ?copy y t = Inr t' \<and> (\<exists>es. t' = (map fst (tasks es), w @ es) \<and> length (tasks es) = length (ys @ [y]) \<and>
      tasks es = map (\<lambda>h. (h, [p], False)) (map fst (tasks es)) \<and>
      copies es = map (\<lambda>i. (mPtr (the (map_of (snd dst) (varName i))), blkPtr_at i, blkSz i)) (ys @ [y]))"
      by blast
  qed (rule exI [of _ "[]"], simp)
  then obtain es where es: "for_each ?copy ?xs ([], w) = Inr (map fst (tasks es), w @ es)" "length (tasks es) = length ?xs"
      "tasks es = map (\<lambda>h. (h, [p], False)) (map fst (tasks es))" "copies es = block_copies (walkE E) (snd dst) (snd src)"
    unfolding block_copies_def by blast
  obtain e where e: "makeNullTask E nk (map fst (tasks es)) (w @ es) = Inr (hnd (atmiE E) (w @ es), (w @ es) @ [e])"
    "task_of e = Some (hnd (atmiE E) (w @ es), map fst (tasks es), True)" "copy_of e = None"
    using makeNullTask_ok by blast
  have l: "length ?xs = length (snd src)" using assms mset_eq_length unfolding same_blocks_def by blast
  then have "map fst (tasks es) \<noteq> []" using es(2) assms by (auto simp: same_blocks_def)
  from stage_fan [OF this, of p False "hnd (atmiE E) (w @ es)" True]
  have "stage (tasks (es @ [e])) p (hnd (atmiE E) (w @ es))" using es(3) e(2) by (simp add: tasks_single)
  moreover have "makeMemCpyTasks E nk dst src p w = Inr (hnd (atmiE E) (w @ es), w @ es @ [e])"
    using assms es(1) e(1) by (simp add: makeMemCpyTasks_def same_blocks_def numBlocks_def)
  moreover have "copies (es @ [e]) = block_copies (walkE E) (snd dst) (snd src)" by (simp add: es(4) copies_single e(3))
  moreover have "length (tasks (es @ [e])) = numBlocks (snd src) + 1" using es(2) l by (simp add: tasks_single e(2) numBlocks_def)
  ultimately show ?thesis by blast
qed

section \<open>The tasks of the graph\<close>

definition dag_told :: "gpu_task dag \<Rightarrow> nat \<Rightarrow> event list \<Rightarrow> addr list \<Rightarrow> (addr \<Rightarrow> gpu_task option) \<Rightarrow> event list \<times> nat list \<Rightarrow> bool" where
  "dag_told g m w0 vis nd = (\<lambda>(w, snk). \<exists>es. w = w0 @ es \<and> tasks es = graph_tasks g vis (stored gpuTaskHandle nd) m \<and>
     copies es = [] \<and> snk = map (stored gpuTaskHandle nd) (filter (is_sink g) vis))"

lemma graph_tasks_cong:
  assumes "task_dag g" "topo_order (edges g) vis" "set vis \<subseteq> verts g" "\<forall>q \<in> set vis. h q = k q"
  shows "graph_tasks g vis h m = graph_tasks g vis k m"
  unfolding graph_tasks_def
proof (rule map_cong [OF refl])
  fix q assume q: "q \<in> set vis"
  have "set (preds g q) \<subseteq> set vis"
    using preds_edges [OF assms(1), of q] q assms(3) topo_order_pred [OF assms(2) q] by auto
  then have "map h (preds g q) = map k (preds g q)" using assms(4) by auto
  then show "(h q, if is_source g q then [m] else map h (preds g q), True) =
      (k q, if is_source g q then [m] else map k (preds g q), True)" using assms(4) q by simp
qed

lemma dag_task_ok:
  assumes g: "task_dag g"
  shows "visits_ok g (dag_task E m) (dag_told g m w0)"
  unfolding visits_ok_def
proof (intro allI impI)
  fix vis p g1 s
  assume f: "frame g g1" and d: "distinct (vis @ [p])" and v: "set (vis @ [p]) \<subseteq> verts g"
    and t: "topo_order (edges g) (vis @ [p])" and P: "dag_told g m w0 vis (ndata g1) s"
  let ?h = "stored gpuTaskHandle (ndata g1)"
  obtain w snk es where s: "s = (w, snk)" "w = w0 @ es" "tasks es = graph_tasks g vis ?h m" "copies es = []"
    "snk = map ?h (filter (is_sink g) vis)" using P by (cases s) (auto simp: dag_told_def)
  have g1: "task_dag g1" "p \<in> verts g1" using f g v by (auto simp: frame_task_dag frame_verts)
  have wf: "wf_dag g1" using g1(1) by (simp add: task_dag_def)
  have same: "is_source g1 = is_source g" "is_sink g1 = is_sink g" "preds g1 = preds g"
    using f by (auto simp: is_source_def is_sink_def frame_edges fun_eq_iff) (simp add: frame_def)
  obtain td where td: "nodeData g1 p = Inr td" using nodeData_ok [OF wf g1(2)] by blast
  let ?ps = "if is_source g p then [m] else map ?h (preds g p)"
  obtain e where e: "gpu_makeInternalTask (atmiE E) (syncE E) td ?ps w = (hnd (atmiE E) w, w @ [e])"
    "task_of e = Some (hnd (atmiE E) w, ?ps, True)" "copy_of e = None" using gpu_call by blast
  let ?H = "hnd (atmiE E) w"
  obtain g2 where g2: "set_nodeData p (put_gpu ?H td) g1 = Inr g2" "frame g1 g2" "depc g2 = depc g1"
    "ndata g2 = (ndata g1)(p \<mapsto> put_gpu ?H td)" using set_nodeData_frame [OF wf g1(2)] by blast
  have "is_sink g2 = is_sink g1" using g2(2) by (simp add: is_sink_def frame_edges fun_eq_iff)
  then have g2': "task_dag g2" "p \<in> verts g2" "is_sink g2 p = is_sink g p"
    using g1 g2(2) same by (simp_all add: frame_task_dag frame_verts)
  let ?k = "stored gpuTaskHandle (ndata g2)"
  have k: "?k p = ?H" "\<forall>q \<in> set vis. ?k q = ?h q" using d by (auto simp: g2(4) stored_def put_gpu_def)
  have vis: "topo_order (edges g) vis" "set vis \<subseteq> verts g" using t v by (simp_all add: topo_order_snoc)
  have "set (preds g p) \<subseteq> set vis" using t preds_edges [OF g, of p] v by (auto simp: topo_order_snoc)
  then have pk: "map ?k (preds g p) = map ?h (preds g p)" using k(2) by auto
  have "(if is_source g p then Inr [m] else rbind (predecessors g1 p) (collectPreds gpuTaskHandle g1)) = Inr ?ps"
    using task_dag_tests(3,4) [OF g1] collectPreds_ok [OF wf] by (simp add: same)
  then have "dag_task E m p (g1, s) = Inr (g2, w @ [e], if is_sink g p then snk @ [?H] else snk)"
    using td e(1) g2(1) g2'(3) by (simp add: dag_task_def s(1) task_dag_tests [OF g1] task_dag_tests [OF g2'(1,2)] same)
  moreover have "dag_told g m w0 (vis @ [p]) (ndata g2) (w @ [e], if is_sink g p then snk @ [?H] else snk)"
    unfolding dag_told_def prod.case
  proof (intro exI [of _ "es @ [e]"] conjI)
    have "graph_tasks g vis ?k m = graph_tasks g vis ?h m" using graph_tasks_cong [OF g vis k(2)] .
    then show "tasks (es @ [e]) = graph_tasks g (vis @ [p]) ?k m"
      using s(3) e(2) k(1) pk by (simp add: graph_tasks_def tasks_single)
    show "(if is_sink g p then snk @ [?H] else snk) = map ?k (filter (is_sink g) (vis @ [p]))"
      using s(5) k by auto
  qed (simp_all add: s(2,4) copies_single e(3))
  ultimately show "\<exists>g' s'. dag_task E m p (g1, s) = Inr (g', s') \<and> frame g1 g' \<and> depc g' = depc g1 \<and>
      dag_told g m w0 (vis @ [p]) (ndata g') s'" using g2(2,3) by blast
qed

lemma makeDAGtasks_ok:
  assumes g: "task_dag g" "verts g \<noteq> {}"
  shows "\<exists>k g' es. makeDAGtasks E nk g m w = Some (Inr (k, g', w @ es)) \<and> frame g g' \<and> stage (tasks es) m k \<and>
    copies es = [] \<and> length (tasks es) = card (verts g) + 1"
proof -
  have c: "wf_dag g" "countable_dag g" "stores_succ (dkind g)" "acyclic (edges g)" using g(1) by (auto simp: task_dag_def)
  have "dag_told g m w [] (ndata g) (w, [])" by (simp add: dag_told_def graph_tasks_def)
  from topo_rule [OF c(1-3) dag_task_ok [OF g(1)] this] obtain g' s vis where
    t: "forEachNode_TopoOrder (dag_task E m) (g, w, []) = Some (Inr (g', s))" "frame g g'" "covers g vis"
      "dag_told g m w vis (ndata g') s" by blast
  have vis: "set vis = verts g" "distinct vis" using covers_acyclic [OF c(1,4) t(3)] t(3) by (auto simp: covers_def)
  let ?h = "stored gpuTaskHandle (ndata g')" let ?snk = "map ?h (filter (is_sink g) vis)"
  obtain es where s: "s = (w @ es, ?snk)" "tasks es = graph_tasks g vis ?h m" "copies es = []"
    using t(4) by (cases s) (auto simp: dag_told_def)
  obtain e where e: "makeNullTask E nk ?snk (w @ es) = Inr (hnd (atmiE E) (w @ es), (w @ es) @ [e])"
    "task_of e = Some (hnd (atmiE E) (w @ es), ?snk, True)" "copy_of e = None" using makeNullTask_ok by blast
  have "makeDAGtasks E nk g m w = Some (Inr (hnd (atmiE E) (w @ es), g', w @ es @ [e]))"
    using e(1) by (simp add: makeDAGtasks_def t(1) s(1))
  moreover have "stage (tasks (es @ [e])) m (hnd (atmiE E) (w @ es))"
    using stage_graph [OF g(1) vis(1) g(2), of ?h m "hnd (atmiE E) (w @ es)"] e(2) s(2) by (simp add: tasks_single)
  moreover have "length (tasks (es @ [e])) = card (verts g) + 1"
    using vis distinct_card [OF vis(2)] by (simp add: s(2) tasks_single e(2) graph_tasks_def)
  moreover have "copies (es @ [e]) = []" by (simp add: s(3) copies_single e(3))
  ultimately show ?thesis using t(2) by blast
qed

end
