(* ===== verification/Slots.thy ===== *)
theory Slots
  imports OutOfCore
begin

text \<open>
  The assignment of device data slots: the traversal gives the slots out in turn, and the new edges
  order the partitions that share one.
\<close>

definition use_slot :: "nat \<Rightarrow> 'g partition \<Rightarrow> 'g partition" where
  "use_slot s part = part\<lparr>mDeviceData := s\<rparr>"

text \<open>The edge to the \<open>j\<close>-th visited partition comes from the one \<open>N\<close> visits before.\<close>

definition slot_edges :: "nat \<Rightarrow> addr list \<Rightarrow> (addr \<times> addr) list" where
  "slot_edges N vis = map (\<lambda>j. (vis ! (j - N), vis ! j)) [N ..< length vis]"

definition slotted :: "nat list \<Rightarrow> (addr \<Rightarrow> 'g partition option) \<Rightarrow> addr list \<Rightarrow> (addr \<Rightarrow> 'g partition option) \<Rightarrow> bool" where
  "slotted slots nd0 vis nd \<longleftrightarrow> (\<forall>q. q \<notin> set vis \<longrightarrow> nd q = nd0 q) \<and>
     (\<forall>j < length vis. nd (vis ! j) = map_option (use_slot (slots ! (j mod length slots))) (nd0 (vis ! j)))"

definition slot_inv :: "nat list \<Rightarrow> (addr \<Rightarrow> 'g partition option) \<Rightarrow> addr list \<Rightarrow> (addr \<Rightarrow> 'g partition option) \<Rightarrow>
    nat \<times> addr list \<times> (addr \<times> addr) list \<Rightarrow> bool" where
  "slot_inv slots nd0 vis nd = (\<lambda>(index, prevUser, newEdges). let N = length slots in
     index = length vis mod N \<and> length prevUser = N \<and> newEdges = slot_edges N vis \<and>
     (\<forall>k. length vis \<le> k \<and> k < length vis + N \<longrightarrow> prevUser ! (k mod N) = (if N \<le> k then vis ! (k - N) else 0)) \<and>
     slotted slots nd0 vis nd)"

lemma mod_window:
  assumes "n < k" "k < n + N" shows "k mod N \<noteq> n mod (N :: nat)"
proof
  assume "k mod N = n mod N"
  then have "N dvd k - n" using assms mod_eq_dvd_iff_nat [of n k N] by simp
  moreover have "0 < k - n" "k - n < N" using assms by auto
  ultimately show False by (simp add: nat_dvd_not_less)
qed

lemma slot_edges_snoc:
  "slot_edges N (vis @ [p]) = slot_edges N vis @ (if N \<le> length vis \<and> 0 < N then [(vis ! (length vis - N), p)] else
     if N = 0 then [(p, p)] else [])"
  by (auto simp: slot_edges_def nth_append)

lemma assign_slot_ok:
  assumes "slots \<noteq> []" and wf: "wf_dag g"
  shows "visits_ok g (assign_slot slots) (slot_inv slots (ndata g))"
  unfolding visits_ok_def
proof (intro allI impI)
  fix vis p g1 s
  assume f: "frame g g1" and d: "distinct (vis @ [p])" and v: "set (vis @ [p]) \<subseteq> verts g"
    and P: "slot_inv slots (ndata g) vis (ndata g1) s"
  let ?N = "length slots" and ?n = "length vis"
  obtain prev new where s: "s = (?n mod ?N, prev, new)" using P by (cases s) (auto simp: slot_inv_def Let_def)
  have prev: "length prev = ?N" "new = slot_edges ?N vis" "slotted slots (ndata g) vis (ndata g1)"
    "\<forall>k. ?n \<le> k \<and> k < ?n + ?N \<longrightarrow> prev ! (k mod ?N) = (if ?N \<le> k then vis ! (k - ?N) else 0)"
    using P by (simp_all add: s slot_inv_def Let_def)
  have N: "0 < ?N" "?n mod ?N < ?N" using assms(1) by auto
  have wf1: "wf_dag g1" and p: "p \<in> verts g1" using f v wf by (auto simp: frame_simps)
  obtain part where part: "nodeData g1 p = Inr part" "ndata g1 p = Some part" using nodeData_ok [OF wf1 p] by blast
  let ?part = "part\<lparr>mDeviceData := slots ! (?n mod ?N)\<rparr>"
  obtain g2 where g2: "set_nodeData p ?part g1 = Inr g2" "frame g1 g2" "depc g2 = depc g1" "ndata g2 = (ndata g1)(p \<mapsto> ?part)"
    using set_nodeData_frame [OF wf1 p] by blast
  have u: "prev ! (?n mod ?N) = (if ?N \<le> ?n then vis ! (?n - ?N) else 0)" using prev(4) N by simp
  have nz: "vis ! (?n - ?N) \<noteq> 0" if "?N \<le> ?n"
  proof -
    have "?n - ?N < ?n" using that N(1) by linarith
    then have "vis ! (?n - ?N) \<in> verts g" using v nth_mem [of "?n - ?N" vis] by auto
    then show ?thesis using wf_dag_nonnull [OF wf] by auto
  qed
  let ?s = "((?n mod ?N + 1) mod ?N, prev[?n mod ?N := p], slot_edges ?N (vis @ [p]))"
  have "assign_slot slots p (g1, s) = Inr (g2, ?s)"
    using N u nz by (auto simp: s assign_slot_def part slot_at_def g2(1) prev(1,2) Let_def slot_edges_snoc)
  moreover have "slot_inv slots (ndata g) (vis @ [p]) (ndata g2) ?s"
  proof -
    have "(prev[?n mod ?N := p]) ! (k mod ?N) = (if ?N \<le> k then (vis @ [p]) ! (k - ?N) else 0)"
      if k: "?n + 1 \<le> k" "k < ?n + 1 + ?N" for k
    proof (cases "k = ?n + ?N")
      case True
      then show ?thesis using N prev(1) by simp
    next
      case False
      then have "k mod ?N \<noteq> ?n mod ?N" using k by (intro mod_window) auto
      moreover have "prev ! (k mod ?N) = (if ?N \<le> k then vis ! (k - ?N) else 0)" using prev(4) k False by simp
      ultimately show ?thesis using k False by (auto simp: nth_append)
    qed
    moreover have "slotted slots (ndata g) (vis @ [p]) (ndata g2)"
    proof -
      have "ndata g p = Some part" using prev(3) part(2) d by (simp add: slotted_def)
      moreover have "vis ! j \<noteq> p" if "j < ?n" for j using d that by auto
      ultimately show ?thesis using prev(3) by (auto simp: slotted_def g2(4) nth_append use_slot_def less_Suc_eq)
    qed
    ultimately show ?thesis by (simp add: slot_inv_def Let_def prev(1) mod_Suc_eq)
  qed
  ultimately show "\<exists>g' s'. assign_slot slots p (g1, s) = Inr (g', s') \<and> frame g1 g' \<and> depc g' = depc g1 \<and>
      slot_inv slots (ndata g) (vis @ [p]) (ndata g') s'"
    using g2 by blast
qed

lemma addEdge_keeps:
  assumes "addEdge a b g = Inr g'"
  shows "dkind g' = dkind g \<and> mAllNodes g' = mAllNodes g \<and> ndata g' = ndata g"
proof -
  have same: "on_node g p f = Inr g' \<Longrightarrow> (\<And>nd nd'. f nd = Inr nd' \<Longrightarrow> mData nd' = mData nd) \<Longrightarrow>
      dkind g' = dkind g \<and> mAllNodes g' = mAllNodes g \<and> ndata g' = ndata g" for p f and g g' :: "'a dag"
    by (auto simp: on_node_def rbind_eq_Inr deref_def put_node_def ndata_def fun_eq_iff split: option.splits)
  have s: "node_addSucc k nd c = Inr nd' \<Longrightarrow> mData nd' = mData nd" for k c and nd nd' :: "'a node"
    by (cases k) (auto simp: addSucc_def hasSucc_def rbind_eq_Inr)
  have p: "node_addPred k nd c = Inr nd' \<Longrightarrow> mData nd' = mData nd" for k c and nd nd' :: "'a node"
    by (cases k) (auto simp: addPred_def hasPred_def rbind_eq_Inr pc_addPred_def)
  from assms obtain g1 where "on_node g a (\<lambda>nd. node_addSucc (dkind g) nd b) = Inr g1"
    "on_node g1 b (\<lambda>nd. node_addPred (dkind g1) nd a) = Inr g'"
    by (auto simp: addEdge_def rbind_eq_Inr)
  with same [of g a _ g1] same [of g1 b _ g'] s p show ?thesis by metis
qed

lemma addEdgeIfAbsent_keeps:
  "addEdgeIfAbsent a b g = Inr g' \<Longrightarrow> dkind g' = dkind g \<and> mAllNodes g' = mAllNodes g \<and> ndata g' = ndata g"
  using addEdge_keeps [of a b g g'] by (auto simp: addEdgeIfAbsent_def rbind_eq_Inr split: if_splits)

lemma absent_loop_keeps:
  "for_each (\<lambda>p g. addEdgeIfAbsent (fst p) (snd p) g) es g = Inr g' \<Longrightarrow>
    dkind g' = dkind g \<and> mAllNodes g' = mAllNodes g \<and> ndata g' = ndata g"
proof (induction es arbitrary: g)
  case (Cons e es)
  then obtain g1 where g1: "addEdgeIfAbsent (fst e) (snd e) g = Inr g1"
    "for_each (\<lambda>p g. addEdgeIfAbsent (fst p) (snd p) g) es g1 = Inr g'" by (auto simp: rbind_eq_Inr)
  show ?case using Cons.IH [OF g1(2)] addEdgeIfAbsent_keeps [OF g1(1)] by simp
qed simp

section \<open>The new edges\<close>

lemma slot_edges_in: "(a, b) \<in> set (slot_edges N vis) \<longleftrightarrow> (\<exists>j. N \<le> j \<and> j < length vis \<and> a = vis ! (j - N) \<and> b = vis ! j)"
  by (auto simp: slot_edges_def)

lemma slot_edges_topo:
  assumes "topo_order E vis" "distinct vis" "0 < N"
  shows "topo_order (set (slot_edges N vis) \<union> E) vis"
  unfolding topo_order_def
proof (intro allI impI)
  fix ys p zs a
  assume v: "vis = ys @ p # zs" and e: "(a, p) \<in> set (slot_edges N vis) \<union> E"
  show "a \<in> set ys"
  proof (cases "(a, p) \<in> E")
    case True
    then show ?thesis using assms(1) v unfolding topo_order_def by blast
  next
    case False
    then obtain j where j: "N \<le> j" "j < length vis" "a = vis ! (j - N)" "p = vis ! j" using e by (auto simp: slot_edges_in)
    have "vis ! length ys = p" using v by simp
    moreover have "length ys < length vis" using v by simp
    ultimately have jl: "j = length ys" using nth_eq_iff_index_eq [OF assms(2) j(2), of "length ys"] j(4) by metis
    then have n: "length ys - N < length ys" using j(1) assms(3) by linarith
    have "a = vis ! (length ys - N)" using j(3) jl by simp
    then have "a = ys ! (length ys - N)" using n unfolding v by (simp add: nth_append)
    then show ?thesis using n by simp
  qed
qed

lemma topo_acyclic:
  assumes "topo_order E vis" "distinct vis" "E \<subseteq> set vis \<times> set vis"
  shows "acyclic E"
  unfolding acyclic_def
proof (intro allI notI)
  fix a assume c: "(a, a) \<in> E\<^sup>+"
  then have "a \<in> set vis" using assms(3) by (induction rule: trancl_induct) auto
  then show False using topo_order_no_cycle [OF assms(1,2) c] by blast
qed

lemma slot_chain:
  assumes "i < j" "j < length vis" "i mod N = j mod N" "0 < (N :: nat)"
  shows "(vis ! i, vis ! j) \<in> (set (slot_edges N vis))\<^sup>+"
  using assms
proof (induction j rule: less_induct)
  case (less j)
  then have "N dvd j - i" using mod_eq_dvd_iff_nat [of i j N] by simp
  then have ij: "i + N \<le> j" using less.prems dvd_imp_le [of N "j - i"] by linarith
  have e: "(vis ! (j - N), vis ! j) \<in> set (slot_edges N vis)"
    unfolding slot_edges_in using ij less.prems by (intro exI [of _ j]) auto
  show ?case
  proof (cases "j - N = i")
    case True
    then show ?thesis using e by auto
  next
    case False
    have "(j - N) mod N = j mod N" using ij by (simp add: le_mod_geq)
    then have "(vis ! i, vis ! (j - N)) \<in> (set (slot_edges N vis))\<^sup>+"
      using less.IH [of "j - N"] less.prems ij False by auto
    then show ?thesis using e by auto
  qed
qed

section \<open>The assignment\<close>

lemma assign_ok:
  assumes "wf_dag g" "countable_dag g" "dkind g = NodeInOut" "acyclic (edges g)" "slots \<noteq> []"
  shows "\<exists>g' vis. assignDeviceDataSlots slots g = Some (Inr g') \<and> wf_dag g' \<and> mAllNodes g' = mAllNodes g \<and>
    dkind g' = NodeInOut \<and> distinct vis \<and> set vis = verts g \<and>
    edges g' = set (slot_edges (length slots) vis) \<union> edges g \<and>
    topo_order (edges g') vis \<and> slotted slots (ndata g) vis (ndata g') \<and> (edges g = {} \<longrightarrow> vis = rev (mAllNodes g))"
proof -
  let ?N = "length slots"
  have N: "0 < ?N" using assms(5) by simp
  have "slot_inv slots (ndata g) [] (ndata g) (0, replicate ?N 0, [])"
    using assms(5) by (auto simp: slot_inv_def slot_edges_def slotted_def)
  moreover have "stores_succ (dkind g)" using assms(3) by simp
  ultimately have "\<exists>g1 s vis. forEachNode_TopoOrder (assign_slot slots) (g, 0, replicate ?N 0, []) = Some (Inr (g1, s)) \<and>
      frame g g1 \<and> covers g vis \<and> slot_inv slots (ndata g) vis (ndata g1) s \<and> (edges g = {} \<longrightarrow> vis = rev (mAllNodes g))"
    using topo_rule_order [OF assms(1,2) _ assign_slot_ok [OF assms(5,1)]] by blast
  then obtain g1 s vis where
    t: "forEachNode_TopoOrder (assign_slot slots) (g, 0, replicate ?N 0, []) = Some (Inr (g1, s))" "frame g g1"
      "covers g vis" "slot_inv slots (ndata g) vis (ndata g1) s" "edges g = {} \<longrightarrow> vis = rev (mAllNodes g)" by blast
  have vis: "set vis = verts g" "distinct vis" "topo_order (edges g) vis"
    using covers_acyclic [OF assms(1,4) t(3)] t(3) by (auto simp: covers_def)
  obtain i u where s: "s = (i, u, slot_edges ?N vis)" and sl: "slotted slots (ndata g) vis (ndata g1)"
    using t(4) by (cases s) (auto simp: slot_inv_def Let_def)
  have "\<forall>(a, b) \<in> set (slot_edges ?N vis). a \<in> set vis \<and> b \<in> set vis \<and> a \<noteq> b"
  proof (clarify, unfold slot_edges_in, elim exE conjE, intro conjI)
    fix a b j assume j: "?N \<le> j" "j < length vis" "a = vis ! (j - ?N)" "b = vis ! j"
    then show "a \<in> set vis" "b \<in> set vis" by auto
    have "j - ?N \<noteq> j" "j - ?N < length vis" using j N by linarith+
    then show "a \<noteq> b" using nth_eq_iff_index_eq [OF vis(2), of "j - ?N" j] j by simp
  qed
  then have e: "set (slot_edges ?N vis) \<subseteq> verts g1 \<times> verts g1" "\<forall>(a, b) \<in> set (slot_edges ?N vis). a \<noteq> b"
    using vis(1) frame_verts [OF t(2)] by auto
  have "wf_dag g1" using assms(1) frame_wf [OF t(2)] by simp
  from dg.absents_ok [OF this e] obtain g' where
    g': "for_each (\<lambda>p g. addEdgeIfAbsent (fst p) (snd p) g) (slot_edges ?N vis) g1 = Inr g'" "wf_dag g'"
      "edges g' = set (slot_edges ?N vis) \<union> edges g1" by blast
  note keep = absent_loop_keeps [OF g'(1)]
  have "assignDeviceDataSlots slots g = Some (Inr g')"
    using g'(1) by (simp add: assignDeviceDataSlots_def t(1) s case_prod_beta')
  moreover have "topo_order (edges g') vis"
    using slot_edges_topo [OF vis(3,2)] assms(5) g'(3) frame_edges [OF t(2)] by simp
  moreover have "mAllNodes g' = mAllNodes g" "dkind g' = NodeInOut" "slotted slots (ndata g) vis (ndata g')"
    using keep t(2) assms(3) sl by (auto simp: frame_def)
  ultimately show ?thesis using g'(2,3) vis t(5) by (intro exI [of _ g'] exI [of _ vis]) (simp add: frame_edges [OF t(2)])
qed

text \<open>
  Every partition has one of the slots and is otherwise unchanged, and of any two partitions that share
  a slot one depends on the other. Without other dependences, the partitions take the slots in the
  reverse of the order in which they were added.
\<close>

lemma shared_slots_ordered:
  assumes "wf_dag g" "countable_dag g" "dkind g = NodeInOut" "acyclic (edges g)" "slots \<noteq> []"
  shows "\<exists>g'. assignDeviceDataSlots slots g = Some (Inr g') \<and> wf_dag g' \<and> mAllNodes g' = mAllNodes g \<and>
    dkind g' = NodeInOut \<and> acyclic (edges g') \<and> edges g \<subseteq> edges g' \<and>
    (\<forall>p \<in> verts g. \<exists>part s. nodeData g p = Inr part \<and> s \<in> set slots \<and> nodeData g' p = Inr (use_slot s part)) \<and>
    (distinct slots \<longrightarrow> (\<forall>p \<in> verts g. \<forall>q \<in> verts g. \<forall>x y. p \<noteq> q \<and> nodeData g' p = Inr x \<and> nodeData g' q = Inr y \<and>
      mDeviceData x = mDeviceData y \<longrightarrow> (p, q) \<in> (edges g')\<^sup>+ \<or> (q, p) \<in> (edges g')\<^sup>+)) \<and>
    (edges g = {} \<longrightarrow> edges g' = set (slot_edges (length slots) (rev (mAllNodes g))))"
proof -
  from assign_ok [OF assms] obtain g' vis where
    g': "assignDeviceDataSlots slots g = Some (Inr g')" "wf_dag g'" "mAllNodes g' = mAllNodes g"
      "dkind g' = NodeInOut" "distinct vis" "set vis = verts g"
      "edges g' = set (slot_edges (length slots) vis) \<union> edges g" "topo_order (edges g') vis"
      "slotted slots (ndata g) vis (ndata g')" "edges g = {} \<longrightarrow> vis = rev (mAllNodes g)" by blast
  let ?N = "length slots"
  have V: "verts g' = verts g" by (simp add: verts_def g'(3))
  have N: "0 < ?N" using assms(5) by simp
  have "edges g' \<subseteq> set vis \<times> set vis" using g'(2,6) V by (auto simp: wf_dag_def)
  then have ac: "acyclic (edges g')" using topo_acyclic [OF g'(8,5)] by blast
  have data: "\<exists>part. nodeData g (vis ! j) = Inr part \<and> nodeData g' (vis ! j) = Inr (use_slot (slots ! (j mod ?N)) part)"
    if j: "j < length vis" for j
  proof -
    have v: "vis ! j \<in> verts g" using j g'(6) nth_mem by blast
    obtain part where 1: "nodeData g (vis ! j) = Inr part" "ndata g (vis ! j) = Some part" using nodeData_ok [OF assms(1) v] by blast
    obtain part' where 2: "nodeData g' (vis ! j) = Inr part'" "ndata g' (vis ! j) = Some part'"
      using nodeData_ok [OF g'(2)] v V by metis
    show ?thesis using g'(9) j 1 2 by (auto simp: slotted_def)
  qed
  have "\<exists>part s. nodeData g p = Inr part \<and> s \<in> set slots \<and> nodeData g' p = Inr (use_slot s part)" if "p \<in> verts g" for p
  proof -
    obtain j where "j < length vis" "p = vis ! j" using \<open>p \<in> verts g\<close> g'(6) by (metis in_set_conv_nth)
    then show ?thesis using data [of j] N by (meson mod_less_divisor nth_mem)
  qed
  moreover have "(p, q) \<in> (edges g')\<^sup>+ \<or> (q, p) \<in> (edges g')\<^sup>+"
    if d: "distinct slots" "p \<in> verts g" "q \<in> verts g" "p \<noteq> q" "nodeData g' p = Inr x" "nodeData g' q = Inr y" "mDeviceData x = mDeviceData y"
    for p q x y
  proof -
    obtain i where i: "i < length vis" "p = vis ! i" using d(2) g'(6) by (metis in_set_conv_nth)
    obtain j where j: "j < length vis" "q = vis ! j" using d(3) g'(6) by (metis in_set_conv_nth)
    have "slots ! (i mod ?N) = slots ! (j mod ?N)" using data [OF i(1)] data [OF j(1)] d(5-7) i(2) j(2) by (auto simp: use_slot_def)
    then have m: "i mod ?N = j mod ?N" using d(1) N by (simp add: nth_eq_iff_index_eq)
    have sub: "(set (slot_edges ?N vis))\<^sup>+ \<subseteq> (edges g')\<^sup>+" using g'(7) by (intro trancl_mono_subset) auto
    have "i \<noteq> j" using d(4) i j by auto
    then consider "i < j" | "j < i" by linarith
    then show ?thesis
      by cases (use slot_chain [of i j vis ?N] slot_chain [of j i vis ?N] m N i j sub in auto)
  qed
  moreover have "edges g = {} \<longrightarrow> edges g' = set (slot_edges (length slots) (rev (mAllNodes g)))" using g'(7,10) by simp
  ultimately show ?thesis using g'(1-4,7) ac by blast
qed

end
