(* ===== verification/OutOfCoreRun.thy ===== *)
theory OutOfCoreRun
  imports PartTasks Slots
begin

text \<open>Execution of a graph of partitions.\<close>

section \<open>One partition\<close>

definition part_ready :: "ooc_env \<Rightarrow> ooc \<Rightarrow> part \<Rightarrow> bool" where
  "part_ready E st part \<longleftrightarrow> (\<exists>dev host td. devAt st (mDeviceData part) = Some dev \<and> hostAt st (mHostData part) = Some host \<and>
     dagAt st (mDAGptr part) = Some td \<and> task_dag td \<and> verts td \<noteq> {} \<and>
     same_blocks (walkE E) (mDeviceData part, devBlocks dev) (mHostData part, host))"

text \<open>
  The calls of one partition: a null task that waits for the tasks \<open>ks\<close>, then a stage from it to the
  task \<open>k\<close>; it copies each block in and out.
\<close>

definition part_calls :: "ooc_env \<Rightarrow> ooc \<Rightarrow> part \<Rightarrow> nat list \<Rightarrow> event list \<Rightarrow> nat \<Rightarrow> nat \<Rightarrow> bool" where
  "part_calls E st part ks es s k \<longleftrightarrow>
     (let dev = devBlocks (the (devAt st (mDeviceData part))); host = the (hostAt st (mHostData part)) in
      \<exists>T. tasks es = (s, ks, True) # T \<and> stage T s k \<and>
        copies es = block_copies (walkE E) dev host @ block_copies (walkE E) host dev \<and>
        length T = 2 * numBlocks host + card (verts (the (dagAt st (mDAGptr part)))) + 3)"

definition sink_of :: "(addr \<Rightarrow> 'g partition option) \<Rightarrow> addr \<Rightarrow> nat option" where
  "sink_of nd q = Option.bind (nd q) mSinkTask"

lemma collectPredHandles_eq:
  assumes "wf_dag g" "predecessors g p = Inr ps" "set ps \<subseteq> verts g"
  shows "collectPredHandles g p = (if \<forall>q \<in> set ps. sink_of (ndata g) q \<noteq> None
    then Inr (map (the \<circ> sink_of (ndata g)) ps) else Inl (Undefined ''uninitialised task handle''))"
proof -
  have "for_each (\<lambda>n hs. rbind (nodeData g n) (\<lambda>d. rbind (task_handle (mSinkTask d)) (\<lambda>h. Inr (hs @ [h])))) ps hs =
      (if \<forall>q \<in> set ps. sink_of (ndata g) q \<noteq> None then Inr (hs @ map (the \<circ> sink_of (ndata g)) ps)
       else Inl (Undefined ''uninitialised task handle''))" for hs
    using assms(3)
  proof (induction ps arbitrary: hs)
    case (Cons q qs)
    then obtain d where d: "nodeData g q = Inr d" "ndata g q = Some d" using nodeData_ok [OF assms(1), of q] by auto
    then show ?case using Cons by (cases "mSinkTask d") (simp_all add: sink_of_def task_handle_def)
  qed simp
  then show ?thesis by (simp add: collectPredHandles_def assms(2))
qed

definition dags_kept :: "ooc \<Rightarrow> (addr \<Rightarrow> gpu_task dag option) \<Rightarrow> bool" where
  "dags_kept st D \<longleftrightarrow> (\<forall>d g. dagAt st d = Some g \<longrightarrow> (\<exists>g'. D d = Some g' \<and> frame g g'))"

lemma part_ready_kept: "part_ready E st part \<Longrightarrow> dags_kept st D \<Longrightarrow> part_ready E (st\<lparr>calls := w, dagAt := D\<rparr>) part"
  unfolding part_ready_def dags_kept_def by (fastforce simp: frame_task_dag frame_verts)

lemma part_calls_kept:
  "part_ready E st part \<Longrightarrow> dags_kept st D \<Longrightarrow>
    part_calls E (st\<lparr>calls := w, dagAt := D\<rparr>) part ks es s k = part_calls E st part ks es s k"
  unfolding part_ready_def dags_kept_def part_calls_def by (fastforce simp: frame_verts Let_def)

lemma part_step:
  assumes g: "task_dag g" "p \<in> verts g" "ndata g p = Some part" and r: "part_ready E st part"
    and ks: "\<forall>a \<in> set (preds g p). sink_of (ndata g) a = Some (k a)"
  shows "\<exists>g' es s h D. makeTasksForPartition E p (g, st, src, snk) = Some (Inr (g', st\<lparr>calls := calls st @ es, dagAt := D\<rparr>,
      if is_source g p then src @ [s] else src, if is_sink g p then snk @ [h] else snk)) \<and> frame g g' \<and>
    ndata g' = (ndata g)(p \<mapsto> part\<lparr>mSrcTask := Some s, mSinkTask := Some h\<rparr>) \<and> dags_kept st D \<and>
    part_calls E st part (map k (preds g p)) es s h"
proof -
  have wf: "wf_dag g" using g(1) by (simp add: task_dag_def)
  obtain dev host td where r: "devAt st (mDeviceData part) = Some dev" "hostAt st (mHostData part) = Some host"
    "dagAt st (mDAGptr part) = Some td" "task_dag td" "verts td \<noteq> {}"
    "same_blocks (walkE E) (mDeviceData part, devBlocks dev) (mHostData part, host)" using r by (auto simp: part_ready_def)
  have nd: "nodeData g p = Inr part" using nodeData_ok [OF wf g(2)] g(3) by auto
  have ps: "(if \<not> is_source g p then collectPredHandles g p else Inr []) = Inr (map k (preds g p))"
  proof (cases "is_source g p")
    case True
    then show ?thesis using source_preds [OF g(1,2)] by simp
  next
    case False
    then show ?thesis using ks collectPredHandles_eq [OF wf task_dag_tests(3,4) [OF g(1,2)]] by simp
  qed
  let ?w = "calls st" let ?nk = "mNullKern st" let ?ks = "map k (preds g p)"
  obtain e where e: "makeNullTask E ?nk ?ks ?w = Inr (hnd (atmiE E) ?w, ?w @ [e])"
    "task_of e = Some (hnd (atmiE E) ?w, ?ks, True)" "copy_of e = None" using makeNullTask_ok by blast
  let ?s = "hnd (atmiE E) ?w"
  obtain m es1 where 1: "makeMemCpyTasks E ?nk (mDeviceData part, devBlocks dev) (mHostData part, host) ?s (?w @ [e]) =
      Inr (m, (?w @ [e]) @ es1)" "stage (tasks es1) ?s m" "copies es1 = block_copies (walkE E) (devBlocks dev) host"
      "length (tasks es1) = numBlocks host + 1"
    using makeMemCpyTasks_ok [OF r(6), of ?nk ?s "?w @ [e]"] by auto
  obtain f td' es2 where 2: "makeDAGtasks E ?nk td m ((?w @ [e]) @ es1) = Some (Inr (f, td', ((?w @ [e]) @ es1) @ es2))"
      "frame td td'" "stage (tasks es2) m f" "copies es2 = []" "length (tasks es2) = card (verts td) + 1"
    using makeDAGtasks_ok [OF r(4,5), of E ?nk m "(?w @ [e]) @ es1"] by blast
  obtain h es3 where 3: "makeMemCpyTasks E ?nk (mHostData part, host) (mDeviceData part, devBlocks dev) f (((?w @ [e]) @ es1) @ es2) =
      Inr (h, (((?w @ [e]) @ es1) @ es2) @ es3)" "stage (tasks es3) f h"
      "copies es3 = block_copies (walkE E) host (devBlocks dev)" "length (tasks es3) = numBlocks (devBlocks dev) + 1"
    using makeMemCpyTasks_ok [OF same_blocks_sym [OF r(6)], of ?nk f "((?w @ [e]) @ es1) @ es2"] by auto
  let ?part = "part\<lparr>mSrcTask := Some ?s, mSinkTask := Some h\<rparr>"
  obtain g' where g': "set_nodeData p ?part g = Inr g'" "frame g g'" "ndata g' = (ndata g)(p \<mapsto> ?part)"
    using set_nodeData_frame [OF wf g(2)] by blast
  have g'2: "task_dag g'" "p \<in> verts g'" "is_sink g' p = is_sink g p"
    using g g'(2) by (simp_all add: frame_task_dag frame_verts is_sink_def frame_edges)
  let ?es = "e # es1 @ es2 @ es3" and ?D = "(dagAt st)(mDAGptr part \<mapsto> td')"
  have "makeTasksForPartition E p (g, st, src, snk) = Some (Inr (g', st\<lparr>calls := ?w @ ?es, dagAt := ?D\<rparr>,
      if is_source g p then src @ [?s] else src, if is_sink g p then snk @ [h] else snk))"
    using ps by (simp add: makeTasksForPartition_def task_dag_tests [OF g(1,2)] task_dag_tests [OF g'2(1,2)] nd e(1)
        dev_at_def host_at_def dag_at_def r(1-3) 1(1) [simplified] 2(1) [simplified] 3(1) [simplified] g'(1) g'2(3) Let_def)
  moreover have "dags_kept st ?D" using r(3) 2(2) by (auto simp: dags_kept_def)
  moreover have "part_calls E st part ?ks ?es ?s h"
  proof -
    have "tasks ?es = (?s, ?ks, True) # tasks es1 @ tasks es2 @ tasks es3"
      using tasks_append [of "[e]" "es1 @ es2 @ es3"] by (simp add: tasks_single e(2))
    moreover have "copies ?es = copies es1 @ copies es2 @ copies es3"
      using copies_append [of "[e]" "es1 @ es2 @ es3"] by (simp add: copies_single e(3))
    moreover have "stage (tasks es1 @ tasks es2 @ tasks es3) ?s h"
      using stage_append [OF 1(2) stage_append [OF 2(3) 3(2)]] .
    moreover have "numBlocks (devBlocks dev) = numBlocks host" using r(6) by (simp add: same_blocks_def numBlocks_def)
    ultimately show ?thesis by (simp add: part_calls_def r(1-3) 1(3,4) 2(4,5) 3(3,4))
  qed
  ultimately show ?thesis using g'(2,3) by blast
qed

section \<open>The loop over the partitions\<close>

lemma ofor_each_append: "ofor_each f (xs @ ys) s = obind (ofor_each f xs s) (ofor_each f ys)"
  by (induction xs arbitrary: s) (auto simp: obind_def split: option.splits sum.splits)

text \<open>The loop stands after the partitions \<open>ys\<close>; \<open>evs\<close>, \<open>s\<close> and \<open>k\<close> give the calls of each, its first and its last task.\<close>

definition loop_inv :: "ooc_env \<Rightarrow> part dag \<Rightarrow> ooc \<Rightarrow> addr list \<Rightarrow> part dag \<times> ooc \<times> nat list \<times> nat list \<Rightarrow>
    (addr \<Rightarrow> event list) \<Rightarrow> (addr \<Rightarrow> nat) \<Rightarrow> (addr \<Rightarrow> nat) \<Rightarrow> bool" where
  "loop_inv E g0 st ys t evs s k \<longleftrightarrow> (\<exists>g D. t = (g, st\<lparr>calls := calls st @ concat (map evs ys), dagAt := D\<rparr>,
       map s (filter (is_source g0) ys), map k (filter (is_sink g0) ys)) \<and> frame g0 g \<and> dags_kept st D \<and>
     (\<forall>q. q \<notin> set ys \<longrightarrow> ndata g q = ndata g0 q) \<and>
     (\<forall>q \<in> set ys. sink_of (ndata g) q = Some (k q) \<and>
       part_calls E st (the (ndata g0 q)) (map k (preds g0 q)) (evs q) (s q) (k q)))"

definition parts_ready :: "ooc_env \<Rightarrow> part dag \<Rightarrow> ooc \<Rightarrow> bool" where
  "parts_ready E g st \<longleftrightarrow> (\<forall>p \<in> verts g. \<exists>part. ndata g p = Some part \<and> part_ready E st part \<and> mSinkTask part = None)"

lemma dags_kept_trans: "dags_kept st D \<Longrightarrow> dags_kept (st\<lparr>calls := w, dagAt := D\<rparr>) D' \<Longrightarrow> dags_kept st D'"
  unfolding dags_kept_def by (simp, meson frame_trans)

lemma loop_step:
  assumes g0: "task_dag g0" and r: "parts_ready E g0 st" and p: "p \<in> verts g0" "p \<notin> set ys"
    and ps: "\<forall>a. (a, p) \<in> edges g0 \<longrightarrow> a \<in> set ys" and ys: "set ys \<subseteq> verts g0"
    and topo: "\<forall>q \<in> set ys. set (preds g0 q) \<subseteq> set ys" and I: "loop_inv E g0 st ys t evs s k"
  shows "\<exists>t' evs' s' k'. makeTasksForPartition E p t = Some (Inr t') \<and> loop_inv E g0 st (ys @ [p]) t' evs' s' k'"
proof -
  obtain g D where I: "t = (g, st\<lparr>calls := calls st @ concat (map evs ys), dagAt := D\<rparr>,
       map s (filter (is_source g0) ys), map k (filter (is_sink g0) ys))" "frame g0 g" "dags_kept st D"
     "\<forall>q. q \<notin> set ys \<longrightarrow> ndata g q = ndata g0 q"
     "\<forall>q \<in> set ys. sink_of (ndata g) q = Some (k q) \<and>
       part_calls E st (the (ndata g0 q)) (map k (preds g0 q)) (evs q) (s q) (k q)"
    using I unfolding loop_inv_def by blast
  let ?st = "st\<lparr>calls := calls st @ concat (map evs ys), dagAt := D\<rparr>"
  have g: "task_dag g" "p \<in> verts g" using g0 p I(2) by (auto simp: frame_task_dag frame_verts)
  have same: "is_source g = is_source g0" "is_sink g = is_sink g0" "preds g = preds g0"
    using I(2) by (auto simp: is_source_def is_sink_def frame_edges fun_eq_iff) (simp add: frame_def)
  obtain part where part: "ndata g0 p = Some part" "part_ready E st part" using r p by (auto simp: parts_ready_def)
  have nd: "ndata g p = Some part" using I(4) p(2) part(1) by simp
  have pp: "set (preds g p) \<subseteq> set ys" using preds_edges [OF g0 p(1)] ps by (auto simp: same)
  then have "\<forall>a \<in> set (preds g p). sink_of (ndata g) a = Some (k a)" using I(5) by blast
  from part_step [OF g nd part_ready_kept [OF part(2) I(3)] this] obtain g' es s1 h D' where
    1: "makeTasksForPartition E p t = Some (Inr (g', ?st\<lparr>calls := calls ?st @ es, dagAt := D'\<rparr>,
      if is_source g0 p then map s (filter (is_source g0) ys) @ [s1] else map s (filter (is_source g0) ys),
      if is_sink g0 p then map k (filter (is_sink g0) ys) @ [h] else map k (filter (is_sink g0) ys)))"
      "frame g g'" "ndata g' = (ndata g)(p \<mapsto> part\<lparr>mSrcTask := Some s1, mSinkTask := Some h\<rparr>)" "dags_kept ?st D'"
      "part_calls E ?st part (map k (preds g p)) es s1 h" unfolding I(1) same by blast
  let ?evs = "evs(p := es)" and ?s = "s(p := s1)" and ?k = "k(p := h)"
  have upd: "map ?evs ys = map evs ys" "map ?s (filter P ys) = map s (filter P ys)" "map ?k (filter P ys) = map k (filter P ys)" for P
    using p(2) by auto
  have kp: "map ?k (preds g0 q) = map k (preds g0 q)" if "q \<in> set (ys @ [p])" for q
  proof -
    have "set (preds g0 q) \<subseteq> set ys" using that topo pp same by auto
    then show ?thesis using p(2) by auto
  qed
  have pc: "part_calls E st part (map k (preds g0 p)) es s1 h"
    using 1(5) part_calls_kept [OF part(2) I(3)] same by simp
  have "loop_inv E g0 st (ys @ [p]) (g', ?st\<lparr>calls := calls ?st @ es, dagAt := D'\<rparr>,
      if is_source g0 p then map s (filter (is_source g0) ys) @ [s1] else map s (filter (is_source g0) ys),
      if is_sink g0 p then map k (filter (is_sink g0) ys) @ [h] else map k (filter (is_sink g0) ys)) ?evs ?s ?k"
    unfolding loop_inv_def
  proof (intro exI conjI)
    show "frame g0 g'" using I(2) 1(2) frame_trans by blast
    show "dags_kept st D'" using dags_kept_trans [OF I(3) 1(4)] .
    show "\<forall>q. q \<notin> set (ys @ [p]) \<longrightarrow> ndata g' q = ndata g0 q" using I(4) 1(3) by simp
    show "\<forall>q \<in> set (ys @ [p]). sink_of (ndata g') q = Some (?k q) \<and>
        part_calls E st (the (ndata g0 q)) (map ?k (preds g0 q)) (?evs q) (?s q) (?k q)"
    proof
      fix q assume q: "q \<in> set (ys @ [p])"
      show "sink_of (ndata g') q = Some (?k q) \<and> part_calls E st (the (ndata g0 q)) (map ?k (preds g0 q)) (?evs q) (?s q) (?k q)"
        unfolding kp [OF q] using q I(5) pc part(1) p(2) by (cases "q = p") (auto simp: 1(3) sink_of_def)
    qed
  qed (simp add: upd del: map_eq_conv fun_upd_apply, simp)
  with 1(1) show ?thesis by blast
qed

definition task_loop :: "ooc_env \<Rightarrow> addr \<Rightarrow> part dag \<times> ooc \<times> nat list \<times> nat list \<Rightarrow> (part dag \<times> ooc \<times> nat list \<times> nat list) res option" where
  "task_loop E p s = obind (Some (check (p \<noteq> 0) ''found null node in mAllNodes'')) (\<lambda>_. makeTasksForPartition E p s)"

lemma task_loop_eq: "p \<noteq> 0 \<Longrightarrow> task_loop E p = makeTasksForPartition E p"
  by (simp add: task_loop_def fun_eq_iff)

text \<open>Before an order of the partitions that respects the edges, the loop goes through.\<close>

lemma loop_ok:
  assumes g0: "task_dag g0" and r: "parts_ready E g0 st" and xs: "distinct xs" "set xs \<subseteq> verts g0" "topo_order (edges g0) xs"
  shows "\<exists>t evs s k. ofor_each (task_loop E) xs (g0, st, [], []) = Some (Inr t) \<and> loop_inv E g0 st xs t evs s k"
proof -
  have "\<exists>t. ofor_each (task_loop E) xs (g0, st, [], []) = Some (Inr t) \<and> (\<exists>evs s k. loop_inv E g0 st xs t evs s k)"
  proof (rule ofor_each_rule)
    show "\<exists>evs s k. loop_inv E g0 st [] (g0, st, [], []) evs s k"
      unfolding loop_inv_def by (intro exI [of _ g0] exI [of _ "dagAt st"] exI) (auto simp: dags_kept_def)
  next
    fix ys p zs t
    assume x: "xs = ys @ p # zs" and "\<exists>evs s k. loop_inv E g0 st ys t evs s k"
    then obtain evs s k where I: "loop_inv E g0 st ys t evs s k" by blast
    have p: "p \<in> verts g0" "p \<notin> set ys" "set ys \<subseteq> verts g0" "p \<noteq> 0"
      using xs x wf_dag_nonnull [of g0 p] g0 by (auto simp: task_dag_def)
    have ps: "\<forall>a. (a, p) \<in> edges g0 \<longrightarrow> a \<in> set ys" using xs(3) x by (auto simp: topo_order_def)
    have "topo_order (edges g0) ys" using xs(3) x by (auto simp: topo_order_def)
    then have "\<forall>q \<in> set ys. set (preds g0 q) \<subseteq> set ys"
      using preds_edges [OF g0] topo_order_pred p(3) by fastforce
    from loop_step [OF g0 r p(1,2) ps p(3) this I]
    show "\<exists>t'. task_loop E p t = Some (Inr t') \<and> (\<exists>evs s k. loop_inv E g0 st (ys @ [p]) t' evs s k)"
      unfolding task_loop_eq [OF p(4)] by blast
  qed
  then show ?thesis by blast
qed

text \<open>Otherwise it stops at the first partition in front of one of its predecessors.\<close>

lemma topo_order_break:
  assumes "\<not> topo_order E' xs"
  shows "\<exists>ys p zs a. xs = ys @ p # zs \<and> topo_order E' ys \<and> (a, p) \<in> E' \<and> a \<notin> set ys"
  using assms
proof (induction xs rule: rev_induct)
  case (snoc x xs)
  show ?case
  proof (cases "topo_order E' xs")
    case True
    then show ?thesis using snoc.prems unfolding topo_order_snoc by blast
  next
    case False
    then obtain ys p zs a where "xs = ys @ p # zs" "topo_order E' ys" "(a, p) \<in> E'" "a \<notin> set ys" using snoc.IH by blast
    then have "xs @ [x] = ys @ p # (zs @ [x]) \<and> topo_order E' ys \<and> (a, p) \<in> E' \<and> a \<notin> set ys" by simp
    then show ?thesis by blast
  qed
qed simp

lemma loop_fails:
  assumes g0: "task_dag g0" and r: "parts_ready E g0 st" and n: "\<not> topo_order (edges g0) (mAllNodes g0)"
  shows "ofor_each (task_loop E) (mAllNodes g0) (g0, st, [], []) = Some (Inl (Undefined ''uninitialised task handle''))"
proof -
  from topo_order_break [OF n] obtain ys p zs a where x: "mAllNodes g0 = ys @ p # zs" "topo_order (edges g0) ys"
    "(a, p) \<in> edges g0" "a \<notin> set ys" by blast
  have d: "distinct (mAllNodes g0)" using g0 by (simp add: task_dag_def wf_dag_def)
  have v: "set ys \<subseteq> verts g0" "p \<in> verts g0" "a \<in> verts g0" "distinct ys" "p \<noteq> 0"
    using x(1) d edges_verts [OF g0 x(3)] wf_dag_nonnull [of g0 p] g0 by (auto simp: verts_def task_dag_def)
  from loop_ok [OF g0 r v(4,1) x(2)] obtain t evs s k where
    t: "ofor_each (task_loop E) ys (g0, st, [], []) = Some (Inr t)" "loop_inv E g0 st ys t evs s k" by blast
  obtain g st' src snk where t': "t = (g, st', src, snk)" by (cases t)
  have g: "frame g0 g" "ndata g a = ndata g0 a" using t(2) x(4) by (auto simp: loop_inv_def t')
  have g2: "task_dag g" "p \<in> verts g" using g0 v g(1) by (simp_all add: frame_task_dag frame_verts)
  have wf: "wf_dag g" using g2(1) by (simp add: task_dag_def)
  have "is_source g p = False" using x(3) g(1) by (auto simp: is_source_def frame_edges)
  moreover have "sink_of (ndata g) a = None" using r v(3) g(2) by (auto simp: parts_ready_def sink_of_def)
  moreover have "a \<in> set (preds g p)" using preds_edges [OF g2(1,2)] x(3) g(1) by (simp add: frame_edges)
  moreover obtain part where "nodeData g p = Inr part" using nodeData_ok [OF wf g2(2)] by blast
  ultimately have "makeTasksForPartition E p t = Some (Inl (Undefined ''uninitialised task handle''))"
    using collectPredHandles_eq [OF wf task_dag_tests(3,4) [OF g2(1,2)]]
    by (auto simp: makeTasksForPartition_def t' task_dag_tests [OF g2(1,2)])
  then show ?thesis using t(1) by (simp add: x(1) ofor_each_append task_loop_eq [OF v(5)])
qed

section \<open>What the calls amount to\<close>

text \<open>Each partition of the graph is a block of calls that starts after the last tasks of its predecessors.\<close>

definition part_blocks :: "part dag \<Rightarrow> (addr \<Rightarrow> event list) \<Rightarrow> (addr \<Rightarrow> nat) \<Rightarrow> (addr \<Rightarrow> nat) \<Rightarrow> event list \<Rightarrow> bool" where
  "part_blocks g evs s k w \<longleftrightarrow> (\<forall>p \<in> verts g. set (tasks (evs p)) \<subseteq> set (tasks w) \<and>
     (\<exists>T. tasks (evs p) = (s p, map k (preds g p), True) # T \<and> stage T (s p) (k p)))"

lemma closed_subset: "set ts \<subseteq> set us \<Longrightarrow> closed_under us F \<Longrightarrow> closed_under ts F"
  unfolding closed_under_def by blast

lemma triggers_subset: "set ts \<subseteq> set us \<Longrightarrow> triggers us R \<Longrightarrow> triggers ts R"
  unfolding triggers_def by blast

lemma runs_triggers: "triggers (tasks w) {h. runs w h}"
  by (auto simp: triggers_def intro: runs.triggered)

lemma finished_closed: "finished w F \<Longrightarrow> closed_under (tasks w) F"
  by (auto simp: finished_def closed_under_def)

lemma block_parts:
  assumes "part_blocks g evs s k w" "p \<in> verts g"
  shows "handles_of (tasks (evs p)) = insert (s p) (handles_of (tl (tasks (evs p))))" "stage (tl (tasks (evs p))) (s p) (k p)"
    "(s p, map k (preds g p), True) \<in> set (tasks w)" "set (tl (tasks (evs p))) \<subseteq> set (tasks w)" "k p \<in> handles_of (tasks (evs p))"
proof -
  obtain T where T: "tasks (evs p) = (s p, map k (preds g p), True) # T" "stage T (s p) (k p)" "set (tasks (evs p)) \<subseteq> set (tasks w)"
    using assms by (auto simp: part_blocks_def)
  then have "k p \<in> handles_of T" by (simp add: stage_def)
  with T show "handles_of (tasks (evs p)) = insert (s p) (handles_of (tl (tasks (evs p))))" "stage (tl (tasks (evs p))) (s p) (k p)"
    "(s p, map k (preds g p), True) \<in> set (tasks w)" "set (tl (tasks (evs p))) \<subseteq> set (tasks w)" "k p \<in> handles_of (tasks (evs p))"
    by auto
qed

lemma blocks_run:
  assumes "task_dag g" "part_blocks g evs s k w" "p \<in> verts g"
    and "\<forall>q \<in> verts g. is_source g q \<longrightarrow> TaskActivate (s q) \<in> set w"
  shows "\<forall>h \<in> handles_of (tasks (evs p)). runs w h"
  using assms(1,3)
proof (induction p rule: dag_induct)
  case (1 p)
  note b = block_parts [OF assms(2) 1(1)]
  have "runs w (s p)"
  proof (cases "preds g p = []")
    case True
    then have "TaskActivate (s p) \<in> set w" using assms(4) source_preds [OF assms(1) 1(1)] 1(1) by blast
    then show ?thesis using runs.activated [of "s p" w] b(3) True by simp
  next
    case False
    have "\<forall>a \<in> set (preds g p). runs w (k a)"
      using 1(2) preds_edges [OF assms(1) 1(1)] block_parts(5) [OF assms(2)] edges_verts [OF assms(1)] by blast
    then show ?thesis using runs.triggered [OF b(3)] False by simp
  qed
  moreover have "triggers (tl (tasks (evs p))) {h. runs w h}" using triggers_subset [OF b(4) runs_triggers] .
  ultimately have "handles_of (tl (tasks (evs p))) \<subseteq> {h. runs w h}" using b(2) unfolding stage_def by blast
  then show ?case using \<open>runs w (s p)\<close> b(1) by auto
qed

lemma blocks_closed:
  assumes "task_dag g" "part_blocks g evs s k w" "closed_under (tasks w) F" "p \<in> verts g"
  shows "k p \<in> F \<Longrightarrow> handles_of (tasks (evs p)) \<subseteq> F"
    and "handles_of (tasks (evs p)) \<inter> F \<noteq> {} \<Longrightarrow> s p \<in> F \<and> (\<forall>a. (a, p) \<in> edges g \<longrightarrow> k a \<in> F)"
proof -
  note b = block_parts [OF assms(2,4)]
  have c: "closed_under (tl (tasks (evs p))) F" using closed_subset [OF b(4) assms(3)] .
  have s: "s p \<in> F \<Longrightarrow> \<forall>a. (a, p) \<in> edges g \<longrightarrow> k a \<in> F"
    using b(3) assms(3) preds_edges [OF assms(1,4)] by (fastforce simp: closed_under_def)
  have "handles_of (tl (tasks (evs p))) \<inter> F \<noteq> {} \<Longrightarrow> s p \<in> F" using b(2) c unfolding stage_def by blast
  then show 1: "handles_of (tasks (evs p)) \<inter> F \<noteq> {} \<Longrightarrow> s p \<in> F \<and> (\<forall>a. (a, p) \<in> edges g \<longrightarrow> k a \<in> F)"
    unfolding b(1) using s by auto
  assume k: "k p \<in> F"
  then have "handles_of (tl (tasks (evs p))) \<subseteq> F" using b(2) c unfolding stage_def by blast
  moreover have "s p \<in> F" using 1 k b(5) by blast
  ultimately show "handles_of (tasks (evs p)) \<subseteq> F" using b(1) by simp
qed

lemma blocks_finished:
  assumes "task_dag g" "part_blocks g evs s k w" "finished w F" "p \<in> verts g"
    and "\<forall>q \<in> verts g. is_sink g q \<longrightarrow> TaskWait (k q) \<in> set w"
  shows "handles_of (tasks (evs p)) \<subseteq> F"
  using assms(1,4)
proof (induction p rule: dag_induct_back)
  case (1 p)
  have "k p \<in> F"
  proof (cases "is_sink g p")
    case True
    then show ?thesis using assms(3,5) 1(1) by (auto simp: finished_def)
  next
    case False
    then obtain b where b: "(p, b) \<in> edges g" by (auto simp: is_sink_def)
    then have v: "b \<in> verts g" "handles_of (tasks (evs b)) \<subseteq> F" using 1(2) edges_verts [OF assms(1)] by blast+
    then have "handles_of (tasks (evs b)) \<inter> F \<noteq> {}" using block_parts(5) [OF assms(2) v(1)] by blast
    then show ?thesis using blocks_closed(2) [OF assms(1,2) finished_closed [OF assms(3)] v(1)] b by blast
  qed
  then show ?case using blocks_closed(1) [OF assms(1,2) finished_closed [OF assms(3)] 1(1)] by blast
qed

lemma blocks_exclusive:
  assumes "task_dag g" "part_blocks g evs s k w" "closed_under (tasks w) F" "(p, q) \<in> (edges g)\<^sup>+"
    and "handles_of (tasks (evs q)) \<inter> F \<noteq> {}"
  shows "handles_of (tasks (evs p)) \<subseteq> F"
  using assms(4,5)
proof (induction rule: converse_trancl_induct)
  case (base p)
  then show ?case using blocks_closed [OF assms(1-3)] edges_verts [OF assms(1) base(1)] by blast
next
  case (step p r)
  have v: "p \<in> verts g" "r \<in> verts g" using edges_verts [OF assms(1) step(1)] by auto
  have "handles_of (tasks (evs r)) \<inter> F \<noteq> {}" using step block_parts(5) [OF assms(2) v(2)] by blast
  then show ?case using blocks_closed [OF assms(1-3)] v step(1) by blast
qed

section \<open>The execution\<close>

lemma execute_blocks:
  assumes "task_dag g" "parts_ready E g st" and True: "topo_order (edges g) (mAllNodes g)"
  shows "\<exists>g' st' evs s k v. executePartitionDAG E (g, st) = Some (Inr (g', st')) \<and>
      calls st' = calls st @ concat (map evs (mAllNodes g)) @ v \<and> tasks v = [] \<and>
      (\<forall>p \<in> verts g. part_calls E st (the (ndata g p)) (map k (preds g p)) (evs p) (s p) (k p) \<and>
        (\<forall>h \<in> handles_of (tasks (evs p)). runs (calls st') h \<and> (\<forall>F. finished (calls st') F \<longrightarrow> h \<in> F))) \<and>
      (\<forall>F p q. closed_under (tasks (calls st')) F \<and> (p, q) \<in> (edges g)\<^sup>+ \<and> handles_of (tasks (evs q)) \<inter> F \<noteq> {} \<longrightarrow>
        handles_of (tasks (evs p)) \<subseteq> F)"
proof -
  have d: "distinct (mAllNodes g)" "set (mAllNodes g) \<subseteq> verts g" using assms(1) by (auto simp: task_dag_def wf_dag_def verts_def)
  from loop_ok [OF assms(1,2) d True] obtain t evs s k where
    t: "ofor_each (task_loop E) (mAllNodes g) (g, st, [], []) = Some (Inr t)" "loop_inv E g st (mAllNodes g) t evs s k" by blast
  let ?src = "map s (filter (is_source g) (mAllNodes g))" and ?snk = "map k (filter (is_sink g) (mAllNodes g))"
  obtain g' D where t': "t = (g', st\<lparr>calls := calls st @ concat (map evs (mAllNodes g)), dagAt := D\<rparr>, ?src, ?snk)"
    and pc: "\<forall>q \<in> verts g. part_calls E st (the (ndata g q)) (map k (preds g q)) (evs q) (s q) (k q)"
    using t(2) unfolding loop_inv_def verts_def by blast
  let ?v = "map TaskActivate ?src @ map TaskWait ?snk"
  let ?w = "calls st @ concat (map evs (mAllNodes g)) @ ?v"
  let ?st = "st\<lparr>calls := ?w, dagAt := D\<rparr>"
  have e: "executePartitionDAG E (g, st) = Some (Inr (g', ?st))"
    using t(1) by (simp add: executePartitionDAG_def task_loop_def [abs_def] t' waitOnTasks_eq activateTasks_eq)
  have sub: "set (tasks (evs p)) \<subseteq> set (tasks ?w)" if "p \<in> verts g" for p
  proof -
    have "set (tasks (concat (map evs xs))) = (\<Union>x \<in> set xs. set (tasks (evs x)))" for xs
      by (induction xs) auto
    then show ?thesis using that by (auto simp: verts_def)
  qed
  have b: "part_blocks g evs s k ?w"
    unfolding part_blocks_def using sub pc by (auto simp: part_calls_def Let_def)
  have "\<forall>q \<in> verts g. is_source g q \<longrightarrow> TaskActivate (s q) \<in> set ?w" "\<forall>q \<in> verts g. is_sink g q \<longrightarrow> TaskWait (k q) \<in> set ?w"
    by (auto simp: verts_def)
  then have "\<forall>p \<in> verts g. \<forall>h \<in> handles_of (tasks (evs p)). runs ?w h \<and> (\<forall>F. finished ?w F \<longrightarrow> h \<in> F)"
    using blocks_run [OF assms(1) b] blocks_finished [OF assms(1) b] by blast
  moreover have "tasks ?v = []" by (simp only: tasks_append tasks_activate tasks_wait append_Nil)
  ultimately have A: "\<forall>p \<in> verts g. part_calls E st (the (ndata g p)) (map k (preds g p)) (evs p) (s p) (k p) \<and>
      (\<forall>h \<in> handles_of (tasks (evs p)). runs ?w h \<and> (\<forall>F. finished ?w F \<longrightarrow> h \<in> F))" "tasks ?v = []"
    using pc by (blast, simp only:)
  have B: "\<forall>F p q. closed_under (tasks ?w) F \<and> (p, q) \<in> (edges g)\<^sup>+ \<and> handles_of (tasks (evs q)) \<inter> F \<noteq> {} \<longrightarrow>
      handles_of (tasks (evs p)) \<subseteq> F"
    using blocks_exclusive [OF assms(1) b] by blast
  have c: "calls ?st = ?w" by simp
  show ?thesis by (intro exI conjI, rule e, rule c, rule A(2), unfold c, rule A(1), rule B)
qed

lemma execute_fails:
  "task_dag g \<Longrightarrow> parts_ready E g st \<Longrightarrow> \<not> topo_order (edges g) (mAllNodes g) \<Longrightarrow>
    executePartitionDAG E (g, st) = Some (Inl (Undefined ''uninitialised task handle''))"
  using loop_fails [of g E st] by (simp add: executePartitionDAG_def task_loop_def [abs_def])

end
