(* ===== verification/Prepare.thy ===== *)
theory Prepare
  imports OutOfCoreRun
begin

text \<open>
  Preparation of a graph of partitions and its composition with the execution: slots are assigned and
  the graphs of the partitions are made and filled.
\<close>

text \<open>The allocator gives out new addresses as long as fewer than \<open>n\<close> graphs are live.\<close>

definition fresh_dags :: "ooc_env \<Rightarrow> nat \<Rightarrow> bool" where
  "fresh_dags E n \<longleftrightarrow> (\<forall>st. finite (dom (dagAt st)) \<and> card (dom (dagAt st)) < n \<longrightarrow>
     newDag E st \<noteq> 0 \<and> dagAt st (newDag E st) = None)"

text \<open>A partition whose function fills its graph properly, for every slot, and whose data fit the slots.\<close>

definition fillable :: "ooc_env \<Rightarrow> ooc \<Rightarrow> part \<Rightarrow> bool" where
  "fillable E st part \<longleftrightarrow> mSinkTask part = None \<and> (\<forall>s \<in> set (mDeviceDataSlots st). \<exists>dev host td.
     devAt st s = Some dev \<and> hostAt st (mHostData part) = Some host \<and>
     same_blocks (walkE E) (s, devBlocks dev) (mHostData part, host) \<and>
     mDAGfillFunc part s (dag_empty NodeInOut) = Inr td \<and> task_dag td \<and> verts td \<noteq> {})"

definition filled :: "part \<Rightarrow> (addr \<Rightarrow> gpu_task dag option) \<Rightarrow> bool" where
  "filled part D \<longleftrightarrow> (\<exists>td. mDAGfillFunc part (mDeviceData part) (dag_empty NodeInOut) = Inr td \<and> D (mDAGptr part) = Some td)"

lemma fill_ok:
  assumes wf: "wf_dag g" "distinct (mAllNodes g)" and sl: "mDeviceDataSlots st \<noteq> []"
    and ps: "\<forall>p \<in> verts g. \<exists>part. ndata g p = Some part \<and> fillable E st part \<and> mDeviceData part \<in> set (mDeviceDataSlots st)"
    and fr: "fresh_dags E n" "finite (dom (dagAt st))" "card (dom (dagAt st)) + card (verts g) \<le> n"
  shows "\<exists>g' m D. makePerPartitionDAGs E (g, st) = Inr (g', st\<lparr>mDAGmgr := m, dagAt := D\<rparr>) \<and> frame g g' \<and>
    (\<forall>p \<in> verts g. \<exists>d. d \<noteq> 0 \<and> ndata g' p = map_option (\<lambda>x. x\<lparr>mDAGptr := d\<rparr>) (ndata g p) \<and> filled (the (ndata g' p)) D)"
proof -
  let ?P = "\<lambda>ys t. \<exists>g' m D. t = (g', st\<lparr>mDAGmgr := m, dagAt := D\<rparr>) \<and> frame g g' \<and> finite (dom D) \<and>
      card (dom D) \<le> card (dom (dagAt st)) + length ys \<and> (\<forall>p. p \<notin> set ys \<longrightarrow> ndata g' p = ndata g p) \<and>
      (\<forall>p \<in> set ys. \<exists>d. d \<noteq> 0 \<and> ndata g' p = map_option (\<lambda>x. x\<lparr>mDAGptr := d\<rparr>) (ndata g p) \<and> filled (the (ndata g' p)) D)"
  have "\<exists>t. for_each (fill_partition E) (mAllNodes g) (g, st) = Inr t \<and> ?P (mAllNodes g) t"
  proof (rule for_each_rule)
    show "?P [] (g, st)" by (rule exI [of _ g], rule exI [of _ "mDAGmgr st"], rule exI [of _ "dagAt st"]) (simp add: fr(2))
  next
    fix ys p zs t
    assume x: "mAllNodes g = ys @ p # zs" and "?P ys t"
    then obtain g' m D where t: "t = (g', st\<lparr>mDAGmgr := m, dagAt := D\<rparr>)" "frame g g'" "finite (dom D)"
      "card (dom D) \<le> card (dom (dagAt st)) + length ys" "\<forall>p. p \<notin> set ys \<longrightarrow> ndata g' p = ndata g p"
      "\<forall>p \<in> set ys. \<exists>d. d \<noteq> 0 \<and> ndata g' p = map_option (\<lambda>x. x\<lparr>mDAGptr := d\<rparr>) (ndata g p) \<and> filled (the (ndata g' p)) D"
      by blast
    let ?st = "st\<lparr>mDAGmgr := m, dagAt := D\<rparr>" let ?d = "newDag E ?st"
    have p: "p \<in> verts g" "p \<notin> set ys" "p \<in> verts g'" "wf_dag g'"
      using x wf t(2) by (auto simp: verts_def frame_wf) (auto simp: frame_def)
    obtain part where part: "ndata g p = Some part" "fillable E st part" "mDeviceData part \<in> set (mDeviceDataSlots st)"
      using ps p(1) by blast
    then have nd: "nodeData g' p = Inr part" using nodeData_ok [OF p(4,3)] t(5) p(2) by auto
    have "length (mAllNodes g) = card (verts g)" using wf(2) by (simp add: verts_def distinct_card)
    then have "card (dom D) < n" using t(4) fr(3) x by simp
    then have d: "?d \<noteq> 0" "D ?d = None" using fr(1) [unfolded fresh_dags_def, rule_format, of ?st] t(3) by simp_all
    obtain td where td: "mDAGfillFunc part (mDeviceData part) (dag_empty NodeInOut) = Inr td" using part(2,3) unfolding fillable_def by blast
    obtain g2 where g2: "set_nodeData p (part\<lparr>mDAGptr := ?d\<rparr>) g' = Inr g2" "frame g' g2" "ndata g2 = (ndata g')(p \<mapsto> part\<lparr>mDAGptr := ?d\<rparr>)"
      using set_nodeData_frame [OF p(4,3)] by blast
    let ?m = "m\<lparr>liveDAGs := (liveDAGs m)(?d \<mapsto> 0)\<rparr>" and ?D = "D(?d \<mapsto> td)"
    have f1: "fill_partition E p t = Inr (g2, st\<lparr>mDAGmgr := ?m, dagAt := ?D\<rparr>)"
      using d(1) td g2(1) by (simp add: t(1) fill_partition_def nd makeDAG_def makeDAG_noid_def allocDAG_def dag_at_def fillDAG_def Let_def)
    have f2: "frame g g2" using t(2) g2(2) frame_trans by blast
    have f3: "card (dom ?D) \<le> card (dom (dagAt st)) + length (ys @ [p])"
      using t(3,4) d(2) by (simp add: card_insert_if)
    have f4: "\<forall>q \<in> set (ys @ [p]). \<exists>d. d \<noteq> 0 \<and> ndata g2 q = map_option (\<lambda>x. x\<lparr>mDAGptr := d\<rparr>) (ndata g q) \<and> filled (the (ndata g2 q)) ?D"
    proof
      fix q assume q: "q \<in> set (ys @ [p])"
      show "\<exists>d. d \<noteq> 0 \<and> ndata g2 q = map_option (\<lambda>x. x\<lparr>mDAGptr := d\<rparr>) (ndata g q) \<and> filled (the (ndata g2 q)) ?D"
      proof (cases "q = p")
        case True
        then show ?thesis using d(1) part(1) td by (intro exI [of _ ?d]) (simp add: g2(3) filled_def)
      next
        case False
        then have "q \<in> set ys" using q by simp
        then obtain e where e: "e \<noteq> 0" "ndata g' q = map_option (\<lambda>x. x\<lparr>mDAGptr := e\<rparr>) (ndata g q)" "filled (the (ndata g' q)) D"
          using t(6) by blast
        then have "filled (the (ndata g' q)) ?D" using d(2) unfolding filled_def by (metis fun_upd_other option.distinct(1))
        then show ?thesis using e False by (auto simp: g2(3))
      qed
    qed
    have f5: "\<forall>q. q \<notin> set (ys @ [p]) \<longrightarrow> ndata g2 q = ndata g q" using t(5) by (simp add: g2(3))
    have f6: "finite (dom ?D)" using t(3) by simp
    show "\<exists>t'. fill_partition E p t = Inr t' \<and> ?P (ys @ [p]) t'"
      by (intro exI conjI, rule f1, rule refl, rule f2, rule f6, rule f3, rule f5, rule f4)
  qed
  then obtain g' m D where l: "for_each (fill_partition E) (mAllNodes g) (g, st) = Inr (g', st\<lparr>mDAGmgr := m, dagAt := D\<rparr>)" "frame g g'"
    "\<forall>p \<in> verts g. \<exists>d. d \<noteq> 0 \<and> ndata g' p = map_option (\<lambda>x. x\<lparr>mDAGptr := d\<rparr>) (ndata g p) \<and> filled (the (ndata g' p)) D"
    unfolding verts_def by blast
  have "0 \<notin> verts g" using wf(1) by (simp add: wf_dag_def)
  then have "makePerPartitionDAGs E (g, st) = Inr (g', st\<lparr>mDAGmgr := m, dagAt := D\<rparr>)"
    using l(1) by (simp add: makePerPartitionDAGs_def forEachNode_eq)
  then show ?thesis by (intro exI conjI, assumption, intro l(2), intro l(3))
qed

lemma prepare_ok:
  assumes g: "task_dag g" and ps: "\<forall>p \<in> verts g. \<exists>part. ndata g p = Some part \<and> fillable E st part"
    and sl: "mDeviceDataSlots st \<noteq> []"
    and fr: "fresh_dags E n" "finite (dom (dagAt st))" "card (dom (dagAt st)) + card (verts g) \<le> n"
  shows "\<exists>g1 st1. preparePartitionDAG E (g, st) = Some (Inr (g1, st1)) \<and> task_dag g1 \<and> mAllNodes g1 = mAllNodes g \<and>
    edges g \<subseteq> edges g1 \<and> parts_ready E g1 st1 \<and> calls st1 = calls st \<and>
    (\<forall>p \<in> verts g. \<exists>x. nodeData g1 p = Inr x \<and> mDeviceData x \<in> set (mDeviceDataSlots st)) \<and>
    (distinct (mDeviceDataSlots st) \<longrightarrow> (\<forall>p \<in> verts g. \<forall>q \<in> verts g. \<forall>x y. p \<noteq> q \<and> nodeData g1 p = Inr x \<and> nodeData g1 q = Inr y \<and>
      mDeviceData x = mDeviceData y \<longrightarrow> (p, q) \<in> (edges g1)\<^sup>+ \<or> (q, p) \<in> (edges g1)\<^sup>+)) \<and>
    (edges g = {} \<longrightarrow> edges g1 = set (slot_edges (length (mDeviceDataSlots st)) (rev (mAllNodes g))))"
proof -
  let ?S = "mDeviceDataSlots st"
  have k: "wf_dag g" "countable_dag g" "dkind g = NodeInOut" "acyclic (edges g)" using g by (auto simp: task_dag_def)
  from shared_slots_ordered [OF k sl] obtain h where
    h: "assignDeviceDataSlots ?S g = Some (Inr h)" "wf_dag h" "mAllNodes h = mAllNodes g" "dkind h = NodeInOut" "acyclic (edges h)"
      "edges g \<subseteq> edges h"
      "\<forall>p \<in> verts g. \<exists>part s. nodeData g p = Inr part \<and> s \<in> set ?S \<and> nodeData h p = Inr (use_slot s part)"
      "distinct ?S \<longrightarrow> (\<forall>p \<in> verts g. \<forall>q \<in> verts g. \<forall>x y. p \<noteq> q \<and> nodeData h p = Inr x \<and> nodeData h q = Inr y \<and>
        mDeviceData x = mDeviceData y \<longrightarrow> (p, q) \<in> (edges h)\<^sup>+ \<or> (q, p) \<in> (edges h)\<^sup>+)"
      "edges g = {} \<longrightarrow> edges h = set (slot_edges (length ?S) (rev (mAllNodes g)))" by blast
  have V: "verts h = verts g" by (simp add: verts_def h(3))
  have h_dag: "task_dag h" using h k(2) by (simp add: task_dag_def countable_dag_def)
  have hp: "\<exists>part. ndata h p = Some part \<and> fillable E st part \<and> mDeviceData part \<in> set ?S" if p: "p \<in> verts g" for p
  proof -
    obtain part where part: "nodeData g p = Inr part" "ndata g p = Some part" "fillable E st part"
      using nodeData_ok [OF k(1) p] ps p by fastforce
    obtain x where x: "nodeData h p = Inr x" "ndata h p = Some x" using nodeData_ok [OF h(2)] p V by blast
    obtain s where "s \<in> set ?S" "x = use_slot s part" using h(7) p part(1) x(1) by auto
    then show ?thesis using part(3) x(2) by (simp add: use_slot_def fillable_def)
  qed
  have d: "distinct (mAllNodes h)" using h(2) by (simp add: wf_dag_def)
  have hp': "\<forall>p \<in> verts h. \<exists>part. ndata h p = Some part \<and> fillable E st part \<and> mDeviceData part \<in> set ?S" using hp V by blast
  from fill_ok [OF h(2) d sl hp' fr(1,2)] fr(3) V obtain g1 m D where
    f: "makePerPartitionDAGs E (h, st) = Inr (g1, st\<lparr>mDAGmgr := m, dagAt := D\<rparr>)" "frame h g1"
      "\<forall>p \<in> verts h. \<exists>d. d \<noteq> 0 \<and> ndata g1 p = map_option (\<lambda>x. x\<lparr>mDAGptr := d\<rparr>) (ndata h p) \<and> filled (the (ndata g1 p)) D"
    by auto
  let ?st1 = "st\<lparr>mDAGmgr := m, dagAt := D\<rparr>"
  have g1: "task_dag g1" "wf_dag g1" "verts g1 = verts g" "edges g1 = edges h"
    using f(2) h_dag V by (simp_all add: frame_task_dag frame_verts frame_edges) (simp add: frame_wf h(2))
  have data: "\<exists>d x. nodeData h p = Inr x \<and> nodeData g1 p = Inr (x\<lparr>mDAGptr := d\<rparr>) \<and> ndata g1 p = Some (x\<lparr>mDAGptr := d\<rparr>) \<and>
      fillable E st x \<and> mDeviceData x \<in> set ?S \<and> filled (x\<lparr>mDAGptr := d\<rparr>) D" if p: "p \<in> verts g" for p
  proof -
    obtain x where x: "ndata h p = Some x" "fillable E st x" "mDeviceData x \<in> set ?S" using hp [OF p] by blast
    obtain d where y: "ndata g1 p = Some (x\<lparr>mDAGptr := d\<rparr>)" "filled (x\<lparr>mDAGptr := d\<rparr>) D" using f(3) p V x(1) by fastforce
    have "nodeData h p = Inr x" using nodeData_ok [OF h(2)] p V x(1) by fastforce
    moreover have "nodeData g1 p = Inr (x\<lparr>mDAGptr := d\<rparr>)" using nodeData_ok [OF g1(2)] p g1(3) y(1) by fastforce
    ultimately show ?thesis using x y by blast
  qed
  have "parts_ready E g1 ?st1"
    unfolding parts_ready_def
  proof
    fix p assume "p \<in> verts g1"
    then obtain d x where x: "ndata g1 p = Some (x\<lparr>mDAGptr := d\<rparr>)" "fillable E st x" "mDeviceData x \<in> set ?S" "filled (x\<lparr>mDAGptr := d\<rparr>) D"
      using data g1(3) by blast
    then have "part_ready E ?st1 (x\<lparr>mDAGptr := d\<rparr>)"
      by (fastforce simp: fillable_def filled_def part_ready_def)
    then show "\<exists>part. ndata g1 p = Some part \<and> part_ready E ?st1 part \<and> mSinkTask part = None"
      using x(1,2) by (simp add: fillable_def)
  qed
  moreover have "preparePartitionDAG E (g, st) = Some (Inr (g1, ?st1))" using h(1) f(1) by (simp add: preparePartitionDAG_def)
  moreover have "mAllNodes g1 = mAllNodes g" using f(2) h(3) by (simp add: frame_def)
  moreover have "\<forall>p \<in> verts g. \<exists>x. nodeData g1 p = Inr x \<and> mDeviceData x \<in> set ?S" using data by fastforce
  moreover have "(p, q) \<in> (edges g1)\<^sup>+ \<or> (q, p) \<in> (edges g1)\<^sup>+"
    if r: "distinct ?S" "p \<in> verts g" "q \<in> verts g" "p \<noteq> q" "nodeData g1 p = Inr x" "nodeData g1 q = Inr y" "mDeviceData x = mDeviceData y"
    for p q x y
  proof -
    obtain x' where "nodeData h p = Inr x'" "mDeviceData x' = mDeviceData x" using data [OF r(2)] r(5) by auto
    moreover obtain y' where "nodeData h q = Inr y'" "mDeviceData y' = mDeviceData y" using data [OF r(3)] r(6) by auto
    ultimately show ?thesis using h(8) r(1-4,7) unfolding g1(4) by metis
  qed
  moreover have "edges g = {} \<longrightarrow> edges g1 = set (slot_edges (length ?S) (rev (mAllNodes g)))" using h(9) g1(4) by simp
  ultimately show ?thesis using g1(1,4) h(6)
    by (intro exI [of _ g1] exI [of _ ?st1]) auto
qed

section \<open>Properties\<close>

text \<open>
  C6: executing a graph of partitions, which the code does in the order in which the partitions were
  added, returns if and only if no partition was added before one of its predecessors; otherwise a
  task handle is read that was never written. If it returns, every partition has its own block of
  calls, with the copies in, the tasks of its graph and the copies out; every task runs; when the
  waits are over, every task has finished; and as long as one task of a partition is not finished, no
  task of a partition that depends on it is.
\<close>

theorem partitions_execute:
  assumes "task_dag g" "parts_ready E g st"
  shows "if topo_order (edges g) (mAllNodes g) then \<exists>g' st' evs s k v.
      executePartitionDAG E (g, st) = Some (Inr (g', st')) \<and>
      calls st' = calls st @ concat (map evs (mAllNodes g)) @ v \<and> tasks v = [] \<and>
      (\<forall>p \<in> verts g. part_calls E st (the (ndata g p)) (map k (preds g p)) (evs p) (s p) (k p) \<and>
        (\<forall>h \<in> handles_of (tasks (evs p)). runs (calls st') h \<and> (\<forall>F. finished (calls st') F \<longrightarrow> h \<in> F))) \<and>
      (\<forall>F p q. closed_under (tasks (calls st')) F \<and> (p, q) \<in> (edges g)\<^sup>+ \<and> handles_of (tasks (evs q)) \<inter> F \<noteq> {} \<longrightarrow>
        handles_of (tasks (evs p)) \<subseteq> F)
    else executePartitionDAG E (g, st) = Some (Inl (Undefined ''uninitialised task handle''))"
  using execute_blocks [OF assms] execute_fails [OF assms] by (cases "topo_order (edges g) (mAllNodes g)") (simp_all only: if_True if_False simp_thms)

text \<open>
  C5: preparing an acyclic graph of partitions returns an acyclic graph with all its dependences, in which
  every partition uses one of the device data slots. If the execution of that graph returns, then all
  tasks of all partitions run and have finished when the waits are over, and two partitions with the
  same slot never overlap: as long as a task of the one is unfinished, no task of the other is
  finished, in one of the two orders.
\<close>

theorem slots_never_shared:
  assumes "task_dag g" "\<forall>p \<in> verts g. \<exists>part. ndata g p = Some part \<and> fillable E st part"
    and "mDeviceDataSlots st \<noteq> []" "distinct (mDeviceDataSlots st)"
    and "fresh_dags E n" "finite (dom (dagAt st))" "card (dom (dagAt st)) + card (verts g) \<le> n"
  shows "\<exists>g1 st1. preparePartitionDAG E (g, st) = Some (Inr (g1, st1)) \<and> task_dag g1 \<and> mAllNodes g1 = mAllNodes g \<and>
    edges g \<subseteq> edges g1 \<and> (\<forall>p \<in> verts g. \<exists>x. nodeData g1 p = Inr x \<and> mDeviceData x \<in> set (mDeviceDataSlots st)) \<and>
    (\<forall>g2 st2. executePartitionDAG E (g1, st1) = Some (Inr (g2, st2)) \<longrightarrow> (\<exists>evs v.
      calls st2 = calls st @ concat (map evs (mAllNodes g)) @ v \<and> tasks v = [] \<and>
      (\<forall>p \<in> verts g. \<forall>h \<in> handles_of (tasks (evs p)). runs (calls st2) h \<and> (\<forall>F. finished (calls st2) F \<longrightarrow> h \<in> F)) \<and>
      (\<forall>p \<in> verts g. \<forall>q \<in> verts g. \<forall>x y. p \<noteq> q \<and> nodeData g1 p = Inr x \<and> nodeData g1 q = Inr y \<and> mDeviceData x = mDeviceData y \<longrightarrow>
        (\<forall>F. closed_under (tasks (calls st2)) F \<and> handles_of (tasks (evs q)) \<inter> F \<noteq> {} \<longrightarrow> handles_of (tasks (evs p)) \<subseteq> F) \<or>
        (\<forall>F. closed_under (tasks (calls st2)) F \<and> handles_of (tasks (evs p)) \<inter> F \<noteq> {} \<longrightarrow> handles_of (tasks (evs q)) \<subseteq> F))))"
proof -
  from prepare_ok [OF assms(1-3,5-7)] assms(4) obtain g1 st1 where
    g1: "preparePartitionDAG E (g, st) = Some (Inr (g1, st1))" "task_dag g1" "mAllNodes g1 = mAllNodes g"
      "edges g \<subseteq> edges g1" "parts_ready E g1 st1" "calls st1 = calls st"
      "\<forall>p \<in> verts g. \<exists>x. nodeData g1 p = Inr x \<and> mDeviceData x \<in> set (mDeviceDataSlots st)"
      "\<forall>p \<in> verts g. \<forall>q \<in> verts g. \<forall>x y. p \<noteq> q \<and> nodeData g1 p = Inr x \<and> nodeData g1 q = Inr y \<and>
        mDeviceData x = mDeviceData y \<longrightarrow> (p, q) \<in> (edges g1)\<^sup>+ \<or> (q, p) \<in> (edges g1)\<^sup>+" by blast
  have V: "verts g1 = verts g" by (simp add: verts_def g1(3))
  have "\<exists>evs v. calls st2 = calls st @ concat (map evs (mAllNodes g)) @ v \<and> tasks v = [] \<and>
      (\<forall>p \<in> verts g. \<forall>h \<in> handles_of (tasks (evs p)). runs (calls st2) h \<and> (\<forall>F. finished (calls st2) F \<longrightarrow> h \<in> F)) \<and>
      (\<forall>p \<in> verts g. \<forall>q \<in> verts g. \<forall>x y. p \<noteq> q \<and> nodeData g1 p = Inr x \<and> nodeData g1 q = Inr y \<and> mDeviceData x = mDeviceData y \<longrightarrow>
        (\<forall>F. closed_under (tasks (calls st2)) F \<and> handles_of (tasks (evs q)) \<inter> F \<noteq> {} \<longrightarrow> handles_of (tasks (evs p)) \<subseteq> F) \<or>
        (\<forall>F. closed_under (tasks (calls st2)) F \<and> handles_of (tasks (evs p)) \<inter> F \<noteq> {} \<longrightarrow> handles_of (tasks (evs q)) \<subseteq> F))"
    if r: "executePartitionDAG E (g1, st1) = Some (Inr (g2, st2))" for g2 st2
  proof -
    have t: "topo_order (edges g1) (mAllNodes g1)"
    proof (rule ccontr)
      assume "\<not> topo_order (edges g1) (mAllNodes g1)"
      then show False using execute_fails [OF g1(2,5)] r by simp
    qed
    from execute_blocks [OF g1(2,5) t] obtain g' st' evs s k v where
      e: "executePartitionDAG E (g1, st1) = Some (Inr (g', st'))" "calls st' = calls st1 @ concat (map evs (mAllNodes g1)) @ v" "tasks v = []"
        "\<forall>p \<in> verts g1. part_calls E st1 (the (ndata g1 p)) (map k (preds g1 p)) (evs p) (s p) (k p) \<and>
          (\<forall>h \<in> handles_of (tasks (evs p)). runs (calls st') h \<and> (\<forall>F. finished (calls st') F \<longrightarrow> h \<in> F))"
        "\<forall>F p q. closed_under (tasks (calls st')) F \<and> (p, q) \<in> (edges g1)\<^sup>+ \<and> handles_of (tasks (evs q)) \<inter> F \<noteq> {} \<longrightarrow>
          handles_of (tasks (evs p)) \<subseteq> F" by (elim exE conjE) rule
    have st: "st' = st2" using e(1) r by simp
    have 1: "calls st2 = calls st @ concat (map evs (mAllNodes g)) @ v" using e(2) g1(3,6) st by simp
    have 2: "\<forall>p \<in> verts g. \<forall>h \<in> handles_of (tasks (evs p)). runs (calls st2) h \<and> (\<forall>F. finished (calls st2) F \<longrightarrow> h \<in> F)"
      using e(4) unfolding V st by blast
    have 3: "\<forall>p \<in> verts g. \<forall>q \<in> verts g. \<forall>x y. p \<noteq> q \<and> nodeData g1 p = Inr x \<and> nodeData g1 q = Inr y \<and> mDeviceData x = mDeviceData y \<longrightarrow>
        (\<forall>F. closed_under (tasks (calls st2)) F \<and> handles_of (tasks (evs q)) \<inter> F \<noteq> {} \<longrightarrow> handles_of (tasks (evs p)) \<subseteq> F) \<or>
        (\<forall>F. closed_under (tasks (calls st2)) F \<and> handles_of (tasks (evs p)) \<inter> F \<noteq> {} \<longrightarrow> handles_of (tasks (evs q)) \<subseteq> F)"
    proof (intro ballI allI impI)
      fix p q x y assume "p \<in> verts g" "q \<in> verts g"
        "p \<noteq> q \<and> nodeData g1 p = Inr x \<and> nodeData g1 q = Inr y \<and> mDeviceData x = mDeviceData y"
      then have "(p, q) \<in> (edges g1)\<^sup>+ \<or> (q, p) \<in> (edges g1)\<^sup>+" using g1(8) by blast
      then show "(\<forall>F. closed_under (tasks (calls st2)) F \<and> handles_of (tasks (evs q)) \<inter> F \<noteq> {} \<longrightarrow> handles_of (tasks (evs p)) \<subseteq> F) \<or>
          (\<forall>F. closed_under (tasks (calls st2)) F \<and> handles_of (tasks (evs p)) \<inter> F \<noteq> {} \<longrightarrow> handles_of (tasks (evs q)) \<subseteq> F)"
        using e(5) unfolding st by blast
    qed
    show ?thesis by (intro exI conjI, rule 1, rule e(3), rule 2, rule 3)
  qed
  then show ?thesis by (intro exI [of _ g1] exI [of _ st1] conjI g1(1) g1(2) g1(3) g1(4) g1(7) allI impI) blast
qed

text \<open>The slots of partitions that were independent order them against the order of insertion.\<close>

lemma slot_edges_rev:
  assumes "distinct xs" "0 < N"
  shows "topo_order (set (slot_edges N (rev xs))) xs \<longleftrightarrow> length xs \<le> N"
proof
  assume "length xs \<le> N"
  then show "topo_order (set (slot_edges N (rev xs))) xs" by (simp add: topo_order_def slot_edges_def)
next
  assume t: "topo_order (set (slot_edges N (rev xs))) xs"
  show "length xs \<le> N"
  proof (rule ccontr)
    let ?n = "length xs"
    assume "\<not> ?n \<le> N"
    then have n: "N < ?n" "xs \<noteq> []" by auto
    have "(rev xs ! 0, rev xs ! N) \<in> set (slot_edges N (rev xs))"
      unfolding slot_edges_in using n by (intro exI [of _ N]) simp
    moreover have "rev xs ! 0 = xs ! (?n - 1)" "rev xs ! N = xs ! (?n - Suc N)" using n by (auto simp: rev_nth [of 0] rev_nth [of N])
    ultimately have "?n - 1 < ?n - Suc N" using topo_order_before [OF t assms(1), of "?n - 1" "?n - Suc N"] n by simp
    then show False using assms(2) by simp
  qed
qed

text \<open>
  C25: partitions without any dependence are executed if and only if there is a device data slot for
  each of them. With fewer slots than partitions, the traversal that assigns the slots visits the
  partition added last first, so an earlier one is made to depend on it for its slot, and the
  execution, in the order of insertion, reads the handle of a task that was not made yet.
\<close>

theorem independent_partitions_fail:
  assumes "task_dag g" "edges g = {}" "\<forall>p \<in> verts g. \<exists>part. ndata g p = Some part \<and> fillable E st part"
    and "mDeviceDataSlots st \<noteq> []"
    and "fresh_dags E n" "finite (dom (dagAt st))" "card (dom (dagAt st)) + card (verts g) \<le> n"
  shows "\<exists>g1 st1. preparePartitionDAG E (g, st) = Some (Inr (g1, st1)) \<and>
    (if card (verts g) \<le> numDeviceDataSlots st then \<exists>r. executePartitionDAG E (g1, st1) = Some (Inr r)
     else executePartitionDAG E (g1, st1) = Some (Inl (Undefined ''uninitialised task handle'')))"
proof -
  from prepare_ok [OF assms(1,3-7)] assms(2) obtain g1 st1 where
    g1: "preparePartitionDAG E (g, st) = Some (Inr (g1, st1))" "task_dag g1" "mAllNodes g1 = mAllNodes g" "parts_ready E g1 st1"
      "edges g1 = set (slot_edges (length (mDeviceDataSlots st)) (rev (mAllNodes g)))" by blast
  have d: "distinct (mAllNodes g)" using assms(1) by (simp add: task_dag_def wf_dag_def)
  then have "card (verts g) = length (mAllNodes g)" by (simp add: verts_def distinct_card)
  then have t: "topo_order (edges g1) (mAllNodes g1) \<longleftrightarrow> card (verts g) \<le> numDeviceDataSlots st"
    using slot_edges_rev [OF d, of "length (mDeviceDataSlots st)"] assms(4) by (simp add: g1(3,5) numDeviceDataSlots_def)
  show ?thesis
  proof (cases "card (verts g) \<le> numDeviceDataSlots st")
    case True
    then show ?thesis using g1(1) execute_blocks [OF g1(2,4)] t by (intro exI [of _ g1] exI [of _ st1]) auto
  next
    case False
    then show ?thesis using g1(1) execute_fails [OF g1(2,4)] t by (intro exI [of _ g1] exI [of _ st1]) simp
  qed
qed

section \<open>Examples\<close>

definition demo_env :: ooc_env where
  "demo_env = \<lparr>atmiE = \<lparr>hnd = length, kern = length\<rparr>, bufE = demo_runtime, syncE = False, walkE = id,
     newDag = (\<lambda>st. case List.find (\<lambda>a. dagAt st a = None) [100, 101, 102] of Some a \<Rightarrow> a | None \<Rightarrow> 0),
     newDev = (\<lambda>st. 60 + length (mDeviceDataSlots st))\<rparr>"

definition demo_ooc :: ooc where
  "demo_ooc = \<lparr>mNullKern = \<lparr>gk_kern = 0\<rparr>, mDAGmgr = mgr_empty, dagAt = (\<lambda>_. None),
     hostAt = [40 \<mapsto> [(''x'', \<lparr>mPtr = 16, mBlkSize = 8\<rparr>)], 41 \<mapsto> [(''x'', \<lparr>mPtr = 32, mBlkSize = 8\<rparr>)]],
     devAt = [50 \<mapsto> \<lparr>devBlocks = [(''x'', \<lparr>mPtr = 1000, mBlkSize = 8\<rparr>)], mDeviceDataPtr = 0\<rparr>],
     mDeviceDataSlots = [50], buffers = demo_mem, calls = []\<rparr>"

definition demo_fill :: "nat \<Rightarrow> gpu_task dag \<Rightarrow> gpu_task dag res" where
  "demo_fill dev g = rbind (addNode 1 gpu_noop g) (\<lambda>(_, g). Inr g)"

definition demo_parts :: "(addr \<times> addr) list \<Rightarrow> part dag res" where
  "demo_parts es = build NodeInOut [(1, partition_make demo_fill 40), (2, partition_make demo_fill 41)] es"

lemma add_nodes_ndata:
  assumes "for_each (\<lambda>(t, d) g. rbind (addNode t d g) (\<lambda>(_, g'). Inr g')) ns g0 = Inr g" "distinct (map fst ns)"
  shows "ndata g = ndata g0 ++ map_of ns"
  using assms
proof (induction ns arbitrary: g0)
  case (Cons n ns)
  obtain t d where n: "n = (t, d)" by (cases n)
  obtain g1 where g1: "addNode t d g0 = Inr (t, g1)" "for_each (\<lambda>(t, d) g. rbind (addNode t d g) (\<lambda>(_, g'). Inr g')) ns g1 = Inr g"
    using Cons.prems(1) by (auto simp: n rbind_eq_Inr addNode_def Let_def)
  have nd: "ndata g1 = (ndata g0)(t \<mapsto> d)"
    using g1(1) by (auto simp: addNode_def rbind_eq_Inr Let_def put_node_def make_node_def ndata_def fun_eq_iff)
  have "t \<notin> dom (map_of ns)" using Cons.prems(2) n by (simp add: dom_map_of_conv_image_fst)
  then have "(ndata g0)(t \<mapsto> d) ++ map_of ns = ndata g0 ++ map_of (n # ns)"
    by (auto simp: n fun_eq_iff map_add_def split: option.splits)
  then show ?case using Cons.IH [OF g1(2)] Cons.prems(2) by (simp only: nd list.map distinct.simps simp_thms)
qed simp

lemma add_edges_ndata:
  "for_each (\<lambda>(a, b) g. addEdge a b g) es g = Inr g' \<Longrightarrow> ndata g' = ndata g"
proof (induction es arbitrary: g)
  case (Cons e es)
  then obtain g1 where "addEdge (fst e) (snd e) g = Inr g1" "for_each (\<lambda>(a, b) g. addEdge a b g) es g1 = Inr g'"
    by (auto simp: rbind_eq_Inr case_prod_beta')
  then show ?case using Cons.IH addEdge_keeps by metis
qed simp

lemma demo_filled: "\<exists>td. demo_fill dev (dag_empty NodeInOut) = Inr td \<and> task_dag td \<and> verts td \<noteq> {}"
proof -
  obtain td where "build NodeInOut [(1, gpu_noop)] [] = Inr td" "wf_dag td" "dkind td = NodeInOut" "verts td = {1}" "edges td = {}"
    using build_ok [of "[(1, gpu_noop)]" "[]" NodeInOut] by auto
  moreover from this have "demo_fill dev (dag_empty NodeInOut) = Inr td" by (auto simp: build_def demo_fill_def rbind_eq_Inr)
  ultimately show ?thesis using countable_card [of td] by (auto simp: task_dag_def acyclic_def)
qed

lemma demo_fillable: "h \<in> {40, 41} \<Longrightarrow> fillable demo_env demo_ooc (partition_make demo_fill h)"
  using demo_filled [of 50] by (auto simp: fillable_def partition_make_def demo_ooc_def demo_env_def same_blocks_def)

lemma demo_fresh: "fresh_dags demo_env 3"
  unfolding fresh_dags_def
proof (intro allI impI)
  fix st :: ooc assume a: "finite (dom (dagAt st)) \<and> card (dom (dagAt st)) < 3"
  have "\<not> {100, 101, 102} \<subseteq> dom (dagAt st)" using a card_mono [of "dom (dagAt st)" "{100, 101, 102}"] by auto
  then show "newDag demo_env st \<noteq> 0 \<and> dagAt st (newDag demo_env st) = None" by (auto simp: demo_env_def)
qed

lemma demo_graph_of:
  assumes "es = [] \<or> es = [(1, 2)]"
  shows "\<exists>g. demo_parts es = Inr g \<and> task_dag g \<and> mAllNodes g = [1, 2] \<and> edges g = set es \<and>
    (\<forall>p \<in> verts g. \<exists>part. ndata g p = Some part \<and> fillable demo_env demo_ooc part)"
proof -
  let ?ns = "[(1, partition_make demo_fill 40), (2, partition_make demo_fill 41)]"
  obtain g where g: "demo_parts es = Inr g" "wf_dag g" "dkind g = NodeInOut" "verts g = {1, 2}" "edges g = set es"
    using build_ok [of ?ns es NodeInOut] assms unfolding demo_parts_def by auto
  have n: "mAllNodes g = [1, 2]" using g(1) assms
    by (auto simp: demo_parts_def build_def rbind_eq_Inr addNode_def Let_def dag_empty_def put_node_def dest!: addEdge_keeps)
  obtain g1 where "for_each (\<lambda>(t, d) g. rbind (addNode t d g) (\<lambda>(_, g'). Inr g')) ?ns (dag_empty NodeInOut) = Inr g1"
    "for_each (\<lambda>(a, b) g. addEdge a b g) es g1 = Inr g" using g(1) unfolding demo_parts_def build_def rbind_eq_Inr by blast
  then have "ndata g = ndata (dag_empty NodeInOut) ++ map_of ?ns" using add_nodes_ndata [of ?ns] add_edges_ndata by fastforce
  then have d: "ndata g 1 = Some (partition_make demo_fill 40)" "ndata g 2 = Some (partition_make demo_fill 41)" by simp_all
  have "acyclic (edges g)" unfolding g(5) by (rule acyclicI_order [of _ "\<lambda>x. - int x"]) (use assms in auto)
  then have "task_dag g" using g(2,3,4) countable_card [OF g(2)] by (simp add: task_dag_def)
  moreover have "\<forall>p \<in> verts g. \<exists>part. ndata g p = Some part \<and> fillable demo_env demo_ooc part"
    using d demo_fillable by (simp add: g(4))
  ultimately show ?thesis using g(1,5) n by blast
qed

lemma demo_graph:
  "\<exists>g. demo_parts [(1, 2)] = Inr g \<and> task_dag g \<and> mAllNodes g = [1, 2] \<and> edges g = {(1, 2)} \<and>
    (\<forall>p \<in> verts g. \<exists>part. ndata g p = Some part \<and> fillable demo_env demo_ooc part)"
  using demo_graph_of [of "[(1, 2)]"] by simp

text \<open>Two partitions and one slot.\<close>

theorem independent_partitions_fail_witness:
  "\<exists>g g1 st1. demo_parts [] = Inr g \<and> preparePartitionDAG demo_env (g, demo_ooc) = Some (Inr (g1, st1)) \<and>
     executePartitionDAG demo_env (g1, st1) = Some (Inl (Undefined ''uninitialised task handle''))"
proof -
  obtain g where g: "demo_parts [] = Inr g" "task_dag g" "mAllNodes g = [1, 2]" "edges g = {}"
    "\<forall>p \<in> verts g. \<exists>part. ndata g p = Some part \<and> fillable demo_env demo_ooc part" using demo_graph_of [of "[]"] by auto
  have v: "verts g = {1, 2}" by (simp add: verts_def g(3))
  have c: "\<not> card (verts g) \<le> numDeviceDataSlots demo_ooc" by (simp add: v numDeviceDataSlots_def demo_ooc_def)
  have "mDeviceDataSlots demo_ooc \<noteq> []" "finite (dom (dagAt demo_ooc))" "card (dom (dagAt demo_ooc)) + card (verts g) \<le> 3"
    by (simp_all add: demo_ooc_def v)
  from independent_partitions_fail [OF g(2,4,5) this(1) demo_fresh this(2,3), unfolded if_not_P [OF c]] show ?thesis
    using g(1) by blast
qed

theorem slots_never_shared_witness:
  "\<exists>g g1 st1. demo_parts [(1, 2)] = Inr g \<and> preparePartitionDAG demo_env (g, demo_ooc) = Some (Inr (g1, st1)) \<and>
     mAllNodes g1 = [1, 2] \<and> (1, 2) \<in> edges g1 \<and> (\<exists>x. nodeData g1 2 = Inr x \<and> mDeviceData x = 50)"
proof -
  obtain g where g: "demo_parts [(1, 2)] = Inr g" "task_dag g" "mAllNodes g = [1, 2]" "edges g = {(1, 2)}"
    "\<forall>p \<in> verts g. \<exists>part. ndata g p = Some part \<and> fillable demo_env demo_ooc part" using demo_graph by blast
  have v: "verts g = {1, 2}" by (simp add: verts_def g(3))
  have "mDeviceDataSlots demo_ooc = [50]" "finite (dom (dagAt demo_ooc))" "card (dom (dagAt demo_ooc)) + card (verts g) \<le> 3"
    by (simp_all add: demo_ooc_def v)
  then show ?thesis using slots_never_shared [OF g(2,5) _ _ demo_fresh] g(1,3,4) v by fastforce
qed

text \<open>The order of insertion respects the new edges as well: another edge would close a cycle.\<close>

lemma demo_prepared:
  "\<exists>g g1 st1. demo_parts [(1, 2)] = Inr g \<and> preparePartitionDAG demo_env (g, demo_ooc) = Some (Inr (g1, st1)) \<and>
     task_dag g1 \<and> parts_ready demo_env g1 st1 \<and> topo_order (edges g1) (mAllNodes g1) \<and> verts g1 = {1, 2}"
proof -
  obtain g where g: "demo_parts [(1, 2)] = Inr g" "task_dag g" "mAllNodes g = [1, 2]" "edges g = {(1, 2)}"
    "\<forall>p \<in> verts g. \<exists>part. ndata g p = Some part \<and> fillable demo_env demo_ooc part" using demo_graph by blast
  have v: "verts g = {1, 2}" by (simp add: verts_def g(3))
  have "mDeviceDataSlots demo_ooc \<noteq> []" "finite (dom (dagAt demo_ooc))" "card (dom (dagAt demo_ooc)) + card (verts g) \<le> 3"
    by (simp_all add: demo_ooc_def v)
  from prepare_ok [OF g(2,5) this(1) demo_fresh this(2,3)] obtain g1 st1 where
    p: "preparePartitionDAG demo_env (g, demo_ooc) = Some (Inr (g1, st1))" "task_dag g1" "mAllNodes g1 = mAllNodes g"
      "edges g \<subseteq> edges g1" "parts_ready demo_env g1 st1" by blast
  have e: "(1, 2) \<in> edges g1" "acyclic (edges g1)" "edges g1 \<subseteq> {1, 2} \<times> {1, 2}" "\<forall>a. (a, a) \<notin> edges g1"
    using p g(3,4) by (auto simp: task_dag_def wf_dag_def verts_def)
  have "(2, 1) \<notin> edges g1"
  proof
    assume "(2, 1) \<in> edges g1"
    then have "(1, 1) \<in> (edges g1)\<^sup>+" using e(1) by (meson trancl.simps)
    then show False using e(2) by (simp add: acyclic_def)
  qed
  then have "edges g1 = {(1, 2)}" using e by auto
  then have "topo_order (edges g1) (mAllNodes g1)"
    using topo_order_snoc [of "{(1, 2)}" "[1]" 2] topo_order_snoc [of "{(1, 2)}" "[]" 1] by (simp add: p(3) g(3))
  then show ?thesis using g(1,3) p by (auto simp: verts_def)
qed

theorem partitions_execute_witness:
  "\<exists>g g1 st1 g2 st2. demo_parts [(1, 2)] = Inr g \<and> preparePartitionDAG demo_env (g, demo_ooc) = Some (Inr (g1, st1)) \<and>
     executePartitionDAG demo_env (g1, st1) = Some (Inr (g2, st2)) \<and> calls st1 \<noteq> calls st2"
proof -
  obtain g g1 st1 where p: "demo_parts [(1, 2)] = Inr g" "preparePartitionDAG demo_env (g, demo_ooc) = Some (Inr (g1, st1))"
    "task_dag g1" "parts_ready demo_env g1 st1" "topo_order (edges g1) (mAllNodes g1)" "verts g1 = {1, 2}" using demo_prepared by blast
  from partitions_execute [OF p(3,4), unfolded if_P [OF p(5)]] obtain g2 st2 evs s k v where
    r: "executePartitionDAG demo_env (g1, st1) = Some (Inr (g2, st2))"
      "calls st2 = calls st1 @ concat (map evs (mAllNodes g1)) @ v"
      "\<forall>p \<in> verts g1. part_calls demo_env st1 (the (ndata g1 p)) (map k (preds g1 p)) (evs p) (s p) (k p)" by blast
  have "1 \<in> verts g1" using p(6) by simp
  then have "evs 1 \<noteq> []" "1 \<in> set (mAllNodes g1)" using r(3) by (auto simp: part_calls_def Let_def verts_def)
  then have "calls st1 \<noteq> calls st2" using r(2) by auto
  then show ?thesis using p r(1) by blast
qed

end
