(* ===== verification/Bfs.thy ===== *)
theory Bfs
  imports Batch Topo
begin

text \<open>
  \<open>StaticDAGExecutorBFS\<close> of \<open>dagr/dagExecutor.h\<close>: a graph is executed level by level, each level as one
  batch of the unordered executor. Both methods share the frontier: the nodes of the level are
  collected in an unordered set, the next level is the set of all their successors. \<open>ord\<close> is the
  order in which such a set is walked, given the order in which its elements were inserted.
\<close>

section \<open>The frontier\<close>

definition emplace :: "addr \<Rightarrow> addr list \<Rightarrow> addr list" where
  "emplace n l = (if n \<in> set l then l else l @ [n])"

definition first_level :: "'d dag \<Rightarrow> addr list res" where
  "first_level g = rbind (forEachSource (\<lambda>n (g, l). Inr (g, emplace n l)) (g, [])) (\<lambda>(_, l). Inr l)"

definition next_level :: "'d dag \<Rightarrow> addr list \<Rightarrow> addr list res" where
  "next_level g level = for_each (\<lambda>n l. rbind (successors g n) (\<lambda>ss. Inr (fold emplace ss l))) level []"

text \<open>
  The loop: \<open>launch\<close> executes a level, \<open>after\<close> is what follows the computation of the next level.
\<close>

partial_function (option) bfs_loop :: "(addr list \<Rightarrow> addr list) \<Rightarrow> 'd dag \<Rightarrow> (addr list \<Rightarrow> 'e \<Rightarrow> 'e res option) \<Rightarrow>
    ('e \<Rightarrow> 'e res option) \<Rightarrow> addr list \<Rightarrow> 'e \<Rightarrow> 'e res option" where
  "bfs_loop ord g launch after currLevel e = (if currLevel = [] then Some (Inr e)
     else case launch (ord currLevel) e of None \<Rightarrow> None | Some (Inl err) \<Rightarrow> Some (Inl err) | Some (Inr e) \<Rightarrow>
      (case next_level g (ord currLevel) of Inl err \<Rightarrow> Some (Inl err) | Inr nxt \<Rightarrow>
       (case after e of None \<Rightarrow> None | Some (Inl err) \<Rightarrow> Some (Inl err) | Some (Inr e) \<Rightarrow>
         bfs_loop ord g launch after nxt e)))"

section \<open>The two methods\<close>

text \<open>
  \<open>seen g k\<close> is the value that the \<open>k\<close>-th wait on the signal \<open>g\<close> returns. The state of the loop is the
  executor with the handle of the last batch.
\<close>

definition add_level :: "hsa_env \<Rightarrow> kern_state \<Rightarrow> kern_instance dag \<Rightarrow> batch_state \<Rightarrow> addr list \<Rightarrow> uexec \<times> hsa_world \<Rightarrow>
    (uexec \<times> hsa_world) res option" where
  "add_level E s g b = ofor_each (\<lambda>n st. obind (Some (nodeData g n)) (\<lambda>ki. addToBatch E s b ki st))"

definition host_launch :: "hsa_env \<Rightarrow> kern_state \<Rightarrow> kern_instance dag \<Rightarrow> addr list \<Rightarrow> nat \<times> uexec \<times> hsa_world \<Rightarrow>
    (nat \<times> uexec \<times> hsa_world) res option" where
  "host_launch E s g level = (\<lambda>(_, x, w). obind (Some (startBatch E x w)) (\<lambda>(b, w).
     obind (add_level E s g b level (x, w)) (launchBatch E b)))"

definition wait_task :: "(nat \<Rightarrow> nat \<Rightarrow> int) \<Rightarrow> nat \<times> 'w \<Rightarrow> (nat \<times> 'w) res option" where
  "wait_task seen = (\<lambda>(th, st). map_option (\<lambda>_. Inr (th, st)) (waitOnSignal (seen th) 0))"

definition executeFromHost :: "hsa_env \<Rightarrow> kern_state \<Rightarrow> (addr list \<Rightarrow> addr list) \<Rightarrow> (nat \<Rightarrow> nat \<Rightarrow> int) \<Rightarrow> kern_instance dag \<Rightarrow>
    uexec \<times> hsa_world \<Rightarrow> (uexec \<times> hsa_world) res option" where
  "executeFromHost E s ord seen g st = obind (Some (first_level g)) (\<lambda>currLevel.
     obind (bfs_loop ord g (host_launch E s g) (wait_task seen) currLevel (0, st)) (\<lambda>(_, st). Some (Inr st)))"

definition cp_launch :: "hsa_env \<Rightarrow> kern_state \<Rightarrow> kern_instance dag \<Rightarrow> addr list \<Rightarrow> (bool \<times> nat) \<times> uexec \<times> hsa_world \<Rightarrow>
    ((bool \<times> nat) \<times> uexec \<times> hsa_world) res option" where
  "cp_launch E s g level = (\<lambda>((first, prevBatchSig), x, w).
     obind (if first then obind (Some (startBatch E x w)) (\<lambda>(b, w). Some (Inr (b, x, w)))
       else startBatchWithDep E prevBatchSig (x, w)) (\<lambda>(b, x, w).
     obind (add_level E s g b level (x, w)) (\<lambda>(x, w).
     obind (launchBatch E b (x, w)) (\<lambda>(th, x, w). Some (Inr ((False, th), x, w))))))"

definition executeFromCP :: "hsa_env \<Rightarrow> kern_state \<Rightarrow> (addr list \<Rightarrow> addr list) \<Rightarrow> (nat \<Rightarrow> nat \<Rightarrow> int) \<Rightarrow> kern_instance dag \<Rightarrow>
    uexec \<times> hsa_world \<Rightarrow> (uexec \<times> hsa_world) res option" where
  "executeFromCP E s ord seen g st = obind (Some (first_level g)) (\<lambda>currLevel.
     obind (bfs_loop ord g (cp_launch E s g) (\<lambda>e. Some (Inr e)) currLevel ((True, 0), st)) (\<lambda>((_, prevBatchSig), st).
     if prevBatchSig \<noteq> 0 then obind (wait_task seen (prevBatchSig, st)) (\<lambda>(_, st). Some (Inr st))
     else Some (Inr st)))"

section \<open>The levels of a graph\<close>

text \<open>\<open>reach_in g k\<close>: the nodes at the end of a path of \<open>k\<close> edges from a source.\<close>

definition sources :: "'d dag \<Rightarrow> addr set" where
  "sources g = {v \<in> verts g. \<forall>a. (a, v) \<notin> edges g}"

definition reach_in :: "'d dag \<Rightarrow> nat \<Rightarrow> addr set" where
  "reach_in g k = (edges g ^^ k) `` sources g"

lemma reach_in_0: "reach_in g 0 = sources g"
  by (auto simp: reach_in_def)

lemma reach_in_Suc: "reach_in g (Suc k) = edges g `` reach_in g k"
  by (auto simp: reach_in_def)

lemma reach_in_verts: "wf_dag g \<Longrightarrow> reach_in g k \<subseteq> verts g"
  by (induction k) (auto simp: reach_in_0 reach_in_Suc sources_def wf_dag_def)

text \<open>In an acyclic graph a path visits no node twice, so no path is longer than the number of nodes.\<close>

lemma wf_edges: "wf_dag g \<Longrightarrow> acyclic (edges g) \<Longrightarrow> wf (edges g)"
proof -
  assume "wf_dag g" "acyclic (edges g)"
  moreover from this have "finite (edges g)" by (auto simp: wf_dag_def verts_def intro: finite_subset)
  ultimately show ?thesis by (simp add: finite_acyclic_wf)
qed

lemma reach_in_ends:
  assumes "wf_dag g" "acyclic (edges g)" "v \<in> reach_in g k"
  shows "k \<le> card {a. (a, v) \<in> (edges g)\<^sup>+}"
  using assms(3)
proof (induction k arbitrary: v)
  case (Suc k)
  then obtain u where u: "u \<in> reach_in g k" "(u, v) \<in> edges g" by (auto simp: reach_in_Suc)
  have fin: "finite {a. (a, v) \<in> (edges g)\<^sup>+}"
  proof (rule finite_subset)
    show "{a. (a, v) \<in> (edges g)\<^sup>+} \<subseteq> verts g"
      using assms(1) trancl_subset_Sigma [of "edges g" "verts g"] by (auto simp: wf_dag_def)
  qed (simp add: verts_def)
  have "insert u {a. (a, u) \<in> (edges g)\<^sup>+} \<subseteq> {a. (a, v) \<in> (edges g)\<^sup>+}"
    using u(2) by (auto intro: trancl_into_trancl)
  moreover have "u \<notin> {a. (a, u) \<in> (edges g)\<^sup>+}" using assms(2) by (auto simp: acyclic_def)
  moreover have "finite {a. (a, u) \<in> (edges g)\<^sup>+}"
    using fin by (rule rev_finite_subset) (use u(2) in \<open>auto intro: trancl_into_trancl\<close>)
  ultimately have "Suc (card {a. (a, u) \<in> (edges g)\<^sup>+}) \<le> card {a. (a, v) \<in> (edges g)\<^sup>+}"
    using card_mono [OF fin] by (metis card_insert_disjoint)
  then show ?case using Suc.IH [OF u(1)] by simp
qed simp

lemma reach_in_bound:
  assumes "wf_dag g" "acyclic (edges g)" "card (verts g) \<le> k"
  shows "reach_in g k = {}"
proof (rule ccontr)
  assume "reach_in g k \<noteq> {}"
  then obtain v where v: "v \<in> reach_in g k" by blast
  have "{a. (a, v) \<in> (edges g)\<^sup>+} \<subseteq> verts g - {v}"
    using assms(1,2) trancl_subset_Sigma [of "edges g" "verts g"] by (auto simp: wf_dag_def acyclic_def)
  moreover have "v \<in> verts g" using v reach_in_verts [OF assms(1)] by blast
  ultimately have "card {a. (a, v) \<in> (edges g)\<^sup>+} \<le> card (verts g - {v})" "card (verts g - {v}) < card (verts g)"
    by (simp_all add: verts_def card_mono card_Diff1_less del: card_Diff_insert)
  then show False using reach_in_ends [OF assms(1,2) v] assms(3) by simp
qed

lemma reach_in_all:
  assumes "wf_dag g" "acyclic (edges g)" "v \<in> verts g"
  shows "\<exists>k. v \<in> reach_in g k"
  using wf_edges [OF assms(1,2)] assms(3)
proof (induction v rule: wf_induct_rule)
  case (less v)
  show ?case
  proof (cases "v \<in> sources g")
    case True
    then show ?thesis by (metis reach_in_0)
  next
    case False
    then obtain a where "(a, v) \<in> edges g" using less.prems by (auto simp: sources_def)
    moreover from this have "a \<in> verts g" using assms(1) by (auto simp: wf_dag_def)
    ultimately show ?thesis using less.IH by (metis ImageI reach_in_Suc)
  qed
qed

section \<open>The frontiers are the levels\<close>

lemma emplace_all: "distinct l \<Longrightarrow> distinct (fold emplace ns l) \<and> set (fold emplace ns l) = set l \<union> set ns"
  by (induction ns arbitrary: l) (auto simp: emplace_def)

lemma first_level_ok:
  assumes "wf_dag g" "countable_dag g" "dkind g \<noteq> NodePull"
  shows "\<exists>l. first_level g = Inr l \<and> distinct l \<and> set l = sources g"
proof -
  have "0 \<notin> verts (fst (g, []))" using assms(1) by (simp add: wf_dag_def)
  then have "forEachSource (\<lambda>n (g, l). Inr (g, emplace n l)) (g, []) =
      for_each (\<lambda>p gs. rbind (isSrc (fst gs) p) (\<lambda>s. if s then (case gs of (g, l) \<Rightarrow> Inr (g, emplace p l)) else Inr gs))
        (mAllNodes g) (g, [])"
    by (simp add: forEachSource_def forEachNode_eq)
  moreover have "\<exists>gs. for_each (\<lambda>p gs. rbind (isSrc (fst gs) p) (\<lambda>s. if s then (case gs of (g, l) \<Rightarrow> Inr (g, emplace p l)) else Inr gs))
        (mAllNodes g) (g, []) = Inr gs \<and> (fst gs = g \<and> distinct (snd gs) \<and> set (snd gs) = sources g \<inter> set (mAllNodes g))"
  proof (rule for_each_rule [where P = "\<lambda>ys gs. fst gs = g \<and> distinct (snd gs) \<and> set (snd gs) = sources g \<inter> set ys"])
    fix ys y zs gs
    assume e: "mAllNodes g = ys @ y # zs" and P: "fst gs = g \<and> distinct (snd gs) \<and> set (snd gs) = sources g \<inter> set ys"
    have y: "y \<in> verts g" by (simp add: verts_def e)
    then have "isSrc g y = Inr (y \<in> sources g)" using isSrc_iff [OF assms y] by (simp add: sources_def)
    then show "\<exists>t. rbind (isSrc (fst gs) y) (\<lambda>s. if s then (case gs of (g, l) \<Rightarrow> Inr (g, emplace y l)) else Inr gs) = Inr t \<and>
        (fst t = g \<and> distinct (snd t) \<and> set (snd t) = sources g \<inter> set (ys @ [y]))"
      using P by (cases gs) (auto simp: emplace_def)
  qed simp
  moreover have "sources g \<inter> set (mAllNodes g) = sources g" by (auto simp: sources_def verts_def)
  ultimately show ?thesis by (auto simp: first_level_def)
qed

lemma next_level_ok:
  assumes "wf_dag g" "stores_succ (dkind g)" "set level \<subseteq> verts g"
  shows "\<exists>l. next_level g level = Inr l \<and> distinct l \<and> set l = edges g `` set level"
  unfolding next_level_def
proof (rule for_each_rule [where P = "\<lambda>ys l. distinct l \<and> set l = edges g `` set ys"])
  fix ys y zs l
  assume e: "level = ys @ y # zs" and P: "distinct l \<and> set l = edges g `` set ys"
  have y: "y \<in> verts g" using assms(3) e by simp
  then obtain nd where nd: "nodeAt g y = Some nd" using wf_dag_node [OF assms(1)] by blast
  then have "successors g y = Inr (succs g y)" using assms(2) by (simp add: successors_def view_Some)
  moreover have "set (succs g y) = edges g `` {y}" using edges_succ [OF assms(2) y] by auto
  ultimately show "\<exists>t. rbind (successors g y) (\<lambda>ss. Inr (fold emplace ss l)) = Inr t \<and>
      (distinct t \<and> set t = edges g `` set (ys @ [y]))"
    using P emplace_all [of l "succs g y"] by auto
qed simp

primrec bfs_levels :: "(addr list \<Rightarrow> addr list) \<Rightarrow> 'd dag \<Rightarrow> nat \<Rightarrow> addr list \<Rightarrow> addr list list" where
  "bfs_levels ord g 0 c = []"
| "bfs_levels ord g (Suc n) c = (if c = [] then [] else ord c #
     (case next_level g (ord c) of Inl _ \<Rightarrow> [] | Inr nxt \<Rightarrow> bfs_levels ord g n nxt))"

text \<open>Walking an unordered set meets each of its elements once.\<close>

definition walk_order :: "(addr list \<Rightarrow> addr list) \<Rightarrow> bool" where
  "walk_order ord \<longleftrightarrow> (\<forall>l. distinct l \<longrightarrow> distinct (ord l) \<and> set (ord l) = set l)"

lemma bfs_levels_ok:
  assumes "wf_dag g" "stores_succ (dkind g)" "acyclic (edges g)" "walk_order ord"
    and "distinct c" "set c = reach_in g k" "card (verts g) \<le> n + k"
  shows "bfs_loop ord g launch after c e = ofor_each (\<lambda>L e. obind (launch L e) after) (bfs_levels ord g n c) e \<and>
    (\<forall>i < length (bfs_levels ord g n c). distinct (bfs_levels ord g n c ! i) \<and> set (bfs_levels ord g n c ! i) = reach_in g (k + i)) \<and>
    (\<forall>i \<ge> length (bfs_levels ord g n c). reach_in g (k + i) = {}) \<and> length (bfs_levels ord g n c) \<le> n"
  using assms(5-7)
proof (induction n arbitrary: c k e)
  case 0
  have "reach_in g (k + i) = {}" for i using reach_in_bound [OF assms(1,3)] 0(3) by simp
  moreover from this [of 0] have "c = []" using 0(2) by simp
  ultimately show ?case by (subst bfs_loop.simps) simp
next
  case (Suc n)
  show ?case
  proof (cases "c = []")
    case True
    then have "reach_in g k = {}" using Suc.prems(2) by simp
    then have "reach_in g (k + i) = {}" for i by (induction i) (auto simp: reach_in_Suc)
    then show ?thesis using True by (subst bfs_loop.simps) simp
  next
    case False
    have o: "distinct (ord c)" "set (ord c) = reach_in g k" using assms(4) Suc.prems by (auto simp: walk_order_def)
    have "set (ord c) \<subseteq> verts g" using o reach_in_verts [OF assms(1)] by simp
    then obtain l where l: "next_level g (ord c) = Inr l" "distinct l" "set l = reach_in g (Suc k)"
      using next_level_ok [OF assms(1,2), of "ord c"] o by (auto simp: reach_in_Suc)
    have b: "bfs_levels ord g (Suc n) c = ord c # bfs_levels ord g n l" using False l by simp
    have IH: "bfs_loop ord g launch after l = ofor_each (\<lambda>L e. obind (launch L e) after) (bfs_levels ord g n l)"
      using Suc.IH [OF l(2,3)] Suc.prems(3) by (intro ext) simp
    have "bfs_loop ord g launch after c e = obind (obind (launch (ord c) e) after) (bfs_loop ord g launch after l)"
      using False l(1) by (subst bfs_loop.simps) (simp add: obind_def split: option.splits sum.splits)
    then have "bfs_loop ord g launch after c e = ofor_each (\<lambda>L e. obind (launch L e) after) (bfs_levels ord g (Suc n) c) e"
      using IH by (simp add: b del: bfs_levels.simps)
    moreover have "distinct ((ord c # bfs_levels ord g n l) ! i) \<and> set ((ord c # bfs_levels ord g n l) ! i) = reach_in g (k + i)"
      if "i < Suc (length (bfs_levels ord g n l))" for i
      using that o Suc.IH [OF l(2,3)] Suc.prems(3) by (cases i) auto
    moreover have "reach_in g (k + i) = {}" if "i \<ge> Suc (length (bfs_levels ord g n l))" for i
      using that Suc.IH [OF l(2,3)] Suc.prems(3) by (cases i) auto
    moreover have "length (bfs_levels ord g n l) \<le> n" using Suc.IH [OF l(2,3)] Suc.prems(3) by simp
    ultimately show ?thesis by (simp add: b del: bfs_levels.simps)
  qed
qed

text \<open>A graph in which all paths from sources to a node have the same length.\<close>

definition levelled :: "'d dag \<Rightarrow> bool" where
  "levelled g \<longleftrightarrow> (\<forall>i j v. v \<in> reach_in g i \<and> v \<in> reach_in g j \<longrightarrow> i = j)"

text \<open>
  The sets \<open>L 0\<close>, \<open>L 1\<close>, ... of a graph hold every node behind all its predecessors exactly when the graph is
  levelled. If it is not, the node that shows it on the shortest path is in the set of a predecessor or
  before it.
\<close>

definition preds_before :: "'d dag \<Rightarrow> (nat \<Rightarrow> addr set) \<Rightarrow> bool" where
  "preds_before g L \<longleftrightarrow> (\<forall>i p a. p \<in> L i \<and> (a, p) \<in> edges g \<longrightarrow> (\<exists>j < i. a \<in> L j))"

lemma preds_before_levelled:
  assumes "wf_dag g" "acyclic (edges g)"
  shows "preds_before g (reach_in g) \<longleftrightarrow> levelled g"
proof
  assume l: "levelled g"
  have "\<exists>j < i. a \<in> reach_in g j" if "p \<in> reach_in g i" "(a, p) \<in> edges g" for i p a
  proof -
    have "a \<in> verts g" using that(2) assms(1) by (auto simp: wf_dag_def)
    then obtain j where j: "a \<in> reach_in g j" using reach_in_all [OF assms] by blast
    then have "p \<in> reach_in g (Suc j)" using that(2) by (auto simp: reach_in_Suc)
    then have "i = Suc j" using l that(1) by (auto simp: levelled_def)
    then show ?thesis using j by blast
  qed
  then show "preds_before g (reach_in g)" by (auto simp: preds_before_def)
next
  assume b: "preds_before g (reach_in g)"
  have no: "\<not> (i < j \<and> v \<in> reach_in g i \<and> v \<in> reach_in g j)" for i j v
  proof (induction j arbitrary: i v)
    case (Suc j)
    show ?case
    proof
      assume v: "i < Suc j \<and> v \<in> reach_in g i \<and> v \<in> reach_in g (Suc j)"
      then obtain u where u: "u \<in> reach_in g j" "(u, v) \<in> edges g" by (auto simp: reach_in_Suc)
      then obtain k where "k < i" "u \<in> reach_in g k" using b v unfolding preds_before_def by blast
      then show False using Suc.IH [of k u] u(1) v by simp
    qed
  qed simp
  have "i = j" if "v \<in> reach_in g i" "v \<in> reach_in g j" for i j v
    using no [of i j v] no [of j i v] that by (cases i j rule: linorder_cases) simp_all
  then show "levelled g" by (auto simp: levelled_def)
qed

text \<open>
  C31: both methods execute the levels of an acyclic graph one after the other and return as soon as the
  batches do: the \<open>i\<close>-th batch holds, once each, the nodes at the end of a path of \<open>i\<close> edges from a source,
  and together the batches hold all nodes. Only if all paths to a node have the same length is every
  node executed once, and only then is every node in a batch behind those of all its predecessors; in
  a graph with a shortcut some node is executed again, and some node together with a predecessor or
  before it.
\<close>

theorem bfs_by_levels:
  assumes "wf_dag g" "countable_dag g" "stores_succ (dkind g)" "acyclic (edges g)" "walk_order ord"
  shows "\<exists>Ls. (\<forall>st. executeFromHost E s ord seen g st =
      obind (ofor_each (\<lambda>L e. obind (host_launch E s g L e) (wait_task seen)) Ls (0, st)) (\<lambda>(_, st). Some (Inr st))) \<and>
    (\<forall>st. executeFromCP E s ord seen g st =
      obind (ofor_each (cp_launch E s g) Ls ((True, 0), st)) (\<lambda>((_, th), st).
        if th \<noteq> 0 then obind (wait_task seen (th, st)) (\<lambda>(_, st). Some (Inr st)) else Some (Inr st))) \<and>
    length Ls \<le> card (verts g) \<and> (\<forall>i < length Ls. distinct (Ls ! i) \<and> set (Ls ! i) = reach_in g i) \<and>
    set (concat Ls) = verts g \<and> (distinct (concat Ls) \<longleftrightarrow> levelled g) \<and>
    (preds_before g (\<lambda>i. if i < length Ls then set (Ls ! i) else {}) \<longleftrightarrow> levelled g)"
proof -
  have "dkind g \<noteq> NodePull" using assms(3) by auto
  then obtain c where c: "first_level g = Inr c" "distinct c" "set c = reach_in g 0"
    using first_level_ok [OF assms(1,2)] by (auto simp: reach_in_0)
  let ?Ls = "bfs_levels ord g (card (verts g)) c"
  note L = bfs_levels_ok [OF assms(1,3-5) c(2,3), of "card (verts g)"]
  have host: "executeFromHost E s ord seen g st = obind (ofor_each (\<lambda>L e. obind (host_launch E s g L e) (wait_task seen)) ?Ls (0, st))
      (\<lambda>(_, st). Some (Inr st))" for st
    using L [of "host_launch E s g" "wait_task seen" "(0, st)"] by (simp add: executeFromHost_def c(1))
  have "(\<lambda>L e. obind (cp_launch E s g L e) (\<lambda>e. Some (Inr e))) = cp_launch E s g"
    by (auto simp: fun_eq_iff obind_def split: option.splits sum.splits)
  then have cp: "executeFromCP E s ord seen g st = obind (ofor_each (cp_launch E s g) ?Ls ((True, 0), st))
      (\<lambda>((_, th), st). if th \<noteq> 0 then obind (wait_task seen (th, st)) (\<lambda>(_, st). Some (Inr st)) else Some (Inr st))" for st
    using L [of "cp_launch E s g" "\<lambda>e. Some (Inr e)" "((True, 0), st)"] by (simp add: executeFromCP_def c(1))
  have lev: "\<forall>i < length ?Ls. distinct (?Ls ! i) \<and> set (?Ls ! i) = reach_in g i" "length ?Ls \<le> card (verts g)"
    and none: "\<forall>i \<ge> length ?Ls. reach_in g i = {}"
    using L [of "\<lambda>_ e. Some (Inr e)" "\<lambda>e. Some (Inr e)" "()"] by auto
  have in_range: "i < length ?Ls" if "v \<in> reach_in g i" for v i using that none by (metis empty_iff not_le)
  have "set (concat ?Ls) = (\<Union>i<length ?Ls. reach_in g i)"
    using lev(1) by (simp add: set_concat_nth del: set_concat)
  also have "\<dots> = verts g"
  proof
    show "(\<Union>i<length ?Ls. reach_in g i) \<subseteq> verts g" using reach_in_verts [OF assms(1)] by (intro UN_least)
    show "verts g \<subseteq> (\<Union>i<length ?Ls. reach_in g i)" using reach_in_all [OF assms(1,4)] in_range by (intro subsetI) (metis UN_I lessThan_iff)
  qed
  finally have all: "set (concat ?Ls) = verts g" .
  have "distinct (concat ?Ls) \<longleftrightarrow> levelled g"
  proof
    assume d: "distinct (concat ?Ls)"
    have "i = j" if "v \<in> reach_in g i" "v \<in> reach_in g j" for i j v
    proof (rule ccontr)
      assume "i \<noteq> j"
      moreover have "v \<in> set (?Ls ! i) \<inter> set (?Ls ! j)" using that in_range lev(1) by auto
      ultimately show False using d in_range [OF that(1)] in_range [OF that(2)] unfolding distinct_concat_nth by blast
    qed
    then show "levelled g" by (auto simp: levelled_def)
  next
    assume "levelled g"
    then show "distinct (concat ?Ls)" using lev(1) unfolding distinct_concat_nth by (auto simp: levelled_def)
  qed
  moreover have "(\<lambda>i. if i < length ?Ls then set (?Ls ! i) else {}) = reach_in g"
    using lev(1) none by (auto simp: fun_eq_iff)
  ultimately have order: "distinct (concat ?Ls) \<longleftrightarrow> levelled g"
    "preds_before g (\<lambda>i. if i < length ?Ls then set (?Ls ! i) else {}) \<longleftrightarrow> levelled g"
    using preds_before_levelled [OF assms(1,4)] by simp_all
  show ?thesis
    by (rule exI [of _ ?Ls]) (intro conjI; (rule lev all order | rule allI, rule host | rule allI, rule cp))
qed

text \<open>A task, a second one after it, and a third one after both.\<close>

lemma triangle_graph:
  "\<exists>g. build NodeInOut [(1, ki_ex), (2, ki_ex), (3, ki_ex)] [(1, 2), (2, 3), (1, 3)] = Inr g \<and> wf_dag g \<and>
    countable_dag g \<and> dkind g = NodeInOut \<and> acyclic (edges g) \<and> \<not> levelled g"
proof -
  have "\<exists>g. build NodeInOut [(1, ki_ex), (2, ki_ex), (3, ki_ex)] [(1, 2), (2, 3), (1, 3)] = Inr g \<and> wf_dag g \<and>
      dkind g = NodeInOut \<and> verts g = set (map fst [(1, ki_ex), (2, ki_ex), (3, ki_ex)]) \<and> edges g = set [(1, 2), (2, 3), (1, 3)]"
    by (rule build_ok) auto
  then obtain g where g: "build NodeInOut [(1, ki_ex), (2, ki_ex), (3, ki_ex)] [(1, 2), (2, 3), (1, 3)] = Inr g"
    "wf_dag g" "dkind g = NodeInOut" "verts g = {1, 2, 3}" "edges g = {(1, 2), (2, 3), (1, 3)}" by auto
  have "\<forall>(a, b) \<in> edges g. id a < id b" using g(5) by auto
  then have a: "acyclic (edges g)" by (rule dg.ranked_acyclic)
  have "sources g = {1}" unfolding sources_def g(4,5) by auto
  then have "reach_in g 0 = {1}" by (simp add: reach_in_0)
  then have "reach_in g (Suc 0) = {2, 3}" unfolding reach_in_Suc g(5) by auto
  moreover from this have "reach_in g (Suc (Suc 0)) = {3}" unfolding reach_in_Suc [of g "Suc 0"] g(5) by auto
  ultimately have "Suc 0 = Suc (Suc 0)" if "levelled g" using that unfolding levelled_def by blast
  then have "\<not> levelled g" by auto
  moreover have "countable_dag g"
  proof -
    have "length (mAllNodes g) = card (verts g)" using g(2) by (simp add: wf_dag_def verts_def distinct_card)
    then show ?thesis using g(4) by (simp add: countable_dag_def)
  qed
  ultimately show ?thesis using g a by blast
qed

theorem bfs_by_levels_witness:
  "\<exists>g Ls. build NodeInOut [(1, ki_ex), (2, ki_ex), (3, ki_ex)] [(1, 2), (2, 3), (1, 3)] = Inr g \<and>
     executeFromHost env4 kern_state_ex id (\<lambda>_ _. 0) g (uexec_ex, world_ex) =
       obind (ofor_each (\<lambda>L e. obind (host_launch env4 kern_state_ex g L e) (wait_task (\<lambda>_ _. 0))) Ls (0, uexec_ex, world_ex))
         (\<lambda>(_, st). Some (Inr st)) \<and> \<not> distinct (concat Ls) \<and>
     \<not> preds_before g (\<lambda>i. if i < length Ls then set (Ls ! i) else {})"
proof -
  obtain g where g: "build NodeInOut [(1, ki_ex), (2, ki_ex), (3, ki_ex)] [(1, 2), (2, 3), (1, 3)] = Inr g"
    "wf_dag g" "countable_dag g" "stores_succ (dkind g)" "acyclic (edges g)" "\<not> levelled g"
    using triangle_graph by auto
  have "walk_order id" by (simp add: walk_order_def)
  from bfs_by_levels [OF g(2-5) this, of env4 kern_state_ex "\<lambda>_ _. 0"] g(1,6) show ?thesis by blast
qed

section \<open>A level on the device\<close>

text \<open>A level is a batch of the instances of its nodes.\<close>

lemma host_launch_run_batch:
  assumes "\<And>n. n \<in> set level \<Longrightarrow> nodeData g n = Inr (d n)"
  shows "host_launch E s g level (h, x, w) = run_batch E s (map d level) (x, w)"
proof -
  have "add_level E s g b level st = ofor_each (addToBatch E s b) (map d level) st" for b st
    using assms by (induction level arbitrary: st) (auto simp: add_level_def obind_def split: option.splits sum.splits)
  then show ?thesis by (auto simp: host_launch_def run_batch_def)
qed

lemma wait_task_ends:
  "wait_task seen (th, st) = Some r \<longleftrightarrow> r = Inr (th, st) \<and> (\<exists>k. waitOnSignal (seen th) 0 = Some (Suc k) \<and> seen th k = 0)"
proof -
  have "\<exists>k. m = Suc k \<and> v k = 0" if "waitOnSignal v j = Some m" for v j m
  proof (rule waitOnSignal.raw_induct [where P = "\<lambda>v j m. \<exists>k. m = Suc k \<and> v k = 0", OF _ that])
    fix f v j m
    assume IH: "\<And>v j m. f v j = Some m \<Longrightarrow> \<exists>k. m = Suc k \<and> v k = 0"
      and r: "(if v j \<noteq> 0 then f v (Suc j) else Some (Suc j)) = Some m"
    show "\<exists>k. m = Suc k \<and> v k = 0" using IH r by (cases "v j = 0") auto
  qed
  then show ?thesis by (auto simp: wait_task_def)
qed

text \<open>
  C32: while the device works on a level, let \<open>D k\<close> be the packets it has finished, and \<open>sg k\<close> the signals, at
  the \<open>k\<close>-th load that the wait makes. If the wait returns, it does so on a load from which on the
  task of every node of the level has finished, each at its own place of the queues; it never
  returns only if at every load the device could still finish another packet.
\<close>

theorem level_finished:
  assumes "\<forall>n \<in> set level. nodeData g n = Inr (d n)"
    and "exec_ok x w" "signals_ok E w" "abi_ok (abi E)" "batch_fits x w w'"
    and "host_launch E s g level (h, x, w) = Some (Inr (th, x', w'))"
    and dev: "\<forall>k. batch_device E x w w' (D k) (sg k) \<and> seen th k = sg k th" "\<forall>k. D k \<subseteq> D (Suc k)"
  shows "\<exists>pl. distinct pl \<and> length pl = length level \<and>
    (\<forall>m < length level. \<exists>p c. init_instance (abi E) (task_header E) s (d (level ! m)) c = Inr p \<and>
      pkt_at w' (handles x ! fst (pl ! m)) (snd (pl ! m)) = Some (Dispatch p)) \<and>
    (\<forall>r. wait_task seen (th, x', w') = Some r \<longrightarrow> r = Inr (th, x', w') \<and>
      (\<exists>k. waitOnSignal (seen th) 0 = Some (Suc k) \<and> (\<forall>j \<ge> k. set pl \<subseteq> D j))) \<and>
    (wait_task seen (th, x', w') = None \<longrightarrow>
      (\<forall>k. \<exists>jp sig'. jp \<notin> D k \<and> batch_device E x w w' (insert jp (D k)) sig'))"
proof -
  have run: "run_batch E s (map d level) (x, w) = Some (Inr (th, x', w'))"
    using host_launch_run_batch [of level g d] assms(1,6) by simp
  obtain pl where pl: "distinct pl" "length pl = length (map d level)"
    "\<forall>m < length (map d level). \<exists>p c. init_instance (abi E) (task_header E) s (map d level ! m) c = Inr p \<and>
      pkt_at w' (handles x ! fst (pl ! m)) (snd (pl ! m)) = Some (Dispatch p)"
    "\<forall>D sig. batch_device E x w w' D sig \<longrightarrow> (sig th = 0 \<longrightarrow> set pl \<subseteq> D) \<and>
      (sig th \<noteq> 0 \<longrightarrow> (\<exists>jp sig'. jp \<notin> D \<and> batch_device E x w w' (insert jp D) sig'))"
    using run_batch_completes [OF assms(2-5) run] by blast
  have "r = Inr (th, x', w') \<and> (\<exists>k. waitOnSignal (seen th) 0 = Some (Suc k) \<and> (\<forall>j \<ge> k. set pl \<subseteq> D j))"
    if r: "wait_task seen (th, x', w') = Some r" for r
  proof -
    obtain k where k: "r = Inr (th, x', w')" "waitOnSignal (seen th) 0 = Some (Suc k)" "seen th k = 0"
      using r unfolding wait_task_ends by blast
    then have "set pl \<subseteq> D k" using dev(1) pl(4) by metis
    moreover have "D k \<subseteq> D j" if "k \<le> j" for j using lift_Suc_mono_le [of D k j] dev(2) that by blast
    ultimately show ?thesis using k by blast
  qed
  moreover have "\<exists>jp sig'. jp \<notin> D k \<and> batch_device E x w w' (insert jp (D k)) sig'"
    if "wait_task seen (th, x', w') = None" for k
  proof -
    have "seen th k \<noteq> 0" using waitOnSignal_returns [of 0 k "seen th"] that by (auto simp: wait_task_def)
    then show ?thesis using dev(1) pl(4) by metis
  qed
  ultimately show ?thesis using pl(1-3) by (intro exI [of _ pl]) auto
qed

theorem level_finished_witness:
  "\<exists>g th x' w' D seen pl. build NodeInOut [(1, ki_ex)] [] = Inr g \<and>
     host_launch env4 kern_state_ex g [1] (0, uexec_ex, world_ex) = Some (Inr (th, x', w')) \<and> length pl = 1 \<and>
     wait_task seen (th, x', w') = Some (Inr (th, x', w')) \<and>
     (\<exists>k. waitOnSignal (seen th) 0 = Some (Suc k) \<and> (\<forall>j \<ge> k. set pl \<subseteq> D j)) \<and> D (0 :: nat) = ({} :: (nat \<times> nat) set)"
proof -
  have "\<exists>g. build NodeInOut [(1, ki_ex)] [] = Inr g \<and> wf_dag g \<and>
      dkind g = NodeInOut \<and> verts g = set (map fst [(1, ki_ex)]) \<and> edges g = set []"
    by (rule build_ok) auto
  then obtain g where g: "build NodeInOut [(1, ki_ex)] [] = Inr g" by blast
  have d: "\<forall>n \<in> set [1]. nodeData g n = Inr ki_ex"
    using g by (auto simp: build_def addNode_def Let_def nodeData_def put_node_def make_node_def deref_def)
  obtain th x' w' where r: "run_batch env4 kern_state_ex [ki_ex] (uexec_ex, world_ex) = Some (Inr (th, x', w'))"
    "batch_fits uexec_ex world_ex w'" using world_ex_runs by blast
  have h: "host_launch env4 kern_state_ex g [1] (0, uexec_ex, world_ex) = Some (Inr (th, x', w'))"
    using host_launch_run_batch [of "[1]" g "\<lambda>_. ki_ex"] d r(1) by simp
  have x: "exec_ok uexec_ex world_ex"
    by (auto simp: exec_ok_def uexec_ex_def world_ex_def ring_ok_def intro!: exI [of _ 2])
  have A: "abi_ok (abi env4)" using abi_ex_ok by simp
  have start: "batch_device env4 uexec_ex world_ex w' {} (sig_val w')" unfolding batch_device_def by (rule device.start)
  have go: "\<exists>jp sig'. jp \<notin> D \<and> batch_device env4 uexec_ex world_ex w' (insert jp D) sig'"
    if "batch_device env4 uexec_ex world_ex w' D sig" "sig th \<noteq> 0" for D sig
    using run_batch_completes [OF x world_ex_signals A r(2,1)] that by blast
  have "\<exists>D sg. D 0 = {} \<and> (\<forall>k :: nat. batch_device env4 uexec_ex world_ex w' (D k) (sg k)) \<and>
      (\<forall>k. D k \<subseteq> D (Suc k)) \<and> (\<exists>k. sg k th = 0)"
    by (rule batch_device_ends [OF _ start]) (rule go)
  then obtain D sg where
    D: "D 0 = {}" "\<forall>k :: nat. batch_device env4 uexec_ex world_ex w' (D k) (sg k)" "\<forall>k. D k \<subseteq> D (Suc k)" "\<exists>k. sg k th = 0"
    by blast
  let ?seen = "\<lambda>t k. sg k t"
  have b: "\<forall>k. batch_device env4 uexec_ex world_ex w' (D k) (sg k) \<and> ?seen th k = sg k th" using D(2) by blast
  obtain k where "sg k th = 0" using D(4) by blast
  then obtain m where "waitOnSignal (?seen th) 0 = Some (Suc m)" using waitOnSignal_returns [of 0 k "?seen th"] by auto
  then have w: "wait_task ?seen (th, x', w') = Some (Inr (th, x', w'))" by (simp add: wait_task_def)
  from level_finished [where d = "\<lambda>_. ki_ex" and h = 0 and seen = ?seen and D = D and sg = sg, OF d x world_ex_signals A r(2) h b D(3)]
  obtain pl where pl: "length pl = length [1 :: addr]" "\<forall>r. wait_task ?seen (th, x', w') = Some r \<longrightarrow>
      r = Inr (th, x', w') \<and> (\<exists>k. waitOnSignal (?seen th) 0 = Some (Suc k) \<and> (\<forall>j \<ge> k. set pl \<subseteq> D j))"
    by (elim exE conjE) (rule that)
  then have "\<exists>k. waitOnSignal (?seen th) 0 = Some (Suc k) \<and> (\<forall>j \<ge> k. set pl \<subseteq> D j)" using w by blast
  moreover have "length pl = 1" using pl(1) by simp
  ultimately show ?thesis using g h w D(1)
    by - (rule exI [of _ g], rule exI [of _ th], rule exI [of _ x'], rule exI [of _ w'], rule exI [of _ D], rule exI [of _ ?seen],
      rule exI [of _ pl], intro conjI)
qed

end
