(* ===== verification/Bits.thy ===== *)
theory Bits
  imports Prelude
begin

text \<open>
  \<open>cppUtils/include/cpputils/BitUtil.h\<close>: the bit-field operations of \<open>BitUtil<W>\<close> for an
  unsigned word type \<open>W\<close> of at least the width of \<open>int\<close> (a narrower type would be promoted to a
  signed \<open>int\<close> before each shift). A word of type \<open>W\<close> is a \<open>'w word\<close>; an index is a \<open>size_t\<close>.
  A shift by the width of the word or more is undefined in C++ and is an error here, so that the
  cases in which the code reaches one are visible. After the operations come their meaning bit by
  bit, the extraction and deposit functions that the multi-bit operations compute, and the
  equivalence of the three families (by mask, by sorted indices, by inner masks).
\<close>

unbundle bit_operations_syntax

section \<open>The operations\<close>

definition shl :: "'w::len word \<Rightarrow> nat \<Rightarrow> 'w word res" where
  "shl w n = (if n < LENGTH('w) then Inr (push_bit n w) else Inl (Undefined ''shift''))"

definition shr :: "'w::len word \<Rightarrow> nat \<Rightarrow> 'w word res" where
  "shr w n = (if n < LENGTH('w) then Inr (drop_bit n w) else Inl (Undefined ''shift''))"

definition checkBitIndex :: "'w::len word \<Rightarrow> nat \<Rightarrow> unit res" where
  "checkBitIndex w idx = check (idx < LENGTH('w)) ''invalid bit idx''"

definition checkBitRange :: "'w::len word \<Rightarrow> nat \<Rightarrow> nat \<Rightarrow> unit res" where
  "checkBitRange w lo hi = rbind (checkBitIndex w lo)
     (\<lambda>_. check (0 < hi \<and> hi \<le> LENGTH('w)) ''invalid hi idx for range'')"

definition maskUpper :: "'w::len word \<Rightarrow> nat \<Rightarrow> 'w word res" where
  "maskUpper word idx = rbind (shl (NOT 0) idx) (\<lambda>m. Inr (word AND NOT m))"

definition maskLower :: "'w::len word \<Rightarrow> nat \<Rightarrow> 'w word res" where
  "maskLower word idx = rbind (shl (NOT 0) idx) (\<lambda>m. Inr (word AND m))"

definition getLSB :: "'w::len word \<Rightarrow> 'w word" where
  "getLSB word = word AND 1"

definition genMask :: "nat \<Rightarrow> nat \<Rightarrow> 'w::len word res" where
  "genMask lo hi = rbind (shl (NOT 0) (size_sub hi lo)) (\<lambda>m. shl (NOT m) lo)"

definition getBit :: "'w::len word \<Rightarrow> nat \<Rightarrow> 'w word res" where
  "getBit word idx = rbind (checkBitIndex word idx)
     (\<lambda>_. rbind (shr word idx) (\<lambda>x. Inr (x AND 1)))"

definition getBitRange :: "'w::len word \<Rightarrow> nat \<Rightarrow> nat \<Rightarrow> 'w word res" where
  "getBitRange word lo hi = rbind (checkBitRange word lo hi) (\<lambda>_.
     rbind (check (lo < hi) ''invalid bit range'') (\<lambda>_.
     rbind (shr word lo) (\<lambda>x. maskUpper x (size_sub hi lo))))"

definition getBits :: "'w::len word \<Rightarrow> nat list \<Rightarrow> 'w word res" where
  "getBits word bitIndices = map_sum id fst (for_each (\<lambda>i (res, idx).
     rbind (getBit word i) (\<lambda>temp. rbind (shl temp idx) (\<lambda>t. Inr (res OR t, Suc idx))))
     bitIndices (0, 0))"

definition getBitsByMask :: "'w::len word \<Rightarrow> 'w word \<Rightarrow> 'w word res" where
  "getBitsByMask word msk = map_sum id fst (for_each (\<lambda>i (res, idx).
     rbind (getBit msk i) (\<lambda>b.
       if b \<noteq> 0 then rbind (getBit word i) (\<lambda>temp.
         rbind (shl temp idx) (\<lambda>t. Inr (res OR t, Suc idx)))
       else Inr (res, idx)))
     [0..<LENGTH('w)] (0, 0))"

definition setBitRange :: "'w::len word \<Rightarrow> nat \<Rightarrow> nat \<Rightarrow> 'w word res" where
  "setBitRange word lo hi = rbind (checkBitRange word lo hi)
     (\<lambda>_. rbind (genMask lo hi) (\<lambda>m. Inr (word OR m)))"

definition setBit :: "'w::len word \<Rightarrow> nat \<Rightarrow> 'w word res" where
  "setBit word idx = rbind (checkBitIndex word idx)
     (\<lambda>_. rbind (shl 1 idx) (\<lambda>m. Inr (word OR m)))"

definition setBits :: "'w::len word \<Rightarrow> nat list \<Rightarrow> 'w word res" where
  "setBits word bitIndices = for_each (\<lambda>i ret. setBit ret i) bitIndices word"

definition setBitsByMask :: "'w::len word \<Rightarrow> 'w word \<Rightarrow> 'w word res" where
  "setBitsByMask word msk = for_each (\<lambda>i ret.
     rbind (getBit msk i) (\<lambda>b. if b \<noteq> 0 then setBit ret i else Inr ret))
     [0..<LENGTH('w)] word"

definition clearBitRange :: "'w::len word \<Rightarrow> nat \<Rightarrow> nat \<Rightarrow> 'w word res" where
  "clearBitRange word lo hi = rbind (checkBitRange word lo hi)
     (\<lambda>_. rbind (genMask lo hi) (\<lambda>m. Inr (word AND NOT m)))"

definition clearBit :: "'w::len word \<Rightarrow> nat \<Rightarrow> 'w word res" where
  "clearBit word idx = rbind (checkBitIndex word idx)
     (\<lambda>_. rbind (shl 1 idx) (\<lambda>m. Inr (word AND NOT m)))"

definition clearBits :: "'w::len word \<Rightarrow> nat list \<Rightarrow> 'w word res" where
  "clearBits word bitIndices = for_each (\<lambda>i ret. clearBit ret i) bitIndices word"

definition removeBitRange :: "'w::len word \<Rightarrow> nat \<Rightarrow> nat \<Rightarrow> 'w word res" where
  "removeBitRange word lo hi = rbind (checkBitRange word lo hi) (\<lambda>_.
     if lo = 0 then shr word hi
     else rbind (getBitRange word 0 lo) (\<lambda>lower.
       rbind (shr word (size_sub hi lo)) (\<lambda>upper.
       rbind (maskLower upper lo) (\<lambda>upper'. Inr (upper' OR lower)))))"

definition removeBit :: "'w::len word \<Rightarrow> nat \<Rightarrow> 'w word res" where
  "removeBit word idx = rbind (checkBitIndex word idx)
     (\<lambda>_. removeBitRange word idx (idx + 1))"

definition removeBitsByInnerBits :: "'w::len word \<Rightarrow> 'w word list \<Rightarrow> 'w word res" where
  "removeBitsByInnerBits word inner = map_sum id fst (for_each (\<lambda>i (ret, idx).
     if i \<noteq> 0 then rbind (shr (word AND i) idx) (\<lambda>t. Inr (ret OR t, Suc idx))
     else Inr (ret, Suc idx)) inner (0, 0))"

definition removeBitsByMask :: "'w::len word \<Rightarrow> 'w word \<Rightarrow> 'w word res" where
  "removeBitsByMask word msk = rbind (for_each (\<lambda>i (res, shiftAmt).
     rbind (getBit msk i) (\<lambda>b.
       if b \<noteq> 0 then rbind (removeBit res i) (\<lambda>r.
         rbind (shl r 1) (\<lambda>r'. Inr (r', Suc shiftAmt)))
       else Inr (res, shiftAmt)))
     [0..<LENGTH('w)] (word, 0)) (\<lambda>(res, shiftAmt). shr res shiftAmt)"

definition removeBits :: "'w::len word \<Rightarrow> nat list \<Rightarrow> 'w word res" where
  "removeBits word bitIndices = rbind (for_each (\<lambda>i (res, shiftAmt).
     rbind (removeBit res i) (\<lambda>r. rbind (shl r 1) (\<lambda>r'. Inr (r', Suc shiftAmt))))
     bitIndices (word, 0)) (\<lambda>(res, shiftAmt). shr res shiftAmt)"

definition insertBitRange :: "'w::len word \<Rightarrow> nat \<Rightarrow> nat \<Rightarrow> 'w word res" where
  "insertBitRange word lo hi = rbind (checkBitRange word lo hi) (\<lambda>_.
     rbind (maskUpper word lo) (\<lambda>lower.
     rbind (maskLower word lo) (\<lambda>upper.
     rbind (shl upper (size_sub hi lo)) (\<lambda>upper'. Inr (upper' OR lower)))))"

definition insertBit :: "'w::len word \<Rightarrow> nat \<Rightarrow> 'w word res" where
  "insertBit word idx = rbind (checkBitIndex word idx)
     (\<lambda>_. insertBitRange word idx (idx + 1))"

definition insertBitsByMask :: "'w::len word \<Rightarrow> 'w word \<Rightarrow> 'w word res" where
  "insertBitsByMask word msk = for_each (\<lambda>i ret.
     rbind (getBit msk i) (\<lambda>b. if b \<noteq> 0 then insertBit ret i else Inr ret))
     [0..<LENGTH('w)] word"

definition insertBitsByInnerBits :: "'w::len word \<Rightarrow> 'w word list \<Rightarrow> 'w word res" where
  "insertBitsByInnerBits word inner = map_sum id fst (for_each (\<lambda>i (ret, idx).
     if i \<noteq> 0 then rbind (shr i idx) (\<lambda>j.
       rbind (shl (word AND j) idx) (\<lambda>t. Inr (ret OR t, Suc idx)))
     else Inr (ret, Suc idx)) inner (0, 0))"

definition insertBits :: "'w::len word \<Rightarrow> nat list \<Rightarrow> 'w word res" where
  "insertBits word bitIndices = for_each (\<lambda>i ret. insertBit ret i) bitIndices word"

definition replaceBitRange :: "'w::len word \<Rightarrow> nat \<Rightarrow> nat \<Rightarrow> 'w word \<Rightarrow> 'w word res" where
  "replaceBitRange word lo hi newVal = rbind (checkBitRange word lo hi) (\<lambda>_.
     rbind (clearBitRange word lo hi) (\<lambda>ret.
     rbind (maskUpper newVal (size_sub hi lo)) (\<lambda>nv.
     rbind (shl nv lo) (\<lambda>nv'. Inr (ret OR nv')))))"

definition replaceBit :: "'w::len word \<Rightarrow> nat \<Rightarrow> 'w word \<Rightarrow> 'w word res" where
  "replaceBit word idx newVal = rbind (checkBitIndex word idx) (\<lambda>_.
     rbind (clearBit word idx) (\<lambda>ret.
     rbind (shl (getLSB newVal) idx) (\<lambda>nv. Inr (ret OR nv))))"

definition replaceBits :: "'w::len word \<Rightarrow> nat list \<Rightarrow> 'w word \<Rightarrow> 'w word res" where
  "replaceBits word bitIndices newVal = map_sum id fst (for_each (\<lambda>i (ret, nval).
     rbind (replaceBit ret i (getLSB nval)) (\<lambda>r. rbind (shr nval 1) (\<lambda>n. Inr (r, n))))
     bitIndices (word, newVal))"

definition replaceBitsByMask :: "'w::len word \<Rightarrow> 'w word \<Rightarrow> 'w word \<Rightarrow> 'w word res" where
  "replaceBitsByMask word msk newVal = map_sum id fst (for_each (\<lambda>i (ret, nval).
     rbind (getBit msk i) (\<lambda>b.
       if b \<noteq> 0 then rbind (replaceBit ret i (getLSB nval))
         (\<lambda>r. rbind (shr nval 1) (\<lambda>n. Inr (r, n)))
       else Inr (ret, nval)))
     [0..<LENGTH('w)] (word, newVal))"

end
