(* ===== verification/BitsLaws.thy ===== *)
theory BitsLaws
  imports Bits
begin

text \<open>
  The meaning of the operations of \<open>Bits\<close>, bit by bit, and of the multi-bit families. \<open>rank P i\<close>
  counts the positions below \<open>i\<close> that satisfy \<open>P\<close>; \<open>extract w P\<close> packs the bits of \<open>w\<close> at the
  positions in \<open>P\<close> to the low end, \<open>deposit w P\<close> spreads the low bits of \<open>w\<close> over them.
\<close>

section \<open>Single-position operations\<close>

declare push_bit_Suc [simp del]

named_theorems bit_ops \<open>the operations at in-range indices\<close>

lemma shl_ok [bit_ops]: "n < LENGTH('w) \<Longrightarrow> shl (w :: 'w::len word) n = Inr (push_bit n w)"
  by (simp add: shl_def)

lemma shr_ok [bit_ops]: "n < LENGTH('w) \<Longrightarrow> shr (w :: 'w::len word) n = Inr (drop_bit n w)"
  by (simp add: shr_def)

lemma shl_undef: "LENGTH('w) \<le> n \<Longrightarrow> shl (w :: 'w::len word) n = Inl (Undefined ''shift'')"
  by (simp add: shl_def)

lemma shr_undef: "LENGTH('w) \<le> n \<Longrightarrow> shr (w :: 'w::len word) n = Inl (Undefined ''shift'')"
  by (simp add: shr_def)

lemma ones_above: "bit (push_bit i (- 1 :: 'w::len word)) n \<longleftrightarrow> i \<le> n \<and> n < LENGTH('w)"
  by (auto simp: bit_simps)

lemma maskUpper_ok [bit_ops]:
  "i < LENGTH('w) \<Longrightarrow> maskUpper (w :: 'w::len word) i = Inr (take_bit i w)"
  by (simp add: maskUpper_def bit_ops)
    (rule bit_word_eqI, auto simp: bit_simps)

lemma maskLower_ok [bit_ops]:
  "i < LENGTH('w) \<Longrightarrow> maskLower (w :: 'w::len word) i = Inr (push_bit i (drop_bit i w))"
  unfolding maskLower_def
  by (auto simp: bit_ops bit_simps intro!: bit_word_eqI)

lemma genMask_ok [bit_ops]:
  assumes "lo \<le> hi" "hi - lo < LENGTH('w)" "lo < LENGTH('w)"
  shows "genMask lo hi = Inr (push_bit lo (mask (hi - lo)) :: 'w::len word)"
  using assms
  by (simp add: genMask_def bit_ops)

lemma getBit_ok [bit_ops]:
  "i < LENGTH('w) \<Longrightarrow> getBit (w :: 'w::len word) i = Inr (of_bool (bit w i))"
  by (simp add: getBit_def checkBitIndex_def bit_ops and_one_eq bit_iff_odd_drop_bit mod_2_eq_odd)

lemma setBit_ok [bit_ops]:
  "i < LENGTH('w) \<Longrightarrow> setBit (w :: 'w::len word) i = Inr (set_bit i w)"
  by (simp add: setBit_def checkBitIndex_def bit_ops set_bit_eq_or)

lemma clearBit_ok [bit_ops]:
  "i < LENGTH('w) \<Longrightarrow> clearBit (w :: 'w::len word) i = Inr (unset_bit i w)"
  by (simp add: clearBit_def checkBitIndex_def bit_ops unset_bit_eq_and_not)

definition removed :: "nat \<Rightarrow> 'w::len word \<Rightarrow> 'w word" where
  "removed i w = push_bit i (drop_bit (Suc i) w) OR take_bit i w"

definition inserted :: "nat \<Rightarrow> 'w::len word \<Rightarrow> 'w word" where
  "inserted i w = push_bit 1 (push_bit i (drop_bit i w)) OR take_bit i w"

lemma bit_removed:
  "bit (removed i w) n \<longleftrightarrow> (if n < i then bit w n else bit w (Suc n))"
  for w :: "'w::len word"
  by (auto simp: removed_def bit_simps dest: bit_imp_le_length)

lemma bit_inserted:
  "bit (inserted i w) n \<longleftrightarrow> n < LENGTH('w) \<and>
    (if n < i then bit w n else n \<noteq> i \<and> bit w (n - 1))"
  for w :: "'w::len word"
  by (auto simp: inserted_def bit_simps Suc_le_eq dest: bit_imp_le_length)

lemma removeBit_ok [bit_ops]:
  assumes "1 < LENGTH('w)" "i < LENGTH('w)"
  shows "removeBit (w :: 'w::len word) i = Inr (removed i w)"
proof (cases "i = 0")
  case True
  then show ?thesis using assms
    by (simp add: removeBit_def removeBitRange_def checkBitIndex_def checkBitRange_def bit_ops
        removed_def)
next
  case False
  have "push_bit i (drop_bit i (drop_bit 1 w)) OR take_bit i w = removed i w"
    by (simp add: removed_def)
  then show ?thesis using assms False
    by (simp add: removeBit_def removeBitRange_def checkBitIndex_def checkBitRange_def bit_ops
        getBitRange_def)
qed

lemma insertBit_ok [bit_ops]:
  assumes "1 < LENGTH('w)" "i < LENGTH('w)"
  shows "insertBit (w :: 'w::len word) i = Inr (inserted i w)"
  using assms
  by (simp add: insertBit_def insertBitRange_def checkBitIndex_def checkBitRange_def bit_ops
      inserted_def)

lemma replaceBit_ok [bit_ops]:
  "i < LENGTH('w) \<Longrightarrow>
    replaceBit (w :: 'w::len word) i v = Inr (if bit v 0 then set_bit i w else unset_bit i w)"
  by (simp add: replaceBit_def checkBitIndex_def bit_ops getLSB_def)
    (auto intro!: bit_word_eqI simp: bit_simps)

section \<open>Ranks, extraction and deposit\<close>

primrec rank :: "(nat \<Rightarrow> bool) \<Rightarrow> nat \<Rightarrow> nat" where
  "rank P 0 = 0"
| "rank P (Suc i) = rank P i + of_bool (P i)"

lemma rank_le: "rank P i \<le> i"
  by (induction i) auto

lemma rank_mono: "i \<le> j \<Longrightarrow> rank P i \<le> rank P j"
  by (induction j) (auto simp: le_Suc_eq)

lemma rank_less: "P i \<Longrightarrow> i < j \<Longrightarrow> rank P i < rank P j"
  using rank_mono [of "Suc i" j P] by simp

lemma rank_inj: "P i \<Longrightarrow> P j \<Longrightarrow> rank P i = rank P j \<Longrightarrow> i = j"
  by (metis linorder_neq_iff rank_less)

lemma rank_compl: "rank (\<lambda>i. \<not> P i) i + rank P i = i"
  by (induction i) auto

lemma rank_compl_left [simp]: "rank P i + rank (\<lambda>i. \<not> P i) i = i"
  using rank_compl [of P i] by simp

lemma rank_surj: "n < rank P i \<Longrightarrow> \<exists>j<i. P j \<and> rank P j = n"
proof (induction i)
  case (Suc i)
  show ?case
  proof (cases "n < rank P i")
    case True
    with Suc.IH show ?thesis using less_SucI by blast
  next
    case False
    with Suc.prems have "P i \<and> rank P i = n" by (cases "P i") auto
    then show ?thesis by blast
  qed
qed simp

definition extracts :: "'w::len word \<Rightarrow> (nat \<Rightarrow> bool) \<Rightarrow> 'w word \<Rightarrow> bool" where
  "extracts w P r \<longleftrightarrow>
     (\<forall>n. bit r n \<longleftrightarrow> (\<exists>i<LENGTH('w). P i \<and> rank P i = n \<and> bit w i))"

definition deposits :: "'w::len word \<Rightarrow> (nat \<Rightarrow> bool) \<Rightarrow> 'w word \<Rightarrow> bool" where
  "deposits w P r \<longleftrightarrow> (\<forall>n. bit r n \<longleftrightarrow> n < LENGTH('w) \<and> P n \<and> bit w (rank P n))"

lemma extracts_unique: "extracts w P r \<Longrightarrow> extracts w P r' \<Longrightarrow> r = r'"
  by (rule bit_word_eqI) (simp add: extracts_def)

lemma deposits_unique: "deposits w P r \<Longrightarrow> deposits w P r' \<Longrightarrow> r = r'"
  by (rule bit_word_eqI) (simp add: deposits_def)

text \<open>Extraction after deposit keeps the bits that had a place to go.\<close>

lemma extract_deposit:
  fixes w :: "'w::len word"
  assumes d: "deposits w P r" and e: "extracts r P r'"
  shows "bit r' n \<longleftrightarrow> n < rank P LENGTH('w) \<and> bit w n"
proof
  assume "bit r' n"
  then obtain i where "i < LENGTH('w)" "P i" "rank P i = n" "bit w n"
    using d e by (auto simp: extracts_def deposits_def)
  then show "n < rank P LENGTH('w) \<and> bit w n" using rank_less by blast
next
  assume n: "n < rank P LENGTH('w) \<and> bit w n"
  then obtain j where "j < LENGTH('w)" "P j" "rank P j = n" using rank_surj by blast
  then show "bit r' n" using n d e by (auto simp: extracts_def deposits_def)
qed

text \<open>Deposit after extraction restores the extracted positions.\<close>

lemma deposit_extract:
  fixes w :: "'w::len word"
  assumes e: "extracts w P r" and d: "deposits r P r'"
  shows "bit r' n \<longleftrightarrow> P n \<and> bit w n"
  using e d rank_inj [of P] by (auto simp: extracts_def deposits_def dest: bit_imp_le_length)

section \<open>The mask family\<close>

lemma upt_split: "[0..<n] = ys @ y # zs \<Longrightarrow> y = length ys \<and> y < n"
proof -
  assume eq: "[0..<n] = ys @ y # zs"
  then have len: "length ys < n"
    by (metis length_append length_upt diff_zero add_less_cancel_left less_add_same_cancel1
        length_Cons zero_less_Suc)
  have "[0..<n] ! length ys = y" using eq by simp
  then show ?thesis using len by simp
qed

text \<open>A counted loop \<open>for (i = 0; i < n; ++i)\<close> with an invariant indexed by the counter.\<close>

lemma for_upt_rule:
  assumes "P 0 s"
    and "\<And>i t. i < n \<Longrightarrow> P i t \<Longrightarrow> \<exists>t'. f i t = Inr t' \<and> P (Suc i) t'"
  shows "\<exists>t. for_each f [0..<n] s = Inr t \<and> P n t"
proof -
  have "\<exists>t. for_each f [0..<n] s = Inr t \<and> P (length [0..<n]) t"
  proof (rule for_each_rule)
    show "P (length []) s" using assms(1) by simp
  next
    fix ys y zs t
    assume eq: "[0..<n] = ys @ y # zs" and "P (length ys) t"
    then show "\<exists>t'. f y t = Inr t' \<and> P (length (ys @ [y])) t'"
      using assms(2) [of y t] upt_split [OF eq] by simp
  qed
  then show ?thesis by simp
qed

lemma getBitsByMask_extracts:
  "\<exists>r. getBitsByMask (w :: 'w::len word) m = Inr r \<and> extracts w (bit m) r"
proof -
  let ?P = "\<lambda>i (res :: 'w word, idx). idx = rank (bit m) i \<and>
     (\<forall>n. bit res n \<longleftrightarrow> (\<exists>j<i. bit m j \<and> rank (bit m) j = n \<and> bit w j))"
  let ?f = "\<lambda>i (res, idx). rbind (getBit m i) (\<lambda>b.
       if b \<noteq> 0 then rbind (getBit w i) (\<lambda>temp.
         rbind (shl temp idx) (\<lambda>t. Inr (res OR t, Suc idx))) else Inr (res, idx))"
  have "\<exists>t. for_each ?f [0..<LENGTH('w)] (0, 0) = Inr t \<and> ?P LENGTH('w) t"
  proof (rule for_upt_rule [where P = ?P])
    show "?P 0 (0, 0)" by simp
  next
    fix i t
    assume i: "i < LENGTH('w)" and inv: "?P i t"
    obtain res idx where t: "t = (res, idx)" by fastforce
    have "idx < LENGTH('w)" using inv i rank_le [of "bit m" i] by (simp add: t)
    then show "\<exists>t'. ?f i t = Inr t' \<and> ?P (Suc i) t'"
      using i inv by (auto simp: t bit_ops bit_simps less_Suc_eq)
  qed
  then show ?thesis by (force simp: getBitsByMask_def extracts_def)
qed

lemma removeBitsByMask_loop:
  assumes len: "1 < LENGTH('w)"
  shows "\<exists>res. for_each (\<lambda>i (res, shiftAmt). rbind (getBit (m :: 'w word) i) (\<lambda>b.
       if b \<noteq> 0 then rbind (removeBit res i) (\<lambda>r.
         rbind (shl r 1) (\<lambda>r'. Inr (r', Suc shiftAmt)))
       else Inr (res, shiftAmt))) [0..<LENGTH('w)] (w :: 'w::len word, 0) =
         Inr (res, rank (bit m) LENGTH('w)) \<and>
     (\<forall>n<LENGTH('w). bit res n \<longleftrightarrow> rank (bit m) LENGTH('w) \<le> n \<and>
       (\<exists>j<LENGTH('w). \<not> bit m j \<and>
          rank (\<lambda>i. \<not> bit m i) j + rank (bit m) LENGTH('w) = n \<and> bit w j))"
    (is "\<exists>res. for_each ?f _ _ = _ \<and> _")
proof -
  let ?k = "rank (bit m)"
  let ?z = "rank (\<lambda>i. \<not> bit m i)"
  let ?P = "\<lambda>i (res :: 'w word, k). k = ?k i \<and> (\<forall>n<LENGTH('w). bit res n \<longleftrightarrow>
     (if i \<le> n then bit w n
      else k \<le> n \<and> (\<exists>j<i. \<not> bit m j \<and> ?z j + k = n \<and> bit w j)))"
  have "\<exists>t. for_each ?f [0..<LENGTH('w)] (w, 0) = Inr t \<and> ?P LENGTH('w) t"
  proof (rule for_upt_rule [where P = ?P])
    show "?P 0 (w, 0)" by simp
  next
    fix i t
    assume i: "i < LENGTH('w)" and inv: "?P i t"
    obtain res k where t: "t = (res, k)" by fastforce
    have k: "k = ?k i" using inv by (simp add: t)
    have inv': "bit res n \<longleftrightarrow> (if i \<le> n then bit w n
      else k \<le> n \<and> (\<exists>j<i. \<not> bit m j \<and> ?z j + k = n \<and> bit w j))" if "n < LENGTH('w)" for n
      using inv that by (simp add: t)
    have z: "?z i + k = i" using rank_compl [of "bit m" i] k by simp
    show "\<exists>t'. ?f i t = Inr t' \<and> ?P (Suc i) t'"
    proof (cases "bit m i")
      case True
      have "bit (push_bit 1 (removed i res)) n \<longleftrightarrow> (if Suc i \<le> n then bit w n
        else Suc k \<le> n \<and> (\<exists>j<Suc i. \<not> bit m j \<and> ?z j + Suc k = n \<and> bit w j))"
        if n: "n < LENGTH('w)" for n
      proof (cases n)
        case 0
        then show ?thesis by (simp add: bit_simps)
      next
        case (Suc n')
        have "bit (push_bit 1 (removed i res)) n \<longleftrightarrow> bit (removed i res) n'"
          using n Suc by (simp add: bit_simps)
        also have "\<dots> \<longleftrightarrow> (if n' < i then bit res n' else bit res n)"
          by (simp add: bit_removed Suc)
        finally show ?thesis
          using n Suc inv' [of n] inv' [of n'] True by (auto simp: less_Suc_eq)
      qed
      then show ?thesis using True i len k by (auto simp: t bit_ops)
    next
      case False
      have eq: "?z j + k = i \<longleftrightarrow> j = i" if "\<not> bit m j" for j
        using that False z rank_inj [of "\<lambda>i. \<not> bit m i" j i] by auto
      have "bit res n \<longleftrightarrow> (if Suc i \<le> n then bit w n
        else k \<le> n \<and> (\<exists>j<Suc i. \<not> bit m j \<and> ?z j + k = n \<and> bit w j))"
        if n: "n < LENGTH('w)" for n
      proof (cases "n = i")
        case True
        have "(\<exists>j<Suc i. \<not> bit m j \<and> ?z j + k = i \<and> bit w j) \<longleftrightarrow> bit w i"
          using eq False by (metis lessI)
        then show ?thesis using inv' [OF n] True z by auto
      next
        case ne: False
        then have "(\<exists>j<Suc i. \<not> bit m j \<and> ?z j + k = n \<and> bit w j) \<longleftrightarrow>
          (\<exists>j<i. \<not> bit m j \<and> ?z j + k = n \<and> bit w j)"
          using z by (auto simp: less_Suc_eq)
        then show ?thesis using inv' [OF n] ne by auto
      qed
      then show ?thesis using False i k by (auto simp: t bit_ops)
    qed
  qed
  then show ?thesis by fastforce
qed

lemma removeBitsByMask_extracts:
  assumes len: "1 < LENGTH('w)" and k: "rank (bit m) LENGTH('w) < LENGTH('w)"
  shows "\<exists>r. removeBitsByMask (w :: 'w::len word) m = Inr r \<and> extracts w (\<lambda>i. \<not> bit m i) r"
proof -
  let ?k = "rank (bit m) LENGTH('w)"
  let ?z = "rank (\<lambda>i. \<not> bit m i)"
  from removeBitsByMask_loop [OF len, of m w] obtain res where
    *: "removeBitsByMask w m = shr res ?k" and
    res: "\<And>n. n < LENGTH('w) \<Longrightarrow> bit res n \<longleftrightarrow> ?k \<le> n \<and>
       (\<exists>j<LENGTH('w). \<not> bit m j \<and> ?z j + ?k = n \<and> bit w j)"
    unfolding removeBitsByMask_def by fastforce
  have "bit (drop_bit ?k res) n \<longleftrightarrow>
      (\<exists>i<LENGTH('w). \<not> bit m i \<and> ?z i = n \<and> bit w i)" for n
  proof (cases "n + ?k < LENGTH('w)")
    case True
    then show ?thesis using res [of "?k + n"] by (auto simp: bit_simps)
  next
    case False
    have "?z i + ?k < LENGTH('w)" if "i < LENGTH('w)" "\<not> bit m i" for i
      using rank_less [of "\<lambda>i. \<not> bit m i" i "LENGTH('w)"] that
        rank_compl [of "bit m" "LENGTH('w)"] by simp
    then show ?thesis using False
      by (auto simp: bit_simps add.commute dest: bit_imp_le_length)
  qed
  then show ?thesis using k by (simp add: * bit_ops extracts_def)
qed

lemma insertBitsByMask_deposits:
  assumes len: "1 < LENGTH('w)"
  shows "\<exists>r. insertBitsByMask (w :: 'w::len word) m = Inr r \<and> deposits w (\<lambda>i. \<not> bit m i) r"
proof -
  let ?z = "rank (\<lambda>i. \<not> bit m i)"
  let ?P = "\<lambda>i (ret :: 'w word). \<forall>n<LENGTH('w). bit ret n \<longleftrightarrow>
     (if n < i then \<not> bit m n \<and> bit w (?z n) else bit w (n - rank (bit m) i))"
  let ?f = "\<lambda>i ret. rbind (getBit m i) (\<lambda>b. if b \<noteq> 0 then insertBit ret i else Inr ret)"
  have "\<exists>t. for_each ?f [0..<LENGTH('w)] w = Inr t \<and> ?P LENGTH('w) t"
  proof (rule for_upt_rule [where P = ?P])
    show "?P 0 w" by simp
  next
    fix i and ret :: "'w word"
    assume i: "i < LENGTH('w)" and inv: "?P i ret"
    have z: "i - rank (bit m) i = ?z i" using rank_compl [of "bit m" i] by simp
    show "\<exists>t'. ?f i ret = Inr t' \<and> ?P (Suc i) t'"
    proof (cases "bit m i")
      case True
      have "?P (Suc i) (inserted i ret)"
      proof (intro allI impI)
        fix n assume n: "n < LENGTH('w)"
        show "bit (inserted i ret) n \<longleftrightarrow> (if n < Suc i then \<not> bit m n \<and> bit w (?z n)
          else bit w (n - rank (bit m) (Suc i)))"
          using n inv True by (cases n) (auto simp: bit_inserted less_Suc_eq)
      qed
      then show ?thesis using True i len by (simp add: bit_ops)
    next
      case False
      then have "?P (Suc i) ret" using inv z by (auto simp: less_Suc_eq)
      then show ?thesis using False i by (simp add: bit_ops)
    qed
  qed
  then show ?thesis
    by (auto simp: insertBitsByMask_def deposits_def dest: bit_imp_le_length)
qed

lemma setBitsByMask_ok: "setBitsByMask (w :: 'w::len word) m = Inr (w OR m)"
proof -
  let ?P = "\<lambda>i (ret :: 'w word). \<forall>n. bit ret n \<longleftrightarrow> bit w n \<or> n < i \<and> bit m n"
  let ?f = "\<lambda>i ret. rbind (getBit m i) (\<lambda>b. if b \<noteq> 0 then setBit ret i else Inr ret)"
  have "\<exists>t. for_each ?f [0..<LENGTH('w)] w = Inr t \<and> ?P LENGTH('w) t"
  proof (rule for_upt_rule [where P = ?P])
    show "?P 0 w" by simp
  next
    fix i and ret :: "'w word"
    assume i: "i < LENGTH('w)" and inv: "?P i ret"
    show "\<exists>t'. ?f i ret = Inr t' \<and> ?P (Suc i) t'"
    proof (cases "bit m i")
      case True
      have "?P (Suc i) (set_bit i ret)"
        using inv i True by (auto simp: bit_set_bit_iff less_Suc_eq)
      then show ?thesis using True i by (simp add: bit_ops)
    next
      case False
      then have "?P (Suc i) ret" using inv by (auto simp: less_Suc_eq)
      then show ?thesis using False i by (simp add: bit_ops)
    qed
  qed
  then obtain t where "for_each ?f [0..<LENGTH('w)] w = Inr t" "?P LENGTH('w) t" by blast
  moreover from this have "t = w OR m"
    by (intro bit_word_eqI) (simp add: bit_simps)
  ultimately show ?thesis by (simp add: setBitsByMask_def)
qed

lemma replaceBitsByMask_spec:
  assumes len: "1 < LENGTH('w)"
  shows "\<exists>r. replaceBitsByMask (w :: 'w::len word) m v = Inr r \<and>
    (\<forall>n. bit r n \<longleftrightarrow> (if bit m n then bit v (rank (bit m) n) else bit w n))"
proof -
  let ?k = "rank (bit m)"
  let ?P = "\<lambda>i (ret :: 'w word, nv :: 'w word). (\<forall>n. bit nv n \<longleftrightarrow> bit v (n + ?k i)) \<and>
     (\<forall>n. bit ret n \<longleftrightarrow> (if n < i \<and> bit m n then bit v (?k n) else bit w n))"
  let ?f = "\<lambda>i (ret, nval). rbind (getBit m i) (\<lambda>b.
       if b \<noteq> 0 then rbind (replaceBit ret i (getLSB nval))
         (\<lambda>r. rbind (shr nval 1) (\<lambda>n. Inr (r, n))) else Inr (ret, nval))"
  have "\<exists>t. for_each ?f [0..<LENGTH('w)] (w, v) = Inr t \<and> ?P LENGTH('w) t"
  proof (rule for_upt_rule [where P = ?P])
    show "?P 0 (w, v)" by simp
  next
    fix i t
    assume i: "i < LENGTH('w)" and inv: "?P i t"
    obtain ret nv where t: "t = (ret, nv)" by fastforce
    have lsb: "bit (getLSB nv) 0 = bit v (?k i)"
      using inv by (simp add: t getLSB_def bit_simps)
    show "\<exists>t'. ?f i t = Inr t' \<and> ?P (Suc i) t'"
      using i inv len lsb by (auto simp: t bit_ops bit_simps less_Suc_eq)
  qed
  then show ?thesis
    by (force simp: replaceBitsByMask_def dest: bit_imp_le_length)
qed

section \<open>Masks against sorted index lists\<close>

definition set_indices :: "'w::len word \<Rightarrow> nat list" where
  "set_indices m = filter (bit m) [0..<LENGTH('w)]"

lemma mask_loop:
  fixes m :: "'w::len word"
  assumes "\<And>i s. i < LENGTH('w) \<Longrightarrow> F i s = (if bit m i then f i s else Inr s)"
  shows "for_each F [0..<LENGTH('w)] s = for_each f (set_indices m) s"
proof -
  have "for_each F [0..<LENGTH('w)] s =
      for_each (\<lambda>i s. if bit m i then f i s else Inr s) [0..<LENGTH('w)] s"
    by (rule for_each_cong) (simp add: assms)
  then show ?thesis by (simp add: for_each_filter set_indices_def)
qed

lemma getBits_mask: "getBitsByMask w m = getBits w (set_indices m)"
  unfolding getBitsByMask_def getBits_def
  by (subst mask_loop) (auto simp: bit_ops)

lemma setBits_mask: "setBitsByMask w m = setBits w (set_indices m)"
  unfolding setBitsByMask_def setBits_def
  by (subst mask_loop) (auto simp: bit_ops)

lemma removeBits_mask: "removeBitsByMask w m = removeBits w (set_indices m)"
  unfolding removeBitsByMask_def removeBits_def
  by (subst mask_loop) (auto simp: bit_ops)

lemma insertBits_mask: "insertBitsByMask w m = insertBits w (set_indices m)"
  unfolding insertBitsByMask_def insertBits_def
  by (subst mask_loop) (auto simp: bit_ops)

lemma replaceBits_mask: "replaceBitsByMask w m v = replaceBits w (set_indices m) v"
  unfolding replaceBitsByMask_def replaceBits_def
  by (subst mask_loop) (auto simp: bit_ops)

section \<open>Masks against inner masks\<close>

text \<open>
  The inner masks of a removal mask \<open>m\<close>, as the comment above \<open>removeBitsByInnerBits\<close> describes
  them: the \<open>k\<close>-th holds the positions to keep that have exactly \<open>k\<close> removed positions below.
\<close>

definition innerMask :: "'w::len word \<Rightarrow> nat \<Rightarrow> 'w word" where
  "innerMask m k = fold (\<lambda>i acc. if \<not> bit m i \<and> rank (bit m) i = k then set_bit i acc else acc)
     [0..<LENGTH('w)] 0"

definition innerMasks :: "'w::len word \<Rightarrow> 'w word list" where
  "innerMasks m = map (innerMask m) [0..<Suc (rank (bit m) LENGTH('w))]"

lemma bit_fold_set_bit:
  fixes a :: "'w::len word"
  shows "bit (fold (\<lambda>i acc. if P i then set_bit i acc else acc) xs a) n \<longleftrightarrow>
     bit a n \<or> n < LENGTH('w) \<and> n \<in> set xs \<and> P n"
  by (induction xs arbitrary: a) (auto simp: bit_set_bit_iff)

lemma bit_innerMask:
  "bit (innerMask (m :: 'w::len word) k) n \<longleftrightarrow>
     n < LENGTH('w) \<and> \<not> bit m n \<and> rank (bit m) n = k"
  by (auto simp: innerMask_def bit_fold_set_bit)

lemma innerMask_nonzero:
  "innerMask (m :: 'w::len word) k \<noteq> 0 \<Longrightarrow> k < LENGTH('w)"
proof -
  assume "innerMask m k \<noteq> 0"
  then obtain n where "bit (innerMask m k) n" by (auto simp: bit_eq_iff)
  then show ?thesis using rank_le [of "bit m" n] by (auto simp: bit_innerMask)
qed

lemma innerMask_zero:
  "innerMask (m :: 'w::len word) k = 0 \<Longrightarrow> n < LENGTH('w) \<Longrightarrow> \<not> bit m n \<Longrightarrow> rank (bit m) n \<noteq> k"
  by (metis bit_0_eq bit_innerMask bot_apply bot_bool_def)

lemma rank_kept: "i - rank (bit m) i = rank (\<lambda>i. \<not> bit m i) i"
  using rank_compl [of "bit m" i] by simp

lemma removeBitsByInnerBits_extracts:
  "\<exists>r. removeBitsByInnerBits (w :: 'w::len word) (innerMasks m) = Inr r \<and>
     extracts w (\<lambda>i. \<not> bit m i) r"
proof -
  let ?K = "Suc (rank (bit m) LENGTH('w))"
  let ?z = "rank (\<lambda>i. \<not> bit m i)"
  let ?P = "\<lambda>k (ret :: 'w word, idx). idx = k \<and> (\<forall>n. bit ret n \<longleftrightarrow>
     (\<exists>i<LENGTH('w). \<not> bit m i \<and> rank (bit m) i < k \<and> ?z i = n \<and> bit w i))"
  let ?f = "\<lambda>i (ret, idx). if i \<noteq> 0 then rbind (shr (w AND i) idx) (\<lambda>t. Inr (ret OR t, Suc idx))
     else Inr (ret, Suc idx)"
  have "\<exists>t. for_each (\<lambda>k. ?f (innerMask m k)) [0..<?K] (0, 0) = Inr t \<and> ?P ?K t"
  proof (rule for_upt_rule [where P = ?P])
    show "?P 0 (0, 0)" by simp
  next
    fix k t
    assume "k < ?K" and inv: "?P k t"
    obtain ret where t: "t = (ret, k)" using inv by (cases t) auto
    show "\<exists>t'. ?f (innerMask m k) t = Inr t' \<and> ?P (Suc k) t'"
    proof (cases "innerMask m k = 0")
      case True
      then show ?thesis using inv innerMask_zero [OF True] by (fastforce simp: t less_Suc_eq)
    next
      case False
      have "bit (drop_bit k (w AND innerMask m k)) n \<longleftrightarrow>
        (\<exists>i<LENGTH('w). \<not> bit m i \<and> rank (bit m) i = k \<and> ?z i = n \<and> bit w i)" for n
      proof -
        have "?z i = n \<longleftrightarrow> i = k + n" if "rank (bit m) i = k" for i
          using rank_compl [of "bit m" i] that by auto
        then show ?thesis by (auto simp: bit_simps bit_innerMask)
      qed
      then show ?thesis using inv innerMask_nonzero [OF False] False
        by (simp add: t bit_ops bit_or_iff less_Suc_eq) blast
    qed
  qed
  moreover have "rank (bit m) i < ?K" if "i < LENGTH('w)" for i
    using that rank_mono [of i "LENGTH('w)" "bit m"] by simp
  ultimately show ?thesis
    by (force simp: removeBitsByInnerBits_def innerMasks_def for_each_map extracts_def
        simp del: upt_Suc)
qed

lemma insertBitsByInnerBits_deposits:
  "\<exists>r. insertBitsByInnerBits (w :: 'w::len word) (innerMasks m) = Inr r \<and>
     deposits w (\<lambda>i. \<not> bit m i) r"
proof -
  let ?K = "Suc (rank (bit m) LENGTH('w))"
  let ?z = "rank (\<lambda>i. \<not> bit m i)"
  let ?P = "\<lambda>k (ret :: 'w word, idx). idx = k \<and> (\<forall>n. bit ret n \<longleftrightarrow>
     n < LENGTH('w) \<and> \<not> bit m n \<and> rank (bit m) n < k \<and> bit w (?z n))"
  let ?f = "\<lambda>i (ret, idx). if i \<noteq> 0 then rbind (shr i idx) (\<lambda>j.
       rbind (shl (w AND j) idx) (\<lambda>t. Inr (ret OR t, Suc idx))) else Inr (ret, Suc idx)"
  have "\<exists>t. for_each (\<lambda>k. ?f (innerMask m k)) [0..<?K] (0, 0) = Inr t \<and> ?P ?K t"
  proof (rule for_upt_rule [where P = ?P])
    show "?P 0 (0, 0)" by simp
  next
    fix k t
    assume "k < ?K" and inv: "?P k t"
    obtain ret where t: "t = (ret, k)" using inv by (cases t) auto
    show "\<exists>t'. ?f (innerMask m k) t = Inr t' \<and> ?P (Suc k) t'"
    proof (cases "innerMask m k = 0")
      case True
      then show ?thesis using inv innerMask_zero [OF True] by (fastforce simp: t less_Suc_eq)
    next
      case False
      have "bit (push_bit k (w AND drop_bit k (innerMask m k))) n \<longleftrightarrow>
        n < LENGTH('w) \<and> \<not> bit m n \<and> rank (bit m) n = k \<and> bit w (?z n)" for n
        using rank_kept [of n m] rank_le [of "bit m" n]
        by (auto simp: bit_simps bit_innerMask)
      then show ?thesis using inv innerMask_nonzero [OF False] False
        by (simp add: t bit_ops bit_or_iff less_Suc_eq) blast
    qed
  qed
  moreover have "rank (bit m) i < ?K" if "i < LENGTH('w)" for i
    using that rank_mono [of i "LENGTH('w)" "bit m"] by simp
  ultimately show ?thesis
    by (force simp: insertBitsByInnerBits_def innerMasks_def for_each_map deposits_def
        simp del: upt_Suc)
qed

end
