(* ===== verification/PtrBits.thy ===== *)
theory PtrBits
  imports BitsLaws
begin

text \<open>
  The specialisation \<open>BitUtil<T*>\<close> of \<open>BitUtil.h\<close>, which lifts every operation to pointers through
  64-bit integers, and the properties of the bit operations that span the three families: removal
  against extraction, insertion against removal, masks against index lists and inner masks.
\<close>

section \<open>Pointers\<close>

typedef ptr = "UNIV :: 64 word set" morphisms toInt toPtr ..

definition ptr_maskUpper :: "ptr \<Rightarrow> nat \<Rightarrow> ptr res" where
  "ptr_maskUpper p idx = map_sum id toPtr (maskUpper (toInt p) idx)"

definition ptr_maskLower :: "ptr \<Rightarrow> nat \<Rightarrow> ptr res" where
  "ptr_maskLower p idx = map_sum id toPtr (maskLower (toInt p) idx)"

definition ptr_getLSB :: "ptr \<Rightarrow> ptr" where
  "ptr_getLSB p = toPtr (getLSB (toInt p))"

definition ptr_genMask :: "nat \<Rightarrow> nat \<Rightarrow> ptr res" where
  "ptr_genMask lo hi = map_sum id toPtr (genMask lo hi)"

definition ptr_getBit :: "ptr \<Rightarrow> nat \<Rightarrow> ptr res" where
  "ptr_getBit p idx = map_sum id toPtr (getBit (toInt p) idx)"

definition ptr_getBitRange :: "ptr \<Rightarrow> nat \<Rightarrow> nat \<Rightarrow> ptr res" where
  "ptr_getBitRange p lo hi = map_sum id toPtr (getBitRange (toInt p) lo hi)"

definition ptr_getBits :: "ptr \<Rightarrow> nat list \<Rightarrow> ptr res" where
  "ptr_getBits p bitIndices = map_sum id toPtr (getBits (toInt p) bitIndices)"

definition ptr_getBitsByMask :: "ptr \<Rightarrow> 64 word \<Rightarrow> ptr res" where
  "ptr_getBitsByMask p msk = map_sum id toPtr (getBitsByMask (toInt p) msk)"

definition ptr_setBit :: "ptr \<Rightarrow> nat \<Rightarrow> ptr res" where
  "ptr_setBit p idx = map_sum id toPtr (setBit (toInt p) idx)"

definition ptr_setBitRange :: "ptr \<Rightarrow> nat \<Rightarrow> nat \<Rightarrow> ptr res" where
  "ptr_setBitRange p lo hi = map_sum id toPtr (setBitRange (toInt p) lo hi)"

definition ptr_setBits :: "ptr \<Rightarrow> nat list \<Rightarrow> ptr res" where
  "ptr_setBits p bitIndices = map_sum id toPtr (setBits (toInt p) bitIndices)"

text \<open>It names \<open>setBits\<close>, which iterates over its argument; an integer has no \<open>begin\<close>.\<close>

definition ptr_setBitsByMask :: "ptr \<Rightarrow> 64 word \<Rightarrow> ptr res" where
  "ptr_setBitsByMask p msk = Inl (NoMember ''begin'')"

definition ptr_clearBit :: "ptr \<Rightarrow> nat \<Rightarrow> ptr res" where
  "ptr_clearBit p idx = map_sum id toPtr (clearBit (toInt p) idx)"

definition ptr_clearBitRange :: "ptr \<Rightarrow> nat \<Rightarrow> nat \<Rightarrow> ptr res" where
  "ptr_clearBitRange p lo hi = map_sum id toPtr (clearBitRange (toInt p) lo hi)"

definition ptr_clearBits :: "ptr \<Rightarrow> nat list \<Rightarrow> ptr res" where
  "ptr_clearBits p bitIndices = map_sum id toPtr (clearBits (toInt p) bitIndices)"

definition ptr_replaceBit :: "ptr \<Rightarrow> nat \<Rightarrow> ptr \<Rightarrow> ptr res" where
  "ptr_replaceBit p idx newVal = map_sum id toPtr (replaceBit (toInt p) idx (toInt newVal))"

definition ptr_replaceBitRange :: "ptr \<Rightarrow> nat \<Rightarrow> nat \<Rightarrow> ptr \<Rightarrow> ptr res" where
  "ptr_replaceBitRange p lo hi newVal = map_sum id toPtr (replaceBitRange (toInt p) lo hi (toInt newVal))"

definition ptr_replaceBits :: "ptr \<Rightarrow> nat list \<Rightarrow> ptr \<Rightarrow> ptr res" where
  "ptr_replaceBits p bitIndices newVal = map_sum id toPtr (replaceBits (toInt p) bitIndices (toInt newVal))"

definition ptr_replaceBitsByMask :: "ptr \<Rightarrow> 64 word \<Rightarrow> ptr \<Rightarrow> ptr res" where
  "ptr_replaceBitsByMask p msk newVal = map_sum id toPtr (replaceBitsByMask (toInt p) msk (toInt newVal))"

definition ptr_removeBit :: "ptr \<Rightarrow> nat \<Rightarrow> ptr res" where
  "ptr_removeBit p idx = map_sum id toPtr (removeBit (toInt p) idx)"

definition ptr_removeBitRange :: "ptr \<Rightarrow> nat \<Rightarrow> nat \<Rightarrow> ptr res" where
  "ptr_removeBitRange p lo hi = map_sum id toPtr (removeBitRange (toInt p) lo hi)"

definition ptr_removeBits :: "ptr \<Rightarrow> nat list \<Rightarrow> ptr res" where
  "ptr_removeBits p bitIndices = map_sum id toPtr (removeBits (toInt p) bitIndices)"

definition ptr_removeBitsByMask :: "ptr \<Rightarrow> 64 word \<Rightarrow> ptr res" where
  "ptr_removeBitsByMask p msk = map_sum id toPtr (removeBitsByMask (toInt p) msk)"

definition ptr_removeBitsByInnerBits :: "ptr \<Rightarrow> 64 word list \<Rightarrow> ptr res" where
  "ptr_removeBitsByInnerBits p inner = map_sum id toPtr (removeBitsByInnerBits (toInt p) inner)"

definition ptr_insertBit :: "ptr \<Rightarrow> nat \<Rightarrow> ptr res" where
  "ptr_insertBit p idx = map_sum id toPtr (insertBit (toInt p) idx)"

definition ptr_insertBitRange :: "ptr \<Rightarrow> nat \<Rightarrow> nat \<Rightarrow> ptr res" where
  "ptr_insertBitRange p lo hi = map_sum id toPtr (insertBitRange (toInt p) lo hi)"

definition ptr_insertBits :: "ptr \<Rightarrow> nat list \<Rightarrow> ptr res" where
  "ptr_insertBits p bitIndices = map_sum id toPtr (insertBits (toInt p) bitIndices)"

definition ptr_insertBitsByMask :: "ptr \<Rightarrow> 64 word \<Rightarrow> ptr res" where
  "ptr_insertBitsByMask p msk = map_sum id toPtr (insertBitsByMask (toInt p) msk)"

definition ptr_insertBitsByInnerBits :: "ptr \<Rightarrow> 64 word list \<Rightarrow> ptr res" where
  "ptr_insertBitsByInnerBits p inner = map_sum id toPtr (insertBitsByInnerBits (toInt p) inner)"


lemma ptr_roundtrip [simp]: "toInt (toPtr i) = i" "toPtr (toInt p) = p"
  by (simp_all add: toPtr_inverse toInt_inverse)

section \<open>Laws\<close>

lemma rank_cong: "(\<And>i. i < n \<Longrightarrow> P i = Q i) \<Longrightarrow> rank P n = rank Q n"
  by (induction n) auto

lemma extracts_cong:
  assumes "\<And>i. i < LENGTH('w) \<Longrightarrow> P i = Q i" "extracts (w :: 'w::len word) P r"
  shows "extracts w Q r"
proof -
  have "rank P i = rank Q i" if "i < LENGTH('w)" for i using that assms(1) by (intro rank_cong) auto
  then show ?thesis using assms unfolding extracts_def by metis
qed

lemma rank_full: "rank P n \<le> n \<and> (rank P n = n \<longrightarrow> (\<forall>i < n. P i))"
  by (induction n) (auto simp: less_Suc_eq of_bool_def split: if_splits)

lemma rank_not_full: "m \<noteq> - 1 \<Longrightarrow> rank (bit (m :: 'w::len word)) LENGTH('w) < LENGTH('w)"
proof (rule ccontr)
  assume m: "m \<noteq> - 1" and "\<not> rank (bit m) LENGTH('w) < LENGTH('w)"
  then have "\<forall>i < LENGTH('w). bit m i" using rank_full [of "bit m" "LENGTH('w)"] by auto
  then have "m = - 1" by (intro bit_word_eqI) simp
  with m show False by blast
qed

text \<open>
  Removing the bits of a mask packs the others to the low end: it is the extraction of the
  complement mask, for every mask but the full one.
\<close>

theorem remove_is_extract:
  assumes "1 < LENGTH('w)" "m \<noteq> - 1"
  shows "removeBitsByMask (w :: 'w::len word) m = getBitsByMask w (NOT m)"
proof -
  obtain r where r: "removeBitsByMask w m = Inr r" "extracts w (\<lambda>i. \<not> bit m i) r"
    using removeBitsByMask_extracts [OF assms(1) rank_not_full [OF assms(2)]] by blast
  obtain s where s: "getBitsByMask w (NOT m) = Inr s" "extracts w (bit (NOT m)) s"
    using getBitsByMask_extracts by blast
  have "extracts w (\<lambda>i. \<not> bit m i) s"
    by (rule extracts_cong [OF _ s(2)]) (simp add: bit_simps)
  then show ?thesis using r s(1) extracts_unique by metis
qed

theorem remove_is_extract_witness:
  "removeBitsByMask (180 :: 8 word) 15 = getBitsByMask (180 :: 8 word) (NOT 15)"
  by (rule remove_is_extract) simp_all

text \<open>With the full mask, the final shift is by the whole width, which C++ leaves undefined.\<close>

lemma remove_all_undefined:
  assumes "1 < LENGTH('w)"
  shows "removeBitsByMask (w :: 'w::len word) (- 1) = Inl (Undefined ''shift'')"
proof -
  have "rank (bit (- 1 :: 'w word)) n = n" if "n \<le> LENGTH('w)" for n
    using that by (induction n) auto
  then have "rank (bit (- 1 :: 'w word)) LENGTH('w) = LENGTH('w)" by blast
  then obtain res where "for_each (\<lambda>i (res, shiftAmt). rbind (getBit (- 1 :: 'w word) i) (\<lambda>b.
       if b \<noteq> 0 then rbind (removeBit res i) (\<lambda>r.
         rbind (shl r 1) (\<lambda>r'. Inr (r', Suc shiftAmt)))
       else Inr (res, shiftAmt))) [0..<LENGTH('w)] (w, 0) = Inr (res, LENGTH('w))"
    using removeBitsByMask_loop [OF assms, of "- 1" w] by metis
  then show ?thesis by (simp add: removeBitsByMask_def shr_undef)
qed

text \<open>
  C18: inserting zero bits at a mask and removing them gives back the word, up to the bits that were
  pushed out at the top; removing the bits of a mask and inserting zeros clears exactly those bits.
\<close>

theorem insert_remove_roundtrip:
  assumes "1 < LENGTH('w)" "m \<noteq> - 1"
  shows "rbind (insertBitsByMask (w :: 'w::len word) m) (\<lambda>r. removeBitsByMask r m) =
      Inr (take_bit (rank (\<lambda>i. \<not> bit m i) LENGTH('w)) w) \<and>
    rbind (removeBitsByMask w m) (\<lambda>r. insertBitsByMask r m) = Inr (w AND NOT m)"
proof -
  let ?P = "\<lambda>i. \<not> bit m i"
  note k = rank_not_full [OF assms(2)]
  obtain r where r: "insertBitsByMask w m = Inr r" "deposits w ?P r"
    using insertBitsByMask_deposits [OF assms(1)] by blast
  obtain s where s: "removeBitsByMask r m = Inr s" "extracts r ?P s"
    using removeBitsByMask_extracts [OF assms(1) k] by blast
  have "s = take_bit (rank ?P LENGTH('w)) w"
    by (rule bit_word_eqI) (simp add: extract_deposit [OF r(2) s(2)] bit_simps)
  moreover obtain t where t: "removeBitsByMask w m = Inr t" "extracts w ?P t"
    using removeBitsByMask_extracts [OF assms(1) k] by blast
  moreover obtain u where u: "insertBitsByMask t m = Inr u" "deposits t ?P u"
    using insertBitsByMask_deposits [OF assms(1)] by blast
  moreover have "u = w AND NOT m"
    by (rule bit_word_eqI) (auto simp: deposit_extract [OF t(2) u(2)] bit_simps)
  ultimately show ?thesis using r(1) s(1) by simp
qed

theorem insert_remove_roundtrip_witness:
  "rbind (removeBitsByMask (255 :: 8 word) 60) (\<lambda>r. insertBitsByMask r 60) = Inr (255 AND NOT 60)"
  using insert_remove_roundtrip [of "60 :: 8 word" 255] by simp

text \<open>
  C19: the three ways of removing and of inserting bits agree: by a mask, by its sorted bit indices,
  and by the inner masks that the comment in the source derives from it.
\<close>

theorem bit_families_agree:
  assumes "1 < LENGTH('w)" "m \<noteq> - 1"
  shows "removeBits (w :: 'w::len word) (set_indices m) = removeBitsByMask w m \<and>
    removeBitsByInnerBits w (innerMasks m) = removeBitsByMask w m \<and>
    insertBits w (set_indices m) = insertBitsByMask w m \<and>
    insertBitsByInnerBits w (innerMasks m) = insertBitsByMask w m"
proof -
  obtain r where r: "removeBitsByMask w m = Inr r" "extracts w (\<lambda>i. \<not> bit m i) r"
    using removeBitsByMask_extracts [OF assms(1) rank_not_full [OF assms(2)]] by blast
  obtain s where s: "removeBitsByInnerBits w (innerMasks m) = Inr s" "extracts w (\<lambda>i. \<not> bit m i) s"
    using removeBitsByInnerBits_extracts by blast
  obtain t where t: "insertBitsByMask w m = Inr t" "deposits w (\<lambda>i. \<not> bit m i) t"
    using insertBitsByMask_deposits [OF assms(1)] by blast
  obtain u where u: "insertBitsByInnerBits w (innerMasks m) = Inr u" "deposits w (\<lambda>i. \<not> bit m i) u"
    using insertBitsByInnerBits_deposits by blast
  show ?thesis
    using extracts_unique [OF r(2) s(2)] deposits_unique [OF t(2) u(2)] r(1) s(1) t(1) u(1)
      removeBits_mask [of w m] insertBits_mask [of w m] by simp
qed

theorem bit_families_agree_witness:
  "removeBitsByInnerBits (180 :: 8 word) (innerMasks 15) = removeBitsByMask 180 15"
  using bit_families_agree [of "15 :: 8 word" 180] by simp

text \<open>
  The range check admits the whole word, but on it the operations that build a mask shift by the
  width of the word, which C++ leaves undefined; every proper range is fine.
\<close>

theorem setBitRange_cases:
  assumes "lo < hi" "hi \<le> LENGTH('w)"
  shows "setBitRange (w :: 'w::len word) lo hi =
    (if hi - lo < LENGTH('w) then Inr (w OR push_bit lo (mask (hi - lo)))
     else Inl (Undefined ''shift''))"
  using assms
  by (simp add: setBitRange_def checkBitRange_def checkBitIndex_def genMask_ok)
    (simp add: genMask_def shl_undef)

theorem setBitRange_cases_witness:
  "setBitRange (1 :: 8 word) 0 8 = Inl (Undefined ''shift'') \<and> setBitRange (1 :: 8 word) 4 8 = Inr 241"
  using setBitRange_cases [of 0 8 "1 :: 8 word"] setBitRange_cases [of 4 8 "1 :: 8 word"]
  by (simp add: mask_eq_exp_minus_1 push_bit_eq_mult)

section \<open>Pointers again\<close>

text \<open>
  A value of up to the width of the mask can be stored in the masked bits of a pointer and read
  back, and the other bits of the pointer are as before.
\<close>

theorem ptr_replace_get:
  "\<exists>q. ptr_replaceBitsByMask p m v = Inr q \<and>
     ptr_getBitsByMask q m = Inr (toPtr (take_bit (rank (bit m) 64) (toInt v))) \<and>
     toInt q AND NOT m = toInt p AND NOT m"
proof -
  obtain r where r: "replaceBitsByMask (toInt p) m (toInt v) = Inr r"
    "\<forall>n. bit r n \<longleftrightarrow> (if bit m n then bit (toInt v) (rank (bit m) n) else bit (toInt p) n)"
    using replaceBitsByMask_spec [of "toInt p" m "toInt v"] by auto
  obtain s where s: "getBitsByMask r m = Inr s" "extracts r (bit m) s"
    using getBitsByMask_extracts by blast
  have "bit s n \<longleftrightarrow> n < rank (bit m) 64 \<and> bit (toInt v) n" if "n < 64" for n
  proof -
    have "bit s n \<longleftrightarrow> (\<exists>i<64. bit m i \<and> rank (bit m) i = n \<and> bit (toInt v) n)"
      using s(2) r(2) by (auto simp: extracts_def)
    then show ?thesis using rank_less [of "bit m" _ 64] rank_surj [of n "bit m" 64] by blast
  qed
  then have "s = take_bit (rank (bit m) 64) (toInt v)"
    by (intro bit_word_eqI) (simp add: bit_simps)
  moreover have "r AND NOT m = toInt p AND NOT m"
    by (rule bit_word_eqI) (auto simp: bit_simps r(2))
  ultimately show ?thesis
    using r(1) s(1) by (simp add: ptr_replaceBitsByMask_def ptr_getBitsByMask_def)
qed

end
