(* ===== verification/MixedExec.thy ===== *)
theory MixedExec
  imports AtmiDag DagManager
begin

text \<open>
  \<open>AtmiMixedDagExecutor\<close>: the same translation of a graph into ATMI tasks when the nodes hold task
  instances of several executors behind a \<open>MultiTypePtr\<close>; and \<open>SingleDAGexecutor\<close>, which builds a
  graph task by task.
\<close>

section \<open>The visitor of the mixed executor\<close>

type_synonym ('t, 'v) data_store = "64 word \<Rightarrow> ('t \<times> 'v) option"

definition load :: "('t, 'v) data_store \<Rightarrow> 't \<Rightarrow> 64 word \<Rightarrow> 'v res" where
  "load mem ty ptr = (case mem ptr of None \<Rightarrow> Inl (Undefined ''dead node data'')
     | Some (ty', v) \<Rightarrow> if ty' = ty then Inr v else Inl (Undefined ''access at another type''))"

text \<open>The functors \<open>CollectPreds\<close> and \<open>CreateTask\<close>, applied at the type the pointer carries.\<close>

definition mixed_collect :: "('v \<Rightarrow> nat) \<Rightarrow> ('t, 'v) data_store \<Rightarrow> 't \<Rightarrow> 64 word \<Rightarrow> nat list \<Rightarrow> nat list res" where
  "mixed_collect get_handle mem ty ptr predHandles =
     rbind (load mem ty ptr) (\<lambda>v. Inr (predHandles @ [get_handle v]))"

definition mixed_create :: "'t list \<Rightarrow> ('v \<Rightarrow> nat list \<Rightarrow> event list \<Rightarrow> nat \<times> event list) list \<Rightarrow>
    (nat \<Rightarrow> 'v \<Rightarrow> 'v) \<Rightarrow> nat list \<Rightarrow> 't \<Rightarrow> 64 word \<Rightarrow> ('t, 'v) data_store \<times> event list \<times> nat \<Rightarrow>
    (('t, 'v) data_store \<times> event list \<times> nat) res" where
  "mixed_create ts mks put_handle predHandles ty ptr = (\<lambda>(mem, w, th).
     rbind (GetTypeId ty ts) (\<lambda>ID. rbind (load mem ty ptr) (\<lambda>v.
     case (mks ! ID) v predHandles w of (h, w') \<Rightarrow> Inr (mem(ptr \<mapsto> (ty, put_handle h v)), w', h))))"

definition mixed_lazy :: "'t list \<Rightarrow> ('v \<Rightarrow> nat list \<Rightarrow> event list \<Rightarrow> nat \<times> event list) list \<Rightarrow>
    ('v \<Rightarrow> nat) \<Rightarrow> (nat \<Rightarrow> 'v \<Rightarrow> 'v) \<Rightarrow> (64 word, ('t, 'v) data_store lazy_state) visitor" where
  "mixed_lazy ts mks get_handle put_handle p = (\<lambda>(g, mem, w, src, snk).
     rbind (predecessors g p) (\<lambda>ps.
     rbind (for_each (\<lambda>q hs. applyToNodeData ts (mixed_collect get_handle mem) q g hs) ps []) (\<lambda>predHandles.
     rbind (applyToNodeData ts (mixed_create ts mks put_handle predHandles) p g (mem, w, 0)) (\<lambda>(mem', w', th).
     rbind (isSrc g p) (\<lambda>s. rbind (isSink g p) (\<lambda>k.
     Inr (g, mem', w', if s then src @ [th] else src, if k then snk @ [th] else snk)))))))"

section \<open>The data of a mixed graph\<close>

definition mixed_data :: "'t list \<Rightarrow> ('t \<Rightarrow> 'v \<Rightarrow> bool) \<Rightarrow> addr set \<Rightarrow> (addr \<Rightarrow> 64 word option) \<Rightarrow>
    ('t, 'v) data_store \<Rightarrow> bool" where
  "mixed_data ts good V nd mem \<longleftrightarrow> length ts \<le> 8 \<and>
     (\<forall>p \<in> V. \<exists>gd i v. nd p = Some gd \<and> i < length ts \<and> mtp_id gd = of_nat i \<and>
        mem (mtp_ptr gd) = Some (ts ! i, v) \<and> good (ts ! i) v) \<and>
     inj_on (\<lambda>p. mtp_ptr (the (nd p))) V"

definition mixed_stored :: "('v \<Rightarrow> nat) \<Rightarrow> (addr \<Rightarrow> 64 word option) \<Rightarrow> ('t, 'v) data_store \<Rightarrow> addr \<Rightarrow> nat" where
  "mixed_stored get_handle nd mem q = (case nd q of None \<Rightarrow> 0
     | Some gd \<Rightarrow> (case mem (mtp_ptr gd) of None \<Rightarrow> 0 | Some (ty, v) \<Rightarrow> get_handle v))"

text \<open>The task instance of a node, and the calls that make a task of it.\<close>

definition node_task :: "(addr \<Rightarrow> 64 word option) \<Rightarrow> ('t, 'v) data_store \<Rightarrow> addr \<Rightarrow> 'v" where
  "node_task nd mem p = snd (the (mem (mtp_ptr (the (nd p)))))"

definition mixed_tells :: "('v \<Rightarrow> nat \<Rightarrow> nat list \<Rightarrow> event) \<Rightarrow> (addr \<Rightarrow> 64 word option) \<Rightarrow> ('t, 'v) data_store \<Rightarrow> addr \<Rightarrow> event \<Rightarrow> bool" where
  "mixed_tells call nd mem p e \<longleftrightarrow> (\<exists>h ps. e = call (node_task nd mem p) h ps)"

lemma calls_of_tasks:
  assumes "list_all2 (mixed_tells call nd mem) vis es" "\<And>v h ps. \<exists>b. task_of (call v h ps) = Some (h, ps, b)"
    and "map (\<lambda>(h, ps, b). (h, ps)) (tasks es) = map (\<lambda>p. (h p, f p)) vis"
  shows "es = map (\<lambda>p. call (node_task nd mem p) (h p) (f p)) vis"
  using assms(1,3)
proof (induction rule: list_all2_induct)
  case (Cons p vis e es)
  from Cons.hyps(1) obtain k ps where e: "e = call (node_task nd mem p) k ps" by (auto simp: mixed_tells_def)
  obtain b where "task_of e = Some (k, ps, b)" unfolding e using assms(2) by blast
  then have "tasks (e # es) = (k, ps, b) # tasks es" by (simp add: tasks_def List.map_filter_def)
  then show ?case using Cons e by simp
qed simp

lemma mixed_inv_data:
  assumes "mixed_inv ts m" "\<forall>a ty v. dataAt m a = Some (ty, v) \<longrightarrow> good ty v"
  shows "mixed_data ts good (verts (mbase m)) (ndata (mbase m)) (dataAt m)"
  using assms unfolding mixed_inv_def mixed_data_def by meson

lemma data_node:
  assumes "mixed_data ts good V nd mem" "p \<in> V"
  obtains i v gd where "nd p = Some gd" "i < length ts" "mtp_id gd = of_nat i"
    "mem (mtp_ptr gd) = Some (ts ! i, v)" "good (ts ! i) v"
  using assms unfolding mixed_data_def by blast

lemma apply_node:
  assumes "ndata g p = Some gd" "i < length ts" "length ts \<le> 8" "mtp_id gd = of_nat i" "0 < p"
  shows "applyToNodeData ts func p g s = func (ts ! i) (mtp_ptr gd) s"
proof -
  have "nodeData g p = Inr gd" using assms(1) by (auto simp: nodeData_def ndata_def deref_def)
  then show ?thesis using mtp_apply_at [OF assms(2-4)] assms(5) by (simp add: applyToNodeData_def)
qed

lemma mixed_collect_ok:
  assumes m: "mixed_data ts good (verts g) (ndata g) mem" and wf: "wf_dag g" and ps: "set ps \<subseteq> verts g"
  shows "for_each (\<lambda>q hs. applyToNodeData ts (mixed_collect get_handle mem) q g hs) ps [] =
    Inr (map (mixed_stored get_handle (ndata g) mem) ps)"
proof -
  have "\<exists>t. for_each (\<lambda>q hs. applyToNodeData ts (mixed_collect get_handle mem) q g hs) ps [] = Inr t \<and>
      t = map (mixed_stored get_handle (ndata g) mem) ps"
  proof (rule for_each_rule)
    fix ys y zs t
    assume "ps = ys @ y # zs" and t: "t = map (mixed_stored get_handle (ndata g) mem) ys"
    then have "y \<in> verts g" using ps by auto
    then obtain i v gd where d: "ndata g y = Some gd" "i < length ts" "mtp_id gd = of_nat i"
      "mem (mtp_ptr gd) = Some (ts ! i, v)" using data_node [OF m] by metis
    moreover have "length ts \<le> 8" using m by (simp add: mixed_data_def)
    moreover have "0 < y" using wf_dag_nonnull [OF wf \<open>y \<in> verts g\<close>] .
    ultimately show "\<exists>t'. applyToNodeData ts (mixed_collect get_handle mem) y g t = Inr t' \<and>
        t' = map (mixed_stored get_handle (ndata g) mem) (ys @ [y])"
      using t by (simp add: apply_node mixed_collect_def load_def mixed_stored_def)
  qed simp
  then show ?thesis by auto
qed

section \<open>The contract holds\<close>

locale mixed_makers =
  fixes ts :: "'t list" and mks :: "('v \<Rightarrow> nat list \<Rightarrow> event list \<Rightarrow> nat \<times> event list) list"
    and get_handle :: "'v \<Rightarrow> nat" and put_handle :: "nat \<Rightarrow> 'v \<Rightarrow> 'v"
    and good :: "'t \<Rightarrow> 'v \<Rightarrow> bool" and call :: "'v \<Rightarrow> nat \<Rightarrow> nat list \<Rightarrow> event" and H :: "event list \<Rightarrow> nat"
  assumes some: "length ts \<le> 8" and same: "length mks = length ts"
    and mks_call: "i < length ts \<Longrightarrow> good (ts ! i) v \<Longrightarrow>
      (mks ! i) v ps w = (H w, w @ [call v (H w) ps])"
    and call_task: "\<exists>b. task_of (call v h ps) = Some (h, ps, b)" and call_put: "call (put_handle k v) = call v"
    and get_put: "get_handle (put_handle h v) = h" and good_put: "good ty v \<Longrightarrow> good ty (put_handle h v)"
begin

lemma create_ok:
  assumes "i < length ts" "good (ts ! i) v" "mem a = Some (ts ! i, v)"
  shows "mixed_create ts mks put_handle ps (ts ! i) a (mem, w, th) =
      Inr (mem(a \<mapsto> (ts ! i, put_handle (H w) v)), w @ [call v (H w) ps], H w)"
proof -
  obtain j where j: "j < length ts" "GetTypeId (ts ! i) ts = Inr j" "ts ! j = ts ! i"
    using GetTypeId_present [of "ts ! i" ts] assms(1) by auto
  then have "(mks ! j) v ps w = (H w, w @ [call v (H w) ps])"
    using mks_call [of j v ps w] assms(2) by auto
  then show ?thesis using j assms(3) by (auto simp: mixed_create_def load_def)
qed

end

sublocale mixed_makers < mx: lazy_tasks "mixed_lazy ts mks get_handle put_handle"
  "mixed_stored get_handle" "mixed_data ts good" "mixed_tells call" H
proof
  fix g p mem w src snk
  assume g: "task_dag g" "p \<in> verts g" and m: "mixed_data ts good (verts g) (ndata g) mem"
  have wf: "wf_dag g" using g by (simp add: task_dag_def)
  from data_node [OF m g(2)] obtain i v gd where
    d: "ndata g p = Some gd" "i < length ts" "mem (mtp_ptr gd) = Some (ts ! i, v)" "good (ts ! i) v"
      "mtp_id gd = of_nat i" by metis
  have ap: "applyToNodeData ts func p g s = func (ts ! i) (mtp_ptr gd) s" for func and s :: "('t, 'v) data_store \<times> event list \<times> nat"
    using apply_node [OF d(1,2) some d(5) wf_dag_nonnull [OF wf g(2)]] .
  let ?ps = "map (mixed_stored get_handle (ndata g) mem) (preds g p)"
  let ?mem = "mem(mtp_ptr gd \<mapsto> (ts ! i, put_handle (H w) v))"
  let ?e = "call v (H w) ?ps"
  obtain b where e: "mixed_create ts mks put_handle ?ps (ts ! i) (mtp_ptr gd) (mem, w, 0) =
      Inr (?mem, w @ [?e], H w)" "task_of ?e = Some (H w, ?ps, b)"
    using create_ok [where i = i and v = v and mem = mem and a = "mtp_ptr gd" and w = w, OF d(2,4,3)] call_task by blast
  have tell: "mixed_tells call (ndata g) mem p ?e" using d(1,3) by (auto simp: mixed_tells_def node_task_def)
  have keep: "\<forall>q \<in> verts g. mixed_tells call (ndata g) ?mem q = mixed_tells call (ndata g) mem q"
    using d(3) by (auto simp: mixed_tells_def node_task_def call_put fun_eq_iff)
  have "mixed_lazy ts mks get_handle put_handle p (g, mem, w, src, snk) = Inr (g, ?mem, w @ [?e],
      if is_source g p then src @ [H w] else src, if is_sink g p then snk @ [H w] else snk)"
    using e(1) by (simp add: mixed_lazy_def task_dag_tests [OF g] mixed_collect_ok [OF m wf] ap)
  moreover have "\<forall>q \<in> verts g. mixed_stored get_handle (ndata g) ?mem q =
      (if q = p then H w else mixed_stored get_handle (ndata g) mem q)"
  proof
    fix q assume q: "q \<in> verts g"
    then obtain gq where gq: "ndata g q = Some gq" using m unfolding mixed_data_def by blast
    have "mtp_ptr gq = mtp_ptr gd \<Longrightarrow> q = p"
      using m q g(2) gq d(1) by (auto simp: mixed_data_def inj_on_def)
    then show "mixed_stored get_handle (ndata g) ?mem q =
      (if q = p then H w else mixed_stored get_handle (ndata g) mem q)"
      using gq d(1) by (auto simp: mixed_stored_def get_put)
  qed
  moreover have "mixed_data ts good (verts g) (ndata g) ?mem"
    unfolding mixed_data_def
  proof (intro conjI ballI)
    fix q assume "q \<in> verts g"
    then obtain gq j u where q: "ndata g q = Some gq" "j < length ts" "mtp_id gq = of_nat j"
      "mem (mtp_ptr gq) = Some (ts ! j, u)" "good (ts ! j) u"
      using m unfolding mixed_data_def by blast
    show "\<exists>gd i v. ndata g q = Some gd \<and> i < length ts \<and> mtp_id gd = of_nat i \<and>
        ?mem (mtp_ptr gd) = Some (ts ! i, v) \<and> good (ts ! i) v"
    proof (cases "mtp_ptr gq = mtp_ptr gd")
      case True
      then have "ts ! j = ts ! i" "u = v" using q(4) d(3) by auto
      then show ?thesis using q True d(4) good_put by (intro exI [of _ gq] exI [of _ j]) auto
    qed (use q in auto)
  qed (use m in \<open>auto simp: mixed_data_def\<close>)
  ultimately show "\<exists>g' x' e b. mixed_lazy ts mks get_handle put_handle p (g, mem, w, src, snk) = Inr (g', x', w @ [e],
        if is_source g p then src @ [H w] else src, if is_sink g p then snk @ [H w] else snk) \<and>
      task_of e = Some (H w, ?ps, b) \<and> frame g g' \<and> depc g' = depc g \<and>
      mixed_data ts good (verts g) (ndata g') x' \<and>
      mixed_tells call (ndata g) mem p e \<and> (\<forall>q \<in> verts g. mixed_tells call (ndata g') x' q = mixed_tells call (ndata g) mem q) \<and>
      (\<forall>q \<in> verts g. mixed_stored get_handle (ndata g') x' q =
         (if q = p then H w else mixed_stored get_handle (ndata g) mem q))"
    using e(2) tell keep by blast
qed

section \<open>CPU, GPU and copy tasks in one graph\<close>

datatype task_type = TCpu | TGpu | TCopy

datatype any_task = CpuT cpu_task | GpuT gpu_task | CopyT copy_task

fun any_type :: "any_task \<Rightarrow> task_type" where
  "any_type (CpuT _) = TCpu" | "any_type (GpuT _) = TGpu" | "any_type (CopyT _) = TCopy"

fun any_handle :: "any_task \<Rightarrow> nat" where
  "any_handle (CpuT t) = cpuTaskHandle t" | "any_handle (GpuT t) = gpuTaskHandle t"
| "any_handle (CopyT t) = copyTaskHandle t"

fun put_any :: "nat \<Rightarrow> any_task \<Rightarrow> any_task" where
  "put_any h (CpuT t) = CpuT (put_cpu h t)" | "put_any h (GpuT t) = GpuT (put_gpu h t)"
| "put_any h (CopyT t) = CopyT (put_copy h t)"

text \<open>The executors of the tuple, each on the instances of its own type.\<close>

fun any_cpu :: "atmi \<Rightarrow> any_task \<Rightarrow> nat list \<Rightarrow> event list \<Rightarrow> nat \<times> event list" where
  "any_cpu A (CpuT t) ps w = cpu_makeInternalTask A False t ps w" | "any_cpu A _ ps w = (0, w)"

fun any_gpu :: "atmi \<Rightarrow> any_task \<Rightarrow> nat list \<Rightarrow> event list \<Rightarrow> nat \<times> event list" where
  "any_gpu A (GpuT t) ps w = gpu_makeInternalTask A False t ps w" | "any_gpu A _ ps w = (0, w)"

fun any_copy :: "atmi \<Rightarrow> any_task \<Rightarrow> nat list \<Rightarrow> event list \<Rightarrow> nat \<times> event list" where
  "any_copy A (CopyT t) ps w = copy_makeInternalTask A t ps w" | "any_copy A _ ps w = (0, w)"

definition exec_types :: "task_type list" where "exec_types = [TCpu, TGpu, TCopy]"

definition exec_makers :: "atmi \<Rightarrow> (any_task \<Rightarrow> nat list \<Rightarrow> event list \<Rightarrow> nat \<times> event list) list" where
  "exec_makers A = [any_cpu A, any_gpu A, any_copy A]"

text \<open>The call that makes the task of an instance: a task on the CPU, a task on the GPU, or a copy.\<close>

fun any_call :: "any_task \<Rightarrow> nat \<Rightarrow> nat list \<Rightarrow> event" where
  "any_call (CpuT t) h ps = TaskCreate h ((cpu_initLaunchParam False t)\<lparr>requires_arr := ps, num_required := length ps\<rparr>)
     (cpu_kernelHandle t) (cpu_argAddresses t)"
| "any_call (GpuT t) h ps = TaskCreate h ((gpu_initLaunchParam False t)\<lparr>requires_arr := ps, num_required := length ps\<rparr>)
     (gpu_kernelHandle t) (gpu_argAddresses t)"
| "any_call (CopyT t) h ps = MemcpyAsync h (initCopyParam\<lparr>requires_arr := ps, num_required := length ps\<rparr>) (mDst t) (mSrc t) (mSize t)"

lemma any_call_put: "any_call (put_any k v) = any_call v"
  by (cases v) (auto simp: fun_eq_iff put_cpu_def put_gpu_def put_copy_def cpu_initLaunchParam_def cpu_kernelHandle_def
    cpu_argAddresses_def gpu_initLaunchParam_def gpu_kernelHandle_def gpu_argAddresses_def)

interpretation mixed3: mixed_makers exec_types "exec_makers A" any_handle put_any
  "\<lambda>ty v. any_type v = ty" any_call "hnd A"
proof
  fix i v ps w assume i: "i < length exec_types" and v: "any_type v = exec_types ! i"
  have "i = 0 \<or> i = 1 \<or> i = 2" using i by (auto simp: exec_types_def)
  then show "(exec_makers A ! i) v ps w = (hnd A w, w @ [any_call v (hnd A w) ps])"
    using v by (cases v) (auto simp: exec_types_def exec_makers_def cpu_makeInternalTask_def gpu_makeInternalTask_def
      policy_makeInternalTask_def copy_makeInternalTask_def copy_launchInternalTask_def Let_def)
next
  fix v h ps show "\<exists>b. task_of (any_call v h ps) = Some (h, ps, b)" by (cases v) auto
next
  fix h v show "any_handle (put_any h v) = h"
    by (cases v) (auto simp: put_cpu_def put_gpu_def put_copy_def)
next
  fix ty v h assume "any_type v = ty" then show "any_type (put_any h v) = ty" by (cases v) auto
qed (auto simp: exec_types_def exec_makers_def any_call_put)

text \<open>
  C4: an acyclic graph that mixes CPU, GPU and copy tasks is executed completely: the runtime is told of
  every node exactly once, in an order compatible with the edges, by the call that makes a task of the
  kind and with the content of the instance the node holds, requiring the tasks of its predecessors,
  whatever their kinds. Then the sources are activated and the sinks waited for; all tasks run, and
  when the waits have returned all have finished.
\<close>

theorem mixed_execute_complete:
  assumes "D d = Some (g, mem)" "task_dag g"
    "mixed_data exec_types (\<lambda>ty v. any_type v = ty) (verts g) (ndata g) mem"
  shows "\<exists>D' v h vis. execute (mixed_lazy exec_types (exec_makers A) any_handle put_any) d (D, w) =
      Some (Inr (D', w @ v)) \<and> distinct vis \<and> set vis = verts g \<and> topo_order (edges g) vis \<and>
    v = map (\<lambda>p. any_call (node_task (ndata g) mem p) (h p) (map h (preds g p))) vis @
      map (\<lambda>p. TaskActivate (h p)) (filter (is_source g) vis) @ map (\<lambda>p. TaskWait (h p)) (filter (is_sink g) vis) \<and>
    (\<forall>p \<in> verts g. runs (w @ v) (h p) \<and> (\<forall>F. finished (w @ v) F \<longrightarrow> h p \<in> F))"
proof -
  from mixed3.mx.lazy_graph [where A = A and w = w and src = "[]" and snk = "[]", OF assms(2,3)] obtain g' x' es src snk vis h where
    l: "forEachNode_TopoOrder (mixed_lazy exec_types (exec_makers A) any_handle put_any) (g, mem, w, [], []) =
        Some (Inr (g', x', w @ es, src, snk))" "distinct vis" "set vis = verts g" "topo_order (edges g) vis"
      "list_all2 (mixed_tells any_call (ndata g) mem) vis es"
      "map (\<lambda>(h, ps, b). (h, ps)) (tasks es) = map (\<lambda>p. (h p, map h (preds g p))) vis"
      "src = map h (filter (is_source g) vis)" "snk = map h (filter (is_sink g) vis)" unfolding append_Nil by blast
  let ?v = "es @ map TaskActivate src @ map TaskWait snk"
  have es: "es = map (\<lambda>p. any_call (node_task (ndata g) mem p) (h p) (map h (preds g p))) vis"
    by (rule calls_of_tasks [OF l(5) mixed3.call_task l(6)])
  have "(h p, map h (preds g p)) \<in> set (map (\<lambda>(h, ps, b). (h, ps)) (tasks es))" if "p \<in> verts g" for p
    unfolding l(6) using that l(3) by auto
  then have "scheduled g h ?v" using l(3) unfolding scheduled_def l(7,8) by fastforce
  from scheduled_later [OF this, of w] have "\<forall>p \<in> verts g. runs (w @ ?v) (h p) \<and> (\<forall>F. finished (w @ ?v) F \<longrightarrow> h p \<in> F)"
    using scheduled_runs [OF assms(2)] scheduled_finished [OF assms(2)] by blast
  moreover have "execute (mixed_lazy exec_types (exec_makers A) any_handle put_any) d (D, w) = Some (Inr (D(d \<mapsto> (g', x')), w @ ?v))"
    using assms(1) l(1) by (simp add: execute_def executeParallel_def waitOnTasks_eq activateTasks_eq)
  moreover have "?v = map (\<lambda>p. any_call (node_task (ndata g) mem p) (h p) (map h (preds g p))) vis @
      map (\<lambda>p. TaskActivate (h p)) (filter (is_source g) vis) @ map (\<lambda>p. TaskWait (h p)) (filter (is_sink g) vis)"
    using es by (simp add: l(7,8))
  ultimately show ?thesis using l(2-4) by blast
qed

text \<open>A graph with a CPU task at node 1 and a GPU task at node 2.\<close>

definition pair_store :: "(task_type, any_task) data_store" where
  "pair_store = [4096 \<mapsto> (TCpu, CpuT cpu_noop), 8192 \<mapsto> (TGpu, GpuT gpu_noop)]"

lemma pair_graph:
  "\<exists>g :: 64 word dag. task_dag g \<and> verts g = {1, 2} \<and> ndata g = [1 \<mapsto> 4096, 2 \<mapsto> 8193]"
proof -
  let ?e = "dag_empty NodeInOut :: 64 word dag"
  have e: "verts ?e = {}" "edges ?e = {}" "dkind ?e = NodeInOut" "ndata ?e = Map.empty"
    by (auto simp: dag_empty_def verts_def edges_def ndata_def)
  from addNode_ok [OF wf_dag_empty [of NodeInOut], of 1 "4096 :: 64 word"] e obtain g1 where
    g1: "addNode 1 4096 ?e = Inr (1, g1)" "wf_dag g1" "verts g1 = {1}" "edges g1 = {}" "dkind g1 = NodeInOut"
    by auto
  from addNode_ok [OF g1(2), of 2 "8193 :: 64 word"] g1 obtain g2 where
    g2: "addNode 2 8193 g1 = Inr (2, g2)" "wf_dag g2" "verts g2 = {1, 2}" "edges g2 = {}" "dkind g2 = NodeInOut"
    by (auto simp: insert_commute)
  have "ndata g2 = [1 \<mapsto> 4096, 2 \<mapsto> 8193]"
    using addNode_ndata [OF g1(1)] addNode_ndata [OF g2(1)] e(4) by simp
  moreover have "task_dag g2" using g2 countable_card [OF g2(2)] by (simp add: task_dag_def acyclic_def)
  ultimately show ?thesis using g2(3) by blast
qed

lemma pair_data:
  assumes "ndata g = [1 \<mapsto> 4096, 2 \<mapsto> 8193]"
  shows "mixed_data exec_types (\<lambda>ty v. any_type v = ty) {1, 2} (ndata g) pair_store"
proof -
  have low: "mtp_ptr 4096 = 4096" "mtp_id 4096 = 0" "mtp_ptr 8193 = 8192" "mtp_id 8193 = 1"
    by (simp_all add: mtp_ptr_def mtp_id_def PTR_MASK_def MAX_TYPES_def)
  show ?thesis
    unfolding mixed_data_def assms
    by (auto simp: low pair_store_def exec_types_def inj_on_def intro: exI [of _ 0] exI [of _ "Suc 0"])
qed

theorem mixed_execute_complete_witness:
  "\<exists>g D' v h. execute (mixed_lazy exec_types (exec_makers \<lparr>hnd = fresh_hnd, kern = length\<rparr>) any_handle put_any)
      8 ([8 \<mapsto> (g, pair_store)], []) = Some (Inr (D', v)) \<and> runs v (h (1 :: nat)) \<and> runs v (h 2) \<and>
    any_call (CpuT cpu_noop) (h 1) (map h (preds g 1)) \<in> set v \<and> any_call (GpuT gpu_noop) (h 2) (map h (preds g 2)) \<in> set v"
proof -
  obtain g :: "64 word dag" where g: "task_dag g" "verts g = {1, 2}" "ndata g = [1 \<mapsto> 4096, 2 \<mapsto> 8193]"
    using pair_graph by blast
  have n: "node_task (ndata g) pair_store 1 = CpuT cpu_noop" "node_task (ndata g) pair_store 2 = GpuT gpu_noop"
    by (simp_all add: g(3) node_task_def pair_store_def mtp_ptr_def PTR_MASK_def MAX_TYPES_def)
  let ?call = "\<lambda>h p. any_call (node_task (ndata g) pair_store p) (h p) (map h (preds g p))"
  have data: "mixed_data exec_types (\<lambda>ty v. any_type v = ty) (verts g) (ndata g) pair_store"
    using pair_data [OF g(3)] by (simp add: g(2))
  have D: "[8 \<mapsto> (g, pair_store)] (8 :: addr) = Some (g, pair_store)" by simp
  obtain D' v h vis where r: "execute (mixed_lazy exec_types (exec_makers \<lparr>hnd = fresh_hnd, kern = length\<rparr>) any_handle put_any)
      8 ([8 \<mapsto> (g, pair_store)], []) = Some (Inr (D', [] @ v))" "set vis = {1, 2}"
    "v = map (?call h) vis @ map (\<lambda>p. TaskActivate (h p)) (filter (is_source g) vis) @ map (\<lambda>p. TaskWait (h p)) (filter (is_sink g) vis)"
    "\<forall>p \<in> {1, 2}. runs ([] @ v) (h p)"
    using mixed_execute_complete [of "[8 \<mapsto> (g, pair_store)]" 8 g pair_store "\<lparr>hnd = fresh_hnd, kern = length\<rparr>" "[]", OF D g(1) data] unfolding g(2) by (elim exE conjE) blast
  have "?call h 1 \<in> set v" "?call h 2 \<in> set v" unfolding r(3) using r(2) by auto
  then show ?thesis using r(1,4) unfolding n by auto
qed

section \<open>SingleDAGexecutor\<close>

text \<open>\<open>addTask\<close>: a node for the task, and an edge from every predecessor that is not null.\<close>

definition addTask :: "addr \<Rightarrow> addr list \<Rightarrow> 'ti \<Rightarrow> 'ti dag \<Rightarrow> (addr \<times> 'ti dag) res" where
  "addTask a ps ti g = rbind (addNode a ti g) (\<lambda>(t, g').
     rbind (for_each (\<lambda>p g. if p \<noteq> 0 then addEdge p t g else Inr g) ps g') (\<lambda>g''. Inr (t, g'')))"

text \<open>
  C14: a program that adds each task after its predecessors, each named once, builds a well-formed
  acyclic graph whose edges are exactly the dependences it named; null predecessors are ignored.
\<close>

theorem addTask_extends:
  assumes g: "wf_dag g" "acyclic (edges g)" and a: "a \<noteq> 0" "a \<notin> verts g"
    and ps: "set ps - {0} \<subseteq> verts g" "distinct (filter (\<lambda>p. p \<noteq> 0) ps)"
  shows "\<exists>g'. addTask a ps ti g = Inr (a, g') \<and> wf_dag g' \<and> acyclic (edges g') \<and>
    verts g' = insert a (verts g) \<and> edges g' = (set ps - {0}) \<times> {a} \<union> edges g"
proof -
  from addNode_ok [OF g(1) a] obtain g1 where
    g1: "addNode a ti g = Inr (a, g1)" "wf_dag g1" "verts g1 = insert a (verts g)" "edges g1 = edges g"
    by blast
  let ?ps = "filter (\<lambda>p. p \<noteq> 0) ps"
  have no: "\<And>p. (p, a) \<notin> edges g" "\<And>p. (a, p) \<notin> edges g" using g(1) a(2) by (auto simp: wf_dag_def)
  have "\<exists>g'. for_each (\<lambda>p g. addEdge p a g) ?ps g1 = Inr g' \<and> wf_dag g' \<and> verts g' = verts g1 \<and>
      edges g' = set ?ps \<times> {a} \<union> edges g1"
    by (rule dg.fan_in) (use g1 ps a no in auto)
  moreover have "set ?ps = set ps - {0}" by auto
  ultimately obtain g2 where g2: "for_each (\<lambda>p g. addEdge p a g) ?ps g1 = Inr g2" "wf_dag g2"
    "verts g2 = verts g1" "edges g2 = (set ps - {0}) \<times> {a} \<union> edges g"
    unfolding g1(4) by metis
  have "acyclic (edges g2)"
  proof -
    have "(x, y) \<in> (edges g2)\<^sup>+ \<Longrightarrow> x \<noteq> a \<and> ((x, y) \<in> (edges g)\<^sup>+ \<or> y = a)" for x y
    proof (induction rule: trancl_induct)
      case (base y)
      then show ?case using no ps(1) a(2) by (auto simp: g2(4))
    next
      case (step y z)
      then show ?case using no by (auto simp: g2(4) intro: trancl_into_trancl)
    qed
    then show ?thesis using g(2) unfolding acyclic_def by blast
  qed
  moreover have "addTask a ps ti g = Inr (a, g2)"
    using g1(1) g2(1) by (simp add: addTask_def for_each_filter)
  ultimately show ?thesis using g2 g1(3) by auto
qed

theorem addTask_extends_witness:
  "\<exists>g1 g2 g3 :: string dag. addTask 1 [] ''top'' (dag_empty NodeInOut) = Inr (1, g1) \<and> addTask 2 [1, 0] ''left'' g1 = Inr (2, g2) \<and>
     addTask 3 [1, 2] ''right'' g2 = Inr (3, g3) \<and> edges g3 = {(1, 2), (1, 3), (2, 3)} \<and> acyclic (edges g3)"
proof -
  have e: "verts (dag_empty NodeInOut :: string dag) = {}" "edges (dag_empty NodeInOut :: string dag) = {}"
    by (auto simp: dag_empty_def verts_def edges_def)
  obtain g1 :: "string dag" where g1: "addTask 1 [] ''top'' (dag_empty NodeInOut) = Inr (1, g1)" "wf_dag g1"
    "acyclic (edges g1)" "verts g1 = {1}" "edges g1 = {}"
    using addTask_extends [OF wf_dag_empty, of NodeInOut 1 "[]" "''top''"] e by (auto simp: acyclic_def)
  obtain g2 where g2: "addTask 2 [1, 0] ''left'' g1 = Inr (2, g2)" "wf_dag g2"
    "acyclic (edges g2)" "verts g2 = {1, 2}" "edges g2 = {(1, 2)}"
    using addTask_extends [OF g1(2,3), of 2 "[1, 0]" "''left''"] g1(4,5) by (auto simp: insert_commute)
  obtain g3 where "addTask 3 [1, 2] ''right'' g2 = Inr (3, g3)" "acyclic (edges g3)"
    "edges g3 = {(1, 2), (1, 3), (2, 3)}"
    using addTask_extends [OF g2(2,3), of 3 "[1, 2]" "''right''"] g2(4,5) by (auto simp: insert_commute)
  then show ?thesis using g1(1) g2(1) by blast
qed

end
