(* ===== verification/Spec2Isabelle.thy ===== *)
theory Spec2Isabelle
  imports ElfReader ElfBuild ElfRoundTrip ElfLayout ElfNotes ElfDynamic ElfRelocs ElfHash ElfSymbols ElfSave ElfFile ElfStrings ElfSection ElfTypes HsaCore KiteLaws Kite Helpers HipLaunch CmdLineLaws CmdLine SparseLaws Sparse Streams MatrixLaws MatrixOps Matrix Prepare OutOfCoreRun PartTasks Stages Slots OutOfCore Partition Buffers Bfs KernNames CodeBlobs Batch Device HsaExec KernState HsaState Dispatch Aql PtrBits Containers Memory Pool MixedExec DagManager
begin

text \<open>
  A model of DAGEE, a C++ library that runs graphs of tasks on CPUs and GPUs: \<open>src/DAGEE-lib\<close>
  (headers under \<open>include/dagee\<close> over the ATMI and HIP runtimes, under \<open>include/dagr\<close> directly
  over HSA) and the utilities \<open>src/cppUtils\<close> they share. All of it is header code; a client
  registers kernels, builds a graph whose nodes hold task instances, and hands the graph to an
  executor. The executor walks the graph in topological order and turns every node into a task of
  the runtime that waits for the tasks of the node's predecessors; in the HSA back end the tasks
  become packets in the rings of queues. Around that stand the allocators of argument buffers,
  signals and queues, the packers of kernel arguments, the tables of kernels read from the program
  file, the library that reads and writes ELF files, and the partitions with which a problem larger
  than the device memory is run.

  Conventions (theory \<open>Prelude\<close>). The model is the build with assertions. A failed assertion, a call
  of \<open>std::abort\<close>, an operation that C++ leaves undefined and a member that the chosen template
  instance lacks are the values \<open>Inl (AssertFail _)\<close>, \<open>Inl (Aborted _)\<close>, \<open>Inl (Undefined _)\<close> and
  \<open>Inl (NoMember _)\<close>. Code that may wait forever returns an \<open>option\<close>, with \<open>None\<close> for not returning.
  Pointers are addresses or indices into the list or map of the objects they point to, sizes are
  natural numbers with the wrap-around of subtractions written out (\<open>size_sub\<close>), as is that of the sums
  over partitions; integers whose width matters are words. A standard algorithm called outside its
  precondition (\<open>std::includes\<close> on a range that is not sorted) is \<open>Undefined\<close>, an exception of the library
  (\<open>resize\<close> beyond \<open>max_size\<close>) is \<open>Aborted\<close>, and a call whose template cannot be instantiated, as that of
  the packer of \<open>dagr/kernel.h\<close> with an argument, is \<open>NoMember\<close>. Template parameters are arguments. What the runtimes answer (addresses, handles,
  the values of signals and read indices, the contents of files) is an argument of the definitions
  that ask; what is relied on is a hypothesis of the theorem.

  Theories, in the order of the code.

  Utilities. \<open>Bits\<close>, \<open>BitsLaws\<close> and \<open>PtrBits\<close>: \<open>cpputils/BitUtil.h\<close>; each operation is described bit by
  bit, and removal, insertion and replacement by mask, by indices and by inner masks are related.
  \<open>Containers\<close>: \<open>VectorBasedSet\<close> of \<open>Container.h\<close>, refined to sets. \<open>Heap\<close> (\<open>Heap.h\<close>) and \<open>Pool\<close>
  (\<open>Allocator.h\<close>, and the pools of signals and queues of \<open>dagr/hsaCore.h\<close> and \<open>dagr/queue.h\<close>): both are
  instances of the locale in \<open>Lending\<close>, a shelf from which objects are lent and to which they return;
  nothing is lent twice. \<open>Matrix\<close>, \<open>MatrixOps\<close>, \<open>MatrixLaws\<close>: \<open>Matrix.h\<close> and \<open>MatrixHelper.h\<close>; plain and
  tiled matrices are instances of one contract, a dense view of an array, over which the helpers are
  proved. \<open>Decimal\<close> and \<open>Streams\<close>: numbers, lines and the extraction from string streams, with
  \<open>StringHelp.h\<close>; on them \<open>Sparse\<close> and \<open>SparseLaws\<close> (\<open>SparseMatrix.h\<close>: from the text of a file to
  adjacency lists and to the compressed form) and \<open>CmdLine\<close> and \<open>CmdLineLaws\<close> (\<open>CmdLine.h\<close>: a grammar
  that the parser accepts exactly). \<open>Helpers\<close>: \<open>Timer.h\<close>, \<open>Stat.h\<close>, \<open>CheckError.h\<close>.

  Task graphs. \<open>TaskDag\<close> models \<open>DAGbase\<close> of \<open>dagee/TaskDAG.h\<close> with its three layouts of nodes and
  all its operations; \<open>DagLaws\<close> states its contract as a locale, a finite directed graph, and interprets
  it for each layout. \<open>Topo\<close> is \<open>forEachNode_TopoOrder\<close>, with its work list and counters: on acyclic
  graphs it visits every node once and after its predecessors, on others it returns and never
  reaches a cycle. \<open>MixedDag\<close> and \<open>DagManager\<close> hold the pointers tagged with the index of a type, the
  graph with data of several types and the owner of graphs, and who releases what after any history of
  graphs made and destroyed.

  ATMI back end. \<open>KernArgs\<close>: the packer of \<open>ATMIcoreDef.h\<close>, byte for byte, and that of \<open>dagr/kernel.h\<close>,
  which compiles only for kernels without arguments; its loop, which no instance reaches, is related to
  the first packer.
  \<open>Atmi\<close>: registration, launch parameters and the calls of the runtime as a list of events, from
  \<open>ATMIcoreDef.h\<close>, \<open>ATMIbaseExecutor.h\<close> and the executors for CPU, GPU and copies. \<open>AtmiDag\<close>:
  \<open>ATMIdagExecutor.h\<close>, with the meaning of the runtime, a step relation on tasks that are activated,
  run and finish, and the proof that activating the sources and waiting for the sinks is enough.
  \<open>MixedExec\<close>: the same for \<open>ATMImixedDAGexecutor.h\<close> and \<open>SingleDAGexecutor.h\<close>. \<open>Buffers\<close>:
  \<open>DeviceAlloc.h\<close> and \<open>ATMIalloc.h\<close>.

  Out-of-core execution. \<open>Partition\<close> (\<open>Partition.h\<close>) and \<open>OutOfCore\<close> (\<open>OutOfCoreATMIexecutor.h\<close>);
  \<open>Slots\<close>, the assignment of device data, \<open>Stages\<close>, pieces of a schedule with one entry and one exit,
  \<open>PartTasks\<close>, the tasks of one partition, \<open>OutOfCoreRun\<close>, the run of all, and \<open>Prepare\<close>, which puts them
  together.

  HSA back end. \<open>HsaCore\<close>: the thin layer over the runtime, attributes of agents, the factories of
  signals and queues, the waits, and the copies of \<open>DeviceMemManager\<close> (\<open>hsaCore.h\<close>, \<open>queue.h\<close>,
  \<open>memory.h\<close>). \<open>Memory\<close>: the allocators of \<open>dagr/memory.h\<close>. \<open>Aql\<close>: packets and headers (\<open>hsaCore.h\<close>,
  \<open>kernel.h\<close>), for any numbering the runtime may choose. \<open>Dispatch\<close>: the producer side of a queue
  (\<open>queue.h\<close>). \<open>HsaState\<close> and \<open>KernState\<close>: agents, regions, executables and registered kernels
  (\<open>hsaCore.h\<close>, \<open>memory.h\<close>, \<open>hsaMemPool.h\<close>, \<open>binary.h\<close>, \<open>kernel.h\<close>); what holds of the tables of kernels
  is stated after any sequence of registrations. \<open>CodeBlobs\<close> and \<open>KernNames\<close>:
  \<open>dagee/ProgInfo.h\<close>, the code objects in the program file and the names of kernels. \<open>HsaExec\<close>: the ordered
  and the unordered executor (\<open>executor.h\<close>). \<open>Device\<close>: the documented behaviour of the packet
  processor, a step relation. \<open>Batch\<close> and \<open>Bfs\<close>: a batch from its start to the wait, and
  \<open>dagExecutor.h\<close>, a graph run level by level as batches. \<open>HipLaunch\<close>: \<open>dagee/HIPinternal.h\<close>,
  \<open>HIPsyncExecutor.h\<close> and \<open>DataParFor.h\<close>; its packer writes the same bytes as that of the ATMI tasks. \<open>Kite\<close> and \<open>KiteLaws\<close>: \<open>dagee/HSAexecutor.h\<close>, single dispatches
  and four kernels in the shape of a kite, over the same packet processor.

  ELF files (\<open>include/elfio\<close>). \<open>ElfTypes\<close>: the conversion between byte orders, which reverses the bytes
  of a number, \<open>elf_hash\<close>, and the structures of \<open>elf_types.hpp\<close> as lists of fields of fixed width. \<open>ElfSection\<close>:
  sections with their header in the byte order of the file and a data buffer that grows, and string
  tables; \<open>ElfStrings\<close> states what a section holds, an invariant that appending keeps, from which all
  read-back properties follow. \<open>ElfFile\<close>: header, segments, creation and loading; \<open>ElfSave\<close>: the order of
  the segments, the layout and the writing. \<open>ElfSymbols\<close>, \<open>ElfRelocs\<close> and \<open>ElfDynamic\<close>: the tables of a file,
  instances of the locale \<open>elf_table\<close> of entries of one size; \<open>ElfHash\<close>, the search of a symbol through the
  hash table; \<open>ElfNotes\<close>. An accessor is the file with the index of its section. \<open>ElfLayout\<close> and
  \<open>ElfRoundTrip\<close>: the places of the parts in the file do not overlap, and \<open>load\<close> inverts \<open>save\<close> on files without
  segments; \<open>ElfBuild\<close>: files built from nothing stay such files. \<open>ElfReader\<close> connects this to
  \<open>dagee/ProgInfo.h\<close>: the table of kernel names, from the bytes of the program file.

  Bounds and fuel. No definition has a fuel argument. Loops over containers are folds (\<open>for_each\<close>) or
  structural recursion; the traversal, the level loop, the cutting of a heap block and the busy
  waits are \<open>partial_function (option)\<close>, and the properties state when they return. Theorems about
  addresses assume that they stay below \<open>2 ^ 64\<close>, and name each other bound (such as 32-bit grids or edge
  counts) as a hypothesis; those about growing ELF sections assume that allocations succeed and that
  the data stay below \<open>2 ^ 28\<close> bytes, so that doubling the buffer stays in 32 bits.

  Not modelled. \<open>BLASwrap.h\<close>, and the examples, tests and tools. Output and files (\<open>elfio_dump.hpp\<close>, \<open>Print.h\<close>, \<open>FileIO.h\<close>, \<open>printMatrix\<close>). Allocator aliases (\<open>AllocFactory.h\<close>,
  \<open>AlignedAllocator.h\<close>), casts and macros (\<open>StaticPolyBase.h\<close>, \<open>CompilerTricks.h\<close>, \<open>coreDef.h\<close>), empty
  kernels, the enumerations of \<open>DeviceDAG.h\<close>. Code that cannot be compiled, because it names members
  that do not exist or passes arguments in the wrong order: \<open>Gauge.h\<close>, \<open>executeDAG\<close> of
  \<open>HSAexecutor.h\<close>, \<open>makeBarrierTree\<close> of \<open>dagr/kernel.h\<close>, \<open>OutOfCoreSynchronousExecutor\<close>. Memory orders of
  atomic operations: the runtimes and the packet processor are taken to be sequentially
  consistent.
\<close>

end
